(* ===== verification/Prelude.thy ===== *)
theory Prelude
  imports Main "HOL-Library.Word" "HOL-Library.AList"
begin

text \<open>
  Shared vocabulary of the development: Go slice primitives (the built-in \<open>copy\<close>, growing and
  shrinking a slice by one element), positional edits on lists addressed by Go's signed
  \<open>int\<close>, and the lemma collections the component theories extend.

  Go's \<open>int\<close> is modelled by HOL's unbounded \<open>int\<close>; counters that only ever index slices are
  \<open>nat\<close>. Where the width of an integer decides the outcome (the packed records of the piece
  tree) the component uses words.
\<close>

named_theorems list_edit "positional edits on lists"
named_theorems content_simps "what an operation does to the byte addresses of a document"
named_theorems inv_intros "operations preserve the invariant of their component"

type_synonym byte = "8 word"

subsection \<open>Go slices\<close>

text \<open>Go's \<open>copy(dst[d:], src)\<close>: as many elements as fit, with memmove semantics.\<close>

definition copy_at :: "nat \<Rightarrow> 'a list \<Rightarrow> 'a list \<Rightarrow> 'a list" where
  "copy_at d src dst = take d dst @ take (length dst - d) src @ drop (d + length src) dst"

text \<open>Growing a slice by one zero value, shifting the tail and storing the element.\<close>

definition slice_insert :: "'a \<Rightarrow> nat \<Rightarrow> 'a \<Rightarrow> 'a list \<Rightarrow> 'a list" where
  "slice_insert z i v a = (let a' = a @ [z] in (copy_at (i + 1) (drop i a') a')[i := v])"

text \<open>Shifting the tail down over element \<open>i\<close> and dropping the last slot.\<close>

definition slice_remove :: "nat \<Rightarrow> 'a list \<Rightarrow> 'a list" where
  "slice_remove i a = take (length a - 1) (copy_at i (drop (i + 1) a) a)"

lemma length_copy_at [simp]: "d \<le> length dst \<Longrightarrow> length (copy_at d src dst) = length dst"
  by (simp add: copy_at_def)

lemma copy_at_fit:
  "d + length src \<le> length dst \<Longrightarrow> copy_at d src dst = take d dst @ src @ drop (d + length src) dst"
  by (simp add: copy_at_def)

lemma slice_insert_eq [list_edit]:
  assumes "i \<le> length a"
  shows "slice_insert z i v a = take i a @ v # drop i a"
proof -
  have "take (i + 1) (a @ [z]) = take i (a @ [z]) @ [(a @ [z]) ! i]"
    using assms by (simp add: take_Suc_conv_app_nth del: take_append)
  then have "take (i + 1) (a @ [z]) = take i a @ [(a @ [z]) ! i]"
    using assms by simp
  moreover have "copy_at (i + 1) (drop i (a @ [z])) (a @ [z]) = take (i + 1) (a @ [z]) @ drop i a"
    using assms by (simp add: copy_at_def)
  ultimately show ?thesis
    using assms by (simp add: slice_insert_def list_update_append)
qed

lemma slice_remove_eq [list_edit]:
  assumes "i < length a"
  shows "slice_remove i a = take i a @ drop (i + 1) a"
  using assms by (simp add: slice_remove_def copy_at_def)

text \<open>Rewriting a slice in place from an offset on.\<close>

definition at_slice :: "nat \<Rightarrow> ('a list \<Rightarrow> 'a list) \<Rightarrow> 'a list \<Rightarrow> 'a list" where
  "at_slice d f b = take d b @ f (drop d b)"

subsection \<open>Ranges of lists addressed by signed offsets\<close>

text \<open>The reference semantics of every edit: cut the range out, put the new elements in.\<close>

definition sub_range :: "int \<Rightarrow> int \<Rightarrow> 'a list \<Rightarrow> 'a list" where
  "sub_range pos n xs = take (nat n) (drop (nat pos) xs)"

definition cut_range :: "int \<Rightarrow> int \<Rightarrow> 'a list \<Rightarrow> 'a list" where
  "cut_range pos n xs = take (nat pos) xs @ drop (nat pos + nat n) xs"

definition put_at :: "int \<Rightarrow> 'a list \<Rightarrow> 'a list \<Rightarrow> 'a list" where
  "put_at pos ys xs = take (nat pos) xs @ ys @ drop (nat pos) xs"

lemma length_put_at [simp]: "length (put_at pos ys xs) = length xs + length ys"
  by (simp add: put_at_def)

lemma put_at_Nil [simp]: "put_at pos [] xs = xs"
  by (simp add: put_at_def)

lemma set_put_at [simp]: "set (put_at pos ys xs) = set xs \<union> set ys"
  by (metis append_take_drop_id put_at_def set_append sup.left_commute sup_commute)

lemma set_cut_range: "set (cut_range pos n xs) \<subseteq> set xs"
  by (auto simp: cut_range_def dest: in_set_takeD in_set_dropD)

lemma length_cut_range:
  "0 \<le> pos \<Longrightarrow> 0 \<le> n \<Longrightarrow> pos + n \<le> int (length xs) \<Longrightarrow>
   int (length (cut_range pos n xs)) = int (length xs) - n"
  by (simp add: cut_range_def)

lemma length_sub_range:
  "0 \<le> pos \<Longrightarrow> 0 \<le> n \<Longrightarrow> pos + n \<le> int (length xs) \<Longrightarrow> int (length (sub_range pos n xs)) = n"
  by (simp add: sub_range_def)

lemma cut_range_0 [simp]: "cut_range pos 0 xs = xs"
  by (simp add: cut_range_def)

lemma sub_range_0 [simp]: "sub_range pos 0 xs = []"
  by (simp add: sub_range_def)

lemma sub_range_all: "sub_range 0 (int (length xs)) xs = xs"
  by (simp add: sub_range_def)

lemma cut_put_same:
  assumes "0 \<le> pos" "pos \<le> int (length xs)"
  shows "cut_range pos (int (length ys)) (put_at pos ys xs) = xs"
  using assms by (simp add: cut_range_def put_at_def)

lemma put_cut_same:
  assumes "0 \<le> pos" "0 \<le> n" "pos + n \<le> int (length xs)"
  shows "put_at pos (sub_range pos n xs) (cut_range pos n xs) = xs"
proof -
  have len: "length (take (nat pos) xs) = nat pos" using assms by simp
  have "put_at pos (sub_range pos n xs) (cut_range pos n xs)
        = take (nat pos) xs @ take (nat n) (drop (nat pos) xs) @ drop (nat pos + nat n) xs"
    using len by (simp add: put_at_def cut_range_def sub_range_def)
  also have "\<dots> = take (nat pos) xs @ drop (nat pos) xs"
    by (metis add.commute append_take_drop_id drop_drop)
  finally show ?thesis by simp
qed

text \<open>An edit to the right of a range leaves it in place, an edit to its left shifts it.\<close>

lemma sub_range_put_right:
  assumes "0 \<le> p" "0 \<le> n" "p + n \<le> pos" "pos \<le> int (length xs)"
  shows "sub_range p n (put_at pos ys xs) = sub_range p n xs"
proof -
  have a: "nat p + nat n \<le> nat pos" "nat pos \<le> length xs" using assms by linarith+
  have "take (nat n) (drop (nat p) (take (nat pos) xs)) = take (nat n) (drop (nat p) xs)"
    using a by (simp add: drop_take take_take min_def)
  then show ?thesis using a by (simp add: sub_range_def put_at_def)
qed

lemma sub_range_put_left:
  assumes "0 \<le> pos" "pos \<le> p" "0 \<le> n" "p + n \<le> int (length xs)"
  shows "sub_range (p + int (length ys)) n (put_at pos ys xs) = sub_range p n xs"
proof -
  have a: "nat pos \<le> nat p" "nat p \<le> length xs" using assms by linarith+
  have "nat (p + int (length ys)) = nat p + length ys" using assms by linarith
  then have "drop (nat (p + int (length ys))) (put_at pos ys xs) = drop (nat p) xs"
    using a by (simp add: put_at_def)
  then show ?thesis by (simp add: sub_range_def)
qed

lemma sub_range_cut_right:
  assumes "0 \<le> p" "0 \<le> n" "p + n \<le> pos" "pos \<le> int (length xs)"
  shows "sub_range p n (cut_range pos k xs) = sub_range p n xs"
proof -
  have a: "nat p + nat n \<le> nat pos" "nat pos \<le> length xs" using assms by linarith+
  have "take (nat n) (drop (nat p) (take (nat pos) xs)) = take (nat n) (drop (nat p) xs)"
    using a by (simp add: drop_take take_take min_def)
  then show ?thesis using a by (simp add: sub_range_def cut_range_def)
qed

lemma sub_range_cut_left:
  assumes "0 \<le> pos" "0 \<le> k" "pos + k \<le> p" "p \<le> int (length xs)"
  shows "sub_range (p - k) n (cut_range pos k xs) = sub_range p n xs"
proof -
  have a: "nat (p - k) = nat p - nat k" "nat pos \<le> nat p - nat k" "nat pos + nat k \<le> nat p"
      "nat p \<le> length xs"
    using assms by linarith+
  then have "drop (nat (p - k)) (cut_range pos k xs) = drop (nat p) xs"
    by (simp add: cut_range_def)
  then show ?thesis by (simp add: sub_range_def)
qed

subsection \<open>Sums over lists of non-negative integers\<close>

lemma sum_list_nonneg_int: "(\<And>x. x \<in> set xs \<Longrightarrow> 0 \<le> f x) \<Longrightarrow> 0 \<le> (\<Sum>x\<leftarrow>xs. (f x :: int))"
  by (induction xs) auto

lemma sum_list_take_nth:
  "i < length xs \<Longrightarrow> (\<Sum>x\<leftarrow>xs. (f x :: int)) = (\<Sum>x\<leftarrow>take i xs. f x) + f (xs ! i) + (\<Sum>x\<leftarrow>drop (Suc i) xs. f x)"
  by (subst id_take_nth_drop [of i xs]) (simp_all del: append_take_drop_id)

lemma sum_list_update_int:
  "i < length xs \<Longrightarrow> sum_list (xs[i := v]) = sum_list xs - (xs ! i) + (v :: int)"
  by (induction xs arbitrary: i) (auto split: nat.split)

lemma map_update_same: "i < length xs \<Longrightarrow> map f (xs[i := x]) = (map f xs)[i := f x]"
  by (rule map_update)

lemma concat_map_update:
  "i < length xs \<Longrightarrow>
   concat (map f (xs[i := x])) = concat (map f (take i xs)) @ f x @ concat (map f (drop (Suc i) xs))"
  by (simp add: upd_conv_take_nth_drop)

lemma concat_map_nth:
  "i < length xs \<Longrightarrow>
   concat (map f xs) = concat (map f (take i xs)) @ f (xs ! i) @ concat (map f (drop (Suc i) xs))"
  by (subst id_take_nth_drop [of i xs]) (simp_all del: append_take_drop_id)

text \<open>A child of a node is smaller than the node: what the tree recursions terminate by.\<close>

lemma size_nth_le [termination_simp]: "i < length cs \<Longrightarrow> size (cs ! i) \<le> size_list size cs"
  by (meson nth_mem order_refl size_list_estimation')

lemma size_nth_less [termination_simp]: "i < length cs \<Longrightarrow> size (cs ! i) < Suc (size_list size cs)"
  by (simp add: size_nth_le less_Suc_eq_le)

lemma size_nth_le_Suc [termination_simp]: "i < length cs \<Longrightarrow> size (cs ! i) \<le> Suc (size_list size cs)"
  by (simp add: size_nth_le le_SucI)

subsection \<open>Searching sorted slices\<close>

text \<open>\<open>sort.SearchInts\<close> on a sorted slice: the number of smaller elements.\<close>

definition SearchInts :: "int list \<Rightarrow> int \<Rightarrow> nat" where
  "SearchInts offs x = length (takeWhile (\<lambda>v. v < x) offs)"

lemma split_at_search:
  assumes "sorted offs"
  shows "take (SearchInts offs x) offs = takeWhile (\<lambda>v. v < x) offs" "drop (SearchInts offs x) offs = dropWhile (\<lambda>v. v < x) offs"
    "v \<in> set (takeWhile (\<lambda>v. v < x) offs) \<Longrightarrow> v < x" "v \<in> set (dropWhile (\<lambda>v. v < x) offs) \<Longrightarrow> x \<le> v"
proof -
  show "take (SearchInts offs x) offs = takeWhile (\<lambda>v. v < x) offs" "drop (SearchInts offs x) offs = dropWhile (\<lambda>v. v < x) offs"
    by (simp_all add: SearchInts_def takeWhile_eq_take[symmetric] dropWhile_eq_drop[symmetric])
  show "v \<in> set (takeWhile (\<lambda>v. v < x) offs) \<Longrightarrow> v < x" by (rule set_takeWhileD[THEN conjunct2])
  show "v \<in> set (dropWhile (\<lambda>v. v < x) offs) \<Longrightarrow> x \<le> v" using assms
    by (induction offs) (auto split: if_splits)
qed

end
