(* ===== verification/Pieces.thy ===== *)
theory Pieces
  imports Prelude
begin

text \<open>
  Piece records, the append-only text stores they point into and the range helpers every buffer
  shares: \<open>internal/piecetable/store.go\<close>, \<open>buffer.go\<close> and \<open>PieceRec\<close> of \<open>flatpieces.go\<close>.

  The abstraction of a document is the list of its byte addresses: one pair (store, offset) per
  document byte. It determines both the text and the authorship, and an edit of the pieces is an
  edit of this list.
\<close>

section \<open>Stores\<close>

type_synonym author = int

definition Original :: author where "Original = 0"
definition User :: author where "User = 1"
definition Agent :: author where "Agent = 2"

definition IsAgent :: "author \<Rightarrow> bool" where
  "IsAgent a \<longleftrightarrow> Agent \<le> a"

text \<open>\<open>Author(p.Buf)\<close> converts an \<open>int\<close> to \<open>uint8\<close>.\<close>

definition author_of :: "int \<Rightarrow> author" where
  "author_of b = b mod 256"

record store =
  texts :: "byte list list"

definition NewStore :: "byte list \<Rightarrow> store" where
  "NewStore orig = \<lparr>texts = [orig, [], []]\<rparr>"

definition store_grow :: "store \<Rightarrow> author \<Rightarrow> store" where
  "store_grow s a = s\<lparr>texts := texts s @ replicate (nat a + 1 - length (texts s)) []\<rparr>"

definition store_Append :: "store \<Rightarrow> author \<Rightarrow> byte list \<Rightarrow> int \<times> store" where
  "store_Append s a text =
     (let s1 = store_grow s a;
          start = int (length (texts s1 ! nat a))
      in (start, s1\<lparr>texts := (texts s1)[nat a := texts s1 ! nat a @ text]\<rparr>))"

definition store_Slice :: "store \<Rightarrow> author \<Rightarrow> int \<Rightarrow> int \<Rightarrow> byte list" where
  "store_Slice s a start len =
     (if int (length (texts s)) \<le> a then []
      else let b = texts s ! nat a in
        if start < 0 \<or> len < 0 \<or> int (length b) < start \<or> int (length b) - start < len then []
        else sub_range start len b)"

definition store_Len :: "store \<Rightarrow> author \<Rightarrow> int" where
  "store_Len s a = (if int (length (texts s)) \<le> a then 0 else int (length (texts s ! nat a)))"

definition store_Authors :: "store \<Rightarrow> int" where
  "store_Authors s = int (length (texts s))"

definition store_Bytes :: "store \<Rightarrow> int" where
  "store_Bytes s = (\<Sum>t\<leftarrow>texts s. int (length t))"

text \<open>Everything a store held before stays where it was: the order on stores that every
  operation of the program climbs.\<close>

definition store_le :: "store \<Rightarrow> store \<Rightarrow> bool" where
  "store_le s s' \<longleftrightarrow> length (texts s) \<le> length (texts s') \<and>
     (\<forall>i < length (texts s). \<exists>t. texts s' ! i = texts s ! i @ t)"

lemma store_le_refl [simp, intro]: "store_le s s"
  by (simp add: store_le_def)

lemma store_leD:
  assumes "store_le s s'" "i < length (texts s)"
  obtains t where "texts s' ! i = texts s ! i @ t"
  using assms unfolding store_le_def by blast

lemma store_le_trans:
  assumes "store_le a b" "store_le b c"
  shows "store_le a c"
proof -
  have "\<exists>t. texts c ! i = texts a ! i @ t" if "i < length (texts a)" for i
  proof -
    from assms(1) that obtain t where "texts b ! i = texts a ! i @ t"
      by (rule store_leD)
    moreover have "i < length (texts b)" using assms(1) that by (simp add: store_le_def)
    with assms(2) obtain u where "texts c ! i = texts b ! i @ u"
      by (rule store_leD)
    ultimately show ?thesis by simp
  qed
  then show ?thesis using assms by (auto simp: store_le_def)
qed

lemma store_grow_texts:
  "i < length (texts s) \<Longrightarrow> texts (store_grow s a) ! i = texts s ! i"
  "0 \<le> a \<Longrightarrow> nat a < length (texts (store_grow s a))"
  "length (texts s) \<le> length (texts (store_grow s a))"
  by (auto simp: store_grow_def nth_append)

lemma store_le_Append:
  assumes "0 \<le> a"
  shows "store_le s (snd (store_Append s a t))"
proof -
  have "\<exists>u. texts (snd (store_Append s a t)) ! i = texts s ! i @ u" if "i < length (texts s)" for i
    using that assms store_grow_texts(1)[of i s a] store_grow_texts(2)[of a s]
    by (cases "i = nat a") (auto simp: store_Append_def Let_def)
  then show ?thesis
    using store_grow_texts(3)[of s a] by (simp add: store_le_def store_Append_def Let_def)
qed

lemma store_Slice_in:
  assumes "0 \<le> a" "a < int (length (texts s))" "0 \<le> start" "0 \<le> len"
    "start + len \<le> int (length (texts s ! nat a))"
  shows "store_Slice s a start len = sub_range start len (texts s ! nat a)"
  using assms by (auto simp: store_Slice_def Let_def)

lemma store_Slice_mono:
  assumes le: "store_le s s'" and a: "0 \<le> a" "a < int (length (texts s))"
    and r: "0 \<le> start" "0 \<le> len" "start + len \<le> int (length (texts s ! nat a))"
  shows "store_Slice s' a start len = store_Slice s a start len"
proof -
  have "nat a < length (texts s)" using a by linarith
  with le obtain t where t: "texts s' ! nat a = texts s ! nat a @ t"
    by (rule store_leD)
  have "length (texts s) \<le> length (texts s')" using le by (simp add: store_le_def)
  moreover have "sub_range start len (texts s ! nat a @ t) = sub_range start len (texts s ! nat a)"
    using r by (simp add: sub_range_def)
  ultimately show ?thesis
    using a r t by (simp add: store_Slice_in)
qed

section \<open>Piece records\<close>

record PieceRec =
  Buf :: int
  Start :: int
  Length :: int

abbreviation piece :: "int \<Rightarrow> int \<Rightarrow> int \<Rightarrow> PieceRec" where
  "piece b s l \<equiv> \<lparr>Buf = b, Start = s, Length = l\<rparr>"

definition recsLen :: "PieceRec list \<Rightarrow> int" where
  "recsLen recs = (\<Sum>r\<leftarrow>recs. Length r)"

type_synonym addr = "int \<times> int"

text \<open>The addresses a piece stands for, and those of a list of pieces.\<close>

definition addrs :: "PieceRec \<Rightarrow> addr list" where
  "addrs p = map (\<lambda>k. (Buf p, Start p + int k)) [0..<nat (Length p)]"

definition flat :: "PieceRec list \<Rightarrow> addr list" where
  "flat ps = concat (map addrs ps)"

definition lens_ok :: "PieceRec list \<Rightarrow> bool" where
  "lens_ok ps \<longleftrightarrow> (\<forall>p \<in> set ps. 0 \<le> Length p)"

lemma recsLen_simps [simp]:
  "recsLen [] = 0" "recsLen (p # ps) = Length p + recsLen ps" "recsLen (ps @ qs) = recsLen ps + recsLen qs"
  by (simp_all add: recsLen_def)

lemma flat_simps [simp]:
  "flat [] = []" "flat (p # ps) = addrs p @ flat ps" "flat (ps @ qs) = flat ps @ flat qs"
  by (simp_all add: flat_def)

lemma lens_ok_simps [simp]:
  "lens_ok []" "lens_ok (p # ps) \<longleftrightarrow> 0 \<le> Length p \<and> lens_ok ps"
  "lens_ok (ps @ qs) \<longleftrightarrow> lens_ok ps \<and> lens_ok qs"
  by (auto simp: lens_ok_def)

lemma lens_ok_takeD [intro]: "lens_ok ps \<Longrightarrow> lens_ok (take n ps)"
  and lens_ok_dropD [intro]: "lens_ok ps \<Longrightarrow> lens_ok (drop n ps)"
  by (auto simp: lens_ok_def dest: in_set_takeD in_set_dropD)

lemma length_addrs [simp]: "length (addrs p) = nat (Length p)"
  by (simp add: addrs_def)

lemma length_flat: "lens_ok ps \<Longrightarrow> int (length (flat ps)) = recsLen ps"
  by (induction ps) auto

lemma recsLen_nonneg: "lens_ok ps \<Longrightarrow> 0 \<le> recsLen ps"
  by (induction ps) auto

lemma addrs_empty [simp]: "Length p \<le> 0 \<Longrightarrow> addrs p = []"
  by (simp add: addrs_def)

text \<open>Splitting a piece splits its addresses.\<close>

lemma addrs_take:
  "off \<le> l \<Longrightarrow> addrs (piece b s off) = take (nat off) (addrs (piece b s l))"
  by (simp add: addrs_def take_map)

lemma addrs_drop:
  assumes "0 \<le> off" "off \<le> l"
  shows "addrs (piece b (s + off) (l - off)) = drop (nat off) (addrs (piece b s l))"
proof (rule nth_equalityI)
  show "length (addrs (piece b (s + off) (l - off))) = length (drop (nat off) (addrs (piece b s l)))"
    using assms by simp
next
  fix i assume "i < length (addrs (piece b (s + off) (l - off)))"
  then show "addrs (piece b (s + off) (l - off)) ! i = drop (nat off) (addrs (piece b s l)) ! i"
    using assms by (simp add: addrs_def)
qed

lemma addrs_sub:
  assumes "0 \<le> off" "0 \<le> n" "off + n \<le> l"
  shows "addrs (piece b (s + off) n) = take (nat n) (drop (nat off) (addrs (piece b s l)))"
  using assms addrs_drop[of off l b s] addrs_take[of n "l - off" b "s + off"] by simp

lemma piece_eta [simp]: "piece (Buf p) (Start p) (Length p) = (p :: PieceRec)"
  by simp

lemma addrs_split:
  assumes "0 \<le> off" "off \<le> Length p"
  shows "addrs (piece (Buf p) (Start p) off) @ addrs (piece (Buf p) (Start p + off) (Length p - off)) = addrs p"
  using assms addrs_take[of off "Length p" "Buf p" "Start p"] addrs_drop[of off "Length p" "Buf p" "Start p"]
  by simp

lemma Length_update_addrs: "addrs (p\<lparr>Length := n\<rparr>) = addrs (piece (Buf p) (Start p) n)"
  by (simp add: addrs_def)

section \<open>Pieces inside a store, and their text\<close>

definition rec_in_store :: "store \<Rightarrow> PieceRec \<Rightarrow> bool" where
  "rec_in_store st p \<longleftrightarrow> 0 \<le> Buf p \<and> Buf p < 256 \<and> Buf p < int (length (texts st)) \<and>
     0 \<le> Start p \<and> 0 \<le> Length p \<and> Start p + Length p \<le> int (length (texts st ! nat (Buf p)))"

definition byte_at :: "store \<Rightarrow> addr \<Rightarrow> byte" where
  "byte_at st a = (texts st ! nat (fst a)) ! nat (snd a)"

definition rec_text :: "store \<Rightarrow> PieceRec \<Rightarrow> byte list" where
  "rec_text st p = store_Slice st (author_of (Buf p)) (Start p) (Length p)"

definition recs_text :: "store \<Rightarrow> PieceRec list \<Rightarrow> byte list" where
  "recs_text st ps = concat (map (rec_text st) ps)"

lemma recs_text_simps [simp]:
  "recs_text st [] = []" "recs_text st (p # ps) = rec_text st p @ recs_text st ps"
  "recs_text st (ps @ qs) = recs_text st ps @ recs_text st qs"
  by (simp_all add: recs_text_def)

lemma rec_text_bytes:
  assumes "rec_in_store st p"
  shows "rec_text st p = map (byte_at st) (addrs p)"
proof -
  have b: "author_of (Buf p) = Buf p" using assms by (simp add: rec_in_store_def author_of_def)
  let ?t = "texts st ! nat (Buf p)"
  have "rec_text st p = sub_range (Start p) (Length p) ?t"
    using assms by (simp add: rec_text_def b store_Slice_in rec_in_store_def)
  also have "\<dots> = map (byte_at st) (addrs p)"
  proof (rule nth_equalityI)
    show "length (sub_range (Start p) (Length p) ?t) = length (map (byte_at st) (addrs p))"
      using assms by (simp add: sub_range_def rec_in_store_def) linarith
  next
    fix i assume i: "i < length (sub_range (Start p) (Length p) ?t)"
    then have "i < nat (Length p)" "nat (Start p) + i < length ?t"
      by (auto simp: sub_range_def)
    then show "sub_range (Start p) (Length p) ?t ! i = map (byte_at st) (addrs p) ! i"
      using assms by (simp add: sub_range_def addrs_def byte_at_def rec_in_store_def nat_add_distrib)
  qed
  finally show ?thesis .
qed

lemma recs_text_bytes:
  "\<forall>p \<in> set ps. rec_in_store st p \<Longrightarrow> recs_text st ps = map (byte_at st) (flat ps)"
  by (induction ps) (auto simp: rec_text_bytes)

lemma rec_in_store_mono:
  assumes "store_le st st'" "rec_in_store st p"
  shows "rec_in_store st' p"
proof -
  have lt: "nat (Buf p) < length (texts st)" using assms(2) by (auto simp: rec_in_store_def)
  with assms(1) obtain t where "texts st' ! nat (Buf p) = texts st ! nat (Buf p) @ t"
    by (rule store_leD)
  then show ?thesis using assms by (auto simp: rec_in_store_def store_le_def)
qed

lemma rec_text_mono:
  assumes "store_le st st'" "rec_in_store st p"
  shows "rec_text st' p = rec_text st p"
  unfolding rec_text_def
proof (rule store_Slice_mono[OF assms(1)])
  have b: "author_of (Buf p) = Buf p" using assms by (simp add: rec_in_store_def author_of_def)
  show "0 \<le> author_of (Buf p)" "author_of (Buf p) < int (length (texts st))"
    "0 \<le> Start p" "0 \<le> Length p"
    "Start p + Length p \<le> int (length (texts st ! nat (author_of (Buf p))))"
    using assms(2) by (simp_all add: b rec_in_store_def)
qed

lemma recs_text_mono:
  "store_le st st' \<Longrightarrow> \<forall>p \<in> set ps. rec_in_store st p \<Longrightarrow> recs_text st' ps = recs_text st ps"
  by (induction ps) (auto simp: rec_text_mono)

text \<open>What an author just appended reads back.\<close>

lemma rec_in_store_Append:
  assumes "0 \<le> a" "a < 256" "store_Append st a t = (start, st')"
  shows "rec_in_store st' (piece a start (int (length t)))"
    and "rec_text st' (piece a start (int (length t))) = t"
proof -
  have lt: "nat a < length (texts (store_grow st a))" using assms(1) by (rule store_grow_texts(2))
  have tx: "texts st' = (texts (store_grow st a))[nat a := texts (store_grow st a) ! nat a @ t]"
    and start: "start = int (length (texts (store_grow st a) ! nat a))"
    using assms(3) by (auto simp: store_Append_def Let_def)
  show in_st: "rec_in_store st' (piece a start (int (length t)))"
    using assms(1,2) lt by (auto simp: rec_in_store_def tx start)
  have "author_of a = a" using assms by (simp add: author_of_def)
  then show "rec_text st' (piece a start (int (length t))) = t"
    using in_st lt assms(1)
    by (simp add: rec_text_def store_Slice_in rec_in_store_def tx start sub_range_def)
qed

section \<open>Ranges and spans\<close>

record Span =
  sOff :: int
  sLen :: int
  sAuthor :: author

definition clampRange :: "int \<Rightarrow> int \<Rightarrow> int \<Rightarrow> int \<times> int" where
  "clampRange pos len tot =
     (let (pos, len) = (if pos < 0 then (0, len + pos) else (pos, len)) in
      if tot < pos then (tot, 0)
      else let len = (if len < 0 then 0 else len)
           in if tot < pos + len then (pos, tot - pos) else (pos, len))"

text \<open>The span list is kept in document order; merging looks at its last element.\<close>

definition appendSpan :: "Span list \<Rightarrow> int \<Rightarrow> int \<Rightarrow> author \<Rightarrow> Span list" where
  "appendSpan out off len a =
     (if len \<le> 0 then out
      else if out \<noteq> [] \<and> sAuthor (last out) = a \<and> sOff (last out) + sLen (last out) = off
      then butlast out @ [(last out)\<lparr>sLen := sLen (last out) + len\<rparr>]
      else out @ [\<lparr>sOff = off, sLen = len, sAuthor = a\<rparr>])"

lemma clampRange_bounds:
  assumes "0 \<le> tot" "clampRange pos len tot = (p, n)"
  shows "0 \<le> p" "0 \<le> n" "p + n \<le> tot"
  using assms by (auto simp: clampRange_def Let_def split: if_splits)

lemma clampRange_id:
  "0 \<le> pos \<Longrightarrow> 0 \<le> len \<Longrightarrow> pos + len \<le> tot \<Longrightarrow> clampRange pos len tot = (pos, len)"
  by (auto simp: clampRange_def)

lemma clampRange_idem:
  assumes "0 \<le> tot" "clampRange pos len tot = (p, n)"
  shows "clampRange p n tot = (p, n)"
  using clampRange_bounds[OF assms] by (rule clampRange_id)

text \<open>The clamped range denotes exactly the requested bytes that exist.\<close>

lemma clampRange_exact:
  assumes "0 \<le> tot" "clampRange pos len tot = (p, n)" "0 \<le> len"
  shows "{p..<p + n} = {pos..<pos + len} \<inter> {0..<tot}"
  using assms by (auto simp: clampRange_def Let_def split: if_splits)

section \<open>Properties\<close>

text \<open>The text stores are append-only: appending returns where the text starts, the text reads
  back from there, and every range of any store that could be read before reads the same afterwards.\<close>

theorem store_append_only:
  assumes "0 \<le> a" "a < 256" "store_Append s a t = (start, s')"
  shows "start = store_Len s a \<and> store_Slice s' a start (int (length t)) = t \<and>
    (\<forall>b i n. 0 \<le> b \<longrightarrow> 0 \<le> i \<longrightarrow> 0 \<le> n \<longrightarrow> i + n \<le> store_Len s b \<longrightarrow> store_Slice s' b i n = store_Slice s b i n)"
proof -
  have le: "store_le s s'" using store_le_Append[OF assms(1), of s t] assms(3) by simp
  have "start = store_Len s a"
    using assms(1,3) by (auto simp: store_Append_def Let_def store_grow_def store_Len_def nth_append)
  moreover have "store_Slice s' a start (int (length t)) = t"
    using rec_in_store_Append(2)[OF assms] assms(1,2) by (simp add: rec_text_def author_of_def)
  moreover have "store_Slice s' b i n = store_Slice s b i n"
    if "0 \<le> b" "0 \<le> i" "0 \<le> n" "i + n \<le> store_Len s b" for b i n
  proof (cases "b < int (length (texts s))")
    case True
    then show ?thesis using store_Slice_mono[OF le that(1) True that(2,3)] that(4) by (simp add: store_Len_def)
  next
    case False
    then have "n = 0" using that by (simp add: store_Len_def)
    then show ?thesis using that by (simp add: store_Slice_def Let_def)
  qed
  ultimately show ?thesis by blast
qed

theorem store_append_only_witness:
  "store_Slice (snd (store_Append (NewStore [1, 2]) 4 [9])) 0 0 2 = store_Slice (NewStore [1, 2]) 0 0 2"
proof -
  obtain i s' where a: "store_Append (NewStore [1, 2]) 4 [9] = (i, s')" by fastforce
  show ?thesis
    using store_append_only[OF _ _ a] a by (simp add: store_Len_def NewStore_def)
qed

text \<open>Clamping keeps exactly the requested bytes that exist, and always yields a usable range.\<close>

theorem clamp_exact:
  assumes "0 \<le> tot" "0 \<le> len"
  shows "(case clampRange pos len tot of (p, n) \<Rightarrow> 0 \<le> p \<and> 0 \<le> n \<and> p + n \<le> tot \<and> {p..<p + n} = {pos..<pos + len} \<inter> {0..<tot})"
  using assms clampRange_bounds[OF assms(1), of pos len] clampRange_exact[OF assms(1) _ assms(2), of pos]
  by (cases "clampRange pos len tot") auto

theorem clamp_exact_witness: "clampRange (- 2) 7 4 = (0, 4)"
  using clamp_exact[of 4 7 "- 2"] by (simp add: clampRange_def)

end
