(* ===== verification/Codec.thy ===== *)
theory Codec
  imports Pieces
begin

unbundle bit_operations_syntax

text \<open>
  The packed piece records of \<open>internal/piecetable/flatpieces.go\<close>: the width of a field, the
  little-endian codec for one field, one record of \<open>1 + 2w\<close> bytes, and \<open>FlatPieces\<close>, the flat
  array of records with its batch edits. The piece tree packs its leaves with the same records.
\<close>

section \<open>Field width\<close>

function WidthFor_loop :: "nat \<Rightarrow> int \<Rightarrow> nat" where
  "WidthFor_loop w maxLen =
     (if w < 8 \<and> push_bit (8 * w) (1 :: 64 word) \<le> word_of_int maxLen
      then WidthFor_loop (w + 1) maxLen else w)"
  by pat_completeness auto
termination by (relation "measure (\<lambda>(w, m). 8 - w)") auto

declare WidthFor_loop.simps [simp del]

definition WidthFor :: "int \<Rightarrow> nat" where
  "WidthFor maxLen = WidthFor_loop 1 maxLen"

lemma uint_push_bit_1: "w < 8 \<Longrightarrow> uint (push_bit (8 * w) (1 :: 64 word)) = 2 ^ (8 * w)"
proof -
  assume w: "w < 8"
  have "uint (push_bit (8 * w) (1 :: 64 word)) = take_bit 64 (2 ^ (8 * w) :: int)"
    by (subst unsigned_push_bit_eq) simp
  also have "\<dots> = 2 ^ (8 * w)"
    using w by (intro take_bit_int_eq_self power_strict_increasing) auto
  finally show ?thesis .
qed

lemma WidthFor_loop_spec:
  assumes "0 \<le> m" "m < 2 ^ 63" "w \<le> 8" "0 < w" "w = 1 \<or> 2 ^ (8 * (w - 1)) \<le> m"
  shows "w \<le> WidthFor_loop w m \<and> WidthFor_loop w m \<le> 8 \<and> m < 2 ^ (8 * WidthFor_loop w m) \<and>
    (WidthFor_loop w m = 1 \<or> 2 ^ (8 * (WidthFor_loop w m - 1)) \<le> m)"
  using assms
proof (induction w m rule: WidthFor_loop.induct)
  case (1 w m)
  have u: "uint (word_of_int m :: 64 word) = m"
    using "1.prems" by (simp add: uint_word_of_int take_bit_int_eq_self)
  have le: "push_bit (8 * w) (1 :: 64 word) \<le> word_of_int m \<longleftrightarrow> 2 ^ (8 * w) \<le> m" if "w < 8"
    using uint_push_bit_1[OF that] u by (simp add: word_le_def)
  show ?case
  proof (cases "w < 8 \<and> push_bit (8 * w) (1 :: 64 word) \<le> word_of_int m")
    case True
    then have "w + 1 \<le> WidthFor_loop (w + 1) m \<and> WidthFor_loop (w + 1) m \<le> 8 \<and>
       m < 2 ^ (8 * WidthFor_loop (w + 1) m) \<and>
       (WidthFor_loop (w + 1) m = 1 \<or> 2 ^ (8 * (WidthFor_loop (w + 1) m - 1)) \<le> m)"
      using "1.prems" le by (intro "1.IH") auto
    moreover have "WidthFor_loop w m = WidthFor_loop (w + 1) m"
      using True by (subst WidthFor_loop.simps) (simp only: if_True simp_thms)
    ultimately show ?thesis by simp
  next
    case False
    have "m < 2 ^ (8 * w)"
    proof (cases "w < 8")
      case True
      with False le show ?thesis by auto
    next
      case False
      with "1.prems"(3) have "w = 8" by simp
      with "1.prems"(2) show ?thesis by simp
    qed
    moreover have "WidthFor_loop w m = w"
      using False by (subst WidthFor_loop.simps) (simp only: if_False simp_thms)
    ultimately show ?thesis using "1.prems" by simp
  qed
qed

section \<open>Little-endian fields\<close>

fun put_loop :: "nat \<Rightarrow> nat \<Rightarrow> 64 word \<Rightarrow> byte list \<Rightarrow> byte list" where
  "put_loop i 0 u b = b"
| "put_loop i (Suc k) u b = put_loop (Suc i) k (drop_bit 8 u) (b[i := ucast u])"

definition putUintW :: "byte list \<Rightarrow> nat \<Rightarrow> int \<Rightarrow> byte list" where
  "putUintW b w v = put_loop 0 w (word_of_int v) b"

fun get_loop :: "nat \<Rightarrow> 64 word \<Rightarrow> byte list \<Rightarrow> 64 word" where
  "get_loop 0 u b = u"
| "get_loop (Suc i) u b = get_loop i (push_bit 8 u OR ucast (b ! i)) b"

definition getUintW :: "byte list \<Rightarrow> nat \<Rightarrow> int" where
  "getUintW b w = sint (get_loop w 0 b)"

text \<open>The bytes of a word, least significant first, and the word they denote.\<close>

fun le_bytes :: "nat \<Rightarrow> 64 word \<Rightarrow> byte list" where
  "le_bytes 0 u = []"
| "le_bytes (Suc k) u = ucast u # le_bytes k (drop_bit 8 u)"

fun le_word :: "byte list \<Rightarrow> 64 word" where
  "le_word [] = 0"
| "le_word (b # bs) = ucast b OR push_bit 8 (le_word bs)"

lemma length_le_bytes [simp]: "length (le_bytes k u) = k"
  by (induction k arbitrary: u) auto

lemma put_loop_eq:
  "i + k \<le> length b \<Longrightarrow> put_loop i k u b = take i b @ le_bytes k u @ drop (i + k) b"
proof (induction k arbitrary: i u b)
  case 0
  then show ?case by simp
next
  case (Suc k)
  then have "put_loop i (Suc k) u b =
      take (Suc i) (b[i := ucast u]) @ le_bytes k (drop_bit 8 u) @ drop (Suc i + k) (b[i := ucast u])"
    by simp
  also have "take (Suc i) (b[i := ucast u]) = take i b @ [ucast u]"
    using Suc.prems by (simp add: take_Suc_conv_app_nth)
  finally show ?case using Suc.prems by simp
qed

lemma putUintW_eq: "w \<le> length b \<Longrightarrow> putUintW b w v = le_bytes w (word_of_int v) @ drop w b"
  by (simp add: putUintW_def put_loop_eq)

lemma get_loop_eq:
  "i \<le> length b \<Longrightarrow> get_loop i u b = push_bit (8 * i) u OR le_word (take i b)"
proof (induction i arbitrary: u)
  case 0
  then show ?case by simp
next
  case (Suc i)
  have app: "le_word (xs @ [x]) = le_word xs OR push_bit (8 * length xs) (ucast x)" for xs and x :: byte
    by (induction xs) (simp_all add: push_bit_or or.assoc)
  have "take (Suc i) b = take i b @ [b ! i]" using Suc.prems by (simp add: take_Suc_conv_app_nth)
  moreover have "length (take i b) = i" using Suc.prems by simp
  ultimately have tk: "le_word (take (Suc i) b) = le_word (take i b) OR push_bit (8 * i) (ucast (b ! i))"
    by (simp add: app)
  have "get_loop (Suc i) u b = push_bit (8 * i) (push_bit 8 u OR ucast (b ! i)) OR le_word (take i b)"
    using Suc by simp
  also have "\<dots> = push_bit (8 * Suc i) u OR le_word (take (Suc i) b)"
    by (simp add: tk push_bit_or ac_simps)
  finally show ?case .
qed

lemma le_word_le_bytes: "le_word (le_bytes k u) = take_bit (8 * k) u"
proof (induction k arbitrary: u)
  case 0
  then show ?case by simp
next
  case (Suc k)
  show ?case
    by (rule bit_eqI) (auto simp: Suc bit_or_iff bit_push_bit_iff bit_take_bit_iff bit_drop_bit_eq
        bit_unsigned_iff)
qed

lemma getUintW_eq: "w \<le> length b \<Longrightarrow> getUintW b w = sint (le_word (take w b))"
  by (simp add: getUintW_def get_loop_eq)

definition field_ok :: "nat \<Rightarrow> int \<Rightarrow> bool" where
  "field_ok w v \<longleftrightarrow> 0 \<le> v \<and> v < 2 ^ (8 * w) \<and> v < 2 ^ 63"

lemma sint_take_bit_word:
  assumes "w \<le> 8" "v mod 2 ^ (8 * w) < 2 ^ 63"
  shows "sint (take_bit (8 * w) (word_of_int v :: 64 word)) = v mod 2 ^ (8 * w)"
proof -
  have w: "8 * w \<le> 64" using assms by simp
  have "uint (take_bit (8 * w) (word_of_int v :: 64 word)) = take_bit (8 * w) v"
    using w by (simp add: unsigned_take_bit_eq uint_word_of_int_eq take_bit_take_bit min_def)
  then have "uint (take_bit (8 * w) (word_of_int v :: 64 word)) = v mod 2 ^ (8 * w)"
    by (simp add: take_bit_eq_mod)
  moreover have "- (2 ^ 63) \<le> v mod 2 ^ (8 * w)"
    by (rule order_trans[of _ 0]) simp_all
  ultimately show ?thesis
    using assms(2) by (simp add: sint_uint signed_take_bit_int_eq_self)
qed

lemma sint_le_bytes:
  assumes "w \<le> 8" "field_ok w v"
  shows "sint (le_word (le_bytes w (word_of_int v))) = v"
  using assms by (simp add: le_word_le_bytes sint_take_bit_word field_ok_def)

section \<open>One packed record\<close>

definition rec_size :: "nat \<Rightarrow> nat" where
  "rec_size w = 1 + 2 * w"

definition read_rec :: "nat \<Rightarrow> byte list \<Rightarrow> nat \<Rightarrow> int \<times> int \<times> int" where
  "read_rec w b off =
     (uint (b ! off), getUintW (drop (off + 1) b) w, getUintW (drop (off + 1 + w) b) w)"

definition write_rec :: "nat \<Rightarrow> byte list \<Rightarrow> nat \<Rightarrow> int \<Rightarrow> int \<Rightarrow> int \<Rightarrow> byte list" where
  "write_rec w b off buf start len =
     at_slice (off + 1 + w) (\<lambda>s. putUintW s w len)
       (at_slice (off + 1) (\<lambda>s. putUintW s w start) (b[off := word_of_int buf]))"

text \<open>The bytes of a record, and the records that survive being packed.\<close>

definition enc :: "nat \<Rightarrow> PieceRec \<Rightarrow> byte list" where
  "enc w r = word_of_int (Buf r) # le_bytes w (word_of_int (Start r)) @ le_bytes w (word_of_int (Length r))"

definition rec_fits :: "nat \<Rightarrow> PieceRec \<Rightarrow> bool" where
  "rec_fits w r \<longleftrightarrow> 0 \<le> Buf r \<and> Buf r < 256 \<and> field_ok w (Start r) \<and> field_ok w (Length r)"

lemma rec_size_pos [simp]: "0 < rec_size w"
  by (simp add: rec_size_def)

lemma length_enc [simp]: "length (enc w r) = rec_size w"
  by (simp add: enc_def rec_size_def)

lemma write_rec_eq:
  assumes "o1 + rec_size w \<le> length b"
  shows "write_rec w b o1 buf start len =
    take o1 b @ enc w (piece buf start len) @ drop (o1 + rec_size w) b"
proof -
  let ?b = "b[o1 := word_of_int buf]"
  have t1: "take (Suc o1) ?b = take o1 b @ [word_of_int buf]"
    using assms by (simp add: take_Suc_conv_app_nth rec_size_def)
  have s1: "at_slice (o1 + 1) (\<lambda>s. putUintW s w start) ?b =
      take o1 b @ word_of_int buf # le_bytes w (word_of_int start) @ drop (o1 + 1 + w) b"
    using assms t1 by (simp add: at_slice_def putUintW_eq rec_size_def add.commute)
  show ?thesis
    using assms unfolding write_rec_def s1
    by (simp add: at_slice_def putUintW_eq rec_size_def enc_def mult_2 add.commute add.left_commute)
qed

lemma read_rec_enc:
  assumes "w \<le> 8" "rec_fits w r"
  shows "read_rec w (pre @ enc w r @ post) (length pre) = (Buf r, Start r, Length r)"
  using assms
  by (simp add: read_rec_def enc_def nth_append getUintW_eq sint_le_bytes rec_fits_def
      unsigned_of_int uint_word_of_int take_bit_int_eq_self)

section \<open>Chunks of equal size\<close>

definition chunks :: "nat \<Rightarrow> 'a list list \<Rightarrow> bool" where
  "chunks r cs \<longleftrightarrow> (\<forall>c \<in> set cs. length c = r)"

lemma chunks_simps [simp]:
  "chunks r []" "chunks r (c # cs) \<longleftrightarrow> length c = r \<and> chunks r cs"
  "chunks r (as @ bs) \<longleftrightarrow> chunks r as \<and> chunks r bs"
  by (auto simp: chunks_def)

lemma chunks_take [intro]: "chunks r cs \<Longrightarrow> chunks r (take n cs)"
  and chunks_drop [intro]: "chunks r cs \<Longrightarrow> chunks r (drop n cs)"
  by (auto simp: chunks_def dest: in_set_takeD in_set_dropD)

lemma chunks_enc [simp]: "chunks (rec_size w) (map (enc w) rs)"
  by (auto simp: chunks_def)

lemma length_concat_chunks: "chunks r cs \<Longrightarrow> length (concat cs) = length cs * r"
  by (induction cs) auto

lemma take_concat_chunks: "chunks r cs \<Longrightarrow> take (k * r) (concat cs) = concat (take k cs)"
proof (induction cs arbitrary: k)
  case Nil
  then show ?case by simp
next
  case (Cons c cs)
  then show ?case by (cases k) auto
qed

lemma drop_concat_chunks: "chunks r cs \<Longrightarrow> drop (k * r) (concat cs) = concat (drop k cs)"
proof (induction cs arbitrary: k)
  case Nil
  then show ?case by simp
next
  case (Cons c cs)
  then show ?case by (cases k) auto
qed

lemma copy_at_concat_chunks:
  assumes "chunks r cs" "chunks r ss" "d + length ss \<le> length cs"
  shows "copy_at (d * r) (concat ss) (concat cs) = concat (copy_at d ss cs)"
proof -
  have l: "length (concat ss) = length ss * r" "length (concat cs) = length cs * r"
    using assms by (simp_all add: length_concat_chunks)
  have "d * r + length ss * r \<le> length cs * r"
    by (metis add_mult_distrib assms(3) mult_le_mono1)
  then have "copy_at (d * r) (concat ss) (concat cs) =
      take (d * r) (concat cs) @ concat ss @ drop (d * r + length ss * r) (concat cs)"
    by (simp add: copy_at_fit l)
  also have "\<dots> = concat (take d cs) @ concat ss @ concat (drop (d + length ss) cs)"
    using take_concat_chunks[OF assms(1), of d] drop_concat_chunks[OF assms(1), of "d + length ss"]
    by (simp add: add_mult_distrib)
  finally show ?thesis using assms(3) by (simp add: copy_at_fit)
qed

text \<open>Packed records: the byte list that holds exactly these records.\<close>

definition packed :: "nat \<Rightarrow> PieceRec list \<Rightarrow> byte list" where
  "packed w rs = concat (map (enc w) rs)"

lemma packed_simps [simp]:
  "packed w [] = []" "packed w (r # rs) = enc w r @ packed w rs"
  "packed w (rs @ qs) = packed w rs @ packed w qs"
  by (simp_all add: packed_def)

lemma length_packed [simp]: "length (packed w rs) = length rs * rec_size w"
  using length_concat_chunks[OF chunks_enc] by (simp add: packed_def)

lemma take_packed: "take (k * rec_size w) (packed w rs) = packed w (take k rs)"
  by (simp add: packed_def take_concat_chunks take_map)

lemma drop_packed: "drop (k * rec_size w) (packed w rs) = packed w (drop k rs)"
  by (simp add: packed_def drop_concat_chunks drop_map)

lemma read_rec_packed:
  assumes "w \<le> 8" "j < length rs" "rec_fits w (rs ! j)"
  shows "read_rec w (packed w rs) (j * rec_size w) = (Buf (rs ! j), Start (rs ! j), Length (rs ! j))"
proof -
  have "packed w rs = packed w (take j rs) @ enc w (rs ! j) @ packed w (drop (Suc j) rs)"
    using assms(2) by (subst id_take_nth_drop[of j rs]) (simp_all del: append_take_drop_id)
  moreover have "length (packed w (take j rs)) = j * rec_size w" using assms(2) by simp
  ultimately show ?thesis using read_rec_enc[OF assms(1,3)] by metis
qed

lemma write_rec_packed:
  assumes "j < length rs"
  shows "write_rec w (packed w rs) (j * rec_size w) b s l = packed w (rs[j := piece b s l])"
proof -
  have "Suc j * rec_size w \<le> length rs * rec_size w"
    using assms by (metis Suc_leI mult_le_mono1)
  then have "write_rec w (packed w rs) (j * rec_size w) b s l =
     take (j * rec_size w) (packed w rs) @ enc w (piece b s l) @ drop (Suc j * rec_size w) (packed w rs)"
    by (simp add: write_rec_eq add.commute)
  also have "\<dots> = packed w (take j rs @ piece b s l # drop (Suc j) rs)"
    using take_packed[of j w rs] drop_packed[of "Suc j" w rs] by simp
  finally show ?thesis using assms by (simp add: upd_conv_take_nth_drop)
qed

section \<open>Properties\<close>

text \<open>A record written at a slot reads back exactly, whatever the field width, when its fields
  fit; and writing it disturbs no other byte of the array.\<close>

theorem record_roundtrip:
  assumes "w \<le> 8" "i + rec_size w \<le> length b" "rec_fits w (piece buf start len)"
  shows "read_rec w (write_rec w b i buf start len) i = (buf, start, len) \<and>
    take i (write_rec w b i buf start len) = take i b \<and>
    drop (i + rec_size w) (write_rec w b i buf start len) = drop (i + rec_size w) b"
proof -
  have e: "write_rec w b i buf start len = take i b @ enc w (piece buf start len) @ drop (i + rec_size w) b"
    using assms(2) by (rule write_rec_eq)
  have l: "length (take i b) = i" using assms(2) by simp
  show ?thesis
    using read_rec_enc[OF assms(1,3), of "take i b" "drop (i + rec_size w) b"] l unfolding e by simp
qed

theorem record_roundtrip_witness:
  "read_rec 2 (write_rec 2 (replicate 10 7) 5 3 300 40000) 5 = (3, 300, 40000)"
  using record_roundtrip[of 2 5 "replicate 10 7" 3 300 40000] by (simp add: rec_size_def rec_fits_def field_ok_def)

text \<open>\<open>WidthFor\<close> returns the smallest width in 1..8 whose unsigned range holds the length.\<close>

theorem WidthFor_minimal:
  assumes "0 \<le> m" "m < 2 ^ 63"
  shows "1 \<le> WidthFor m \<and> WidthFor m \<le> 8 \<and> m < 2 ^ (8 * WidthFor m) \<and>
    (\<forall>k. 1 \<le> k \<longrightarrow> m < 2 ^ (8 * k) \<longrightarrow> WidthFor m \<le> k)"
proof -
  have s: "1 \<le> WidthFor m" "WidthFor m \<le> 8" "m < 2 ^ (8 * WidthFor m)"
      "WidthFor m = 1 \<or> 2 ^ (8 * (WidthFor m - 1)) \<le> m"
    using WidthFor_loop_spec[OF assms, of 1] by (auto simp: WidthFor_def)
  have "WidthFor m \<le> k" if "1 \<le> k" "m < 2 ^ (8 * k)" for k
  proof (rule ccontr)
    assume "\<not> WidthFor m \<le> k"
    then have "(2 :: int) ^ (8 * k) \<le> 2 ^ (8 * (WidthFor m - 1))" by (intro power_increasing) auto
    moreover have "2 ^ (8 * (WidthFor m - 1)) \<le> m" using s(4) \<open>\<not> WidthFor m \<le> k\<close> that(1) by auto
    ultimately show False using that(2) by linarith
  qed
  then show ?thesis using s by blast
qed

theorem WidthFor_minimal_witness: "1 \<le> WidthFor 70000 \<and> 70000 < (2 :: int) ^ (8 * WidthFor 70000)"
  using WidthFor_minimal[of 70000] by simp

end
