(* ===== verification/FlatArray.thy ===== *)
theory FlatArray
  imports Codec
begin

text \<open>
  \<open>FlatPieces\<close> of \<open>internal/piecetable/flatpieces.go\<close>: records packed into one byte slice, the
  single-record edits (which the leaves of the piece tree repeat line by line) and the two
  single-pass batch edits with the one-at-a-time edits they replace.
\<close>

section \<open>Opening and closing one slot in packed bytes\<close>

text \<open>\<open>append(b, make([]byte, rec)...)\<close>, then \<open>copy(b[o+rec:], b[o:len(b)-rec])\<close>.\<close>

definition open_slot :: "nat \<Rightarrow> nat \<Rightarrow> byte list \<Rightarrow> byte list" where
  "open_slot r off b =
     (let b' = b @ replicate r 0
      in copy_at (off + r) (take (length b' - r - off) (drop off b')) b')"

text \<open>\<open>copy(b[o:], b[o+rec:])\<close>, then \<open>b[:len(b)-rec]\<close>.\<close>

definition close_slot :: "nat \<Rightarrow> nat \<Rightarrow> byte list \<Rightarrow> byte list" where
  "close_slot r off b = take (length b - r) (copy_at off (drop (off + r) b) b)"

lemma open_slot_eq:
  "off \<le> length b \<Longrightarrow> open_slot r off b = take (off + r) (b @ replicate r 0) @ drop off b"
  by (simp add: open_slot_def copy_at_def Let_def)

lemma close_slot_eq:
  "off + r \<le> length b \<Longrightarrow> close_slot r off b = take off b @ drop (off + r) b"
  by (simp add: close_slot_def copy_at_def)

lemma write_open_slot:
  assumes "off \<le> length b"
  shows "write_rec w (open_slot (rec_size w) off b) off bf s l =
    take off b @ enc w (piece bf s l) @ drop off b"
proof -
  define X where "X = take (off + rec_size w) (b @ replicate (rec_size w) 0)"
  have X: "length X = off + rec_size w" "take off X = take off b"
    using assms by (auto simp: X_def min_def)
  have "open_slot (rec_size w) off b = X @ drop off b"
    using assms by (simp add: open_slot_eq X_def)
  then show ?thesis using X by (simp add: write_rec_eq)
qed

lemma insert_packed:
  assumes "i \<le> length rs"
  shows "write_rec w (open_slot (rec_size w) (i * rec_size w) (packed w rs)) (i * rec_size w) b s l =
    packed w (take i rs @ piece b s l # drop i rs)"
proof -
  have "i * rec_size w \<le> length (packed w rs)" using assms by (simp add: mult_le_mono1)
  then show ?thesis by (simp add: write_open_slot take_packed drop_packed)
qed

lemma delete_packed:
  assumes "i < length rs"
  shows "close_slot (rec_size w) (i * rec_size w) (packed w rs) = packed w (take i rs @ drop (Suc i) rs)"
proof -
  have "Suc i * rec_size w \<le> length rs * rec_size w" using assms by (metis Suc_leI mult_le_mono1)
  then have "close_slot (rec_size w) (i * rec_size w) (packed w rs) =
      take (i * rec_size w) (packed w rs) @ drop (Suc i * rec_size w) (packed w rs)"
    by (simp add: close_slot_eq add.commute)
  then show ?thesis by (simp only: take_packed drop_packed packed_simps(3))
qed

section \<open>FlatPieces\<close>

record FlatPieces =
  fpW :: nat
  fpRec :: nat
  fpN :: nat
  fpBuf :: "byte list"

definition NewFlatPieces :: "nat \<Rightarrow> FlatPieces" where
  "NewFlatPieces width = \<lparr>fpW = width, fpRec = 1 + 2 * width, fpN = 0, fpBuf = []\<rparr>"

definition fp_off :: "FlatPieces \<Rightarrow> nat \<Rightarrow> nat" where
  "fp_off f i = i * fpRec f"

definition fp_Get :: "FlatPieces \<Rightarrow> nat \<Rightarrow> int \<times> int \<times> int" where
  "fp_Get f i = read_rec (fpW f) (fpBuf f) (fp_off f i)"

definition fp_Set :: "FlatPieces \<Rightarrow> nat \<Rightarrow> int \<Rightarrow> int \<Rightarrow> int \<Rightarrow> FlatPieces" where
  "fp_Set f i buf start len = f\<lparr>fpBuf := write_rec (fpW f) (fpBuf f) (fp_off f i) buf start len\<rparr>"

definition fp_Append :: "FlatPieces \<Rightarrow> int \<Rightarrow> int \<Rightarrow> int \<Rightarrow> FlatPieces" where
  "fp_Append f buf start len =
     f\<lparr>fpBuf := write_rec (fpW f) (fpBuf f @ replicate (fpRec f) 0) (length (fpBuf f)) buf start len,
       fpN := fpN f + 1\<rparr>"

definition fp_InsertAt :: "FlatPieces \<Rightarrow> nat \<Rightarrow> int \<Rightarrow> int \<Rightarrow> int \<Rightarrow> FlatPieces" where
  "fp_InsertAt f i buf start len =
     f\<lparr>fpBuf := write_rec (fpW f) (open_slot (fpRec f) (fp_off f i) (fpBuf f)) (fp_off f i) buf start len,
       fpN := fpN f + 1\<rparr>"

definition fp_DeleteAt :: "FlatPieces \<Rightarrow> nat \<Rightarrow> FlatPieces" where
  "fp_DeleteAt f i = f\<lparr>fpBuf := close_slot (fpRec f) (fp_off f i) (fpBuf f), fpN := fpN f - 1\<rparr>"

record BatchIns =
  biAt :: int
  biBuf :: int
  biStart :: int
  biLength :: int

definition bi_rec :: "BatchIns \<Rightarrow> PieceRec" where
  "bi_rec b = piece (biBuf b) (biStart b) (biLength b)"

text \<open>The loop of \<open>ApplyBatchInserts\<close> runs from the last operation to the first; its list argument
  is the batch reversed.\<close>

fun batch_ins_loop :: "nat \<Rightarrow> nat \<Rightarrow> BatchIns list \<Rightarrow> byte list \<Rightarrow> nat \<Rightarrow> nat \<Rightarrow> byte list" where
  "batch_ins_loop w r [] b srcEnd shft = b"
| "batch_ins_loop w r (x # xs) b srcEnd shft =
     (let runStart = nat (biAt x);
          b1 = (if runStart < srcEnd
                then copy_at ((runStart + shft) * r) (take ((srcEnd - runStart) * r) (drop (runStart * r) b)) b
                else b);
          b2 = write_rec w b1 ((runStart + shft - 1) * r) (biBuf x) (biStart x) (biLength x)
      in batch_ins_loop w r xs b2 runStart (shft - 1))"

definition fp_ApplyBatchInserts :: "FlatPieces \<Rightarrow> BatchIns list \<Rightarrow> FlatPieces" where
  "fp_ApplyBatchInserts f ops =
     (if ops = [] then f
      else f\<lparr>fpBuf := batch_ins_loop (fpW f) (fpRec f) (rev ops)
                 (fpBuf f @ replicate (length ops * fpRec f) 0) (fpN f) (length ops),
             fpN := fpN f + length ops\<rparr>)"

fun batch_del_loop :: "nat \<Rightarrow> nat \<Rightarrow> nat list \<Rightarrow> nat \<Rightarrow> byte list \<Rightarrow> byte list" where
  "batch_del_loop r n [] dst b = b"
| "batch_del_loop r n (i # is) dst b =
     (let runStart = i + 1;
          runEnd = (case is of [] \<Rightarrow> n | k # _ \<Rightarrow> k)
      in if runStart < runEnd
         then batch_del_loop r n is (dst + (runEnd - runStart))
                (copy_at (dst * r) (take ((runEnd - runStart) * r) (drop (runStart * r) b)) b)
         else batch_del_loop r n is dst b)"

definition fp_ApplyBatchDeletes :: "FlatPieces \<Rightarrow> nat list \<Rightarrow> FlatPieces" where
  "fp_ApplyBatchDeletes f idxs =
     (if idxs = [] then f
      else let b = batch_del_loop (fpRec f) (fpN f) idxs (hd idxs) (fpBuf f);
               n = fpN f - length idxs
           in f\<lparr>fpN := n, fpBuf := take (n * fpRec f) b\<rparr>)"

section \<open>Representation\<close>

definition fp_rep :: "FlatPieces \<Rightarrow> PieceRec list \<Rightarrow> bool" where
  "fp_rep f rs \<longleftrightarrow> fpRec f = rec_size (fpW f) \<and> fpN f = length rs \<and> fpBuf f = packed (fpW f) rs"

lemma fp_rep_New: "fp_rep (NewFlatPieces w) []"
  by (simp add: fp_rep_def NewFlatPieces_def rec_size_def)

lemma fp_rep_Append: "fp_rep f rs \<Longrightarrow> fp_rep (fp_Append f b s l) (rs @ [piece b s l])"
  using write_rec_eq[of "length rs * rec_size (fpW f)" "fpW f"
      "packed (fpW f) rs @ replicate (rec_size (fpW f)) 0"]
  by (simp add: fp_rep_def fp_Append_def)

lemma fp_rep_Set: "fp_rep f rs \<Longrightarrow> i < length rs \<Longrightarrow> fp_rep (fp_Set f i b s l) (rs[i := piece b s l])"
  by (simp add: fp_rep_def fp_Set_def fp_off_def write_rec_packed)

lemma fp_rep_InsertAt:
  "fp_rep f rs \<Longrightarrow> i \<le> length rs \<Longrightarrow>
   fp_rep (fp_InsertAt f i b s l) (take i rs @ piece b s l # drop i rs)"
  by (simp add: fp_rep_def fp_InsertAt_def fp_off_def insert_packed)

lemma fp_rep_DeleteAt:
  "fp_rep f rs \<Longrightarrow> i < length rs \<Longrightarrow> fp_rep (fp_DeleteAt f i) (take i rs @ drop (Suc i) rs)"
  by (auto simp: fp_rep_def fp_DeleteAt_def fp_off_def delete_packed)

lemma fp_Get_rep:
  "fp_rep f rs \<Longrightarrow> i < length rs \<Longrightarrow> fpW f \<le> 8 \<Longrightarrow> rec_fits (fpW f) (rs ! i) \<Longrightarrow>
   fp_Get f i = (Buf (rs ! i), Start (rs ! i), Length (rs ! i))"
  by (simp add: fp_rep_def fp_Get_def fp_off_def read_rec_packed)

section \<open>Batch insertion\<close>

text \<open>The reference: one \<open>InsertAt\<close> per operation, from the last to the first.\<close>

definition ins_one :: "PieceRec list \<Rightarrow> BatchIns \<Rightarrow> PieceRec list" where
  "ins_one rs x = take (nat (biAt x)) rs @ bi_rec x # drop (nat (biAt x)) rs"

text \<open>The operations in reverse order, each at or before the one handled before it.\<close>

fun desc_upto :: "nat \<Rightarrow> BatchIns list \<Rightarrow> bool" where
  "desc_upto n [] = True"
| "desc_upto n (x # xs) \<longleftrightarrow> 0 \<le> biAt x \<and> nat (biAt x) \<le> n \<and> desc_upto (nat (biAt x)) xs"

lemma take_len_eq: "n = length a \<Longrightarrow> take n (a @ c) = a" and drop_len_eq: "n = length a \<Longrightarrow> drop n (a @ c) = c"
  by simp_all

lemma batch_ins_move:
  assumes a: "a = length xs1" and j: "length junk = Suc k * rec_size w" and e: "e = a + length xs2"
    and buf: "buf = packed w (xs1 @ xs2) @ junk @ rest"
  shows "\<exists>mid. length mid = Suc k * rec_size w \<and>
      (if a < e
       then copy_at ((a + Suc k) * rec_size w) (take ((e - a) * rec_size w) (drop (a * rec_size w) buf)) buf
       else buf) = packed w xs1 @ mid @ packed w xs2 @ rest"
proof (cases "xs2 = []")
  case True
  then show ?thesis using assms by (intro exI[of _ junk]) simp
next
  case False
  let ?r = "rec_size w"
  let ?mid = "take (Suc k * ?r) (packed w xs2 @ junk @ rest)"
  have src: "take ((e - a) * ?r) (drop (a * ?r) buf) = packed w xs2"
    using a e by (simp add: buf)
  have "(a + Suc k) * ?r + length (packed w xs2) \<le> length buf"
    using a j by (simp add: buf algebra_simps)
  then have "copy_at ((a + Suc k) * ?r) (packed w xs2) buf =
      take ((a + Suc k) * ?r) buf @ packed w xs2 @ drop ((a + Suc k) * ?r + length xs2 * ?r) buf"
    by (simp add: copy_at_fit)
  also have "take ((a + Suc k) * ?r) buf = packed w xs1 @ ?mid"
    using a by (simp add: buf add_mult_distrib)
  also have "drop ((a + Suc k) * ?r + length xs2 * ?r) buf = rest"
  proof -
    have "(a + Suc k) * ?r + length xs2 * ?r = length (packed w (xs1 @ xs2) @ junk)"
      using a j by (simp add: algebra_simps)
    then show ?thesis using drop_len_eq[of _ "packed w (xs1 @ xs2) @ junk" rest] by (simp add: buf)
  qed
  finally have "copy_at ((a + Suc k) * ?r) (packed w xs2) buf = packed w xs1 @ ?mid @ packed w xs2 @ rest"
    by simp
  moreover have "length ?mid = Suc k * ?r" using j by (simp del: mult_Suc)
  ultimately show ?thesis using False src e by (intro exI[of _ ?mid]) simp
qed

lemma batch_ins_write:
  assumes "a = length xs1" "length mid = Suc k * rec_size w"
  shows "\<exists>junk'. length junk' = k * rec_size w \<and>
    write_rec w (packed w xs1 @ mid @ rest) ((a + Suc k - 1) * rec_size w) b s l
    = packed w xs1 @ junk' @ enc w (piece b s l) @ rest"
proof -
  let ?r = "rec_size w"
  obtain m1 m2 where m: "mid = m1 @ m2" "length m1 = k * ?r" "length m2 = ?r"
  proof
    show "mid = take (k * ?r) mid @ drop (k * ?r) mid" by simp
  qed (use assms(2) in simp_all)
  have pos: "(a + Suc k - 1) * ?r = length (packed w xs1 @ m1)"
    using assms(1) m(2) by (simp add: add_mult_distrib)
  have "write_rec w ((packed w xs1 @ m1) @ m2 @ rest) ((a + Suc k - 1) * ?r) b s l
    = (packed w xs1 @ m1) @ enc w (piece b s l) @ rest"
    unfolding pos using m(3) by (subst write_rec_eq) auto
  then show ?thesis using m by auto
qed

lemma batch_ins_loop_eq:
  assumes "desc_upto (length xs) ops" "length junk = length ops * rec_size w"
  shows "batch_ins_loop w (rec_size w) ops (packed w xs @ junk @ packed w ys) (length xs) (length ops) =
    packed w (foldl ins_one (xs @ ys) ops)"
  using assms
proof (induction ops arbitrary: xs ys junk)
  case Nil
  then show ?case by simp
next
  case (Cons x ops)
  let ?a = "nat (biAt x)" and ?r = "rec_size w"
  let ?xs1 = "take ?a xs" and ?xs2 = "drop ?a xs"
  have a: "?a = length ?xs1" and le: "?a \<le> length xs" using Cons.prems by auto
  have len: "length xs = ?a + length ?xs2" using le by simp
  have jl: "length junk = Suc (length ops) * ?r" using Cons.prems(2) by simp
  have pxs: "packed w xs @ junk @ packed w ys = packed w (?xs1 @ ?xs2) @ junk @ packed w ys"
    by (simp only: append_take_drop_id)
  obtain mid where mid: "length mid = Suc (length ops) * ?r"
    "(if ?a < length xs
       then copy_at ((?a + Suc (length ops)) * ?r)
              (take ((length xs - ?a) * ?r) (drop (?a * ?r) (packed w xs @ junk @ packed w ys)))
              (packed w xs @ junk @ packed w ys)
       else packed w xs @ junk @ packed w ys) = packed w ?xs1 @ mid @ packed w ?xs2 @ packed w ys"
    using batch_ins_move[OF a jl len pxs] by blast
  obtain junk' where j: "length junk' = length ops * ?r" and
    st: "write_rec w (packed w ?xs1 @ mid @ packed w ?xs2 @ packed w ys)
      ((?a + Suc (length ops) - 1) * ?r) (biBuf x) (biStart x) (biLength x)
    = packed w ?xs1 @ junk' @ packed w (bi_rec x # ?xs2 @ ys)"
    using batch_ins_write[OF a mid(1), of "packed w ?xs2 @ packed w ys" "biBuf x" "biStart x" "biLength x"]
    by (auto simp: bi_rec_def)
  have "batch_ins_loop w ?r (x # ops) (packed w xs @ junk @ packed w ys) (length xs) (length (x # ops)) =
     batch_ins_loop w ?r ops (packed w ?xs1 @ junk' @ packed w (bi_rec x # ?xs2 @ ys)) (length ?xs1) (length ops)"
    using st mid(2) a by (simp add: Let_def del: length_take mult_Suc)
  also have "\<dots> = packed w (foldl ins_one (?xs1 @ bi_rec x # ?xs2 @ ys) ops)"
    using Cons.prems(1) a j by (intro Cons.IH) auto
  also have "?xs1 @ bi_rec x # ?xs2 @ ys = ins_one (xs @ ys) x"
    using le by (simp add: ins_one_def)
  finally show ?case by (simp only: foldl_Cons)
qed

section \<open>Batch deletion\<close>

text \<open>The reference: the records whose index is not listed. \<open>kept_from i is rs\<close> is the part of the
  array from index \<open>i\<close> on.\<close>

fun asc_from :: "nat \<Rightarrow> nat \<Rightarrow> nat list \<Rightarrow> bool" where
  "asc_from lo n [] = True"
| "asc_from lo n (i # is) \<longleftrightarrow> lo \<le> i \<and> i < n \<and> asc_from (Suc i) n is"

lemma asc_from_mem: "asc_from lo n is \<Longrightarrow> i \<in> set is \<Longrightarrow> lo \<le> i"
  by (induction "is" arbitrary: lo) fastforce+

lemma asc_from_length: "asc_from lo n is \<Longrightarrow> length is \<le> n - lo"
  by (induction "is" arbitrary: lo) fastforce+

definition kept :: "nat list \<Rightarrow> 'a list \<Rightarrow> 'a list" where
  "kept is rs = nths rs (- set is)"

lemma kept_Nil [simp]: "kept [] rs = rs"
  by (simp add: kept_def nths_all)

lemma nths_shift_drop:
  assumes "\<And>i. i \<in> set is \<Longrightarrow> m \<le> i" "m \<le> length rs"
  shows "nths rs (- set is) = take m rs @ nths (drop m rs) {j. j + m \<in> - set is}"
proof -
  have "nths rs (- set is) = nths (take m rs @ drop m rs) (- set is)" by simp
  also have "\<dots> = nths (take m rs) (- set is) @ nths (drop m rs) {j. j + m \<in> - set is}"
    using assms(2) by (simp only: nths_append length_take min_absorb2)
  also have "nths (take m rs) (- set is) = take m rs"
    using assms by (intro nths_all) fastforce
  finally show ?thesis .
qed

text \<open>The part of the array that survives from index \<open>i\<close> on, computed run by run as the loop does.\<close>

fun surv :: "nat list \<Rightarrow> 'a list \<Rightarrow> 'a list" where
  "surv [] rs = []"
| "surv (i # is) rs =
     drop (Suc i) (case is of [] \<Rightarrow> rs | k # _ \<Rightarrow> take k rs) @ surv is rs"

lemma surv_kept:
  assumes "asc_from i n (i # is)" "n = length rs"
  shows "take i rs @ surv (i # is) rs = kept (i # is) rs"
  using assms
proof (induction "is" arbitrary: i)
  case Nil
  have "nths rs (- {i}) = take i rs @ nths (drop i rs) {j. j + i \<noteq> i}"
    using nths_shift_drop[of "[i]" i rs] Nil by simp
  also have "drop i rs = rs ! i # drop (Suc i) rs" using Nil by (simp add: Cons_nth_drop_Suc)
  finally show ?case by (simp add: kept_def nths_Cons nths_all)
next
  case (Cons k "is")
  have km: "\<And>j. j \<in> set (k # is) \<Longrightarrow> k \<le> j" using Cons.prems asc_from_mem[of "Suc k" n "is"] by force
  have ik: "Suc i \<le> k" "k < n" using Cons.prems by auto
  have IH: "take k rs @ surv (k # is) rs = kept (k # is) rs" using Cons by simp
  have split1: "nths rs (- set (k # is)) = take (Suc i) rs @ nths (drop (Suc i) rs) {j. j + Suc i \<in> - set (k # is)}"
    using km ik Cons.prems by (intro nths_shift_drop) (auto dest: le_trans)
  have split2: "nths rs (- set (i # k # is)) = take i rs @ nths (drop i rs) {j. j + i \<in> - set (i # k # is)}"
    using km ik Cons.prems by (intro nths_shift_drop) fastforce+
  have dr: "drop i rs = rs ! i # drop (Suc i) rs" using ik Cons.prems by (simp add: Cons_nth_drop_Suc)
  have same: "{j. Suc j \<in> {j. j + i \<in> - set (i # k # is)}} = {j. j + Suc i \<in> - set (k # is)}" by auto
  have n2: "nths rs (- set (i # k # is)) = take i rs @ nths (drop (Suc i) rs) {j. j + Suc i \<in> - set (k # is)}"
    unfolding split2 dr nths_Cons same by simp
  have "take (Suc i) rs @ drop (Suc i) (take k rs) = take k rs"
    using ik by (metis append_take_drop_id min_absorb1 take_take)
  then have "take (Suc i) rs @ drop (Suc i) (take k rs) @ surv (k # is) rs =
      take (Suc i) rs @ nths (drop (Suc i) rs) {j. j + Suc i \<in> - set (k # is)}"
    using IH split1 unfolding kept_def by (metis append.assoc)
  then have "drop (Suc i) (take k rs) @ surv (k # is) rs = nths (drop (Suc i) rs) {j. j + Suc i \<in> - set (k # is)}"
    by simp
  then show ?case unfolding kept_def n2 by simp
qed

lemma batch_del_loop_eq:
  assumes "asc_from i n (i # is)" "n = length rs" "length pre \<le> i"
    "length b = n * rec_size w"
    "take (length pre * rec_size w) b = packed w pre" "drop (i * rec_size w) b = packed w (drop i rs)"
  shows "\<exists>junk. batch_del_loop (rec_size w) n (i # is) (length pre) b =
    packed w (pre @ surv (i # is) rs) @ junk"
  using assms
proof (induction "is" arbitrary: i pre b)
  case Nil
  let ?r = "rec_size w"
  have dr: "drop (Suc i * ?r) b = packed w (drop (Suc i) rs)"
  proof -
    have "drop (Suc i * ?r) b = drop ?r (drop (i * ?r) b)" by (simp add: add.commute)
    also have "\<dots> = packed w (drop (Suc i) rs)"
      using Nil.prems by (simp add: Cons_nth_drop_Suc[symmetric])
    finally show ?thesis .
  qed
  show ?case
  proof (cases "Suc i < n")
    case True
    have src: "take ((n - Suc i) * ?r) (drop (Suc i * ?r) b) = packed w (drop (Suc i) rs)"
      unfolding dr using Nil.prems(2) by simp
    have "length pre * ?r + (n - Suc i) * ?r \<le> n * ?r"
    proof -
      have "length pre + (n - Suc i) \<le> n" using Nil.prems(3) True by linarith
      then have "(length pre + (n - Suc i)) * ?r \<le> n * ?r" by (rule mult_le_mono1)
      then show ?thesis by (simp only: add_mult_distrib)
    qed
    then have "copy_at (length pre * ?r) (packed w (drop (Suc i) rs)) b =
        packed w pre @ packed w (drop (Suc i) rs) @ drop (length pre * ?r + (n - Suc i) * ?r) b"
      using Nil.prems by (simp add: copy_at_fit)
    then show ?thesis using True src by (simp add: Let_def)
  next
    case False
    then have "drop (Suc i) rs = []" using Nil.prems by simp
    moreover have "b = packed w pre @ drop (length pre * ?r) b"
      using Nil.prems(5) by (metis append_take_drop_id)
    ultimately show ?thesis
      using False by (intro exI[of _ "drop (length pre * ?r) b"]) (simp add: Let_def)
  qed
next
  case (Cons k "is")
  let ?r = "rec_size w" and ?run = "drop (Suc i) (take k rs)"
  have ik: "Suc i \<le> k" "k < n" using Cons.prems by auto
  have drk: "drop (m * ?r) b = packed w (drop m rs)" if "i \<le> m" for m
  proof -
    have "m * ?r = (m - i) * ?r + i * ?r" using that by (metis add_mult_distrib le_add_diff_inverse2)
    then have "drop (m * ?r) b = drop ((m - i) * ?r) (drop (i * ?r) b)" by simp
    also have "\<dots> = packed w (drop m rs)" using that Cons.prems(6) by (simp add: drop_packed)
    finally show ?thesis .
  qed
  have lrun: "length ?run = k - Suc i" using ik Cons.prems by simp
  have ex: "\<exists>b'. batch_del_loop ?r n (i # k # is) (length pre) b =
        batch_del_loop ?r n (k # is) (length (pre @ ?run)) b' \<and>
      length b' = n * ?r \<and> take (length (pre @ ?run) * ?r) b' = packed w (pre @ ?run) \<and>
      drop (k * ?r) b' = packed w (drop k rs)"
  proof (cases "Suc i < k")
    case True
    have src: "take ((k - Suc i) * ?r) (drop (Suc i * ?r) b) = packed w ?run"
      using drk[of "Suc i"] by (simp add: take_packed drop_take del: mult_Suc)
    let ?b = "copy_at (length pre * ?r) (packed w ?run) b"
    have fit: "length pre + (k - Suc i) \<le> k" using Cons.prems(3) ik by linarith
    then have fit2: "(length pre + (k - Suc i)) * ?r \<le> k * ?r" by (rule mult_le_mono1)
    have "k * ?r \<le> n * ?r" using ik by simp
    have pl: "length (packed w ?run) = (k - Suc i) * ?r" using lrun by (simp only: length_packed)
    have "length pre * ?r + length (packed w ?run) \<le> length b"
      unfolding pl Cons.prems(4) using fit2 \<open>k * ?r \<le> n * ?r\<close> by (simp only: add_mult_distrib)
    then have cp: "?b = packed w pre @ packed w ?run @ drop ((length pre + (k - Suc i)) * ?r) b"
      by (simp only: copy_at_fit pl Cons.prems(5) add_mult_distrib)
    have lenb: "length ?b = n * ?r"
      using Cons.prems fit2 \<open>k * ?r \<le> n * ?r\<close> by (simp add: algebra_simps)
    have "drop (k * ?r) ?b = drop (k * ?r) b"
      unfolding cp using fit2 lrun fit by (simp add: add_mult_distrib)
    then have "drop (k * ?r) ?b = packed w (drop k rs)" using drk[of k] ik by simp
    moreover have "take (length (pre @ ?run) * ?r) ?b = packed w (pre @ ?run)"
      unfolding cp using lrun by (simp add: add_mult_distrib)
    moreover have "batch_del_loop ?r n (i # k # is) (length pre) b =
        batch_del_loop ?r n (k # is) (length (pre @ ?run)) ?b"
      using True src lrun by (simp add: Let_def)
    ultimately show ?thesis using lenb by blast
  next
    case False
    then have "?run = []" using ik by simp
    moreover have "batch_del_loop ?r n (i # k # is) (length pre) b =
        batch_del_loop ?r n (k # is) (length pre) b"
      using False by (simp add: Let_def)
    ultimately show ?thesis using Cons.prems drk[of k] ik by (intro exI[of _ b]) simp
  qed
  then obtain b' where b': "batch_del_loop ?r n (i # k # is) (length pre) b =
        batch_del_loop ?r n (k # is) (length (pre @ ?run)) b'"
      "length b' = n * ?r" "take (length (pre @ ?run) * ?r) b' = packed w (pre @ ?run)"
      "drop (k * ?r) b' = packed w (drop k rs)"
    by blast
  have "length (pre @ ?run) \<le> k" using Cons.prems(3) ik lrun by simp
  moreover have "asc_from k n (k # is)" using Cons.prems(1) by simp
  ultimately obtain junk where "batch_del_loop ?r n (k # is) (length (pre @ ?run)) b' =
      packed w ((pre @ ?run) @ surv (k # is) rs) @ junk"
    using Cons.IH[OF _ Cons.prems(2) _ b'(2,3,4)] by blast
  then show ?case using b'(1) by simp
qed

section \<open>Properties\<close>

lemma fp_rep_ApplyBatchInserts:
  assumes "fp_rep f rs" "desc_upto (length rs) (rev ops)"
  shows "fp_rep (fp_ApplyBatchInserts f ops) (foldl ins_one rs (rev ops))"
proof -
  have len: "desc_upto n xs \<Longrightarrow> length (foldl ins_one qs xs) = length qs + length xs" for n xs and qs :: "PieceRec list"
    by (induction xs arbitrary: n qs) (auto simp: ins_one_def)
  show ?thesis
    using assms batch_ins_loop_eq[of rs "rev ops" "replicate (length ops * rec_size (fpW f)) 0" "fpW f" "[]"]
      len[OF assms(2), of rs]
    by (auto simp: fp_rep_def fp_ApplyBatchInserts_def)
qed

lemma fp_rep_insert_each:
  "fp_rep f rs \<Longrightarrow> desc_upto n xs \<Longrightarrow> n \<le> length rs \<Longrightarrow>
   fp_rep (foldl (\<lambda>f x. fp_InsertAt f (nat (biAt x)) (biBuf x) (biStart x) (biLength x)) f xs) (foldl ins_one rs xs)"
proof (induction xs arbitrary: n f rs)
  case (Cons x xs)
  then have "fp_rep (fp_InsertAt f (nat (biAt x)) (biBuf x) (biStart x) (biLength x)) (ins_one rs x)"
    using fp_rep_InsertAt[of f rs "nat (biAt x)"] by (simp add: ins_one_def bi_rec_def)
  moreover have "nat (biAt x) \<le> length (ins_one rs x)" using Cons.prems by (simp add: ins_one_def)
  ultimately show ?case using Cons.prems(2) by (simp add: Cons.IH[of _ _ "nat (biAt x)"])
qed simp

text \<open>Two arrays with one width and one content are equal.\<close>

lemma fp_rep_unique: "fp_rep f rs \<Longrightarrow> fp_rep g rs \<Longrightarrow> fpW f = fpW g \<Longrightarrow> f = g"
  by (cases f; cases g) (simp add: fp_rep_def)

lemma fpW_keep [simp]:
  "fpW (fp_ApplyBatchInserts f ops) = fpW f" "fpW (fp_InsertAt f i b s l) = fpW f"
  "fpW (fp_ApplyBatchDeletes f idxs) = fpW f" "fpW (fp_DeleteAt f i) = fpW f"
  by (simp_all add: fp_ApplyBatchInserts_def fp_InsertAt_def fp_ApplyBatchDeletes_def fp_DeleteAt_def Let_def)

lemma fpW_foldl: "(\<And>f x. fpW (g f x) = fpW f) \<Longrightarrow> fpW (foldl g f xs) = fpW f"
  by (induction xs arbitrary: f) auto

text \<open>The single-pass batch insertion produces, byte for byte, the array that inserting the
  operations one at a time from the last to the first produces.\<close>

theorem batch_inserts_correct:
  assumes "fp_rep f rs" "desc_upto (length rs) (rev ops)"
  shows "fp_ApplyBatchInserts f ops =
    foldl (\<lambda>f x. fp_InsertAt f (nat (biAt x)) (biBuf x) (biStart x) (biLength x)) f (rev ops)"
  by (rule fp_rep_unique[OF fp_rep_ApplyBatchInserts[OF assms] fp_rep_insert_each[OF assms order_refl]])
    (simp add: fpW_foldl)

theorem batch_inserts_correct_witness:
  "fp_ApplyBatchInserts (fp_Append (NewFlatPieces 1) 0 0 9) [\<lparr>biAt = 0, biBuf = 1, biStart = 4, biLength = 2\<rparr>, \<lparr>biAt = 1, biBuf = 2, biStart = 5, biLength = 3\<rparr>] =
   fp_InsertAt (fp_InsertAt (fp_Append (NewFlatPieces 1) 0 0 9) 1 2 5 3) 0 1 4 2"
proof -
  have r: "fp_rep (fp_Append (NewFlatPieces 1) 0 0 9) ([] @ [piece 0 0 9])" by (rule fp_rep_Append[OF fp_rep_New])
  show ?thesis using batch_inserts_correct[OF r] by simp
qed

lemma fp_rep_ApplyBatchDeletes:
  assumes "fp_rep f rs" "asc_from 0 (length rs) idxs"
  shows "fp_rep (fp_ApplyBatchDeletes f idxs) (kept idxs rs)"
proof (cases idxs)
  case Nil
  then show ?thesis using assms by (simp add: fp_ApplyBatchDeletes_def)
next
  case (Cons i js)
  let ?r = "rec_size (fpW f)" and ?n = "length rs"
  have r: "fpRec f = ?r" "fpN f = ?n" "fpBuf f = packed (fpW f) rs" using assms(1) by (auto simp: fp_rep_def)
  have a: "asc_from i ?n (i # js)" using assms(2) Cons by simp
  then have i: "i < ?n" by simp
  have len: "length (packed (fpW f) rs) = ?n * ?r" by simp
  have pre: "length (take i rs) = i" using i by simp
  obtain junk where j: "batch_del_loop ?r ?n (i # js) i (packed (fpW f) rs) = packed (fpW f) (kept (i # js) rs) @ junk"
    using batch_del_loop_eq[OF a refl _ len, of "take i rs"] pre surv_kept[OF a refl]
    by (auto simp: take_packed drop_packed simp del: batch_del_loop.simps surv.simps)
  have "distinct idxs \<and> set idxs \<subseteq> {..<?n}"
  proof -
    have "asc_from lo n xs \<Longrightarrow> distinct xs \<and> set xs \<subseteq> {lo..<n}" for lo n xs
      by (induction lo n xs rule: asc_from.induct) (auto dest: asc_from_mem)
    then show ?thesis using assms(2) by fastforce
  qed
  then have "length (kept idxs rs) = ?n - length idxs"
  proof -
    assume d: "distinct idxs \<and> set idxs \<subseteq> {..<?n}"
    have "{i. i < ?n \<and> i \<in> - set idxs} = {..<?n} - set idxs" by auto
    then show ?thesis
      using d by (simp add: kept_def length_nths card_Diff_subset distinct_card)
  qed
  then show ?thesis
    using j r Cons by (simp add: fp_rep_def fp_ApplyBatchDeletes_def Let_def del: batch_del_loop.simps)
qed

lemma fp_rep_delete_each:
  assumes "fp_rep f rs" "asc_from 0 (length rs) idxs"
  shows "fp_rep (foldr (\<lambda>i f. fp_DeleteAt f i) idxs f) (kept idxs rs)"
proof -
  have "asc_from lo (length rs) idxs \<Longrightarrow> fp_rep (foldr (\<lambda>i f. fp_DeleteAt f i) idxs f) (kept idxs rs)" for lo
  proof (induction idxs arbitrary: lo)
    case Nil
    then show ?case using assms(1) by simp
  next
    case (Cons i js)
    then have IH: "fp_rep (foldr (\<lambda>i f. fp_DeleteAt f i) js f) (kept js rs)" and i: "i < length rs"
      and hi: "\<And>j. j \<in> set js \<Longrightarrow> Suc i \<le> j"
      using asc_from_mem[of "Suc i" "length rs" js] by auto
    have s: "kept js rs = take (Suc i) rs @ nths (drop (Suc i) rs) {j. j + Suc i \<in> - set js}"
      unfolding kept_def using i by (intro nths_shift_drop[OF hi]) auto
    have le: "j \<in> set (i # js) \<Longrightarrow> i \<le> j" for j using hi by fastforce
    have "kept (i # js) rs = take i rs @ nths (drop i rs) {j. j + i \<in> - set (i # js)}"
      unfolding kept_def using i by (intro nths_shift_drop[OF le]) auto
    also have "drop i rs = rs ! i # drop (Suc i) rs" using i by (simp add: Cons_nth_drop_Suc)
    also have "nths (rs ! i # drop (Suc i) rs) {j. j + i \<in> - set (i # js)} =
        nths (drop (Suc i) rs) {j. j + Suc i \<in> - set js}"
    proof -
      have "{j. Suc j + i \<in> - set (i # js)} = {j. j + Suc i \<in> - set js}" by auto
      then show ?thesis by (simp add: nths_Cons)
    qed
    finally have k: "kept (i # js) rs = take i (kept js rs) @ drop (Suc i) (kept js rs)"
      using i by (simp add: s)
    have "i < length (kept js rs)" using i by (simp add: s)
    then show ?case using fp_rep_DeleteAt[OF IH, of i] k by simp
  qed
  then show ?thesis using assms(2) .
qed

text \<open>The single-pass batch deletion produces the array that deleting the listed records one at
  a time from the last to the first produces.\<close>

theorem batch_deletes_correct:
  assumes "fp_rep f rs" "asc_from 0 (length rs) idxs"
  shows "fp_ApplyBatchDeletes f idxs = foldr (\<lambda>i f. fp_DeleteAt f i) idxs f"
proof (rule fp_rep_unique[OF fp_rep_ApplyBatchDeletes[OF assms] fp_rep_delete_each[OF assms]])
  show "fpW (fp_ApplyBatchDeletes f idxs) = fpW (foldr (\<lambda>i f. fp_DeleteAt f i) idxs f)"
    by (induction idxs) (simp_all add: fpW_keep)
qed

theorem batch_deletes_correct_witness:
  "fp_ApplyBatchDeletes (fp_Append (fp_Append (fp_Append (NewFlatPieces 1) 0 0 9) 1 2 3) 2 4 5) [0, 2] =
   fp_DeleteAt (fp_DeleteAt (fp_Append (fp_Append (fp_Append (NewFlatPieces 1) 0 0 9) 1 2 3) 2 4 5) 2) 0"
proof -
  have r: "fp_rep (fp_Append (fp_Append (fp_Append (NewFlatPieces 1) 0 0 9) 1 2 3) 2 4 5)
      ((([] @ [piece 0 0 9]) @ [piece 1 2 3]) @ [piece 2 4 5])"
    by (intro fp_rep_Append fp_rep_New)
  show ?thesis using batch_deletes_correct[OF r] by simp
qed

end
