(* ===== verification/PieceTree.thy ===== *)
theory PieceTree
  imports FlatArray
begin

text \<open>
  The order-statistics B-tree of \<open>internal/piecetable/leafpieces.go\<close> with the helpers of
  \<open>nodes.go\<close>: leaves pack piece records into bytes, internal nodes cache the length and the
  record count of each child. The nodes are mutated in place by the code and never shared, so the
  model returns the changed node.

  The recursive walks of the code index a child with the result of a scan that stops at the last
  child. The guard \<open>i < length cs\<close> of the model holds for every node with a child; without
  one the code panics, and the tree invariant excludes it.
\<close>

section \<open>Fanout and bulk-load groups (nodes.go)\<close>

definition maxE :: nat where "maxE = 32"
definition minE :: nat where "minE = maxE div 2"

definition groupSizes :: "nat \<Rightarrow> nat list" where
  "groupSizes m =
     (if m \<le> maxE then [m]
      else let g = (m + maxE - 1) div maxE; base = m div g; rem = m mod g
           in map (\<lambda>i. if i < rem then base + 1 else base) [0..<g])"

definition sumInts :: "int list \<Rightarrow> int" where
  "sumInts a = sum_list a"

definition insertInt :: "int list \<Rightarrow> nat \<Rightarrow> int \<Rightarrow> int list" where
  "insertInt a i v = slice_insert 0 i v a"

definition removeInt :: "int list \<Rightarrow> nat \<Rightarrow> int list" where
  "removeInt a i = slice_remove i a"

section \<open>Nodes\<close>

datatype pnode =
    LeafN "byte list" int int
  | InnerN "pnode list" "int list" "int list" int int

fun ptotal :: "pnode \<Rightarrow> int" where
  "ptotal (LeafN d t c) = t"
| "ptotal (InnerN cs st sc t c) = t"

fun pcount :: "pnode \<Rightarrow> int" where
  "pcount (LeafN d t c) = c"
| "pcount (InnerN cs st sc t c) = c"

fun is_leaf :: "pnode \<Rightarrow> bool" where
  "is_leaf (LeafN d t c) = True"
| "is_leaf (InnerN cs st sc t c) = False"

definition nil_node :: pnode where "nil_node = LeafN [] 0 0"

definition insertPnode :: "pnode list \<Rightarrow> nat \<Rightarrow> pnode \<Rightarrow> pnode list" where
  "insertPnode a i v = slice_insert nil_node i v a"

definition removePnode :: "pnode list \<Rightarrow> nat \<Rightarrow> pnode list" where
  "removePnode a i = slice_remove i a"

record PieceBTree =
  root :: pnode
  tw :: nat

section \<open>Leaf records\<close>

definition recAt :: "nat \<Rightarrow> byte list \<Rightarrow> nat \<Rightarrow> int \<times> int \<times> int" where
  "recAt w data j = read_rec w data (j * rec_size w)"

definition recLen :: "nat \<Rightarrow> byte list \<Rightarrow> nat \<Rightarrow> int" where
  "recLen w data j = getUintW (drop (j * rec_size w + 1 + w) data) w"

definition writeRec :: "nat \<Rightarrow> byte list \<Rightarrow> nat \<Rightarrow> PieceRec \<Rightarrow> byte list" where
  "writeRec w data off r = write_rec w data off (Buf r) (Start r) (Length r)"

definition sumLeaf :: "nat \<Rightarrow> byte list \<Rightarrow> int" where
  "sumLeaf w data = (\<Sum>j\<leftarrow>[0..<length data div rec_size w]. recLen w data j)"

definition recPiece :: "nat \<Rightarrow> byte list \<Rightarrow> nat \<Rightarrow> PieceRec" where
  "recPiece w data j = (case recAt w data j of (b, s, l) \<Rightarrow> piece b s l)"

section \<open>Construction\<close>

fun fill_leaf :: "nat \<Rightarrow> nat \<Rightarrow> PieceRec list \<Rightarrow> byte list \<Rightarrow> byte list" where
  "fill_leaf w k [] data = data"
| "fill_leaf w k (r # rs) data = fill_leaf w (Suc k) rs (writeRec w data (k * rec_size w) r)"

definition mk_leaf :: "nat \<Rightarrow> PieceRec list \<Rightarrow> pnode" where
  "mk_leaf w rs =
     LeafN (fill_leaf w 0 rs (replicate (length rs * rec_size w) 0)) (recsLen rs) (int (length rs))"

definition mk_inner :: "pnode list \<Rightarrow> pnode" where
  "mk_inner grp = InnerN grp (map ptotal grp) (map pcount grp) (\<Sum>c\<leftarrow>grp. ptotal c) (\<Sum>c\<leftarrow>grp. pcount c)"

fun split_groups :: "nat list \<Rightarrow> 'a list \<Rightarrow> 'a list list" where
  "split_groups [] xs = []"
| "split_groups (sz # szs) xs = take sz xs # split_groups szs (drop sz xs)"

lemma length_split_groups [simp]: "length (split_groups szs xs) = length szs"
  by (induction szs arbitrary: xs) auto

lemma length_groupSizes_less: "1 < m \<Longrightarrow> length (groupSizes m) < m"
  by (auto simp: groupSizes_def maxE_def Let_def)

function build_up :: "pnode list \<Rightarrow> pnode" where
  "build_up nodes =
     (if 1 < length nodes
      then build_up (map mk_inner (split_groups (groupSizes (length nodes)) nodes))
      else nodes ! 0)"
  by pat_completeness auto
termination
  by (relation "measure length") (auto simp: length_groupSizes_less)

declare build_up.simps [simp del]

definition NewPieceBTree :: "nat \<Rightarrow> PieceRec list \<Rightarrow> PieceBTree" where
  "NewPieceBTree width recs =
     (if recs = [] then \<lparr>root = LeafN [] 0 0, tw = width\<rparr>
      else \<lparr>root = build_up (map (mk_leaf width) (split_groups (groupSizes (length recs)) recs)),
            tw = width\<rparr>)"

section \<open>Queries\<close>

text \<open>The scan every descent makes: skip children while the key is past them, subtracting what
  each skipped child holds, and never past the last child.\<close>

function descend :: "(int \<Rightarrow> int \<Rightarrow> bool) \<Rightarrow> int list \<Rightarrow> int list \<Rightarrow> nat \<Rightarrow> nat \<Rightarrow> int \<Rightarrow> int \<Rightarrow> nat \<times> int \<times> int" where
  "descend past keys vals k i x acc =
     (if i + 1 < k \<and> past x (keys ! i)
      then descend past keys vals k (i + 1) (x - keys ! i) (acc + vals ! i)
      else (i, x, acc))"
  by pat_completeness auto
termination by (relation "measure (\<lambda>(p, ks, vs, k, i, x, a). k - i)") auto

declare descend.simps [simp del]

definition reaches :: "int \<Rightarrow> int \<Rightarrow> bool" where "reaches x s \<longleftrightarrow> s \<le> x"
definition exceeds :: "int \<Rightarrow> int \<Rightarrow> bool" where "exceeds x s \<longleftrightarrow> s < x"

function leaf_find :: "nat \<Rightarrow> byte list \<Rightarrow> nat \<Rightarrow> nat \<Rightarrow> int \<Rightarrow> int \<Rightarrow> nat option" where
  "leaf_find w data n j cur pos =
     (if j < n then
        (let cur' = cur + recLen w data j
         in if pos < cur' then Some j else leaf_find w data n (j + 1) cur' pos)
      else None)"
  by pat_completeness auto
termination by (relation "measure (\<lambda>(w, d, n, j, c, p). n - j)") auto

declare leaf_find.simps [simp del]

fun find_in :: "nat \<Rightarrow> pnode \<Rightarrow> int \<Rightarrow> int \<Rightarrow> int" where
  "find_in w (LeafN d t c) pos idx =
     (case leaf_find w d (nat c) 0 0 pos of
        Some j \<Rightarrow> idx + int j
      | None \<Rightarrow> if c = 0 then idx else idx + c - 1)"
| "find_in w (InnerN cs st sc t c) pos idx =
     (let (i, pos', idx') = descend reaches st sc (length cs) 0 pos idx
      in if i < length cs then find_in w (cs ! i) pos' idx' else idx')"

definition tree_find :: "PieceBTree \<Rightarrow> int \<Rightarrow> int" where
  "tree_find t pos = find_in (tw t) (root t) pos 0"

function leaf_at :: "nat \<Rightarrow> byte list \<Rightarrow> nat \<Rightarrow> nat \<Rightarrow> int \<Rightarrow> int \<Rightarrow> int \<times> int" where
  "leaf_at w data n j cur pos =
     (if j < n then
        (let (b, s, l) = recAt w data j
         in if pos < cur + l then (b, s + (pos - cur)) else leaf_at w data n (j + 1) (cur + l) pos)
      else (let (b, s, l) = recAt w data (n - 1) in (b, s + l - 1)))"
  by pat_completeness auto
termination by (relation "measure (\<lambda>(w, d, n, j, c, p). n - j)") auto

declare leaf_at.simps [simp del]

fun at_in :: "nat \<Rightarrow> pnode \<Rightarrow> int \<Rightarrow> int \<times> int" where
  "at_in w (LeafN d t c) pos = leaf_at w d (nat c) 0 0 pos"
| "at_in w (InnerN cs st sc t c) pos =
     (let (i, pos', u) = descend reaches st sc (length cs) 0 pos 0
      in if i < length cs then at_in w (cs ! i) pos' else (0, 0))"

definition tree_At :: "PieceBTree \<Rightarrow> int \<Rightarrow> int \<times> int" where
  "tree_At t pos = at_in (tw t) (root t) pos"

fun get_in :: "nat \<Rightarrow> pnode \<Rightarrow> int \<Rightarrow> PieceRec" where
  "get_in w (LeafN d t c) idx = recPiece w d (nat idx)"
| "get_in w (InnerN cs st sc t c) idx =
     (let (i, idx', u) = descend reaches sc sc (length cs) 0 idx 0
      in if i < length cs then get_in w (cs ! i) idx' else piece 0 0 0)"

definition tree_Get :: "PieceBTree \<Rightarrow> int \<Rightarrow> PieceRec" where
  "tree_Get t idx = get_in (tw t) (root t) idx"

fun prefix_in :: "nat \<Rightarrow> pnode \<Rightarrow> int \<Rightarrow> int \<Rightarrow> int" where
  "prefix_in w (LeafN d t c) idx s =
     s + (\<Sum>j\<leftarrow>[0..<min (nat idx) (nat c)]. recLen w d j)"
| "prefix_in w (InnerN cs st sc t c) idx s =
     (let (i, idx', s') = descend exceeds sc st (length cs) 0 idx s
      in if i < length cs then prefix_in w (cs ! i) idx' s' else s')"

definition tree_prefix :: "PieceBTree \<Rightarrow> int \<Rightarrow> int" where
  "tree_prefix t idx = prefix_in (tw t) (root t) idx 0"

section \<open>Length edit\<close>

fun addLen_in :: "nat \<Rightarrow> pnode \<Rightarrow> int \<Rightarrow> int \<Rightarrow> pnode" where
  "addLen_in w (LeafN d t c) idx delta =
     (let off = nat idx * rec_size w;
          cur = getUintW (drop (off + 1 + w) d) w
      in LeafN (at_slice (off + 1 + w) (\<lambda>s. putUintW s w (cur + delta)) d) (t + delta) c)"
| "addLen_in w (InnerN cs st sc t c) idx delta =
     (let (i, idx', u) = descend reaches sc sc (length cs) 0 idx 0
      in if i < length cs
         then InnerN (cs[i := addLen_in w (cs ! i) idx' delta]) (st[i := st ! i + delta]) sc (t + delta) c
         else InnerN cs st sc (t + delta) c)"

definition tree_addLen :: "PieceBTree \<Rightarrow> int \<Rightarrow> int \<Rightarrow> PieceBTree" where
  "tree_addLen t idx delta = t\<lparr>root := addLen_in (tw t) (root t) idx delta\<rparr>"

section \<open>Insertion\<close>

fun splitLeaf :: "nat \<Rightarrow> pnode \<Rightarrow> pnode \<times> pnode" where
  "splitLeaf w (LeafN d t c) =
     (let mid = nat c div 2;
          rd = drop (mid * rec_size w) d;
          ld = take (mid * rec_size w) d
      in (LeafN ld (sumLeaf w ld) (int mid),
          LeafN rd (sumLeaf w rd) (int (length rd div rec_size w))))"
| "splitLeaf w n = (n, n)"

fun splitInternal :: "pnode \<Rightarrow> pnode \<times> pnode" where
  "splitInternal (InnerN cs st sc t c) =
     (let mid = length cs div 2
      in (InnerN (take mid cs) (take mid st) (take mid sc) (sumInts (take mid st)) (sumInts (take mid sc)),
          InnerN (drop mid cs) (drop mid st) (drop mid sc) (sumInts (drop mid st)) (sumInts (drop mid sc))))"
| "splitInternal n = (n, n)"

fun insertAt :: "nat \<Rightarrow> pnode \<Rightarrow> int \<Rightarrow> PieceRec \<Rightarrow> pnode \<times> pnode option" where
  "insertAt w (LeafN d t c) idx r =
     (let off = nat idx * rec_size w;
          n = LeafN (writeRec w (open_slot (rec_size w) off d) off r) (t + Length r) (c + 1)
      in if int maxE < c + 1 then (case splitLeaf w n of (l, rt) \<Rightarrow> (l, Some rt)) else (n, None))"
| "insertAt w (InnerN cs st sc t c) idx r =
     (let (i, idx', u) = descend exceeds sc sc (length cs) 0 idx 0
      in if i < length cs then
           (let (child, right) = insertAt w (cs ! i) idx' r;
                cs1 = cs[i := child]; st1 = st[i := ptotal child]; sc1 = sc[i := pcount child]
            in case right of
                 None \<Rightarrow> (InnerN cs1 st1 sc1 (t + Length r) (c + 1), None)
               | Some rt \<Rightarrow>
                   (let n = InnerN (insertPnode cs1 (i + 1) rt) (insertInt st1 (i + 1) (ptotal rt))
                              (insertInt sc1 (i + 1) (pcount rt)) (t + Length r) (c + 1)
                    in if maxE < length cs + 1
                       then (case splitInternal n of (l, rn) \<Rightarrow> (l, Some rn)) else (n, None)))
         else (InnerN cs st sc (t + Length r) (c + 1), None))"

definition InsertPiece :: "PieceBTree \<Rightarrow> int \<Rightarrow> PieceRec \<Rightarrow> PieceBTree" where
  "InsertPiece t idx r =
     (case insertAt (tw t) (root t) idx r of
        (old, None) \<Rightarrow> t\<lparr>root := old\<rparr>
      | (old, Some right) \<Rightarrow>
          t\<lparr>root := InnerN [old, right] [ptotal old, ptotal right] [pcount old, pcount right]
                     (ptotal old + ptotal right) (pcount old + pcount right)\<rparr>)"

section \<open>Deletion\<close>

fun nodeSize :: "pnode \<Rightarrow> nat" where
  "nodeSize (LeafN d t c) = nat c"
| "nodeSize (InnerN cs st sc t c) = length cs"

fun leafPopBack :: "nat \<Rightarrow> pnode \<Rightarrow> byte list \<times> int \<times> pnode" where
  "leafPopBack w (LeafN d t c) =
     (let off = (nat c - 1) * rec_size w;
          rc = take (rec_size w) (drop off d);
          len = getUintW (drop (1 + w) rc) w
      in (rc, len, LeafN (take off d) (t - len) (c - 1)))"
| "leafPopBack w n = ([], 0, n)"

fun leafPopFront :: "nat \<Rightarrow> pnode \<Rightarrow> byte list \<times> int \<times> pnode" where
  "leafPopFront w (LeafN d t c) =
     (let rc = take (rec_size w) d;
          len = getUintW (drop (1 + w) rc) w
      in (rc, len, LeafN (close_slot (rec_size w) 0 d) (t - len) (c - 1)))"
| "leafPopFront w n = ([], 0, n)"

fun leafPushBack :: "pnode \<Rightarrow> byte list \<Rightarrow> int \<Rightarrow> pnode" where
  "leafPushBack (LeafN d t c) rc len = LeafN (d @ rc) (t + len) (c + 1)"
| "leafPushBack n rc len = n"

fun leafPushFront :: "nat \<Rightarrow> pnode \<Rightarrow> byte list \<Rightarrow> int \<Rightarrow> pnode" where
  "leafPushFront w (LeafN d t c) rc len =
     LeafN (copy_at 0 rc (open_slot (rec_size w) 0 d)) (t + len) (c + 1)"
| "leafPushFront w n rc len = n"

fun popBackChild :: "pnode \<Rightarrow> pnode \<times> pnode" where
  "popBackChild (InnerN cs st sc t c) =
     (let k = length cs - 1; x = cs ! k
      in (x, InnerN (take k cs) (take k st) (take k sc) (t - ptotal x) (c - pcount x)))"
| "popBackChild n = (n, n)"

fun popFrontChild :: "pnode \<Rightarrow> pnode \<times> pnode" where
  "popFrontChild (InnerN cs st sc t c) =
     (let x = cs ! 0
      in (x, InnerN (removePnode cs 0) (removeInt st 0) (removeInt sc 0) (t - ptotal x) (c - pcount x)))"
| "popFrontChild n = (n, n)"

fun pushBackChild :: "pnode \<Rightarrow> pnode \<Rightarrow> pnode" where
  "pushBackChild (InnerN cs st sc t c) x =
     InnerN (cs @ [x]) (st @ [ptotal x]) (sc @ [pcount x]) (t + ptotal x) (c + pcount x)"
| "pushBackChild n x = n"

fun pushFrontChild :: "pnode \<Rightarrow> pnode \<Rightarrow> pnode" where
  "pushFrontChild (InnerN cs st sc t c) x =
     InnerN (insertPnode cs 0 x) (insertInt st 0 (ptotal x)) (insertInt sc 0 (pcount x))
       (t + ptotal x) (c + pcount x)"
| "pushFrontChild n x = n"

text \<open>Storing a changed child together with its cached sums, as \<open>refresh\<close> does.\<close>

fun refresh :: "pnode \<Rightarrow> nat \<Rightarrow> pnode \<Rightarrow> pnode" where
  "refresh (InnerN cs st sc t c) i x = InnerN (cs[i := x]) (st[i := ptotal x]) (sc[i := pcount x]) t c"
| "refresh n i x = n"

definition borrowLeft :: "nat \<Rightarrow> pnode \<Rightarrow> pnode \<Rightarrow> pnode \<times> pnode" where
  "borrowLeft w left cur =
     (if is_leaf cur
      then (let (rc, len, left') = leafPopBack w left in (left', leafPushFront w cur rc len))
      else (let (x, left') = popBackChild left in (left', pushFrontChild cur x)))"

definition borrowRight :: "nat \<Rightarrow> pnode \<Rightarrow> pnode \<Rightarrow> pnode \<times> pnode" where
  "borrowRight w cur right =
     (if is_leaf cur
      then (let (rc, len, right') = leafPopFront w right in (leafPushBack cur rc len, right'))
      else (let (x, right') = popFrontChild right in (pushBackChild cur x, right')))"

fun mergeNodes :: "pnode \<Rightarrow> pnode \<Rightarrow> pnode" where
  "mergeNodes (LeafN d t c) (LeafN d' t' c') = LeafN (d @ d') (t + t') (c + c')"
| "mergeNodes (InnerN cs st sc t c) (InnerN cs' st' sc' t' c') =
     InnerN (cs @ cs') (st @ st') (sc @ sc') (t + t') (c + c')"
| "mergeNodes a b = a"

fun borrowFromLeft :: "nat \<Rightarrow> pnode \<Rightarrow> nat \<Rightarrow> pnode" where
  "borrowFromLeft w (InnerN cs st sc t c) i =
     (let (left, cur) = borrowLeft w (cs ! (i - 1)) (cs ! i)
      in refresh (refresh (InnerN cs st sc t c) (i - 1) left) i cur)"
| "borrowFromLeft w n i = n"

fun borrowFromRight :: "nat \<Rightarrow> pnode \<Rightarrow> nat \<Rightarrow> pnode" where
  "borrowFromRight w (InnerN cs st sc t c) i =
     (let (cur, right) = borrowRight w (cs ! i) (cs ! (i + 1))
      in refresh (refresh (InnerN cs st sc t c) i cur) (i + 1) right)"
| "borrowFromRight w n i = n"

fun tree_merge :: "pnode \<Rightarrow> nat \<Rightarrow> pnode" where
  "tree_merge (InnerN cs st sc t c) j =
     (let a = mergeNodes (cs ! j) (cs ! (j + 1))
      in refresh (InnerN (removePnode cs (j + 1)) (removeInt st (j + 1)) (removeInt sc (j + 1)) t c) j a)"
| "tree_merge n j = n"

fun childSize :: "pnode \<Rightarrow> nat \<Rightarrow> nat" where
  "childSize (InnerN cs st sc t c) i = nodeSize (cs ! i)"
| "childSize n i = 0"

definition rebalance :: "nat \<Rightarrow> pnode \<Rightarrow> nat \<Rightarrow> pnode" where
  "rebalance w n i =
     (if 0 < i \<and> minE < childSize n (i - 1) then borrowFromLeft w n i
      else if i + 1 < nodeSize n \<and> minE < childSize n (i + 1) then borrowFromRight w n i
      else if 0 < i then tree_merge n (i - 1)
      else tree_merge n i)"

fun deleteAt :: "nat \<Rightarrow> pnode \<Rightarrow> int \<Rightarrow> int \<times> pnode" where
  "deleteAt w (LeafN d t c) idx =
     (let removed = recLen w d (nat idx)
      in (removed, LeafN (close_slot (rec_size w) (nat idx * rec_size w) d) (t - removed) (c - 1)))"
| "deleteAt w (InnerN cs st sc t c) idx =
     (let (i, idx', u) = descend reaches sc sc (length cs) 0 idx 0
      in if i < length cs then
           (let (removed, x) = deleteAt w (cs ! i) idx';
                n = refresh (InnerN cs st sc (t - removed) (c - 1)) i x
            in (removed, if childSize n i < minE then rebalance w n i else n))
         else (0, InnerN cs st sc t c))"

fun collapse :: "pnode \<Rightarrow> pnode" where
  "collapse (LeafN d t c) = LeafN d t c"
| "collapse (InnerN cs st sc t c) = (case cs of [x] \<Rightarrow> collapse x | _ \<Rightarrow> InnerN cs st sc t c)"

definition DeletePiece :: "PieceBTree \<Rightarrow> int \<Rightarrow> PieceBTree" where
  "DeletePiece t idx = t\<lparr>root := collapse (snd (deleteAt (tw t) (root t) idx))\<rparr>"

section \<open>Sizes and iteration\<close>

definition tree_Count :: "PieceBTree \<Rightarrow> int" where "tree_Count t = pcount (root t)"
definition tree_Total :: "PieceBTree \<Rightarrow> int" where "tree_Total t = ptotal (root t)"

text \<open>\<open>Each\<close> with its visitor's state threaded through: the visitor returns whether to go on.\<close>

function leaf_each :: "nat \<Rightarrow> byte list \<Rightarrow> nat \<Rightarrow> nat \<Rightarrow> int \<Rightarrow> (int \<Rightarrow> PieceRec \<Rightarrow> 's \<Rightarrow> bool \<times> 's) \<Rightarrow> 's \<Rightarrow> bool \<times> 's" where
  "leaf_each w d n i base f s =
     (if i < n then
        (let (go, s') = f (base + int i) (recPiece w d i) s
         in if go then leaf_each w d n (i + 1) base f s' else (False, s'))
      else (True, s))"
  by pat_completeness auto
termination by (relation "measure (\<lambda>(w, d, n, i, b, f, s). n - i)") auto

declare leaf_each.simps [simp del]

fun each_in :: "nat \<Rightarrow> pnode \<Rightarrow> int \<Rightarrow> int \<Rightarrow> (int \<Rightarrow> PieceRec \<Rightarrow> 's \<Rightarrow> bool \<times> 's) \<Rightarrow> 's \<Rightarrow> bool \<times> 's"
  and each_list :: "nat \<Rightarrow> pnode list \<Rightarrow> int list \<Rightarrow> int \<Rightarrow> int \<Rightarrow> (int \<Rightarrow> PieceRec \<Rightarrow> 's \<Rightarrow> bool \<times> 's) \<Rightarrow> 's \<Rightarrow> bool \<times> 's" where
  "each_in w (LeafN d t c) skip base f s = leaf_each w d (nat c) (nat skip) base f s"
| "each_in w (InnerN cs st sc t c) skip base f s = each_list w cs sc skip base f s"
| "each_list w [] sc skip base f s = (True, s)"
| "each_list w (x # xs) [] skip base f s = (True, s)"
| "each_list w (x # xs) (k # ks) skip base f s =
     (if k \<le> skip then each_list w xs ks (skip - k) (base + k) f s
      else (let (go, s') = each_in w x skip base f s
            in if go then each_list w xs ks 0 (base + k) f s' else (False, s')))"

definition tree_Each :: "PieceBTree \<Rightarrow> int \<Rightarrow> (int \<Rightarrow> PieceRec \<Rightarrow> 's \<Rightarrow> bool \<times> 's) \<Rightarrow> 's \<Rightarrow> 's" where
  "tree_Each t from f s =
     snd (each_in (tw t) (root t) (if from < 0 then 0 else from) 0 f s)"

end
