(* ===== verification/TreeInv.thy ===== *)
theory TreeInv
  imports PieceTree
begin

text \<open>
  The invariant of the piece tree (packed leaves, exact cached sums, uniform depth, B-tree sizes),
  the records a node holds in document order, and what the queries of
  \<open>internal/piecetable/leafpieces.go\<close> return on a tree that satisfies it.
\<close>

section \<open>The records of a node and the invariant\<close>

definition leaf_recs :: "nat \<Rightarrow> byte list \<Rightarrow> nat \<Rightarrow> PieceRec list" where
  "leaf_recs w d n = map (recPiece w d) [0..<n]"

fun node_recs :: "nat \<Rightarrow> pnode \<Rightarrow> PieceRec list" where
  "node_recs w (LeafN d t c) = leaf_recs w d (nat c)"
| "node_recs w (InnerN cs st sc t c) = concat (map (node_recs w) cs)"

fun height :: "pnode \<Rightarrow> nat" where
  "height (LeafN d t c) = 0"
| "height (InnerN [] st sc t c) = 1"
| "height (InnerN (x # xs) st sc t c) = Suc (height x)"

fun wf_node :: "nat \<Rightarrow> nat \<Rightarrow> pnode \<Rightarrow> bool" where
  "wf_node w h (LeafN d t c) \<longleftrightarrow> h = 0 \<and> 0 \<le> c \<and>
     (let rs = leaf_recs w d (nat c) in d = packed w rs \<and> (\<forall>r \<in> set rs. rec_fits w r) \<and> t = recsLen rs)"
| "wf_node w h (InnerN cs st sc t c) \<longleftrightarrow> 0 < h \<and> cs \<noteq> [] \<and> (\<forall>x \<in> set cs. wf_node w (h - 1) x) \<and>
     st = map ptotal cs \<and> sc = map pcount cs \<and> t = sum_list st \<and> c = sum_list sc"

fun sized :: "nat \<Rightarrow> pnode \<Rightarrow> bool" where
  "sized lo (LeafN d t c) \<longleftrightarrow> int lo \<le> c \<and> c \<le> int maxE"
| "sized lo (InnerN cs st sc t c) \<longleftrightarrow> lo \<le> length cs \<and> length cs \<le> maxE \<and> (\<forall>x \<in> set cs. sized minE x)"

text \<open>The root may be a small leaf, or an internal node with as few as two children.\<close>

definition root_lo :: "pnode \<Rightarrow> nat" where
  "root_lo n = (if is_leaf n then 0 else 2)"

definition tree_inv :: "PieceBTree \<Rightarrow> bool" where
  "tree_inv t \<longleftrightarrow> 1 \<le> tw t \<and> tw t \<le> 8 \<and> wf_node (tw t) (height (root t)) (root t) \<and>
     sized (root_lo (root t)) (root t)"

definition tree_recs :: "PieceBTree \<Rightarrow> PieceRec list" where
  "tree_recs t = node_recs (tw t) (root t)"

lemma wf_height: "wf_node w h n \<Longrightarrow> height n = h"
proof (induction n arbitrary: h rule: height.induct)
  case (3 x xs st sc t c)
  then have "height x = h - 1" by simp
  with "3.prems" show ?case by simp
qed auto

section \<open>Leaves\<close>

lemma recAt_packed:
  "w \<le> 8 \<Longrightarrow> j < length rs \<Longrightarrow> rec_fits w (rs ! j) \<Longrightarrow>
   recAt w (packed w rs) j = (Buf (rs ! j), Start (rs ! j), Length (rs ! j))"
  by (simp add: recAt_def read_rec_packed)

lemma recPiece_packed:
  "w \<le> 8 \<Longrightarrow> j < length rs \<Longrightarrow> rec_fits w (rs ! j) \<Longrightarrow> recPiece w (packed w rs) j = rs ! j"
  by (simp add: recPiece_def recAt_packed)

lemma recLen_recAt: "recLen w d j = snd (snd (recAt w d j))"
  by (simp add: recLen_def recAt_def read_rec_def)

lemma recLen_packed:
  "w \<le> 8 \<Longrightarrow> j < length rs \<Longrightarrow> rec_fits w (rs ! j) \<Longrightarrow> recLen w (packed w rs) j = Length (rs ! j)"
  by (simp add: recLen_recAt recAt_packed)

lemma leaf_recs_packed:
  "w \<le> 8 \<Longrightarrow> \<forall>r \<in> set rs. rec_fits w r \<Longrightarrow> n = length rs \<Longrightarrow> leaf_recs w (packed w rs) n = rs"
  by (auto simp: leaf_recs_def recPiece_packed intro: nth_equalityI)

definition mk_leafN :: "nat \<Rightarrow> PieceRec list \<Rightarrow> pnode" where
  "mk_leafN w rs = LeafN (packed w rs) (recsLen rs) (int (length rs))"

lemma wf_mk_leafN:
  "w \<le> 8 \<Longrightarrow> \<forall>r \<in> set rs. rec_fits w r \<Longrightarrow> wf_node w 0 (mk_leafN w rs) \<and> node_recs w (mk_leafN w rs) = rs"
  by (simp add: mk_leafN_def leaf_recs_packed)

text \<open>Every well-formed leaf is the packing of its records.\<close>

lemma wf_leafE:
  assumes "wf_node w h (LeafN d t c)"
  obtains rs where "LeafN d t c = mk_leafN w rs" "\<forall>r \<in> set rs. rec_fits w r"
    "node_recs w (LeafN d t c) = rs" "h = 0"
proof
  let ?rs = "leaf_recs w d (nat c)"
  have "int (length ?rs) = c" using assms by (simp add: leaf_recs_def)
  then show "LeafN d t c = mk_leafN w ?rs" using assms by (auto simp: mk_leafN_def Let_def)
qed (use assms in \<open>auto simp: Let_def\<close>)

lemma rec_fits_Length: "rec_fits w r \<Longrightarrow> 0 \<le> Length r"
  by (simp add: rec_fits_def field_ok_def)

lemma rec_fits_lens_ok: "\<forall>r \<in> set rs. rec_fits w r \<Longrightarrow> lens_ok rs"
  by (auto simp: lens_ok_def rec_fits_Length)

lemma wf_node_sums:
  assumes "wf_node w h n"
  shows "(\<forall>r \<in> set (node_recs w n). rec_fits w r) \<and>
    ptotal n = recsLen (node_recs w n) \<and> pcount n = int (length (node_recs w n))"
  using assms
proof (induction h arbitrary: n)
  case 0
  then show ?case by (cases n) (auto simp: Let_def leaf_recs_def)
next
  case (Suc h)
  then obtain cs st sc t c where n: "n = InnerN cs st sc t c" by (cases n) auto
  with Suc.prems have cs: "\<forall>x \<in> set cs. wf_node w h x" and t: "t = (\<Sum>x\<leftarrow>cs. ptotal x)" "c = (\<Sum>x\<leftarrow>cs. pcount x)"
    by auto
  have "(\<forall>r \<in> set (concat (map (node_recs w) cs)). rec_fits w r) \<and>
     (\<Sum>x\<leftarrow>cs. ptotal x) = recsLen (concat (map (node_recs w) cs)) \<and>
     (\<Sum>x\<leftarrow>cs. pcount x) = int (length (concat (map (node_recs w) cs)))"
    using cs
  proof (induction cs)
    case Nil
    then show ?case by simp
  next
    case (Cons x xs)
    then show ?case using Suc.IH[of x] by auto
  qed
  then show ?case by (simp add: n t)
qed

lemma wf_node_lens_ok: "wf_node w h n \<Longrightarrow> lens_ok (node_recs w n)"
  using wf_node_sums rec_fits_lens_ok by blast

lemma wf_node_nonneg: "wf_node w h n \<Longrightarrow> 0 \<le> ptotal n" "wf_node w h n \<Longrightarrow> 0 \<le> pcount n"
  using wf_node_sums[of w h n] recsLen_nonneg[OF wf_node_lens_ok[of w h n]] by auto

section \<open>Descending\<close>

lemma descend_spec:
  assumes "descend past keys vals k i x acc = (j, x', acc')" "i < k" "k \<le> length keys" "k \<le> length vals"
  shows "i \<le> j \<and> j < k \<and> x + sum_list (take i keys) = x' + sum_list (take j keys) \<and>
    acc - sum_list (take i vals) = acc' - sum_list (take j vals) \<and>
    (j + 1 = k \<or> \<not> past x' (keys ! j)) \<and>
    ((\<forall>y s. past y s \<longrightarrow> 0 \<le> y - s) \<longrightarrow> 0 \<le> x \<longrightarrow> 0 \<le> x')"
  using assms
proof (induction past keys vals k i x acc rule: descend.induct)
  case (1 past keys vals k i x acc)
  show ?case
  proof (cases "i + 1 < k \<and> past x (keys ! i)")
    case True
    then have d: "descend past keys vals k (i + 1) (x - keys ! i) (acc + vals ! i) = (j, x', acc')"
      using "1.prems" by (simp add: descend.simps[of past keys vals k i x acc])
    have s: "sum_list (take (i + 1) keys) = sum_list (take i keys) + keys ! i"
      "sum_list (take (i + 1) vals) = sum_list (take i vals) + vals ! i"
      using "1.prems" by (simp_all add: take_Suc_conv_app_nth)
    show ?thesis using "1.IH"[OF True d] "1.prems"(3,4) True s by auto
  next
    case False
    then have "j = i" "x' = x" "acc' = acc"
      using "1.prems"(1) by (auto simp: descend.simps[of past keys vals k i x acc])
    then show ?thesis using False "1.prems" by auto
  qed
qed

abbreviation child_pre :: "nat \<Rightarrow> pnode list \<Rightarrow> nat \<Rightarrow> PieceRec list" where
  "child_pre w cs j \<equiv> concat (map (node_recs w) (take j cs))"
abbreviation child_post :: "nat \<Rightarrow> pnode list \<Rightarrow> nat \<Rightarrow> PieceRec list" where
  "child_post w cs j \<equiv> concat (map (node_recs w) (drop (Suc j) cs))"

lemma sum_children:
  assumes "\<forall>x \<in> set cs. wf_node w h x"
  shows "sum_list (take j (map ptotal cs)) = recsLen (child_pre w cs j)"
    and "sum_list (take j (map pcount cs)) = int (length (child_pre w cs j))"
proof -
  have *: "\<forall>x \<in> set xs. wf_node w h x \<Longrightarrow> (\<Sum>x\<leftarrow>xs. ptotal x) = recsLen (concat (map (node_recs w) xs)) \<and>
      (\<Sum>x\<leftarrow>xs. pcount x) = int (length (concat (map (node_recs w) xs)))" for xs
    by (induction xs) (use wf_node_sums in auto)
  have "\<forall>x \<in> set (take j cs). wf_node w h x" using assms by (auto dest: in_set_takeD)
  from *[OF this] show "sum_list (take j (map ptotal cs)) = recsLen (child_pre w cs j)"
    "sum_list (take j (map pcount cs)) = int (length (child_pre w cs j))"
    by (simp_all add: take_map)
qed

lemma inner_split:
  "j < length cs \<Longrightarrow> node_recs w (InnerN cs st sc t c) = child_pre w cs j @ node_recs w (cs ! j) @ child_post w cs j"
  using concat_map_nth[of j cs "node_recs w"] by simp

lemma last_child_post: "j + 1 = length cs \<Longrightarrow> child_post w cs j = []"
  by simp

lemma descend_pos:
  assumes wf: "wf_node w (Suc h) (InnerN cs st sc t c)"
    and d: "descend reaches st sc (length cs) 0 pos idx = (j, pos', idx')" and p: "0 \<le> pos"
  shows "j < length cs \<and> wf_node w h (cs ! j) \<and> pos' = pos - recsLen (child_pre w cs j) \<and>
    idx' = idx + int (length (child_pre w cs j)) \<and> 0 \<le> pos' \<and>
    (pos < t \<longrightarrow> pos' < recsLen (node_recs w (cs ! j)))"
proof -
  from wf have cs: "\<forall>x \<in> set cs. wf_node w h x" "cs \<noteq> []" "st = map ptotal cs" "sc = map pcount cs"
    and t: "t = sum_list st" by auto
  have s: "j < length cs" "pos = pos' + sum_list (take j st)" "idx = idx' - sum_list (take j sc)"
      "j + 1 = length cs \<or> \<not> reaches pos' (st ! j)" "0 \<le> pos'"
    using descend_spec[OF d] cs p by (auto simp: reaches_def)
  have wj: "wf_node w h (cs ! j)" using cs s(1) by simp
  have tot: "t = recsLen (child_pre w cs j) + recsLen (node_recs w (cs ! j)) + recsLen (child_post w cs j)"
    using wf_node_sums[OF wf] inner_split[OF s(1), of w st sc t c] by simp
  have "pos < t \<Longrightarrow> pos' < recsLen (node_recs w (cs ! j))"
    using s(4) tot last_child_post[of j cs w] s(1,2) cs(3) wf_node_sums[OF wj] sum_children(1)[OF cs(1), of j]
    by (auto simp: reaches_def)
  then show ?thesis
    using s wj sum_children[OF cs(1), of j] cs(3,4) by simp
qed

lemma descend_cnt:
  assumes wf: "wf_node w (Suc h) (InnerN cs st sc t c)"
    and d: "descend reaches sc sc (length cs) 0 idx u = (j, idx', u')" and p: "0 \<le> idx" "idx < c"
  shows "j < length cs \<and> wf_node w h (cs ! j) \<and> idx' = idx - int (length (child_pre w cs j)) \<and>
    0 \<le> idx' \<and> idx' < int (length (node_recs w (cs ! j)))"
proof -
  from wf have cs: "\<forall>x \<in> set cs. wf_node w h x" "cs \<noteq> []" "st = map ptotal cs" "sc = map pcount cs" by auto
  have s: "j < length cs" "idx = idx' + sum_list (take j sc)"
      "j + 1 = length cs \<or> \<not> reaches idx' (sc ! j)" "0 \<le> idx'"
    using descend_spec[OF d] cs p by (auto simp: reaches_def)
  have wj: "wf_node w h (cs ! j)" using cs s(1) by simp
  have "c = int (length (child_pre w cs j)) + int (length (node_recs w (cs ! j))) + int (length (child_post w cs j))"
    using wf_node_sums[OF wf] inner_split[OF s(1), of w st sc t c] by simp
  then have "idx' < int (length (node_recs w (cs ! j)))"
    using s p cs(4) last_child_post[of j cs w] wf_node_sums[OF wj] sum_children(2)[OF cs(1), of j]
    by (auto simp: reaches_def)
  then show ?thesis using s wj sum_children(2)[OF cs(1), of j] cs(4) by simp
qed

lemma descend_ins:
  assumes wf: "wf_node w (Suc h) (InnerN cs st sc t c)"
    and d: "descend exceeds sc vals (length cs) 0 idx u = (j, idx', u')" and p: "0 \<le> idx" "idx \<le> c"
    and v: "length vals = length cs"
  shows "j < length cs \<and> wf_node w h (cs ! j) \<and> idx' = idx - int (length (child_pre w cs j)) \<and>
    u' = u + sum_list (take j vals) \<and> 0 \<le> idx' \<and> idx' \<le> int (length (node_recs w (cs ! j)))"
proof -
  from wf have cs: "\<forall>x \<in> set cs. wf_node w h x" "cs \<noteq> []" "st = map ptotal cs" "sc = map pcount cs" by auto
  have s: "j < length cs" "idx = idx' + sum_list (take j sc)" "u = u' - sum_list (take j vals)"
      "j + 1 = length cs \<or> \<not> exceeds idx' (sc ! j)" "0 \<le> idx'"
    using descend_spec[OF d] cs p v by (auto simp: exceeds_def)
  have wj: "wf_node w h (cs ! j)" using cs s(1) by simp
  have "c = int (length (child_pre w cs j)) + int (length (node_recs w (cs ! j))) + int (length (child_post w cs j))"
    using wf_node_sums[OF wf] inner_split[OF s(1), of w st sc t c] by simp
  then have "idx' \<le> int (length (node_recs w (cs ! j)))"
    using s p cs(4) last_child_post[of j cs w] wf_node_sums[OF wj] sum_children(2)[OF cs(1), of j]
    by (auto simp: exceeds_def)
  then show ?thesis using s wj sum_children(2)[OF cs(1), of j] cs(4) by simp
qed

section \<open>The reference for a position lookup\<close>

fun loc :: "PieceRec list \<Rightarrow> int \<Rightarrow> nat" where
  "loc [] pos = 0"
| "loc (r # rs) pos = (if pos < Length r then 0 else Suc (loc rs (pos - Length r)))"

lemma loc_append_left: "0 \<le> pos \<Longrightarrow> pos < recsLen xs \<Longrightarrow> loc (xs @ ys) pos = loc xs pos"
  by (induction xs arbitrary: pos) auto

lemma loc_append_right:
  "lens_ok xs \<Longrightarrow> recsLen xs \<le> pos \<Longrightarrow> loc (xs @ ys) pos = length xs + loc ys (pos - recsLen xs)"
  by (induction xs arbitrary: pos) (auto dest: recsLen_nonneg simp: algebra_simps)

lemma loc_mid:
  assumes "lens_ok pre" "0 \<le> pos - recsLen pre" "pos - recsLen pre < recsLen xs"
  shows "loc (pre @ xs @ post) pos = length pre + loc xs (pos - recsLen pre)"
  using assms by (simp add: loc_append_right loc_append_left)

lemma loc_less: "0 \<le> pos \<Longrightarrow> pos < recsLen rs \<Longrightarrow> loc rs pos < length rs"
  by (induction rs arbitrary: pos) auto

lemma loc_bounds:
  assumes "0 \<le> pos" "pos < recsLen rs"
  shows "recsLen (take (loc rs pos) rs) \<le> pos \<and> pos < recsLen (take (loc rs pos) rs) + Length (rs ! loc rs pos)"
  using assms
proof (induction rs arbitrary: pos)
  case Nil
  then show ?case by simp
next
  case (Cons r rs)
  show ?case
  proof (cases "pos < Length r")
    case True
    then show ?thesis using Cons.prems by simp
  next
    case False
    then show ?thesis using Cons.IH[of "pos - Length r"] Cons.prems by simp
  qed
qed

section \<open>Queries\<close>

lemma leaf_find_packed:
  assumes "w \<le> 8" "\<forall>r \<in> set rs. rec_fits w r" "j \<le> length rs" "cur \<le> pos" "pos - cur < recsLen (drop j rs)"
  shows "leaf_find w (packed w rs) (length rs) j cur pos = Some (j + loc (drop j rs) (pos - cur))"
  using assms
proof (induction "length rs - j" arbitrary: j cur)
  case 0
  then show ?case
    using loc_less[of "pos - cur" "drop j rs"] by simp
next
  case (Suc n)
  then have j: "j < length rs" by simp
  then have dr: "drop j rs = rs ! j # drop (Suc j) rs" by (simp add: Cons_nth_drop_Suc)
  have l: "recLen w (packed w rs) j = Length (rs ! j)" using Suc.prems j by (simp add: recLen_packed)
  show ?case
  proof (cases "pos < cur + Length (rs ! j)")
    case True
    then show ?thesis using j l dr by (simp add: leaf_find.simps Let_def)
  next
    case False
    have "leaf_find w (packed w rs) (length rs) (Suc j) (cur + Length (rs ! j)) pos =
       Some (Suc j + loc (drop (Suc j) rs) (pos - (cur + Length (rs ! j))))"
      using Suc.prems Suc.hyps(2) j dr False by (intro Suc.hyps(1)) auto
    then show ?thesis
      using j l False dr by (subst leaf_find.simps) (simp add: Let_def algebra_simps)
  qed
qed

lemma find_in_wf:
  assumes "w \<le> 8" "wf_node w h n" "0 \<le> pos" "pos < ptotal n"
  shows "find_in w n pos idx = idx + int (loc (node_recs w n) pos)"
  using assms
proof (induction h arbitrary: n pos idx)
  case 0
  then obtain d t c where n: "n = LeafN d t c" by (cases n) auto
  with 0 obtain rs where rs: "n = mk_leafN w rs" "\<forall>r \<in> set rs. rec_fits w r" "node_recs w n = rs"
    using wf_leafE by metis
  then have "leaf_find w (packed w rs) (length rs) 0 0 pos = Some (loc rs pos)"
    using leaf_find_packed[of w rs 0 0 pos] 0 by (simp add: mk_leafN_def)
  then show ?case using rs by (simp add: mk_leafN_def)
next
  case (Suc h)
  then obtain cs st sc t c where n: "n = InnerN cs st sc t c" by (cases n) auto
  obtain j pos' idx' where d: "descend reaches st sc (length cs) 0 pos idx = (j, pos', idx')"
    using prod_cases3 by blast
  note D = descend_pos[OF Suc.prems(2)[unfolded n] d Suc.prems(3)]
  have "pos < t" using Suc.prems n by simp
  then have "find_in w (cs ! j) pos' idx' = idx' + int (loc (node_recs w (cs ! j)) pos')"
    using D Suc.prems(1) wf_node_sums by (intro Suc.IH) auto
  moreover have "lens_ok (child_pre w cs j)"
    using wf_node_lens_ok[OF Suc.prems(2)] inner_split[of j cs w st sc t c] D n by simp
  moreover have "loc (node_recs w n) pos = length (child_pre w cs j) + loc (node_recs w (cs ! j)) pos'"
    unfolding n inner_split[OF conjunct1[OF D]]
    using D \<open>pos < t\<close> \<open>lens_ok (child_pre w cs j)\<close> by (subst loc_mid) auto
  ultimately show ?case using D d by (simp add: n)
qed

lemma get_in_wf:
  assumes "w \<le> 8" "wf_node w h n" "0 \<le> idx" "idx < pcount n"
  shows "get_in w n idx = node_recs w n ! nat idx"
  using assms
proof (induction h arbitrary: n idx)
  case 0
  then obtain d t c where n: "n = LeafN d t c" by (cases n) auto
  then show ?case using 0 by (simp add: leaf_recs_def nat_less_eq_zless)
next
  case (Suc h)
  then obtain cs st sc t c where n: "n = InnerN cs st sc t c" by (cases n) auto
  obtain j idx' u' where d: "descend reaches sc sc (length cs) 0 idx 0 = (j, idx', u')"
    using prod_cases3 by blast
  have "idx < c" using Suc.prems n by simp
  note D = descend_cnt[OF Suc.prems(2)[unfolded n] d Suc.prems(3) this]
  then have "get_in w (cs ! j) idx' = node_recs w (cs ! j) ! nat idx'"
    using Suc.prems(1) wf_node_sums by (intro Suc.IH) auto
  moreover have "nat idx = length (child_pre w cs j) + nat idx'" "nat idx' < length (node_recs w (cs ! j))"
    using D Suc.prems(3) by linarith+
  ultimately show ?case
    unfolding n inner_split[OF conjunct1[OF D]] using D d by (simp add: nth_append)
qed

lemma sum_recLen_packed:
  assumes "w \<le> 8" "\<forall>r \<in> set rs. rec_fits w r" "k \<le> length rs"
  shows "(\<Sum>j\<leftarrow>[0..<k]. recLen w (packed w rs) j) = recsLen (take k rs)"
  using assms(3)
proof (induction k)
  case 0
  then show ?case by simp
next
  case (Suc k)
  then show ?case using assms recLen_packed[of w k rs]
    by (simp add: take_Suc_conv_app_nth)
qed

lemma prefix_in_wf:
  assumes "w \<le> 8" "wf_node w h n" "0 \<le> idx" "idx \<le> pcount n"
  shows "prefix_in w n idx s = s + recsLen (take (nat idx) (node_recs w n))"
  using assms
proof (induction h arbitrary: n idx s)
  case 0
  then obtain d t c where n: "n = LeafN d t c" by (cases n) auto
  with 0 obtain rs where rs: "n = mk_leafN w rs" "\<forall>r \<in> set rs. rec_fits w r" "node_recs w n = rs"
    using wf_leafE by metis
  have "min (nat idx) (length rs) = nat idx" using 0 rs by (simp add: mk_leafN_def)
  then show ?case
    using rs 0 sum_recLen_packed[of w rs "nat idx"] by (simp add: mk_leafN_def)
next
  case (Suc h)
  then obtain cs st sc t c where n: "n = InnerN cs st sc t c" by (cases n) auto
  obtain j idx' s' where d: "descend exceeds sc st (length cs) 0 idx s = (j, idx', s')"
    using prod_cases3 by blast
  have st: "length st = length cs" "\<forall>x \<in> set cs. wf_node w h x" "st = map ptotal cs"
    using Suc.prems n by auto
  have "idx \<le> c" using Suc.prems n by simp
  note D = descend_ins[OF Suc.prems(2)[unfolded n] d Suc.prems(3) this st(1)]
  then have IH: "prefix_in w (cs ! j) idx' s' = s' + recsLen (take (nat idx') (node_recs w (cs ! j)))"
    using Suc.prems(1) wf_node_sums by (intro Suc.IH) auto
  have "nat idx = length (child_pre w cs j) + nat idx'" "nat idx' \<le> length (node_recs w (cs ! j))"
    using D Suc.prems(3) by linarith+
  then have "take (nat idx) (node_recs w n) = child_pre w cs j @ take (nat idx') (node_recs w (cs ! j))"
    unfolding n inner_split[OF conjunct1[OF D]] by simp
  moreover have "s' = s + recsLen (child_pre w cs j)"
    using D sum_children(1)[OF st(2), of j] st(3) by simp
  ultimately show ?case using D d IH by (simp add: n)
qed

lemma leaf_at_packed:
  assumes "w \<le> 8" "\<forall>r \<in> set rs. rec_fits w r" "j \<le> length rs" "cur \<le> pos" "pos - cur < recsLen (drop j rs)"
  shows "leaf_at w (packed w rs) (length rs) j cur pos =
    (let k = j + loc (drop j rs) (pos - cur)
     in (Buf (rs ! k), Start (rs ! k) + (pos - cur - recsLen (take (k - j) (drop j rs)))))"
  using assms
proof (induction "length rs - j" arbitrary: j cur)
  case 0
  then show ?case by simp
next
  case (Suc n)
  then have j: "j < length rs" by simp
  then have dr: "drop j rs = rs ! j # drop (Suc j) rs" by (simp add: Cons_nth_drop_Suc)
  have l: "recAt w (packed w rs) j = (Buf (rs ! j), Start (rs ! j), Length (rs ! j))"
    using Suc.prems j by (simp add: recAt_packed)
  show ?case
  proof (cases "pos < cur + Length (rs ! j)")
    case True
    then show ?thesis using j l dr by (simp add: leaf_at.simps Let_def)
  next
    case False
    have "leaf_at w (packed w rs) (length rs) (Suc j) (cur + Length (rs ! j)) pos =
      (let k = Suc j + loc (drop (Suc j) rs) (pos - (cur + Length (rs ! j)))
       in (Buf (rs ! k), Start (rs ! k) + (pos - (cur + Length (rs ! j)) - recsLen (take (k - Suc j) (drop (Suc j) rs)))))"
      using Suc.prems Suc.hyps(2) j dr False by (intro Suc.hyps(1)) auto
    then show ?thesis
      using j l False dr by (subst leaf_at.simps) (simp add: Let_def algebra_simps)
  qed
qed

lemma at_in_wf:
  assumes "w \<le> 8" "wf_node w h n" "0 \<le> pos" "pos < ptotal n"
  shows "at_in w n pos =
    (let rs = node_recs w n; k = loc rs pos in (Buf (rs ! k), Start (rs ! k) + (pos - recsLen (take k rs))))"
  using assms
proof (induction h arbitrary: n pos)
  case 0
  then obtain d t c where n: "n = LeafN d t c" by (cases n) auto
  with 0 obtain rs where rs: "n = mk_leafN w rs" "\<forall>r \<in> set rs. rec_fits w r" "node_recs w n = rs"
    using wf_leafE by metis
  then show ?case using 0 leaf_at_packed[of w rs 0 0 pos] by (simp add: mk_leafN_def)
next
  case (Suc h)
  then obtain cs st sc t c where n: "n = InnerN cs st sc t c" by (cases n) auto
  obtain j pos' u' where d: "descend reaches st sc (length cs) 0 pos 0 = (j, pos', u')"
    using prod_cases3 by blast
  note D = descend_pos[OF Suc.prems(2)[unfolded n] d Suc.prems(3)]
  have lt: "pos < t" using Suc.prems n by simp
  then have IH: "at_in w (cs ! j) pos' =
    (let rs = node_recs w (cs ! j); k = loc rs pos' in (Buf (rs ! k), Start (rs ! k) + (pos' - recsLen (take k rs))))"
    using D Suc.prems(1) wf_node_sums by (intro Suc.IH) auto
  have lp: "lens_ok (child_pre w cs j)"
    using wf_node_lens_ok[OF Suc.prems(2)] inner_split[of j cs w st sc t c] D n by simp
  let ?rs = "node_recs w (cs ! j)" and ?pre = "child_pre w cs j"
  have k: "loc (node_recs w n) pos = length ?pre + loc ?rs pos'"
    unfolding n inner_split[OF conjunct1[OF D]] using D lt lp by (subst loc_mid) auto
  have kl: "loc ?rs pos' < length ?rs" using D lt by (intro loc_less) auto
  have "node_recs w n ! (length ?pre + loc ?rs pos') = ?rs ! loc ?rs pos'"
    "take (length ?pre + loc ?rs pos') (node_recs w n) = ?pre @ take (loc ?rs pos') ?rs"
    unfolding n inner_split[OF conjunct1[OF D]] using kl by (simp_all add: nth_append)
  then show ?case using D d IH k by (simp add: n Let_def)
qed

end
