(* ===== verification/TreeOps.thy ===== *)
theory TreeOps
  imports TreeInv
begin

text \<open>
  What the structural edits of \<open>internal/piecetable/leafpieces.go\<close> do to the records of a
  well-formed tree, and that each of them restores the tree invariant: length edits, insertion
  with splits, deletion with borrowing and merging, bulk loading, and the visit order of \<open>Each\<close>.
\<close>

section \<open>Internal nodes by their children\<close>

lemma wf_mk_inner [simp]:
  "wf_node w h (mk_inner cs) \<longleftrightarrow> 0 < h \<and> cs \<noteq> [] \<and> (\<forall>x \<in> set cs. wf_node w (h - 1) x)"
  by (simp add: mk_inner_def)

lemma node_recs_mk_inner [simp]: "node_recs w (mk_inner cs) = concat (map (node_recs w) cs)"
  by (simp add: mk_inner_def)

lemma wf_innerE:
  assumes "wf_node w h (InnerN cs st sc t c)"
  shows "InnerN cs st sc t c = mk_inner cs"
  using assms by (simp add: mk_inner_def)

lemma nodeSize_mk [simp]: "nodeSize (mk_inner cs) = length cs" "nodeSize (mk_leafN w rs) = length rs"
  "is_leaf (mk_inner cs) = False" "is_leaf (mk_leafN w rs) = True"
  by (simp_all add: mk_inner_def mk_leafN_def)

definition kids_ok :: "pnode \<Rightarrow> bool" where
  "kids_ok n = (case n of LeafN d t c \<Rightarrow> True | InnerN cs st sc t c \<Rightarrow> \<forall>x \<in> set cs. sized minE x)"

lemma kids_ok_mk [simp]: "kids_ok (mk_inner cs) \<longleftrightarrow> (\<forall>x \<in> set cs. sized minE x)" "kids_ok (mk_leafN w rs)"
  by (simp_all add: kids_ok_def mk_inner_def mk_leafN_def)

lemma sized_iff:
  "wf_node w h n \<Longrightarrow> sized lo n \<longleftrightarrow> lo \<le> nodeSize n \<and> nodeSize n \<le> maxE \<and> kids_ok n"
  by (cases n) (auto simp: kids_ok_def)

text \<open>A well-formed node is a packed leaf or an internal node with exact sums.\<close>

lemma wf_cases:
  assumes "wf_node w h n"
  obtains (leaf) rs where "h = 0" "n = mk_leafN w rs" "\<forall>r \<in> set rs. rec_fits w r" "node_recs w n = rs"
  | (inner) k cs where "h = Suc k" "n = mk_inner cs" "cs \<noteq> []" "\<forall>x \<in> set cs. wf_node w k x"
      "node_recs w n = concat (map (node_recs w) cs)"
proof (cases n)
  case (LeafN d t c)
  then show ?thesis using assms wf_leafE[of w h d t c] leaf by metis
next
  case (InnerN cs st sc t c)
  then have eq: "n = mk_inner cs" using assms wf_innerE by metis
  with assms have "0 < h" "cs \<noteq> []" "\<forall>x \<in> set cs. wf_node w (h - 1) x" by auto
  then show ?thesis using inner[of "h - 1" cs] eq by simp
qed

lemma sum_list_map_update:
  "i < length xs \<Longrightarrow> (\<Sum>x\<leftarrow>xs[i := v]. (f x :: int)) = (\<Sum>x\<leftarrow>xs. f x) - f (xs ! i) + f v"
  by (simp add: map_update sum_list_update_int)

lemma mk_inner_update:
  assumes "i < length cs" "t = (\<Sum>x\<leftarrow>cs. ptotal x) - ptotal (cs ! i) + ptotal x"
    "c = (\<Sum>x\<leftarrow>cs. pcount x) - pcount (cs ! i) + pcount x"
  shows "InnerN (cs[i := x]) ((map ptotal cs)[i := ptotal x]) ((map pcount cs)[i := pcount x]) t c = mk_inner (cs[i := x])"
  using assms by (simp add: mk_inner_def map_update sum_list_update_int)

lemma wf_update: "\<forall>x \<in> set cs. wf_node w h x \<Longrightarrow> wf_node w h y \<Longrightarrow> \<forall>x \<in> set (cs[i := y]). wf_node w h x"
  by (auto dest!: set_update_subset_insert[THEN subsetD])

lemma sized_update: "\<forall>x \<in> set cs. sized m x \<Longrightarrow> sized m y \<Longrightarrow> \<forall>x \<in> set (cs[i := y]). sized m x"
  by (auto dest!: set_update_subset_insert[THEN subsetD])

lemma node_recs_update:
  "j < length cs \<Longrightarrow> concat (map (node_recs w) (cs[j := x])) = child_pre w cs j @ node_recs w x @ child_post w cs j"
  by (rule concat_map_update)

section \<open>Editing the length of one record\<close>

lemma at_slice_field:
  "length pre = k \<Longrightarrow> at_slice k (\<lambda>s. putUintW s w v) (pre @ le_bytes w u @ post) = pre @ le_bytes w (word_of_int v) @ post"
  by (simp add: at_slice_def putUintW_eq)

lemma packed_set_length:
  assumes "j < length rs"
  shows "at_slice (j * rec_size w + 1 + w) (\<lambda>s. putUintW s w v) (packed w rs) = packed w (rs[j := (rs ! j)\<lparr>Length := v\<rparr>])"
proof -
  let ?r = "rs ! j"
  let ?pre = "packed w (take j rs) @ word_of_int (Buf ?r) # le_bytes w (word_of_int (Start ?r))"
  have len: "length ?pre = j * rec_size w + 1 + w" using assms by simp
  have "packed w rs = packed w (take j rs) @ enc w ?r @ packed w (drop (Suc j) rs)"
    using assms by (subst id_take_nth_drop[of j rs]) (simp_all del: append_take_drop_id)
  then have "packed w rs = ?pre @ le_bytes w (word_of_int (Length ?r)) @ packed w (drop (Suc j) rs)"
    by (simp add: enc_def)
  moreover have "packed w (rs[j := ?r\<lparr>Length := v\<rparr>]) =
      ?pre @ le_bytes w (word_of_int v) @ packed w (drop (Suc j) rs)"
    using assms by (simp add: upd_conv_take_nth_drop enc_def)
  ultimately show ?thesis using at_slice_field[OF len] by metis
qed

lemma recsLen_update:
  "i < length rs \<Longrightarrow> recsLen (rs[i := x]) = recsLen rs - Length (rs ! i) + Length x"
  by (simp add: recsLen_def sum_list_map_update)

lemma list_update_mid:
  "i = length pre + k \<Longrightarrow> k < length xs \<Longrightarrow> (pre @ xs @ post)[i := v] = pre @ xs[k := v] @ post"
  by (simp add: list_update_append)

lemma addLen_in_wf:
  assumes "w \<le> 8" "wf_node w h n" "0 \<le> idx" "idx < pcount n"
    and "field_ok w (Length (node_recs w n ! nat idx) + delta)"
  shows "wf_node w h (addLen_in w n idx delta) \<and>
    node_recs w (addLen_in w n idx delta) =
      (node_recs w n)[nat idx := (node_recs w n ! nat idx)\<lparr>Length := Length (node_recs w n ! nat idx) + delta\<rparr>] \<and>
    (\<forall>lo. sized lo n \<longrightarrow> sized lo (addLen_in w n idx delta)) \<and> is_leaf (addLen_in w n idx delta) = is_leaf n"
  using assms
proof (induction h arbitrary: n idx)
  case 0
  from 0(2) obtain rs where rs: "n = mk_leafN w rs" "\<forall>r \<in> set rs. rec_fits w r" "node_recs w n = rs"
    by (cases rule: wf_cases) auto
  let ?j = "nat idx" let ?r = "rs ! ?j"
  let ?rs = "rs[?j := ?r\<lparr>Length := Length ?r + delta\<rparr>]"
  have j: "?j < length rs" using 0 rs by (simp add: mk_leafN_def nat_less_iff)
  have cur: "getUintW (drop (?j * rec_size w + 1 + w) (packed w rs)) w = Length ?r"
    using recLen_packed[of w ?j rs] 0(1) j rs(2) by (simp add: recLen_def)
  have eq: "addLen_in w n idx delta = mk_leafN w ?rs"
    unfolding rs(1) mk_leafN_def addLen_in.simps Let_def cur packed_set_length[OF j]
    using j by (simp add: recsLen_update)
  have "\<forall>r \<in> set ?rs. rec_fits w r"
  proof
    fix r assume "r \<in> set ?rs"
    then have "r \<in> set rs \<or> r = ?r\<lparr>Length := Length ?r + delta\<rparr>" by (meson set_update_subset_insert insertE subsetD)
    moreover have "rec_fits w ?r" using rs(2) j by simp
    ultimately show "rec_fits w r" using rs(2) 0(5) rs(3) by (auto simp: rec_fits_def)
  qed
  then show ?case using wf_mk_leafN[OF 0(1), of ?rs] rs eq by (auto simp: mk_leafN_def)
next
  case (Suc h)
  then obtain cs st sc t c where n: "n = InnerN cs st sc t c" by (cases n) auto
  have wfn: "wf_node w (Suc h) (InnerN cs st sc t c)" using Suc.prems n by simp
  have st: "st = map ptotal cs" "sc = map pcount cs" "t = (\<Sum>x\<leftarrow>cs. ptotal x)" "c = (\<Sum>x\<leftarrow>cs. pcount x)"
    and all: "\<forall>x \<in> set cs. wf_node w h x" "cs \<noteq> []"
    using wfn by auto
  obtain j idx' u' where d: "descend reaches sc sc (length cs) 0 idx 0 = (j, idx', u')"
    using prod_cases3 by blast
  have lt: "idx < c" using Suc.prems n by simp
  note D = descend_cnt[OF wfn d Suc.prems(3) lt]
  let ?x = "cs ! j" and ?pre = "child_pre w cs j" and ?post = "child_post w cs j"
  have j: "j < length cs" using D by simp
  have ni: "nat idx = length ?pre + nat idx'" "nat idx' < length (node_recs w ?x)" using D Suc.prems(3) by linarith+
  have recs: "node_recs w n = ?pre @ node_recs w ?x @ ?post" using inner_split[OF j] n by simp
  have nth: "node_recs w n ! nat idx = node_recs w ?x ! nat idx'" using recs ni by (simp add: nth_append)
  have IH: "wf_node w h (addLen_in w ?x idx' delta)"
    "node_recs w (addLen_in w ?x idx' delta) =
      (node_recs w ?x)[nat idx' := (node_recs w ?x ! nat idx')\<lparr>Length := Length (node_recs w ?x ! nat idx') + delta\<rparr>]"
    "\<And>lo. sized lo ?x \<Longrightarrow> sized lo (addLen_in w ?x idx' delta)"
    using Suc.IH[of ?x idx'] D Suc.prems(1,5) nth wf_node_sums[of w h ?x] by auto
  let ?y = "addLen_in w ?x idx' delta"
  have pt: "ptotal ?y = ptotal ?x + delta" "pcount ?y = pcount ?x"
    using wf_node_sums[OF IH(1)] wf_node_sums[of w h ?x] D IH(2) ni by (auto simp: recsLen_update)
  have "(map pcount cs)[j := pcount ?y] = map pcount cs" using j pt(2) by (metis list_update_id nth_map)
  then have eq: "addLen_in w n idx delta = mk_inner (cs[j := ?y])"
    using d j pt mk_inner_update[OF j, of "t + delta" ?y c] st n by (auto simp: Let_def add.commute)
  have "node_recs w (mk_inner (cs[j := ?y])) = ?pre @ node_recs w ?y @ ?post"
    using node_recs_update[OF j] by simp
  also have "\<dots> = (node_recs w n)[nat idx := (node_recs w n ! nat idx)\<lparr>Length := Length (node_recs w n ! nat idx) + delta\<rparr>]"
    unfolding nth unfolding recs using IH(2) ni by (simp add: list_update_mid)
  finally have r: "node_recs w (addLen_in w n idx delta) = \<dots>" using eq by simp
  have "sized lo n \<longrightarrow> sized lo (mk_inner (cs[j := ?y]))" for lo
    using IH(3)[of minE] j sized_update[of cs minE ?y j] n by (auto simp: mk_inner_def)
  then show ?case
    using eq r IH(1) all wf_update[OF all(1) IH(1)] n by simp
qed

section \<open>Insertion\<close>

lemma sumLeaf_packed:
  assumes "w \<le> 8" "\<forall>r \<in> set rs. rec_fits w r"
  shows "sumLeaf w (packed w rs) = recsLen rs"
  using sum_recLen_packed[OF assms order_refl] by (simp add: sumLeaf_def)

lemma splitLeaf_mk:
  assumes "w \<le> 8" "\<forall>r \<in> set rs. rec_fits w r" "mid = length rs div 2"
  shows "splitLeaf w (mk_leafN w rs) = (mk_leafN w (take mid rs), mk_leafN w (drop mid rs))"
proof -
  have f: "\<forall>r \<in> set (take mid rs). rec_fits w r" "\<forall>r \<in> set (drop mid rs). rec_fits w r"
    using assms(2) by (auto dest: in_set_takeD in_set_dropD)
  have "length (packed w (drop mid rs)) div rec_size w = length rs - mid"
    by simp
  moreover have "mid \<le> length rs" using assms(3) by simp
  ultimately show ?thesis
    using sumLeaf_packed[OF assms(1) f(1)] sumLeaf_packed[OF assms(1) f(2)] assms(3)
    by (simp add: mk_leafN_def Let_def take_packed drop_packed)
qed

lemma splitInternal_mk:
  "splitInternal (mk_inner cs) = (mk_inner (take (length cs div 2) cs), mk_inner (drop (length cs div 2) cs))"
  by (simp add: mk_inner_def Let_def sumInts_def take_map drop_map)

lemma sized_mk_inner [simp]:
  "sized lo (mk_inner cs) \<longleftrightarrow> lo \<le> length cs \<and> length cs \<le> maxE \<and> (\<forall>x \<in> set cs. sized minE x)"
  by (simp add: mk_inner_def)

lemma sized_mk_leafN [simp]: "sized lo (mk_leafN w rs) \<longleftrightarrow> lo \<le> length rs \<and> length rs \<le> maxE"
  by (simp add: mk_leafN_def)

definition ins_ok :: "nat \<Rightarrow> nat \<Rightarrow> nat \<Rightarrow> PieceRec list \<Rightarrow> pnode \<times> pnode option \<Rightarrow> bool" where
  "ins_ok w h lo rs res \<longleftrightarrow> wf_node w h (fst res) \<and>
     (case snd res of
        None \<Rightarrow> sized lo (fst res) \<and> node_recs w (fst res) = rs
      | Some rt \<Rightarrow> wf_node w h rt \<and> sized minE (fst res) \<and> sized minE rt \<and> node_recs w (fst res) @ node_recs w rt = rs)"

lemma split_leaf_ok:
  assumes "w \<le> 8" "\<forall>r \<in> set rs. rec_fits w r" "length rs = Suc maxE"
  shows "ins_ok w 0 lo rs (case splitLeaf w (mk_leafN w rs) of (l, rt) \<Rightarrow> (l, Some rt))"
proof -
  have f: "\<forall>r \<in> set (take 16 rs). rec_fits w r" "\<forall>r \<in> set (drop 16 rs). rec_fits w r"
    using assms(2) by (auto dest: in_set_takeD in_set_dropD)
  show ?thesis
    using assms(3) wf_mk_leafN[OF assms(1) f(1)] wf_mk_leafN[OF assms(1) f(2)]
      splitLeaf_mk[OF assms(1,2) refl]
    by (simp add: ins_ok_def maxE_def minE_def)
qed

lemma split_inner_ok:
  assumes "\<forall>x \<in> set cs. wf_node w h x" "\<forall>x \<in> set cs. sized minE x" "length cs = Suc maxE"
  shows "ins_ok w (Suc h) lo (concat (map (node_recs w) cs)) (case splitInternal (mk_inner cs) of (l, rt) \<Rightarrow> (l, Some rt))"
proof -
  have "concat (map (node_recs w) (take 16 cs)) @ concat (map (node_recs w) (drop 16 cs)) = concat (map (node_recs w) cs)"
    by (metis append_take_drop_id concat_append map_append)
  moreover have "length cs div 2 = 16" "take 16 cs \<noteq> []" "drop 16 cs \<noteq> []"
    using assms(3) by (auto simp: maxE_def)
  ultimately show ?thesis
    using assms by (auto simp: ins_ok_def splitInternal_mk maxE_def minE_def dest: in_set_takeD in_set_dropD)
qed

lemma insertAt_leaf:
  assumes "w \<le> 8" "\<forall>r \<in> set rs. rec_fits w r" "rec_fits w r" "0 \<le> idx" "nat idx \<le> length rs" "lo \<le> length rs" "length rs \<le> maxE"
  shows "ins_ok w 0 lo (take (nat idx) rs @ r # drop (nat idx) rs) (insertAt w (mk_leafN w rs) idx r)"
proof -
  let ?rs = "take (nat idx) rs @ r # drop (nat idx) rs"
  have f: "\<forall>r \<in> set ?rs. rec_fits w r"
    using assms(2,3) by (auto dest: in_set_takeD in_set_dropD)
  have len: "length ?rs = Suc (length rs)" using assms(5) by simp
  have data: "writeRec w (open_slot (rec_size w) (nat idx * rec_size w) (packed w rs)) (nat idx * rec_size w) r = packed w ?rs"
    using insert_packed[OF assms(5), of w "Buf r" "Start r" "Length r"] by (simp add: writeRec_def)
  have rl: "recsLen ?rs = recsLen rs + Length r"
    using recsLen_simps(3)[of "take (nat idx) rs" "drop (nat idx) rs"] by simp
  have n: "LeafN (packed w ?rs) (recsLen rs + Length r) (int (length rs) + 1) = mk_leafN w ?rs"
    using len rl by (simp add: mk_leafN_def)
  have eq: "insertAt w (mk_leafN w rs) idx r =
      (if int maxE < int (length rs) + 1 then (case splitLeaf w (mk_leafN w ?rs) of (l, rt) \<Rightarrow> (l, Some rt))
       else (mk_leafN w ?rs, None))"
    unfolding mk_leafN_def[of w rs] insertAt.simps Let_def data n by (rule refl)
  have lt: "int maxE < int (length rs) + 1 \<longleftrightarrow> maxE < length ?rs" using len by linarith
  show ?thesis
  proof (cases "maxE < length ?rs")
    case True
    then have "length ?rs = Suc maxE" using len assms(7) by simp
    then show ?thesis
      unfolding eq lt using True split_leaf_ok[OF assms(1) f] by simp
  next
    case False
    have ins: "insertAt w (mk_leafN w rs) idx r = (mk_leafN w ?rs, None)"
      using False unfolding eq lt by simp
    show ?thesis
      unfolding ins ins_ok_def using wf_mk_leafN[OF assms(1) f] False len assms(6) by simp
  qed
qed

lemma sum_list_insert_at:
  "(\<Sum>y\<leftarrow>take k ys @ z # drop k ys. f y) = (\<Sum>y\<leftarrow>ys. f y) + (f z :: int)"
proof -
  have "(\<Sum>y\<leftarrow>ys. f y) = (\<Sum>y\<leftarrow>take k ys. f y) + (\<Sum>y\<leftarrow>drop k ys. f y)"
    by (metis append_take_drop_id map_append sum_list_append)
  then show ?thesis by simp
qed

lemma set_insert_at: "set (take k xs @ x # drop k xs) = insert x (set xs)"
  by (metis append_take_drop_id Un_insert_right list.simps(15) set_append)

lemma length_insert_at: "k \<le> length xs \<Longrightarrow> length (take k xs @ x # drop k xs) = Suc (length xs)"
  by simp

lemma mk_inner_insert:
  assumes "j < length ds" "t = (\<Sum>x\<leftarrow>ds. ptotal x) + ptotal rt" "c = (\<Sum>x\<leftarrow>ds. pcount x) + pcount rt"
  shows "InnerN (insertPnode ds (j + 1) rt) (insertInt (map ptotal ds) (j + 1) (ptotal rt))
     (insertInt (map pcount ds) (j + 1) (pcount rt)) t c = mk_inner (take (j + 1) ds @ rt # drop (j + 1) ds)"
  using assms unfolding mk_inner_def sum_list_insert_at
  by (simp add: insertPnode_def insertInt_def list_edit take_map drop_map)

lemma insertAt_wf:
  assumes "w \<le> 8" "wf_node w h n" "sized lo n" "rec_fits w r" "0 \<le> idx" "idx \<le> pcount n"
  shows "ins_ok w h lo (take (nat idx) (node_recs w n) @ r # drop (nat idx) (node_recs w n)) (insertAt w n idx r)"
  using assms
proof (induction h arbitrary: n idx lo)
  case 0
  from 0(2) obtain rs where rs: "n = mk_leafN w rs" "\<forall>r \<in> set rs. rec_fits w r" "node_recs w n = rs"
    by (cases rule: wf_cases) auto
  then show ?case
    using insertAt_leaf[OF 0(1) rs(2) 0(4) 0(5), of lo] 0 by (auto simp: mk_leafN_def nat_le_iff)
next
  case (Suc h)
  then obtain cs st sc t c where n: "n = InnerN cs st sc t c" by (cases n) auto
  have wfn: "wf_node w (Suc h) (InnerN cs st sc t c)" using Suc.prems n by simp
  have st: "st = map ptotal cs" "sc = map pcount cs" "t = (\<Sum>x\<leftarrow>cs. ptotal x)" "c = (\<Sum>x\<leftarrow>cs. pcount x)"
    and all: "\<forall>x \<in> set cs. wf_node w h x" "cs \<noteq> []"
    using wfn by auto
  have sz: "\<forall>x \<in> set cs. sized minE x" "lo \<le> length cs" "length cs \<le> maxE" using Suc.prems(3) n by auto
  obtain j idx' u' where d: "descend exceeds sc sc (length cs) 0 idx 0 = (j, idx', u')"
    using prod_cases3 by blast
  have le: "idx \<le> c" using Suc.prems n by simp
  note D = descend_ins[OF wfn d Suc.prems(5) le, unfolded st(2) length_map, OF refl]
  let ?x = "cs ! j" and ?pre = "child_pre w cs j" and ?post = "child_post w cs j"
  have j: "j < length cs" using D by simp
  have ni: "nat idx = length ?pre + nat idx'" "nat idx' \<le> length (node_recs w ?x)" using D Suc.prems(5) by linarith+
  have recs: "node_recs w n = ?pre @ node_recs w ?x @ ?post" using inner_split[OF j] n by simp
  obtain y right where y: "insertAt w ?x idx' r = (y, right)" by fastforce
  let ?xs = "take (nat idx') (node_recs w ?x) @ r # drop (nat idx') (node_recs w ?x)"
  have IH: "ins_ok w h minE ?xs (y, right)"
    using Suc.IH[of ?x minE idx'] D Suc.prems(1,4) wf_node_sums[of w h ?x] sz(1) y by auto
  have goal_recs: "take (nat idx) (node_recs w n) @ r # drop (nat idx) (node_recs w n) = ?pre @ ?xs @ ?post"
    unfolding recs using ni by simp
  have wy: "wf_node w h y" using IH by (simp add: ins_ok_def)
  have xl: "recsLen ?xs = recsLen (node_recs w ?x) + Length r"
    using recsLen_simps(3)[of "take (nat idx') (node_recs w ?x)" "drop (nat idx') (node_recs w ?x)"] by simp
  have xc: "length ?xs = Suc (length (node_recs w ?x))" using ni(2) by simp
  have wx: "ptotal ?x = recsLen (node_recs w ?x)" "pcount ?x = int (length (node_recs w ?x))"
    using wf_node_sums[of w h ?x] D by auto
  show ?case
  proof (cases right)
    case None
    then have Y: "sized minE y" "node_recs w y = ?xs" using IH by (auto simp: ins_ok_def)
    have "ptotal y = ptotal ?x + Length r" "pcount y = pcount ?x + 1"
      using wf_node_sums[OF wy] Y(2) xl xc wx by auto
    then have "InnerN (cs[j := y]) (st[j := ptotal y]) (sc[j := pcount y]) (t + Length r) (c + 1) = mk_inner (cs[j := y])"
      using mk_inner_update[OF j, of "t + Length r" y "c + 1"] st by simp
    then have ins: "insertAt w n idx r = (mk_inner (cs[j := y]), None)"
      using d j y None by (simp add: n Let_def)
    show ?thesis
      unfolding ins ins_ok_def goal_recs
      using wf_update[OF all(1) wy] sized_update[OF sz(1) Y(1)] sz all Y(2) node_recs_update[OF j] by simp
  next
    case (Some rt)
    then have Y: "wf_node w h rt" "sized minE y" "sized minE rt" "node_recs w y @ node_recs w rt = ?xs"
      using IH by (auto simp: ins_ok_def)
    let ?ds = "cs[j := y]"
    let ?cs = "take (j + 1) ?ds @ rt # drop (j + 1) ?ds"
    have "ptotal y + ptotal rt = ptotal ?x + Length r" "pcount y + pcount rt = pcount ?x + 1"
      using wf_node_sums[OF wy] wf_node_sums[OF Y(1)] xl xc wx Y(4)
      by (metis recsLen_simps(3), metis add.commute length_append of_nat_Suc of_nat_add)
    then have N: "InnerN (insertPnode (cs[j := y]) (j + 1) rt) (insertInt (st[j := ptotal y]) (j + 1) (ptotal rt))
        (insertInt (sc[j := pcount y]) (j + 1) (pcount rt)) (t + Length r) (c + 1) = mk_inner ?cs"
      using mk_inner_insert[of j ?ds "t + Length r" rt "c + 1"] st j
      by (simp add: map_update sum_list_update_int algebra_simps)
    have len: "length ?cs = Suc (length cs)" using j by simp
    have all': "\<forall>x \<in> set ?cs. wf_node w h x"
      unfolding set_insert_at using wf_update[OF all(1) wy, of j] Y(1) by blast
    have sz': "\<forall>x \<in> set ?cs. sized minE x"
      unfolding set_insert_at using sized_update[OF sz(1) Y(2), of j] Y(3) by blast
    have tk: "take (j + 1) ?ds = take j cs @ [y]" using j by (simp add: take_Suc_conv_app_nth)
    have dr: "drop (j + 1) ?ds = drop (Suc j) cs" by simp
    have "concat (map (node_recs w) ?cs) = ?pre @ (node_recs w y @ node_recs w rt) @ ?post"
      unfolding tk dr by simp
    then have recs': "concat (map (node_recs w) ?cs) = ?pre @ ?xs @ ?post"
      unfolding Y(4) by simp
    have eq: "insertAt w n idx r =
        (if maxE < length cs + 1 then (case splitInternal (mk_inner ?cs) of (l, rn) \<Rightarrow> (l, Some rn))
         else (mk_inner ?cs, None))"
      unfolding n insertAt.simps d Let_def prod.case y Some option.case N using j by simp
    show ?thesis
    proof (cases "maxE < length cs + 1")
      case True
      have ins: "insertAt w n idx r = (case splitInternal (mk_inner ?cs) of (l, rn) \<Rightarrow> (l, Some rn))"
        using True eq by simp
      have "length ?cs = Suc maxE" using True len sz(3) by simp
      then show ?thesis
        unfolding ins goal_recs recs'[symmetric] by (rule split_inner_ok[OF all' sz'])
    next
      case False
      have ins: "insertAt w n idx r = (mk_inner ?cs, None)"
        using False eq by simp
      show ?thesis
        unfolding ins ins_ok_def goal_recs using len all' sz' recs' False sz(2) by simp
    qed
  qed
qed

lemma InsertPiece_inv:
  assumes "tree_inv t" "rec_fits (tw t) r" "0 \<le> idx" "idx \<le> tree_Count t"
  shows "tree_inv (InsertPiece t idx r)"
    and "tree_recs (InsertPiece t idx r) = take (nat idx) (tree_recs t) @ r # drop (nat idx) (tree_recs t)"
    and "tw (InsertPiece t idx r) = tw t"
proof -
  let ?w = "tw t" and ?h = "height (root t)"
  obtain old right where i: "insertAt ?w (root t) idx r = (old, right)" by fastforce
  have ok: "ins_ok ?w ?h (root_lo (root t)) (take (nat idx) (tree_recs t) @ r # drop (nat idx) (tree_recs t)) (old, right)"
    using insertAt_wf[of ?w ?h "root t" "root_lo (root t)" r idx] assms i
    by (simp add: tree_inv_def tree_recs_def tree_Count_def)
  have "tree_inv (InsertPiece t idx r) \<and>
    tree_recs (InsertPiece t idx r) = take (nat idx) (tree_recs t) @ r # drop (nat idx) (tree_recs t)"
  proof (cases right)
    case None
    have "is_leaf old = is_leaf (root t)"
      using ok None wf_height[of ?w ?h old] assms(1)
      by (cases old; cases "root t") (auto simp: ins_ok_def tree_inv_def)
    then show ?thesis
      using ok None i assms(1) wf_height[of ?w ?h old]
      by (auto simp: InsertPiece_def ins_ok_def tree_inv_def tree_recs_def root_lo_def)
  next
    case (Some rt)
    have "InnerN [old, rt] [ptotal old, ptotal rt] [pcount old, pcount rt]
        (ptotal old + ptotal rt) (pcount old + pcount rt) = mk_inner [old, rt]"
      by (simp add: mk_inner_def)
    then have e: "InsertPiece t idx r = t\<lparr>root := mk_inner [old, rt]\<rparr>"
      using i Some by (simp add: InsertPiece_def)
    have "wf_node ?w (Suc ?h) (mk_inner [old, rt])" using ok Some by (simp add: ins_ok_def)
    moreover have "height (mk_inner [old, rt]) = Suc ?h" using calculation by (rule wf_height)
    ultimately show ?thesis
      using ok Some assms(1) e
      by (auto simp: ins_ok_def tree_inv_def tree_recs_def root_lo_def maxE_def)
  qed
  then show "tree_inv (InsertPiece t idx r)"
    "tree_recs (InsertPiece t idx r) = take (nat idx) (tree_recs t) @ r # drop (nat idx) (tree_recs t)"
    by auto
  show "tw (InsertPiece t idx r) = tw t"
    by (simp add: InsertPiece_def split: prod.split option.split)
qed

end
