(* ===== verification/TreeDelete.thy ===== *)
theory TreeDelete
  imports TreeOps
begin

text \<open>
  Deletion from the piece tree of \<open>internal/piecetable/leafpieces.go\<close>: the moves between
  siblings, merging, rebalancing after a child fell below \<open>minE\<close>, and the collapse of the root.
\<close>

section \<open>Moving one record or child between siblings\<close>

lemma packed_butlast_last:
  "rs \<noteq> [] \<Longrightarrow> packed w rs = packed w (butlast rs) @ enc w (last rs)"
  by (metis append_butlast_last_id append_Nil2 packed_simps)

lemma enc_length_field:
  assumes "w \<le> 8" "rec_fits w r"
  shows "getUintW (drop (1 + w) (enc w r)) w = Length r"
  using assms by (simp add: enc_def getUintW_eq sint_le_bytes rec_fits_def)

lemma leafPopBack_mk:
  assumes "w \<le> 8" "\<forall>r \<in> set rs. rec_fits w r" "rs \<noteq> []"
  shows "leafPopBack w (mk_leafN w rs) = (enc w (last rs), Length (last rs), mk_leafN w (butlast rs))"
proof -
  obtain qs r where rs: "rs = qs @ [r]" using assms(3) by (cases rs rule: rev_cases) auto
  have l: "rec_fits w r" using assms(2) rs by simp
  have off: "(nat (int (length rs)) - 1) * rec_size w = length (packed w qs)"
    unfolding rs by (simp only: nat_int length_append_singleton diff_Suc_1 length_packed)
  have c: "int (length rs) - 1 = int (length qs)" using rs by simp
  have d: "packed w rs = packed w qs @ enc w r" using rs by simp
  have t: "take (length (packed w qs)) (packed w qs @ enc w r) = packed w qs"
    by (simp only: take_append diff_self_eq_0 take_0 append_Nil2 take_all[OF order_refl])
  have e: "take (rec_size w) (drop (length (packed w qs)) (packed w qs @ enc w r)) = enc w r" by simp
  show ?thesis
    unfolding mk_leafN_def leafPopBack.simps Let_def off c d t e enc_length_field[OF assms(1) l]
    by (simp add: rs)
qed

lemma leafPopFront_mk:
  assumes "w \<le> 8" "\<forall>r \<in> set rs. rec_fits w r" "rs \<noteq> []"
  shows "leafPopFront w (mk_leafN w rs) = (enc w (hd rs), Length (hd rs), mk_leafN w (tl rs))"
proof -
  obtain r qs where rs: "rs = r # qs" using assms(3) by (cases rs) auto
  have "close_slot (rec_size w) 0 (packed w rs) = packed w qs"
    using delete_packed[of 0 rs w] by (simp add: rs)
  then show ?thesis
    using enc_length_field[OF assms(1), of r] assms(2) by (simp add: mk_leafN_def Let_def rs)
qed

lemma leafPushBack_mk: "leafPushBack (mk_leafN w rs) (enc w r) (Length r) = mk_leafN w (rs @ [r])"
  by (simp add: mk_leafN_def)

lemma leafPushFront_mk: "leafPushFront w (mk_leafN w rs) (enc w r) (Length r) = mk_leafN w (r # rs)"
proof -
  have "open_slot (rec_size w) 0 (packed w rs) = take (rec_size w) (packed w rs @ replicate (rec_size w) 0) @ packed w rs"
    by (simp add: open_slot_eq)
  moreover have "length (take (rec_size w) (packed w rs @ replicate (rec_size w) (0 :: byte))) = rec_size w" by simp
  ultimately have "copy_at 0 (enc w r) (open_slot (rec_size w) 0 (packed w rs)) = enc w r @ packed w rs"
    by (simp add: copy_at_def del: take_append)
  then show ?thesis by (simp add: mk_leafN_def)
qed

lemma sum_butlast_last: "xs \<noteq> [] \<Longrightarrow> (\<Sum>x\<leftarrow>xs. (f x :: int)) = (\<Sum>x\<leftarrow>butlast xs. f x) + f (last xs)"
  by (induction xs) auto

lemma popBackChild_mk: "cs \<noteq> [] \<Longrightarrow> popBackChild (mk_inner cs) = (last cs, mk_inner (butlast cs))"
  by (simp add: mk_inner_def Let_def last_conv_nth butlast_conv_take sum_butlast_last map_butlast take_map)

lemma popFrontChild_mk: "cs \<noteq> [] \<Longrightarrow> popFrontChild (mk_inner cs) = (hd cs, mk_inner (tl cs))"
  by (cases cs) (simp_all add: mk_inner_def Let_def removePnode_def removeInt_def slice_remove_eq)

lemma pushBackChild_mk: "pushBackChild (mk_inner cs) x = mk_inner (cs @ [x])"
  by (simp add: mk_inner_def)

lemma pushFrontChild_mk: "pushFrontChild (mk_inner cs) x = mk_inner (x # cs)"
  by (simp add: mk_inner_def insertPnode_def insertInt_def slice_insert_eq)

text \<open>Borrowing moves the boundary by one; merging removes it.\<close>

lemma borrowLeft_wf:
  assumes "w \<le> 8" "wf_node w h l" "wf_node w h c" "1 < nodeSize l" "kids_ok l" "kids_ok c"
    and "borrowLeft w l c = (l', c')"
  shows "wf_node w h l' \<and> wf_node w h c' \<and> node_recs w l' @ node_recs w c' = node_recs w l @ node_recs w c \<and>
    nodeSize l' = nodeSize l - 1 \<and> nodeSize c' = nodeSize c + 1 \<and> kids_ok l' \<and> kids_ok c'"
  using assms(3)
proof (cases rule: wf_cases)
  case (leaf rs)
  from assms(2) leaf(1) obtain qs where qs: "l = mk_leafN w qs" "\<forall>r \<in> set qs. rec_fits w r" "node_recs w l = qs"
    by (cases rule: wf_cases) auto
  have ne: "qs \<noteq> []" using assms(4) qs(1) by auto
  have eq: "l' = mk_leafN w (butlast qs)" "c' = mk_leafN w (last qs # rs)"
    using assms(7) leafPopBack_mk[OF assms(1) qs(2) ne] leafPushFront_mk
    by (auto simp: borrowLeft_def leaf(2) qs(1))
  have f: "\<forall>r \<in> set (butlast qs). rec_fits w r" "\<forall>r \<in> set (last qs # rs). rec_fits w r"
    using qs(2) leaf(3) ne by (auto dest: in_set_butlastD)
  show ?thesis
    using wf_mk_leafN[OF assms(1) f(1)] wf_mk_leafN[OF assms(1) f(2)] eq leaf qs ne by auto
next
  case (inner k cs)
  from assms(2) inner(1) obtain ds where ds: "l = mk_inner ds" "ds \<noteq> []" "\<forall>x \<in> set ds. wf_node w k x"
    by (cases rule: wf_cases) auto
  have eq: "l' = mk_inner (butlast ds)" "c' = mk_inner (last ds # cs)"
    using assms(7) popBackChild_mk[OF ds(2)] pushFrontChild_mk by (auto simp: borrowLeft_def inner(2) ds(1))
  obtain es d where es: "ds = es @ [d]" using ds(2) by (cases ds rule: rev_cases) auto
  have ne: "es \<noteq> []" using assms(4) ds(1) es by auto
  show ?thesis
    using ne ds inner assms(5,6) unfolding eq es by simp
qed

lemma borrowRight_wf:
  assumes "w \<le> 8" "wf_node w h c" "wf_node w h r" "1 < nodeSize r" "kids_ok c" "kids_ok r"
    and "borrowRight w c r = (c', r')"
  shows "wf_node w h c' \<and> wf_node w h r' \<and> node_recs w c' @ node_recs w r' = node_recs w c @ node_recs w r \<and>
    nodeSize r' = nodeSize r - 1 \<and> nodeSize c' = nodeSize c + 1 \<and> kids_ok c' \<and> kids_ok r'"
  using assms(2)
proof (cases rule: wf_cases)
  case (leaf rs)
  from assms(3) leaf(1) obtain qs where qs: "r = mk_leafN w qs" "\<forall>r \<in> set qs. rec_fits w r" "node_recs w r = qs"
    by (cases rule: wf_cases) auto
  obtain q ps where ne: "qs = q # ps" using assms(4) qs(1) by (cases qs) auto
  have eq: "r' = mk_leafN w ps" "c' = mk_leafN w (rs @ [q])"
    using assms(7) leafPopFront_mk[OF assms(1) qs(2)] leafPushBack_mk[of w rs q]
    by (auto simp: borrowRight_def leaf(2) qs(1) ne)
  have f: "\<forall>r \<in> set ps. rec_fits w r" "\<forall>r \<in> set (rs @ [q]). rec_fits w r"
    using qs(2) leaf(3) ne by auto
  show ?thesis
    using wf_mk_leafN[OF assms(1) f(1)] wf_mk_leafN[OF assms(1) f(2)] eq leaf qs ne by auto
next
  case (inner k cs)
  from assms(3) inner(1) obtain ds where ds: "r = mk_inner ds" "ds \<noteq> []" "\<forall>x \<in> set ds. wf_node w k x"
    by (cases rule: wf_cases) auto
  obtain d es where ne: "ds = d # es" "es \<noteq> []" using assms(4) ds(1) by (cases ds) auto
  have eq: "r' = mk_inner es" "c' = mk_inner (cs @ [d])"
    using assms(7) popFrontChild_mk[OF ds(2)] pushBackChild_mk ne by (auto simp: borrowRight_def inner(2) ds(1))
  show ?thesis
    using eq ne ds inner assms(5,6) by auto
qed

lemma mergeNodes_wf:
  assumes "w \<le> 8" "wf_node w h a" "wf_node w h b" "kids_ok a" "kids_ok b"
  shows "wf_node w h (mergeNodes a b) \<and> node_recs w (mergeNodes a b) = node_recs w a @ node_recs w b \<and>
    nodeSize (mergeNodes a b) = nodeSize a + nodeSize b \<and> kids_ok (mergeNodes a b)"
  using assms(2)
proof (cases rule: wf_cases)
  case (leaf rs)
  from assms(3) leaf(1) obtain qs where qs: "b = mk_leafN w qs" "\<forall>r \<in> set qs. rec_fits w r" "node_recs w b = qs"
    by (cases rule: wf_cases) auto
  have eq: "mergeNodes a b = mk_leafN w (rs @ qs)" by (simp add: leaf(2) qs(1) mk_leafN_def)
  have "\<forall>r \<in> set (rs @ qs). rec_fits w r" using leaf qs by auto
  then show ?thesis using wf_mk_leafN[OF assms(1)] eq leaf qs by auto
next
  case (inner k cs)
  from assms(3) inner(1) obtain ds where ds: "b = mk_inner ds" "ds \<noteq> []" "\<forall>x \<in> set ds. wf_node w k x"
    by (cases rule: wf_cases) auto
  have eq: "mergeNodes a b = mk_inner (cs @ ds)" by (simp add: inner(2) ds(1) mk_inner_def)
  show ?thesis using eq inner ds assms(4,5) by auto
qed

section \<open>Rebalancing\<close>

text \<open>A run of siblings split around two neighbours.\<close>

lemma split_pair:
  assumes "Suc j < length cs"
  obtains as bs where "cs = as @ cs ! j # cs ! Suc j # bs" "length as = j"
proof
  show "cs = take j cs @ cs ! j # cs ! Suc j # drop (Suc (Suc j)) cs"
    using assms by (metis Cons_nth_drop_Suc Suc_lessD append_take_drop_id)
  show "length (take j cs) = j" using assms by simp
qed

lemma refresh_pair:
  assumes "ptotal x' + ptotal y' = ptotal x + ptotal y" "pcount x' + pcount y' = pcount x + pcount y"
  shows "refresh (refresh (mk_inner (as @ x # y # bs)) (length as) x') (Suc (length as)) y' = mk_inner (as @ x' # y' # bs)"
  using assms by (simp add: mk_inner_def list_update_append)

lemma merge_pair:
  assumes "ptotal z = ptotal x + ptotal y" "pcount z = pcount x + pcount y" "mergeNodes x y = z"
  shows "tree_merge (mk_inner (as @ x # y # bs)) (length as) = mk_inner (as @ z # bs)"
proof -
  have s: "slice_remove (Suc (length as')) (as' @ x' # y' # bs') = as' @ x' # bs'" for as' bs' and x' y' :: 'a
    by (simp add: slice_remove_eq)
  show ?thesis
    using assms s[of "map ptotal as" "ptotal x" "ptotal y"] s[of "map pcount as" "pcount x" "pcount y"]
    by (simp add: mk_inner_def removePnode_def removeInt_def slice_remove_eq list_update_append nth_append Let_def)
qed

definition pair_ok :: "nat \<Rightarrow> nat \<Rightarrow> pnode list \<Rightarrow> pnode \<Rightarrow> bool" where
  "pair_ok w h cs n \<longleftrightarrow> (\<exists>ds. n = mk_inner ds \<and> ds \<noteq> [] \<and> (\<forall>x \<in> set ds. wf_node w h x \<and> sized minE x) \<and>
     concat (map (node_recs w) ds) = concat (map (node_recs w) cs) \<and>
     length ds \<le> length cs \<and> length cs \<le> Suc (length ds))"

lemma pair_borrow:
  assumes "w \<le> 8" "wf_node w h x" "wf_node w h y" "wf_node w h x'" "wf_node w h y'"
    "\<forall>z \<in> set as \<union> set bs. wf_node w h z \<and> sized minE z"
    "node_recs w x' @ node_recs w y' = node_recs w x @ node_recs w y" "sized minE x'" "sized minE y'"
  shows "pair_ok w h (as @ x # y # bs)
    (refresh (refresh (mk_inner (as @ x # y # bs)) (length as) x') (Suc (length as)) y')"
proof -
  have "recsLen (node_recs w x' @ node_recs w y') = recsLen (node_recs w x @ node_recs w y)"
    "length (node_recs w x' @ node_recs w y') = length (node_recs w x @ node_recs w y)"
    using assms(7) by simp_all
  then have e: "ptotal x' + ptotal y' = ptotal x + ptotal y" "pcount x' + pcount y' = pcount x + pcount y"
    using assms(2-5)[THEN wf_node_sums] by simp_all
  have split: "concat (map (node_recs w) (as @ u # v # bs)) =
      concat (map (node_recs w) as) @ (node_recs w u @ node_recs w v) @ concat (map (node_recs w) bs)" for u v
    by simp
  have r: "concat (map (node_recs w) (as @ x' # y' # bs)) = concat (map (node_recs w) (as @ x # y # bs))"
    unfolding split assms(7) by (rule refl)
  show ?thesis
    unfolding pair_ok_def refresh_pair[OF e]
  proof (intro exI[of _ "as @ x' # y' # bs"] conjI)
    show "\<forall>z \<in> set (as @ x' # y' # bs). wf_node w h z \<and> sized minE z"
      using assms(4,5,6,8,9) by auto
    show "concat (map (node_recs w) (as @ x' # y' # bs)) = concat (map (node_recs w) (as @ x # y # bs))" by (rule r)
  qed simp_all
qed

lemma pair_merge:
  assumes "w \<le> 8" "wf_node w h x" "wf_node w h y" "kids_ok x" "kids_ok y"
    "\<forall>z \<in> set as \<union> set bs. wf_node w h z \<and> sized minE z"
    "minE \<le> nodeSize x + nodeSize y" "nodeSize x + nodeSize y \<le> maxE"
  shows "pair_ok w h (as @ x # y # bs) (tree_merge (mk_inner (as @ x # y # bs)) (length as))"
proof -
  let ?z = "mergeNodes x y"
  have z: "wf_node w h ?z" "node_recs w ?z = node_recs w x @ node_recs w y"
      "nodeSize ?z = nodeSize x + nodeSize y" "kids_ok ?z"
    using mergeNodes_wf[OF assms(1-5)] by auto
  then have "sized minE ?z" using assms(7,8) sized_iff[OF z(1)] by simp
  moreover have "ptotal ?z = ptotal x + ptotal y" "pcount ?z = pcount x + pcount y"
    using wf_node_sums[OF z(1)] wf_node_sums[OF assms(2)] wf_node_sums[OF assms(3)] z(2) by simp_all
  then have "tree_merge (mk_inner (as @ x # y # bs)) (length as) = mk_inner (as @ ?z # bs)"
    by (intro merge_pair) auto
  ultimately show ?thesis
    using z assms(6) by (auto simp: pair_ok_def intro!: exI[of _ "as @ ?z # bs"])
qed

lemma borrowFromLeft_eq:
  "borrowFromLeft w (mk_inner cs) i =
     (case borrowLeft w (cs ! (i - 1)) (cs ! i) of (l, c) \<Rightarrow> refresh (refresh (mk_inner cs) (i - 1) l) i c)"
  unfolding mk_inner_def by (simp only: borrowFromLeft.simps borrowFromRight.simps Let_def)

lemma borrowFromRight_eq:
  "borrowFromRight w (mk_inner cs) i =
     (case borrowRight w (cs ! i) (cs ! (i + 1)) of (c, r) \<Rightarrow> refresh (refresh (mk_inner cs) i c) (i + 1) r)"
  unfolding mk_inner_def by (simp only: borrowFromLeft.simps borrowFromRight.simps Let_def)

lemma childSize_mk [simp]: "childSize (mk_inner cs) i = nodeSize (cs ! i)"
  by (simp add: mk_inner_def)

lemma sized_minED:
  "wf_node w h x \<Longrightarrow> sized minE x \<Longrightarrow> 16 \<le> nodeSize x \<and> nodeSize x \<le> 32 \<and> kids_ok x"
  by (simp add: sized_iff minE_def maxE_def)

lemma rebalance_ok:
  assumes w: "w \<le> 8" and i: "i < length cs" and two: "2 \<le> length cs"
    and all: "\<forall>z \<in> set cs. wf_node w h z" and kids: "kids_ok (cs ! i)" and small: "nodeSize (cs ! i) = 15"
    and others: "\<forall>k < length cs. k \<noteq> i \<longrightarrow> sized minE (cs ! k)"
  shows "pair_ok w h cs (rebalance w (mk_inner cs) i)"
proof -
  have oth: "k < length cs \<Longrightarrow> k \<noteq> i \<Longrightarrow> 16 \<le> nodeSize (cs ! k) \<and> nodeSize (cs ! k) \<le> 32 \<and> kids_ok (cs ! k)" for k
    using sized_minED[of w h "cs ! k"] all others by simp
  have rest: "\<forall>z \<in> set as \<union> set bs. wf_node w h z \<and> sized minE z"
    if "cs = as @ x # y # bs" "i = length as \<or> i = Suc (length as)" for as x y bs
  proof -
    have "\<forall>z \<in> set as. sized minE z"
    proof
      fix z assume "z \<in> set as"
      then obtain k where "k < length as" "z = as ! k" by (auto simp: in_set_conv_nth)
      then show "sized minE z" using others[rule_format, of k] that by (auto simp: nth_append)
    qed
    moreover have "\<forall>z \<in> set bs. sized minE z"
    proof
      fix z assume "z \<in> set bs"
      then obtain k where "k < length bs" "z = bs ! k" by (auto simp: in_set_conv_nth)
      then show "sized minE z" using others[rule_format, of "length as + 2 + k"] that by (auto simp: nth_append)
    qed
    ultimately show ?thesis using all that by auto
  qed
  consider (left) "0 < i" "16 < nodeSize (cs ! (i - 1))"
    | (right) "\<not> (0 < i \<and> 16 < nodeSize (cs ! (i - 1)))" "i + 1 < length cs" "16 < nodeSize (cs ! (i + 1))"
    | (mleft) "\<not> (0 < i \<and> 16 < nodeSize (cs ! (i - 1)))" "\<not> (i + 1 < length cs \<and> 16 < nodeSize (cs ! (i + 1)))" "0 < i"
    | (mright) "\<not> (i + 1 < length cs \<and> 16 < nodeSize (cs ! (i + 1)))" "i = 0"
    by blast
  then show ?thesis
  proof cases
    case left
    have sj: "Suc (i - 1) < length cs" "Suc (i - 1) = i" using left i by auto
    obtain as bs where cs: "cs = as @ cs ! (i - 1) # cs ! i # bs" "length as = i - 1"
      using split_pair[OF sj(1)] sj(2) by metis
    have R: "\<forall>z \<in> set as \<union> set bs. wf_node w h z \<and> sized minE z" using rest[OF cs(1)] cs(2) sj(2) by simp
    let ?l = "cs ! (i - 1)" and ?c = "cs ! i"
    have wl: "wf_node w h ?l" "wf_node w h ?c" using all i left by auto
    have ol: "nodeSize ?l \<le> 32" "kids_ok ?l" using oth[of "i - 1"] left i by auto
    obtain l' c' where b: "borrowLeft w ?l ?c = (l', c')" by fastforce
    have B: "wf_node w h l'" "wf_node w h c'" "node_recs w l' @ node_recs w c' = node_recs w ?l @ node_recs w ?c"
      "nodeSize l' = nodeSize ?l - 1" "nodeSize c' = nodeSize ?c + 1" "kids_ok l'" "kids_ok c'"
      using borrowLeft_wf[OF w wl _ ol(2) kids b] left by auto
    have sz: "sized minE l'" "sized minE c'"
      using B(4-7) left ol small unfolding sized_iff[OF B(1)] sized_iff[OF B(2)] minE_def maxE_def by auto
    have "rebalance w (mk_inner cs) i = refresh (refresh (mk_inner cs) (length as) l') (Suc (length as)) c'"
      using left b cs(2) by (simp add: rebalance_def minE_def maxE_def borrowFromLeft_eq)
    then show ?thesis
      using pair_borrow[OF w wl B(1,2) R B(3) sz] cs sj(2) by simp
  next
    case right
    have sj: "Suc i < length cs" using right by simp
    obtain as bs where cs: "cs = as @ cs ! i # cs ! (i + 1) # bs" "length as = i"
      using split_pair[OF sj] by auto
    have R: "\<forall>z \<in> set as \<union> set bs. wf_node w h z \<and> sized minE z" using rest[OF cs(1)] cs(2) by simp
    let ?c = "cs ! i" and ?r = "cs ! (i + 1)"
    have wl: "wf_node w h ?c" "wf_node w h ?r" using all i right by auto
    have ol: "nodeSize ?r \<le> 32" "kids_ok ?r" using oth[of "i + 1"] right by auto
    obtain c' r' where b: "borrowRight w ?c ?r = (c', r')" by fastforce
    have B: "wf_node w h c'" "wf_node w h r'" "node_recs w c' @ node_recs w r' = node_recs w ?c @ node_recs w ?r"
      "nodeSize r' = nodeSize ?r - 1" "nodeSize c' = nodeSize ?c + 1" "kids_ok c'" "kids_ok r'"
      using borrowRight_wf[OF w wl _ kids ol(2) b] right by auto
    have sz: "sized minE c'" "sized minE r'"
      using B(4-7) right(3) ol small unfolding sized_iff[OF B(1)] sized_iff[OF B(2)] minE_def maxE_def by auto
    have "rebalance w (mk_inner cs) i = refresh (refresh (mk_inner cs) (length as) c') (Suc (length as)) r'"
      using right b cs(2) by (auto simp: rebalance_def minE_def maxE_def borrowFromRight_eq)
    then show ?thesis
      using pair_borrow[OF w wl B(1,2) R B(3) sz] cs by simp
  next
    case mleft
    have sj: "Suc (i - 1) < length cs" "Suc (i - 1) = i" using mleft i by auto
    obtain as bs where cs: "cs = as @ cs ! (i - 1) # cs ! i # bs" "length as = i - 1"
      using split_pair[OF sj(1)] sj(2) by metis
    have R: "\<forall>z \<in> set as \<union> set bs. wf_node w h z \<and> sized minE z" using rest[OF cs(1)] cs(2) sj(2) by simp
    have wl: "wf_node w h (cs ! (i - 1))" "wf_node w h (cs ! i)" using all i mleft by auto
    have ol: "nodeSize (cs ! (i - 1)) = 16" "kids_ok (cs ! (i - 1))" using oth[of "i - 1"] mleft i by auto
    have "rebalance w (mk_inner cs) i = tree_merge (mk_inner cs) (length as)"
      using mleft cs(2) by (auto simp: rebalance_def minE_def maxE_def)
    then show ?thesis
      using pair_merge[OF w wl ol(2) kids R] cs sj(2) ol(1) small by (simp add: minE_def maxE_def)
  next
    case mright
    have sj: "Suc i < length cs" using mright two by simp
    obtain as bs where cs: "cs = as @ cs ! i # cs ! (i + 1) # bs" "length as = i"
      using split_pair[OF sj] by auto
    have R: "\<forall>z \<in> set as \<union> set bs. wf_node w h z \<and> sized minE z" using rest[OF cs(1)] cs(2) by simp
    have wl: "wf_node w h (cs ! i)" "wf_node w h (cs ! (i + 1))" using all i sj by auto
    have ol: "nodeSize (cs ! (i + 1)) = 16" "kids_ok (cs ! (i + 1))" using oth[of "i + 1"] mright sj by auto
    have "rebalance w (mk_inner cs) i = tree_merge (mk_inner cs) (length as)"
      using mright cs(2) by (auto simp: rebalance_def minE_def maxE_def)
    then show ?thesis
      using pair_merge[OF w wl kids ol(2) R] cs ol(1) small by (simp add: minE_def maxE_def)
  qed
qed

section \<open>Deletion\<close>

definition remove_nth :: "nat \<Rightarrow> 'a list \<Rightarrow> 'a list" where
  "remove_nth k xs = take k xs @ drop (Suc k) xs"

lemma remove_nth_mid: "k < length xs \<Longrightarrow> remove_nth (length pre + k) (pre @ xs @ post) = pre @ remove_nth k xs @ post"
  by (simp add: remove_nth_def)

lemma length_remove_nth [simp]: "k < length xs \<Longrightarrow> length (remove_nth k xs) = length xs - 1"
  by (simp add: remove_nth_def)

lemma recsLen_remove_nth: "k < length rs \<Longrightarrow> recsLen (remove_nth k rs) = recsLen rs - Length (rs ! k)"
  using recsLen_simps(3)[of "take k rs" "rs ! k # drop (Suc k) rs"]
  by (simp add: remove_nth_def id_take_nth_drop[symmetric])

definition del_ok :: "nat \<Rightarrow> nat \<Rightarrow> nat \<Rightarrow> PieceRec list \<Rightarrow> nat \<Rightarrow> int \<times> pnode \<Rightarrow> bool" where
  "del_ok w h lo rs k res \<longleftrightarrow> fst res = Length (rs ! k) \<and> wf_node w h (snd res) \<and>
     node_recs w (snd res) = remove_nth k rs \<and>
     lo \<le> Suc (nodeSize (snd res)) \<and> nodeSize (snd res) \<le> maxE \<and> kids_ok (snd res)"

lemma deleteAt_leaf:
  assumes "w \<le> 8" "\<forall>r \<in> set rs. rec_fits w r" "0 \<le> idx" "nat idx < length rs" "lo \<le> length rs" "length rs \<le> maxE"
  shows "del_ok w 0 lo rs (nat idx) (deleteAt w (mk_leafN w rs) idx)"
proof -
  let ?k = "nat idx" let ?rs = "remove_nth ?k rs"
  have f: "\<forall>r \<in> set ?rs. rec_fits w r"
    using assms(2) by (auto simp: remove_nth_def dest: in_set_takeD in_set_dropD)
  have l: "recLen w (packed w rs) ?k = Length (rs ! ?k)" using assms by (simp add: recLen_packed)
  have d: "close_slot (rec_size w) (?k * rec_size w) (packed w rs) = packed w ?rs"
    using delete_packed[OF assms(4)] by (simp add: remove_nth_def)
  have n: "LeafN (packed w ?rs) (recsLen rs - Length (rs ! ?k)) (int (length rs) - 1) = mk_leafN w ?rs"
    using assms(4) by (simp add: mk_leafN_def recsLen_remove_nth)
  have eq: "deleteAt w (mk_leafN w rs) idx = (Length (rs ! ?k), mk_leafN w ?rs)"
    unfolding mk_leafN_def[of w rs] deleteAt.simps Let_def l d n by (rule refl)
  show ?thesis
    unfolding del_ok_def eq using wf_mk_leafN[OF assms(1) f] assms(4-6) by auto
qed

lemma refresh_delete:
  assumes "j < length cs" "ptotal y = ptotal (cs ! j) - rm" "pcount y = pcount (cs ! j) - 1"
  shows "refresh (InnerN cs (map ptotal cs) (map pcount cs) ((\<Sum>x\<leftarrow>cs. ptotal x) - rm) ((\<Sum>x\<leftarrow>cs. pcount x) - 1)) j y
    = mk_inner (cs[j := y])"
  using mk_inner_update[OF assms(1), of "(\<Sum>x\<leftarrow>cs. ptotal x) - rm" y "(\<Sum>x\<leftarrow>cs. pcount x) - 1"] assms(2,3) by simp

lemma deleteAt_wf:
  assumes "w \<le> 8" "wf_node w h n" "sized lo n" "0 \<le> idx" "idx < pcount n" "h = 0 \<or> 2 \<le> lo"
  shows "del_ok w h lo (node_recs w n) (nat idx) (deleteAt w n idx)"
  using assms
proof (induction h arbitrary: n idx lo)
  case 0
  from 0(2) obtain rs where rs: "n = mk_leafN w rs" "\<forall>r \<in> set rs. rec_fits w r" "node_recs w n = rs"
    by (cases rule: wf_cases) auto
  have "nat idx < length rs" using 0(4,5) rs(1) by (simp add: mk_leafN_def nat_less_iff)
  then show ?case
    using deleteAt_leaf[OF 0(1) rs(2) 0(4), of lo] 0(3) rs by simp
next
  case (Suc h)
  from Suc.prems(2) obtain cs where n: "n = mk_inner cs" and all: "\<forall>x \<in> set cs. wf_node w h x" "cs \<noteq> []"
    by (cases rule: wf_cases) auto
  have sz: "\<forall>x \<in> set cs. sized minE x" "lo \<le> length cs" "length cs \<le> maxE" "2 \<le> length cs"
    using Suc.prems(3,6) n by auto
  obtain j idx' u' where d: "descend reaches (map pcount cs) (map pcount cs) (length cs) 0 idx 0 = (j, idx', u')"
    using prod_cases3 by blast
  note D = descend_cnt[OF Suc.prems(2)[unfolded n mk_inner_def] d Suc.prems(4) Suc.prems(5)[unfolded n mk_inner_def pcount.simps]]
  let ?x = "cs ! j" and ?pre = "child_pre w cs j" and ?post = "child_post w cs j"
  have j: "j < length cs" "wf_node w h ?x" "sized minE ?x" using D sz(1) by auto
  have ni: "nat idx = length ?pre + nat idx'" "nat idx' < length (node_recs w ?x)" using D Suc.prems(4) by linarith+
  have recs: "node_recs w n = ?pre @ node_recs w ?x @ ?post" using inner_split[OF j(1)] n by (simp add: mk_inner_def)
  have nth: "node_recs w n ! nat idx = node_recs w ?x ! nat idx'" using recs ni by (simp add: nth_append)
  obtain rm y where y: "deleteAt w ?x idx' = (rm, y)" by fastforce
  have IH: "del_ok w h minE (node_recs w ?x) (nat idx') (rm, y)"
    using Suc.IH[of ?x minE idx'] D j Suc.prems(1) y wf_node_sums[OF j(2)] by (simp add: minE_def maxE_def)
  let ?cs = "cs[j := y]"
  have Y: "rm = Length (node_recs w ?x ! nat idx')" "wf_node w h y" "node_recs w y = remove_nth (nat idx') (node_recs w ?x)"
    "15 \<le> nodeSize y" "nodeSize y \<le> maxE" "kids_ok y"
    using IH by (auto simp: del_ok_def minE_def maxE_def)
  have "ptotal y = ptotal ?x - rm" "pcount y = pcount ?x - 1"
    using wf_node_sums[OF Y(2)] wf_node_sums[OF j(2)] Y(1,3) ni(2) by (auto simp: recsLen_remove_nth)
  note R = refresh_delete[OF j(1) this]
  have del: "deleteAt w n idx = (rm, if nodeSize y < minE then rebalance w (mk_inner ?cs) j else mk_inner ?cs)"
    unfolding n mk_inner_def[of cs] deleteAt.simps d Let_def prod.case y R using j(1) by simp
  have all': "\<forall>z \<in> set ?cs. wf_node w h z" using wf_update[OF all(1) Y(2)] .
  have recs': "concat (map (node_recs w) ?cs) = remove_nth (nat idx) (node_recs w n)"
    unfolding recs ni(1) remove_nth_mid[OF ni(2)] node_recs_update[OF j(1)] Y(3) by (rule refl)
  show ?case
  proof (cases "nodeSize y < minE")
    case True
    have "pair_ok w h ?cs (rebalance w (mk_inner ?cs) j)"
      using True Y j(1) sz(1,4) all' by (intro rebalance_ok[OF Suc.prems(1)]) (auto simp: minE_def maxE_def)
    then show ?thesis
      unfolding del_ok_def del using True Y(1) nth recs' sz by (auto simp: pair_ok_def)
  next
    case False
    then have "sized minE y" using sized_iff[OF Y(2)] Y by simp
    then show ?thesis
      unfolding del_ok_def del using False Y(1) nth recs' sz all' all(2) sized_update[OF sz(1)] by simp
  qed
qed

lemma collapse_wf:
  assumes "wf_node w h n" "kids_ok n" "nodeSize n \<le> maxE"
  shows "wf_node w (height (collapse n)) (collapse n) \<and> node_recs w (collapse n) = node_recs w n \<and>
    sized (root_lo (collapse n)) (collapse n)"
  using assms
proof (induction n arbitrary: h rule: collapse.induct)
  case (1 d t c)
  then show ?case using wf_height[of w h "LeafN d t c"] by (auto simp: root_lo_def)
next
  case (2 cs st sc t c)
  show ?case
  proof (cases "\<exists>x. cs = [x]")
    case True
    then obtain x where x: "cs = [x]" by blast
    then have wx: "wf_node w (h - 1) x" "sized minE x" using "2.prems" by (auto simp: kids_ok_def)
    then have "kids_ok x" "nodeSize x \<le> maxE" using sized_iff[OF wx(1)] by auto
    then show ?thesis using "2.IH"[OF x refl wx(1)] x by simp
  next
    case False
    then have e: "collapse (InnerN cs st sc t c) = InnerN cs st sc t c" by (auto split: list.split)
    have "cs \<noteq> []" using "2.prems" by simp
    then have "2 \<le> length cs" using False by (cases cs; cases "tl cs") auto
    then show ?thesis
      unfolding e using "2.prems" wf_height[OF "2.prems"(1)] by (auto simp: root_lo_def kids_ok_def)
  qed
qed

lemma DeletePiece_inv:
  assumes "tree_inv t" "0 \<le> idx" "idx < tree_Count t"
  shows "tree_inv (DeletePiece t idx)"
    and "tree_recs (DeletePiece t idx) = remove_nth (nat idx) (tree_recs t)"
    and "tw (DeletePiece t idx) = tw t"
proof -
  let ?w = "tw t" and ?h = "height (root t)" and ?n = "snd (deleteAt (tw t) (root t) idx)"
  have I: "1 \<le> ?w" "?w \<le> 8" "wf_node ?w ?h (root t)" "sized (root_lo (root t)) (root t)"
    using assms(1) by (auto simp: tree_inv_def)
  have "?h = 0 \<or> 2 \<le> root_lo (root t)" using I(3) by (cases "root t") (auto simp: root_lo_def)
  then have "del_ok ?w ?h (root_lo (root t)) (tree_recs t) (nat idx) (deleteAt ?w (root t) idx)"
    using deleteAt_wf[OF I(2-4) assms(2)] assms(3) by (simp add: tree_Count_def tree_recs_def)
  then have N: "wf_node ?w ?h ?n" "kids_ok ?n" "nodeSize ?n \<le> maxE" "node_recs ?w ?n = remove_nth (nat idx) (tree_recs t)"
    by (auto simp: del_ok_def)
  note C = collapse_wf[OF N(1-3)]
  show "tree_inv (DeletePiece t idx)" "tree_recs (DeletePiece t idx) = remove_nth (nat idx) (tree_recs t)"
    "tw (DeletePiece t idx) = tw t"
    using C N(4) I(1,2) by (auto simp: DeletePiece_def tree_inv_def tree_recs_def)
qed

end
