(* ===== verification/TreeLoad.thy ===== *)
theory TreeLoad
  imports TreeDelete
begin

text \<open>
  Bulk loading (\<open>NewPieceBTree\<close>, \<open>groupSizes\<close>) and iteration (\<open>Each\<close>) of the piece tree of
  \<open>internal/piecetable/leafpieces.go\<close> and \<open>nodes.go\<close>, and the queries and edits of a whole tree
  stated on the records it holds.
\<close>

section \<open>Bulk-load groups\<close>

lemma sum_spread:
  "(\<Sum>i\<leftarrow>[0..<g]. (if i < rm then b + 1 else b)) = g * b + min rm (g :: nat)"
  by (induction g) auto

lemma groupSizes_sum: "sum_list (groupSizes m) = m"
proof (cases "m \<le> maxE")
  case False
  let ?g = "(m + maxE - 1) div maxE"
  have "0 < ?g" using False by (simp add: maxE_def)
  then have "m mod ?g < ?g" by simp
  moreover have "sum_list (groupSizes m) = ?g * (m div ?g) + min (m mod ?g) ?g"
    using False by (simp only: groupSizes_def Let_def sum_spread if_False)
  ultimately show ?thesis by simp
qed (simp add: groupSizes_def)

lemma groupSizes_bounds:
  assumes "s \<in> set (groupSizes m)"
  shows "s \<le> maxE \<and> (maxE < m \<longrightarrow> minE \<le> s)"
proof (cases "m \<le> maxE")
  case True
  then show ?thesis using assms by (simp add: groupSizes_def)
next
  case False
  let ?g = "(m + maxE - 1) div maxE"
  have g: "0 < ?g" "m \<le> 32 * ?g" "16 * ?g \<le> m" using False by (simp_all add: maxE_def)
  have s: "s = m div ?g + 1 \<and> 0 < m mod ?g \<or> s = m div ?g"
    using assms False by (auto simp: groupSizes_def Let_def split: if_splits)
  have lo: "16 \<le> m div ?g" using g by (simp add: less_eq_div_iff_mult_less_eq)
  have eq: "m = ?g * (m div ?g) + m mod ?g" by simp
  have hi: "m div ?g \<le> 32" using g by (metis div_le_mono nonzero_mult_div_cancel_right less_numeral_extra(3))
  have "m div ?g < 32" if "0 < m mod ?g"
  proof (rule ccontr)
    assume "\<not> m div ?g < 32"
    then have "?g * 32 \<le> ?g * (m div ?g)" by simp
    then show False using g(2) eq that by linarith
  qed
  then show ?thesis using s lo hi by (auto simp: maxE_def minE_def)
qed

lemma split_groups_concat: "sum_list szs = length xs \<Longrightarrow> concat (split_groups szs xs) = xs"
  by (induction szs arbitrary: xs) auto

lemma split_groups_lengths: "sum_list szs \<le> length xs \<Longrightarrow> map length (split_groups szs xs) = szs"
  by (induction szs arbitrary: xs) auto

lemma groups_of:
  assumes "g \<in> set (split_groups (groupSizes (length xs)) xs)"
  shows "length g \<le> maxE \<and> (maxE < length xs \<longrightarrow> minE \<le> length g) \<and> set g \<subseteq> set xs"
    and "length xs \<le> maxE \<Longrightarrow> g = xs"
proof -
  have "length g \<in> set (groupSizes (length xs))"
    using assms split_groups_lengths[of "groupSizes (length xs)" xs] groupSizes_sum
    by (metis image_eqI list.set_map order_refl)
  then show "length g \<le> maxE \<and> (maxE < length xs \<longrightarrow> minE \<le> length g) \<and> set g \<subseteq> set xs"
    using groupSizes_bounds assms split_groups_concat[OF groupSizes_sum, of xs]
    by (metis UN_upper set_concat)
  show "length xs \<le> maxE \<Longrightarrow> g = xs" using assms by (simp add: groupSizes_def)
qed

section \<open>Bulk load\<close>

lemma fill_leaf_packed:
  assumes "length rest = length rs * rec_size w"
  shows "fill_leaf w (length ds) rs (packed w ds @ rest) = packed w (ds @ rs)"
  using assms
proof (induction rs arbitrary: ds rest)
  case Nil
  then show ?case by simp
next
  case (Cons r rs)
  have "writeRec w (packed w ds @ rest) (length ds * rec_size w) r = packed w (ds @ [r]) @ drop (rec_size w) rest"
    using Cons.prems unfolding writeRec_def by (subst write_rec_eq) simp_all
  then show ?case using Cons.IH[of "drop (rec_size w) rest" "ds @ [r]"] Cons.prems by simp
qed

lemma mk_leaf_eq: "mk_leaf w = mk_leafN w"
proof
  fix rs show "mk_leaf w rs = mk_leafN w rs"
  using fill_leaf_packed[of "replicate (length rs * rec_size w) 0" rs w "[]"]
  by (simp add: mk_leaf_def mk_leafN_def)
qed

lemma concat_map_concat: "concat (map f (concat gs)) = concat (map (\<lambda>g. concat (map f g)) gs)"
  by (induction gs) simp_all

lemma build_up_ok:
  assumes "nodes \<noteq> []" "\<forall>x \<in> set nodes. wf_node w h x" "1 < length nodes \<longrightarrow> (\<forall>x \<in> set nodes. sized minE x)"
    and "length nodes = 1 \<longrightarrow> sized (root_lo (nodes ! 0)) (nodes ! 0)"
  shows "wf_node w (height (build_up nodes)) (build_up nodes) \<and> sized (root_lo (build_up nodes)) (build_up nodes) \<and>
    node_recs w (build_up nodes) = concat (map (node_recs w) nodes)"
  using assms
proof (induction nodes arbitrary: h rule: build_up.induct)
  case (1 nodes)
  show ?case
  proof (cases "1 < length nodes")
    case True
    let ?gs = "split_groups (groupSizes (length nodes)) nodes"
    let ?ns = "map mk_inner ?gs"
    have sz: "\<forall>x \<in> set nodes. sized minE x" using True "1.prems" by simp
    have gs: "length g \<le> maxE" "maxE < length nodes \<Longrightarrow> minE \<le> length g" "set g \<subseteq> set nodes" "g \<noteq> []" "1 < length g"
      if "g \<in> set ?gs" for g
      using groups_of[OF that] True by (force simp: maxE_def minE_def)+
    have cat: "concat ?gs = nodes" by (rule split_groups_concat[OF groupSizes_sum])
    then have ne: "?ns \<noteq> []" using "1.prems"(1) by force
    have wf: "\<forall>x \<in> set ?ns. wf_node w (Suc h) x"
      using gs(3,4) "1.prems"(2) by auto
    have one: "length ?ns = 1 \<longrightarrow> sized (root_lo (?ns ! 0)) (?ns ! 0)"
    proof
      assume "length ?ns = 1"
      then obtain g where g: "?gs = [g]" by (cases ?gs; cases "tl ?gs") auto
      then show "sized (root_lo (?ns ! 0)) (?ns ! 0)"
        using gs[of g] sz by (auto simp: root_lo_def)
    qed
    have many: "1 < length ?ns \<longrightarrow> (\<forall>x \<in> set ?ns. sized minE x)"
    proof
      assume m: "1 < length ?ns"
      have "maxE < length nodes"
      proof (rule ccontr)
        assume "\<not> maxE < length nodes"
        then show False using m by (simp add: groupSizes_def)
      qed
      then show "\<forall>x \<in> set ?ns. sized minE x" using gs(1-3) sz by (auto dest!: subsetD)
    qed
    have "build_up nodes = build_up ?ns" using True by (simp add: build_up.simps[of nodes])
    moreover have "concat (map (node_recs w) ?ns) = concat (map (node_recs w) nodes)"
    proof -
      have "concat (map (node_recs w) (concat ?gs)) = concat (map (\<lambda>g. concat (map (node_recs w) g)) ?gs)"
        by (rule concat_map_concat)
      then show ?thesis unfolding cat by (simp add: comp_def)
    qed
    ultimately show ?thesis using "1.IH"[OF True ne wf many one] by simp
  next
    case False
    then obtain x where x: "nodes = [x]" using "1.prems"(1) by (cases nodes) auto
    then have "height x = h" using "1.prems"(2) wf_height by simp
    then show ?thesis using "1.prems" x by (simp add: build_up.simps)
  qed
qed

lemma NewPieceBTree_inv:
  assumes "1 \<le> w" "w \<le> 8" "\<forall>r \<in> set rs. rec_fits w r"
  shows "tree_inv (NewPieceBTree w rs)" "tree_recs (NewPieceBTree w rs) = rs" "tw (NewPieceBTree w rs) = w"
proof -
  let ?gs = "split_groups (groupSizes (length rs)) rs"
  let ?ns = "map (mk_leafN w) ?gs"
  have "tree_inv (NewPieceBTree w rs) \<and> tree_recs (NewPieceBTree w rs) = rs \<and> tw (NewPieceBTree w rs) = w"
  proof (cases "rs = []")
    case True
    then show ?thesis
      using assms by (simp add: NewPieceBTree_def tree_inv_def tree_recs_def leaf_recs_def root_lo_def)
  next
    case False
    have cat: "concat ?gs = rs" by (rule split_groups_concat[OF groupSizes_sum])
    have gs: "wf_node w 0 (mk_leafN w g)" "node_recs w (mk_leafN w g) = g" "length g \<le> maxE"
      "maxE < length rs \<Longrightarrow> minE \<le> length g" if "g \<in> set ?gs" for g
      using groups_of[OF that] assms(3) wf_mk_leafN[OF assms(2), of g] by auto
    have ne: "?ns \<noteq> []" using False cat by force
    have many: "1 < length ?ns \<longrightarrow> (\<forall>x \<in> set ?ns. sized minE x)"
    proof
      assume m: "1 < length ?ns"
      have "maxE < length rs"
        using m by (rule contrapos_pp) (simp add: groupSizes_def)
      then show "\<forall>x \<in> set ?ns. sized minE x" using gs by auto
    qed
    have one: "length ?ns = 1 \<longrightarrow> sized (root_lo (?ns ! 0)) (?ns ! 0)"
      using gs ne by (auto simp: root_lo_def length_Suc_conv)
    have B: "wf_node w (height (build_up ?ns)) (build_up ?ns) \<and> sized (root_lo (build_up ?ns)) (build_up ?ns) \<and>
        node_recs w (build_up ?ns) = concat (map (node_recs w) ?ns)"
      using gs by (intro build_up_ok[OF ne _ many one, of w 0]) auto
    have "map (node_recs w) ?ns = ?gs" using gs by (simp add: map_idI)
    then have "node_recs w (build_up ?ns) = rs" using B cat by simp
    moreover have "NewPieceBTree w rs = \<lparr>root = build_up ?ns, tw = w\<rparr>"
      using False by (simp add: NewPieceBTree_def mk_leaf_eq)
    ultimately show ?thesis using assms B by (simp add: tree_inv_def tree_recs_def)
  qed
  then show "tree_inv (NewPieceBTree w rs)" "tree_recs (NewPieceBTree w rs) = rs" "tw (NewPieceBTree w rs) = w"
    by auto
qed

section \<open>Iteration\<close>

fun visit :: "(int \<Rightarrow> PieceRec \<Rightarrow> 's \<Rightarrow> bool \<times> 's) \<Rightarrow> int \<Rightarrow> PieceRec list \<Rightarrow> 's \<Rightarrow> bool \<times> 's" where
  "visit f k [] s = (True, s)"
| "visit f k (r # rs) s = (case f k r s of (go, s') \<Rightarrow> if go then visit f (k + 1) rs s' else (False, s'))"

lemma visit_append:
  "visit f k (xs @ ys) s = (case visit f k xs s of (go, s') \<Rightarrow> if go then visit f (k + int (length xs)) ys s' else (False, s'))"
  by (induction xs arbitrary: k s) (auto split: prod.splits simp: algebra_simps)

lemma leaf_each_visit:
  "leaf_each w d n i base f s = visit f (base + int i) (drop i (leaf_recs w d n)) s"
proof (induction w d n i base f s rule: leaf_each.induct)
  case (1 w d n i base f s)
  show ?case
  proof (cases "i < n")
    case True
    then have "drop i (leaf_recs w d n) = recPiece w d i # drop (i + 1) (leaf_recs w d n)"
      by (simp add: leaf_recs_def Cons_nth_drop_Suc[symmetric])
    then show ?thesis
      using 1 True by (subst leaf_each.simps) (auto split: prod.splits simp: algebra_simps)
  next
    case False
    then show ?thesis by (subst leaf_each.simps) (simp add: leaf_recs_def)
  qed
qed

lemma each_visit:
  fixes f :: "int \<Rightarrow> PieceRec \<Rightarrow> 's \<Rightarrow> bool \<times> 's"
  shows "wf_node w h n \<Longrightarrow> 0 \<le> skip \<Longrightarrow>
     each_in w n skip base f s = visit f (base + skip) (drop (nat skip) (node_recs w n)) s"
    and "\<forall>x \<in> set cs. wf_node w h x \<Longrightarrow> sc = map pcount cs \<Longrightarrow> 0 \<le> skip \<Longrightarrow>
     each_list w cs sc skip base f s = visit f (base + skip) (drop (nat skip) (concat (map (node_recs w) cs))) s"
proof (induction w n skip base f s and w cs sc skip base f s arbitrary: h and h rule: each_in_each_list.induct)
  case (1 w d t c skip base f s)
  then show ?case by (simp add: leaf_each_visit)
next
  case (2 w cs st sc t c skip base f s)
  then have "\<forall>x \<in> set cs. wf_node w (h - 1) x" "sc = map pcount cs" by auto
  then show ?case using "2.IH" "2.prems"(2) by simp
next
  case (5 w x xs k ks skip base f s)
  let ?X = "node_recs w x" and ?Y = "concat (map (node_recs w) xs)"
  have wx: "wf_node w h x" and k: "k = int (length ?X)" and ks: "ks = map pcount xs" and rest: "\<forall>x \<in> set xs. wf_node w h x"
    using "5.prems" wf_node_sums[of w h x] by auto
  show ?case
  proof (cases "k \<le> skip")
    case True
    then have "nat skip = length ?X + nat (skip - k)" using k by linarith
    then have "drop (nat skip) (?X @ ?Y) = drop (nat (skip - k)) ?Y" by simp
    then show ?thesis using "5.IH"(1)[OF True rest ks] True by simp
  next
    case False
    then have n: "nat skip < length ?X" using k "5.prems"(3) by linarith
    have e: "each_in w x skip base f s = visit f (base + skip) (drop (nat skip) ?X) s"
      using "5.IH"(2)[OF False wx "5.prems"(3)] .
    have len: "base + skip + int (length (drop (nat skip) ?X)) = base + k" using n k "5.prems"(3) by (simp add: of_nat_diff)
    obtain go s' where v: "each_in w x skip base f s = (go, s')" by fastforce
    have split: "drop (nat skip) (?X @ ?Y) = drop (nat skip) ?X @ ?Y" using n by simp
    have ih: "each_list w xs ks 0 (base + k) f s' = visit f (base + k) ?Y s'" if "go"
      using "5.IH"(3)[OF False v[symmetric] refl that rest ks] by simp
    have "each_list w (x # xs) (k # ks) skip base f s = (if go then visit f (base + k) ?Y s' else (False, s'))"
      using False v ih by simp
    also have "\<dots> = visit f (base + skip) (drop (nat skip) ?X @ ?Y) s"
      unfolding visit_append e[symmetric] v prod.case len by (rule refl)
    finally show ?thesis unfolding split[symmetric] by simp
  qed
qed simp_all

lemma tree_Each_visit:
  assumes "tree_inv t"
  shows "tree_Each t from f s = snd (visit f (max 0 from) (drop (nat from) (tree_recs t)) s)"
  using assms each_visit(1)[of "tw t" "height (root t)" "root t" "max 0 from" 0 f s]
  by (auto simp: tree_Each_def tree_inv_def tree_recs_def max_def)

section \<open>Whole trees\<close>

lemma tree_Count_recs: "tree_inv t \<Longrightarrow> tree_Count t = int (length (tree_recs t))"
  and tree_Total_recs: "tree_inv t \<Longrightarrow> tree_Total t = recsLen (tree_recs t)"
  using wf_node_sums by (auto simp: tree_inv_def tree_recs_def tree_Count_def tree_Total_def)

lemma tree_recs_fit: "tree_inv t \<Longrightarrow> r \<in> set (tree_recs t) \<Longrightarrow> rec_fits (tw t) r"
  using wf_node_sums by (auto simp: tree_inv_def tree_recs_def)

lemma tree_recs_lens_ok: "tree_inv t \<Longrightarrow> lens_ok (tree_recs t)"
  using tree_recs_fit rec_fits_lens_ok by blast

lemma tree_find_recs:
  "tree_inv t \<Longrightarrow> 0 \<le> pos \<Longrightarrow> pos < tree_Total t \<Longrightarrow> tree_find t pos = int (loc (tree_recs t) pos)"
  using find_in_wf by (auto simp: tree_inv_def tree_recs_def tree_find_def tree_Total_def)

lemma tree_Get_recs:
  "tree_inv t \<Longrightarrow> 0 \<le> idx \<Longrightarrow> idx < tree_Count t \<Longrightarrow> tree_Get t idx = tree_recs t ! nat idx"
  using get_in_wf by (auto simp: tree_inv_def tree_recs_def tree_Get_def tree_Count_def)

lemma tree_prefix_recs:
  "tree_inv t \<Longrightarrow> 0 \<le> idx \<Longrightarrow> idx \<le> tree_Count t \<Longrightarrow> tree_prefix t idx = recsLen (take (nat idx) (tree_recs t))"
  using prefix_in_wf[of "tw t" "height (root t)" "root t" idx 0]
  by (auto simp: tree_inv_def tree_recs_def tree_prefix_def tree_Count_def)

lemma tree_At_recs:
  "tree_inv t \<Longrightarrow> 0 \<le> pos \<Longrightarrow> pos < tree_Total t \<Longrightarrow>
   tree_At t pos = (let rs = tree_recs t; k = loc rs pos in (Buf (rs ! k), Start (rs ! k) + (pos - recsLen (take k rs))))"
  using at_in_wf by (auto simp: tree_inv_def tree_recs_def tree_At_def tree_Total_def)

lemma tree_addLen_inv:
  assumes "tree_inv t" "0 \<le> idx" "idx < tree_Count t" "field_ok (tw t) (Length (tree_recs t ! nat idx) + delta)"
  shows "tree_inv (tree_addLen t idx delta)" "tw (tree_addLen t idx delta) = tw t"
    "tree_recs (tree_addLen t idx delta) =
       (tree_recs t)[nat idx := (tree_recs t ! nat idx)\<lparr>Length := Length (tree_recs t ! nat idx) + delta\<rparr>]"
proof -
  have I: "1 \<le> tw t" "tw t \<le> 8" "wf_node (tw t) (height (root t)) (root t)" "sized (root_lo (root t)) (root t)"
    using assms(1) by (auto simp: tree_inv_def)
  note A = addLen_in_wf[OF I(2,3) assms(2) assms(3)[unfolded tree_Count_def] assms(4)[unfolded tree_recs_def]]
  show "tree_inv (tree_addLen t idx delta)" "tw (tree_addLen t idx delta) = tw t"
    "tree_recs (tree_addLen t idx delta) =
       (tree_recs t)[nat idx := (tree_recs t ! nat idx)\<lparr>Length := Length (tree_recs t ! nat idx) + delta\<rparr>]"
    using A I wf_height[OF conjunct1[OF A]] by (auto simp: tree_addLen_def tree_inv_def tree_recs_def root_lo_def)
qed

section \<open>Properties\<close>

text \<open>\<open>InsertPiece\<close> puts the record at the index and nothing else moves, and whatever splits
  it causes on the way up, the tree keeps its shape invariant: packed leaves, exact cached sums,
  uniform depth, B-tree node sizes.\<close>

theorem insert_piece_correct:
  assumes "tree_inv t" "rec_fits (tw t) r" "0 \<le> idx" "idx \<le> tree_Count t"
  shows "tree_inv (InsertPiece t idx r) \<and>
    tree_recs (InsertPiece t idx r) = take (nat idx) (tree_recs t) @ r # drop (nat idx) (tree_recs t) \<and>
    tree_Count (InsertPiece t idx r) = tree_Count t + 1 \<and>
    tree_Total (InsertPiece t idx r) = tree_Total t + Length r"
  using InsertPiece_inv[OF assms] assms recsLen_simps(3)[of "take (nat idx) (tree_recs t)" "drop (nat idx) (tree_recs t)"]
  by (simp add: tree_Count_recs tree_Total_recs)

theorem insert_piece_correct_witness:
  "tree_recs (InsertPiece (NewPieceBTree 2 [piece 0 0 5]) 1 (piece 1 0 3)) = [piece 0 0 5, piece 1 0 3]"
proof -
  have f: "\<forall>r \<in> set [piece 0 0 5]. rec_fits 2 r" by (simp add: rec_fits_def field_ok_def)
  note N = NewPieceBTree_inv[OF _ _ f]
  show ?thesis
    using insert_piece_correct[of "NewPieceBTree 2 [piece 0 0 5]" "piece 1 0 3" 1] N
    by (simp add: tree_Count_recs rec_fits_def field_ok_def)
qed

text \<open>C16: \<open>DeletePiece\<close> removes exactly the record at the index and, through borrowing, merging and
  collapsing the root, leaves a tree with the invariant again.\<close>

theorem delete_piece_correct:
  assumes "tree_inv t" "0 \<le> idx" "idx < tree_Count t"
  shows "tree_inv (DeletePiece t idx) \<and>
    tree_recs (DeletePiece t idx) = take (nat idx) (tree_recs t) @ drop (nat idx + 1) (tree_recs t) \<and>
    tree_Total (DeletePiece t idx) = tree_Total t - Length (tree_Get t idx)"
proof -
  note D = DeletePiece_inv[OF assms]
  have "nat idx < length (tree_recs t)" using assms by (simp add: tree_Count_recs nat_less_iff)
  then show ?thesis
    using D assms by (simp add: tree_Total_recs tree_Get_recs recsLen_remove_nth remove_nth_def[symmetric])
qed

theorem delete_piece_correct_witness:
  "tree_recs (DeletePiece (NewPieceBTree 2 [piece 0 0 5, piece 1 0 3]) 0) = [piece 1 0 3]"
proof -
  have f: "\<forall>r \<in> set [piece 0 0 5, piece 1 0 3]. rec_fits 2 r" by (simp add: rec_fits_def field_ok_def)
  note N = NewPieceBTree_inv[OF _ _ f]
  show ?thesis
    using delete_piece_correct[of "NewPieceBTree 2 [piece 0 0 5, piece 1 0 3]" 0] N by (simp add: tree_Count_recs)
qed

text \<open>Bulk loading packs any list of records into a tree that satisfies the invariant and holds
  exactly that list.\<close>

theorem bulk_load_correct:
  assumes "1 \<le> w" "w \<le> 8" "\<forall>r \<in> set rs. rec_fits w r"
  shows "tree_inv (NewPieceBTree w rs) \<and> tree_recs (NewPieceBTree w rs) = rs \<and>
    tree_Count (NewPieceBTree w rs) = int (length rs) \<and> tree_Total (NewPieceBTree w rs) = recsLen rs"
  using NewPieceBTree_inv[OF assms] by (simp add: tree_Count_recs tree_Total_recs)

theorem bulk_load_correct_witness:
  "tree_Count (NewPieceBTree 1 (replicate 70 (piece 2 9 4))) = 70 \<and> tree_Total (NewPieceBTree 1 (replicate 70 (piece 2 9 4))) = 280"
proof -
  have "\<forall>r \<in> set (replicate 70 (piece 2 9 4)). rec_fits 1 r" by (simp add: rec_fits_def field_ok_def)
  then show ?thesis
    using bulk_load_correct[of 1 "replicate 70 (piece 2 9 4)"] by (simp add: recsLen_def sum_list_replicate map_replicate)
qed

text \<open>A position lookup finds the record whose bytes cover the position, \<open>prefix\<close> is where that
  record starts, and \<open>At\<close> is the store byte the position denotes.\<close>

theorem lookup_correct:
  assumes "tree_inv t" "0 \<le> pos" "pos < tree_Total t"
  shows "tree_prefix t (tree_find t pos) \<le> pos \<and>
    pos < tree_prefix t (tree_find t pos) + Length (tree_Get t (tree_find t pos)) \<and>
    tree_At t pos = (Buf (tree_Get t (tree_find t pos)),
      Start (tree_Get t (tree_find t pos)) + (pos - tree_prefix t (tree_find t pos)))"
proof -
  let ?rs = "tree_recs t" let ?k = "loc ?rs pos"
  have lt: "pos < recsLen ?rs" using assms by (simp add: tree_Total_recs)
  have k: "?k < length ?rs" "tree_find t pos = int ?k"
    using loc_less[OF assms(2) lt] tree_find_recs[OF assms] by auto
  have g: "tree_Get t (int ?k) = ?rs ! ?k" "tree_prefix t (int ?k) = recsLen (take ?k ?rs)"
    using assms(1) k(1) by (simp_all add: tree_Get_recs tree_prefix_recs tree_Count_recs)
  show ?thesis
    using loc_bounds[OF assms(2) lt] tree_At_recs[OF assms] unfolding k(2) g by (simp add: Let_def)
qed

theorem lookup_correct_witness:
  "tree_At (NewPieceBTree 2 [piece 0 7 5, piece 1 40 3]) 6 =
    (Buf (tree_Get (NewPieceBTree 2 [piece 0 7 5, piece 1 40 3]) (tree_find (NewPieceBTree 2 [piece 0 7 5, piece 1 40 3]) 6)),
     Start (tree_Get (NewPieceBTree 2 [piece 0 7 5, piece 1 40 3]) (tree_find (NewPieceBTree 2 [piece 0 7 5, piece 1 40 3]) 6)) +
       (6 - tree_prefix (NewPieceBTree 2 [piece 0 7 5, piece 1 40 3]) (tree_find (NewPieceBTree 2 [piece 0 7 5, piece 1 40 3]) 6)))"
proof -
  have f: "\<forall>r \<in> set [piece 0 7 5, piece 1 40 3]. rec_fits 2 r" by (simp add: rec_fits_def field_ok_def)
  note N = NewPieceBTree_inv[OF _ _ f]
  show ?thesis
    using lookup_correct[of "NewPieceBTree 2 [piece 0 7 5, piece 1 40 3]" 6] N by (simp add: tree_Total_recs)
qed

text \<open>\<open>Each\<close> visits the records from the given index in document order, passing each its index,
  until the visitor stops: the fold \<open>visit\<close> over the dropped list.\<close>

theorem each_correct:
  assumes "tree_inv t"
  shows "tree_Each t from f s = snd (visit f (max 0 from) (drop (nat from) (tree_recs t)) s)"
  by (rule tree_Each_visit[OF assms])

theorem each_correct_witness:
  "tree_Each (NewPieceBTree 2 [piece 0 7 5, piece 1 40 3]) 1 (\<lambda>k p s. (True, s @ [(k, Length p)])) [] = [(1, 3)]"
proof -
  have f: "\<forall>r \<in> set [piece 0 7 5, piece 1 40 3]. rec_fits 2 r" by (simp add: rec_fits_def field_ok_def)
  note N = NewPieceBTree_inv[OF _ _ f]
  show ?thesis using N by (subst each_correct) auto
qed

end
