(* ===== verification/NaiveBuf.thy ===== *)
theory NaiveBuf
  imports TreeInv
begin

text \<open>
  The flat-slice piece table \<open>Naive\<close> of \<open>internal/piecetable/naive.go\<close>, the oracle the tree-backed
  document is measured against, and what its operations do to the byte addresses of the document:
  insertion is \<open>put_at\<close>, removal is \<open>cut_range\<close>, a range query is \<open>sub_range\<close>.

  A callback of \<open>walk\<close> is modelled by the list of its calls; the callers fold over it.
\<close>

section \<open>The code\<close>

record naive =
  nStore :: store
  nPieces :: "PieceRec list"

definition orig_recs :: "byte list \<Rightarrow> PieceRec list" where
  "orig_recs orig = (if orig = [] then [] else [piece Original 0 (int (length orig))])"

definition NewNaive :: "byte list \<Rightarrow> naive" where
  "NewNaive orig = \<lparr>nStore = NewStore orig, nPieces = orig_recs orig\<rparr>"

fun naive_Len_loop :: "PieceRec list \<Rightarrow> int \<Rightarrow> int" where
  "naive_Len_loop [] tot = tot"
| "naive_Len_loop (p # ps) tot = naive_Len_loop ps (tot + Length p)"

definition naive_Len :: "naive \<Rightarrow> int" where
  "naive_Len n = naive_Len_loop (nPieces n) 0"

definition naive_Pieces :: "naive \<Rightarrow> int" where
  "naive_Pieces n = int (length (nPieces n))"

fun locate_loop :: "PieceRec list \<Rightarrow> nat \<Rightarrow> int \<Rightarrow> int \<Rightarrow> nat \<times> int" where
  "locate_loop [] i cur pos = (i, 0)"
| "locate_loop (p # ps) i cur pos =
     (if pos < cur + Length p then (i, pos - cur) else locate_loop ps (i + 1) (cur + Length p) pos)"

definition locate :: "PieceRec list \<Rightarrow> int \<Rightarrow> nat \<times> int" where
  "locate ps pos = locate_loop ps 0 0 pos"

definition insertRec :: "PieceRec list \<Rightarrow> nat \<Rightarrow> PieceRec \<Rightarrow> PieceRec list" where
  "insertRec a i r = slice_insert (piece 0 0 0) i r a"

definition removeRec :: "PieceRec list \<Rightarrow> nat \<Rightarrow> PieceRec list" where
  "removeRec a i = slice_remove i a"

fun insert_run :: "PieceRec list \<Rightarrow> nat \<Rightarrow> PieceRec list \<Rightarrow> PieceRec list" where
  "insert_run ps i [] = ps"
| "insert_run ps i (r # rs) = insert_run (insertRec ps i r) (i + 1) rs"

definition split_insert :: "PieceRec list \<Rightarrow> int \<Rightarrow> PieceRec list \<Rightarrow> PieceRec list" where
  "split_insert ps pos recs =
     (if recs = [] then ps
      else let (i, off) = locate ps pos
           in if 0 < off
              then let left = ps ! i;
                       ps1 = insertRec (ps[i := left\<lparr>Length := off\<rparr>]) (i + 1)
                               (piece (Buf left) (Start left + off) (Length left - off))
                   in insert_run ps1 (i + 1) recs
              else insert_run ps i recs)"

definition naive_insertRecs :: "naive \<Rightarrow> int \<Rightarrow> PieceRec list \<Rightarrow> naive" where
  "naive_insertRecs n pos recs = n\<lparr>nPieces := split_insert (nPieces n) pos recs\<rparr>"

definition naive_Insert :: "naive \<Rightarrow> author \<Rightarrow> int \<Rightarrow> byte list \<Rightarrow> naive" where
  "naive_Insert n a pos text =
     (if text = [] then n
      else let (start, st) = store_Append (nStore n) a text
           in naive_insertRecs (n\<lparr>nStore := st\<rparr>) pos [piece a start (int (length text))])"

text \<open>The switch of \<open>removeRange\<close>: dropping, trimming or splitting the piece the range starts in.\<close>

definition remove_step :: "PieceRec list \<Rightarrow> nat \<Rightarrow> int \<Rightarrow> int \<Rightarrow> PieceRec list" where
  "remove_step ps i off tk =
     (let p = ps ! i
      in if off = 0 \<and> tk = Length p then removeRec ps i
         else if off = 0 then ps[i := piece (Buf p) (Start p + tk) (Length p - tk)]
         else if off + tk = Length p then ps[i := p\<lparr>Length := off\<rparr>]
         else insertRec (ps[i := p\<lparr>Length := off\<rparr>]) (i + 1)
                (piece (Buf p) (Start p + off + tk) (Length p - off - tk)))"

lemma locate_loop_off:
  "locate_loop ps i cur pos = (j, off) \<Longrightarrow> i \<le> j \<and> j \<le> i + length ps \<and> (j < i + length ps \<longrightarrow> off < Length (ps ! (j - i)))"
  by (induction ps i cur pos rule: locate_loop.induct) (auto split: if_splits simp: nth_Cons')

lemma locate_off: "locate ps pos = (i, off) \<Longrightarrow> i \<noteq> length ps \<Longrightarrow> off < Length (ps ! i)"
  using locate_loop_off[of ps 0 0 pos i off] by (auto simp: locate_def)

function remove_loop :: "PieceRec list \<Rightarrow> int \<Rightarrow> int \<Rightarrow> PieceRec list \<Rightarrow> PieceRec list \<times> PieceRec list" where
  "remove_loop ps pos len out =
     (if 0 < len
      then let (i, off) = locate ps pos
           in if i = length ps then (out, ps)
              else let p = ps ! i;
                       tk = (if len < Length p - off then len else Length p - off)
                   in remove_loop (remove_step ps i off tk) pos (len - tk)
                        (out @ [piece (Buf p) (Start p + off) tk])
      else (out, ps))"
  by pat_completeness auto
termination
  by (relation "measure (\<lambda>(ps, pos, len, out). nat len)") (auto dest!: locate_off[OF sym])

declare remove_loop.simps [simp del]

definition naive_removeRange :: "naive \<Rightarrow> int \<Rightarrow> int \<Rightarrow> PieceRec list \<times> naive" where
  "naive_removeRange n pos0 len0 =
     (let (pos, len) = clampRange pos0 len0 (naive_Len n);
          (out, ps) = remove_loop (nPieces n) pos len []
      in (out, n\<lparr>nPieces := ps\<rparr>))"

definition naive_Delete :: "naive \<Rightarrow> int \<Rightarrow> int \<Rightarrow> naive" where
  "naive_Delete n pos len = snd (naive_removeRange n pos len)"

text \<open>One call of a \<open>walk\<close> callback: the piece, the offset in it, the bytes taken, the document offset.\<close>

type_synonym seen = "PieceRec \<times> int \<times> int \<times> int"

fun walk_loop :: "PieceRec list \<Rightarrow> int \<Rightarrow> int \<Rightarrow> int \<Rightarrow> seen list" where
  "walk_loop [] cur pos len = []"
| "walk_loop (p # ps) cur pos len =
     (if len \<le> 0 then []
      else if pos < cur + Length p
      then let off = (if pos - cur < 0 then 0 else pos - cur);
               tk = (if len < Length p - off then len else Length p - off)
           in (p, off, tk, pos) # walk_loop ps (cur + Length p) (pos + tk) (len - tk)
      else walk_loop ps (cur + Length p) pos len)"

definition naive_walk :: "naive \<Rightarrow> int \<Rightarrow> int \<Rightarrow> seen list" where
  "naive_walk n pos len = walk_loop (nPieces n) 0 pos len"

definition seen_text :: "store \<Rightarrow> seen list \<Rightarrow> byte list" where
  "seen_text st vs = concat (map (\<lambda>(p, off, tk, docOff). store_Slice st (author_of (Buf p)) (Start p + off) tk) vs)"

definition seen_spans :: "seen list \<Rightarrow> Span list" where
  "seen_spans vs = foldl (\<lambda>out (p, off, tk, docOff). appendSpan out docOff tk (author_of (Buf p))) [] vs"

definition seen_recs :: "seen list \<Rightarrow> PieceRec list" where
  "seen_recs vs = map (\<lambda>(p, off, tk, docOff). piece (Buf p) (Start p + off) tk) vs"

definition naive_Slice :: "naive \<Rightarrow> int \<Rightarrow> int \<Rightarrow> byte list" where
  "naive_Slice n pos0 len0 =
     (let (pos, len) = clampRange pos0 len0 (naive_Len n) in seen_text (nStore n) (naive_walk n pos len))"

definition naive_Spans :: "naive \<Rightarrow> int \<Rightarrow> int \<Rightarrow> Span list" where
  "naive_Spans n pos0 len0 =
     (let (pos, len) = clampRange pos0 len0 (naive_Len n) in seen_spans (naive_walk n pos len))"

definition naive_pieceRange :: "naive \<Rightarrow> int \<Rightarrow> int \<Rightarrow> PieceRec list" where
  "naive_pieceRange n pos0 len0 =
     (let (pos, len) = clampRange pos0 len0 (naive_Len n) in seen_recs (naive_walk n pos len))"

end
