(* ===== verification/NaiveSpec.thy ===== *)
theory NaiveSpec
  imports NaiveBuf
begin

text \<open>
  What the piece-list operations of \<open>internal/piecetable/naive.go\<close> mean for the bytes of the
  document, for the pieces that result, and for authorship.
\<close>

section \<open>Pieces cut out of pieces\<close>

definition pos_ok :: "PieceRec list \<Rightarrow> bool" where
  "pos_ok ps \<longleftrightarrow> (\<forall>p \<in> set ps. 0 < Length p)"

lemma pos_ok_simps [simp]:
  "pos_ok []" "pos_ok (p # ps) \<longleftrightarrow> 0 < Length p \<and> pos_ok ps" "pos_ok (ps @ qs) \<longleftrightarrow> pos_ok ps \<and> pos_ok qs"
  by (auto simp: pos_ok_def)

lemma pos_ok_lens_ok [intro]: "pos_ok ps \<Longrightarrow> lens_ok ps"
  by (auto simp: pos_ok_def lens_ok_def)

lemma pos_ok_take [intro]: "pos_ok ps \<Longrightarrow> pos_ok (take n ps)"
  and pos_ok_drop [intro]: "pos_ok ps \<Longrightarrow> pos_ok (drop n ps)"
  by (auto simp: pos_ok_def dest: in_set_takeD in_set_dropD)

definition sub_piece :: "PieceRec \<Rightarrow> PieceRec \<Rightarrow> bool" where
  "sub_piece r p \<longleftrightarrow> Buf r = Buf p \<and> Start p \<le> Start r \<and> 0 < Length r \<and>
     Start r + Length r \<le> Start p + Length p"

definition within :: "PieceRec list \<Rightarrow> PieceRec list \<Rightarrow> bool" where
  "within rs ps \<longleftrightarrow> (\<forall>r \<in> set rs. \<exists>p \<in> set ps. sub_piece r p)"

lemma within_simps [simp]:
  "within [] ps" "within (r # rs) ps \<longleftrightarrow> (\<exists>p \<in> set ps. sub_piece r p) \<and> within rs ps"
  "within (rs @ qs) ps \<longleftrightarrow> within rs ps \<and> within qs ps"
  by (auto simp: within_def)

lemma within_mono: "within rs ps \<Longrightarrow> set ps \<subseteq> set qs \<Longrightarrow> within rs qs"
  unfolding within_def by blast

lemma sub_piece_refl: "0 < Length p \<Longrightarrow> sub_piece p p"
  by (simp add: sub_piece_def)

lemma within_refl: "pos_ok ps \<Longrightarrow> within ps ps"
  by (auto simp: within_def pos_ok_def intro: sub_piece_refl)

lemma within_trans: "within as bs \<Longrightarrow> within bs cs \<Longrightarrow> within as cs"
  unfolding within_def sub_piece_def by fastforce

lemma within_pos_ok: "within rs ps \<Longrightarrow> pos_ok rs"
  by (auto simp: within_def pos_ok_def sub_piece_def)

lemma within_subset: "pos_ok ps \<Longrightarrow> set rs \<subseteq> set ps \<Longrightarrow> within rs ps"
  by (auto simp: within_def pos_ok_def intro!: bexI sub_piece_refl)

lemma sub_piece_in_store: "sub_piece r p \<Longrightarrow> rec_in_store st p \<Longrightarrow> rec_in_store st r"
  by (auto simp: sub_piece_def rec_in_store_def)

lemma within_in_store: "within rs ps \<Longrightarrow> \<forall>p \<in> set ps. rec_in_store st p \<Longrightarrow> \<forall>r \<in> set rs. rec_in_store st r"
  by (meson sub_piece_in_store within_def)

section \<open>Locating\<close>

lemma locate_loop_loc:
  "locate_loop ps i cur pos =
     (i + loc ps (pos - cur), if loc ps (pos - cur) < length ps then pos - cur - recsLen (take (loc ps (pos - cur)) ps) else 0)"
  by (induction ps i cur pos rule: locate_loop.induct) (auto simp: algebra_simps)

lemma locate_loc:
  "locate ps pos = (loc ps pos, if loc ps pos < length ps then pos - recsLen (take (loc ps pos) ps) else 0)"
  using locate_loop_loc[of ps 0 0 pos] by (simp add: locate_def)

lemma loc_le: "loc ps pos \<le> length ps"
  by (induction ps arbitrary: pos) auto

lemma loc_beyond: "recsLen ps \<le> pos \<Longrightarrow> lens_ok ps \<Longrightarrow> loc ps pos = length ps"
  by (induction ps arbitrary: pos) (use recsLen_nonneg in force)+

lemma loc_neg: "pos \<le> 0 \<Longrightarrow> pos_ok ps \<Longrightarrow> loc ps pos = 0"
  by (cases ps) auto

lemma naive_Len_loop_eq: "naive_Len_loop ps tot = tot + recsLen ps"
  by (induction ps tot rule: naive_Len_loop.induct) auto

lemma naive_Len_eq: "naive_Len n = recsLen (nPieces n)"
  by (simp add: naive_Len_def naive_Len_loop_eq)

text \<open>A piece list cut at an offset inside its \<open>loc\<close>-th piece.\<close>

lemma loc_split:
  assumes "0 \<le> pos" "pos < recsLen ps"
  obtains as p bs off where "ps = as @ p # bs" "loc ps pos = length as" "off = pos - recsLen as"
    "0 \<le> off" "off < Length p" "locate ps pos = (length as, off)"
proof -
  let ?i = "loc ps pos"
  have i: "?i < length ps" using assms by (rule loc_less)
  note b = loc_bounds[OF assms]
  show thesis
  proof (rule that[of "take ?i ps" "ps ! ?i" "drop (Suc ?i) ps" "pos - recsLen (take ?i ps)"])
    show "ps = take ?i ps @ ps ! ?i # drop (Suc ?i) ps" using i by (rule id_take_nth_drop)
    show "locate ps pos = (length (take ?i ps), pos - recsLen (take ?i ps))"
      using i by (simp add: locate_loc)
  qed (use b i in auto)
qed

section \<open>Insertion\<close>

lemma insert_run_eq: "i \<le> length ps \<Longrightarrow> insert_run ps i recs = take i ps @ recs @ drop i ps"
  by (induction ps i recs rule: insert_run.induct) (auto simp: insertRec_def slice_insert_eq)

lemma split_insert_shape:
  assumes "pos_ok ps" "recs \<noteq> []"
  shows "\<exists>ls rs. split_insert ps pos recs = ls @ recs @ rs \<and> flat ls = take (nat pos) (flat ps) \<and>
     flat rs = drop (nat pos) (flat ps) \<and> within ls ps \<and> within rs ps"
proof -
  have lo: "lens_ok ps" using assms(1) by auto
  consider "pos \<le> 0" | "recsLen ps \<le> pos" "0 < pos" | "0 < pos" "pos < recsLen ps" by linarith
  then show ?thesis
  proof cases
    case 1
    then have "split_insert ps pos recs = [] @ recs @ ps"
      using assms loc_neg[OF 1 assms(1)] by (auto simp: split_insert_def locate_loc insert_run_eq)
    then show ?thesis using 1 within_refl[OF assms(1)] by (metis append_Nil drop_0 flat_simps(1) nat_0_iff take_0 within_simps(1))
  next
    case 2
    then have "split_insert ps pos recs = ps @ recs @ []"
      using assms loc_beyond[OF 2(1) lo] by (auto simp: split_insert_def locate_loc insert_run_eq)
    moreover have "length (flat ps) \<le> nat pos" using length_flat[OF lo] 2 by linarith
    ultimately show ?thesis using within_refl[OF assms(1)] by (intro exI[of _ ps] exI[of _ "[]"]) simp
  next
    case 3
    then obtain as p bs off where s: "ps = as @ p # bs" "off = pos - recsLen as" "0 \<le> off" "off < Length p"
        "locate ps pos = (length as, off)"
      by (metis loc_split order_less_imp_le)
    have la: "int (length (flat as)) = recsLen as" using lo s(1) length_flat[of as] by simp
    have wa: "within as ps" "within bs ps" by (rule within_subset[OF assms(1)]; auto simp: s(1))+
    show ?thesis
    proof (cases "0 < off")
      case True
      let ?l = "piece (Buf p) (Start p) off" and ?r = "piece (Buf p) (Start p + off) (Length p - off)"
      have e: "p\<lparr>Length := off\<rparr> = ?l" by (cases p) simp
      have eq: "split_insert ps pos recs = (as @ [?l]) @ recs @ (?r # bs)"
        using assms(2) True s(5) e by (simp add: split_insert_def s(1) insertRec_def slice_insert_eq list_update_append insert_run_eq)
      have np: "nat pos = length (flat as) + nat off" using la s(2,3) by linarith
      have "flat (as @ [?l]) = take (nat pos) (flat ps)"
        using addrs_take[of off "Length p" "Buf p" "Start p"] s by (simp add: np)
      moreover have "flat (?r # bs) = drop (nat pos) (flat ps)"
        using addrs_drop[of off "Length p" "Buf p" "Start p"] s by (simp add: np)
      moreover have "sub_piece ?l p" "sub_piece ?r p" using True s(4) by (auto simp: sub_piece_def)
      ultimately show ?thesis
        using eq wa s(1) by (intro exI[of _ "as @ [?l]"] exI[of _ "?r # bs"]) auto
    next
      case False
      then have "split_insert ps pos recs = as @ recs @ (p # bs)"
        using assms(2) s by (simp add: split_insert_def insert_run_eq)
      moreover have "nat pos = length (flat as)" using la s(2,3) False by linarith
      moreover have "sub_piece p p" using assms(1) s(1) by (simp add: sub_piece_refl)
      ultimately show ?thesis
        using wa s(1) by (intro exI[of _ as] exI[of _ "p # bs"]) auto
    qed
  qed
qed

lemma split_insert_flat:
  "pos_ok ps \<Longrightarrow> flat (split_insert ps pos recs) = put_at pos (flat recs) (flat ps)"
  using split_insert_shape[of ps recs pos] by (cases "recs = []") (auto simp: split_insert_def put_at_def)

lemma split_insert_pieces:
  assumes "pos_ok ps" "r \<in> set (split_insert ps pos recs)"
  shows "r \<in> set recs \<or> (\<exists>p \<in> set ps. sub_piece r p)"
proof (cases "recs = []")
  case True
  then show ?thesis using assms within_refl[OF assms(1)] by (auto simp: split_insert_def within_def)
next
  case False
  then show ?thesis using split_insert_shape[OF assms(1) False, of pos] assms(2) unfolding within_def
    by (metis Un_iff set_append)
qed

section \<open>Removal\<close>

lemma remove_step_shape:
  assumes "pos_ok (as @ p # bs)" "0 \<le> off" "0 < tk" "off + tk \<le> Length p"
  shows "flat (remove_step (as @ p # bs) (length as) off tk) =
      flat as @ take (nat off) (addrs p) @ drop (nat (off + tk)) (addrs p) @ flat bs \<and>
    within (remove_step (as @ p # bs) (length as) off tk) (as @ p # bs)"
proof -
  have w: "within as (as @ p # bs)" "within bs (as @ p # bs)" by (rule within_subset[OF assms(1)]; auto)+
  have l: "flat [p\<lparr>Length := off\<rparr>] = take (nat off) (addrs p)"
    using addrs_take[of off "Length p" "Buf p" "Start p"] assms by (simp add: Length_update_addrs)
  have r: "addrs (piece (Buf p) (Start p + (off + tk)) (Length p - (off + tk))) = drop (nat (off + tk)) (addrs p)"
    using addrs_drop[of "off + tk" "Length p" "Buf p" "Start p"] assms by simp
  have sl: "0 < off \<Longrightarrow> sub_piece (p\<lparr>Length := off\<rparr>) p" using assms by (simp add: sub_piece_def)
  have sr: "off + tk < Length p \<Longrightarrow> sub_piece (piece (Buf p) (Start p + (off + tk)) (Length p - (off + tk))) p"
    using assms by (simp add: sub_piece_def)
  consider "off = 0" "tk = Length p" | "off = 0" "tk < Length p" | "0 < off" "off + tk = Length p"
    | "0 < off" "off + tk < Length p" using assms by linarith
  then show ?thesis
  proof cases
    case 1
    then show ?thesis using w by (simp add: remove_step_def removeRec_def slice_remove_eq)
  next
    case 2
    then show ?thesis using w r sr by (simp add: remove_step_def list_update_append)
  next
    case 3
    then show ?thesis using w l sl by (simp add: remove_step_def list_update_append)
  next
    case 4
    have "remove_step (as @ p # bs) (length as) off tk =
        as @ p\<lparr>Length := off\<rparr> # piece (Buf p) (Start p + (off + tk)) (Length p - (off + tk)) # bs"
      using 4 by (simp add: remove_step_def list_update_append insertRec_def slice_insert_eq algebra_simps)
    then show ?thesis using w l r sl[OF 4(1)] sr[OF 4(2)] by simp
  qed
qed

lemma cut_range_twice:
  assumes "0 \<le> pos" "0 \<le> a" "0 \<le> b" "pos + a + b \<le> int (length xs)"
  shows "cut_range pos b (cut_range pos a xs) = cut_range pos (a + b) xs"
    and "sub_range pos a xs @ sub_range pos b (cut_range pos a xs) = sub_range pos (a + b) xs"
proof -
  have n: "nat (a + b) = nat a + nat b" "nat pos \<le> length xs" "nat pos + nat a \<le> length xs" using assms by linarith+
  show "cut_range pos b (cut_range pos a xs) = cut_range pos (a + b) xs"
    using n by (simp add: cut_range_def ac_simps)
  have "drop (nat pos) (cut_range pos a xs) = drop (nat a) (drop (nat pos) xs)"
    using n by (simp add: cut_range_def ac_simps)
  then show "sub_range pos a xs @ sub_range pos b (cut_range pos a xs) = sub_range pos (a + b) xs"
    unfolding sub_range_def n(1) take_add by simp
qed

lemma remove_step_flat:
  assumes "pos_ok ps" "0 \<le> pos" "pos < recsLen ps" "locate ps pos = (i, off)" "0 < tk" "off + tk \<le> Length (ps ! i)"
  shows "flat (remove_step ps i off tk) = cut_range pos tk (flat ps)"
    and "within (remove_step ps i off tk) ps"
    and "addrs (piece (Buf (ps ! i)) (Start (ps ! i) + off) tk) = sub_range pos tk (flat ps)"
    and "sub_piece (piece (Buf (ps ! i)) (Start (ps ! i) + off) tk) (ps ! i)" "i < length ps" "0 \<le> off"
proof -
  obtain as p bs where s: "ps = as @ p # bs" "off = pos - recsLen as" "0 \<le> off" "i = length as"
    using loc_split[OF assms(2,3)] assms(4) by (metis Pair_inject)
  have lp: "off + tk \<le> Length p" using assms(6) s by simp
  note S = remove_step_shape[OF assms(1)[unfolded s(1)] s(3) assms(5) lp]
  have la: "int (length (flat as)) = recsLen as"
    using assms(1) s(1) length_flat[OF pos_ok_lens_ok, of as] by simp
  have np: "nat pos = length (flat as) + nat off" using la s(2,3) by linarith
  have nt: "nat (off + tk) = nat off + nat tk" using s(3) assms(5) by linarith
  have "nat off + nat tk \<le> length (addrs p)" using lp s(3) assms(5) by simp
  then show "flat (remove_step ps i off tk) = cut_range pos tk (flat ps)"
    using S nt by (simp add: s(1,4) cut_range_def np)
  show "within (remove_step ps i off tk) ps" using S s(1,4) by simp
  show "addrs (piece (Buf (ps ! i)) (Start (ps ! i) + off) tk) = sub_range pos tk (flat ps)"
    using addrs_sub[of off tk "Length p" "Buf p" "Start p"] lp s(3) assms(5) \<open>nat off + nat tk \<le> length (addrs p)\<close>
    by (simp add: s(1,4) sub_range_def np)
  show "sub_piece (piece (Buf (ps ! i)) (Start (ps ! i) + off) tk) (ps ! i)" "i < length ps" "0 \<le> off"
    using lp s assms(5) by (auto simp: sub_piece_def)
qed

lemma remove_loop_spec:
  assumes "pos_ok ps" "0 \<le> pos" "pos + len \<le> recsLen ps" "0 \<le> len"
  shows "\<exists>rs ps'. remove_loop ps pos len out = (out @ rs, ps') \<and> flat rs = sub_range pos len (flat ps) \<and>
    flat ps' = cut_range pos len (flat ps) \<and> within rs ps \<and> within ps' ps"
  using assms
proof (induction ps pos len out rule: remove_loop.induct)
  case (1 ps pos len out)
  show ?case
  proof (cases "0 < len")
    case False
    then show ?thesis using "1.prems" within_refl by (subst remove_loop.simps) auto
  next
    case True
    have lt: "pos < recsLen ps" using "1.prems"(3) True by linarith
    obtain i off where l: "locate ps pos = (i, off)" by fastforce
    let ?p = "ps ! i"
    let ?tk = "if len < Length ?p - off then len else Length ?p - off"
    let ?r = "piece (Buf ?p) (Start ?p + off) ?tk" and ?ps = "remove_step ps i off ?tk"
    have il: "i < length ps" using l loc_less[OF "1.prems"(2) lt] by (simp add: locate_loc)
    then have "off < Length ?p" using locate_off[OF l] by simp
    then have tk: "0 < ?tk" "off + ?tk \<le> Length ?p" "?tk \<le> len" using True by auto
    note S = remove_step_flat[OF "1.prems"(1,2) lt l tk(1,2)]
    have len: "int (length (flat ps)) = recsLen ps" using "1.prems"(1) length_flat[of ps] by auto
    have pk: "pos_ok ?ps" using S(2) by (rule within_pos_ok)
    have "recsLen ?ps = recsLen ps - ?tk"
      using length_flat[OF pos_ok_lens_ok[OF pk]] S(1) len length_cut_range[of pos ?tk "flat ps"] "1.prems"(2,3) tk by auto
    then obtain rs ps' where R: "remove_loop ?ps pos (len - ?tk) (out @ [?r]) = (out @ ?r # rs, ps')"
        "flat rs = sub_range pos (len - ?tk) (flat ?ps)" "flat ps' = cut_range pos (len - ?tk) (flat ?ps)"
        "within rs ?ps" "within ps' ?ps"
      using "1.IH"[OF True l[symmetric] refl _ refl refl] il pk "1.prems" tk by auto
    have "remove_loop ps pos len out = (out @ ?r # rs, ps')"
      using R(1) True l il by (subst remove_loop.simps) (simp add: Let_def)
    moreover have "flat (?r # rs) = sub_range pos len (flat ps)" "flat ps' = cut_range pos len (flat ps)"
      using cut_range_twice[of pos ?tk "len - ?tk" "flat ps"] R(2,3) S(1,3) "1.prems"(2,3) len tk by simp_all
    moreover have "within (?r # rs) ps" "within ps' ps"
      using R(4,5) S(2,4) il within_trans by auto
    ultimately show ?thesis by blast
  qed
qed


section \<open>Range queries\<close>

lemma take_drop_over: "k \<le> length xs \<Longrightarrow> take (length xs - k + m) (drop k (xs @ ys)) = drop k xs @ take m ys"
  by simp

lemma walk_loop_spec:
  assumes "pos_ok ps" "cur \<le> pos" "0 \<le> len" "pos + len - cur \<le> recsLen ps"
  shows "flat (seen_recs (walk_loop ps cur pos len)) = sub_range (pos - cur) len (flat ps) \<and>
    within (seen_recs (walk_loop ps cur pos len)) ps"
  using assms
proof (induction ps cur pos len rule: walk_loop.induct)
  case (1 cur pos len)
  then show ?case by (simp add: seen_recs_def sub_range_def)
next
  case (2 p ps cur pos len)
  have lp: "0 < Length p" "length (addrs p) = nat (Length p)" using "2.prems" by auto
  consider "len = 0" | "0 < len" "pos < cur + Length p" | "0 < len" "cur + Length p \<le> pos" using "2.prems" by linarith
  then show ?case
  proof cases
    case 1
    then show ?thesis by (simp add: seen_recs_def)
  next
    case 2
    let ?off = "pos - cur"
    let ?tk = "if len < Length p - ?off then len else Length p - ?off"
    have w: "walk_loop (p # ps) cur pos len = (p, ?off, ?tk, pos) # walk_loop ps (cur + Length p) (pos + ?tk) (len - ?tk)"
      using 2 "2.prems"(2) by (simp add: Let_def)
    have sp: "sub_piece (piece (Buf p) (Start p + ?off) ?tk) p"
      using 2 "2.prems"(2) by (auto simp: sub_piece_def)
    have a: "addrs (piece (Buf p) (Start p + ?off) ?tk) = take (nat ?tk) (drop (nat ?off) (addrs p))"
      using addrs_sub[of ?off ?tk "Length p" "Buf p" "Start p"] 2 "2.prems"(2) by auto
    show ?thesis
    proof (cases "len < Length p - ?off")
      case True
      then have tail: "walk_loop ps (cur + Length p) (pos + ?tk) (len - ?tk) = []" by (cases ps) auto
      show ?thesis
        using a sp True lp "2.prems"(2) unfolding w tail by (simp add: seen_recs_def sub_range_def)
    next
      case False
      have IH: "flat (seen_recs (walk_loop ps (cur + Length p) (pos + ?tk) (len - ?tk))) =
          sub_range (pos + ?tk - (cur + Length p)) (len - ?tk) (flat ps) \<and>
          within (seen_recs (walk_loop ps (cur + Length p) (pos + ?tk) (len - ?tk))) ps"
        using "2.IH"(1)[OF _ 2(2) refl refl] 2 "2.prems" False by simp
      have k: "nat ?off \<le> length (addrs p)" "nat len = length (addrs p) - nat ?off + nat (len - (Length p - ?off))"
        using False 2 "2.prems" lp by linarith+
      have "sub_range ?off len (flat (p # ps)) =
          drop (nat ?off) (addrs p) @ take (nat (len - (Length p - ?off))) (flat ps)"
        unfolding sub_range_def k(2) flat_simps by (rule take_drop_over[OF k(1)])
      moreover have "sub_range (pos + ?tk - (cur + Length p)) (len - ?tk) (flat ps) = take (nat (len - (Length p - ?off))) (flat ps)"
        using False by (simp add: sub_range_def)
      moreover have "addrs (piece (Buf p) (Start p + ?off) ?tk) = drop (nat ?off) (addrs p)"
        unfolding a using False lp 2 "2.prems"(2) by (intro take_all) auto
      ultimately show ?thesis
        using IH sp unfolding w by (auto simp: seen_recs_def within_def)
    qed
  next
    case 3
    have w: "walk_loop (p # ps) cur pos len = walk_loop ps (cur + Length p) pos len" using 3 by simp
    have IH: "flat (seen_recs (walk_loop ps (cur + Length p) pos len)) =
          sub_range (pos - (cur + Length p)) len (flat ps) \<and>
          within (seen_recs (walk_loop ps (cur + Length p) pos len)) ps"
      using "2.IH"(2) 3 "2.prems" by simp
    have "nat (pos - cur) = nat (Length p) + nat (pos - (cur + Length p))" using 3 lp(1) by linarith
    then have "sub_range (pos - cur) len (flat (p # ps)) = sub_range (pos - (cur + Length p)) len (flat ps)"
      using lp(2) by (simp add: sub_range_def)
    then show ?thesis using IH unfolding w by (auto simp: within_def)
  qed
qed

text \<open>The visits of a walk tile the range: each starts where the previous one ended.\<close>

fun tiles :: "int \<Rightarrow> seen list \<Rightarrow> bool" where
  "tiles pos [] \<longleftrightarrow> True"
| "tiles pos ((p, off, tk, d) # vs) \<longleftrightarrow> d = pos \<and> 0 < tk \<and> tiles (pos + tk) vs"

lemma walk_loop_tiles:
  "pos_ok ps \<Longrightarrow> cur \<le> pos \<or> len \<le> 0 \<Longrightarrow> tiles pos (walk_loop ps cur pos len)"
  by (induction ps cur pos len rule: walk_loop.induct) (auto simp: Let_def)

lemma seen_text_recs: "seen_text st vs = recs_text st (seen_recs vs)"
  by (simp add: seen_text_def recs_text_def seen_recs_def comp_def rec_text_def split_def)

section \<open>Spans\<close>

text \<open>The authors of a span list, byte by byte, and spans that abut in document order with the
  author changing at every boundary.\<close>

definition span_authors :: "Span list \<Rightarrow> author list" where
  "span_authors ss = concat (map (\<lambda>s. replicate (nat (sLen s)) (sAuthor s)) ss)"

fun spans_ok :: "int \<Rightarrow> Span list \<Rightarrow> bool" where
  "spans_ok pos [] \<longleftrightarrow> True"
| "spans_ok pos [s] \<longleftrightarrow> sOff s = pos \<and> 0 < sLen s"
| "spans_ok pos (s # t # ss) \<longleftrightarrow> sOff s = pos \<and> 0 < sLen s \<and> sAuthor s \<noteq> sAuthor t \<and> spans_ok (pos + sLen s) (t # ss)"

definition spans_end :: "int \<Rightarrow> Span list \<Rightarrow> int" where
  "spans_end pos ss = (if ss = [] then pos else sOff (last ss) + sLen (last ss))"

lemma spans_ok_snoc:
  "spans_ok pos (ss @ [s]) \<longleftrightarrow> spans_ok pos ss \<and> sOff s = spans_end pos ss \<and> 0 < sLen s \<and>
     (ss \<noteq> [] \<longrightarrow> sAuthor (last ss) \<noteq> sAuthor s)"
  by (induction pos ss rule: spans_ok.induct) (auto simp: spans_end_def)

lemma appendSpan_ok:
  assumes "spans_ok pos ss" "0 < len" "off = spans_end pos ss"
  shows "spans_ok pos (appendSpan ss off len a)" "spans_end pos (appendSpan ss off len a) = off + len"
    "span_authors (appendSpan ss off len a) = span_authors ss @ replicate (nat len) a"
proof -
  have "spans_ok pos (appendSpan ss off len a) \<and> spans_end pos (appendSpan ss off len a) = off + len \<and>
    span_authors (appendSpan ss off len a) = span_authors ss @ replicate (nat len) a"
  proof (cases "ss = []")
    case True
    then show ?thesis using assms by (simp add: appendSpan_def spans_end_def span_authors_def)
  next
    case False
    then obtain qs s where s: "ss = qs @ [s]" by (cases ss rule: rev_cases) auto
    have ps: "0 < sLen s" using assms(1) by (simp add: s spans_ok_snoc)
    have e: "sOff s + sLen s = off" using assms(3) by (simp add: s spans_end_def)
    show ?thesis
    proof (cases "sAuthor s = a")
      case True
      then show ?thesis
        using assms ps e by (simp add: appendSpan_def s spans_ok_snoc spans_end_def span_authors_def
          replicate_add[symmetric] nat_add_distrib)
    next
      case False
      then have "appendSpan ss off len a = (qs @ [s]) @ [\<lparr>sOff = off, sLen = len, sAuthor = a\<rparr>]"
        using assms(2) by (simp add: appendSpan_def s)
      moreover have "spans_ok pos ((qs @ [s]) @ [\<lparr>sOff = off, sLen = len, sAuthor = a\<rparr>])"
        using assms s False e unfolding spans_ok_snoc[of pos "qs @ [s]"] by (simp add: spans_end_def)
      ultimately show ?thesis by (simp add: s spans_end_def span_authors_def)
    qed
  qed
  then show "spans_ok pos (appendSpan ss off len a)" "spans_end pos (appendSpan ss off len a) = off + len"
    "span_authors (appendSpan ss off len a) = span_authors ss @ replicate (nat len) a" by auto
qed

lemma addrs_authors [simp]: "map (\<lambda>a. author_of (fst a)) (addrs p) = replicate (nat (Length p)) (author_of (Buf p))"
  by (simp add: addrs_def comp_def map_replicate_const)

lemma span_fold_ok:
  assumes "spans_ok pos ss" "tiles (spans_end pos ss) vs"
  shows "spans_ok pos (foldl (\<lambda>out (p, off, tk, d). appendSpan out d tk (author_of (Buf p))) ss vs) \<and>
    span_authors (foldl (\<lambda>out (p, off, tk, d). appendSpan out d tk (author_of (Buf p))) ss vs) =
      span_authors ss @ map (author_of \<circ> fst) (flat (seen_recs vs))"
  using assms
proof (induction vs arbitrary: ss)
  case Nil
  then show ?case by (simp add: seen_recs_def)
next
  case (Cons v vs)
  obtain p off tk d where v: "v = (p, off, tk, d)" by (cases v) auto
  have d: "d = spans_end pos ss" "0 < tk" "tiles (d + tk) vs" using Cons.prems(2) v by auto
  show ?case
    using Cons.IH[of "appendSpan ss d tk (author_of (Buf p))"] appendSpan_ok[OF Cons.prems(1) d(2,1)] d v
    by (simp add: seen_recs_def comp_def)
qed

lemma seen_spans_ok:
  "tiles pos vs \<Longrightarrow> spans_ok pos (seen_spans vs) \<and> span_authors (seen_spans vs) = map (author_of \<circ> fst) (flat (seen_recs vs))"
  using span_fold_ok[of pos "[]" vs] by (simp add: seen_spans_def spans_end_def span_authors_def)

end
