(* ===== verification/DocBuf.thy ===== *)
theory DocBuf
  imports TreeLoad NaiveSpec
begin

text \<open>
  The resident document \<open>Doc\<close> of \<open>internal/piecetable/doc.go\<close>: the piece tree with the text
  store, and its exact refinement of the flat piece list of \<open>naive.go\<close>. Every operation of the
  tree-backed document leaves the very piece list the oracle computes.
\<close>

section \<open>The code\<close>

record doc =
  dStore :: store
  dTree :: PieceBTree

definition NewDoc :: "byte list \<Rightarrow> int \<Rightarrow> doc" where
  "NewDoc orig width =
     (let w = (if width \<le> 0 then WidthFor (int (length orig) + 2 ^ 20) else nat width)
      in \<lparr>dStore = NewStore orig, dTree = NewPieceBTree w (orig_recs orig)\<rparr>)"

definition doc_Len :: "doc \<Rightarrow> int" where "doc_Len d = tree_Total (dTree d)"
definition doc_Pieces :: "doc \<Rightarrow> int" where "doc_Pieces d = tree_Count (dTree d)"

definition splitAt :: "PieceBTree \<Rightarrow> int \<Rightarrow> int \<times> PieceBTree" where
  "splitAt t pos0 =
     (if tree_Count t = 0 then (0, t)
      else if tree_Total t \<le> pos0 then (tree_Count t, t)
      else let pos = (if pos0 < 0 then 0 else pos0);
               i = tree_find t pos;
               off = pos - tree_prefix t i
           in if off = 0 then (i, t)
              else let old = tree_Get t i;
                       t1 = tree_addLen t i (off - Length old)
                   in (i + 1, InsertPiece t1 (i + 1) (piece (Buf old) (Start old + off) (Length old - off))))"

fun tree_insert_run :: "PieceBTree \<Rightarrow> int \<Rightarrow> PieceRec list \<Rightarrow> PieceBTree" where
  "tree_insert_run t i [] = t"
| "tree_insert_run t i (r # rs) = tree_insert_run (InsertPiece t i r) (i + 1) rs"

definition tree_insertRecs :: "PieceBTree \<Rightarrow> int \<Rightarrow> PieceRec list \<Rightarrow> PieceBTree" where
  "tree_insertRecs t pos recs =
     (if recs = [] then t else let (i, t1) = splitAt t pos in tree_insert_run t1 i recs)"

definition doc_insertRecs :: "doc \<Rightarrow> int \<Rightarrow> PieceRec list \<Rightarrow> doc" where
  "doc_insertRecs d pos recs = d\<lparr>dTree := tree_insertRecs (dTree d) pos recs\<rparr>"

definition doc_Insert :: "doc \<Rightarrow> author \<Rightarrow> int \<Rightarrow> byte list \<Rightarrow> doc" where
  "doc_Insert d a pos text =
     (if text = [] then d
      else let (start, st) = store_Append (dStore d) a text
           in doc_insertRecs (d\<lparr>dStore := st\<rparr>) pos [piece a start (int (length text))])"

definition tree_remove_step :: "PieceBTree \<Rightarrow> int \<Rightarrow> int \<Rightarrow> int \<Rightarrow> PieceBTree" where
  "tree_remove_step t i off tk =
     (let p = tree_Get t i
      in if off = 0 \<and> tk = Length p then DeletePiece t i
         else if off = 0
         then InsertPiece (DeletePiece t i) i (piece (Buf p) (Start p + tk) (Length p - tk))
         else if off + tk = Length p then tree_addLen t i (- tk)
         else InsertPiece (tree_addLen t i (off - Length p)) (i + 1)
                (piece (Buf p) (Start p + off + tk) (Length p - off - tk)))"

text \<open>The loop ends because every pass takes at least a byte, which only a well-formed tree
  guarantees; not ending is the value \<open>None\<close>.\<close>

partial_function (option) tree_remove_loop ::
  "PieceBTree \<Rightarrow> int \<Rightarrow> int \<Rightarrow> PieceRec list \<Rightarrow> (PieceRec list \<times> PieceBTree) option" where
  "tree_remove_loop t pos len out =
     (if 0 < len
      then let i = tree_find t pos;
               p = tree_Get t i;
               off = pos - tree_prefix t i;
               tk = (if len < Length p - off then len else Length p - off)
           in tree_remove_loop (tree_remove_step t i off tk) pos (len - tk)
                (out @ [piece (Buf p) (Start p + off) tk])
      else Some (out, t))"

declare tree_remove_loop.simps [code]

definition doc_removeRange :: "doc \<Rightarrow> int \<Rightarrow> int \<Rightarrow> (PieceRec list \<times> doc) option" where
  "doc_removeRange d pos0 len0 =
     (let (pos, len) = clampRange pos0 len0 (doc_Len d)
      in case tree_remove_loop (dTree d) pos len [] of
           None \<Rightarrow> None
         | Some (out, t) \<Rightarrow> Some (out, d\<lparr>dTree := t\<rparr>))"

definition doc_Delete :: "doc \<Rightarrow> int \<Rightarrow> int \<Rightarrow> doc option" where
  "doc_Delete d pos len = map_option snd (doc_removeRange d pos len)"

text \<open>The visitor \<open>walk\<close> hands to \<open>Each\<close>: position, remaining length, piece start, calls so far.\<close>

definition walk_visit :: "int \<Rightarrow> PieceRec \<Rightarrow> int \<times> int \<times> int \<times> seen list \<Rightarrow> bool \<times> (int \<times> int \<times> int \<times> seen list)" where
  "walk_visit k p s =
     (case s of (pos, len, cur, vs) \<Rightarrow>
        if len \<le> 0 then (False, s)
        else let off = (if pos - cur < 0 then 0 else pos - cur);
                 tk = (if len < Length p - off then len else Length p - off)
             in if 0 < tk then (True, pos + tk, len - tk, cur + Length p, vs @ [(p, off, tk, pos)])
                else (True, pos, len, cur + Length p, vs))"

definition doc_walk :: "doc \<Rightarrow> int \<Rightarrow> int \<Rightarrow> seen list" where
  "doc_walk d pos len =
     (if len \<le> 0 \<or> tree_Count (dTree d) = 0 then []
      else let i = tree_find (dTree d) pos; cur = tree_prefix (dTree d) i
           in snd (snd (snd (tree_Each (dTree d) i walk_visit (pos, len, cur, [])))))"

definition doc_Slice :: "doc \<Rightarrow> int \<Rightarrow> int \<Rightarrow> byte list" where
  "doc_Slice d pos0 len0 =
     (let (pos, len) = clampRange pos0 len0 (doc_Len d) in seen_text (dStore d) (doc_walk d pos len))"

definition doc_Spans :: "doc \<Rightarrow> int \<Rightarrow> int \<Rightarrow> Span list" where
  "doc_Spans d pos0 len0 =
     (let (pos, len) = clampRange pos0 len0 (doc_Len d) in seen_spans (doc_walk d pos len))"

definition doc_pieceRange :: "doc \<Rightarrow> int \<Rightarrow> int \<Rightarrow> PieceRec list" where
  "doc_pieceRange d pos0 len0 =
     (let (pos, len) = clampRange pos0 len0 (doc_Len d) in seen_recs (doc_walk d pos len))"

section \<open>Pieces whose records the tree can hold\<close>

text \<open>The whole extent of the piece has to be addressable, since a split stores offsets inside it.\<close>

definition piece_fits :: "nat \<Rightarrow> PieceRec \<Rightarrow> bool" where
  "piece_fits w r \<longleftrightarrow> 0 \<le> Buf r \<and> Buf r < 256 \<and> 0 \<le> Start r \<and> 0 < Length r \<and> field_ok w (Start r + Length r)"

lemma piece_fits_rec: "piece_fits w r \<Longrightarrow> rec_fits w r"
  by (auto simp: piece_fits_def rec_fits_def field_ok_def)

lemma piece_fits_sub: "piece_fits w p \<Longrightarrow> sub_piece r p \<Longrightarrow> piece_fits w r"
  by (auto simp: piece_fits_def sub_piece_def field_ok_def)

definition ptree_inv :: "PieceBTree \<Rightarrow> bool" where
  "ptree_inv t \<longleftrightarrow> tree_inv t \<and> (\<forall>r \<in> set (tree_recs t). piece_fits (tw t) r)"

lemma ptree_invD: "ptree_inv t \<Longrightarrow> tree_inv t" "ptree_inv t \<Longrightarrow> pos_ok (tree_recs t)"
  by (auto simp: ptree_inv_def pos_ok_def piece_fits_def)

lemma ptree_Count: "ptree_inv t \<Longrightarrow> tree_Count t = int (length (tree_recs t))"
  and ptree_Total: "ptree_inv t \<Longrightarrow> tree_Total t = recsLen (tree_recs t)"
  by (simp_all add: ptree_invD tree_Count_recs tree_Total_recs)

section \<open>The edits refine the flat list\<close>

lemma set_remove_nth: "set (remove_nth k xs) \<subseteq> set xs"
  by (auto simp: remove_nth_def dest: in_set_takeD in_set_dropD)

lemma ptree_insert:
  assumes "ptree_inv t" "piece_fits (tw t) r" "i \<le> length (tree_recs t)"
  shows "ptree_inv (InsertPiece t (int i) r)" "tree_recs (InsertPiece t (int i) r) = insertRec (tree_recs t) i r"
    "tw (InsertPiece t (int i) r) = tw t"
proof -
  note I = InsertPiece_inv[OF ptree_invD(1)[OF assms(1)] piece_fits_rec[OF assms(2)], of "int i"]
  have le: "int i \<le> tree_Count t" using assms(3) ptree_Count[OF assms(1)] by simp
  have set: "set (take i (tree_recs t) @ r # drop i (tree_recs t)) = insert r (set (tree_recs t))" by (rule set_insert_at)
  show "tw (InsertPiece t (int i) r) = tw t" using I(3) le by simp
  moreover show "tree_recs (InsertPiece t (int i) r) = insertRec (tree_recs t) i r"
    using I(2) le assms(3) by (simp add: insertRec_def slice_insert_eq)
  ultimately show "ptree_inv (InsertPiece t (int i) r)"
    using I(1,2) le set assms(1,2) by (simp add: ptree_inv_def)
qed

lemma ptree_addLen:
  assumes "ptree_inv t" "i < length (tree_recs t)" "n = Length (tree_recs t ! i) + delta" "0 < n" "n \<le> Length (tree_recs t ! i)"
  shows "ptree_inv (tree_addLen t (int i) delta)" "tw (tree_addLen t (int i) delta) = tw t"
    "tree_recs (tree_addLen t (int i) delta) = (tree_recs t)[i := (tree_recs t ! i)\<lparr>Length := n\<rparr>]"
proof -
  let ?r = "tree_recs t ! i"
  have f: "piece_fits (tw t) ?r" using assms(1,2) by (simp add: ptree_inv_def)
  then have fo: "field_ok (tw t) (Length ?r + delta)" using assms(3-5) by (auto simp: piece_fits_def field_ok_def)
  have lt: "int i < tree_Count t" using assms(2) ptree_Count[OF assms(1)] by simp
  note A = tree_addLen_inv[OF ptree_invD(1)[OF assms(1)] _ lt]
  show w: "tw (tree_addLen t (int i) delta) = tw t"
    and r: "tree_recs (tree_addLen t (int i) delta) = (tree_recs t)[i := ?r\<lparr>Length := n\<rparr>]"
    using A fo assms(3) by auto
  have "piece_fits (tw t) (?r\<lparr>Length := n\<rparr>)" using f assms(4,5) by (auto simp: piece_fits_def field_ok_def)
  moreover have "set ((tree_recs t)[i := ?r\<lparr>Length := n\<rparr>]) \<subseteq> insert (?r\<lparr>Length := n\<rparr>) (set (tree_recs t))"
    by (rule set_update_subset_insert)
  ultimately show "ptree_inv (tree_addLen t (int i) delta)"
    using A(1) fo assms(1) w r unfolding ptree_inv_def by auto
qed

lemma ptree_delete:
  assumes "ptree_inv t" "i < length (tree_recs t)"
  shows "ptree_inv (DeletePiece t (int i))" "tree_recs (DeletePiece t (int i)) = removeRec (tree_recs t) i"
    "tw (DeletePiece t (int i)) = tw t"
proof -
  have lt: "int i < tree_Count t" using assms(2) ptree_Count[OF assms(1)] by simp
  note D = DeletePiece_inv[OF ptree_invD(1)[OF assms(1)] _ lt]
  show w: "tw (DeletePiece t (int i)) = tw t"
    and r: "tree_recs (DeletePiece t (int i)) = removeRec (tree_recs t) i"
    using D assms(2) by (auto simp: removeRec_def slice_remove_eq remove_nth_def)
  show "ptree_inv (DeletePiece t (int i))"
    using D(1,2) assms(1) w set_remove_nth[of i "tree_recs t"] by (auto simp: ptree_inv_def)
qed

lemma ptree_Get: "ptree_inv t \<Longrightarrow> i < length (tree_recs t) \<Longrightarrow> tree_Get t (int i) = tree_recs t ! i"
  using tree_Get_recs[OF ptree_invD(1), of t "int i"] ptree_Count[of t] by simp

lemma ptree_prefix: "ptree_inv t \<Longrightarrow> i \<le> length (tree_recs t) \<Longrightarrow> tree_prefix t (int i) = recsLen (take i (tree_recs t))"
  using tree_prefix_recs[OF ptree_invD(1), of t "int i"] ptree_Count[of t] by simp

lemma ptree_insert_run:
  assumes "ptree_inv t" "\<forall>r \<in> set rs. piece_fits (tw t) r" "i \<le> length (tree_recs t)"
  shows "ptree_inv (tree_insert_run t (int i) rs) \<and> tw (tree_insert_run t (int i) rs) = tw t \<and>
    tree_recs (tree_insert_run t (int i) rs) = insert_run (tree_recs t) i rs"
  using assms
proof (induction rs arbitrary: t i)
  case Nil
  then show ?case by simp
next
  case (Cons r rs)
  note I = ptree_insert[OF Cons.prems(1) _ Cons.prems(3), of r]
  have "Suc i \<le> length (insertRec (tree_recs t) i r)" using Cons.prems(3) by (simp add: insertRec_def slice_insert_eq)
  then show ?case using Cons.IH[of "InsertPiece t (int i) r" "Suc i"] I Cons.prems(2) by (simp add: add.commute)
qed

text \<open>Position lookups agree with \<open>locate\<close>.\<close>

lemma ptree_locate:
  assumes "ptree_inv t" "0 \<le> pos" "pos < tree_Total t" "locate (tree_recs t) pos = (i, off)"
  shows "tree_find t pos = int i" "tree_prefix t (int i) = pos - off" "i < length (tree_recs t)"
    "tree_Get t (int i) = tree_recs t ! i" "0 \<le> off" "off < Length (tree_recs t ! i)"
proof -
  have lt: "pos < recsLen (tree_recs t)" using assms ptree_Total by simp
  have i: "i = loc (tree_recs t) pos" "i < length (tree_recs t)"
    using assms(4) loc_less[OF assms(2) lt] by (auto simp: locate_loc)
  then have o: "off = pos - recsLen (take i (tree_recs t))" using assms(4) by (simp add: locate_loc)
  show "tree_find t pos = int i" using assms i by (simp add: tree_find_recs ptree_invD)
  show "tree_prefix t (int i) = pos - off" using assms(1) i o by (simp add: ptree_prefix)
  show "i < length (tree_recs t)" by (rule i(2))
  show "tree_Get t (int i) = tree_recs t ! i" using assms(1) i by (simp add: ptree_Get)
  show "0 \<le> off" "off < Length (tree_recs t ! i)"
    using loc_bounds[OF assms(2) lt] i o by auto
qed

lemma recsLen_pos: "pos_ok ps \<Longrightarrow> ps \<noteq> [] \<Longrightarrow> 0 < recsLen ps"
  by (cases ps) (auto intro: add_pos_nonneg recsLen_nonneg)

lemma tree_insertRecs_refines:
  assumes "ptree_inv t" "\<forall>r \<in> set recs. piece_fits (tw t) r"
  shows "ptree_inv (tree_insertRecs t pos recs) \<and> tw (tree_insertRecs t pos recs) = tw t \<and>
    tree_recs (tree_insertRecs t pos recs) = split_insert (tree_recs t) pos recs"
proof (cases "recs = []")
  case True
  then show ?thesis using assms by (simp add: tree_insertRecs_def split_insert_def)
next
  case False
  let ?ps = "tree_recs t"
  have pk: "pos_ok ?ps" using assms(1) by (rule ptree_invD)
  have cnt: "tree_Count t = int (length ?ps)" "tree_Total t = recsLen ?ps"
    using assms(1) by (auto simp: ptree_Count ptree_Total)
  have nn: "0 \<le> recsLen ?ps" using pk recsLen_nonneg pos_ok_lens_ok by blast
  consider "?ps = []" | "?ps \<noteq> []" "recsLen ?ps \<le> pos" | "?ps \<noteq> []" "pos < recsLen ?ps" by linarith
  then show ?thesis
  proof cases
    case 1
    then have "splitAt t pos = (0, t)" using cnt by (simp add: splitAt_def)
    then show ?thesis
      using ptree_insert_run[OF assms, of 0] False 1 by (simp add: tree_insertRecs_def split_insert_def locate_def)
  next
    case 2
    then have "splitAt t pos = (int (length ?ps), t)" using cnt by (simp add: splitAt_def)
    moreover have "locate ?ps pos = (length ?ps, 0)"
      using loc_beyond[OF 2(2) pos_ok_lens_ok[OF pk]] by (simp add: locate_loc)
    ultimately show ?thesis
      using ptree_insert_run[OF assms, of "length ?ps"] False by (simp add: tree_insertRecs_def split_insert_def)
  next
    case 3
    let ?pos = "if pos < 0 then 0 else pos"
    have "0 < recsLen ?ps" using recsLen_pos[OF pk 3(1)] .
    then have p: "0 \<le> ?pos" "?pos < tree_Total t" using 3 cnt by auto
    obtain i off where l: "locate ?ps ?pos = (i, off)" by fastforce
    note L = ptree_locate[OF assms(1) p l]
    show ?thesis
    proof (cases "off = 0")
      case True
      have "splitAt t pos = (int i, t)" using 3 cnt L True by (simp add: splitAt_def Let_def)
      moreover have "\<exists>o'. locate ?ps pos = (i, o') \<and> o' \<le> 0"
        using l True loc_neg[OF _ pk, of pos] loc_neg[OF _ pk, of 0] by (cases "pos < 0") (auto simp: locate_loc)
      ultimately show ?thesis
        using ptree_insert_run[OF assms, of i] L(3) False by (auto simp: tree_insertRecs_def split_insert_def)
    next
      case off: False
      have np: "\<not> pos < 0"
        using off l loc_neg[OF _ pk, of 0] by (auto simp: locate_loc split: if_splits)
      let ?p = "?ps ! i" let ?r = "piece (Buf ?p) (Start ?p + off) (Length ?p - off)"
      note A = ptree_addLen[OF assms(1) L(3), of off "off - Length ?p"]
      let ?t1 = "tree_addLen t (int i) (off - Length ?p)"
      have fit: "piece_fits (tw t) ?p" using assms(1) L(3) by (simp add: ptree_inv_def)
      then have fr: "piece_fits (tw ?t1) ?r" using L(5,6) off A by (auto simp: piece_fits_def)
      have a1: "ptree_inv ?t1" "tree_recs ?t1 = ?ps[i := ?p\<lparr>Length := off\<rparr>]" "tw ?t1 = tw t" using A L(5,6) off by auto
      have le: "Suc i \<le> length (tree_recs ?t1)" using a1 L(3) by simp
      note B = ptree_insert[OF a1(1) fr le]
      have "splitAt t pos = (int i + 1, InsertPiece ?t1 (int i + 1) ?r)"
        using 3 cnt L off np by (simp add: splitAt_def Let_def)
      then have sa: "splitAt t pos = (int (Suc i), InsertPiece ?t1 (int (Suc i)) ?r)" by (simp add: add.commute)
      have len: "Suc i \<le> length (tree_recs (InsertPiece ?t1 (int (Suc i)) ?r))"
        using B(2) le by (simp add: insertRec_def slice_insert_eq)
      have fits: "\<forall>r \<in> set recs. piece_fits (tw (InsertPiece ?t1 (int (Suc i)) ?r)) r" using assms(2) B(3) a1(3) by simp
      have "0 < off" using off L(5) by simp
      then have "split_insert ?ps pos recs = insert_run (insertRec (?ps[i := ?p\<lparr>Length := off\<rparr>]) (Suc i) ?r) (Suc i) recs"
        using False l np by (simp add: split_insert_def Let_def)
      then show ?thesis
        using ptree_insert_run[OF B(1) fits len] False sa B(2,3) a1(2,3) by (simp add: tree_insertRecs_def)
    qed
  qed
qed


lemma tree_remove_step_refines:
  assumes "ptree_inv t" "0 \<le> off" "0 < tk" "off + tk \<le> Length (tree_recs t ! i)" "i < length (tree_recs t)"
  shows "ptree_inv (tree_remove_step t (int i) off tk) \<and> tw (tree_remove_step t (int i) off tk) = tw t \<and>
    tree_recs (tree_remove_step t (int i) off tk) = remove_step (tree_recs t) i off tk"
proof -
  let ?ps = "tree_recs t" let ?p = "?ps ! i"
  have g: "tree_Get t (int i) = ?p" using assms(1,5) by (rule ptree_Get)
  have fit: "piece_fits (tw t) ?p" using assms(1,5) by (simp add: ptree_inv_def)
  note D = ptree_delete[OF assms(1,5)]
  consider "off = 0" "tk = Length ?p" | "off = 0" "tk < Length ?p" | "0 < off" "off + tk = Length ?p"
    | "0 < off" "off + tk < Length ?p" using assms by linarith
  then show ?thesis
  proof cases
    case 1
    then show ?thesis using D by (simp add: tree_remove_step_def remove_step_def g Let_def)
  next
    case 2
    let ?r = "piece (Buf ?p) (Start ?p + tk) (Length ?p - tk)"
    have len: "i \<le> length (tree_recs (DeletePiece t (int i)))"
      using D(2) assms(5) by (simp add: removeRec_def slice_remove_eq)
    have fr: "piece_fits (tw (DeletePiece t (int i))) ?r" using fit 2 assms(3) D(3) by (auto simp: piece_fits_def)
    have "insertRec (removeRec ?ps i) i ?r = ?ps[i := ?r]"
      using assms(5) by (simp add: insertRec_def removeRec_def slice_insert_eq slice_remove_eq upd_conv_take_nth_drop)
    then show ?thesis using 2 ptree_insert[OF D(1) fr len] D by (simp add: tree_remove_step_def remove_step_def g Let_def)
  next
    case 3
    then show ?thesis using ptree_addLen[OF assms(1,5), of off "- tk"] assms(3) by (simp add: tree_remove_step_def remove_step_def g Let_def)
  next
    case 4
    let ?r = "piece (Buf ?p) (Start ?p + off + tk) (Length ?p - off - tk)"
    note A = ptree_addLen[OF assms(1,5), of off "off - Length ?p"]
    have len: "Suc i \<le> length (tree_recs (tree_addLen t (int i) (off - Length ?p)))" using A 4 assms(3,5) by simp
    have fr: "piece_fits (tw (tree_addLen t (int i) (off - Length ?p))) ?r"
      using fit 4 A assms(3) by (auto simp: piece_fits_def)
    have "ptree_inv (tree_addLen t (int i) (off - Length ?p))" using A 4 assms(3) by simp
    from ptree_insert[OF this fr len] show ?thesis
      using 4 A assms(3) by (simp add: tree_remove_step_def remove_step_def g add.commute Let_def)
  qed
qed

lemma tree_remove_loop_refines:
  assumes "ptree_inv t" "0 \<le> pos" "pos + len \<le> tree_Total t" "0 \<le> len"
  shows "\<exists>t'. tree_remove_loop t pos len out = Some (fst (remove_loop (tree_recs t) pos len out), t') \<and>
    ptree_inv t' \<and> tw t' = tw t \<and> tree_recs t' = snd (remove_loop (tree_recs t) pos len out)"
  using assms
proof (induction "nat len" arbitrary: t len out rule: less_induct)
  case less
  let ?ps = "tree_recs t"
  show ?case
  proof (cases "0 < len")
    case False
    then show ?thesis using less.prems(1) by (simp add: tree_remove_loop.simps[of t] remove_loop.simps[of ?ps])
  next
    case True
    have lt: "pos < tree_Total t" using True less.prems(3) by linarith
    obtain i off where l: "locate ?ps pos = (i, off)" by fastforce
    note L = ptree_locate[OF less.prems(1,2) lt l]
    let ?p = "?ps ! i"
    let ?tk = "if len < Length ?p - off then len else Length ?p - off"
    have tk: "0 < ?tk" "off + ?tk \<le> Length ?p" "?tk \<le> len" using True L(6) by auto
    note S = tree_remove_step_refines[OF less.prems(1) L(5) tk(1,2) L(3)]
    let ?t1 = "tree_remove_step t (int i) off ?tk" and ?out = "out @ [piece (Buf ?p) (Start ?p + off) ?tk]"
    have pk: "pos_ok ?ps" "pos_ok (tree_recs ?t1)" "pos < recsLen ?ps"
      using ptree_invD(2)[OF less.prems(1)] ptree_invD(2)[of ?t1] S lt ptree_Total[OF less.prems(1)] by simp_all
    have "recsLen (remove_step ?ps i off ?tk) = recsLen ?ps - ?tk"
      using remove_step_flat(1)[OF pk(1) less.prems(2) pk(3) l tk(1,2)] length_flat[of ?ps] pk S
        length_flat[of "remove_step ?ps i off ?tk"] length_cut_range[of pos ?tk "flat ?ps"] less.prems tk
      by (auto simp: ptree_Total pos_ok_lens_ok)
    then have "pos + (len - ?tk) \<le> tree_Total ?t1" using S less.prems(1,3) by (simp add: ptree_Total)
    moreover have "nat (len - ?tk) < nat len" using tk True by simp
    ultimately obtain t' where T: "tree_remove_loop ?t1 pos (len - ?tk) ?out =
        Some (fst (remove_loop (tree_recs ?t1) pos (len - ?tk) ?out), t')" "ptree_inv t'" "tw t' = tw ?t1"
        "tree_recs t' = snd (remove_loop (tree_recs ?t1) pos (len - ?tk) ?out)"
      using less.hyps[of "len - ?tk" ?t1 ?out] S less.prems(2) tk(3) by auto
    have "tree_remove_loop t pos len out = tree_remove_loop ?t1 pos (len - ?tk) ?out"
      using True L(1,2,4) by (subst tree_remove_loop.simps) (simp add: Let_def)
    moreover have "remove_loop ?ps pos len out = remove_loop (remove_step ?ps i off ?tk) pos (len - ?tk) ?out"
      using True l L(3) by (subst remove_loop.simps) (simp add: Let_def)
    ultimately show ?thesis using T S by auto
  qed
qed

section \<open>The walk refines the flat walk\<close>

lemma visit_walk:
  "pos_ok ps \<Longrightarrow> snd (snd (snd (snd (visit walk_visit k ps (pos, len, cur, vs))))) = vs @ walk_loop ps cur pos len"
proof (induction ps arbitrary: k pos len cur vs)
  case Nil
  then show ?case by simp
next
  case (Cons p ps)
  have z: "walk_loop ps c q l = []" if "l \<le> 0" for c q l using that by (cases ps) auto
  show ?case
    using Cons by (auto simp: walk_visit_def Let_def z)
qed

lemma walk_loop_skip:
  assumes "0 < len" "\<forall>j < i. cur + recsLen (take (Suc j) ps) \<le> pos" "i \<le> length ps"
  shows "walk_loop ps cur pos len = walk_loop (drop i ps) (cur + recsLen (take i ps)) pos len"
  using assms
proof (induction i arbitrary: ps cur)
  case 0
  then show ?case by simp
next
  case (Suc i)
  then obtain p qs where ps: "ps = p # qs" by (cases ps) auto
  have "cur + Length p \<le> pos" using Suc.prems(2)[rule_format, of 0] ps by simp
  moreover have "\<forall>j < i. cur + Length p + recsLen (take (Suc j) qs) \<le> pos"
    using Suc.prems(2) ps by (auto simp: add.assoc)
  ultimately show ?case using Suc.IH[of "cur + Length p" qs] Suc.prems ps by (simp add: add.assoc)
qed

lemma recsLen_take_mono: "lens_ok ps \<Longrightarrow> i \<le> j \<Longrightarrow> recsLen (take i ps) \<le> recsLen (take j ps)"
proof -
  assume a: "lens_ok ps" "i \<le> j"
  have "take j ps = take i ps @ take (j - i) (drop i ps)" using a(2) by (metis le_add_diff_inverse take_add)
  moreover have "0 \<le> recsLen (take (j - i) (drop i ps))" using a(1) by (intro recsLen_nonneg) auto
  ultimately show ?thesis by simp
qed

lemma doc_walk_refines:
  assumes "ptree_inv (dTree d)" "0 \<le> pos" "pos + len \<le> doc_Len d"
  shows "doc_walk d pos len = walk_loop (tree_recs (dTree d)) 0 pos len"
proof (cases "0 < len")
  case False
  then show ?thesis by (cases "tree_recs (dTree d)") (simp_all add: doc_walk_def)
next
  case True
  let ?t = "dTree d" let ?ps = "tree_recs ?t"
  have lt: "pos < tree_Total ?t" "pos < recsLen ?ps"
    using True assms ptree_Total[OF assms(1)] by (auto simp: doc_Len_def)
  obtain i off where l: "locate ?ps pos = (i, off)" by fastforce
  note L = ptree_locate[OF assms(1,2) lt(1) l]
  have pre: "pos - off = recsLen (take i ?ps)" using L(2,3) ptree_prefix[OF assms(1), of i] by simp
  have "recsLen (take (Suc j) ?ps) \<le> pos" if "j < i" for j
    using recsLen_take_mono[of ?ps "Suc j" i] that pre L(5) assms(1) by (simp add: ptree_invD pos_ok_lens_ok)
  then have skip: "walk_loop ?ps 0 pos len = walk_loop (drop i ?ps) (pos - off) pos len"
    using walk_loop_skip[OF True, of i 0 ?ps pos] L(3) pre by simp
  have "tree_Count ?t \<noteq> 0" using L(3) ptree_Count[OF assms(1)] by auto
  then show ?thesis
    using True L(1,2) tree_Each_visit[OF ptree_invD(1)[OF assms(1)], of "int i" walk_visit] skip
      visit_walk[OF pos_ok_drop[OF ptree_invD(2)[OF assms(1)], of i]]
    by (simp add: doc_walk_def)
qed

section \<open>The document invariant and the refinement of the oracle\<close>

definition doc_inv :: "doc \<Rightarrow> bool" where
  "doc_inv d \<longleftrightarrow> ptree_inv (dTree d) \<and> (\<forall>r \<in> set (tree_recs (dTree d)). rec_in_store (dStore d) r)"

definition naive_inv :: "naive \<Rightarrow> bool" where
  "naive_inv n \<longleftrightarrow> pos_ok (nPieces n) \<and> (\<forall>r \<in> set (nPieces n). rec_in_store (nStore n) r)"

text \<open>The flat document a tree-backed document stands for.\<close>

definition abs_doc :: "doc \<Rightarrow> naive" where
  "abs_doc d = \<lparr>nStore = dStore d, nPieces = tree_recs (dTree d)\<rparr>"

lemma abs_doc_simps [simp]: "nStore (abs_doc d) = dStore d" "nPieces (abs_doc d) = tree_recs (dTree d)"
  by (simp_all add: abs_doc_def)

lemma abs_doc_inv: "doc_inv d \<Longrightarrow> naive_inv (abs_doc d)"
  by (auto simp: doc_inv_def naive_inv_def ptree_invD)

lemma abs_Len: "doc_inv d \<Longrightarrow> doc_Len d = naive_Len (abs_doc d)"
  by (simp add: doc_inv_def doc_Len_def ptree_Total naive_Len_eq)

lemma abs_insertRecs:
  assumes "doc_inv d" "\<forall>r \<in> set recs. piece_fits (tw (dTree d)) r"
  shows "abs_doc (doc_insertRecs d pos recs) = naive_insertRecs (abs_doc d) pos recs"
  using tree_insertRecs_refines[of "dTree d" recs pos] assms
  by (simp add: doc_inv_def abs_doc_def doc_insertRecs_def naive_insertRecs_def)

lemma abs_removeRange:
  assumes "doc_inv d"
  obtains d' where "doc_removeRange d pos len = Some (fst (naive_removeRange (abs_doc d) pos len), d')"
    "abs_doc d' = snd (naive_removeRange (abs_doc d) pos len)" "ptree_inv (dTree d')"
    "tw (dTree d') = tw (dTree d)" "dStore d' = dStore d"
proof -
  have t: "ptree_inv (dTree d)" using assms by (simp add: doc_inv_def)
  have nn: "0 \<le> doc_Len d"
    using t by (simp add: doc_Len_def ptree_Total recsLen_nonneg pos_ok_lens_ok ptree_invD)
  obtain p n where c: "clampRange pos len (doc_Len d) = (p, n)" by fastforce
  note B = clampRange_bounds[OF nn c]
  obtain t' where T: "tree_remove_loop (dTree d) p n [] = Some (fst (remove_loop (tree_recs (dTree d)) p n []), t')"
      "ptree_inv t'" "tw t' = tw (dTree d)" "tree_recs t' = snd (remove_loop (tree_recs (dTree d)) p n [])"
    using tree_remove_loop_refines[OF t B(1) B(3)[unfolded doc_Len_def] B(2), of "[]"] by blast
  show thesis
  proof (rule that[of "d\<lparr>dTree := t'\<rparr>"])
    show "doc_removeRange d pos len = Some (fst (naive_removeRange (abs_doc d) pos len), d\<lparr>dTree := t'\<rparr>)"
      using T c abs_Len[OF assms] by (simp add: doc_removeRange_def naive_removeRange_def split: prod.split)
    show "abs_doc (d\<lparr>dTree := t'\<rparr>) = snd (naive_removeRange (abs_doc d) pos len)"
      using T c abs_Len[OF assms] by (simp add: naive_removeRange_def abs_doc_def split: prod.split)
  qed (use T in auto)
qed

lemma abs_walk:
  assumes "doc_inv d" "clampRange pos len (doc_Len d) = (p, n)"
  shows "doc_walk d p n = naive_walk (abs_doc d) p n"
proof -
  have t: "ptree_inv (dTree d)" using assms by (simp add: doc_inv_def)
  have nn: "0 \<le> doc_Len d"
    using t by (simp add: doc_Len_def ptree_Total recsLen_nonneg pos_ok_lens_ok ptree_invD)
  show ?thesis
    using doc_walk_refines[OF t, of p n] clampRange_bounds[OF nn assms(2)] by (simp add: naive_walk_def)
qed

lemma abs_queries:
  assumes "doc_inv d"
  shows "doc_Slice d pos len = naive_Slice (abs_doc d) pos len"
    "doc_Spans d pos len = naive_Spans (abs_doc d) pos len"
    "doc_pieceRange d pos len = naive_pieceRange (abs_doc d) pos len"
    "doc_Pieces d = naive_Pieces (abs_doc d)"
  using abs_walk[OF assms] abs_Len[OF assms] assms
  by (auto simp: doc_Slice_def naive_Slice_def doc_Spans_def naive_Spans_def doc_pieceRange_def naive_pieceRange_def
    doc_Pieces_def naive_Pieces_def doc_inv_def ptree_Count split: prod.split)

lemma NewDoc_inv:
  assumes "0 < nat width \<and> nat width \<le> 8 \<or> width \<le> 0" "int (length orig) < 2 ^ 62"
    "0 < width \<Longrightarrow> field_ok (nat width) (int (length orig))"
  shows "doc_inv (NewDoc orig width)" "abs_doc (NewDoc orig width) = NewNaive orig"
proof -
  let ?m = "int (length orig) + 2 ^ 20"
  let ?w = "if width \<le> 0 then WidthFor ?m else nat width"
  have wf: "1 \<le> WidthFor ?m" "WidthFor ?m \<le> 8" "?m < 2 ^ (8 * WidthFor ?m)"
    using WidthFor_loop_spec[of ?m 1] assms(2) by (auto simp: WidthFor_def)
  have w: "1 \<le> ?w" "?w \<le> 8" using wf assms(1) by auto
  have "int (length orig) < 2 ^ (8 * WidthFor ?m)" by (rule le_less_trans[OF _ wf(3)]) simp
  moreover have "int (length orig) < 2 ^ 63" using assms(2) by simp
  ultimately have "field_ok (WidthFor ?m) (int (length orig))" by (simp add: field_ok_def)
  then have fo: "field_ok ?w (int (length orig))" using assms(3) by auto
  have f: "\<forall>r \<in> set (orig_recs orig). piece_fits ?w r"
    using fo by (auto simp: orig_recs_def piece_fits_def Original_def)
  then have "\<forall>r \<in> set (orig_recs orig). rec_fits ?w r" using piece_fits_rec by blast
  note N = NewPieceBTree_inv[OF w this]
  have "\<forall>r \<in> set (orig_recs orig). rec_in_store (NewStore orig) r"
    by (auto simp: orig_recs_def rec_in_store_def NewStore_def Original_def)
  then show "doc_inv (NewDoc orig width)" "abs_doc (NewDoc orig width) = NewNaive orig"
    using N f by (simp_all add: doc_inv_def ptree_inv_def NewDoc_def abs_doc_def NewNaive_def Let_def)
qed

section \<open>Properties\<close>

text \<open>C17: on a document that satisfies its invariant \<open>removeRange\<close> of the tree-backed document
  returns, with the very pieces the flat oracle returns, and leaves the very piece list the oracle
  leaves.\<close>

theorem doc_remove_refines:
  assumes "doc_inv d"
  shows "\<exists>d'. doc_removeRange d pos len = Some (fst (naive_removeRange (abs_doc d) pos len), d') \<and>
    doc_inv d' \<and> abs_doc d' = snd (naive_removeRange (abs_doc d) pos len)"
proof -
  obtain d' where d: "doc_removeRange d pos len = Some (fst (naive_removeRange (abs_doc d) pos len), d')"
      "abs_doc d' = snd (naive_removeRange (abs_doc d) pos len)" "ptree_inv (dTree d')" "dStore d' = dStore d"
    using abs_removeRange[OF assms] by metis
  obtain p n where c: "clampRange pos len (naive_Len (abs_doc d)) = (p, n)" by fastforce
  have pk: "pos_ok (nPieces (abs_doc d))" and st: "\<forall>r \<in> set (nPieces (abs_doc d)). rec_in_store (dStore d) r"
    using abs_doc_inv[OF assms] by (auto simp: naive_inv_def)
  have nn: "0 \<le> naive_Len (abs_doc d)" using pk by (simp add: naive_Len_eq recsLen_nonneg pos_ok_lens_ok)
  note B = clampRange_bounds[OF nn c]
  have "within (nPieces (abs_doc d')) (nPieces (abs_doc d))"
    using remove_loop_spec[OF pk B(1) B(3)[unfolded naive_Len_eq] B(2), of "[]"] c d(2)
    by (auto simp: naive_removeRange_def)
  then have "doc_inv d'" using within_in_store[OF _ st] d(3,4) by (simp add: doc_inv_def)
  then show ?thesis using d by blast
qed

theorem doc_remove_refines_witness:
  "\<exists>d'. doc_removeRange (NewDoc [1, 2, 3] 0) 1 1 = Some (fst (naive_removeRange (abs_doc (NewDoc [1, 2, 3] 0)) 1 1), d')"
  using doc_remove_refines[OF NewDoc_inv(1), of 0 "[1, 2, 3]" 1 1] by fastforce

text \<open>Splicing pieces into the tree-backed document leaves the very piece list the flat oracle
  computes, at every offset, clamped the same way.\<close>

theorem doc_insert_refines:
  assumes "doc_inv d" "\<forall>r \<in> set recs. piece_fits (tw (dTree d)) r"
  shows "abs_doc (doc_insertRecs d pos recs) = naive_insertRecs (abs_doc d) pos recs \<and>
    ptree_inv (dTree (doc_insertRecs d pos recs))"
  using abs_insertRecs[OF assms] tree_insertRecs_refines[of "dTree d" recs pos] assms
  by (simp add: doc_inv_def doc_insertRecs_def)

theorem doc_insert_refines_witness:
  "abs_doc (doc_insertRecs (NewDoc [1, 2, 3] 4) 1 [piece 1 0 2]) =
     naive_insertRecs (abs_doc (NewDoc [1, 2, 3] 4)) 1 [piece 1 0 2]"
proof -
  have i: "doc_inv (NewDoc [1, 2, 3] 4)" by (rule NewDoc_inv(1)) (simp_all add: field_ok_def)
  have "tw (dTree (NewDoc [1, 2, 3] 4)) = 4"
    using NewPieceBTree_inv(3)[of 4 "orig_recs [1, 2, 3]"]
    by (simp add: NewDoc_def orig_recs_def rec_fits_def field_ok_def Original_def)
  then show ?thesis
    using doc_insert_refines[OF i, of "[piece 1 0 2]" 1] by (simp add: piece_fits_def field_ok_def)
qed

text \<open>Every query of the tree-backed document answers what the flat oracle answers.\<close>

theorem doc_queries_refine:
  assumes "doc_inv d"
  shows "doc_Len d = naive_Len (abs_doc d) \<and> doc_Pieces d = naive_Pieces (abs_doc d) \<and>
    doc_Slice d pos len = naive_Slice (abs_doc d) pos len \<and>
    doc_Spans d pos len = naive_Spans (abs_doc d) pos len \<and>
    doc_pieceRange d pos len = naive_pieceRange (abs_doc d) pos len"
  using abs_Len[OF assms] abs_queries[OF assms] by simp

theorem doc_queries_refine_witness:
  "doc_Slice (NewDoc [1, 2, 3] 0) 1 5 = naive_Slice (NewNaive [1, 2, 3]) 1 5"
  using doc_queries_refine[OF NewDoc_inv(1), of 0 "[1, 2, 3]" 1 5] NewDoc_inv(2)[of 0 "[1, 2, 3]"] by simp

text \<open>A document can be opened over any file up to 2^62 bytes: the chosen record width fits the
  tree's records, and the document is the file.\<close>

theorem new_doc_correct:
  assumes "int (length orig) < 2 ^ 62"
  shows "doc_inv (NewDoc orig 0) \<and> abs_doc (NewDoc orig 0) = NewNaive orig \<and> doc_Len (NewDoc orig 0) = int (length orig)"
proof -
  have i: "doc_inv (NewDoc orig 0)" "abs_doc (NewDoc orig 0) = NewNaive orig"
    using NewDoc_inv[of 0 orig] assms by simp_all
  then show ?thesis using abs_Len[OF i(1)] by (auto simp: naive_Len_eq NewNaive_def orig_recs_def)
qed

theorem new_doc_correct_witness: "doc_Len (NewDoc [104, 105] 0) = 2"
  using new_doc_correct[of "[104, 105]"] by simp

end
