(* ===== verification/PieceEditor.thy ===== *)
theory PieceEditor
  imports DocBuf
begin

text \<open>
  The piece-level editing surface of \<open>internal/piecetable/oplog.go\<close> (\<open>pieceEditor\<close>, which extends
  \<open>Buffer\<close> of \<open>buffer.go\<close>): what the journal relies on as a locale, with the flat table of
  \<open>naive.go\<close> and the tree-backed document of \<open>doc.go\<close> as its two providers, and the Go interface
  value, which holds one of the two, as the third.
\<close>

section \<open>The contract\<close>

locale piece_editor =
  fixes inv :: "'d \<Rightarrow> bool"
    and fits :: "'d \<Rightarrow> PieceRec \<Rightarrow> bool"
    and stores :: "'d \<Rightarrow> store"
    and set_store :: "store \<Rightarrow> 'd \<Rightarrow> 'd"
    and pieces :: "'d \<Rightarrow> PieceRec list"
    and len :: "'d \<Rightarrow> int"
    and insertRecs :: "'d \<Rightarrow> int \<Rightarrow> PieceRec list \<Rightarrow> 'd"
    and removeRange :: "'d \<Rightarrow> int \<Rightarrow> int \<Rightarrow> PieceRec list \<times> 'd"
    and pieceRange :: "'d \<Rightarrow> int \<Rightarrow> int \<Rightarrow> PieceRec list"
    and slice :: "'d \<Rightarrow> int \<Rightarrow> int \<Rightarrow> byte list"
  assumes inv_pieces: "inv d \<Longrightarrow> pos_ok (pieces d) \<and> (\<forall>r \<in> set (pieces d). rec_in_store (stores d) r \<and> fits d r)"
    and fits_sub: "fits d p \<Longrightarrow> sub_piece r p \<Longrightarrow> fits d r"
    and len_pieces: "inv d \<Longrightarrow> len d = recsLen (pieces d)"
    and insert_law: "inv d \<Longrightarrow> \<forall>r \<in> set recs. fits d r \<and> rec_in_store (stores d) r \<Longrightarrow>
       inv (insertRecs d pos recs) \<and> flat (pieces (insertRecs d pos recs)) = put_at pos (flat recs) (flat (pieces d)) \<and>
       stores (insertRecs d pos recs) = stores d \<and> fits (insertRecs d pos recs) = fits d"
    and remove_law: "inv d \<Longrightarrow> clampRange pos n (len d) = (q, k) \<Longrightarrow> removeRange d pos n = (out, d') \<Longrightarrow>
       inv d' \<and> flat out = sub_range q k (flat (pieces d)) \<and> flat (pieces d') = cut_range q k (flat (pieces d)) \<and>
       within out (pieces d) \<and> stores d' = stores d \<and> fits d' = fits d"
    and range_law: "inv d \<Longrightarrow> clampRange pos n (len d) = (q, k) \<Longrightarrow>
       flat (pieceRange d pos n) = sub_range q k (flat (pieces d)) \<and> within (pieceRange d pos n) (pieces d)"
    and slice_law: "inv d \<Longrightarrow> clampRange pos n (len d) = (q, k) \<Longrightarrow>
       slice d pos n = map (byte_at (stores d)) (sub_range q k (flat (pieces d)))"
    and append_law: "inv d \<Longrightarrow> store_le (stores d) st \<Longrightarrow>
       inv (set_store st d) \<and> stores (set_store st d) = st \<and> pieces (set_store st d) = pieces d \<and> fits (set_store st d) = fits d"
begin

abbreviation content :: "'d \<Rightarrow> addr list" where
  "content d \<equiv> flat (pieces d)"

lemma length_content: "inv d \<Longrightarrow> int (length (content d)) = len d"
  using inv_pieces[of d] by (simp add: len_pieces length_flat pos_ok_lens_ok)

lemma len_nonneg: "inv d \<Longrightarrow> 0 \<le> len d"
  using length_content[of d] by linarith

text \<open>What a range query or a removal hands out can be spliced back.\<close>

abbreviation spliceable :: "'d \<Rightarrow> PieceRec list \<Rightarrow> bool" where
  "spliceable d recs \<equiv> (\<forall>r \<in> set recs. fits d r \<and> rec_in_store (stores d) r)"

lemma within_spliceable:
  assumes "inv d" "within recs (pieces d)"
  shows "spliceable d recs"
proof
  fix r assume "r \<in> set recs"
  then obtain p where p: "p \<in> set (pieces d)" "sub_piece r p" using assms(2) by (auto simp: within_def)
  then show "fits d r \<and> rec_in_store (stores d) r"
    using inv_pieces[OF assms(1)] fits_sub sub_piece_in_store by blast
qed

lemma pieceRange_exact:
  assumes "inv d" "0 \<le> pos" "0 \<le> n" "pos + n \<le> len d"
  shows "flat (pieceRange d pos n) = sub_range pos n (content d)" "spliceable d (pieceRange d pos n)"
    "recsLen (pieceRange d pos n) = n"
proof -
  note R = range_law[OF assms(1) clampRange_id[OF assms(2-4)]]
  show f: "flat (pieceRange d pos n) = sub_range pos n (content d)" using R by simp
  show "spliceable d (pieceRange d pos n)" using R within_spliceable[OF assms(1)] by blast
  have "pos_ok (pieceRange d pos n)" using R within_pos_ok by blast
  then have "recsLen (pieceRange d pos n) = int (length (sub_range pos n (content d)))"
    using f length_flat by (metis pos_ok_lens_ok)
  then show "recsLen (pieceRange d pos n) = n"
    using length_sub_range[of pos n "content d"] assms length_content by simp
qed

text \<open>Replacing a range: cut it out, splice pieces in. This is what an op does.\<close>

abbreviation replace :: "'d \<Rightarrow> int \<Rightarrow> int \<Rightarrow> PieceRec list \<Rightarrow> 'd" where
  "replace d pos n recs \<equiv> insertRecs (if 0 < n then snd (removeRange d pos n) else d) pos recs"

lemma replace_law:
  assumes "inv d" "0 \<le> pos" "0 \<le> n" "pos + n \<le> len d" "spliceable d recs"
  shows "inv (replace d pos n recs)" "content (replace d pos n recs) = put_at pos (flat recs) (cut_range pos n (content d))"
    "stores (replace d pos n recs) = stores d" "fits (replace d pos n recs) = fits d"
proof -
  let ?d = "if 0 < n then snd (removeRange d pos n) else d"
  have D: "inv ?d \<and> flat (pieces ?d) = cut_range pos n (flat (pieces d)) \<and> stores ?d = stores d \<and> fits ?d = fits d"
  proof (cases "0 < n")
    case True
    obtain out d' where r: "removeRange d pos n = (out, d')" by fastforce
    show ?thesis using remove_law[OF assms(1) clampRange_id[OF assms(2-4)] r] r True by simp
  next
    case False
    then show ?thesis using assms(1,3) by simp
  qed
  have "\<forall>r \<in> set recs. fits ?d r \<and> rec_in_store (stores ?d) r" using D assms(5) by simp
  note I = insert_law[OF conjunct1[OF D] this, of pos]
  show "inv (replace d pos n recs)" "content (replace d pos n recs) = put_at pos (flat recs) (cut_range pos n (content d))"
    "stores (replace d pos n recs) = stores d" "fits (replace d pos n recs) = fits d"
    using I D by simp_all
qed

text \<open>Reversing a replacement restores the bytes, whatever the pieces look like afterwards.\<close>

lemma replace_back:
  assumes "inv d" "0 \<le> pos" "0 \<le> n" "pos + n \<le> len d" "spliceable d recs" "spliceable d olds"
    "flat olds = sub_range pos n (content d)"
  shows "content (replace (replace d pos n recs) pos (recsLen recs) olds) = content d"
    "inv (replace (replace d pos n recs) pos (recsLen recs) olds)"
proof -
  note R = replace_law[OF assms(1-5)]
  have "r \<in> set recs \<Longrightarrow> 0 \<le> Length r" for r using assms(5) by (auto simp: rec_in_store_def)
  then have lo: "lens_ok recs" by (simp add: lens_ok_def)
  have fl: "int (length (flat recs)) = recsLen recs" by (rule length_flat[OF lo])
  have cl: "int (length (cut_range pos n (content d))) = len d - n"
    using length_cut_range[of pos n "content d"] assms(1-4) length_content by simp
  have l: "len (replace d pos n recs) = len d - n + recsLen recs"
    using length_content[OF R(1)] R(2) cl fl by simp
  have sp: "spliceable (replace d pos n recs) olds" using assms(6) R(3,4) by simp
  have "0 \<le> recsLen recs" "pos + recsLen recs \<le> len (replace d pos n recs)"
    using lo l assms(4) by (auto simp: recsLen_nonneg)
  note B = replace_law[OF R(1) assms(2) this sp]
  have p: "pos \<le> int (length (cut_range pos n (content d)))" using cl assms(4) by simp
  have "cut_range pos (recsLen recs) (put_at pos (flat recs) (cut_range pos n (content d))) = cut_range pos n (content d)"
    using cut_put_same[OF assms(2) p, of "flat recs"] fl by simp
  moreover have "put_at pos (sub_range pos n (content d)) (cut_range pos n (content d)) = content d"
    using put_cut_same[of pos n "content d"] assms(1-4) length_content by simp
  ultimately show "content (replace (replace d pos n recs) pos (recsLen recs) olds) = content d"
    using B(2) R(2) assms(7) by simp
  show "inv (replace (replace d pos n recs) pos (recsLen recs) olds)" by (rule B(1))
qed

text \<open>Text the document has now reads the same after any growth of the stores.\<close>

lemma text_stable:
  assumes "inv d" "store_le (stores d) st"
  shows "map (byte_at st) (content d) = map (byte_at (stores d)) (content d)"
proof -
  have i: "\<forall>r \<in> set (pieces d). rec_in_store (stores d) r" using inv_pieces[OF assms(1)] by blast
  then have "\<forall>r \<in> set (pieces d). rec_in_store st r" using rec_in_store_mono[OF assms(2)] by blast
  then show ?thesis
    using recs_text_mono[OF assms(2) i] recs_text_bytes i by simp
qed

lemma slice_all: "inv d \<Longrightarrow> slice d 0 (len d) = map (byte_at (stores d)) (content d)"
  using slice_law[OF _ clampRange_id, of d 0 "len d"] len_nonneg[of d] length_content[of d] sub_range_all[of "content d"]
  by simp

end

section \<open>The flat table provides it\<close>

lemma naive_removeRange_law:
  assumes "naive_inv n" "clampRange pos m (naive_Len n) = (p, k)" "naive_removeRange n pos m = (out, n')"
  shows "naive_inv n' \<and> flat out = sub_range p k (flat (nPieces n)) \<and> flat (nPieces n') = cut_range p k (flat (nPieces n)) \<and>
    within out (nPieces n) \<and> within (nPieces n') (nPieces n) \<and> nStore n' = nStore n"
proof -
  have pk: "pos_ok (nPieces n)" using assms(1) by (simp add: naive_inv_def)
  then have "0 \<le> naive_Len n" by (simp add: naive_Len_eq recsLen_nonneg pos_ok_lens_ok)
  note B = clampRange_bounds[OF this assms(2)]
  obtain rs ps' where R: "remove_loop (nPieces n) p k [] = (rs, ps')" "flat rs = sub_range p k (flat (nPieces n))"
      "flat ps' = cut_range p k (flat (nPieces n))" "within rs (nPieces n)" "within ps' (nPieces n)"
    using remove_loop_spec[OF pk B(1) B(3)[unfolded naive_Len_eq] B(2), of "[]"] by auto
  have "out = rs" "n' = n\<lparr>nPieces := ps'\<rparr>" using assms(2,3) R(1) by (auto simp: naive_removeRange_def)
  then show ?thesis
    using R assms(1) within_pos_ok[OF R(5)] within_in_store[OF R(5)] by (auto simp: naive_inv_def)
qed

lemma naive_insertRecs_law:
  assumes "naive_inv n" "\<forall>r \<in> set recs. 0 < Length r \<and> rec_in_store (nStore n) r"
  shows "naive_inv (naive_insertRecs n pos recs)"
    "flat (nPieces (naive_insertRecs n pos recs)) = put_at pos (flat recs) (flat (nPieces n))"
    "nStore (naive_insertRecs n pos recs) = nStore n"
proof -
  have pk: "pos_ok (nPieces n)" "\<forall>r \<in> set (nPieces n). rec_in_store (nStore n) r" using assms(1) by (auto simp: naive_inv_def)
  have "0 < Length r \<and> rec_in_store (nStore n) r" if "r \<in> set (split_insert (nPieces n) pos recs)" for r
    using split_insert_pieces[OF pk(1) that] assms(2) pk(2) sub_piece_in_store by (auto simp: sub_piece_def)
  then show "naive_inv (naive_insertRecs n pos recs)"
    by (auto simp: naive_inv_def naive_insertRecs_def pos_ok_def)
  show "flat (nPieces (naive_insertRecs n pos recs)) = put_at pos (flat recs) (flat (nPieces n))"
    "nStore (naive_insertRecs n pos recs) = nStore n"
    using split_insert_flat[OF pk(1)] by (simp_all add: naive_insertRecs_def)
qed

lemma naive_walk_law:
  assumes "naive_inv n" "clampRange pos m (naive_Len n) = (p, k)"
  shows "flat (seen_recs (naive_walk n p k)) = sub_range p k (flat (nPieces n))"
    "within (seen_recs (naive_walk n p k)) (nPieces n)" "tiles p (naive_walk n p k)"
proof -
  have pk: "pos_ok (nPieces n)" using assms(1) by (simp add: naive_inv_def)
  then have "0 \<le> naive_Len n" by (simp add: naive_Len_eq recsLen_nonneg pos_ok_lens_ok)
  note B = clampRange_bounds[OF this assms(2)]
  show "flat (seen_recs (naive_walk n p k)) = sub_range p k (flat (nPieces n))"
    "within (seen_recs (naive_walk n p k)) (nPieces n)"
    using walk_loop_spec[OF pk B(1,2)] B(3) by (auto simp: naive_walk_def naive_Len_eq)
  show "tiles p (naive_walk n p k)" using walk_loop_tiles[OF pk] B(1) by (simp add: naive_walk_def)
qed

lemma naive_Slice_law:
  assumes "naive_inv n" "clampRange pos m (naive_Len n) = (p, k)"
  shows "naive_Slice n pos m = map (byte_at (nStore n)) (sub_range p k (flat (nPieces n)))"
proof -
  note W = naive_walk_law[OF assms]
  have "\<forall>r \<in> set (seen_recs (naive_walk n p k)). rec_in_store (nStore n) r"
    using within_in_store[OF W(2)] assms(1) by (simp add: naive_inv_def)
  then show ?thesis using assms(2) W(1) by (simp add: naive_Slice_def seen_text_recs recs_text_bytes)
qed

definition naive_fits :: "naive \<Rightarrow> PieceRec \<Rightarrow> bool" where
  "naive_fits n r \<longleftrightarrow> 0 < Length r"

definition naive_set_store :: "store \<Rightarrow> naive \<Rightarrow> naive" where
  "naive_set_store st n = n\<lparr>nStore := st\<rparr>"

interpretation naive_ed: piece_editor naive_inv naive_fits nStore naive_set_store nPieces naive_Len
    naive_insertRecs naive_removeRange naive_pieceRange naive_Slice
proof
  fix n :: naive and p r :: PieceRec
  show "naive_fits n p \<Longrightarrow> sub_piece r p \<Longrightarrow> naive_fits n r" by (simp add: naive_fits_def sub_piece_def)
next
  fix n :: naive
  show "naive_inv n \<Longrightarrow> pos_ok (nPieces n) \<and> (\<forall>r \<in> set (nPieces n). rec_in_store (nStore n) r \<and> naive_fits n r)"
    by (auto simp: naive_inv_def naive_fits_def pos_ok_def)
  show "naive_inv n \<Longrightarrow> naive_Len n = recsLen (nPieces n)" by (rule naive_Len_eq)
next
  fix n :: naive and recs pos
  assume "naive_inv n" "\<forall>r \<in> set recs. naive_fits n r \<and> rec_in_store (nStore n) r"
  then show "naive_inv (naive_insertRecs n pos recs) \<and>
      flat (nPieces (naive_insertRecs n pos recs)) = put_at pos (flat recs) (flat (nPieces n)) \<and>
      nStore (naive_insertRecs n pos recs) = nStore n \<and> naive_fits (naive_insertRecs n pos recs) = naive_fits n"
    using naive_insertRecs_law[of n recs pos] by (simp add: naive_fits_def fun_eq_iff)
next
  fix n n' :: naive and pos m p k out
  assume "naive_inv n" "clampRange pos m (naive_Len n) = (p, k)" "naive_removeRange n pos m = (out, n')"
  from naive_removeRange_law[OF this]
  show "naive_inv n' \<and> flat out = sub_range p k (flat (nPieces n)) \<and> flat (nPieces n') = cut_range p k (flat (nPieces n)) \<and>
      within out (nPieces n) \<and> nStore n' = nStore n \<and> naive_fits n' = naive_fits n"
    by (simp add: naive_fits_def fun_eq_iff)
next
  fix n :: naive and pos m p k
  assume a: "naive_inv n" "clampRange pos m (naive_Len n) = (p, k)"
  show "flat (naive_pieceRange n pos m) = sub_range p k (flat (nPieces n)) \<and> within (naive_pieceRange n pos m) (nPieces n)"
    using naive_walk_law[OF a] a(2) by (simp add: naive_pieceRange_def)
  show "naive_Slice n pos m = map (byte_at (nStore n)) (sub_range p k (flat (nPieces n)))"
    by (rule naive_Slice_law[OF a])
next
  fix n :: naive and st
  assume "naive_inv n" "store_le (nStore n) st"
  then show "naive_inv (naive_set_store st n) \<and> nStore (naive_set_store st n) = st \<and>
      nPieces (naive_set_store st n) = nPieces n \<and> naive_fits (naive_set_store st n) = naive_fits n"
    using rec_in_store_mono by (auto simp: naive_inv_def naive_set_store_def naive_fits_def fun_eq_iff)
qed

section \<open>The tree-backed document provides it\<close>

definition doc_fits :: "doc \<Rightarrow> PieceRec \<Rightarrow> bool" where
  "doc_fits d r \<longleftrightarrow> piece_fits (tw (dTree d)) r"

definition doc_set_store :: "store \<Rightarrow> doc \<Rightarrow> doc" where
  "doc_set_store st d = d\<lparr>dStore := st\<rparr>"

definition doc_pieces :: "doc \<Rightarrow> PieceRec list" where
  "doc_pieces d = tree_recs (dTree d)"

text \<open>The returned value of \<open>removeRange\<close>; that it returns is \<open>doc_cut_returns\<close>.\<close>

definition doc_cut :: "doc \<Rightarrow> int \<Rightarrow> int \<Rightarrow> PieceRec list \<times> doc" where
  "doc_cut d pos n = (case doc_removeRange d pos n of Some r \<Rightarrow> r | None \<Rightarrow> ([], d))"

lemma doc_cut_returns: "doc_inv d \<Longrightarrow> doc_removeRange d pos n = Some (doc_cut d pos n)"
  using abs_removeRange[of d pos n] by (metis doc_cut_def option.simps(5))

lemma doc_cut_abs:
  assumes "doc_inv d" "doc_cut d pos n = (out, d')"
  shows "naive_removeRange (abs_doc d) pos n = (out, abs_doc d')" "ptree_inv (dTree d')"
    "tw (dTree d') = tw (dTree d)" "dStore d' = dStore d"
  using abs_removeRange[OF assms(1), of pos n] assms(2) unfolding doc_cut_def
  by (metis option.simps(5) prod.collapse prod.inject)+

lemma doc_insertRecs_inv:
  assumes "doc_inv d" "\<forall>r \<in> set recs. piece_fits (tw (dTree d)) r \<and> rec_in_store (dStore d) r"
  shows "doc_inv (doc_insertRecs d pos recs)" "tw (dTree (doc_insertRecs d pos recs)) = tw (dTree d)"
    "dStore (doc_insertRecs d pos recs) = dStore d"
proof -
  have t: "ptree_inv (dTree d)" "\<forall>r \<in> set recs. piece_fits (tw (dTree d)) r" using assms by (auto simp: doc_inv_def)
  note R = tree_insertRecs_refines[OF t, of pos]
  have "naive_inv (naive_insertRecs (abs_doc d) pos recs)"
    using assms abs_doc_inv by (intro naive_insertRecs_law) (auto simp: piece_fits_def)
  then have "\<forall>r \<in> set (split_insert (tree_recs (dTree d)) pos recs). rec_in_store (dStore d) r"
    by (simp add: naive_inv_def naive_insertRecs_def)
  then show "doc_inv (doc_insertRecs d pos recs)" "tw (dTree (doc_insertRecs d pos recs)) = tw (dTree d)"
    "dStore (doc_insertRecs d pos recs) = dStore d"
    using R by (simp_all add: doc_inv_def doc_insertRecs_def)
qed

interpretation doc_ed: piece_editor doc_inv doc_fits dStore doc_set_store doc_pieces doc_Len
    doc_insertRecs doc_cut doc_pieceRange doc_Slice
proof
  fix d :: doc and p r :: PieceRec
  show "doc_fits d p \<Longrightarrow> sub_piece r p \<Longrightarrow> doc_fits d r" unfolding doc_fits_def by (rule piece_fits_sub)
next
  fix d :: doc
  show "doc_inv d \<Longrightarrow> pos_ok (doc_pieces d) \<and> (\<forall>r \<in> set (doc_pieces d). rec_in_store (dStore d) r \<and> doc_fits d r)"
    using ptree_invD(2) by (auto simp: doc_inv_def doc_pieces_def doc_fits_def ptree_inv_def)
  show "doc_inv d \<Longrightarrow> doc_Len d = recsLen (doc_pieces d)" by (simp add: abs_Len naive_Len_eq doc_pieces_def)
next
  fix d :: doc and recs pos
  assume a: "doc_inv d" "\<forall>r \<in> set recs. doc_fits d r \<and> rec_in_store (dStore d) r"
  then have f: "\<forall>r \<in> set recs. piece_fits (tw (dTree d)) r \<and> rec_in_store (dStore d) r" by (simp add: doc_fits_def)
  have "nPieces (abs_doc (doc_insertRecs d pos recs)) = split_insert (tree_recs (dTree d)) pos recs"
    using abs_insertRecs[OF a(1), of recs pos] f by (simp add: naive_insertRecs_def)
  then show "doc_inv (doc_insertRecs d pos recs) \<and>
      flat (doc_pieces (doc_insertRecs d pos recs)) = put_at pos (flat recs) (flat (doc_pieces d)) \<and>
      dStore (doc_insertRecs d pos recs) = dStore d \<and> doc_fits (doc_insertRecs d pos recs) = doc_fits d"
    using doc_insertRecs_inv[OF a(1) f, of pos] a(1) ptree_invD(2)
    by (simp add: doc_pieces_def doc_fits_def fun_eq_iff split_insert_flat doc_inv_def)
next
  fix d d' :: doc and pos m p k out
  assume a: "doc_inv d" "clampRange pos m (doc_Len d) = (p, k)" "doc_cut d pos m = (out, d')"
  note C = doc_cut_abs[OF a(1,3)]
  from naive_removeRange_law[OF abs_doc_inv[OF a(1)] _ C(1), of p k] a(1,2)
  show "doc_inv d' \<and> flat out = sub_range p k (flat (doc_pieces d)) \<and> flat (doc_pieces d') = cut_range p k (flat (doc_pieces d)) \<and>
      within out (doc_pieces d) \<and> dStore d' = dStore d \<and> doc_fits d' = doc_fits d"
    using C by (simp add: abs_Len doc_pieces_def doc_fits_def fun_eq_iff doc_inv_def naive_inv_def)
next
  fix d :: doc and pos m p k
  assume a: "doc_inv d" "clampRange pos m (doc_Len d) = (p, k)"
  have n: "naive_inv (abs_doc d)" "clampRange pos m (naive_Len (abs_doc d)) = (p, k)"
    using a abs_doc_inv by (auto simp: abs_Len)
  show "flat (doc_pieceRange d pos m) = sub_range p k (flat (doc_pieces d)) \<and> within (doc_pieceRange d pos m) (doc_pieces d)"
    using naive_ed.range_law[OF n] by (simp add: abs_queries[OF a(1)] doc_pieces_def)
  show "doc_Slice d pos m = map (byte_at (dStore d)) (sub_range p k (flat (doc_pieces d)))"
    using naive_Slice_law[OF n] by (simp add: abs_queries[OF a(1)] doc_pieces_def)
next
  fix d :: doc and st
  assume "doc_inv d" "store_le (dStore d) st"
  then show "doc_inv (doc_set_store st d) \<and> dStore (doc_set_store st d) = st \<and>
      doc_pieces (doc_set_store st d) = doc_pieces d \<and> doc_fits (doc_set_store st d) = doc_fits d"
    using rec_in_store_mono by (auto simp: doc_inv_def doc_set_store_def doc_pieces_def doc_fits_def fun_eq_iff)
qed

section \<open>The interface value\<close>

datatype pieceEditor = NaiveBuf naive | DocBuf doc

fun pe_Store :: "pieceEditor \<Rightarrow> store" where
  "pe_Store (NaiveBuf n) = nStore n"
| "pe_Store (DocBuf d) = dStore d"

fun pe_set_store :: "store \<Rightarrow> pieceEditor \<Rightarrow> pieceEditor" where
  "pe_set_store st (NaiveBuf n) = NaiveBuf (naive_set_store st n)"
| "pe_set_store st (DocBuf d) = DocBuf (doc_set_store st d)"

fun pe_Len :: "pieceEditor \<Rightarrow> int" where
  "pe_Len (NaiveBuf n) = naive_Len n"
| "pe_Len (DocBuf d) = doc_Len d"

fun pe_Pieces :: "pieceEditor \<Rightarrow> int" where
  "pe_Pieces (NaiveBuf n) = naive_Pieces n"
| "pe_Pieces (DocBuf d) = doc_Pieces d"

fun pe_insertRecs :: "pieceEditor \<Rightarrow> int \<Rightarrow> PieceRec list \<Rightarrow> pieceEditor" where
  "pe_insertRecs (NaiveBuf n) pos recs = NaiveBuf (naive_insertRecs n pos recs)"
| "pe_insertRecs (DocBuf d) pos recs = DocBuf (doc_insertRecs d pos recs)"

fun pe_removeRange :: "pieceEditor \<Rightarrow> int \<Rightarrow> int \<Rightarrow> PieceRec list \<times> pieceEditor" where
  "pe_removeRange (NaiveBuf n) pos len = (case naive_removeRange n pos len of (out, n') \<Rightarrow> (out, NaiveBuf n'))"
| "pe_removeRange (DocBuf d) pos len = (case doc_cut d pos len of (out, d') \<Rightarrow> (out, DocBuf d'))"

fun pe_pieceRange :: "pieceEditor \<Rightarrow> int \<Rightarrow> int \<Rightarrow> PieceRec list" where
  "pe_pieceRange (NaiveBuf n) pos len = naive_pieceRange n pos len"
| "pe_pieceRange (DocBuf d) pos len = doc_pieceRange d pos len"

fun pe_Slice :: "pieceEditor \<Rightarrow> int \<Rightarrow> int \<Rightarrow> byte list" where
  "pe_Slice (NaiveBuf n) pos len = naive_Slice n pos len"
| "pe_Slice (DocBuf d) pos len = doc_Slice d pos len"

fun pe_Spans :: "pieceEditor \<Rightarrow> int \<Rightarrow> int \<Rightarrow> Span list" where
  "pe_Spans (NaiveBuf n) pos len = naive_Spans n pos len"
| "pe_Spans (DocBuf d) pos len = doc_Spans d pos len"

fun pe_inv :: "pieceEditor \<Rightarrow> bool" where
  "pe_inv (NaiveBuf n) = naive_inv n"
| "pe_inv (DocBuf d) = doc_inv d"

fun pe_fits :: "pieceEditor \<Rightarrow> PieceRec \<Rightarrow> bool" where
  "pe_fits (NaiveBuf n) = naive_fits n"
| "pe_fits (DocBuf d) = doc_fits d"

fun pe_pieces :: "pieceEditor \<Rightarrow> PieceRec list" where
  "pe_pieces (NaiveBuf n) = nPieces n"
| "pe_pieces (DocBuf d) = doc_pieces d"

interpretation pe: piece_editor pe_inv pe_fits pe_Store pe_set_store pe_pieces pe_Len
    pe_insertRecs pe_removeRange pe_pieceRange pe_Slice
proof
  fix b :: pieceEditor and p r :: PieceRec
  show "pe_fits b p \<Longrightarrow> sub_piece r p \<Longrightarrow> pe_fits b r"
    by (cases b) (auto intro: naive_ed.fits_sub doc_ed.fits_sub)
next
  fix b :: pieceEditor
  show "pe_inv b \<Longrightarrow> pos_ok (pe_pieces b) \<and> (\<forall>r \<in> set (pe_pieces b). rec_in_store (pe_Store b) r \<and> pe_fits b r)"
    by (cases b) (use naive_ed.inv_pieces doc_ed.inv_pieces in auto)
  show "pe_inv b \<Longrightarrow> pe_Len b = recsLen (pe_pieces b)"
    by (cases b) (auto simp: naive_ed.len_pieces doc_ed.len_pieces)
next
  fix b :: pieceEditor and recs pos
  show "pe_inv b \<Longrightarrow> \<forall>r \<in> set recs. pe_fits b r \<and> rec_in_store (pe_Store b) r \<Longrightarrow>
      pe_inv (pe_insertRecs b pos recs) \<and>
      flat (pe_pieces (pe_insertRecs b pos recs)) = put_at pos (flat recs) (flat (pe_pieces b)) \<and>
      pe_Store (pe_insertRecs b pos recs) = pe_Store b \<and> pe_fits (pe_insertRecs b pos recs) = pe_fits b"
    by (cases b) (simp_all add: naive_ed.insert_law doc_ed.insert_law)
next
  fix b b' :: pieceEditor and pos m q k out
  assume a: "pe_inv b" "clampRange pos m (pe_Len b) = (q, k)" "pe_removeRange b pos m = (out, b')"
  show "pe_inv b' \<and> flat out = sub_range q k (flat (pe_pieces b)) \<and> flat (pe_pieces b') = cut_range q k (flat (pe_pieces b)) \<and>
      within out (pe_pieces b) \<and> pe_Store b' = pe_Store b \<and> pe_fits b' = pe_fits b"
  proof (cases b)
    case (NaiveBuf n)
    obtain n' where n: "naive_removeRange n pos m = (out, n')" "b' = NaiveBuf n'"
      using a(3) NaiveBuf by (auto split: prod.splits)
    then show ?thesis using naive_ed.remove_law[of n pos m q k out n'] a NaiveBuf by simp
  next
    case (DocBuf d)
    obtain d' where d: "doc_cut d pos m = (out, d')" "b' = DocBuf d'"
      using a(3) DocBuf by (auto split: prod.splits)
    then show ?thesis using doc_ed.remove_law[of d pos m q k out d'] a DocBuf by simp
  qed
next
  fix b :: pieceEditor and pos m q k
  show "pe_inv b \<Longrightarrow> clampRange pos m (pe_Len b) = (q, k) \<Longrightarrow>
      flat (pe_pieceRange b pos m) = sub_range q k (flat (pe_pieces b)) \<and> within (pe_pieceRange b pos m) (pe_pieces b)"
    by (cases b) (simp_all add: naive_ed.range_law doc_ed.range_law)
  show "pe_inv b \<Longrightarrow> clampRange pos m (pe_Len b) = (q, k) \<Longrightarrow>
      pe_Slice b pos m = map (byte_at (pe_Store b)) (sub_range q k (flat (pe_pieces b)))"
    by (cases b) (simp_all add: naive_ed.slice_law doc_ed.slice_law)
next
  fix b :: pieceEditor and st
  show "pe_inv b \<Longrightarrow> store_le (pe_Store b) st \<Longrightarrow>
      pe_inv (pe_set_store st b) \<and> pe_Store (pe_set_store st b) = st \<and>
      pe_pieces (pe_set_store st b) = pe_pieces b \<and> pe_fits (pe_set_store st b) = pe_fits b"
    by (cases b) (simp_all add: naive_ed.append_law doc_ed.append_law)
qed

text \<open>A buffer's bytes, its text, and the records that can be spliced into it.\<close>

definition pe_content :: "pieceEditor \<Rightarrow> addr list" where
  "pe_content b = flat (pe_pieces b)"

definition pe_text :: "pieceEditor \<Rightarrow> byte list" where
  "pe_text b = map (byte_at (pe_Store b)) (pe_content b)"

definition pe_splice_ok :: "pieceEditor \<Rightarrow> PieceRec list \<Rightarrow> bool" where
  "pe_splice_ok b recs \<longleftrightarrow> (\<forall>r \<in> set recs. pe_fits b r \<and> rec_in_store (pe_Store b) r)"

lemmas pe_length_content = pe.length_content[folded pe_content_def]
  and pe_pieceRange_exact = pe.pieceRange_exact[folded pe_content_def pe_splice_ok_def]
  and pe_replace_law = pe.replace_law[folded pe_content_def pe_splice_ok_def]
  and pe_replace_back = pe.replace_back[folded pe_content_def pe_splice_ok_def]
  and pe_slice_law = pe.slice_law[folded pe_content_def]
  and pe_text_stable = pe.text_stable[folded pe_content_def]
  and pe_within_splice = pe.within_spliceable[folded pe_splice_ok_def]

end
