(* ===== verification/Journal.thy ===== *)
theory Journal
  imports PieceEditor
begin

text \<open>
  Journal operations (\<open>internal/piecetable/oplog.go\<close>) and the session state with its commits,
  liveness and rebase walk (\<open>session.go\<close>). A \<open>Version\<close> and a group id are Go \<open>uint64\<close> counters,
  modelled by \<open>nat\<close>; a Go map is an association list (no code depends on map order).
\<close>

section \<open>Operations (oplog.go)\<close>

datatype OpKind = KindEdit | KindUndo | KindRedo

record Op =
  opSeq :: nat
  opAuthor :: author
  opPos :: int
  opDel :: "PieceRec list"
  opIns :: "PieceRec list"
  opUndoes :: nat
  opGroup :: nat
  opKind :: OpKind

definition DelLen :: "Op \<Rightarrow> int" where "DelLen o1 = recsLen (opDel o1)"
definition InsLen :: "Op \<Rightarrow> int" where "InsLen o1 = recsLen (opIns o1)"
definition Delta :: "Op \<Rightarrow> int" where "Delta o1 = InsLen o1 - DelLen o1"

text \<open>The inverse's \<open>Seq\<close> is Go's zero value until it is committed.\<close>

definition Inverse :: "Op \<Rightarrow> Op" where
  "Inverse o1 = \<lparr>opSeq = 0, opAuthor = opAuthor o1, opPos = opPos o1, opDel = opIns o1, opIns = opDel o1,
     opUndoes = opSeq o1, opGroup = opGroup o1,
     opKind = (if opKind o1 = KindUndo then KindRedo else KindUndo)\<rparr>"

definition apply_op :: "pieceEditor \<Rightarrow> Op \<Rightarrow> pieceEditor" where
  "apply_op b o1 =
     pe_insertRecs (if 0 < DelLen o1 then snd (pe_removeRange b (opPos o1) (DelLen o1)) else b) (opPos o1) (opIns o1)"

definition mapPoint :: "Op \<Rightarrow> int \<Rightarrow> int \<times> bool" where
  "mapPoint o1 p =
     (if opPos o1 + DelLen o1 \<le> p then (p + Delta o1, False)
      else if p \<le> opPos o1 then (p, False)
      else (opPos o1, True))"

section \<open>The session (session.go)\<close>

datatype GroupState = Accepted | Proposed | Rejected

record insOrigin =
  orBuf :: int
  orStart :: int
  orEnd :: int
  orGroup :: nat

record session =
  sBuf :: pieceEditor
  sOrigLen :: int
  sJournal :: "Op list"
  sGroupState :: "(nat \<times> GroupState) list"
  sGroupTask :: "(nat \<times> string) list"
  sReversers :: "(nat \<times> nat list) list"
  sCompacted :: "insOrigin list"
  sGroup :: nat
  sDepth :: nat

definition NewSession :: "pieceEditor \<Rightarrow> session" where
  "NewSession b = \<lparr>sBuf = b, sOrigLen = store_Len (pe_Store b) Original, sJournal = [], sGroupState = [],
     sGroupTask = [], sReversers = [], sCompacted = [], sGroup = 0, sDepth = 0\<rparr>"

definition revs :: "(nat \<times> nat list) list \<Rightarrow> nat \<Rightarrow> nat list" where
  "revs m v = (case map_of m v of None \<Rightarrow> [] | Some l \<Rightarrow> l)"

definition add_rev :: "(nat \<times> nat list) list \<Rightarrow> nat \<Rightarrow> nat \<Rightarrow> (nat \<times> nat list) list" where
  "add_rev m target r = AList.update target (revs m target @ [r]) m"

text \<open>The loop of \<open>NewRestoredSession\<close> over the persisted ops.\<close>

fun restore_ops :: "session \<Rightarrow> Op list \<Rightarrow> session" where
  "restore_ops s [] = s"
| "restore_ops s (p # ops) =
     restore_ops (s\<lparr>sBuf := apply_op (sBuf s) p,
       sReversers := (if opKind p \<noteq> KindEdit then add_rev (sReversers s) (opUndoes p) (opSeq p) else sReversers s),
       sGroup := max (opGroup p) (sGroup s)\<rparr>) ops"

definition NewRestoredSession ::
  "pieceEditor \<Rightarrow> Op list \<Rightarrow> (nat \<times> GroupState) list \<Rightarrow> int \<Rightarrow> session" where
  "NewRestoredSession b ops gs baseLen =
     (let s = restore_ops ((NewSession b)\<lparr>sOrigLen := baseLen\<rparr>) ops
      in s\<lparr>sJournal := ops, sGroupState := filter (\<lambda>(g, st). st \<noteq> Accepted) gs\<rparr>)"

definition Version :: "session \<Rightarrow> nat" where "Version s = length (sJournal s)"

definition LengthAt :: "session \<Rightarrow> nat \<Rightarrow> int option" where
  "LengthAt s v =
     (if length (sJournal s) < v then None
      else Some (sOrigLen s + (\<Sum>x\<leftarrow>take v (sJournal s). Delta x)))"

definition Begin :: "session \<Rightarrow> session" where
  "Begin s = s\<lparr>sGroup := (if sDepth s = 0 then sGroup s + 1 else sGroup s), sDepth := sDepth s + 1\<rparr>"

definition End :: "session \<Rightarrow> session" where
  "End s = s\<lparr>sDepth := sDepth s - 1\<rparr>"

definition commitInto :: "session \<Rightarrow> Op \<Rightarrow> nat \<Rightarrow> session" where
  "commitInto s o0 group0 =
     (let s1 = (if group0 = 0 \<and> sDepth s = 0 then s\<lparr>sGroup := sGroup s + 1\<rparr> else s);
          group = (if group0 = 0 then sGroup s1 else group0);
          p = o0\<lparr>opGroup := group, opSeq := length (sJournal s)\<rparr>
      in s1\<lparr>sBuf := apply_op (sBuf s1) p,
            sJournal := sJournal s1 @ [p],
            sReversers := (if opKind p \<noteq> KindEdit then add_rev (sReversers s1) (opUndoes p) (opSeq p)
                           else sReversers s1)\<rparr>)"

definition commit :: "session \<Rightarrow> Op \<Rightarrow> session" where
  "commit s p = commitInto s p 0"

definition groupAuthor :: "session \<Rightarrow> nat \<Rightarrow> author option" where
  "groupAuthor s gid =
     map_option opAuthor (find (\<lambda>p. opGroup p = gid \<and> opKind p = KindEdit) (sJournal s))"

definition edit_op :: "author \<Rightarrow> int \<Rightarrow> PieceRec list \<Rightarrow> PieceRec list \<Rightarrow> Op" where
  "edit_op a pos del ins = \<lparr>opSeq = 0, opAuthor = a, opPos = pos, opDel = del, opIns = ins, opUndoes = 0,
     opGroup = 0, opKind = KindEdit\<rparr>"

text \<open>Appending through the buffer's store pointer.\<close>

definition session_append :: "session \<Rightarrow> author \<Rightarrow> byte list \<Rightarrow> int \<times> session" where
  "session_append s a text =
     (let (start, st) = store_Append (pe_Store (sBuf s)) a text
      in (start, s\<lparr>sBuf := pe_set_store st (sBuf s)\<rparr>))"

definition Insert :: "session \<Rightarrow> author \<Rightarrow> int \<Rightarrow> byte list \<Rightarrow> session" where
  "Insert s a pos0 text =
     (if text = [] then s
      else let pos = fst (clampRange pos0 0 (pe_Len (sBuf s)));
               (start, s1) = session_append s a text
           in commit s1 (edit_op a pos [] [piece a start (int (length text))]))"

definition Delete :: "session \<Rightarrow> author \<Rightarrow> int \<Rightarrow> int \<Rightarrow> session" where
  "Delete s a pos0 len0 =
     (let (pos, len) = clampRange pos0 len0 (pe_Len (sBuf s))
      in if len = 0 then s else commit s (edit_op a pos (pe_pieceRange (sBuf s) pos len) []))"

definition Snapshot :: "session \<Rightarrow> int \<Rightarrow> int \<Rightarrow> PieceRec list" where
  "Snapshot s pos len = pe_pieceRange (sBuf s) pos len"

definition InsertPieces :: "session \<Rightarrow> author \<Rightarrow> int \<Rightarrow> PieceRec list \<Rightarrow> session" where
  "InsertPieces s a pos0 recs =
     (if recs = [] then s
      else commit s (edit_op a (fst (clampRange pos0 0 (pe_Len (sBuf s)))) [] recs))"

definition LastOp :: "session \<Rightarrow> Op option" where
  "LastOp s = (if sJournal s = [] then None else Some (last (sJournal s)))"

text \<open>Go converts the version to a signed \<open>int\<close> before comparing; slicing the journal with a
  version past its end panics, which is the value \<open>None\<close>.\<close>

definition int_of_version :: "nat \<Rightarrow> int" where
  "int_of_version v = sint (word_of_nat v :: 64 word)"

definition OpsSince :: "session \<Rightarrow> nat \<Rightarrow> Op list option" where
  "OpsSince s v =
     (if int (length (sJournal s)) \<le> int_of_version v then Some []
      else if length (sJournal s) < v then None
      else Some (drop v (sJournal s)))"

section \<open>Liveness\<close>

lemma set_revs: "set (revs m r) \<subseteq> set (concat (map snd m))"
proof (cases "map_of m r")
  case (Some l)
  then have "(r, l) \<in> set m" by (rule map_of_SomeD)
  then show ?thesis using Some by (force simp: revs_def)
qed (simp add: revs_def)

function live_loop :: "(nat \<times> nat list) list \<Rightarrow> nat list \<Rightarrow> nat list \<Rightarrow> bool \<times> nat list" where
  "live_loop m [] seen = (True, seen)"
| "live_loop m (r # rs) seen =
     (if r \<in> set seen then live_loop m rs seen
      else let (l, seen') = live_loop m (revs m r) (r # seen)
           in if l then (False, seen') else live_loop m rs seen')"
  by pat_completeness auto

termination
proof (relation "inv_image (less_than <*lex*> less_than)
    (\<lambda>(m, rs, seen). (card (set (concat (map snd m)) \<union> set rs - set seen), length rs))", goal_cases)
  case 1
  then show ?case by (intro wf_inv_image wf_lex_prod wf_less_than)
next
  case (2 m r rs seen)
  let ?U = "set (concat (map snd m))"
  have "card (?U \<union> set rs - set seen) \<le> card (?U \<union> set (r # rs) - set seen)" by (intro card_mono) auto
  then show ?case by (auto simp: less_le)
next
  case (3 m r rs seen)
  let ?U = "set (concat (map snd m))"
  have "?U \<union> set (revs m r) - set (r # seen) \<subset> ?U \<union> set (r # rs) - set seen"
    using 3 set_revs[of m r] by auto
  then have "card (?U \<union> set (revs m r) - set (r # seen)) < card (?U \<union> set (r # rs) - set seen)"
    by (intro psubset_card_mono) auto
  then show ?case by simp
next
  case (4 m r rs seen x l seen')
  let ?U = "set (concat (map snd m))"
  have live_loop_seen: "live_loop_dom (m, rs, seen) \<Longrightarrow> set seen \<subseteq> set (snd (live_loop m rs seen))" for m rs seen
  proof (induction rule: live_loop.pinduct)
    case (1 m seen)
    then show ?case by (simp add: live_loop.psimps)
  next
    case (2 m r rs seen)
    obtain l seen' where v: "live_loop m (revs m r) (r # seen) = (l, seen')" by fastforce
    show ?case
    proof (cases "r \<in> set seen")
      case True
      then show ?thesis using 2 by (simp add: live_loop.psimps)
    next
      case False
      have "set (r # seen) \<subseteq> set seen'" using "2.IH"(2)[OF False] v by simp
      moreover have "\<not> l \<Longrightarrow> set seen' \<subseteq> set (snd (live_loop m rs seen'))"
        using "2.IH"(3)[OF False v[symmetric] refl] by simp
      ultimately show ?thesis using 2(1) False v by (cases l) (auto simp: live_loop.psimps)
    qed
  qed
  have "set (r # seen) \<subseteq> set seen'" using live_loop_seen[OF 4(5)] 4(2,3) by (metis snd_conv)
  then have "card (?U \<union> set rs - set seen') \<le> card (?U \<union> set (r # rs) - set seen)" by (intro card_mono) auto
  then show ?case by (auto simp: less_le)
qed

definition live :: "session \<Rightarrow> nat \<Rightarrow> bool" where
  "live s seq =
     (if revs (sReversers s) seq = [] then True
      else fst (live_loop (sReversers s) (revs (sReversers s) seq) [seq]))"

definition liveReverser :: "session \<Rightarrow> nat \<Rightarrow> nat option" where
  "liveReverser s seq = find (live s) (revs (sReversers s) seq)"

section \<open>Rebase\<close>

record anchor =
  anSeq :: nat
  anRight :: bool

record point =
  ptAt :: int
  ptHeld :: bool
  ptBy :: nat
  ptOff :: int
  ptAnchored :: "anchor list"

definition start_point :: "int \<Rightarrow> point" where
  "start_point p = \<lparr>ptAt = p, ptHeld = False, ptBy = 0, ptOff = 0, ptAnchored = []\<rparr>"

definition damages :: "session \<Rightarrow> Op \<Rightarrow> point \<Rightarrow> point \<Rightarrow> nat option" where
  "damages s p lo hi =
     (if opKind p \<noteq> KindEdit \<or> \<not> live s (opSeq p) then None
      else if ptHeld lo \<or> ptHeld hi then None
      else if ptAt lo < opPos p + DelLen p \<and> opPos p < ptAt hi then Some (opSeq p)
      else None)"

fun releases :: "anchor list \<Rightarrow> nat \<Rightarrow> (bool \<times> anchor list) option" where
  "releases [] target = None"
| "releases (a # as) target =
     (if anSeq a = target then Some (anRight a, as)
      else map_option (\<lambda>(r, as'). (r, a # as')) (releases as target))"

definition carry :: "session \<Rightarrow> point \<Rightarrow> Op \<Rightarrow> bool \<Rightarrow> point" where
  "carry s p q rightward =
     (if ptHeld p
      then (if opSeq q = ptBy p then p\<lparr>ptAt := opPos q + ptOff p, ptHeld := False\<rparr> else p)
      else let d = DelLen q in
        if d = 0 \<and> opPos q = ptAt p
        then (case releases (ptAnchored p) (opUndoes q) of
                Some (right, as) \<Rightarrow>
                  (let p' = p\<lparr>ptAnchored := as\<rparr> in if right then p' else p'\<lparr>ptAt := ptAt p + Delta q\<rparr>)
              | None \<Rightarrow> if \<not> rightward then p else p\<lparr>ptAt := ptAt p + Delta q\<rparr>)
        else if opPos q + d \<le> ptAt p
        then (let p' = (if 0 < d \<and> opPos q + d = ptAt p
                        then p\<lparr>ptAnchored := ptAnchored p @ [\<lparr>anSeq = opSeq q, anRight = False\<rparr>]\<rparr> else p)
              in p'\<lparr>ptAt := ptAt p + Delta q\<rparr>)
        else if ptAt p \<le> opPos q
        then (if 0 < d \<and> opPos q = ptAt p
              then p\<lparr>ptAnchored := ptAnchored p @ [\<lparr>anSeq = opSeq q, anRight = True\<rparr>]\<rparr> else p)
        else (case liveReverser s (opSeq q) of
                Some r \<Rightarrow> p\<lparr>ptHeld := True, ptBy := r, ptOff := ptAt p - opPos q\<rparr>
              | None \<Rightarrow> p\<lparr>ptAt := opPos q\<rparr>))"

text \<open>The walk: the carried range, or the op that damaged it.\<close>

fun rebase_walk :: "session \<Rightarrow> point \<Rightarrow> point \<Rightarrow> Op list \<Rightarrow> int \<times> int \<times> nat \<times> bool" where
  "rebase_walk s lo hi [] =
     (if ptHeld lo \<or> ptHeld hi then (0, 0, ptBy lo, False) else (ptAt lo, ptAt hi, 0, True))"
| "rebase_walk s lo hi (q # qs) =
     (case damages s q lo hi of
        Some at \<Rightarrow> (0, 0, at, False)
      | None \<Rightarrow>
          (let empty = (\<not> ptHeld lo \<and> \<not> ptHeld hi \<and> ptAt lo = ptAt hi)
           in rebase_walk s (carry s lo q True) (carry s hi q empty) qs))"

definition rebase :: "session \<Rightarrow> int \<Rightarrow> int \<Rightarrow> nat \<Rightarrow> int \<times> int \<times> nat \<times> bool" where
  "rebase s start end base =
     (if int (length (sJournal s)) < int_of_version base then (0, 0, 0, False)
      else rebase_walk s (start_point start) (start_point end) (drop base (sJournal s)))"

text \<open>Slicing the journal with a version past its end panics.\<close>

definition rebase_panics :: "session \<Rightarrow> nat \<Rightarrow> bool" where
  "rebase_panics s base \<longleftrightarrow>
     \<not> int (length (sJournal s)) < int_of_version base \<and> length (sJournal s) < base"

definition rebasedInverseAt :: "session \<Rightarrow> Op \<Rightarrow> (nat, Op) sum" where
  "rebasedInverseAt s p =
     (let (start, end, at, ok) = rebase s (opPos p) (opPos p + InsLen p) (opSeq p + 1)
      in if \<not> ok \<or> end - start \<noteq> InsLen p \<or> pe_Len (sBuf s) < end then Inl at
         else Inr ((Inverse p)\<lparr>opPos := start\<rparr>))"

definition rebasedInverse :: "session \<Rightarrow> Op \<Rightarrow> Op option" where
  "rebasedInverse s p = (case rebasedInverseAt s p of Inl at \<Rightarrow> None | Inr iv \<Rightarrow> Some iv)"

end
