(* ===== verification/SessionInv.thy ===== *)
theory SessionInv
  imports Journal
begin

text \<open>
  The invariant of a session of \<open>internal/piecetable/session.go\<close>: the document is the journal
  replayed over the base, every op records the bytes it removed, sequence numbers are positions,
  and the reversal index is derived from the journal. Commits keep it.
\<close>

section \<open>Bytes\<close>

lemma map_put_at: "map f (put_at pos ys xs) = put_at pos (map f ys) (map f xs)"
  by (simp add: put_at_def take_map drop_map)

lemma map_cut_range: "map f (cut_range pos n xs) = cut_range pos n (map f xs)"
  by (simp add: cut_range_def take_map drop_map)

lemma map_sub_range: "map f (sub_range pos n xs) = sub_range pos n (map f xs)"
  by (simp add: sub_range_def take_map drop_map)

text \<open>What an op does to the text, reading its pieces from the stores.\<close>

definition text_step :: "store \<Rightarrow> Op \<Rightarrow> byte list \<Rightarrow> byte list" where
  "text_step st q tx = put_at (opPos q) (recs_text st (opIns q)) (cut_range (opPos q) (DelLen q) tx)"

definition step_ok :: "store \<Rightarrow> byte list \<Rightarrow> Op \<Rightarrow> bool" where
  "step_ok st tx q \<longleftrightarrow> 0 \<le> opPos q \<and> opPos q + DelLen q \<le> int (length tx) \<and>
     recs_text st (opDel q) = sub_range (opPos q) (DelLen q) tx"

definition op_recs_ok :: "pieceEditor \<Rightarrow> Op \<Rightarrow> bool" where
  "op_recs_ok b q \<longleftrightarrow> pe_splice_ok b (opDel q) \<and> pe_splice_ok b (opIns q)"

lemma splice_ok_lens: "pe_splice_ok b recs \<Longrightarrow> lens_ok recs"
  by (auto simp: pe_splice_ok_def lens_ok_def rec_in_store_def)

lemma splice_ok_store: "pe_splice_ok b recs \<Longrightarrow> \<forall>r \<in> set recs. rec_in_store (pe_Store b) r"
  by (auto simp: pe_splice_ok_def)

lemma splice_ok_text: "pe_splice_ok b recs \<Longrightarrow> recs_text (pe_Store b) recs = map (byte_at (pe_Store b)) (flat recs)"
  by (rule recs_text_bytes[OF splice_ok_store])

lemma splice_ok_length: "pe_splice_ok b recs \<Longrightarrow> int (length (recs_text (pe_Store b) recs)) = recsLen recs"
  by (simp add: splice_ok_text length_flat splice_ok_lens)

lemma splice_ok_nonneg: "pe_splice_ok b recs \<Longrightarrow> 0 \<le> recsLen recs"
  by (rule recsLen_nonneg[OF splice_ok_lens])

lemma pe_text_length: "pe_inv b \<Longrightarrow> int (length (pe_text b)) = pe_Len b"
  by (simp add: pe_text_def pe_length_content)

lemma apply_op_law:
  assumes "pe_inv b" "op_recs_ok b q" "step_ok (pe_Store b) (pe_text b) q"
  shows "pe_inv (apply_op b q)" "pe_text (apply_op b q) = text_step (pe_Store b) q (pe_text b)"
    "pe_Store (apply_op b q) = pe_Store b" "pe_fits (apply_op b q) = pe_fits b"
proof -
  have "0 \<le> opPos q" "0 \<le> DelLen q" "opPos q + DelLen q \<le> pe_Len b" "pe_splice_ok b (opIns q)"
    using assms splice_ok_nonneg pe_text_length by (auto simp: step_ok_def op_recs_ok_def DelLen_def)
  note R = pe_replace_law[OF assms(1) this, folded apply_op_def]
  show "pe_inv (apply_op b q)" "pe_Store (apply_op b q) = pe_Store b" "pe_fits (apply_op b q) = pe_fits b"
    using R by auto
  show "pe_text (apply_op b q) = text_step (pe_Store b) q (pe_text b)"
    using R(2,3) assms(2) by (simp add: pe_text_def text_step_def map_put_at map_cut_range splice_ok_text op_recs_ok_def)
qed

lemma length_text_step:
  assumes "pe_splice_ok b (opIns q)" "pe_splice_ok b (opDel q)" "step_ok (pe_Store b) tx q"
  shows "int (length (text_step (pe_Store b) q tx)) = int (length tx) + Delta q"
  using assms length_cut_range[of "opPos q" "DelLen q" tx] splice_ok_nonneg[OF assms(2)] splice_ok_length[OF assms(1)]
  by (simp add: text_step_def step_ok_def Delta_def InsLen_def DelLen_def)

text \<open>An op followed by its inverse, at the same place, leaves the text as it was.\<close>

lemma text_step_inverse:
  assumes "pe_splice_ok b (opIns q)" "pe_splice_ok b (opDel q)" "step_ok (pe_Store b) tx q"
  shows "step_ok (pe_Store b) (text_step (pe_Store b) q tx) (Inverse q)"
    "text_step (pe_Store b) (Inverse q) (text_step (pe_Store b) q tx) = tx"
proof -
  let ?c = "cut_range (opPos q) (DelLen q) tx" and ?i = "recs_text (pe_Store b) (opIns q)"
  have s: "0 \<le> opPos q" "opPos q + DelLen q \<le> int (length tx)" "0 \<le> DelLen q"
      "recs_text (pe_Store b) (opDel q) = sub_range (opPos q) (DelLen q) tx"
    using assms splice_ok_nonneg by (auto simp: step_ok_def DelLen_def)
  have p: "opPos q \<le> int (length ?c)" using length_cut_range[of "opPos q" "DelLen q" tx] s by simp
  have il: "DelLen (Inverse q) = int (length ?i)" "0 \<le> DelLen (Inverse q)"
    using splice_ok_length[OF assms(1)] splice_ok_nonneg[OF assms(1)] by (simp_all add: Inverse_def DelLen_def)
  have cut: "cut_range (opPos q) (int (length ?i)) (put_at (opPos q) ?i ?c) = ?c" by (rule cut_put_same[OF s(1) p])
  have sub: "sub_range (opPos q) (int (length ?i)) (put_at (opPos q) ?i ?c) = ?i"
    using s(1) p by (simp add: sub_range_def put_at_def)
  show "step_ok (pe_Store b) (text_step (pe_Store b) q tx) (Inverse q)"
    using il p s(1) sub by (simp add: step_ok_def text_step_def Inverse_def)
  show "text_step (pe_Store b) (Inverse q) (text_step (pe_Store b) q tx) = tx"
    using cut s(4) put_cut_same[OF s(1,3,2)] unfolding text_step_def il(1) by (simp add: Inverse_def)
qed

section \<open>Replay\<close>

fun replay :: "store \<Rightarrow> byte list \<Rightarrow> Op list \<Rightarrow> byte list" where
  "replay st tx [] = tx"
| "replay st tx (q # qs) = replay st (text_step st q tx) qs"

fun replay_ok :: "store \<Rightarrow> byte list \<Rightarrow> Op list \<Rightarrow> bool" where
  "replay_ok st tx [] \<longleftrightarrow> True"
| "replay_ok st tx (q # qs) \<longleftrightarrow> step_ok st tx q \<and> replay_ok st (text_step st q tx) qs"

lemma replay_append: "replay st tx (xs @ ys) = replay st (replay st tx xs) ys"
  by (induction xs arbitrary: tx) auto

lemma replay_ok_append: "replay_ok st tx (xs @ ys) \<longleftrightarrow> replay_ok st tx xs \<and> replay_ok st (replay st tx xs) ys"
  by (induction xs arbitrary: tx) auto

text \<open>Appending to the stores changes nothing that was recorded.\<close>

lemma replay_store_mono:
  assumes "store_le st st'" "\<forall>q \<in> set qs. \<forall>r \<in> set (opDel q) \<union> set (opIns q). rec_in_store st r"
  shows "replay st' tx qs = replay st tx qs \<and> replay_ok st' tx qs = replay_ok st tx qs"
  using assms(2)
proof (induction qs arbitrary: tx)
  case Nil
  then show ?case by simp
next
  case (Cons q qs)
  have "recs_text st' (opDel q) = recs_text st (opDel q)" "recs_text st' (opIns q) = recs_text st (opIns q)"
    using Cons.prems by (auto intro!: recs_text_mono[OF assms(1)])
  then show ?case using Cons by (simp add: text_step_def step_ok_def)
qed

lemma length_replay:
  assumes "\<forall>q \<in> set qs. op_recs_ok b q" "replay_ok (pe_Store b) tx qs"
  shows "int (length (replay (pe_Store b) tx qs)) = int (length tx) + (\<Sum>q\<leftarrow>qs. Delta q)"
  using assms
proof (induction qs arbitrary: tx)
  case Nil
  then show ?case by simp
next
  case (Cons q qs)
  then have "int (length (text_step (pe_Store b) q tx)) = int (length tx) + Delta q"
    by (intro length_text_step) (auto simp: op_recs_ok_def)
  then show ?case using Cons by simp
qed

section \<open>The invariant\<close>

text \<open>The base text: what the Original store held when the session took the buffer.\<close>

definition base_text :: "session \<Rightarrow> byte list" where
  "base_text s = take (nat (sOrigLen s)) (texts (pe_Store (sBuf s)) ! 0)"

fun derive_reversers :: "Op list \<Rightarrow> (nat \<times> nat list) list \<Rightarrow> (nat \<times> nat list) list" where
  "derive_reversers [] m = m"
| "derive_reversers (q # qs) m =
     derive_reversers qs (if opKind q \<noteq> KindEdit then add_rev m (opUndoes q) (opSeq q) else m)"

definition text_inv :: "session \<Rightarrow> bool" where
  "text_inv s \<longleftrightarrow> pe_inv (sBuf s) \<and> texts (pe_Store (sBuf s)) \<noteq> [] \<and> 0 \<le> sOrigLen s \<and>
     sOrigLen s \<le> int (length (texts (pe_Store (sBuf s)) ! 0)) \<and>
     (\<forall>q \<in> set (sJournal s). op_recs_ok (sBuf s) q) \<and>
     replay_ok (pe_Store (sBuf s)) (base_text s) (sJournal s) \<and>
     pe_text (sBuf s) = replay (pe_Store (sBuf s)) (base_text s) (sJournal s)"

definition journal_inv :: "session \<Rightarrow> bool" where
  "journal_inv s \<longleftrightarrow> (\<forall>i < length (sJournal s). opSeq (sJournal s ! i) = i) \<and>
     (\<forall>q \<in> set (sJournal s). opKind q \<noteq> KindEdit \<longrightarrow> opUndoes q < opSeq q) \<and>
     (\<forall>q \<in> set (sJournal s). 0 < opGroup q \<and> opGroup q \<le> sGroup s) \<and>
     sReversers s = derive_reversers (sJournal s) []"

definition sess_inv :: "session \<Rightarrow> bool" where
  "sess_inv s \<longleftrightarrow> text_inv s \<and> journal_inv s"

lemma derive_reversers_append: "derive_reversers (xs @ ys) m = derive_reversers ys (derive_reversers xs m)"
  by (induction xs arbitrary: m) auto

text \<open>The part of the session a commit reads: any op whose records match the document.\<close>

definition commit_ok :: "session \<Rightarrow> Op \<Rightarrow> bool" where
  "commit_ok s q \<longleftrightarrow> op_recs_ok (sBuf s) q \<and> step_ok (pe_Store (sBuf s)) (pe_text (sBuf s)) q \<and>
     (opKind q \<noteq> KindEdit \<longrightarrow> opUndoes q < Version s)"

lemma op_fields [simp]:
  "DelLen (q\<lparr>opGroup := g, opSeq := v\<rparr>) = DelLen q" "InsLen (q\<lparr>opGroup := g, opSeq := v\<rparr>) = InsLen q"
  "apply_op b (q\<lparr>opGroup := g, opSeq := v\<rparr>) = apply_op b q"
  "text_step st (q\<lparr>opGroup := g, opSeq := v\<rparr>) tx = text_step st q tx"
  "step_ok st tx (q\<lparr>opGroup := g, opSeq := v\<rparr>) = step_ok st tx q"
  "op_recs_ok b (q\<lparr>opGroup := g, opSeq := v\<rparr>) = op_recs_ok b q"
  by (simp_all add: DelLen_def InsLen_def apply_op_def text_step_def step_ok_def op_recs_ok_def)

lemma op_recs_ok_cong: "pe_Store b' = pe_Store b \<Longrightarrow> pe_fits b' = pe_fits b \<Longrightarrow> op_recs_ok b' q = op_recs_ok b q"
  by (simp add: op_recs_ok_def pe_splice_ok_def)

lemma commitInto_fields:
  "sJournal (commitInto s q g) = sJournal s @ [q\<lparr>opGroup := (if g = 0 then sGroup (commitInto s q g) else g), opSeq := length (sJournal s)\<rparr>]"
  "sBuf (commitInto s q g) = apply_op (sBuf s) q"
  "sOrigLen (commitInto s q g) = sOrigLen s"
  "sGroup s \<le> sGroup (commitInto s q g)" "g = 0 \<Longrightarrow> sDepth s = 0 \<Longrightarrow> sGroup (commitInto s q g) = Suc (sGroup s)"
  "g \<noteq> 0 \<or> sDepth s \<noteq> 0 \<Longrightarrow> sGroup (commitInto s q g) = sGroup s"
  "sDepth (commitInto s q g) = sDepth s" "sGroupState (commitInto s q g) = sGroupState s"
  "sGroupTask (commitInto s q g) = sGroupTask s" "sCompacted (commitInto s q g) = sCompacted s"
  by (simp_all add: commitInto_def Let_def)

lemma commitInto_text_inv:
  assumes "text_inv s" "commit_ok s q"
  shows "text_inv (commitInto s q g)"
    "pe_text (sBuf (commitInto s q g)) = text_step (pe_Store (sBuf s)) q (pe_text (sBuf s))"
    "pe_Store (sBuf (commitInto s q g)) = pe_Store (sBuf s)" "pe_fits (sBuf (commitInto s q g)) = pe_fits (sBuf s)"
proof -
  have a: "pe_inv (sBuf s)" "op_recs_ok (sBuf s) q" "step_ok (pe_Store (sBuf s)) (pe_text (sBuf s)) q"
    using assms by (auto simp: text_inv_def commit_ok_def)
  note A = apply_op_law[OF a]
  show t: "pe_text (sBuf (commitInto s q g)) = text_step (pe_Store (sBuf s)) q (pe_text (sBuf s))"
    and st: "pe_Store (sBuf (commitInto s q g)) = pe_Store (sBuf s)"
    and fi: "pe_fits (sBuf (commitInto s q g)) = pe_fits (sBuf s)"
    using A by (simp_all add: commitInto_fields)
  have b: "base_text (commitInto s q g) = base_text s"
    by (simp add: base_text_def commitInto_fields st[unfolded commitInto_fields])
  have r: "op_recs_ok (sBuf (commitInto s q g)) p = op_recs_ok (sBuf s) p" for p
    using st fi by (rule op_recs_ok_cong)
  show "text_inv (commitInto s q g)"
    using assms(1) a t A(1) unfolding text_inv_def b st r
    by (simp add: commitInto_fields replay_append replay_ok_append)
qed

lemma commitInto_journal_inv:
  assumes "journal_inv s" "commit_ok s q" "g = 0 \<longrightarrow> 0 < sDepth s \<longrightarrow> 0 < sGroup s" "g \<le> sGroup s"
  shows "journal_inv (commitInto s q g)"
proof -
  let ?s = "commitInto s q g"
  let ?q = "q\<lparr>opGroup := (if g = 0 then sGroup ?s else g), opSeq := length (sJournal s)\<rparr>"
  have j: "sJournal ?s = sJournal s @ [?q]" by (rule commitInto_fields)
  have "\<forall>i < length (sJournal ?s). opSeq (sJournal ?s ! i) = i"
    using assms(1) by (auto simp: j journal_inv_def nth_append less_Suc_eq)
  moreover have "opGroup ?q \<le> sGroup ?s" using assms(4) commitInto_fields(4)[of s q g] by simp
  moreover have "0 < opGroup ?q"
    using assms(3) commitInto_fields(5,6)[of g s q] by (cases "g = 0"; cases "sDepth s = 0") auto
  moreover have "\<forall>p \<in> set (sJournal s). 0 < opGroup p \<and> opGroup p \<le> sGroup ?s"
    using assms(1) commitInto_fields(4)[of s q g] order_trans by (auto simp: journal_inv_def)
  moreover have "opKind ?q \<noteq> KindEdit \<longrightarrow> opUndoes ?q < opSeq ?q"
    using assms(2) by (simp add: commit_ok_def Version_def)
  moreover have "sReversers ?s = derive_reversers (sJournal ?s) []"
    using assms(1) by (simp add: j derive_reversers_append journal_inv_def commitInto_def Let_def)
  ultimately show ?thesis
    using assms(1) unfolding journal_inv_def j by auto
qed

section \<open>Starting out\<close>

definition fresh_buffer :: "pieceEditor \<Rightarrow> bool" where
  "fresh_buffer b \<longleftrightarrow> pe_inv b \<and> texts (pe_Store b) \<noteq> [] \<and> pe_text b = texts (pe_Store b) ! 0"

lemma NewSession_inv: "fresh_buffer b \<Longrightarrow> sess_inv (NewSession b)"
  by (auto simp: fresh_buffer_def NewSession_def sess_inv_def text_inv_def journal_inv_def base_text_def store_Len_def Original_def)

lemma fresh_NewNaive: "fresh_buffer (NaiveBuf (NewNaive orig))"
proof -
  have "\<forall>r \<in> set (orig_recs orig). rec_in_store (NewStore orig) r"
    by (auto simp: orig_recs_def rec_in_store_def NewStore_def Original_def)
  moreover from recs_text_bytes[OF this] have "map (byte_at (NewStore orig)) (flat (orig_recs orig)) = orig"
    by (auto simp: orig_recs_def recs_text_def rec_text_def store_Slice_def NewStore_def Original_def author_of_def
      sub_range_def Let_def)
  ultimately show ?thesis
    by (auto simp: fresh_buffer_def NewNaive_def naive_inv_def pe_text_def pe_content_def pos_ok_def NewStore_def orig_recs_def)
qed

lemma fresh_NewDoc:
  assumes "0 < nat width \<and> nat width \<le> 8 \<or> width \<le> 0" "int (length orig) < 2 ^ 62"
    "0 < width \<Longrightarrow> field_ok (nat width) (int (length orig))"
  shows "fresh_buffer (DocBuf (NewDoc orig width))"
proof -
  let ?d = "NewDoc orig width"
  note N = NewDoc_inv[OF assms]
  have "dStore ?d = nStore (NewNaive orig)" "doc_pieces ?d = nPieces (NewNaive orig)"
    using N(2) by (metis abs_doc_simps(1), metis abs_doc_simps(2) doc_pieces_def)
  then show ?thesis
    using N(1) fresh_NewNaive[of orig] by (simp add: fresh_buffer_def pe_text_def pe_content_def)
qed

end
