(* ===== verification/SessionOps.thy ===== *)
theory SessionOps
  imports SessionInv
begin

text \<open>
  What the editing operations of a session do to the text, and that they keep its invariant:
  \<open>Insert\<close>, \<open>Delete\<close>, \<open>InsertPieces\<close>, \<open>Begin\<close>, \<open>End\<close> of \<open>internal/piecetable/session.go\<close>,
  and what \<open>LengthAt\<close> reports.
\<close>

section \<open>Appending\<close>

text \<open>There is room for a text when its piece fits the records of the buffer. For the tree this
  bounds the growth of the author's store: the record width is fixed when the document is made.\<close>

definition room :: "session \<Rightarrow> author \<Rightarrow> byte list \<Rightarrow> bool" where
  "room s a text \<longleftrightarrow> 0 \<le> a \<and> a < 256 \<and>
     (text \<noteq> [] \<longrightarrow> pe_fits (sBuf s) (piece a (store_Len (pe_Store (sBuf s)) a) (int (length text))))"

lemma store_Append_start: "0 \<le> a \<Longrightarrow> fst (store_Append st a t) = store_Len st a"
  by (auto simp: store_Append_def Let_def store_grow_def store_Len_def nth_append)

text \<open>What every invariant of a session shares: a valid buffer, a base inside the Original store, and
  journal records that can be spliced.\<close>

definition carrier :: "session \<Rightarrow> bool" where
  "carrier s \<longleftrightarrow> pe_inv (sBuf s) \<and> texts (pe_Store (sBuf s)) \<noteq> [] \<and> 0 \<le> sOrigLen s \<and>
     sOrigLen s \<le> int (length (texts (pe_Store (sBuf s)) ! 0)) \<and> (\<forall>q \<in> set (sJournal s). op_recs_ok (sBuf s) q)"

lemma text_inv_carrier: "text_inv s \<Longrightarrow> carrier s"
  by (simp add: text_inv_def carrier_def)

text \<open>Growing the stores keeps all of it, the text of the document and every replay.\<close>

lemma grow_stores:
  assumes "carrier s" "store_le (pe_Store (sBuf s)) st"
  defines "s' \<equiv> s\<lparr>sBuf := pe_set_store st (sBuf s)\<rparr>"
  shows "carrier s'" "pe_text (sBuf s') = pe_text (sBuf s)" "pe_Len (sBuf s') = pe_Len (sBuf s)"
    "base_text s' = base_text s" "pe_Store (sBuf s') = st" "pe_pieces (sBuf s') = pe_pieces (sBuf s)"
    "pe_fits (sBuf s') = pe_fits (sBuf s)"
    "replay st tx (sJournal s) = replay (pe_Store (sBuf s)) tx (sJournal s)"
    "replay_ok st tx (sJournal s) = replay_ok (pe_Store (sBuf s)) tx (sJournal s)"
proof -
  let ?st = "pe_Store (sBuf s)"
  have iv: "pe_inv (sBuf s)" using assms(1) by (simp add: carrier_def)
  note L = pe.append_law[OF iv assms(2)]
  show tx: "pe_text (sBuf s') = pe_text (sBuf s)" "pe_Store (sBuf s') = st" "pe_pieces (sBuf s') = pe_pieces (sBuf s)"
    "pe_fits (sBuf s') = pe_fits (sBuf s)"
    using L pe_text_stable[OF iv assms(2)] by (simp_all add: pe_text_def pe_content_def s'_def)
  show "pe_Len (sBuf s') = pe_Len (sBuf s)"
    using pe_text_length[OF iv] pe_text_length[of "sBuf s'"] L tx by (simp add: s'_def)
  have ne: "texts ?st \<noteq> []" "sOrigLen s \<le> int (length (texts ?st ! 0))" using assms(1) by (auto simp: carrier_def)
  then have "0 < length (texts ?st)" by simp
  from store_leD[OF assms(2) this] obtain u where u: "texts st ! 0 = texts ?st ! 0 @ u" by blast
  show "base_text s' = base_text s" using u ne L by (simp add: base_text_def s'_def)
  have rs: "\<forall>q \<in> set (sJournal s). \<forall>r \<in> set (opDel q) \<union> set (opIns q). rec_in_store ?st r"
    using assms(1) by (auto simp: carrier_def op_recs_ok_def pe_splice_ok_def)
  show "replay st tx (sJournal s) = replay (pe_Store (sBuf s)) tx (sJournal s)"
    "replay_ok st tx (sJournal s) = replay_ok (pe_Store (sBuf s)) tx (sJournal s)"
    using replay_store_mono[OF assms(2) rs] by auto
  have "op_recs_ok (sBuf s') q" if "op_recs_ok (sBuf s) q" for q
    using that L rec_in_store_mono[OF assms(2)] by (auto simp: op_recs_ok_def pe_splice_ok_def s'_def)
  moreover have "texts st \<noteq> []" using assms(2) ne(1) by (auto simp: store_le_def)
  ultimately show "carrier s'" using assms(1) L u by (simp add: carrier_def s'_def)
qed

lemma session_append_grows:
  assumes "carrier s" "room s a t" "session_append s a t = (start, s')" "t \<noteq> []"
  shows "\<exists>st. store_le (pe_Store (sBuf s)) st \<and> s' = s\<lparr>sBuf := pe_set_store st (sBuf s)\<rparr>"
    "pe_splice_ok (sBuf s') [piece a start (int (length t))]"
    "recs_text (pe_Store (sBuf s')) [piece a start (int (length t))] = t"
proof -
  let ?st = "pe_Store (sBuf s)"
  have a: "0 \<le> a" "a < 256" using assms(2) by (auto simp: room_def)
  obtain st where A: "store_Append ?st a t = (start, st)" "s' = s\<lparr>sBuf := pe_set_store st (sBuf s)\<rparr>"
    using assms(3) by (auto simp: session_append_def split: prod.splits)
  have le: "store_le ?st st" using store_le_Append[OF a(1), of ?st t] A(1) by simp
  then show "\<exists>st. store_le (pe_Store (sBuf s)) st \<and> s' = s\<lparr>sBuf := pe_set_store st (sBuf s)\<rparr>" using A(2) by blast
  note L = grow_stores[OF assms(1) le, folded A(2)]
  have start: "start = store_Len ?st a" using store_Append_start[OF a(1), of ?st t] A(1) by simp
  note R = rec_in_store_Append[OF a A(1)]
  show "pe_splice_ok (sBuf s') [piece a start (int (length t))]"
    using R(1) L(5,7) assms(2,4) start by (simp add: pe_splice_ok_def room_def)
  show "recs_text (pe_Store (sBuf s')) [piece a start (int (length t))] = t" using R(2) L(5) by simp
qed

lemma session_append_law:
  assumes "text_inv s" "room s a t" "session_append s a t = (start, s')" "t \<noteq> []"
  shows "text_inv s'" "pe_text (sBuf s') = pe_text (sBuf s)" "pe_Len (sBuf s') = pe_Len (sBuf s)"
    "pe_splice_ok (sBuf s') [piece a start (int (length t))]"
    "recs_text (pe_Store (sBuf s')) [piece a start (int (length t))] = t"
    "s' = s\<lparr>sBuf := sBuf s'\<rparr>" "store_le (pe_Store (sBuf s)) (pe_Store (sBuf s'))"
proof -
  note c = text_inv_carrier[OF assms(1)]
  note A = session_append_grows[OF c assms(2-4)]
  obtain st where st: "store_le (pe_Store (sBuf s)) st" "s' = s\<lparr>sBuf := pe_set_store st (sBuf s)\<rparr>" using A(1) by blast
  note G = grow_stores[OF c st(1), folded st(2)]
  have j: "sJournal s' = sJournal s" by (simp add: st(2))
  show "text_inv s'" using assms(1) G unfolding text_inv_def carrier_def j by simp
  show "pe_text (sBuf s') = pe_text (sBuf s)" "pe_Len (sBuf s') = pe_Len (sBuf s)"
    "store_le (pe_Store (sBuf s)) (pe_Store (sBuf s'))" using G st(1) by simp_all
  show "pe_splice_ok (sBuf s') [piece a start (int (length t))]"
    "recs_text (pe_Store (sBuf s')) [piece a start (int (length t))] = t" by (rule A(2), rule A(3))
  show "s' = s\<lparr>sBuf := sBuf s'\<rparr>" by (simp add: st(2))
qed

lemma text_inv_cong:
  "sBuf s' = sBuf s \<Longrightarrow> sOrigLen s' = sOrigLen s \<Longrightarrow> sJournal s' = sJournal s \<Longrightarrow> text_inv s' = text_inv s"
  by (simp add: text_inv_def base_text_def)

section \<open>Edits\<close>

lemma edit_op_simps [simp]:
  "opPos (edit_op a p d i) = p" "opDel (edit_op a p d i) = d" "opIns (edit_op a p d i) = i"
  "opKind (edit_op a p d i) = KindEdit" "opAuthor (edit_op a p d i) = a"
  "DelLen (edit_op a p d i) = recsLen d" "InsLen (edit_op a p d i) = recsLen i"
  by (simp_all add: edit_op_def DelLen_def InsLen_def)

lemma session_append_journal_inv:
  assumes "journal_inv s" "session_append s a t = (start, s')"
  shows "journal_inv s'" "sGroup s' = sGroup s" "sDepth s' = sDepth s" "sJournal s' = sJournal s"
  using assms by (auto simp: session_append_def journal_inv_def split: prod.splits)

text \<open>Groups open only inside \<open>Begin\<close>, so a session in a transaction has a current group.\<close>

definition depth_ok :: "session \<Rightarrow> bool" where
  "depth_ok s \<longleftrightarrow> (0 < sDepth s \<longrightarrow> 0 < sGroup s)"

lemma commit_inv:
  assumes "sess_inv s" "depth_ok s" "commit_ok s q"
  shows "sess_inv (commit s q)" "depth_ok (commit s q)"
    "pe_text (sBuf (commit s q)) = text_step (pe_Store (sBuf s)) q (pe_text (sBuf s))"
  using assms commitInto_text_inv[of s q 0] commitInto_journal_inv[of s q 0] commitInto_fields(4,7)[of s q 0]
  by (auto simp: sess_inv_def depth_ok_def commit_def)

lemma Begin_inv: "sess_inv s \<Longrightarrow> depth_ok s \<Longrightarrow> sess_inv (Begin s) \<and> depth_ok (Begin s)"
  by (auto simp: sess_inv_def Begin_def depth_ok_def journal_inv_def text_inv_def base_text_def)

lemma End_inv: "sess_inv s \<Longrightarrow> depth_ok s \<Longrightarrow> sess_inv (End s) \<and> depth_ok (End s)"
  by (auto simp: sess_inv_def End_def depth_ok_def journal_inv_def text_inv_def base_text_def)

lemma sess_len: "sess_inv s \<Longrightarrow> pe_Len (sBuf s) = int (length (pe_text (sBuf s)))"
  unfolding sess_inv_def text_inv_def by (metis pe_text_length)

lemma clamp_point:
  "0 \<le> tot \<Longrightarrow> fst (clampRange pos 0 tot) = max 0 (min pos tot)"
  by (auto simp: clampRange_def Let_def)

lemma put_at_max: "put_at (max 0 p) xs ys = put_at p xs ys"
proof -
  have "nat (max 0 p) = nat p" by simp
  then show ?thesis unfolding put_at_def by (rule arg_cong)
qed

lemma Insert_law:
  assumes "sess_inv s" "depth_ok s" "room s a t"
  shows "sess_inv (Insert s a pos t)" "depth_ok (Insert s a pos t)"
    "pe_text (sBuf (Insert s a pos t)) = put_at (min pos (pe_Len (sBuf s))) t (pe_text (sBuf s))"
proof -
  have "sess_inv (Insert s a pos t) \<and> depth_ok (Insert s a pos t) \<and>
    pe_text (sBuf (Insert s a pos t)) = put_at (min pos (pe_Len (sBuf s))) t (pe_text (sBuf s))"
  proof (cases "t = []")
    case True
    then show ?thesis using assms by (simp add: Insert_def)
  next
    case False
    obtain start s1 where ap: "session_append s a t = (start, s1)" by fastforce
    let ?p = "fst (clampRange pos 0 (pe_Len (sBuf s)))"
    let ?q = "edit_op a ?p [] [piece a start (int (length t))]"
    note A = session_append_law[OF conjunct1[OF assms(1)[unfolded sess_inv_def]] assms(3) ap False]
    note J = session_append_journal_inv[OF conjunct2[OF assms(1)[unfolded sess_inv_def]] ap]
    have I1: "sess_inv s1" "depth_ok s1" using A(1) J assms(2) by (simp_all add: sess_inv_def depth_ok_def)
    have p: "?p = max 0 (min pos (pe_Len (sBuf s)))" using sess_len[OF assms(1)] by (simp add: clamp_point)
    then have pb: "0 \<le> ?p" "?p \<le> int (length (pe_text (sBuf s1)))" using sess_len[OF assms(1)] A(2) by auto
    have ok: "commit_ok s1 ?q" using A(4) pb by (simp add: commit_ok_def op_recs_ok_def step_ok_def pe_splice_ok_def)
    note C = commit_inv[OF I1 ok]
    have "Insert s a pos t = commit s1 ?q" using False ap by (simp add: Insert_def)
    moreover have "text_step (pe_Store (sBuf s1)) ?q (pe_text (sBuf s1)) = put_at ?p t (pe_text (sBuf s))"
      using A(2,5) by (simp add: text_step_def)
    moreover have "put_at ?p t (pe_text (sBuf s)) = put_at (min pos (pe_Len (sBuf s))) t (pe_text (sBuf s))"
      unfolding p by (rule put_at_max)
    ultimately show ?thesis using C by simp
  qed
  then show "sess_inv (Insert s a pos t)" "depth_ok (Insert s a pos t)"
    "pe_text (sBuf (Insert s a pos t)) = put_at (min pos (pe_Len (sBuf s))) t (pe_text (sBuf s))" by auto
qed

text \<open>The op that replaces a range of the document by given pieces is well-formed.\<close>

lemma replace_commit_ok:
  assumes "sess_inv s" "0 \<le> pos" "0 \<le> n" "pos + n \<le> pe_Len (sBuf s)" "pe_splice_ok (sBuf s) ins"
  shows "commit_ok s (edit_op a pos (pe_pieceRange (sBuf s) pos n) ins)"
proof -
  have iv: "pe_inv (sBuf s)" using assms(1) by (simp add: sess_inv_def text_inv_def)
  note R = pe_pieceRange_exact[OF iv assms(2-4)]
  have "recs_text (pe_Store (sBuf s)) (pe_pieceRange (sBuf s) pos n) = sub_range pos n (pe_text (sBuf s))"
    using R(1) splice_ok_text[OF R(2)] by (simp add: pe_text_def map_sub_range)
  then show ?thesis
    using assms R(2,3) sess_len[OF assms(1)]
    by (simp add: commit_ok_def op_recs_ok_def step_ok_def)
qed

lemma Delete_law:
  assumes "sess_inv s" "depth_ok s" "clampRange pos n (pe_Len (sBuf s)) = (p, k)"
  shows "sess_inv (Delete s a pos n)" "depth_ok (Delete s a pos n)"
    "pe_text (sBuf (Delete s a pos n)) = cut_range p k (pe_text (sBuf s))"
proof -
  have "0 \<le> pe_Len (sBuf s)" using sess_len[OF assms(1)] by simp
  note B = clampRange_bounds[OF this assms(3)]
  have "pe_inv (sBuf s)" using assms(1) by (simp add: sess_inv_def text_inv_def)
  note R = pe_pieceRange_exact[OF this B]
  have "sess_inv (Delete s a pos n) \<and> depth_ok (Delete s a pos n) \<and>
    pe_text (sBuf (Delete s a pos n)) = cut_range p k (pe_text (sBuf s))"
  proof (cases "k = 0")
    case True
    then show ?thesis using assms by (simp add: Delete_def)
  next
    case False
    let ?q = "edit_op a p (pe_pieceRange (sBuf s) p k) []"
    have "commit_ok s ?q" using replace_commit_ok[OF assms(1) B, of "[]"] by (simp add: pe_splice_ok_def)
    note C = commit_inv[OF assms(1,2) this]
    have "Delete s a pos n = commit s ?q" using False assms(3) by (simp add: Delete_def)
    then show ?thesis using C R(3) by (simp add: text_step_def)
  qed
  then show "sess_inv (Delete s a pos n)" "depth_ok (Delete s a pos n)"
    "pe_text (sBuf (Delete s a pos n)) = cut_range p k (pe_text (sBuf s))" by auto
qed

lemma InsertPieces_law:
  assumes "sess_inv s" "depth_ok s" "pe_splice_ok (sBuf s) recs"
  shows "sess_inv (InsertPieces s a pos recs)" "depth_ok (InsertPieces s a pos recs)"
    "pe_text (sBuf (InsertPieces s a pos recs)) =
       put_at (min pos (pe_Len (sBuf s))) (recs_text (pe_Store (sBuf s)) recs) (pe_text (sBuf s))"
proof -
  let ?p = "fst (clampRange pos 0 (pe_Len (sBuf s)))"
  have len: "pe_Len (sBuf s) = int (length (pe_text (sBuf s)))" by (rule sess_len[OF assms(1)])
  have p: "?p = max 0 (min pos (pe_Len (sBuf s)))" using len by (simp add: clamp_point)
  have "sess_inv (InsertPieces s a pos recs) \<and> depth_ok (InsertPieces s a pos recs) \<and>
    pe_text (sBuf (InsertPieces s a pos recs)) =
       put_at (min pos (pe_Len (sBuf s))) (recs_text (pe_Store (sBuf s)) recs) (pe_text (sBuf s))"
  proof (cases "recs = []")
    case True
    then show ?thesis using assms by (simp add: InsertPieces_def)
  next
    case False
    have ok: "commit_ok s (edit_op a ?p [] recs)"
      using assms(3) p len by (simp add: commit_ok_def op_recs_ok_def step_ok_def) (simp add: pe_splice_ok_def)
    have "put_at ?p xs ys = put_at (min pos (pe_Len (sBuf s))) xs ys" for xs ys :: "byte list"
      unfolding p by (rule put_at_max)
    then show ?thesis
      using False commit_inv[OF assms(1,2) ok] by (simp add: InsertPieces_def text_step_def)
  qed
  then show "sess_inv (InsertPieces s a pos recs)" "depth_ok (InsertPieces s a pos recs)"
    "pe_text (sBuf (InsertPieces s a pos recs)) =
       put_at (min pos (pe_Len (sBuf s))) (recs_text (pe_Store (sBuf s)) recs) (pe_text (sBuf s))" by auto
qed

section \<open>Lengths of past versions\<close>

text \<open>The document as it stood at a version.\<close>

definition text_at :: "session \<Rightarrow> nat \<Rightarrow> byte list" where
  "text_at s v = replay (pe_Store (sBuf s)) (base_text s) (take v (sJournal s))"

lemma text_at_now: "text_inv s \<Longrightarrow> Version s \<le> v \<Longrightarrow> text_at s v = pe_text (sBuf s)"
  by (simp add: text_at_def text_inv_def Version_def)

lemma text_at_0: "text_at s 0 = base_text s"
  by (simp add: text_at_def)

lemma text_at_Suc:
  "v < Version s \<Longrightarrow> text_at s (Suc v) = text_step (pe_Store (sBuf s)) (sJournal s ! v) (text_at s v)"
  by (simp add: text_at_def Version_def take_Suc_conv_app_nth replay_append)

lemma step_ok_at:
  assumes "text_inv s" "v < Version s"
  shows "step_ok (pe_Store (sBuf s)) (text_at s v) (sJournal s ! v)" "op_recs_ok (sBuf s) (sJournal s ! v)"
proof -
  have "sJournal s = take v (sJournal s) @ sJournal s ! v # drop (Suc v) (sJournal s)"
    using assms(2) by (simp add: Version_def id_take_nth_drop)
  then have "replay_ok (pe_Store (sBuf s)) (base_text s) (take v (sJournal s) @ sJournal s ! v # drop (Suc v) (sJournal s))"
    using assms(1) by (simp add: text_inv_def)
  then show "step_ok (pe_Store (sBuf s)) (text_at s v) (sJournal s ! v)"
    by (simp add: replay_ok_append text_at_def)
  show "op_recs_ok (sBuf s) (sJournal s ! v)" using assms by (simp add: text_inv_def Version_def)
qed

lemma base_text_length: "text_inv s \<Longrightarrow> int (length (base_text s)) = sOrigLen s"
  unfolding text_inv_def base_text_def length_take by linarith

lemma LengthAt_text:
  assumes "text_inv s"
  shows "LengthAt s v = (if Version s < v then None else Some (int (length (text_at s v))))"
proof -
  have ok: "\<forall>q \<in> set (take v (sJournal s)). op_recs_ok (sBuf s) q"
    using assms by (auto simp: text_inv_def dest: in_set_takeD)
  have "replay_ok (pe_Store (sBuf s)) (base_text s) (take v (sJournal s))"
    using assms replay_ok_append[of _ _ "take v (sJournal s)" "drop v (sJournal s)"] by (auto simp: text_inv_def)
  from length_replay[OF ok this] have "int (length (text_at s v)) = sOrigLen s + (\<Sum>q\<leftarrow>take v (sJournal s). Delta q)"
    using base_text_length[OF assms] by (simp add: text_at_def)
  then show ?thesis by (simp add: LengthAt_def Version_def)
qed

end
