(* ===== verification/Liveness.thy ===== *)
theory Liveness
  imports SessionOps
begin

text \<open>
  Liveness of journal ops (\<open>live\<close>, \<open>liveFrom\<close> of \<open>internal/piecetable/session.go\<close>): on the
  journal of a session the guarded walk computes the recursive definition of the comment, "an op is
  live exactly when no live op reverses it". The walk itself returns on every journal.
\<close>

section \<open>The reversal index\<close>

lemma revs_add_rev: "revs (add_rev m t r) v = (if v = t then revs m v @ [r] else revs m v)"
  by (simp add: revs_def add_rev_def update_conv')

lemma revs_derive:
  "revs (derive_reversers qs m) v = revs m v @ map opSeq (filter (\<lambda>q. opKind q \<noteq> KindEdit \<and> opUndoes q = v) qs)"
  by (induction qs arbitrary: m) (auto simp: revs_add_rev)

lemma revs_Nil [simp]: "revs [] v = []"
  by (simp add: revs_def)

lemma session_revs:
  assumes "journal_inv s"
  shows "revs (sReversers s) v = map opSeq (filter (\<lambda>q. opKind q \<noteq> KindEdit \<and> opUndoes q = v) (sJournal s))"
  using assms by (simp add: journal_inv_def revs_derive)

lemma in_session_revs:
  assumes "journal_inv s"
  shows "r \<in> set (revs (sReversers s) v) \<longleftrightarrow>
     r < Version s \<and> opKind (sJournal s ! r) \<noteq> KindEdit \<and> opUndoes (sJournal s ! r) = v"
proof -
  have seq: "i < Version s \<Longrightarrow> opSeq (sJournal s ! i) = i" for i using assms by (simp add: journal_inv_def Version_def)
  show ?thesis
    unfolding session_revs[OF assms] using seq by (fastforce simp: in_set_conv_nth Version_def image_iff)
qed

lemma session_revs_less:
  "journal_inv s \<Longrightarrow> r \<in> set (revs (sReversers s) v) \<Longrightarrow> v < r"
  by (simp add: in_session_revs) (metis journal_inv_def nth_mem Version_def)

lemma session_revs_distinct:
  assumes "journal_inv s"
  shows "distinct (revs (sReversers s) v)"
proof -
  have "map opSeq (sJournal s) = [0..<length (sJournal s)]"
    using assms by (auto simp: journal_inv_def intro: nth_equalityI)
  then have "distinct (map opSeq (sJournal s))" by simp
  then show ?thesis unfolding session_revs[OF assms] by (simp add: distinct_map inj_on_def)
qed

section \<open>Forests\<close>

text \<open>The reversal index of a journal is a forest: every op reverses at most one, an earlier one.\<close>

definition forest :: "(nat \<times> nat list) list \<Rightarrow> nat \<Rightarrow> bool" where
  "forest m n \<longleftrightarrow> (\<forall>x. distinct (revs m x) \<and> (\<forall>r \<in> set (revs m x). x < r \<and> r < n)) \<and>
     (\<forall>x y r. r \<in> set (revs m x) \<longrightarrow> r \<in> set (revs m y) \<longrightarrow> x = y)"

lemma session_forest: "journal_inv s \<Longrightarrow> forest (sReversers s) (Version s)"
  by (auto simp: forest_def session_revs_distinct session_revs_less in_session_revs)

definition edges :: "(nat \<times> nat list) list \<Rightarrow> (nat \<times> nat) set" where
  "edges m = {(x, r). r \<in> set (revs m x)}"

lemma reach_less: "forest m n \<Longrightarrow> (x, y) \<in> (edges m)\<^sup>+ \<Longrightarrow> x < y"
proof -
  assume f: "forest m n" and "(x, y) \<in> (edges m)\<^sup>+"
  from this(2) show "x < y"
    by (induction rule: trancl_induct) (use f in \<open>auto simp: forest_def edges_def dest: less_trans\<close>)
qed

text \<open>Trees hanging off different nodes of one generation never meet.\<close>

lemma forest_parent:
  assumes "forest m n" "(x, z) \<in> (edges m)\<^sup>*" "(y, z) \<in> (edges m)\<^sup>*"
  shows "(x, y) \<in> (edges m)\<^sup>* \<or> (y, x) \<in> (edges m)\<^sup>*"
  using assms(2,3)
proof (induction rule: rtrancl_induct)
  case base
  then show ?case by blast
next
  case (step u z)
  show ?case
  proof (cases "y = z")
    case True
    then show ?thesis using step.hyps by (meson rtrancl.rtrancl_into_rtrancl)
  next
    case False
    then obtain w where w: "(y, w) \<in> (edges m)\<^sup>*" "(w, z) \<in> edges m" using step.prems by (metis rtranclE)
    then have "w = u" using assms(1) step.hyps(2) by (auto simp: forest_def edges_def)
    then show ?thesis using step.IH w by blast
  qed
qed

lemma siblings_apart:
  assumes "forest m n" "r \<in> set (revs m x)" "q \<in> set (revs m x)" "r \<noteq> q"
  shows "(r, z) \<in> (edges m)\<^sup>* \<Longrightarrow> (q, z) \<in> (edges m)\<^sup>* \<Longrightarrow> False"
proof -
  have aux: False if a: "r \<in> set (revs m x)" "q \<in> set (revs m x)" "(r, q) \<in> (edges m)\<^sup>*" "r \<noteq> q" for r q
  proof -
    obtain w where w: "(r, w) \<in> (edges m)\<^sup>*" "(w, q) \<in> edges m" using a(3,4) by (metis rtranclE)
    then have "w = x" using assms(1) a(2) by (auto simp: forest_def edges_def)
    moreover have "x < r" using assms(1) a(1) by (auto simp: forest_def)
    moreover have "r \<le> w" using w(1) reach_less[OF assms(1)] by (metis le_less rtranclD)
    ultimately show False by simp
  qed
  assume "(r, z) \<in> (edges m)\<^sup>*" "(q, z) \<in> (edges m)\<^sup>*"
  then show False using forest_parent[OF assms(1), of r z q] aux assms(2-4) by blast
qed

section \<open>The guarded walk on a forest\<close>

text \<open>The nodes strictly below a node, and the answer of the walk started with nothing seen.\<close>

abbreviation below :: "(nat \<times> nat list) list \<Rightarrow> nat \<Rightarrow> nat set" where
  "below m x \<equiv> {y. (x, y) \<in> (edges m)\<^sup>+}"

definition alive :: "(nat \<times> nat list) list \<Rightarrow> nat \<Rightarrow> bool" where
  "alive m x = fst (live_loop m (revs m x) [])"

lemma live_loop_list:
  assumes "forest m n"
    and step: "\<And>r seen. r \<in> set rs \<Longrightarrow> set seen \<inter> below m r = {} \<Longrightarrow>
      fst (live_loop m (revs m r) seen) = alive m r \<and> set (snd (live_loop m (revs m r) seen)) \<subseteq> set seen \<union> below m r"
    and "set rs \<subseteq> set (revs m x)" "distinct rs" "\<forall>r \<in> set rs. set seen \<inter> insert r (below m r) = {}"
  shows "fst (live_loop m rs seen) = (\<forall>r \<in> set rs. \<not> alive m r) \<and>
    set (snd (live_loop m rs seen)) \<subseteq> set seen \<union> (\<Union>r \<in> set rs. insert r (below m r))"
  using assms(2-)
proof (induction rs arbitrary: seen)
  case Nil
  then show ?case by simp
next
  case (Cons r rs)
  have nr: "r \<notin> below m r" using reach_less[OF assms(1)] by blast
  then have fr: "set (r # seen) \<inter> below m r = {}" "r \<notin> set seen" using Cons.prems(4) by auto
  obtain l seen' where v: "live_loop m (revs m r) (r # seen) = (l, seen')" by fastforce
  have R: "l = alive m r" "set seen' \<subseteq> insert r (set seen) \<union> below m r"
    using Cons.prems(1)[of r "r # seen"] fr(1) v by auto
  show ?case
  proof (cases l)
    case True
    then show ?thesis using fr(2) v R by auto
  next
    case False
    have apart: "insert r (below m r) \<inter> insert q (below m q) = {}" if "q \<in> set rs" for q
    proof -
      have "q \<in> set (revs m x)" "r \<in> set (revs m x)" "r \<noteq> q" using that Cons.prems(2,3) by auto
      then show ?thesis using siblings_apart[OF assms(1), of r x q] by (auto simp: rtrancl_eq_or_trancl)
    qed
    have "\<forall>q \<in> set rs. set seen' \<inter> insert q (below m q) = {}"
    proof
      fix q assume q: "q \<in> set rs"
      then have "set seen \<inter> insert q (below m q) = {}" using Cons.prems(4) by simp
      then show "set seen' \<inter> insert q (below m q) = {}" using R(2) apart[OF q] by blast
    qed
    then have IH: "fst (live_loop m rs seen') = (\<forall>r \<in> set rs. \<not> alive m r) \<and>
        set (snd (live_loop m rs seen')) \<subseteq> set seen' \<union> (\<Union>r \<in> set rs. insert r (below m r))"
      using Cons.prems by (intro Cons.IH) auto
    have "live_loop m (r # rs) seen = live_loop m rs seen'" using False fr(2) v by simp
    then show ?thesis using IH R False by auto
  qed
qed

lemma live_loop_forest:
  assumes "forest m n" "set seen \<inter> below m x = {}"
  shows "fst (live_loop m (revs m x) seen) = (\<forall>r \<in> set (revs m x). \<not> alive m r) \<and>
    set (snd (live_loop m (revs m x) seen)) \<subseteq> set seen \<union> below m x"
  using assms(2)
proof (induction "n - x" arbitrary: x seen rule: less_induct)
  case less
  have child: "r \<in> set (revs m x) \<Longrightarrow> (x, r) \<in> edges m \<and> n - r < n - x" for r
    using assms(1) by (force simp: forest_def edges_def)
  have sub: "r \<in> set (revs m x) \<Longrightarrow> insert r (below m r) \<subseteq> below m x" for r
    using child by (auto intro: trancl_into_trancl2)
  have step: "fst (live_loop m (revs m r) seen) = alive m r \<and> set (snd (live_loop m (revs m r) seen)) \<subseteq> set seen \<union> below m r"
    if "r \<in> set (revs m x)" "set seen \<inter> below m r = {}" for r seen
    using less.hyps[of r seen] less.hyps[of r "[]"] child[OF that(1)] that(2) by (simp add: alive_def)
  have "distinct (revs m x)" using assms(1) by (simp add: forest_def)
  moreover have "\<forall>r \<in> set (revs m x). set seen \<inter> insert r (below m r) = {}" using less.prems sub by blast
  ultimately have "fst (live_loop m (revs m x) seen) = (\<forall>r \<in> set (revs m x). \<not> alive m r) \<and>
    set (snd (live_loop m (revs m x) seen)) \<subseteq> set seen \<union> (\<Union>r \<in> set (revs m x). insert r (below m r))"
    using live_loop_list[OF assms(1) step, of "revs m x" x seen] by blast
  then show ?case using sub by blast
qed

lemma live_alive:
  assumes "forest (sReversers s) n"
  shows "live s x = alive (sReversers s) x"
proof -
  have "set [x] \<inter> below (sReversers s) x = {}" using reach_less[OF assms] by auto
  note L = live_loop_forest[OF assms this] live_loop_forest[OF assms, of "[]" x]
  then show ?thesis by (auto simp: live_def alive_def)
qed

lemma live_iff:
  assumes "journal_inv s"
  shows "live s x \<longleftrightarrow> (\<forall>r \<in> set (revs (sReversers s) x). \<not> live s r)"
proof -
  note F = session_forest[OF assms]
  have "alive (sReversers s) x = (\<forall>r \<in> set (revs (sReversers s) x). \<not> alive (sReversers s) r)"
    using live_loop_forest[OF F, of "[]" x] by (simp add: alive_def)
  then show ?thesis using live_alive[OF F] by simp
qed

end
