(* ===== verification/Review.thy ===== *)
theory Review
  imports Liveness
begin

text \<open>
  Change sets of \<open>internal/piecetable/groups.go\<close>: the listing, the projection of a member into the
  present, decisions about a set, and the reversals (undo, redo, clear, revert) of \<open>session.go\<close> and
  \<open>groups.go\<close>. \<open>compactedOwns\<close> is from \<open>compact.go\<close>.
\<close>

section \<open>Decisions\<close>

fun GroupState_String :: "GroupState \<Rightarrow> string" where
  "GroupState_String Proposed = ''proposed''"
| "GroupState_String Rejected = ''rejected''"
| "GroupState_String Accepted = ''accepted''"

definition GroupState_of :: "session \<Rightarrow> nat \<Rightarrow> GroupState" where
  "GroupState_of s gid = (case map_of (sGroupState s) gid of None \<Rightarrow> Accepted | Some st \<Rightarrow> st)"

definition MarkGroup :: "session \<Rightarrow> nat \<Rightarrow> GroupState \<Rightarrow> session" where
  "MarkGroup s gid st =
     (if st = Accepted then s\<lparr>sGroupState := AList.delete gid (sGroupState s)\<rparr>
      else s\<lparr>sGroupState := AList.update gid st (sGroupState s)\<rparr>)"

definition SetGroupTask :: "session \<Rightarrow> nat \<Rightarrow> string \<Rightarrow> session" where
  "SetGroupTask s gid task =
     (if task = [] then s else s\<lparr>sGroupTask := AList.update gid task (sGroupTask s)\<rparr>)"

definition GroupTask :: "session \<Rightarrow> nat \<Rightarrow> string" where
  "GroupTask s gid = (case map_of (sGroupTask s) gid of None \<Rightarrow> [] | Some t \<Rightarrow> t)"

definition LastGroup :: "session \<Rightarrow> nat" where "LastGroup s = sGroup s"

definition hasGroup :: "session \<Rightarrow> nat \<Rightarrow> bool" where
  "hasGroup s gid \<longleftrightarrow> list_ex (\<lambda>p. opGroup p = gid) (sJournal s)"

definition HasDecisions :: "session \<Rightarrow> bool" where
  "HasDecisions s \<longleftrightarrow> sGroupState s \<noteq> []"

definition RejectGroup :: "session \<Rightarrow> nat \<Rightarrow> bool \<times> session" where
  "RejectGroup s gid =
     (if \<not> hasGroup s gid then (False, s)
      else if GroupState_of s gid = Rejected then (False, s)
      else (True, MarkGroup s gid Rejected))"

definition AcceptGroup :: "session \<Rightarrow> nat \<Rightarrow> session" where
  "AcceptGroup s gid = MarkGroup s gid Accepted"

section \<open>Live members\<close>

text \<open>A member of a change set: an ordinary edit of the group that is still in effect.\<close>

definition live_edit :: "session \<Rightarrow> Op \<Rightarrow> bool" where
  "live_edit s p \<longleftrightarrow> opKind p = KindEdit \<and> live s (opSeq p)"

definition live_member :: "session \<Rightarrow> nat \<Rightarrow> Op \<Rightarrow> bool" where
  "live_member s gid p \<longleftrightarrow> opGroup p = gid \<and> live_edit s p"

definition hasLiveMembers :: "session \<Rightarrow> nat \<Rightarrow> bool" where
  "hasLiveMembers s gid \<longleftrightarrow> list_ex (live_member s gid) (sJournal s)"

section \<open>Projecting a member into the present\<close>

record DiffHunk =
  dhStart :: int
  dhEnd :: int
  dhOld :: "byte list"
  dhNew :: "byte list"

definition recsText :: "session \<Rightarrow> PieceRec list \<Rightarrow> byte list" where
  "recsText s recs = recs_text (pe_Store (sBuf s)) recs"

definition insOwns :: "PieceRec list \<Rightarrow> PieceRec \<Rightarrow> bool" where
  "insOwns ins p \<longleftrightarrow>
     list_ex (\<lambda>r. Buf r = Buf p \<and> Start r \<le> Start p \<and> Start p + Length p \<le> Start r + Length r) ins"

definition compactedOwns :: "session \<Rightarrow> nat \<Rightarrow> PieceRec \<Rightarrow> bool" where
  "compactedOwns s gid p \<longleftrightarrow>
     list_ex (\<lambda>c. orGroup c = gid \<and> orBuf c = Buf p \<and> orStart c \<le> Start p \<and> Start p + Length p \<le> orEnd c)
       (sCompacted s)"

definition flush_run :: "session \<Rightarrow> int \<Rightarrow> int \<Rightarrow> PieceRec list \<Rightarrow> DiffHunk list \<Rightarrow> DiffHunk list" where
  "flush_run s runStart pos run hunks =
     (if run = [] then hunks
      else hunks @ [\<lparr>dhStart = runStart, dhEnd = pos, dhOld = [], dhNew = recsText s run\<rparr>])"

fun member_runs :: "session \<Rightarrow> Op \<Rightarrow> PieceRec list \<Rightarrow> int \<Rightarrow> int \<Rightarrow> PieceRec list \<Rightarrow> DiffHunk list \<Rightarrow> DiffHunk list" where
  "member_runs s q [] pos runStart run hunks = flush_run s runStart pos run hunks"
| "member_runs s q (p # ps) pos runStart run hunks =
     (if insOwns (opIns q) p \<or> compactedOwns s (opGroup q) p
      then member_runs s q ps (pos + Length p) (if run = [] then pos else runStart) (run @ [p]) hunks
      else member_runs s q ps (pos + Length p) runStart [] (flush_run s runStart pos run hunks))"

definition projectMember :: "session \<Rightarrow> Op \<Rightarrow> DiffHunk list" where
  "projectMember s q =
     (if InsLen q = 0
      then (case rebase s (opPos q) (opPos q) (opSeq q + 1) of
              (at, _, _, ok) \<Rightarrow>
                if \<not> ok then []
                else [\<lparr>dhStart = at, dhEnd = at, dhOld = recsText s (opDel q), dhNew = []\<rparr>])
      else case rebase s (opPos q) (opPos q) (opSeq q + 1) of
        (lo, _, _, okLo) \<Rightarrow>
          (case rebase s (opPos q + InsLen q) (opPos q + InsLen q) (opSeq q + 1) of
             (_, hi, _, okHi) \<Rightarrow>
               if \<not> okLo \<or> \<not> okHi \<or> hi \<le> lo then []
               else let hunks = member_runs s q (pe_pieceRange (sBuf s) lo (hi - lo)) lo lo [] []
                    in if hunks \<noteq> [] \<and> 0 < DelLen q
                       then (hd hunks)\<lparr>dhOld := recsText s (opDel q)\<rparr> # tl hunks else hunks))"

definition writtenHunk :: "session \<Rightarrow> Op \<Rightarrow> DiffHunk" where
  "writtenHunk s q = \<lparr>dhStart = - 1, dhEnd = - 1, dhOld = recsText s (opDel q), dhNew = recsText s (opIns q)\<rparr>"

section \<open>Naming what blocks\<close>

record Block =
  bkGroup :: nat
  bkAuthor :: author
  bkStart :: int
  bkEnd :: int

definition no_block :: Block where
  "no_block = \<lparr>bkGroup = 0, bkAuthor = 0, bkStart = 0, bkEnd = 0\<rparr>"

text \<open>The bounding span of a non-empty list of hunks.\<close>

definition hunk_bounds :: "DiffHunk list \<Rightarrow> int \<times> int" where
  "hunk_bounds hs =
     foldl (\<lambda>(lo, hi) h. (if dhStart h < lo then dhStart h else lo, if hi < dhEnd h then dhEnd h else hi))
       (dhStart (hd hs), dhEnd (hd hs)) (tl hs)"

definition blockFor :: "session \<Rightarrow> nat \<Rightarrow> Block" where
  "blockFor s at =
     (if at = 0 \<or> int (length (sJournal s)) \<le> int_of_version at then no_block
      else let q = sJournal s ! at;
               b = \<lparr>bkGroup = opGroup q, bkAuthor = opAuthor q, bkStart = 0, bkEnd = 0\<rparr>;
               hunks = projectMember s q
           in if hunks = [] then b
              else let (lo, hi) = hunk_bounds hunks in b\<lparr>bkStart := lo, bkEnd := hi\<rparr>)"

record Overlap =
  ovGroup :: nat
  ovAuthor :: author
  ovStart :: int
  ovEnd :: int

definition invalidBy :: "session \<Rightarrow> Op \<Rightarrow> Overlap option" where
  "invalidBy s q =
     (if InsLen q = 0 then None
      else case rebase s (opPos q) (opPos q + InsLen q) (opSeq q + 1) of
        (_, _, damage, ok) \<Rightarrow>
          if ok \<or> damage = 0 \<or> int (length (sJournal s)) \<le> int_of_version damage then None
          else if \<not> live_edit s (sJournal s ! damage) then None
          else let b = blockFor s damage
               in if bkGroup b = 0 then None
                  else Some \<lparr>ovGroup = bkGroup b, ovAuthor = bkAuthor b, ovStart = bkStart b, ovEnd = bkEnd b\<rparr>)"

section \<open>The listing\<close>

record group_info =
  gID :: nat
  gAuthor :: author
  gState :: GroupState
  gTask :: string
  gOps :: nat
  gFirst :: nat
  gLast :: nat
  gBytes :: int
  gInvalid :: bool
  gInvalidBy :: "Overlap option"

text \<open>The map from ids to listings is kept in first-seen order.\<close>

fun upd_group :: "(group_info \<Rightarrow> group_info) \<Rightarrow> nat \<Rightarrow> group_info list \<Rightarrow> group_info list" where
  "upd_group f gid [] = []"
| "upd_group f gid (g # gs) = (if gID g = gid then f g # gs else g # upd_group f gid gs)"

definition count_member :: "session \<Rightarrow> Op \<Rightarrow> group_info \<Rightarrow> group_info" where
  "count_member s q g =
     (let g1 = g\<lparr>gFirst := (if opSeq q < gFirst g then opSeq q else gFirst g),
                 gLast := (if gLast g < opSeq q then opSeq q else gLast g)\<rparr>
      in if \<not> live s (opSeq q) then g1
         else g1\<lparr>gOps := gOps g1 + 1, gBytes := gBytes g1 + InsLen q - DelLen q\<rparr>)"

definition new_group :: "session \<Rightarrow> Op \<Rightarrow> group_info" where
  "new_group s q = \<lparr>gID = opGroup q, gAuthor = opAuthor q, gState = GroupState_of s (opGroup q),
     gTask = GroupTask s (opGroup q), gOps = 0, gFirst = opSeq q, gLast = opSeq q, gBytes = 0,
     gInvalid = False, gInvalidBy = None\<rparr>"

definition addMember :: "session \<Rightarrow> group_info list \<Rightarrow> Op \<Rightarrow> group_info list" where
  "addMember s gs q =
     (if opKind q \<noteq> KindEdit then gs
      else if list_ex (\<lambda>g. gID g = opGroup q) gs then upd_group (count_member s q) (opGroup q) gs
      else gs @ [count_member s q (new_group s q)])"

text \<open>\<open>markInvalid\<close>: one pass over the journal for the sets with a survivor and the first collider
  of each, then one over the listing.\<close>

definition undecided :: "group_info \<Rightarrow> bool" where
  "undecided g \<longleftrightarrow> gState g = Proposed \<and> gOps g \<noteq> 0"

definition scan_member :: "session \<Rightarrow> group_info list \<Rightarrow> nat list \<times> (nat \<times> Overlap) list \<Rightarrow> Op \<Rightarrow> nat list \<times> (nat \<times> Overlap) list" where
  "scan_member s gs acc q =
     (case acc of (survives, collider) \<Rightarrow>
        if \<not> live_edit s q then acc
        else if \<not> list_ex (\<lambda>g. gID g = opGroup q \<and> undecided g) gs then acc
        else if projectMember s q \<noteq> [] then (opGroup q # survives, collider)
        else if map_of collider (opGroup q) = None
        then (case invalidBy s q of
                Some ov \<Rightarrow> (survives, (opGroup q, ov) # collider)
              | None \<Rightarrow> acc)
        else acc)"

definition markInvalid :: "session \<Rightarrow> group_info list \<Rightarrow> group_info list" where
  "markInvalid s gs =
     (case foldl (scan_member s gs) ([], []) (sJournal s) of (survives, collider) \<Rightarrow>
        map (\<lambda>g. if \<not> undecided g then g
                 else if gID g \<in> set survives then g\<lparr>gInvalid := False\<rparr>
                 else g\<lparr>gInvalid := True,
                       gInvalidBy := (case map_of collider (gID g) of Some ov \<Rightarrow> Some ov | None \<Rightarrow> gInvalidBy g)\<rparr>) gs)"

definition Groups :: "session \<Rightarrow> group_info list" where
  "Groups s = markInvalid s (sort_key gFirst (foldl (addMember s) [] (sJournal s)))"

definition groupByID :: "session \<Rightarrow> nat \<Rightarrow> group_info option" where
  "groupByID s gid = find (\<lambda>g. gID g = gid) (Groups s)"

section \<open>Rendering a set for review\<close>

record GroupDiff =
  gdGroup :: group_info
  gdHunks :: "DiffHunk list"
  gdMoved :: nat
  gdMovedHunks :: "DiffHunk list"

definition project_one :: "session \<Rightarrow> GroupDiff \<Rightarrow> Op \<Rightarrow> GroupDiff" where
  "project_one s d q =
     (if \<not> live_member s (gID (gdGroup d)) q then d
      else let hunks = projectMember s q
           in if hunks = []
              then d\<lparr>gdMoved := gdMoved d + 1, gdMovedHunks := gdMovedHunks d @ [writtenHunk s q]\<rparr>
              else d\<lparr>gdHunks := gdHunks d @ hunks\<rparr>)"

definition projectGroup :: "session \<Rightarrow> group_info \<Rightarrow> GroupDiff" where
  "projectGroup s g =
     foldl (project_one s) \<lparr>gdGroup = g, gdHunks = [], gdMoved = 0, gdMovedHunks = []\<rparr> (sJournal s)"

definition GroupDiff_of :: "session \<Rightarrow> nat \<Rightarrow> GroupDiff option" where
  "GroupDiff_of s gid =
     (case find (\<lambda>g. gID g = gid) (foldl (addMember s) [] (filter (\<lambda>q. opGroup q = gid) (sJournal s))) of
        None \<Rightarrow> None
      | Some g \<Rightarrow> Some (projectGroup s (hd (markInvalid s [g]))))"

definition DiffPending :: "session \<Rightarrow> GroupDiff list" where
  "DiffPending s = map (projectGroup s) (filter undecided (Groups s))"

definition Pending :: "session \<Rightarrow> group_info list" where
  "Pending s = map gdGroup (filter (\<lambda>d. gdHunks d \<noteq> []) (DiffPending s))"

definition AcceptPending :: "session \<Rightarrow> nat \<times> session" where
  "AcceptPending s =
     (let pending = Pending s
      in (length pending, foldl (\<lambda>s g. AcceptGroup s (gID g)) s pending))"

definition set_deletes :: "session \<Rightarrow> group_info \<Rightarrow> bool" where
  "set_deletes s g \<longleftrightarrow> list_ex (\<lambda>q. live_member s (gID g) q \<and> 0 < DelLen q) (sJournal s)"

section \<open>Overlaps\<close>

definition hunkOverlap :: "int \<times> int \<Rightarrow> int \<times> int \<Rightarrow> (int \<times> int) option" where
  "hunkOverlap a b =
     (let lo = (if fst a < fst b then fst b else fst a);
          hi = (if snd b < snd a then snd b else snd a)
      in if lo < hi then Some (lo, hi)
         else if fst a = snd a \<and> fst b < fst a \<and> fst a < snd b then Some (fst a, fst a)
         else if fst b = snd b \<and> fst a < fst b \<and> fst b < snd a then Some (fst b, fst b)
         else None)"

fun addOverlap :: "Overlap list \<Rightarrow> Overlap \<Rightarrow> Overlap list" where
  "addOverlap [] v = [v]"
| "addOverlap (x # xs) v =
     (if ovGroup x \<noteq> ovGroup v then x # addOverlap xs v
      else x\<lparr>ovStart := (if ovStart v < ovStart x then ovStart v else ovStart x),
             ovEnd := (if ovEnd x < ovEnd v then ovEnd v else ovEnd x)\<rparr> # xs)"

type_synonym member_span = "nat \<times> author \<times> int \<times> int"

definition member_spans :: "session \<Rightarrow> member_span list" where
  "member_spans s =
     concat (map (\<lambda>g. concat (map (\<lambda>q.
         (if \<not> live_member s (gID g) q then []
          else let hunks = projectMember s q
               in if hunks = [] then []
                  else let (lo, hi) = hunk_bounds hunks in [(gID g, opAuthor q, lo, hi)])) (sJournal s)))
       (filter undecided (Groups s)))"

text \<open>The overlaps found so far, per set; a set met first opens its list.\<close>

definition note_overlap :: "nat \<Rightarrow> Overlap \<Rightarrow> (nat \<times> Overlap list) list \<Rightarrow> (nat \<times> Overlap list) list" where
  "note_overlap gid v m =
     AList.update gid (addOverlap (case map_of m gid of None \<Rightarrow> [] | Some l \<Rightarrow> l) v) m"

definition pair_overlap :: "member_span \<Rightarrow> (nat \<times> Overlap list) list \<Rightarrow> member_span \<Rightarrow> (nat \<times> Overlap list) list" where
  "pair_overlap a m b =
     (case (a, b) of ((ga, aa, as, ae), (gb, ab, bs, be)) \<Rightarrow>
        if ga = gb then m
        else case hunkOverlap (as, ae) (bs, be) of
          None \<Rightarrow> m
        | Some (lo, hi) \<Rightarrow>
            note_overlap gb \<lparr>ovGroup = ga, ovAuthor = aa, ovStart = lo, ovEnd = hi\<rparr>
              (note_overlap ga \<lparr>ovGroup = gb, ovAuthor = ab, ovStart = lo, ovEnd = hi\<rparr> m))"

fun all_overlaps :: "member_span list \<Rightarrow> (nat \<times> Overlap list) list \<Rightarrow> (nat \<times> Overlap list) list" where
  "all_overlaps [] m = m"
| "all_overlaps (a # rest) m = all_overlaps rest (foldl (pair_overlap a) m rest)"

definition PendingOverlaps :: "session \<Rightarrow> (nat \<times> Overlap list) list" where
  "PendingOverlaps s = map (\<lambda>(g, vs). (g, sort_key ovGroup vs)) (all_overlaps (member_spans s) [])"

section \<open>Reversal\<close>

text \<open>Whether an op is of the kind a reversal reverses: an undo reverses edits and redos, a redo
  reverses undos.\<close>

definition reverses_kind :: "OpKind \<Rightarrow> Op \<Rightarrow> bool" where
  "reverses_kind want q \<longleftrightarrow> (opKind q = KindUndo) = (want = KindRedo)"

definition reverseMembers :: "session \<Rightarrow> nat \<Rightarrow> OpKind \<Rightarrow> (author \<Rightarrow> bool) option \<Rightarrow> Op list" where
  "reverseMembers s gid want keep =
     filter (\<lambda>q. opGroup q = gid \<and> live s (opSeq q) \<and>
       (case keep of None \<Rightarrow> True | Some f \<Rightarrow> f (opAuthor q)) \<and> reverses_kind want q) (sJournal s)"

text \<open>\<open>rollback\<close> walks the applied reversals newest first; its list argument is reversed.\<close>

fun rollback :: "session \<Rightarrow> nat list \<Rightarrow> session" where
  "rollback s [] = s"
| "rollback s (v # vs) =
     (case rebasedInverse s (sJournal s ! v) of
        None \<Rightarrow> s
      | Some back \<Rightarrow> rollback (commit s back) vs)"

text \<open>The loop over the members, latest first: the session, the reversals applied (newest first),
  and the version that blocked a member, if one did.\<close>

fun reverse_loop :: "session \<Rightarrow> Op list \<Rightarrow> nat list \<Rightarrow> session \<times> nat list \<times> nat option" where
  "reverse_loop s [] applied = (s, applied, None)"
| "reverse_loop s (q # qs) applied =
     (case rebasedInverseAt s q of
        Inl at \<Rightarrow> (s, applied, Some at)
      | Inr iv \<Rightarrow> reverse_loop (commit s iv) qs (Version s # applied))"

definition reverseGroupBlock :: "session \<Rightarrow> nat \<Rightarrow> OpKind \<Rightarrow> (author \<Rightarrow> bool) option \<Rightarrow> bool \<times> Block \<times> session" where
  "reverseGroupBlock s gid want keep =
     (let members = reverseMembers s gid want keep
      in case reverse_loop (Begin s) (rev members) [] of
           (s1, applied, None) \<Rightarrow> (applied \<noteq> [], no_block, End s1)
         | (s1, applied, Some at) \<Rightarrow>
             (let s2 = rollback s1 applied in (False, blockFor s2 at, End s2)))"

definition reverseGroup :: "session \<Rightarrow> nat \<Rightarrow> OpKind \<Rightarrow> (author \<Rightarrow> bool) option \<Rightarrow> bool \<times> session" where
  "reverseGroup s gid want keep = (case reverseGroupBlock s gid want keep of (ok, _, s') \<Rightarrow> (ok, s'))"

definition byAuthor :: "author \<Rightarrow> author \<Rightarrow> bool" where
  "byAuthor a got \<longleftrightarrow> got = a"

definition reverseLatest :: "session \<Rightarrow> author \<Rightarrow> OpKind \<Rightarrow> bool \<times> session" where
  "reverseLatest s a want =
     (case find (\<lambda>q. opAuthor q = a \<and> live s (opSeq q) \<and> reverses_kind want q) (rev (sJournal s)) of
        None \<Rightarrow> (False, s)
      | Some q \<Rightarrow> reverseGroup s (opGroup q) want (Some (byAuthor a)))"

definition Undo :: "session \<Rightarrow> author \<Rightarrow> bool \<times> session" where
  "Undo s a = reverseLatest s a KindUndo"

definition Redo :: "session \<Rightarrow> author \<Rightarrow> bool \<times> session" where
  "Redo s a = reverseLatest s a KindRedo"

section \<open>Disposal\<close>

definition ClearRejectedBlock :: "session \<Rightarrow> nat \<Rightarrow> bool \<times> Block \<times> session" where
  "ClearRejectedBlock s gid =
     (if GroupState_of s gid \<noteq> Rejected then (False, no_block, s)
      else if \<not> hasLiveMembers s gid then (True, no_block, MarkGroup s gid Accepted)
      else case reverseGroupBlock s gid KindUndo None of
        (ok, block, s') \<Rightarrow> if \<not> ok then (False, block, s') else (True, no_block, MarkGroup s' gid Accepted))"

definition ClearRejected :: "session \<Rightarrow> nat \<Rightarrow> bool \<times> session" where
  "ClearRejected s gid = (case ClearRejectedBlock s gid of (ok, _, s') \<Rightarrow> (ok, s'))"

definition ClearGroup :: "session \<Rightarrow> nat \<Rightarrow> bool \<times> Block \<times> session" where
  "ClearGroup s gid =
     (case GroupState_of s gid of
        Rejected \<Rightarrow> ClearRejectedBlock s gid
      | Proposed \<Rightarrow>
          (case groupByID s gid of
             None \<Rightarrow> (False, no_block, s)
           | Some g \<Rightarrow> if \<not> gInvalid g then (False, no_block, s) else (True, no_block, MarkGroup s gid Rejected))
      | Accepted \<Rightarrow> (False, no_block, s))"

text \<open>The change sets an author still holds live edits in, in journal order.\<close>

definition author_groups :: "session \<Rightarrow> author \<Rightarrow> nat list" where
  "author_groups s a =
     foldl (\<lambda>ids q. if \<not> (live_edit s q \<and> opAuthor q = a) then ids
                    else if opGroup q \<in> set ids then ids else ids @ [opGroup q]) [] (sJournal s)"

fun revert_loop :: "session \<Rightarrow> author \<Rightarrow> nat list \<Rightarrow> Block option \<times> session" where
  "revert_loop s a [] = (None, s)"
| "revert_loop s a (g # gs) =
     (case reverseGroupBlock s g KindUndo (Some (byAuthor a)) of
        (ok, block, s1) \<Rightarrow>
          if \<not> ok then (Some block, s1)
          else revert_loop (if \<not> hasLiveMembers s1 g then MarkGroup s1 g Accepted else s1) a gs)"

definition RevertAuthor :: "session \<Rightarrow> author \<Rightarrow> bool \<times> Block \<times> session" where
  "RevertAuthor s a =
     (let ids = author_groups s a
      in case revert_loop s a (rev ids) of
           (Some block, s1) \<Rightarrow> (False, block, s1)
         | (None, s1) \<Rightarrow> (ids \<noteq> [], no_block, s1))"

end
