(* ===== verification/Projection.thy ===== *)
theory Projection
  imports Review
begin

text \<open>
  Compositions of a session under a policy (\<open>internal/piecetable/project.go\<close>): the walk that
  un-applies excluded edits, the provenance kept beside the pieces, the alignment segments, the
  ownership runs, and the leases read off them (also \<open>deletionLeases\<close> and \<open>proposedSpans\<close> of
  \<open>groups.go\<close>, \<open>allOrigins\<close> of \<open>compact.go\<close>).
\<close>

datatype Policy = AcceptedOnly | AcceptedAndProposed | AcceptedAndProposedApplied | Annotated

record StateRun =
  srOff :: int
  srLen :: int
  srGroup :: nat
  srState :: GroupState

record ProjSeg =
  pgDoc :: int
  pgDisp :: int
  pgLen :: int
  pgDLen :: int
  pgGroup :: nat
  pgState :: GroupState
  pgHide :: bool
  pgRestore :: bool
  pgHiddenLines :: nat

record projOrigin =
  poDoc :: int
  poGroup :: nat
  poState :: GroupState

record hiddenRun =
  hrDoc :: int
  hrLength :: int
  hrGroup :: nat
  hrState :: GroupState
  hrLines :: nat

record DerivedProject =
  dpComp :: naive
  dpStates :: "StateRun list"
  dpSegments :: "ProjSeg list"

section \<open>Who inserted a piece\<close>

definition rec_origin :: "nat \<Rightarrow> PieceRec \<Rightarrow> insOrigin" where
  "rec_origin gid r = \<lparr>orBuf = Buf r, orStart = Start r, orEnd = Start r + Length r, orGroup = gid\<rparr>"

definition allOrigins :: "session \<Rightarrow> insOrigin list" where
  "allOrigins s =
     filter (\<lambda>c. hasLiveMembers s (orGroup c)) (sCompacted s) @
     concat (map (\<lambda>q. if live_edit s q then map (rec_origin (opGroup q)) (opIns q) else []) (sJournal s))"

text \<open>The index keeps the origins of each buffer sorted by start, stably.\<close>

definition newOriginIndex :: "insOrigin list \<Rightarrow> int \<Rightarrow> insOrigin list" where
  "newOriginIndex origins b = sort_key orStart (filter (\<lambda>c. orBuf c = b) origins)"

definition ownerOf :: "(int \<Rightarrow> insOrigin list) \<Rightarrow> PieceRec \<Rightarrow> nat option" where
  "ownerOf index p =
     (let os = takeWhile (\<lambda>c. orStart c \<le> Start p) (index (Buf p))
      in map_option orGroup (find (\<lambda>c. orStart c \<le> Start p \<and> Start p + Length p \<le> orEnd c) (rev os)))"

definition owner_state :: "session \<Rightarrow> (int \<Rightarrow> insOrigin list) \<Rightarrow> PieceRec \<Rightarrow> nat \<times> GroupState" where
  "owner_state s index p =
     (case ownerOf index p of None \<Rightarrow> (0, Accepted) | Some g \<Rightarrow> (g, GroupState_of s g))"

text \<open>One piece's effect on the runs: the last run grows, or a new one opens.\<close>

definition add_run :: "nat \<times> GroupState \<Rightarrow> PieceRec \<Rightarrow> int \<Rightarrow> StateRun list \<Rightarrow> StateRun list" where
  "add_run own p off runs =
     (if runs \<noteq> [] \<and> srGroup (last runs) = fst own \<and> srState (last runs) = snd own
      then butlast runs @ [(last runs)\<lparr>srLen := srLen (last runs) + Length p\<rparr>]
      else runs @ [\<lparr>srOff = off, srLen = Length p, srGroup = fst own, srState = snd own\<rparr>])"

fun state_runs_loop :: "session \<Rightarrow> (int \<Rightarrow> insOrigin list) \<Rightarrow> PieceRec list \<Rightarrow> int \<Rightarrow> StateRun list \<Rightarrow> StateRun list" where
  "state_runs_loop s index [] off runs = runs"
| "state_runs_loop s index (p # ps) off runs =
     (if Length p \<le> 0 then state_runs_loop s index ps off runs
      else state_runs_loop s index ps (off + Length p) (add_run (owner_state s index p) p off runs))"

definition stateRuns :: "session \<Rightarrow> PieceRec list \<Rightarrow> insOrigin list \<Rightarrow> StateRun list" where
  "stateRuns s pieces origins = state_runs_loop s (newOriginIndex origins) pieces 0 []"

section \<open>Un-applying an edit\<close>

definition countNewlines :: "byte list \<Rightarrow> nat" where
  "countNewlines b = length (filter (\<lambda>c. c = 10) b)"

definition owned_by :: "session \<Rightarrow> PieceRec list \<Rightarrow> nat \<Rightarrow> PieceRec \<Rightarrow> bool" where
  "owned_by s ins gid p \<longleftrightarrow> insOwns ins p \<or> compactedOwns s gid p"

text \<open>What un-applying an edit returns: where its first byte was, whether any was left, and the
  composition with its provenance and the session bytes it hides.\<close>

record unapplied =
  uaAt :: int
  uaRemoved :: bool
  uaPieces :: "PieceRec list"
  uaProv :: "projOrigin list"
  uaDropped :: "hiddenRun list"

definition keep_piece :: "PieceRec \<Rightarrow> projOrigin \<Rightarrow> unapplied \<Rightarrow> unapplied" where
  "keep_piece p pr u = u\<lparr>uaPieces := uaPieces u @ [p], uaProv := uaProv u @ [pr]\<rparr>"

fun unapply_whole :: "session \<Rightarrow> store \<Rightarrow> (PieceRec \<Rightarrow> bool) \<Rightarrow> (PieceRec \<times> projOrigin) list \<Rightarrow> int \<Rightarrow> unapplied \<Rightarrow> unapplied" where
  "unapply_whole s st owns [] off u = u"
| "unapply_whole s st owns ((p, pr) # ps) off u =
     (if owns p
      then unapply_whole s st owns ps off
             (u\<lparr>uaAt := (if uaAt u < 0 then off else uaAt u), uaRemoved := True,
                uaDropped := (if 0 \<le> poDoc pr \<and> 0 < Length p
                  then uaDropped u @ [\<lparr>hrDoc = poDoc pr, hrLength = Length p, hrGroup = poGroup pr, hrState = poState pr,
                         hrLines = countNewlines (rec_text st p)\<rparr>]
                  else uaDropped u)\<rparr>)
      else unapply_whole s st owns ps (off + Length p) (keep_piece p pr u))"

text \<open>Maximal runs of newline and of other bytes: whether newlines, where, how long.\<close>

function nl_runs :: "int \<Rightarrow> byte list \<Rightarrow> (bool \<times> int \<times> int) list" where
  "nl_runs i [] = []"
| "nl_runs i (b # bs) =
     (let keep = (b = 10); n = 1 + length (takeWhile (\<lambda>c. (c = 10) = keep) bs)
      in (keep, i, int n) # nl_runs (i + int n) (drop (n - 1) bs))"
  by pat_completeness auto
termination by (relation "measure (\<lambda>(i, bs). length bs)") auto

definition keep_run :: "PieceRec \<Rightarrow> projOrigin \<Rightarrow> int \<times> unapplied \<Rightarrow> bool \<times> int \<times> int \<Rightarrow> int \<times> unapplied" where
  "keep_run p pr acc r =
     (case (acc, r) of ((off, u), (keep, i, n)) \<Rightarrow>
        if keep
        then (off + n, keep_piece (piece (Buf p) (Start p + i) n)
                         (if 0 \<le> poDoc pr then pr\<lparr>poDoc := poDoc pr + i\<rparr> else pr) u)
        else if 0 \<le> poDoc pr
        then (off, u\<lparr>uaDropped := uaDropped u @ [\<lparr>hrDoc = poDoc pr + i, hrLength = n, hrGroup = poGroup pr,
                hrState = poState pr, hrLines = 0\<rparr>]\<rparr>)
        else (off, u))"

fun unapply_keep_newlines :: "session \<Rightarrow> store \<Rightarrow> (PieceRec \<Rightarrow> bool) \<Rightarrow> (PieceRec \<times> projOrigin) list \<Rightarrow> int \<Rightarrow> unapplied \<Rightarrow> unapplied" where
  "unapply_keep_newlines s st owns [] off u = u"
| "unapply_keep_newlines s st owns ((p, pr) # ps) off u =
     (if \<not> owns p then unapply_keep_newlines s st owns ps (off + Length p) (keep_piece p pr u)
      else let (off', u') = foldl (keep_run p pr)
                 (off, u\<lparr>uaAt := (if uaAt u < 0 then off else uaAt u), uaRemoved := True\<rparr>)
                 (nl_runs 0 (rec_text st p))
           in unapply_keep_newlines s st owns ps off' u')"

definition unapplyRemoveIns :: "session \<Rightarrow> naive \<Rightarrow> projOrigin list \<Rightarrow> PieceRec list \<Rightarrow> nat \<Rightarrow> unapplied" where
  "unapplyRemoveIns s cmp prov ins gid =
     (if ins = [] then \<lparr>uaAt = - 1, uaRemoved = False, uaPieces = nPieces cmp, uaProv = prov, uaDropped = []\<rparr>
      else let owns = owned_by s ins gid;
               owned = recsLen (filter owns (nPieces cmp));
               u0 = \<lparr>uaAt = - 1, uaRemoved = False, uaPieces = [], uaProv = [], uaDropped = []\<rparr>
           in if owned < recsLen ins
              then unapply_keep_newlines s (nStore cmp) owns (zip (nPieces cmp) prov) 0 u0
              else unapply_whole s (nStore cmp) owns (zip (nPieces cmp) prov) 0 u0)"

text \<open>The provenance written beside \<open>insertRecs\<close>, in the order the code appends it: when the
  position splits a piece both halves come before the inserted records' entries.\<close>

definition split_prov :: "projOrigin \<Rightarrow> int \<Rightarrow> projOrigin list" where
  "split_prov left off = [left, if 0 \<le> poDoc left then left\<lparr>poDoc := poDoc left + off\<rparr> else left]"

definition insertRecsProv :: "naive \<Rightarrow> projOrigin list \<Rightarrow> int \<Rightarrow> PieceRec list \<Rightarrow> projOrigin \<Rightarrow> naive \<times> projOrigin list" where
  "insertRecsProv cmp prov pos recs meta =
     (if recs = [] then (cmp, prov)
      else let (i, off) = locate (nPieces cmp) pos
           in (naive_insertRecs cmp pos recs,
               take i prov @ (if 0 < off then split_prov (prov ! i) off else []) @ map (\<lambda>_. meta) recs @
               (if i < length prov then (if off \<le> 0 then [prov ! i] else []) @ drop (i + 1) prov else [])))"

section \<open>Alignment segments\<close>

definition hide_seg :: "hiddenRun \<Rightarrow> int \<Rightarrow> ProjSeg" where
  "hide_seg h disp = \<lparr>pgDoc = hrDoc h, pgDisp = disp, pgLen = hrLength h, pgDLen = 0, pgGroup = hrGroup h,
     pgState = hrState h, pgHide = True, pgRestore = False, pgHiddenLines = hrLines h\<rparr>"

definition merge_hidden_step :: "hiddenRun list \<Rightarrow> hiddenRun \<Rightarrow> hiddenRun list" where
  "merge_hidden_step ms h =
     (if ms \<noteq> [] \<and> hrDoc (last ms) + hrLength (last ms) = hrDoc h \<and> hrGroup (last ms) = hrGroup h \<and>
         hrState (last ms) = hrState h
      then butlast ms @ [(last ms)\<lparr>hrLength := hrLength (last ms) + hrLength h,
                                   hrLines := hrLines (last ms) + hrLines h\<rparr>]
      else ms @ [h])"

definition merge_hidden :: "hiddenRun list \<Rightarrow> hiddenRun list" where
  "merge_hidden hs = (if 1 < length hs then foldl merge_hidden_step [] (sort_key hrDoc hs) else hs)"

text \<open>\<open>flush\<close>: the hidden runs before a session offset, appended; the offset after the last one
  and the runs left.\<close>

fun flush_hidden :: "int \<Rightarrow> int \<Rightarrow> ProjSeg list \<Rightarrow> int \<Rightarrow> hiddenRun list \<Rightarrow> ProjSeg list \<times> int \<times> hiddenRun list" where
  "flush_hidden till disp segs doc [] = (segs, doc, [])"
| "flush_hidden till disp segs doc (h # hs) =
     (if hrDoc h < till then flush_hidden till disp (segs @ [hide_seg h disp]) (hrDoc h + hrLength h) hs
      else (segs, doc, h # hs))"

definition extends_seg :: "ProjSeg list \<Rightarrow> projOrigin \<Rightarrow> bool" where
  "extends_seg segs pr \<longleftrightarrow> segs \<noteq> [] \<and> \<not> pgHide (last segs) \<and> \<not> pgRestore (last segs) \<and>
     pgGroup (last segs) = poGroup pr \<and> pgState (last segs) = poState pr \<and>
     pgDoc (last segs) + pgLen (last segs) = poDoc pr"

fun segment_loop :: "(PieceRec \<times> projOrigin) list \<Rightarrow> hiddenRun list \<Rightarrow> int \<Rightarrow> int \<Rightarrow> ProjSeg list \<Rightarrow> ProjSeg list" where
  "segment_loop [] hs disp doc segs = segs @ map (\<lambda>h. hide_seg h disp) hs"
| "segment_loop ((p, pr) # ps) hs disp doc segs =
     (if poDoc pr < 0
      then segment_loop ps hs (disp + Length p) doc
             (segs @ [\<lparr>pgDoc = doc, pgDisp = disp, pgLen = 0, pgDLen = Length p, pgGroup = poGroup pr,
                       pgState = poState pr, pgHide = False, pgRestore = True, pgHiddenLines = 0\<rparr>])
      else case flush_hidden (poDoc pr) disp segs doc hs of
        (segs1, doc1, hs1) \<Rightarrow>
          segment_loop ps hs1 (disp + Length p) (poDoc pr + Length p)
            (if extends_seg segs1 pr
             then butlast segs1 @ [(last segs1)\<lparr>pgLen := pgLen (last segs1) + Length p,
                                                pgDLen := pgDLen (last segs1) + Length p\<rparr>]
             else segs1 @ [\<lparr>pgDoc = poDoc pr, pgDisp = disp, pgLen = Length p, pgDLen = Length p,
                            pgGroup = poGroup pr, pgState = poState pr, pgHide = False, pgRestore = False,
                            pgHiddenLines = 0\<rparr>]))"

definition buildSegments :: "PieceRec list \<Rightarrow> projOrigin list \<Rightarrow> hiddenRun list \<Rightarrow> ProjSeg list" where
  "buildSegments pieces prov hidden = segment_loop (zip pieces prov) (merge_hidden hidden) 0 0 []"

section \<open>What a policy includes\<close>

definition invalidGroups :: "session \<Rightarrow> nat list" where
  "invalidGroups s = map gID (filter gInvalid (Groups s))"

definition included :: "session \<Rightarrow> Op \<Rightarrow> Policy \<Rightarrow> nat list \<Rightarrow> (nat \<Rightarrow> bool) option \<Rightarrow> bool" where
  "included s q p invalid proposed =
     (if \<not> live_edit s q then False
      else case p of
        AcceptedOnly \<Rightarrow> opGroup q \<notin> set invalid \<and> GroupState_of s (opGroup q) = Accepted
      | Annotated \<Rightarrow> True
      | _ \<Rightarrow> if opGroup q \<in> set invalid then False
             else if GroupState_of s (opGroup q) = Accepted then True
             else GroupState_of s (opGroup q) = Proposed \<and>
                  (case proposed of None \<Rightarrow> True | Some f \<Rightarrow> f (opGroup q)))"

definition deferredDeletions :: "session \<Rightarrow> Policy \<Rightarrow> nat list" where
  "deferredDeletions s p =
     (if p \<noteq> AcceptedAndProposed then []
      else let ms = filter (\<lambda>q. live_edit s q \<and> GroupState_of s (opGroup q) = Proposed) (sJournal s);
               inserted = map opGroup (filter (\<lambda>q. 0 < InsLen q) ms)
           in remdups (filter (\<lambda>g. g \<notin> set inserted) (map opGroup ms)))"

section \<open>The composition\<close>

definition view_prov_step :: "session \<Rightarrow> (int \<Rightarrow> insOrigin list) \<Rightarrow> projOrigin list \<times> int \<Rightarrow> PieceRec \<Rightarrow> projOrigin list \<times> int" where
  "view_prov_step s index acc p =
     (case (acc, owner_state s index p) of ((prov, doc), (g, st)) \<Rightarrow>
        (prov @ [\<lparr>poDoc = doc, poGroup = g, poState = st\<rparr>], doc + Length p))"

definition view_of :: "session \<Rightarrow> naive" where
  "view_of s = \<lparr>nStore = pe_Store (sBuf s), nPieces = pe_pieceRange (sBuf s) 0 (pe_Len (sBuf s))\<rparr>"

definition project_step ::
  "session \<Rightarrow> Policy \<Rightarrow> nat list \<Rightarrow> nat list \<Rightarrow> (nat \<Rightarrow> bool) option \<Rightarrow>
   naive \<times> projOrigin list \<times> hiddenRun list \<Rightarrow> Op \<Rightarrow> naive \<times> projOrigin list \<times> hiddenRun list" where
  "project_step s p deferred invalid proposed acc q =
     (case acc of (cmp, prov, hidden) \<Rightarrow>
        if \<not> live_edit s q then acc
        else if included s q p invalid proposed \<and> opGroup q \<notin> set deferred then acc
        else let u = unapplyRemoveIns s cmp prov (opIns q) (opGroup q);
                 cmp1 = cmp\<lparr>nPieces := uaPieces u\<rparr>;
                 hidden1 = hidden @ uaDropped u;
                 meta = \<lparr>poDoc = - 1, poGroup = opGroup q, poState = GroupState_of s (opGroup q)\<rparr>;
                 restore = (\<lambda>at. case insertRecsProv cmp1 (uaProv u) at (opDel q) meta of
                                   (c, pv) \<Rightarrow> (c, pv, hidden1))
             in if uaRemoved u
                then (if 0 < DelLen q then restore (uaAt u) else (cmp1, uaProv u, hidden1))
                else if DelLen q = 0 then (cmp1, uaProv u, hidden1)
                else case rebase s (opPos q) (opPos q) (opSeq q + 1) of
                  (mapped, _, _, ok) \<Rightarrow>
                    if \<not> ok then (cmp1, uaProv u, hidden1)
                    else restore (if mapped < 0 then 0
                                  else if naive_Len cmp1 < mapped then naive_Len cmp1 else mapped))"

definition projectNoDecisions :: "session \<Rightarrow> Policy \<Rightarrow> DerivedProject" where
  "projectNoDecisions s p =
     \<lparr>dpComp = view_of s,
      dpStates = (if p \<noteq> Annotated then [] else stateRuns s (nPieces (view_of s)) (allOrigins s)),
      dpSegments = []\<rparr>"

definition project :: "session \<Rightarrow> Policy \<Rightarrow> (nat \<Rightarrow> bool) option \<Rightarrow> DerivedProject" where
  "project s p proposed =
     (if \<not> HasDecisions s then projectNoDecisions s p
      else let origins = allOrigins s;
               prov = fst (foldl (view_prov_step s (newOriginIndex origins)) ([], 0) (nPieces (view_of s)));
               invalid = (if p \<noteq> Annotated then invalidGroups s else [])
           in case foldl (project_step s p (deferredDeletions s p) invalid proposed) (view_of s, prov, [])
                     (rev (sJournal s)) of
                (cmp, prov1, hidden) \<Rightarrow>
                  \<lparr>dpComp = cmp,
                   dpStates = (if p = Annotated then stateRuns s (nPieces cmp) origins else []),
                   dpSegments = buildSegments (nPieces cmp) prov1 hidden\<rparr>)"

definition Project :: "session \<Rightarrow> Policy \<Rightarrow> DerivedProject" where
  "Project s p = project s p None"

definition ProjectWithProposed :: "session \<Rightarrow> (nat \<Rightarrow> bool) \<Rightarrow> DerivedProject" where
  "ProjectWithProposed s proposed = project s AcceptedAndProposed (Some proposed)"

definition Text :: "DerivedProject \<Rightarrow> byte list" where
  "Text d = naive_Slice (dpComp d) 0 (naive_Len (dpComp d))"

section \<open>Sets a save reports or retires\<close>

definition visible :: "session \<Rightarrow> DerivedProject \<Rightarrow> group_info \<Rightarrow> bool" where
  "visible s d g \<longleftrightarrow>
     list_ex (\<lambda>q. live_member s (gID g) q \<and> list_ex (owned_by s (opIns q) (gID g)) (nPieces (dpComp d))) (sJournal s)"

definition UnsavedProposed :: "session \<Rightarrow> group_info list" where
  "UnsavedProposed s =
     (let d = Project s AcceptedAndProposed
      in filter (\<lambda>g. gState g = Proposed \<and> gInvalid g \<and> visible s d g) (Groups s))"

definition InvalidWithoutMembers :: "session \<Rightarrow> group_info list" where
  "InvalidWithoutMembers s =
     (let d = Project s AcceptedAndProposed
      in filter (\<lambda>g. gState g = Proposed \<and> gInvalid g \<and> \<not> visible s d g \<and> \<not> set_deletes s g) (Groups s))"

section \<open>Leases\<close>

text \<open>The half-open intersection test every lease uses.\<close>

definition run_hit :: "int \<Rightarrow> int \<Rightarrow> StateRun \<Rightarrow> bool" where
  "run_hit pos len r \<longleftrightarrow> 0 < srLen r \<and> pos < srOff r + srLen r \<and> srOff r < pos + len"

definition first_seen :: "Op list \<Rightarrow> nat list" where
  "first_seen ops = foldl (\<lambda>ids q. if opGroup q \<in> set ids then ids else ids @ [opGroup q]) [] ops"

definition deletion_hit :: "session \<Rightarrow> int \<Rightarrow> int \<Rightarrow> Op \<Rightarrow> Block option" where
  "deletion_hit s pos len q =
     map_option (\<lambda>h. \<lparr>bkGroup = opGroup q, bkAuthor = opAuthor q, bkStart = dhStart h, bkEnd = dhEnd h\<rparr>)
       (find (\<lambda>h. hunkOverlap (dhStart h, dhEnd h) (pos, pos + len) \<noteq> None) (projectMember s q))"

definition deletionLeases :: "session \<Rightarrow> int \<Rightarrow> int \<Rightarrow> GroupState \<Rightarrow> Block list" where
  "deletionLeases s pos len0 want =
     (if \<not> HasDecisions s then []
      else let len = (if len0 < 0 then 0 else len0);
               ms = filter (live_edit s) (sJournal s);
               inserted = map opGroup (filter (\<lambda>q. 0 < InsLen q) ms)
           in concat (map (\<lambda>g.
                if g \<in> set inserted \<or> GroupState_of s g \<noteq> want then []
                else case List.map_filter (deletion_hit s pos len) (filter (\<lambda>q. opGroup q = g) ms) of
                       [] \<Rightarrow> [] | b # _ \<Rightarrow> [b]) (first_seen ms)))"

definition Leased :: "session \<Rightarrow> int \<Rightarrow> int \<Rightarrow> nat option" where
  "Leased s pos len0 =
     (if \<not> HasDecisions s then None
      else let len = (if len0 < 0 then 0 else len0)
           in case find (\<lambda>r. srState r \<noteq> Accepted \<and> run_hit pos len r) (dpStates (Project s Annotated)) of
                Some r \<Rightarrow> Some (srGroup r)
              | None \<Rightarrow> (case deletionLeases s pos len Proposed of [] \<Rightarrow> None | b # _ \<Rightarrow> Some (bkGroup b)))"

definition rejectedLease :: "session \<Rightarrow> int \<Rightarrow> int \<Rightarrow> (nat \<times> int \<times> int) option" where
  "rejectedLease s pos len0 =
     (if \<not> HasDecisions s then None
      else let len = (if len0 < 0 then 0 else len0)
           in map_option (\<lambda>r. (srGroup r, srOff r, srOff r + srLen r))
                (find (\<lambda>r. srState r = Rejected \<and> run_hit pos len r) (dpStates (Project s Annotated))))"

definition proposed_step :: "session \<Rightarrow> int \<Rightarrow> int \<Rightarrow> Block list \<Rightarrow> StateRun \<Rightarrow> Block list" where
  "proposed_step s pos len out r =
     (if srState r \<noteq> Proposed \<or> srGroup r \<in> set (map bkGroup out) \<or> \<not> run_hit pos len r then out
      else out @ [\<lparr>bkGroup = srGroup r,
                   bkAuthor = (case groupAuthor s (srGroup r) of None \<Rightarrow> 0 | Some a \<Rightarrow> a),
                   bkStart = srOff r, bkEnd = srOff r + srLen r\<rparr>])"

definition proposedSpans :: "session \<Rightarrow> int \<Rightarrow> int \<Rightarrow> Block list" where
  "proposedSpans s pos len0 =
     (if \<not> HasDecisions s then []
      else let len = (if len0 < 0 then 0 else len0)
           in foldl (proposed_step s pos len) [] (dpStates (Project s Annotated)) @ deletionLeases s pos len Proposed)"

end
