(* ===== verification/Timeline.thy ===== *)
theory Timeline
  imports SessionOps Review
begin

text \<open>
  The invariant every operation of a session keeps, reversals and rebased diffs included: each op of
  the journal fits the frame its predecessors produced, a reversal carries its target's pieces, and the
  document is the journal replayed over the base. Rebasing an offset never leaves the document.
\<close>

section \<open>Frames\<close>

text \<open>An op fits a document of a given length.\<close>

definition step_in :: "int \<Rightarrow> Op \<Rightarrow> bool" where
  "step_in n q \<longleftrightarrow> 0 \<le> opPos q \<and> opPos q + DelLen q \<le> n"

fun frames_ok :: "int \<Rightarrow> Op list \<Rightarrow> bool" where
  "frames_ok n [] \<longleftrightarrow> True"
| "frames_ok n (q # qs) \<longleftrightarrow> step_in n q \<and> frames_ok (n + Delta q) qs"

lemma frames_ok_append:
  "frames_ok n (xs @ ys) \<longleftrightarrow> frames_ok n xs \<and> frames_ok (n + (\<Sum>x\<leftarrow>xs. Delta x)) ys"
  by (induction xs arbitrary: n) (auto simp: add.assoc)

lemma op_lens:
  assumes "op_recs_ok b q"
  shows "0 \<le> DelLen q" "0 \<le> InsLen q" "int (length (recs_text (pe_Store b) (opIns q))) = InsLen q"
  using assms splice_ok_nonneg[of b "opDel q"] splice_ok_nonneg[of b "opIns q"]
  by (simp_all add: op_recs_ok_def DelLen_def InsLen_def splice_ok_length)

lemma length_text_step_in:
  assumes "op_recs_ok b q" "step_in (int (length tx)) q"
  shows "int (length (text_step (pe_Store b) q tx)) = int (length tx) + Delta q"
  using op_lens[OF assms(1)] assms(2) length_cut_range[of "opPos q" "DelLen q" tx]
  by (simp add: text_step_def step_in_def Delta_def)

lemma length_replay_in:
  assumes "\<forall>q \<in> set qs. op_recs_ok b q" "frames_ok (int (length tx)) qs"
  shows "int (length (replay (pe_Store b) tx qs)) = int (length tx) + (\<Sum>q\<leftarrow>qs. Delta q)"
  using assms
proof (induction qs arbitrary: tx)
  case (Cons q qs)
  have "int (length (text_step (pe_Store b) q tx)) = int (length tx) + Delta q"
    using Cons.prems by (intro length_text_step_in) auto
  then show ?case using Cons.IH[of "text_step (pe_Store b) q tx"] Cons.prems by simp
qed simp

lemma apply_op_in:
  assumes "pe_inv b" "op_recs_ok b q" "step_in (pe_Len b) q"
  shows "pe_inv (apply_op b q)" "pe_text (apply_op b q) = text_step (pe_Store b) q (pe_text b)"
    "pe_Store (apply_op b q) = pe_Store b" "pe_fits (apply_op b q) = pe_fits b"
    "pe_Len (apply_op b q) = pe_Len b + Delta q"
proof -
  have "0 \<le> opPos q" "0 \<le> DelLen q" "opPos q + DelLen q \<le> pe_Len b" "pe_splice_ok b (opIns q)"
    using assms op_lens[OF assms(2)] by (auto simp: step_in_def op_recs_ok_def)
  note R = pe_replace_law[OF assms(1) this, folded apply_op_def]
  show "pe_inv (apply_op b q)" "pe_Store (apply_op b q) = pe_Store b" "pe_fits (apply_op b q) = pe_fits b"
    using R by auto
  show t: "pe_text (apply_op b q) = text_step (pe_Store b) q (pe_text b)"
    using R(2,3) assms(2) by (simp add: pe_text_def text_step_def map_put_at map_cut_range splice_ok_text op_recs_ok_def)
  have "step_in (int (length (pe_text b))) q" using assms(1,3) by (simp add: pe_text_length)
  from length_text_step_in[OF assms(2) this] show "pe_Len (apply_op b q) = pe_Len b + Delta q"
    using pe_text_length[OF R(1)] pe_text_length[OF assms(1)] t by simp
qed

section \<open>The invariant\<close>

definition flow_inv :: "session \<Rightarrow> bool" where
  "flow_inv s \<longleftrightarrow> pe_inv (sBuf s) \<and> texts (pe_Store (sBuf s)) \<noteq> [] \<and> 0 \<le> sOrigLen s \<and>
     sOrigLen s \<le> int (length (texts (pe_Store (sBuf s)) ! 0)) \<and>
     (\<forall>q \<in> set (sJournal s). op_recs_ok (sBuf s) q) \<and> frames_ok (sOrigLen s) (sJournal s) \<and>
     pe_text (sBuf s) = replay (pe_Store (sBuf s)) (base_text s) (sJournal s)"

text \<open>A reversal re-inserts what its target removed and removes what its target inserted.\<close>

definition reversal_ok :: "Op list \<Rightarrow> Op \<Rightarrow> bool" where
  "reversal_ok js q \<longleftrightarrow> (opKind q \<noteq> KindEdit \<longrightarrow>
     opUndoes q < length js \<and> opIns q = opDel (js ! opUndoes q) \<and> opDel q = opIns (js ! opUndoes q))"

definition tl_inv :: "session \<Rightarrow> bool" where
  "tl_inv s \<longleftrightarrow> flow_inv s \<and> journal_inv s \<and> depth_ok s \<and> (\<forall>q \<in> set (sJournal s). reversal_ok (sJournal s) q)"

lemma tl_invD:
  assumes "tl_inv s"
  shows "flow_inv s" "journal_inv s" "depth_ok s" "q \<in> set (sJournal s) \<Longrightarrow> reversal_ok (sJournal s) q"
    "pe_inv (sBuf s)" "q \<in> set (sJournal s) \<Longrightarrow> op_recs_ok (sBuf s) q"
    "pe_text (sBuf s) = replay (pe_Store (sBuf s)) (base_text s) (sJournal s)" "frames_ok (sOrigLen s) (sJournal s)"
  using assms by (auto simp: tl_inv_def flow_inv_def)

lemma base_length: "flow_inv s \<Longrightarrow> int (length (base_text s)) = sOrigLen s"
  unfolding flow_inv_def base_text_def length_take by linarith

definition len_at :: "session \<Rightarrow> nat \<Rightarrow> int" where
  "len_at s v = sOrigLen s + (\<Sum>x\<leftarrow>take v (sJournal s). Delta x)"

lemma len_at_0: "len_at s 0 = sOrigLen s"
  by (simp add: len_at_def)

lemma len_at_Suc: "v < length (sJournal s) \<Longrightarrow> len_at s (Suc v) = len_at s v + Delta (sJournal s ! v)"
  by (simp add: len_at_def take_Suc_conv_app_nth)

lemma frames_split:
  "flow_inv s \<Longrightarrow> frames_ok (sOrigLen s) (take v (sJournal s)) \<and> frames_ok (len_at s v) (drop v (sJournal s))"
  using frames_ok_append[of "sOrigLen s" "take v (sJournal s)" "drop v (sJournal s)"]
  by (simp add: flow_inv_def len_at_def)

lemma step_in_at: "flow_inv s \<Longrightarrow> v < length (sJournal s) \<Longrightarrow> step_in (len_at s v) (sJournal s ! v)"
  using frames_split[of s v] by (simp add: Cons_nth_drop_Suc[symmetric])

lemma length_text_at:
  assumes "flow_inv s"
  shows "int (length (text_at s v)) = len_at s v"
proof -
  have "\<forall>q \<in> set (take v (sJournal s)). op_recs_ok (sBuf s) q"
    using assms by (auto simp: flow_inv_def dest: in_set_takeD)
  moreover have "frames_ok (int (length (base_text s))) (take v (sJournal s))"
    using frames_split[OF assms] base_length[OF assms] by simp
  ultimately show ?thesis
    using length_replay_in base_length[OF assms] by (simp add: text_at_def len_at_def)
qed

lemma len_now: "flow_inv s \<Longrightarrow> len_at s (length (sJournal s)) = pe_Len (sBuf s)"
  using length_text_at[of s "length (sJournal s)"] pe_text_length[of "sBuf s"]
  by (simp add: text_at_def flow_inv_def)

lemma LengthAt_len_at: "LengthAt s v = (if length (sJournal s) < v then None else Some (len_at s v))"
  by (simp add: LengthAt_def len_at_def)

lemma len_at_nonneg: "flow_inv s \<Longrightarrow> 0 \<le> len_at s v"
  using length_text_at[of s v] by linarith

text \<open>The stronger invariant of the editing operations implies this one.\<close>

lemma step_ok_in: "step_ok st tx q \<Longrightarrow> step_in (int (length tx)) q"
  by (simp add: step_ok_def step_in_def)

lemma replay_frames:
  assumes "\<forall>q \<in> set qs. op_recs_ok b q" "replay_ok (pe_Store b) tx qs"
  shows "frames_ok (int (length tx)) qs"
  using assms
proof (induction qs arbitrary: tx)
  case (Cons q qs)
  have "int (length (text_step (pe_Store b) q tx)) = int (length tx) + Delta q"
    using Cons.prems step_ok_in by (intro length_text_step_in) auto
  then show ?case using Cons.IH[of "text_step (pe_Store b) q tx"] Cons.prems step_ok_in[of "pe_Store b" tx q] by simp
qed simp

lemma text_inv_flow: "text_inv s \<Longrightarrow> flow_inv s"
  unfolding flow_inv_def using replay_frames[of "sJournal s" "sBuf s" "base_text s"] base_text_length[of s]
  by (auto simp: text_inv_def)

section \<open>Committing\<close>

definition commit_in :: "session \<Rightarrow> Op \<Rightarrow> bool" where
  "commit_in s q \<longleftrightarrow> op_recs_ok (sBuf s) q \<and> step_in (pe_Len (sBuf s)) q \<and> reversal_ok (sJournal s) q"

lemma step_in_field [simp]: "step_in n (q\<lparr>opGroup := g, opSeq := v\<rparr>) = step_in n q"
  by (simp add: step_in_def)

lemma reversal_ok_mono: "reversal_ok js q \<Longrightarrow> reversal_ok (js @ ks) q"
  by (auto simp: reversal_ok_def nth_append)

lemma reversal_ok_field [simp]: "reversal_ok js (q\<lparr>opGroup := g, opSeq := v\<rparr>) = reversal_ok js q"
  by (simp add: reversal_ok_def)

text \<open>The invariant outlives any change of the fields it does not mention.\<close>

lemma commit_in_tl:
  assumes "tl_inv s" "commit_in s q" "g \<le> sGroup s"
  shows "tl_inv (commitInto s q g)" (is "tl_inv ?s")
    "pe_text (sBuf (commitInto s q g)) = text_step (pe_Store (sBuf s)) q (pe_text (sBuf s))"
    "pe_Store (sBuf (commitInto s q g)) = pe_Store (sBuf s)" "pe_fits (sBuf (commitInto s q g)) = pe_fits (sBuf s)"
proof -
  have c: "op_recs_ok (sBuf s) q" "step_in (pe_Len (sBuf s)) q" "reversal_ok (sJournal s) q"
    using assms(2) by (auto simp: commit_in_def)
  note A = apply_op_in[OF tl_invD(5)[OF assms(1)] c(1,2)]
  show t: "pe_text (sBuf ?s) = text_step (pe_Store (sBuf s)) q (pe_text (sBuf s))"
    and st: "pe_Store (sBuf ?s) = pe_Store (sBuf s)" and fi: "pe_fits (sBuf ?s) = pe_fits (sBuf s)"
    using A by (simp_all add: commitInto_fields)
  let ?q = "q\<lparr>opGroup := (if g = 0 then sGroup ?s else g), opSeq := length (sJournal s)\<rparr>"
  have j: "sJournal ?s = sJournal s @ [?q]" by (rule commitInto_fields)
  have b: "base_text ?s = base_text s" by (simp add: base_text_def commitInto_fields st[unfolded commitInto_fields])
  have r: "op_recs_ok (sBuf ?s) p = op_recs_ok (sBuf s) p" for p using st fi by (rule op_recs_ok_cong)
  have fr: "frames_ok (sOrigLen s) (sJournal s @ [?q])"
    using tl_invD(8)[OF assms(1)] c(2) len_now[OF tl_invD(1)[OF assms(1)]] by (simp add: frames_ok_append len_at_def)
  have F: "flow_inv ?s"
    unfolding flow_inv_def b st r using tl_invD(1)[OF assms(1)] A(1) t c(1) fr
    by (simp add: commitInto_fields(1,2,3) replay_append flow_inv_def)
  have J: "journal_inv ?s"
  proof -
    have "\<forall>i < length (sJournal ?s). opSeq (sJournal ?s ! i) = i"
      using tl_invD(2)[OF assms(1)] by (auto simp: j journal_inv_def nth_append less_Suc_eq)
    moreover have "opGroup ?q \<le> sGroup ?s" "0 < opGroup ?q"
      using assms(3) commitInto_fields(4)[of s q g] tl_invD(3)[OF assms(1)] commitInto_fields(5,6)[of g s q]
      by (cases "g = 0"; cases "sDepth s = 0"; auto simp: depth_ok_def)+
    moreover have "\<forall>p \<in> set (sJournal s). 0 < opGroup p \<and> opGroup p \<le> sGroup ?s"
      using tl_invD(2)[OF assms(1)] commitInto_fields(4)[of s q g] order_trans by (auto simp: journal_inv_def)
    moreover have "opKind ?q \<noteq> KindEdit \<longrightarrow> opUndoes ?q < opSeq ?q" using c(3) by (simp add: reversal_ok_def)
    moreover have "sReversers ?s = derive_reversers (sJournal ?s) []"
      using tl_invD(2)[OF assms(1)] by (simp add: j derive_reversers_append journal_inv_def commitInto_def Let_def)
    ultimately show ?thesis using tl_invD(2)[OF assms(1)] unfolding journal_inv_def j by auto
  qed
  have "depth_ok ?s"
    using tl_invD(3)[OF assms(1)] commitInto_fields(4,7)[of s q g] by (auto simp: depth_ok_def)
  moreover have "\<forall>p \<in> set (sJournal ?s). reversal_ok (sJournal ?s) p"
    using tl_invD(4)[OF assms(1)] c(3) reversal_ok_mono unfolding j by auto
  ultimately show "tl_inv ?s" using F J by (simp add: tl_inv_def)
qed

end
