(* ===== verification/Carry.thy ===== *)
theory Carry
  imports Timeline
begin

text \<open>
  Rebasing (\<open>rebase\<close>, \<open>damages\<close>, \<open>carry\<close> of \<open>internal/piecetable/session.go\<close>): a carried end never
  leaves the document, whatever was undone in the window; over a window of plain edits still in effect,
  a carried range has the bytes it had; a refusal names an edit of the window that reached the range.
\<close>

section \<open>A carried end stays inside the document\<close>

definition pt_ok :: "session \<Rightarrow> int \<Rightarrow> point \<Rightarrow> bool" where
  "pt_ok s n p \<longleftrightarrow>
     (if ptHeld p then 0 \<le> ptOff p \<and> ptBy p < length (sJournal s) \<and> ptOff p \<le> InsLen (sJournal s ! ptBy p)
      else 0 \<le> ptAt p \<and> ptAt p \<le> n)"

lemma liveReverser_Some:
  assumes "tl_inv s" "liveReverser s v = Some r"
  shows "r < length (sJournal s)" "opKind (sJournal s ! r) \<noteq> KindEdit" "InsLen (sJournal s ! r) = DelLen (sJournal s ! v)"
    "live s r"
proof -
  have "r \<in> set (revs (sReversers s) v)" "live s r"
    using assms(2) by (auto simp: liveReverser_def find_Some_iff)
  moreover from this(1) have r: "r < length (sJournal s)" "opKind (sJournal s ! r) \<noteq> KindEdit" "opUndoes (sJournal s ! r) = v"
    using in_session_revs[OF tl_invD(2)[OF assms(1)]] by (auto simp: Version_def)
  moreover have "reversal_ok (sJournal s) (sJournal s ! r)" using tl_invD(4)[OF assms(1)] r(1) by simp
  ultimately show "r < length (sJournal s)" "opKind (sJournal s ! r) \<noteq> KindEdit"
    "InsLen (sJournal s ! r) = DelLen (sJournal s ! v)" "live s r"
    by (auto simp: reversal_ok_def InsLen_def DelLen_def)
qed

lemma tl_op:
  assumes "tl_inv s" "v < length (sJournal s)"
  shows "opSeq (sJournal s ! v) = v" "0 \<le> DelLen (sJournal s ! v)" "0 \<le> InsLen (sJournal s ! v)"
    "step_in (len_at s v) (sJournal s ! v)"
  using assms op_lens[OF tl_invD(6)[OF assms(1)]] step_in_at[OF tl_invD(1)[OF assms(1)] assms(2)] tl_invD(2)[OF assms(1)]
  by (auto simp: journal_inv_def)

lemma carry_ok:
  assumes "tl_inv s" "v < length (sJournal s)" "pt_ok s (len_at s v) p"
  shows "pt_ok s (len_at s (Suc v)) (carry s p (sJournal s ! v) rw)"
proof -
  let ?q = "sJournal s ! v"
  note O = tl_op[OF assms(1,2)]
  have b: "0 \<le> opPos ?q" "opPos ?q + DelLen ?q \<le> len_at s v" using O(4) by (auto simp: step_in_def)
  show ?thesis
  proof (cases "ptHeld p")
    case True
    then show ?thesis using assms(3) O b
      by (auto simp: pt_ok_def carry_def len_at_Suc[OF assms(2)] Delta_def)
  next
    case False
    note p = assms(3)[unfolded pt_ok_def] False
    show ?thesis
    proof (cases "liveReverser s v")
      case None
      then show ?thesis using p O b
        by (auto simp: pt_ok_def carry_def Let_def len_at_Suc[OF assms(2)] Delta_def split: option.splits)
    next
      case (Some r)
      then show ?thesis using p O b liveReverser_Some[OF assms(1) Some]
        by (auto simp: pt_ok_def carry_def Let_def len_at_Suc[OF assms(2)] Delta_def split: option.splits)
    qed
  qed
qed

lemma rebase_walk_bounds:
  assumes "tl_inv s" "v \<le> length (sJournal s)" "pt_ok s (len_at s v) lo" "pt_ok s (len_at s v) hi"
    "rebase_walk s lo hi (drop v (sJournal s)) = (a, b, at, True)"
  shows "0 \<le> a \<and> a \<le> pe_Len (sBuf s) \<and> 0 \<le> b \<and> b \<le> pe_Len (sBuf s)"
  using assms(2-)
proof (induction "length (sJournal s) - v" arbitrary: v lo hi)
  case 0
  then have "v = length (sJournal s)" by simp
  then show ?case using 0 len_now[OF tl_invD(1)[OF assms(1)]] by (auto simp: pt_ok_def split: if_splits)
next
  case (Suc k)
  then have v: "v < length (sJournal s)" by simp
  have d: "drop v (sJournal s) = sJournal s ! v # drop (Suc v) (sJournal s)" by (simp add: Cons_nth_drop_Suc v)
  let ?e = "\<not> ptHeld lo \<and> \<not> ptHeld hi \<and> ptAt lo = ptAt hi"
  have "rebase_walk s (carry s lo (sJournal s ! v) True) (carry s hi (sJournal s ! v) ?e) (drop (Suc v) (sJournal s)) = (a, b, at, True)"
    using Suc.prems(4) unfolding d by (auto simp: Let_def split: option.splits)
  then show ?case using carry_ok[OF assms(1) v] Suc.prems Suc.hyps(2) v by (intro Suc.hyps(1)[of "Suc v"]) auto
qed

lemma int_of_version_small: "v < 2 ^ 63 \<Longrightarrow> int_of_version v = int v"
  unfolding int_of_version_def
  by (subst signed_of_nat) (auto simp: signed_take_bit_int_eq_self)

lemma rebase_bounds:
  assumes "tl_inv s" "v \<le> length (sJournal s)" "0 \<le> p" "p \<le> len_at s v" "0 \<le> q" "q \<le> len_at s v"
    "rebase s p q v = (a, b, at, True)"
  shows "0 \<le> a \<and> a \<le> pe_Len (sBuf s) \<and> 0 \<le> b \<and> b \<le> pe_Len (sBuf s)"
proof (rule rebase_walk_bounds[OF assms(1,2)])
  show "pt_ok s (len_at s v) (start_point p)" "pt_ok s (len_at s v) (start_point q)"
    using assms(3-6) by (simp_all add: pt_ok_def start_point_def)
  show "rebase_walk s (start_point p) (start_point q) (drop v (sJournal s)) = (a, b, at, True)"
    using assms(7) by (auto simp: rebase_def split: if_splits)
qed

section \<open>Plain windows\<close>

text \<open>A window of ordinary edits that are all still in effect.\<close>

definition plain_window :: "session \<Rightarrow> nat \<Rightarrow> bool" where
  "plain_window s v \<longleftrightarrow> list_all (live_edit s) (drop v (sJournal s))"


lemma releases_right:
  "releases as t = Some (r, as') \<Longrightarrow> \<forall>a \<in> set as. anRight a = x \<Longrightarrow> r = x \<and> set as' \<subseteq> set as"
proof (induction as arbitrary: as')
  case (Cons a as)
  then show ?case by (auto split: if_splits)
qed simp

text \<open>What holds of the two ends of a range between two steps of such a window: a non-empty range has
  only left anchors at its start and right anchors at its end; an empty one is a single point.\<close>

definition ends_ok :: "point \<Rightarrow> point \<Rightarrow> bool" where
  "ends_ok lo hi \<longleftrightarrow> \<not> ptHeld lo \<and> \<not> ptHeld hi \<and>
     (if ptAt lo = ptAt hi then lo = hi
      else ptAt lo < ptAt hi \<and> (\<forall>a \<in> set (ptAnchored lo). \<not> anRight a) \<and> (\<forall>a \<in> set (ptAnchored hi). anRight a))"

lemma carry_before:
  assumes "\<not> ptHeld p" "opPos q + DelLen q \<le> ptAt p" "0 \<le> DelLen q" "\<forall>a \<in> set (ptAnchored p). \<not> anRight a"
  shows "ptAt (carry s p q True) = ptAt p + Delta q" "\<not> ptHeld (carry s p q True)"
    "\<forall>a \<in> set (ptAnchored (carry s p q True)). \<not> anRight a"
  using assms releases_right[of "ptAnchored p" "opUndoes q" _ _ False]
  by (auto simp: carry_def Let_def split: option.splits)

lemma carry_past:
  assumes "\<not> ptHeld p" "opPos q + DelLen q \<le> ptAt p" "opPos q < ptAt p" "opPos q + DelLen q < ptAt p"
  shows "carry s p q rw = p\<lparr>ptAt := ptAt p + Delta q\<rparr>"
  using assms by (auto simp: carry_def Let_def)

lemma carry_after:
  assumes "\<not> ptHeld p" "ptAt p \<le> opPos q" "0 \<le> DelLen q" "\<forall>a \<in> set (ptAnchored p). anRight a"
  shows "ptAt (carry s p q False) = ptAt p" "\<not> ptHeld (carry s p q False)"
    "\<forall>a \<in> set (ptAnchored (carry s p q False)). anRight a"
  using assms releases_right[of "ptAnchored p" "opUndoes q" _ _ True]
  by (auto simp: carry_def Let_def split: option.splits)

lemma carry_stays:
  assumes "\<not> ptHeld p" "ptAt p < opPos q" "0 \<le> DelLen q"
  shows "carry s p q rw = p"
  using assms by (auto simp: carry_def Let_def)

lemma carry_unheld:
  assumes "\<not> ptHeld p" "\<not> (opPos q < ptAt p \<and> ptAt p < opPos q + DelLen q)"
  shows "\<not> ptHeld (carry s p q rw)"
  using assms by (auto simp: carry_def Let_def split: option.splits)

text \<open>One live edit that does not damage the range moves it without touching its bytes.\<close>

lemma carry_range:
  assumes "tl_inv s" "v < length (sJournal s)" "live_edit s (sJournal s ! v)" "ends_ok lo hi"
    "0 \<le> ptAt lo" "ptAt hi \<le> len_at s v" "damages s (sJournal s ! v) lo hi = None"
  defines "lo' \<equiv> carry s lo (sJournal s ! v) True"
    and "hi' \<equiv> carry s hi (sJournal s ! v) (ptAt lo = ptAt hi)"
  shows "ends_ok lo' hi'" "ptAt hi' - ptAt lo' = ptAt hi - ptAt lo"
    "sub_range (ptAt lo') (ptAt hi - ptAt lo) (text_at s (Suc v)) = sub_range (ptAt lo) (ptAt hi - ptAt lo) (text_at s v)"
proof -
  let ?q = "sJournal s ! v"
  note O = tl_op[OF assms(1,2)]
  have p: "0 \<le> opPos ?q" "opPos ?q + DelLen ?q \<le> len_at s v" using O(4) by (auto simp: step_in_def)
  have u: "\<not> ptHeld lo" "\<not> ptHeld hi" using assms(4) by (auto simp: ends_ok_def)
  have nd: "opPos ?q + DelLen ?q \<le> ptAt lo \<or> ptAt hi \<le> opPos ?q"
    using assms(3,7) u by (auto simp: damages_def live_edit_def split: if_splits)
  have len: "int (length (text_at s v)) = len_at s v" by (rule length_text_at[OF tl_invD(1)[OF assms(1)]])
  have tx: "text_at s (Suc v) = text_step (pe_Store (sBuf s)) ?q (text_at s v)"
    using assms(2) by (intro text_at_Suc) (simp add: Version_def)
  have il: "int (length (recs_text (pe_Store (sBuf s)) (opIns ?q))) = InsLen ?q"
    using op_lens(3)[OF tl_invD(6)[OF assms(1)]] assms(2) by simp
  have "ends_ok lo' hi' \<and> ptAt hi' - ptAt lo' = ptAt hi - ptAt lo \<and>
    sub_range (ptAt lo') (ptAt hi - ptAt lo) (text_at s (Suc v)) = sub_range (ptAt lo) (ptAt hi - ptAt lo) (text_at s v)"
  proof (cases "ptAt lo = ptAt hi")
    case True
    then have "lo = hi" using assms(4) by (simp add: ends_ok_def)
    moreover have "\<not> ptHeld lo'" unfolding lo'_def using nd True by (intro carry_unheld[OF u(1)]) auto
    ultimately show ?thesis by (simp add: lo'_def hi'_def ends_ok_def)
  next
    case False
    then have lt: "ptAt lo < ptAt hi" and a: "\<forall>a \<in> set (ptAnchored lo). \<not> anRight a" "\<forall>a \<in> set (ptAnchored hi). anRight a"
      using assms(4) by (auto simp: ends_ok_def)
    show ?thesis
    proof (cases "opPos ?q + DelLen ?q \<le> ptAt lo")
      case True
      note L = carry_before[OF u(1) True O(2) a(1), of s, folded lo'_def]
      have H: "hi' = hi\<lparr>ptAt := ptAt hi + Delta ?q\<rparr>"
        unfolding hi'_def using True lt O(2) by (intro carry_past[OF u(2)]) auto
      have "sub_range (ptAt lo + Delta ?q) (ptAt hi - ptAt lo) (text_step (pe_Store (sBuf s)) ?q (text_at s v)) =
          sub_range (ptAt lo) (ptAt hi - ptAt lo) (text_at s v)"
        using sub_range_put_left[of "opPos ?q" "ptAt lo - DelLen ?q" "ptAt hi - ptAt lo" "cut_range (opPos ?q) (DelLen ?q) (text_at s v)" "recs_text (pe_Store (sBuf s)) (opIns ?q)"]
          sub_range_cut_left[of "opPos ?q" "DelLen ?q" "ptAt lo" "text_at s v" "ptAt hi - ptAt lo"] True p O(2) lt len il
          length_cut_range[of "opPos ?q" "DelLen ?q" "text_at s v"] assms(6)
        by (simp add: text_step_def Delta_def algebra_simps)
      then show ?thesis using L H a lt u(2) by (simp add: ends_ok_def tx)
    next
      case f: False
      then have ge: "ptAt hi \<le> opPos ?q" using nd by simp
      have L: "lo' = lo" unfolding lo'_def using ge lt by (intro carry_stays[OF u(1) _ O(2)]) simp
      have fe: "(ptAt lo = ptAt hi) = False" using False by simp
      note H = carry_after[OF u(2) ge O(2) a(2), of s]
      have "sub_range (ptAt lo) (ptAt hi - ptAt lo) (text_step (pe_Store (sBuf s)) ?q (text_at s v)) =
          sub_range (ptAt lo) (ptAt hi - ptAt lo) (text_at s v)"
        using sub_range_put_right[of "ptAt lo" "ptAt hi - ptAt lo" "opPos ?q" "cut_range (opPos ?q) (DelLen ?q) (text_at s v)" "recs_text (pe_Store (sBuf s)) (opIns ?q)"]
          sub_range_cut_right[of "ptAt lo" "ptAt hi - ptAt lo" "opPos ?q" "text_at s v" "DelLen ?q"] ge p O(2) lt len assms(5)
          length_cut_range[of "opPos ?q" "DelLen ?q" "text_at s v"]
        by (simp add: text_step_def)
      then show ?thesis using L H a lt u by (simp add: hi'_def fe ends_ok_def tx)
    qed
  qed
  then show "ends_ok lo' hi'" "ptAt hi' - ptAt lo' = ptAt hi - ptAt lo"
    "sub_range (ptAt lo') (ptAt hi - ptAt lo) (text_at s (Suc v)) = sub_range (ptAt lo) (ptAt hi - ptAt lo) (text_at s v)"
    by auto
qed

text \<open>The whole window: what a successful walk carried, and what a refused one names.\<close>

lemma plain_walk:
  assumes "tl_inv s" "plain_window s v" "v \<le> length (sJournal s)" "ends_ok lo hi" "0 \<le> ptAt lo" "ptAt hi \<le> len_at s v"
  shows "case rebase_walk s lo hi (drop v (sJournal s)) of (a, b, at, ok) \<Rightarrow>
     if ok then 0 \<le> a \<and> b \<le> pe_Len (sBuf s) \<and> b - a = ptAt hi - ptAt lo \<and>
       sub_range a (b - a) (pe_text (sBuf s)) = sub_range (ptAt lo) (ptAt hi - ptAt lo) (text_at s v)
     else v \<le> at \<and> at < length (sJournal s) \<and> live_edit s (sJournal s ! at) \<and> 0 < DelLen (sJournal s ! at) + (ptAt hi - ptAt lo)"
  using assms(2-)
proof (induction "length (sJournal s) - v" arbitrary: v lo hi)
  case 0
  then have v: "v = length (sJournal s)" by simp
  have "text_at s v = pe_text (sBuf s)" using v tl_invD(7)[OF assms(1)] by (simp add: text_at_def)
  then show ?case using 0 v len_now[OF tl_invD(1)[OF assms(1)]] by (simp add: ends_ok_def)
next
  case (Suc k)
  then have v: "v < length (sJournal s)" by simp
  let ?q = "sJournal s ! v"
  have d: "drop v (sJournal s) = ?q # drop (Suc v) (sJournal s)" by (simp add: Cons_nth_drop_Suc v)
  have le: "live_edit s ?q" and pw: "plain_window s (Suc v)" using Suc.prems(1) by (simp_all add: plain_window_def d)
  have u: "\<not> ptHeld lo" "\<not> ptHeld hi" using Suc.prems(3) by (auto simp: ends_ok_def)
  show ?case
  proof (cases "damages s ?q lo hi")
    case (Some at)
    then have "at = v" "0 < DelLen ?q + (ptAt hi - ptAt lo)"
      using u tl_op(1)[OF assms(1) v] by (auto simp: damages_def split: if_splits)
    then show ?thesis using Some v le by (simp add: d)
  next
    case None
    note C = carry_range[OF assms(1) v le Suc.prems(3,4,5) None]
    let ?lo = "carry s lo ?q True" and ?hi = "carry s hi ?q (ptAt lo = ptAt hi)"
    have "pt_ok s (len_at s v) lo" "pt_ok s (len_at s v) hi"
      using Suc.prems(3-5) u by (auto simp: pt_ok_def ends_ok_def split: if_splits)
    then have "pt_ok s (len_at s (Suc v)) ?lo" "pt_ok s (len_at s (Suc v)) ?hi"
      using carry_ok[OF assms(1) v] by blast+
    then have b: "0 \<le> ptAt ?lo" "ptAt ?hi \<le> len_at s (Suc v)" using C(1) by (simp_all add: pt_ok_def ends_ok_def)
    have w: "rebase_walk s lo hi (drop v (sJournal s)) = rebase_walk s ?lo ?hi (drop (Suc v) (sJournal s))"
      using u by (simp add: d None Let_def)
    have "k = length (sJournal s) - Suc v" "Suc v \<le> length (sJournal s)" using Suc.hyps(2) v by auto
    from Suc.hyps(1)[OF this(1) pw this(2) C(1) b] show ?thesis
      unfolding w C(2) C(3) by (auto split: prod.splits if_splits)
  qed
qed

end
