(* ===== verification/Diff.thy ===== *)
theory Diff
  imports Projection
begin

text \<open>
  Diffs written against a past version: \<open>ApplyDiff\<close> of \<open>internal/piecetable/session.go\<close>, with the
  leases of \<open>project.go\<close> and \<open>groups.go\<close> deciding what a hunk may touch. Slicing the journal with a
  version past its end panics; the model's value is then \<open>None\<close>.
\<close>

record Hunk =
  hkStart :: int
  hkEnd :: int
  hkText :: "byte list"

record Conflict =
  cfIndex :: nat
  cfHunk :: Hunk
  cfAt :: nat
  cfGroup :: nat
  cfAuthor :: author
  cfStart :: int
  cfEnd :: int

record diff_state =
  dsSession :: session
  dsConflicts :: "Conflict list"
  dsWarnings :: "Block list"

definition stale_conflict :: "nat \<Rightarrow> Hunk \<Rightarrow> nat \<Rightarrow> Conflict" where
  "stale_conflict i h at = \<lparr>cfIndex = i, cfHunk = h, cfAt = at, cfGroup = 0, cfAuthor = 0, cfStart = 0, cfEnd = 0\<rparr>"

definition lease_conflict :: "nat \<Rightarrow> Hunk \<Rightarrow> nat \<Rightarrow> author \<Rightarrow> int \<Rightarrow> int \<Rightarrow> Conflict" where
  "lease_conflict i h g a lo hi =
     \<lparr>cfIndex = i, cfHunk = h, cfAt = 0, cfGroup = g, cfAuthor = a, cfStart = lo, cfEnd = hi\<rparr>"

text \<open>What the leases say about a rebased range: the hunk is refused, or it joins a set (0 opens a new
  one) and the drafts it moves past are named, each once in the batch.\<close>

datatype verdict = Refused Conflict | Lands nat "Block list"

definition warn_step :: "Block list \<Rightarrow> Block \<Rightarrow> Block list" where
  "warn_step ws w = (if bkGroup w \<in> set (map bkGroup ws) then ws else ws @ [w])"

definition judge :: "session \<Rightarrow> author \<Rightarrow> nat \<Rightarrow> Hunk \<Rightarrow> int \<Rightarrow> int \<Rightarrow> Block list \<Rightarrow> verdict" where
  "judge s a i h start end warnings =
     (case rejectedLease s start (end - start) of
        Some (g, lo, hi) \<Rightarrow>
          Refused (lease_conflict i h g (case groupAuthor s g of None \<Rightarrow> 0 | Some w \<Rightarrow> w) lo hi)
      | None \<Rightarrow>
          let spans = proposedSpans s start (end - start);
              own = (case find (\<lambda>w. bkAuthor w = a) spans of None \<Rightarrow> no_block | Some w \<Rightarrow> w)
          in if bkGroup own \<noteq> 0 \<and> 1 < length spans
             then Refused (lease_conflict i h (bkGroup own) (bkAuthor own) (bkStart own) (bkEnd own))
             else if bkGroup own \<noteq> 0 then Lands (bkGroup own) warnings
             else Lands 0 (foldl warn_step warnings spans))"

definition land :: "session \<Rightarrow> author \<Rightarrow> Hunk \<Rightarrow> int \<Rightarrow> int \<Rightarrow> nat \<Rightarrow> session" where
  "land s a h start end join =
     (let del = (if start < end then pe_pieceRange (sBuf s) start (end - start) else []);
          (ins, s1) = (if hkText h = [] then ([], s)
                       else case session_append s a (hkText h) of
                              (off, s1) \<Rightarrow> ([piece a off (int (length (hkText h)))], s1))
      in commitInto s1 (edit_op a start del ins) join)"

definition apply_hunk :: "author \<Rightarrow> nat \<Rightarrow> nat \<Rightarrow> Hunk \<Rightarrow> diff_state \<Rightarrow> diff_state option" where
  "apply_hunk a base i h d =
     (let s = dsSession d
      in if hkStart h = hkEnd h \<and> hkText h = [] then Some d
         else if rebase_panics s base then None
         else case rebase s (hkStart h) (hkEnd h) base of
           (start, end, at, ok) \<Rightarrow>
             if \<not> ok then Some (d\<lparr>dsConflicts := dsConflicts d @ [stale_conflict i h at]\<rparr>)
             else if start < end \<and> hkText h \<noteq> [] \<and> pe_Slice (sBuf s) start (end - start) = hkText h
             then Some d
             else case judge s a i h start end (dsWarnings d) of
               Refused c \<Rightarrow> Some (d\<lparr>dsConflicts := dsConflicts d @ [c]\<rparr>)
             | Lands join ws \<Rightarrow> Some (d\<lparr>dsSession := land s a h start end join, dsWarnings := ws\<rparr>))"

fun apply_hunks :: "author \<Rightarrow> nat \<Rightarrow> nat \<Rightarrow> Hunk list \<Rightarrow> diff_state \<Rightarrow> diff_state option" where
  "apply_hunks a base i [] d = Some d"
| "apply_hunks a base i (h # hs) d =
     (case apply_hunk a base i h d of None \<Rightarrow> None | Some d' \<Rightarrow> apply_hunks a base (i + 1) hs d')"

definition ApplyDiff :: "session \<Rightarrow> author \<Rightarrow> nat \<Rightarrow> Hunk list \<Rightarrow> diff_state option" where
  "ApplyDiff s a base hunks = apply_hunks a base 0 hunks \<lparr>dsSession = s, dsConflicts = [], dsWarnings = []\<rparr>"

end
