(* ===== verification/Reach.thy ===== *)
theory Reach
  imports Carry Diff
begin

text \<open>
  Every operation of a session keeps the invariant of \<open>Timeline\<close>: edits, transactions, decisions,
  undo, redo, disposal, revert, and diffs against past versions. The reachable sessions are those a
  sequence of such operations makes out of a fresh buffer.
\<close>

section \<open>Bookkeeping\<close>

lemma tl_inv_cong:
  "sBuf s' = sBuf s \<Longrightarrow> sOrigLen s' = sOrigLen s \<Longrightarrow> sJournal s' = sJournal s \<Longrightarrow> sReversers s' = sReversers s \<Longrightarrow>
   sGroup s' = sGroup s \<Longrightarrow> sDepth s' = sDepth s \<Longrightarrow> tl_inv s' = tl_inv s"
  by (simp add: tl_inv_def flow_inv_def journal_inv_def depth_ok_def base_text_def)

lemma sess_tl: "sess_inv s \<Longrightarrow> depth_ok s \<Longrightarrow> \<forall>q \<in> set (sJournal s). reversal_ok (sJournal s) q \<Longrightarrow> tl_inv s"
  by (simp add: tl_inv_def sess_inv_def text_inv_flow)

lemma NewSession_tl: "fresh_buffer b \<Longrightarrow> tl_inv (NewSession b)"
  by (intro sess_tl NewSession_inv) (simp_all add: NewSession_def depth_ok_def)

lemma Begin_tl: "tl_inv s \<Longrightarrow> tl_inv (Begin s) \<and> sBuf (Begin s) = sBuf s"
  by (auto simp: tl_inv_def flow_inv_def journal_inv_def depth_ok_def base_text_def Begin_def)

lemma End_tl: "tl_inv s \<Longrightarrow> tl_inv (End s) \<and> sBuf (End s) = sBuf s"
  by (auto simp: tl_inv_def flow_inv_def journal_inv_def depth_ok_def base_text_def End_def)

lemma MarkGroup_fields [simp]:
  "sBuf (MarkGroup s g st) = sBuf s" "sJournal (MarkGroup s g st) = sJournal s" "sOrigLen (MarkGroup s g st) = sOrigLen s"
  "sReversers (MarkGroup s g st) = sReversers s" "sGroup (MarkGroup s g st) = sGroup s" "sDepth (MarkGroup s g st) = sDepth s"
  "sCompacted (MarkGroup s g st) = sCompacted s" "sGroupTask (MarkGroup s g st) = sGroupTask s"
  by (simp_all add: MarkGroup_def)

lemma MarkGroup_tl: "tl_inv (MarkGroup s g st) = tl_inv s"
  by (rule tl_inv_cong) simp_all

lemma SetGroupTask_tl: "tl_inv (SetGroupTask s g task) = tl_inv s"
  by (rule tl_inv_cong) (simp_all add: SetGroupTask_def)

lemma flow_carrier: "flow_inv s \<Longrightarrow> carrier s"
  by (simp add: flow_inv_def carrier_def)

lemma tl_len: "tl_inv s \<Longrightarrow> pe_Len (sBuf s) = int (length (pe_text (sBuf s)))"
  using pe_text_length tl_invD(5) by metis

lemma append_tl:
  assumes "tl_inv s" "room s a t" "session_append s a t = (start, s')" "t \<noteq> []"
  shows "tl_inv s'" "pe_text (sBuf s') = pe_text (sBuf s)" "pe_Len (sBuf s') = pe_Len (sBuf s)"
    "pe_splice_ok (sBuf s') [piece a start (int (length t))]"
    "recs_text (pe_Store (sBuf s')) [piece a start (int (length t))] = t"
    "s' = s\<lparr>sBuf := sBuf s'\<rparr>" "store_le (pe_Store (sBuf s)) (pe_Store (sBuf s'))" "pe_fits (sBuf s') = pe_fits (sBuf s)"
proof -
  note c = flow_carrier[OF tl_invD(1)[OF assms(1)]]
  note A = session_append_grows[OF c assms(2-4)]
  obtain st where st: "store_le (pe_Store (sBuf s)) st" "s' = s\<lparr>sBuf := pe_set_store st (sBuf s)\<rparr>" using A(1) by blast
  note G = grow_stores[OF c st(1), folded st(2)]
  have j: "sJournal s' = sJournal s" "sOrigLen s' = sOrigLen s" by (simp_all add: st(2))
  have "flow_inv s'" using tl_invD(1)[OF assms(1)] G unfolding flow_inv_def carrier_def j by simp
  then show "tl_inv s'" using assms(1) by (simp add: tl_inv_def journal_inv_def depth_ok_def st(2))
  show "pe_text (sBuf s') = pe_text (sBuf s)" "pe_Len (sBuf s') = pe_Len (sBuf s)" "pe_fits (sBuf s') = pe_fits (sBuf s)"
    "store_le (pe_Store (sBuf s)) (pe_Store (sBuf s'))" using G st(1) by simp_all
  show "pe_splice_ok (sBuf s') [piece a start (int (length t))]"
    "recs_text (pe_Store (sBuf s')) [piece a start (int (length t))] = t" by (rule A(2), rule A(3))
  show "s' = s\<lparr>sBuf := sBuf s'\<rparr>" by (simp add: st(2))
qed

section \<open>Edits\<close>

text \<open>An edit op that removes what is in a range of the document and inserts given pieces.\<close>

lemma edit_commit_in:
  assumes "tl_inv s" "0 \<le> pos" "0 \<le> n" "pos + n \<le> pe_Len (sBuf s)" "pe_splice_ok (sBuf s) ins"
  shows "commit_in s (edit_op a pos (pe_pieceRange (sBuf s) pos n) ins)" "recsLen (pe_pieceRange (sBuf s) pos n) = n"
    "commit_in s (edit_op a pos [] ins)"
proof -
  note R = pe_pieceRange_exact[OF tl_invD(5)[OF assms(1)] assms(2-4)]
  show "commit_in s (edit_op a pos (pe_pieceRange (sBuf s) pos n) ins)" "recsLen (pe_pieceRange (sBuf s) pos n) = n"
    using assms R(2,3) by (simp_all add: commit_in_def op_recs_ok_def step_in_def reversal_ok_def)
  show "commit_in s (edit_op a pos [] ins)"
    using assms by (simp add: commit_in_def op_recs_ok_def step_in_def reversal_ok_def pe_splice_ok_def)
qed

lemma commit_tl:
  assumes "tl_inv s" "commit_in s q"
  shows "tl_inv (commit s q)" "pe_text (sBuf (commit s q)) = text_step (pe_Store (sBuf s)) q (pe_text (sBuf s))"
    "pe_fits (sBuf (commit s q)) = pe_fits (sBuf s)" "pe_Store (sBuf (commit s q)) = pe_Store (sBuf s)"
  using commit_in_tl[OF assms, of 0] by (simp_all add: commit_def)

lemma clamped_point: "0 \<le> tot \<Longrightarrow> 0 \<le> fst (clampRange pos 0 tot) \<and> fst (clampRange pos 0 tot) \<le> tot"
  by (simp add: clamp_point)

lemma Insert_tl:
  assumes "tl_inv s" "room s a t"
  shows "tl_inv (Insert s a pos t)"
    "pe_text (sBuf (Insert s a pos t)) = put_at (min pos (pe_Len (sBuf s))) t (pe_text (sBuf s))"
proof -
  have "tl_inv (Insert s a pos t) \<and> pe_text (sBuf (Insert s a pos t)) = put_at (min pos (pe_Len (sBuf s))) t (pe_text (sBuf s))"
  proof (cases "t = []")
    case True
    then show ?thesis using assms(1) by (simp add: Insert_def)
  next
    case False
    let ?p = "fst (clampRange pos 0 (pe_Len (sBuf s)))"
    obtain start s1 where ap: "session_append s a t = (start, s1)" by fastforce
    note A = append_tl[OF assms ap False]
    have len: "0 \<le> pe_Len (sBuf s)" using tl_len[OF assms(1)] by simp
    have "commit_in s1 (edit_op a ?p [] [piece a start (int (length t))])"
      using edit_commit_in(3)[OF A(1) _ order_refl _ A(4)] clamped_point[OF len] A(3) by simp
    note C = commit_tl[OF A(1) this]
    have tx: "text_step (pe_Store (sBuf s1)) (edit_op a ?p [] [piece a start (int (length t))]) (pe_text (sBuf s1)) = put_at ?p t (pe_text (sBuf s))"
      using A(2,5) by (simp add: text_step_def)
    have pa: "put_at ?p t (pe_text (sBuf s)) = put_at (min pos (pe_Len (sBuf s))) t (pe_text (sBuf s))"
      unfolding clamp_point[OF len] by (rule put_at_max)
    show ?thesis using C(1,2) ap tx pa False by (simp add: Insert_def)
  qed
  then show "tl_inv (Insert s a pos t)"
    "pe_text (sBuf (Insert s a pos t)) = put_at (min pos (pe_Len (sBuf s))) t (pe_text (sBuf s))" by auto
qed

lemma Delete_tl:
  assumes "tl_inv s" "clampRange pos n (pe_Len (sBuf s)) = (p, k)"
  shows "tl_inv (Delete s a pos n)" "pe_text (sBuf (Delete s a pos n)) = cut_range p k (pe_text (sBuf s))"
proof -
  have "0 \<le> pe_Len (sBuf s)" using tl_len[OF assms(1)] by simp
  note B = clampRange_bounds[OF this assms(2)]
  have "pe_splice_ok (sBuf s) []" by (simp add: pe_splice_ok_def)
  note E = edit_commit_in[OF assms(1) B this]
  note C = commit_tl[OF assms(1) E(1), of a]
  show "tl_inv (Delete s a pos n)" using C(1) assms by (simp add: Delete_def)
  show "pe_text (sBuf (Delete s a pos n)) = cut_range p k (pe_text (sBuf s))"
    using C(2) assms(2) E(2) by (simp add: Delete_def text_step_def)
qed

lemma InsertPieces_tl:
  assumes "tl_inv s" "pe_splice_ok (sBuf s) recs"
  shows "tl_inv (InsertPieces s a pos recs)"
proof -
  have "0 \<le> pe_Len (sBuf s)" using tl_len[OF assms(1)] by simp
  from clamped_point[OF this, of pos] have "commit_in s (edit_op a (fst (clampRange pos 0 (pe_Len (sBuf s)))) [] recs)"
    by (intro edit_commit_in(3)[OF assms(1) _ order_refl _ assms(2)]) simp_all
  from commit_tl(1)[OF assms(1) this] show ?thesis using assms(1) by (simp add: InsertPieces_def)
qed

section \<open>Reversals\<close>

text \<open>What no operation takes back: the journal and the stores only grow, over the same base.\<close>

definition extends :: "session \<Rightarrow> session \<Rightarrow> bool" where
  "extends s s' \<longleftrightarrow> (\<exists>qs. sJournal s' = sJournal s @ qs) \<and> store_le (pe_Store (sBuf s)) (pe_Store (sBuf s')) \<and>
     sOrigLen s' = sOrigLen s"

lemma extends_refl [simp]: "extends s s" by (simp add: extends_def)

lemma extends_trans: "extends s s' \<Longrightarrow> extends s' s'' \<Longrightarrow> extends s s''"
  by (auto simp: extends_def intro: store_le_trans)

lemma apply_op_store [simp]: "pe_Store (apply_op b q) = pe_Store b"
proof -
  have i: "pe_Store (pe_insertRecs x pos rs) = pe_Store x" for x pos rs
    by (cases x) (simp_all add: naive_insertRecs_def doc_insertRecs_def)
  have "pe_Store (snd (pe_removeRange x pos n)) = pe_Store x" for x pos n
    by (cases x) (auto simp: naive_removeRange_def doc_cut_def doc_removeRange_def Let_def split: prod.splits option.splits)
  then show ?thesis by (simp add: apply_op_def i)
qed

lemma extends_commitInto [simp]: "extends s (commitInto s q g)"
  by (simp add: extends_def commitInto_fields)

lemma extends_commit [simp]: "extends s (commit s q)"
  by (simp add: commit_def)

lemma extends_append: "0 \<le> a \<Longrightarrow> session_append s a t = (start, s') \<Longrightarrow> extends s s'"
  using store_le_Append[of a "pe_Store (sBuf s)" t]
  by (cases "sBuf s") (auto simp: session_append_def extends_def naive_set_store_def doc_set_store_def split: prod.splits)

lemma extends_same: "sJournal s' = sJournal s \<Longrightarrow> sBuf s' = sBuf s \<Longrightarrow> sOrigLen s' = sOrigLen s \<Longrightarrow> extends s s'"
  by (simp add: extends_def)

lemma extends_nth: "extends s s' \<Longrightarrow> v < length (sJournal s) \<Longrightarrow> sJournal s' ! v = sJournal s ! v \<and> v < length (sJournal s')"
  by (auto simp: extends_def nth_append)

lemma inverse_commit_in:
  assumes "tl_inv s" "v < length (sJournal s)" "rebasedInverseAt s (sJournal s ! v) = Inr iv"
  shows "commit_in s iv" "opUndoes iv = v" "opKind iv \<noteq> KindEdit"
proof -
  let ?q = "sJournal s ! v"
  note O = tl_op[OF assms(1,2)]
  have rv: "op_recs_ok (sBuf s) ?q" using tl_invD(6)[OF assms(1)] assms(2) by simp
  obtain a b at where r: "rebase s (opPos ?q) (opPos ?q + InsLen ?q) (v + 1) = (a, b, at, True)" "b - a = InsLen ?q"
      "b \<le> pe_Len (sBuf s)" "iv = (Inverse ?q)\<lparr>opPos := a\<rparr>"
    using assms(3) O(1) by (auto simp: rebasedInverseAt_def split: prod.splits if_splits)
  have l: "len_at s (Suc v) = len_at s v + Delta ?q" by (rule len_at_Suc[OF assms(2)])
  have "0 \<le> a \<and> a \<le> pe_Len (sBuf s) \<and> 0 \<le> b \<and> b \<le> pe_Len (sBuf s)"
    using O l assms(2) r(1) by (intro rebase_bounds[OF assms(1), of "v + 1"]) (auto simp: step_in_def Delta_def)
  then show "commit_in s iv"
    using r(2-4) rv O(1) assms(2)
    by (simp add: commit_in_def step_in_def reversal_ok_def op_recs_ok_def Inverse_def DelLen_def InsLen_def)
  show "opUndoes iv = v" "opKind iv \<noteq> KindEdit" using r(4) O(1) by (simp_all add: Inverse_def)
qed

lemma rollback_tl:
  assumes "tl_inv s" "\<forall>v \<in> set vs. v < length (sJournal s)"
  shows "tl_inv (rollback s vs) \<and> extends s (rollback s vs) \<and> pe_fits (sBuf (rollback s vs)) = pe_fits (sBuf s)"
  using assms
proof (induction vs arbitrary: s)
  case (Cons v vs)
  show ?case
  proof (cases "rebasedInverseAt s (sJournal s ! v)")
    case (Inl at)
    then show ?thesis using Cons.prems by (simp add: rebasedInverse_def)
  next
    case (Inr iv)
    note C = commit_tl[OF Cons.prems(1) inverse_commit_in(1)[OF Cons.prems(1) _ Inr]]
    have v: "v < length (sJournal s)" using Cons.prems(2) by simp
    have "\<forall>x \<in> set vs. x < length (sJournal (commit s iv))"
      using Cons.prems(2) extends_nth[OF extends_commit] by auto
    from Cons.IH[OF C(1)[OF v] this] show ?thesis
      using Inr C(3)[OF v] extends_trans[OF extends_commit, of s iv "rollback (commit s iv) vs"] by (simp add: rebasedInverse_def)
  qed
qed simp

lemma reverse_loop_tl:
  assumes "tl_inv s" "\<forall>q \<in> set qs. q \<in> set (sJournal s)" "\<forall>v \<in> set applied. v < length (sJournal s)"
    "reverse_loop s qs applied = (s', applied', blk)"
  shows "tl_inv s' \<and> extends s s' \<and> (\<forall>v \<in> set applied'. v < length (sJournal s')) \<and> pe_fits (sBuf s') = pe_fits (sBuf s)"
  using assms
proof (induction qs arbitrary: s applied)
  case (Cons q qs)
  obtain v where v: "v < length (sJournal s)" "q = sJournal s ! v"
    using Cons.prems(2) by (metis in_set_conv_nth list.set_intros(1))
  show ?case
  proof (cases "rebasedInverseAt s q")
    case (Inl at)
    then show ?thesis using Cons.prems by simp
  next
    case (Inr iv)
    note C = commit_tl[OF Cons.prems(1) inverse_commit_in(1)[OF Cons.prems(1) v(1) Inr[unfolded v(2)]]]
    have j: "length (sJournal (commit s iv)) = Suc (length (sJournal s))" by (simp add: commit_def commitInto_fields)
    have "\<forall>x \<in> set qs. x \<in> set (sJournal (commit s iv))"
      using Cons.prems(2) by (auto simp: commit_def commitInto_fields)
    moreover have "\<forall>x \<in> set (Version s # applied). x < length (sJournal (commit s iv))"
      using Cons.prems(3) j by (auto simp: Version_def)
    ultimately show ?thesis
      using Cons.IH[OF C(1), of "Version s # applied"] Cons.prems(4) Inr C(3) extends_trans[OF extends_commit, of s iv s']
      by simp
  qed
qed simp

lemma reverseGroupBlock_tl:
  assumes "tl_inv s" "reverseGroupBlock s g want keep = (ok, blk, s')"
  shows "tl_inv s' \<and> extends s s' \<and> pe_fits (sBuf s') = pe_fits (sBuf s)"
proof -
  note B = Begin_tl[OF assms(1)]
  obtain s1 applied st where L: "reverse_loop (Begin s) (rev (reverseMembers s g want keep)) [] = (s1, applied, st)"
    by (metis prod_cases3)
  have "\<forall>q \<in> set (rev (reverseMembers s g want keep)). q \<in> set (sJournal (Begin s))"
    by (simp add: reverseMembers_def Begin_def)
  note R = reverse_loop_tl[OF conjunct1[OF B] this _ L, simplified]
  have bj: "sJournal (Begin s) = sJournal s" "pe_fits (sBuf (Begin s)) = pe_fits (sBuf s)" "sBuf (Begin s) = sBuf s"
    "sOrigLen (Begin s) = sOrigLen s" by (simp_all add: Begin_def)
  have e1: "extends s s1" using R bj by (simp add: extends_def)
  have ee: "extends x (End y) = extends x y" "sBuf (End y) = sBuf y" for x y by (simp_all add: extends_def End_def)
  show ?thesis
  proof (cases st)
    case None
    then show ?thesis using assms(2) L R e1 bj(2) End_tl[of s1] ee by (auto simp: reverseGroupBlock_def Let_def)
  next
    case (Some at)
    note W = rollback_tl[of s1 applied]
    show ?thesis
      using assms(2) L R e1 bj(2) W End_tl[of "rollback s1 applied"] ee extends_trans[OF e1] Some
      by (auto simp: reverseGroupBlock_def Let_def)
  qed
qed

text \<open>Undo, redo and the disposal of a set are reversals and decisions.\<close>

lemma reverseGroup_tl: "tl_inv s \<Longrightarrow> reverseGroup s g want keep = (ok, s') \<Longrightarrow> tl_inv s' \<and> extends s s'"
  by (auto simp: reverseGroup_def split: prod.splits dest: reverseGroupBlock_tl)

lemma reverseLatest_tl: "tl_inv s \<Longrightarrow> reverseLatest s a want = (ok, s') \<Longrightarrow> tl_inv s' \<and> extends s s'"
  by (auto simp: reverseLatest_def split: option.splits dest: reverseGroup_tl)

lemma Undo_tl: "tl_inv s \<Longrightarrow> tl_inv (snd (Undo s a))"
  using reverseLatest_tl[of s a KindUndo "fst (Undo s a)" "snd (Undo s a)"] by (simp add: Undo_def)

lemma Redo_tl: "tl_inv s \<Longrightarrow> tl_inv (snd (Redo s a))"
  using reverseLatest_tl[of s a KindRedo "fst (Redo s a)" "snd (Redo s a)"] by (simp add: Redo_def)

lemma RejectGroup_tl: "tl_inv s \<Longrightarrow> tl_inv (snd (RejectGroup s g))"
  by (simp add: RejectGroup_def MarkGroup_tl)

lemma ClearRejectedBlock_tl: "tl_inv s \<Longrightarrow> ClearRejectedBlock s g = (ok, b, s') \<Longrightarrow> tl_inv s'"
  by (auto simp: ClearRejectedBlock_def MarkGroup_tl split: prod.splits if_splits dest: reverseGroupBlock_tl)

lemma ClearGroup_tl: "tl_inv s \<Longrightarrow> tl_inv (snd (snd (ClearGroup s g)))"
  using ClearRejectedBlock_tl[of s g "fst (ClearRejectedBlock s g)" "fst (snd (ClearRejectedBlock s g))"]
  by (simp add: ClearGroup_def MarkGroup_tl split: GroupState.splits option.splits)

lemma revert_loop_tl: "tl_inv s \<Longrightarrow> tl_inv (snd (revert_loop s a gs))"
proof (induction gs arbitrary: s)
  case (Cons g gs)
  obtain ok b s1 where R: "reverseGroupBlock s g KindUndo (Some (byAuthor a)) = (ok, b, s1)" by (metis prod_cases3)
  note T = conjunct1[OF reverseGroupBlock_tl[OF Cons.prems R]]
  then show ?case using R Cons.IH[OF T] Cons.IH[of "MarkGroup s1 g Accepted"] by (simp add: MarkGroup_tl)
qed simp

lemma RevertAuthor_tl: "tl_inv s \<Longrightarrow> tl_inv (snd (snd (RevertAuthor s a)))"
  using revert_loop_tl[of s a "rev (author_groups s a)"]
  by (auto simp: RevertAuthor_def Let_def split: prod.splits option.splits)

lemma AcceptPending_tl: "tl_inv s \<Longrightarrow> tl_inv (snd (AcceptPending s))"
proof -
  have "tl_inv (foldl (\<lambda>s g. AcceptGroup s (gID g)) s gs) = tl_inv s" for gs
    by (induction gs arbitrary: s) (simp_all add: AcceptGroup_def MarkGroup_tl)
  then show "tl_inv s \<Longrightarrow> tl_inv (snd (AcceptPending s))" by (simp add: AcceptPending_def Let_def)
qed

section \<open>Diffs\<close>

lemma land_tl:
  assumes "tl_inv s" "room s a (hkText h)" "0 \<le> lo" "lo \<le> pe_Len (sBuf s)" "hi \<le> pe_Len (sBuf s)" "g \<le> sGroup s"
  shows "tl_inv (land s a h lo hi g)"
    "pe_text (sBuf (land s a h lo hi g)) = put_at lo (hkText h) (cut_range lo (max 0 (hi - lo)) (pe_text (sBuf s)))"
    "length (sJournal (land s a h lo hi g)) = Suc (length (sJournal s))"
proof -
  let ?n = "max 0 (hi - lo)"
  let ?del = "if lo < hi then pe_pieceRange (sBuf s) lo (hi - lo) else []"
  obtain ins s1 where I: "(if hkText h = [] then ([], s)
      else case session_append s a (hkText h) of (off, s1) \<Rightarrow> ([piece a off (int (length (hkText h)))], s1)) = (ins, s1)"
    by fastforce
  have S1: "tl_inv s1 \<and> pe_text (sBuf s1) = pe_text (sBuf s) \<and> pe_Len (sBuf s1) = pe_Len (sBuf s) \<and> pe_splice_ok (sBuf s1) ins \<and>
      recs_text (pe_Store (sBuf s1)) ins = hkText h \<and> s1 = s\<lparr>sBuf := sBuf s1\<rparr> \<and> store_le (pe_Store (sBuf s)) (pe_Store (sBuf s1)) \<and>
      pe_fits (sBuf s1) = pe_fits (sBuf s)"
  proof (cases "hkText h = []")
    case True
    then show ?thesis using I assms(1) by (auto simp: pe_splice_ok_def)
  next
    case False
    obtain off where ap: "session_append s a (hkText h) = (off, s1)" "ins = [piece a off (int (length (hkText h)))]"
      using I False by (auto split: prod.splits)
    show ?thesis using append_tl[OF assms(1,2) ap(1) False] unfolding ap(2) by blast
  qed
  have land: "land s a h lo hi g = commitInto s1 (edit_op a lo ?del ins) g"
    using I by (simp add: land_def Let_def split: prod.splits)
  have D: "op_recs_ok (sBuf s1) (edit_op a lo ?del ins) \<and> recsLen ?del = ?n"
  proof (cases "lo < hi")
    case True
    then have "0 \<le> lo" "0 \<le> hi - lo" "lo + (hi - lo) \<le> pe_Len (sBuf s)" using assms by auto
    note R = pe_pieceRange_exact[OF tl_invD(5)[OF assms(1)] this]
    have "pe_splice_ok (sBuf s1) (pe_pieceRange (sBuf s) lo (hi - lo))"
      using R(2) S1 rec_in_store_mono by (auto simp: pe_splice_ok_def)
    then show ?thesis using True R(3) S1 by (simp add: op_recs_ok_def)
  next
    case False
    have "pe_splice_ok (sBuf s1) ins" using S1 by blast
    then show ?thesis using False by (simp add: op_recs_ok_def) (simp add: pe_splice_ok_def)
  qed
  have "commit_in s1 (edit_op a lo ?del ins)"
    using D assms(3-5) S1 by (auto simp: commit_in_def step_in_def reversal_ok_def)
  moreover obtain b where b: "s1 = s\<lparr>sBuf := b\<rparr>" using S1 by blast
  ultimately have C: "tl_inv (land s a h lo hi g)"
      "pe_text (sBuf (land s a h lo hi g)) = text_step (pe_Store (sBuf s1)) (edit_op a lo ?del ins) (pe_text (sBuf s1))"
    using commit_in_tl[of s1 "edit_op a lo ?del ins" g] S1 assms(6) b unfolding land by simp_all
  show "tl_inv (land s a h lo hi g)" by (rule C(1))
  show "pe_text (sBuf (land s a h lo hi g)) = put_at lo (hkText h) (cut_range lo (max 0 (hi - lo)) (pe_text (sBuf s)))"
    using C(2) S1 D by (simp add: text_step_def)
  show "length (sJournal (land s a h lo hi g)) = Suc (length (sJournal s))"
    using b by (simp add: land commitInto_fields)
qed

text \<open>A hunk of a diff: a past version of this journal, offsets inside the document as it was then.\<close>

definition hunk_ok :: "session \<Rightarrow> author \<Rightarrow> nat \<Rightarrow> Hunk \<Rightarrow> bool" where
  "hunk_ok s a base h \<longleftrightarrow> base \<le> Version s \<and> room s a (hkText h) \<and> 0 \<le> hkStart h \<and> hkStart h \<le> len_at s base \<and>
     0 \<le> hkEnd h \<and> hkEnd h \<le> len_at s base"

text \<open>The sets a diff may join are sets of the journal: the owner of a run, or of a deletion.\<close>

definition journal_groups :: "session \<Rightarrow> nat set" where
  "journal_groups s = opGroup ` set (sJournal s)"

lemma origin_groups: "orGroup ` set (allOrigins s) \<subseteq> journal_groups s"
proof -
  have "hasLiveMembers s g \<Longrightarrow> g \<in> journal_groups s" for g
    by (auto simp: hasLiveMembers_def live_member_def journal_groups_def list_ex_iff)
  then show ?thesis by (auto simp: allOrigins_def rec_origin_def journal_groups_def)
qed

lemma find_mem: "find P xs = Some x \<Longrightarrow> x \<in> set xs \<and> P x"
  by (induction xs) (auto split: if_splits)

lemma ownerOf_group:
  assumes "ownerOf (newOriginIndex os) p = Some g"
  shows "g \<in> orGroup ` set os"
proof -
  obtain c where "find (\<lambda>c. orStart c \<le> Start p \<and> Start p + Length p \<le> orEnd c)
        (rev (takeWhile (\<lambda>c. orStart c \<le> Start p) (newOriginIndex os (Buf p)))) = Some c" and g: "g = orGroup c"
    using assms by (auto simp: ownerOf_def Let_def)
  from find_mem[OF this(1)] have "c \<in> set (newOriginIndex os (Buf p))" by (auto dest: set_takeWhileD)
  then show ?thesis using g by (auto simp: newOriginIndex_def)
qed

lemma add_run_groups: "srGroup ` set (add_run own p off runs) \<subseteq> insert (fst own) (srGroup ` set runs)"
  by (auto simp: add_run_def dest: in_set_butlastD)

lemma state_runs_groups:
  "srGroup ` set (state_runs_loop s (newOriginIndex os) ps off runs) \<subseteq> {0} \<union> orGroup ` set os \<union> srGroup ` set runs"
proof (induction ps arbitrary: off runs)
  case (Cons p ps)
  have "fst (owner_state s (newOriginIndex os) p) \<in> {0} \<union> orGroup ` set os"
    using ownerOf_group[of os p] by (auto simp: owner_state_def split: option.splits)
  then have a: "srGroup ` set (add_run (owner_state s (newOriginIndex os) p) p off runs) \<subseteq> {0} \<union> orGroup ` set os \<union> srGroup ` set runs"
    by (intro order_trans[OF add_run_groups]) auto
  show ?case
  proof (cases "Length p \<le> 0")
    case True
    then show ?thesis using Cons.IH by simp
  next
    case False
    have "srGroup ` set (state_runs_loop s (newOriginIndex os) ps (off + Length p) (add_run (owner_state s (newOriginIndex os) p) p off runs)) \<subseteq>
        {0} \<union> orGroup ` set os \<union> srGroup ` set (add_run (owner_state s (newOriginIndex os) p) p off runs)"
      by (rule Cons.IH)
    also have "\<dots> \<subseteq> {0} \<union> orGroup ` set os \<union> srGroup ` set runs" by (intro Un_least a) (auto intro: le_supI1 le_supI2)
    finally show ?thesis using False by simp
  qed
qed (simp add: subset_insertI2)

lemma Annotated_states: "dpStates (Project s Annotated) = stateRuns s (nPieces (dpComp (Project s Annotated))) (allOrigins s)"
  by (simp add: Project_def project_def projectNoDecisions_def Let_def split: prod.splits)

lemma map_filter_mem: "List.map_filter f xs = x # ys \<Longrightarrow> \<exists>y \<in> set xs. f y = Some x"
  by (induction xs) (auto simp: List.map_filter_simps split: option.splits)

lemma deletionLeases_mem:
  assumes "w \<in> set (deletionLeases s p k want)"
  shows "\<exists>q \<in> set (sJournal s). live_edit s q \<and> GroupState_of s (opGroup q) = want \<and> bkGroup w = opGroup q"
proof -
  let ?ms = "filter (live_edit s) (sJournal s)" and ?k = "if k < 0 then 0 else k"
  obtain g ys where g: "GroupState_of s g = want"
      "List.map_filter (deletion_hit s p ?k) (filter (\<lambda>q. opGroup q = g) ?ms) = w # ys"
    using assms by (fastforce simp: deletionLeases_def Let_def split: if_splits list.splits dest: sym[of "_ # _"])
  from map_filter_mem[OF g(2)] obtain q where "q \<in> set (filter (\<lambda>q. opGroup q = g) ?ms)" "deletion_hit s p ?k q = Some w"
    by blast
  then show ?thesis using g(1) by (auto simp: deletion_hit_def)
qed

lemma lease_groups:
  assumes "tl_inv s" "w \<in> set (proposedSpans s lo n)"
  shows "bkGroup w \<le> sGroup s"
proof -
  have j: "g \<in> journal_groups s \<Longrightarrow> g \<le> sGroup s" for g
    using tl_invD(2)[OF assms(1)] by (auto simp: journal_groups_def journal_inv_def)
  have "srGroup r \<le> sGroup s" if "r \<in> set (dpStates (Project s Annotated))" for r
  proof -
    have "r \<in> set (state_runs_loop s (newOriginIndex (allOrigins s)) (nPieces (dpComp (Project s Annotated))) 0 [])"
      using that by (simp add: Annotated_states stateRuns_def)
    from subsetD[OF state_runs_groups imageI[OF this]]
    have "srGroup r = 0 \<or> srGroup r \<in> orGroup ` set (allOrigins s)" by simp
    then show ?thesis using origin_groups[of s] j[of "srGroup r"] by auto
  qed
  moreover have "x \<in> set (foldl (proposed_step s p k) out rs) \<Longrightarrow> x \<in> set out \<or> (\<exists>r \<in> set rs. bkGroup x = srGroup r)" for x p k out rs
  proof (induction rs arbitrary: out)
    case (Cons r rs)
    have "x \<in> set (proposed_step s p k out r) \<Longrightarrow> x \<in> set out \<or> bkGroup x = srGroup r"
      by (auto simp: proposed_step_def split: if_splits)
    then show ?case using Cons.IH[of "proposed_step s p k out r"] Cons.prems by auto
  qed simp
  moreover have "bkGroup w \<le> sGroup s" if "w \<in> set (deletionLeases s p k Proposed)" for p k
  proof -
    from deletionLeases_mem[OF that] obtain q where q: "q \<in> set (sJournal s)" "bkGroup w = opGroup q" by blast
    then show ?thesis using j by (auto simp: journal_groups_def)
  qed
  ultimately show ?thesis
    using assms(2) by (fastforce simp: proposedSpans_def Let_def split: if_splits)
qed

lemma hunk_rebase:
  assumes "tl_inv s" "hunk_ok s a base h" "rebase s (hkStart h) (hkEnd h) base = (lo, hi, at, True)"
  shows "0 \<le> lo \<and> lo \<le> pe_Len (sBuf s) \<and> 0 \<le> hi \<and> hi \<le> pe_Len (sBuf s)"
  using assms(2) by (intro rebase_bounds[OF assms(1) _ _ _ _ _ assms(3)]) (simp_all add: hunk_ok_def Version_def)

lemma judge_group:
  assumes "tl_inv s" "judge s a i h lo hi ws = Lands g ws'"
  shows "g \<le> sGroup s"
  using assms lease_groups[OF assms(1), of _ lo "hi - lo"] find_mem[of _ "proposedSpans s lo (hi - lo)"]
  by (auto simp: judge_def Let_def no_block_def split: option.splits if_splits prod.splits)

text \<open>What a hunk can do: nothing but report, or land where it was rebased to.\<close>

lemma apply_hunk_cases:
  assumes "apply_hunk a base i h d = Some d'" "rebase (dsSession d) (hkStart h) (hkEnd h) base = (lo, hi, at, ok)"
  obtains "dsSession d' = dsSession d"
  | g ws where "ok" "judge (dsSession d) a i h lo hi (dsWarnings d) = Lands g ws"
      "dsSession d' = land (dsSession d) a h lo hi g"
proof (cases "(hkStart h = hkEnd h \<and> hkText h = []) \<or> rebase_panics (dsSession d) base \<or> \<not> ok \<or>
    (lo < hi \<and> hkText h \<noteq> [] \<and> pe_Slice (sBuf (dsSession d)) lo (hi - lo) = hkText h)")
  case True
  then have "dsSession d' = dsSession d"
    using assms unfolding apply_hunk_def Let_def by (simp split: if_split_asm) auto
  then show thesis by (rule that(1))
next
  case False
  then have ok: "ok" by simp
  have d: "(case judge (dsSession d) a i h lo hi (dsWarnings d) of
      Refused c \<Rightarrow> Some (d\<lparr>dsConflicts := dsConflicts d @ [c]\<rparr>)
    | Lands join ws \<Rightarrow> Some (d\<lparr>dsSession := land (dsSession d) a h lo hi join, dsWarnings := ws\<rparr>)) = Some d'"
    using assms False unfolding apply_hunk_def Let_def by (simp split: if_split_asm)
  show thesis
  proof (cases "judge (dsSession d) a i h lo hi (dsWarnings d)")
    case (Refused c)
    then have "d' = d\<lparr>dsConflicts := dsConflicts d @ [c]\<rparr>" using d by simp
    then show thesis using that(1) by simp
  next
    case (Lands g ws)
    then have "dsSession d' = land (dsSession d) a h lo hi g" using d by auto
    then show thesis using that(2)[OF ok Lands] by simp
  qed
qed

lemma apply_hunk_tl:
  assumes "tl_inv (dsSession d)" "hunk_ok (dsSession d) a base h" "apply_hunk a base i h d = Some d'"
  shows "tl_inv (dsSession d')"
proof -
  obtain lo hi at ok where r: "rebase (dsSession d) (hkStart h) (hkEnd h) base = (lo, hi, at, ok)" by (metis prod_cases4)
  show ?thesis
  proof (rule apply_hunk_cases[OF assms(3) r])
    assume "dsSession d' = dsSession d"
    then show ?thesis using assms(1) by simp
  next
    fix g ws assume l: "ok" "judge (dsSession d) a i h lo hi (dsWarnings d) = Lands g ws"
      "dsSession d' = land (dsSession d) a h lo hi g"
    have "0 \<le> lo" "lo \<le> pe_Len (sBuf (dsSession d))" "hi \<le> pe_Len (sBuf (dsSession d))"
      using hunk_rebase[OF assms(1,2), of lo hi at] r l(1) by auto
    from land_tl(1)[OF assms(1) _ this judge_group[OF assms(1) l(2)]] assms(2) l(3) show ?thesis
      by (simp add: hunk_ok_def)
  qed
qed

end
