(* ===== verification/Compact.thy ===== *)
theory Compact
  imports Projection Reach
begin

text \<open>
  Piece compaction of \<open>internal/piecetable/compact.go\<close>: adjacent pieces of one author merge when
  their store ranges touch, and are copied into one run when they are saved and accepted. The pass
  appends to the stores and records origins in the session as it goes.
\<close>

section \<open>The code\<close>

definition recBytes :: "session \<Rightarrow> PieceRec \<Rightarrow> byte list" where
  "recBytes s p = store_Slice (pe_Store (sBuf s)) (author_of (Buf p)) (Start p) (Length p)"

definition pieceStable :: "session \<Rightarrow> PieceRec \<Rightarrow> nat \<Rightarrow> bool" where
  "pieceStable s p saved \<longleftrightarrow>
     list_all (\<lambda>q. \<not> live_edit s q \<or> \<not> owned_by s (opIns q) (opGroup q) p \<or>
       (GroupState_of s (opGroup q) = Accepted \<and> opSeq q < saved)) (sJournal s)"

text \<open>The run being grown: its piece, whether every part is stable, whether it was copied, whether it
  absorbed another piece.\<close>

record crun =
  cuPiece :: PieceRec
  cuStable :: bool
  cuCopied :: bool
  cuCombined :: bool

definition may_combine :: "session \<Rightarrow> nat option \<Rightarrow> bool" where
  "may_combine s owner \<longleftrightarrow> (case owner of None \<Rightarrow> True | Some g \<Rightarrow> g \<noteq> 0 \<and> GroupState_of s g = Accepted)"

text \<open>The copy of a run's first piece, made when a second one has to be appended behind it.\<close>

definition copy_first :: "session \<Rightarrow> crun \<Rightarrow> session \<times> PieceRec" where
  "copy_first s c =
     (if cuCopied c then (s, cuPiece c)
      else case session_append s (author_of (Buf (cuPiece c))) (recBytes s (cuPiece c)) of
        (off, s1) \<Rightarrow> (s1, (cuPiece c)\<lparr>Start := off\<rparr>))"

fun extend_run ::
  "session \<Rightarrow> (int \<Rightarrow> insOrigin list) \<Rightarrow> nat \<Rightarrow> nat option \<Rightarrow> crun \<Rightarrow> PieceRec list \<Rightarrow> session \<times> crun \<times> PieceRec list" where
  "extend_run s idx saved owner c [] = (s, c, [])"
| "extend_run s idx saved owner c (p # ps) =
     (let cur = cuPiece c in
      if Length p = 0 \<or> Buf p \<noteq> Buf cur then (s, c, p # ps)
      else if ownerOf idx p \<noteq> owner then (s, c, p # ps)
      else if may_combine s owner \<and> Start cur + Length cur = Start p
      then extend_run s idx saved owner
             (c\<lparr>cuPiece := cur\<lparr>Length := Length cur + Length p\<rparr>,
                cuStable := cuStable c \<and> pieceStable s p saved, cuCombined := True\<rparr>) ps
      else if may_combine s owner \<and> owner \<noteq> None \<and> cuStable c \<and> pieceStable s p saved
      then case copy_first s c of
             (s1, cur1) \<Rightarrow>
               (case session_append s1 (author_of (Buf p)) (recBytes s1 p) of
                  (off, s2) \<Rightarrow>
                    extend_run s2 idx saved owner
                      (c\<lparr>cuPiece := cur1\<lparr>Length := off - Start cur1 + Length p\<rparr>, cuCopied := True,
                         cuCombined := True\<rparr>) ps)
      else (s, c, p # ps))"

definition note_origin :: "session \<Rightarrow> nat option \<Rightarrow> crun \<Rightarrow> session" where
  "note_origin s owner c =
     (case owner of
        None \<Rightarrow> s
      | Some g \<Rightarrow>
          if cuCombined c \<and> g \<noteq> 0
          then s\<lparr>sCompacted := sCompacted s @
                 [\<lparr>orBuf = Buf (cuPiece c), orStart = Start (cuPiece c),
                   orEnd = Start (cuPiece c) + Length (cuPiece c), orGroup = g\<rparr>]\<rparr>
          else s)"

lemma extend_run_shorter: "length (snd (snd (extend_run s idx saved owner c ps))) \<le> length ps"
  by (induction ps arbitrary: s c) (auto simp: Let_def intro!: le_SucI split: prod.splits)

function compact_loop ::
  "session \<Rightarrow> (int \<Rightarrow> insOrigin list) \<Rightarrow> nat \<Rightarrow> PieceRec list \<Rightarrow> PieceRec list \<Rightarrow> bool \<Rightarrow> session \<times> PieceRec list \<times> bool" where
  "compact_loop s idx saved [] out changed = (s, out, changed)"
| "compact_loop s idx saved (p # ps) out changed =
     (let owner = ownerOf idx p;
          c0 = \<lparr>cuPiece = p, cuStable = pieceStable s p saved, cuCopied = False, cuCombined = False\<rparr>
      in case extend_run s idx saved owner c0 ps of
           (s1, c, rest) \<Rightarrow>
             compact_loop (note_origin s1 owner c) idx saved rest (out @ [cuPiece c]) (changed \<or> cuCombined c))"
  by pat_completeness auto
termination
  by (relation "measure (\<lambda>(s, idx, saved, ps, out, changed). length ps)")
    (auto simp: less_Suc_eq_le, metis extend_run_shorter snd_conv)

definition compactPieces ::
  "session \<Rightarrow> PieceRec list \<Rightarrow> (int \<Rightarrow> insOrigin list) \<Rightarrow> nat \<Rightarrow> session \<times> PieceRec list \<times> bool" where
  "compactPieces s pieces idx saved = compact_loop s idx saved pieces [] False"

definition Compact :: "session \<Rightarrow> nat \<Rightarrow> int \<times> session" where
  "Compact s saved =
     (let n = pe_Len (sBuf s);
          pieces = pe_pieceRange (sBuf s) 0 n
      in if length pieces < 2 then (0, s)
         else case compactPieces s pieces (newOriginIndex (allOrigins s)) saved of
           (s1, out, changed) \<Rightarrow>
             if \<not> changed then (0, s1)
             else (int (length pieces) - int (length out),
                   s1\<lparr>sBuf := pe_insertRecs (snd (pe_removeRange (sBuf s1) 0 n)) 0 out\<rparr>))"

text \<open>
  Compaction moves bytes, never text: whatever \<open>Compact\<close> (\<open>internal/piecetable/compact.go\<close>) merges or
  copies, the document reads the same, the journal and the decisions are untouched, and the
  session's invariant holds, so replaying the journal still gives the document.
\<close>

section \<open>Stores that only grew\<close>

lemma pe_set_store_simps [simp]:
  "pe_Store (pe_set_store st b) = st" "pe_set_store st (pe_set_store st' b) = pe_set_store st b"
  "pe_set_store (pe_Store b) b = b"
  by (cases b; simp add: naive_set_store_def doc_set_store_def)+

definition grown :: "session \<Rightarrow> session \<Rightarrow> bool" where
  "grown s s' \<longleftrightarrow> (\<exists>st cs. store_le (pe_Store (sBuf s)) st \<and> s' = s\<lparr>sBuf := pe_set_store st (sBuf s), sCompacted := cs\<rparr>)"

lemma grown_refl: "grown s s"
  unfolding grown_def by (intro exI[of _ "pe_Store (sBuf s)"] exI[of _ "sCompacted s"]) (simp add: store_le_refl)

lemma grown_trans: "grown s s' \<Longrightarrow> grown s' s'' \<Longrightarrow> grown s s''"
  unfolding grown_def by clarsimp (blast intro: store_le_trans)

lemma grown_store: "grown s s' \<Longrightarrow> store_le (pe_Store (sBuf s)) (pe_Store (sBuf s'))"
  by (auto simp: grown_def)

lemma grown_append:
  assumes "0 \<le> a" "session_append s a t = (start, s')"
  shows "grown s s'" "store_Append (pe_Store (sBuf s)) a t = (start, pe_Store (sBuf s'))"
proof -
  obtain st where A: "store_Append (pe_Store (sBuf s)) a t = (start, st)" "s' = s\<lparr>sBuf := pe_set_store st (sBuf s)\<rparr>"
    using assms(2) by (auto simp: session_append_def split: prod.splits)
  then show "store_Append (pe_Store (sBuf s)) a t = (start, pe_Store (sBuf s'))" by simp
  have "store_le (pe_Store (sBuf s)) st" using store_le_Append[OF assms(1), of "pe_Store (sBuf s)" t] A(1) by simp
  then show "grown s s'" unfolding grown_def A(2) by (intro exI[of _ st] exI[of _ "sCompacted s"]) simp
qed

lemma grown_note: "grown s (note_origin s owner c)"
  unfolding grown_def note_origin_def
  by (auto split: option.splits intro!: exI[of _ "pe_Store (sBuf s)"] simp: store_le_refl intro: exI[of _ "sCompacted s"])

section \<open>Growing a run\<close>

text \<open>Pieces whose ranges touch read as one.\<close>

lemma merge_text:
  assumes "rec_in_store st p" "rec_in_store st q" "Buf q = Buf p" "Start p + Length p = Start q"
  shows "rec_in_store st (p\<lparr>Length := Length p + Length q\<rparr>)"
    "rec_text st (p\<lparr>Length := Length p + Length q\<rparr>) = rec_text st p @ rec_text st q"
proof -
  show m: "rec_in_store st (p\<lparr>Length := Length p + Length q\<rparr>)" using assms by (simp add: rec_in_store_def)
  let ?m = "p\<lparr>Length := Length p + Length q\<rparr>"
  have "0 \<le> Length p" "0 \<le> Length q" using assms by (auto simp: rec_in_store_def)
  then have "addrs ?m = addrs p @ addrs (piece (Buf p) (Start q) (Length q))"
    using addrs_split[of "Length p" ?m] assms(4) by (simp add: Length_update_addrs)
  moreover have "piece (Buf p) (Start q) (Length q) = q" using assms(3) by (metis piece_eta)
  ultimately have "addrs ?m = addrs p @ addrs q" by metis
  then show "rec_text st ?m = rec_text st p @ rec_text st q"
    using rec_text_bytes[OF m] rec_text_bytes[OF assms(1)] rec_text_bytes[OF assms(2)] by simp
qed

text \<open>A copied run ends where its store ends, so the next copy lands right behind it.\<close>

definition run_ok :: "session \<Rightarrow> crun \<Rightarrow> bool" where
  "run_ok s c \<longleftrightarrow> rec_in_store (pe_Store (sBuf s)) (cuPiece c) \<and>
     (cuCopied c \<longrightarrow> Start (cuPiece c) + Length (cuPiece c) = store_Len (pe_Store (sBuf s)) (Buf (cuPiece c)))"

abbreviation recs_in :: "session \<Rightarrow> PieceRec list \<Rightarrow> bool" where
  "recs_in s ps \<equiv> \<forall>r \<in> set ps. rec_in_store (pe_Store (sBuf s)) r"

lemma recs_in_grown: "grown s s' \<Longrightarrow> recs_in s ps \<Longrightarrow> recs_in s' ps \<and> recs_text (pe_Store (sBuf s')) ps = recs_text (pe_Store (sBuf s)) ps"
  using grown_store rec_in_store_mono recs_text_mono by blast

lemma append_end:
  assumes "0 \<le> a" "a < 256" "session_append s a t = (start, s')"
  shows "rec_in_store (pe_Store (sBuf s')) (piece a start (int (length t)))"
    "rec_text (pe_Store (sBuf s')) (piece a start (int (length t))) = t"
    "start = store_Len (pe_Store (sBuf s)) a" "store_Len (pe_Store (sBuf s')) a = start + int (length t)"
proof -
  note A = grown_append[OF assms(1,3)]
  show "rec_in_store (pe_Store (sBuf s')) (piece a start (int (length t)))"
    "rec_text (pe_Store (sBuf s')) (piece a start (int (length t))) = t"
    using rec_in_store_Append[OF assms(1,2) A(2)] by simp_all
  show s: "start = store_Len (pe_Store (sBuf s)) a" using store_Append_start[OF assms(1), of "pe_Store (sBuf s)" t] A(2) by simp
  have lt: "nat a < length (texts (store_grow (pe_Store (sBuf s)) a))" using assms(1) by (rule store_grow_texts(2))
  then show "store_Len (pe_Store (sBuf s')) a = start + int (length t)"
    using A(2)[symmetric] assms(1) by (auto simp: store_Append_def Let_def store_Len_def)
qed

lemma author_in: "rec_in_store st p \<Longrightarrow> author_of (Buf p) = Buf p \<and> 0 \<le> Buf p \<and> Buf p < 256"
  by (simp add: rec_in_store_def author_of_def)

lemma rec_text_length: "rec_in_store st p \<Longrightarrow> int (length (rec_text st p)) = Length p"
  by (simp add: rec_text_bytes) (simp add: rec_in_store_def)

text \<open>Copying the run's first piece.\<close>

lemma copy_first_ok:
  assumes "run_ok s c" "copy_first s c = (s1, cur1)"
  shows "grown s s1" "rec_in_store (pe_Store (sBuf s1)) cur1" "Buf cur1 = Buf (cuPiece c)" "Length cur1 = Length (cuPiece c)"
    "rec_text (pe_Store (sBuf s1)) cur1 = rec_text (pe_Store (sBuf s)) (cuPiece c)"
    "Start cur1 + Length cur1 = store_Len (pe_Store (sBuf s1)) (Buf cur1)"
proof -
  let ?p = "cuPiece c" and ?st = "pe_Store (sBuf s)"
  have i: "rec_in_store ?st ?p" using assms(1) by (simp add: run_ok_def)
  have "grown s s1 \<and> rec_in_store (pe_Store (sBuf s1)) cur1 \<and> Buf cur1 = Buf ?p \<and> Length cur1 = Length ?p \<and>
    rec_text (pe_Store (sBuf s1)) cur1 = rec_text ?st ?p \<and> Start cur1 + Length cur1 = store_Len (pe_Store (sBuf s1)) (Buf cur1)"
  proof (cases "cuCopied c")
    case True
    then show ?thesis using assms i grown_refl by (auto simp: copy_first_def run_ok_def)
  next
    case False
    obtain off where ap: "session_append s (Buf ?p) (recBytes s ?p) = (off, s1)" "cur1 = ?p\<lparr>Start := off\<rparr>"
      using assms(2) False author_in[OF i] by (auto simp: copy_first_def split: prod.splits)
    have rb: "recBytes s ?p = rec_text ?st ?p" by (simp add: recBytes_def rec_text_def)
    have l: "int (length (recBytes s ?p)) = Length ?p" using rec_text_length[OF i] by (simp add: rb)
    have c1: "cur1 = piece (Buf ?p) off (int (length (recBytes s ?p)))" by (simp add: ap(2) l)
    note E = append_end[OF _ _ ap(1)]
    show ?thesis using E grown_append(1)[OF _ ap(1)] author_in[OF i] l rb unfolding c1 by simp
  qed
  then show "grown s s1" "rec_in_store (pe_Store (sBuf s1)) cur1" "Buf cur1 = Buf (cuPiece c)" "Length cur1 = Length (cuPiece c)"
    "rec_text (pe_Store (sBuf s1)) cur1 = rec_text (pe_Store (sBuf s)) (cuPiece c)"
    "Start cur1 + Length cur1 = store_Len (pe_Store (sBuf s1)) (Buf cur1)" by auto
qed

text \<open>Copying the next piece behind a copied run.\<close>

lemma copy_next_ok:
  assumes "run_ok s c" "rec_in_store (pe_Store (sBuf s)) p" "Buf p = Buf (cuPiece c)"
    "copy_first s c = (s1, cur1)" "session_append s1 (author_of (Buf p)) (recBytes s1 p) = (off, s2)"
  defines "m \<equiv> cur1\<lparr>Length := off - Start cur1 + Length p\<rparr>"
  shows "grown s s2" "rec_in_store (pe_Store (sBuf s2)) m" "Buf m = Buf p"
    "rec_text (pe_Store (sBuf s2)) m = rec_text (pe_Store (sBuf s)) (cuPiece c) @ rec_text (pe_Store (sBuf s)) p"
    "Start m + Length m = store_Len (pe_Store (sBuf s2)) (Buf m)"
proof -
  note C = copy_first_ok[OF assms(1,4)]
  note P = recs_in_grown[OF C(1), of "[p]"] author_in[OF assms(2)]
  have p1: "rec_in_store (pe_Store (sBuf s1)) p" "rec_text (pe_Store (sBuf s1)) p = rec_text (pe_Store (sBuf s)) p"
    using P(1) assms(2) by simp_all
  have ap: "session_append s1 (Buf p) (recBytes s1 p) = (off, s2)" using assms(5) P(2) by simp
  have rb: "recBytes s1 p = rec_text (pe_Store (sBuf s)) p" using p1(2) by (simp add: recBytes_def rec_text_def)
  have l: "int (length (recBytes s1 p)) = Length p" using rec_text_length[OF p1(1)] p1(2) by (simp add: rb)
  note E = append_end[OF _ _ ap] and G = grown_append(1)[OF _ ap]
  have b: "0 \<le> Buf p" "Buf p < 256" using P(2) by simp_all
  have off: "off = Start cur1 + Length cur1" using E(3)[OF b] C(3,6) assms(3) by simp
  let ?q = "piece (Buf p) off (Length p)"
  have cq: "rec_in_store (pe_Store (sBuf s2)) cur1" "rec_text (pe_Store (sBuf s2)) cur1 = rec_text (pe_Store (sBuf s)) (cuPiece c)"
    using recs_in_grown[OF G[OF b(1)], of "[cur1]"] C(2,5) by simp_all
  have q: "rec_in_store (pe_Store (sBuf s2)) ?q" "rec_text (pe_Store (sBuf s2)) ?q = rec_text (pe_Store (sBuf s)) p"
    using E(1,2)[OF b] l rb by simp_all
  have m: "m = cur1\<lparr>Length := Length cur1 + Length ?q\<rparr>" by (simp add: m_def off)
  have "Buf ?q = Buf cur1" "Start cur1 + Length cur1 = Start ?q" using C(3) assms(3) off by simp_all
  note M = merge_text[OF cq(1) q(1) this, folded m]
  show "grown s s2" using grown_trans[OF C(1) G[OF b(1)]] .
  show "rec_in_store (pe_Store (sBuf s2)) m" by (rule M(1))
  show "Buf m = Buf p" using C(3) assms(3) by (simp add: m_def)
  show "rec_text (pe_Store (sBuf s2)) m = rec_text (pe_Store (sBuf s)) (cuPiece c) @ rec_text (pe_Store (sBuf s)) p"
    using M(2) unfolding cq(2) q(2) .
  show "Start m + Length m = store_Len (pe_Store (sBuf s2)) (Buf m)"
    using E(4)[OF b] l C(3) assms(3) by (simp add: m_def)
qed

text \<open>What the next piece does to the run: it stops it, it merges, or it is copied behind it.\<close>

lemma extend_run_cases:
  assumes "extend_run s idx saved owner c (p # ps) = (s', c', rest)"
  obtains (stop) "(s', c', rest) = (s, c, p # ps)"
    | (merge) "Length p \<noteq> 0" "Buf p = Buf (cuPiece c)" "Start (cuPiece c) + Length (cuPiece c) = Start p"
        "extend_run s idx saved owner (c\<lparr>cuPiece := (cuPiece c)\<lparr>Length := Length (cuPiece c) + Length p\<rparr>,
            cuStable := cuStable c \<and> pieceStable s p saved, cuCombined := True\<rparr>) ps = (s', c', rest)"
    | (copy) s1 cur1 off s2 where "Buf p = Buf (cuPiece c)" "copy_first s c = (s1, cur1)"
        "session_append s1 (author_of (Buf p)) (recBytes s1 p) = (off, s2)"
        "extend_run s2 idx saved owner (c\<lparr>cuPiece := cur1\<lparr>Length := off - Start cur1 + Length p\<rparr>, cuCopied := True,
            cuCombined := True\<rparr>) ps = (s', c', rest)"
proof -
  let ?no = "Length p = 0 \<or> Buf p \<noteq> Buf (cuPiece c) \<or> ownerOf idx p \<noteq> owner"
  let ?mg = "may_combine s owner \<and> Start (cuPiece c) + Length (cuPiece c) = Start p"
  let ?cp = "may_combine s owner \<and> owner \<noteq> None \<and> cuStable c \<and> pieceStable s p saved"
  note X = assms[unfolded extend_run.simps Let_def]
  consider "?no" | "\<not> ?no" "?mg" | "\<not> ?no" "\<not> ?mg" "?cp" | "\<not> ?no" "\<not> ?mg" "\<not> ?cp" by argo
  then show thesis
  proof cases
    case 1
    then show thesis using X by (intro stop) argo
  next
    case 2
    then show thesis using X by (intro merge) (simp_all only: if_False if_True simp_thms de_Morgan_disj not_not)
  next
    case 3
    obtain s1 cur1 off s2 where D: "copy_first s c = (s1, cur1)"
        "session_append s1 (author_of (Buf p)) (recBytes s1 p) = (off, s2)" by fastforce
    have "extend_run s2 idx saved owner (c\<lparr>cuPiece := cur1\<lparr>Length := off - Start cur1 + Length p\<rparr>, cuCopied := True,
            cuCombined := True\<rparr>) ps = (s', c', rest)"
      using X 3 by (simp only: if_False if_True simp_thms de_Morgan_disj not_not D prod.case)
    with 3 D show thesis by (intro copy) auto
  next
    case 4
    then show thesis using X by (intro stop) (simp only: if_False if_True simp_thms de_Morgan_disj not_not)
  qed
qed

text \<open>The run absorbs a prefix of the pieces; the rest is left as it was.\<close>

lemma extend_run_text:
  assumes "run_ok s c" "recs_in s ps" "extend_run s idx saved owner c ps = (s', c', rest)"
  shows "grown s s' \<and> run_ok s' c' \<and> recs_in s' rest \<and>
    rec_text (pe_Store (sBuf s')) (cuPiece c') @ recs_text (pe_Store (sBuf s')) rest =
    rec_text (pe_Store (sBuf s)) (cuPiece c) @ recs_text (pe_Store (sBuf s)) ps"
  using assms
proof (induction ps arbitrary: s c)
  case Nil
  then show ?case using grown_refl by auto
next
  case (Cons p ps)
  let ?cur = "cuPiece c" and ?st = "pe_Store (sBuf s)"
  have ri: "rec_in_store ?st ?cur" "rec_in_store ?st p" using Cons.prems by (auto simp: run_ok_def)
  consider (stop) "(s', c', rest) = (s, c, p # ps)"
    | (merge) "Length p \<noteq> 0" "Buf p = Buf ?cur" "Start ?cur + Length ?cur = Start p"
        "extend_run s idx saved owner (c\<lparr>cuPiece := ?cur\<lparr>Length := Length ?cur + Length p\<rparr>,
            cuStable := cuStable c \<and> pieceStable s p saved, cuCombined := True\<rparr>) ps = (s', c', rest)"
    | (copy) s1 cur1 off s2 where "Buf p = Buf ?cur" "copy_first s c = (s1, cur1)"
        "session_append s1 (author_of (Buf p)) (recBytes s1 p) = (off, s2)"
        "extend_run s2 idx saved owner (c\<lparr>cuPiece := cur1\<lparr>Length := off - Start cur1 + Length p\<rparr>, cuCopied := True,
            cuCombined := True\<rparr>) ps = (s', c', rest)"
    by (rule extend_run_cases[OF Cons.prems(3)])
  then show ?case
  proof cases
    case stop
    then show ?thesis using Cons.prems grown_refl by auto
  next
    case merge
    let ?c = "c\<lparr>cuPiece := ?cur\<lparr>Length := Length ?cur + Length p\<rparr>,
            cuStable := cuStable c \<and> pieceStable s p saved, cuCombined := True\<rparr>"
    note M = merge_text[OF ri merge(2,3)]
    have "\<not> cuCopied c"
    proof
      assume "cuCopied c"
      then have "Start p = store_Len ?st (Buf p)" using Cons.prems(1) merge(2,3) by (simp add: run_ok_def)
      then show False using ri(2) merge(1) by (auto simp: rec_in_store_def store_Len_def)
    qed
    then have "run_ok s ?c" using M(1) by (simp add: run_ok_def)
    from Cons.IH[OF this _ merge(4)] Cons.prems(2) show ?thesis by (simp add: M(2))
  next
    case copy
    let ?m = "cur1\<lparr>Length := off - Start cur1 + Length p\<rparr>"
    let ?c = "c\<lparr>cuPiece := ?m, cuCopied := True, cuCombined := True\<rparr>"
    note N = copy_next_ok[OF Cons.prems(1) ri(2) copy(1-3)]
    have "run_ok s2 ?c" using N(2,5) by (simp add: run_ok_def)
    note I = Cons.IH[OF this _ copy(4)] and R = recs_in_grown[OF N(1), of ps]
    have "recs_in s2 ps" "recs_text (pe_Store (sBuf s2)) ps = recs_text ?st ps" using R Cons.prems(2) by simp_all
    then show ?thesis using I N(4) grown_trans[OF N(1)] by simp
  qed
qed

lemma compact_loop_text:
  assumes "recs_in s ps" "recs_in s out" "compact_loop s idx saved ps out ch = (s', out', ch')"
  shows "grown s s' \<and> recs_in s' out' \<and>
    recs_text (pe_Store (sBuf s')) out' = recs_text (pe_Store (sBuf s)) out @ recs_text (pe_Store (sBuf s)) ps"
  using assms
proof (induction s idx saved ps out ch rule: compact_loop.induct)
  case (1 s idx saved out changed)
  then show ?case using grown_refl by auto
next
  case (2 s idx saved p ps out changed)
  let ?owner = "ownerOf idx p"
  let ?c0 = "\<lparr>cuPiece = p, cuStable = pieceStable s p saved, cuCopied = False, cuCombined = False\<rparr>"
  obtain s1 c rest where E: "extend_run s idx saved ?owner ?c0 ps = (s1, c, rest)" by (metis prod_cases3)
  have "run_ok s ?c0" using 2(2) by (simp add: run_ok_def)
  note X = extend_run_text[OF this _ E]
  let ?s2 = "note_origin s1 ?owner c"
  have st: "pe_Store (sBuf ?s2) = pe_Store (sBuf s1)" by (auto simp: note_origin_def split: option.splits)
  have rec: "compact_loop ?s2 idx saved rest (out @ [cuPiece c]) (changed \<or> cuCombined c) = (s', out', ch')"
    using 2(4) E by (simp add: Let_def)
  have ri: "recs_in s1 rest" "rec_in_store (pe_Store (sBuf s1)) (cuPiece c)" "grown s s1" using X 2(2) by (auto simp: run_ok_def)
  have o: "recs_in s1 out" "recs_text (pe_Store (sBuf s1)) out = recs_text (pe_Store (sBuf s)) out"
    using recs_in_grown[OF ri(3), of out] 2(3) by auto
  have "recs_in ?s2 rest" "recs_in ?s2 (out @ [cuPiece c])" using ri o(1) by (auto simp: st)
  from 2(1)[OF refl refl E[symmetric] refl this rec]
  have I: "grown ?s2 s'" "recs_in s' out'"
      "recs_text (pe_Store (sBuf s')) out' = recs_text (pe_Store (sBuf s1)) (out @ [cuPiece c]) @ recs_text (pe_Store (sBuf s1)) rest"
    by (simp_all add: st)
  have "grown s s'" by (rule grown_trans[OF ri(3) grown_trans[OF grown_note I(1)]])
  then show ?case using I(2,3) o(2) X 2(2) by auto
qed

section \<open>The whole pass\<close>

text \<open>The pieces \<open>Compact\<close> would put in place of the document's.\<close>

definition compact_out :: "session \<Rightarrow> nat \<Rightarrow> PieceRec list" where
  "compact_out s saved =
     fst (snd (compactPieces s (pe_pieceRange (sBuf s) 0 (pe_Len (sBuf s))) (newOriginIndex (allOrigins s)) saved))"

lemma grown_tl:
  assumes "tl_inv s" "grown s s'"
  shows "tl_inv s'" "pe_text (sBuf s') = pe_text (sBuf s)" "pe_fits (sBuf s') = pe_fits (sBuf s)"
    "pe_Len (sBuf s') = pe_Len (sBuf s)" "sJournal s' = sJournal s" "sGroupState s' = sGroupState s"
    "base_text s' = base_text s"
    "replay (pe_Store (sBuf s')) tx (sJournal s) = replay (pe_Store (sBuf s)) tx (sJournal s)" "carrier s'"
proof -
  obtain st cs where st: "store_le (pe_Store (sBuf s)) st" "s' = s\<lparr>sBuf := pe_set_store st (sBuf s), sCompacted := cs\<rparr>"
    using assms(2) by (auto simp: grown_def)
  let ?s1 = "s\<lparr>sBuf := pe_set_store st (sBuf s)\<rparr>"
  note G = grow_stores[OF flow_carrier[OF tl_invD(1)[OF assms(1)]] st(1)]
  have "flow_inv ?s1" using tl_invD(1)[OF assms(1)] G by (simp add: flow_inv_def carrier_def)
  then have "tl_inv ?s1" using assms(1) by (simp add: tl_inv_def journal_inv_def depth_ok_def)
  then show "tl_inv s'" by (subst tl_inv_cong[of s' ?s1]) (simp_all add: st(2))
  show "carrier s'" using G(1) by (simp add: st(2) carrier_def)
  show "pe_text (sBuf s') = pe_text (sBuf s)" "pe_fits (sBuf s') = pe_fits (sBuf s)" "pe_Len (sBuf s') = pe_Len (sBuf s)"
    "sJournal s' = sJournal s" "sGroupState s' = sGroupState s" "base_text s' = base_text s"
    "replay (pe_Store (sBuf s')) tx (sJournal s) = replay (pe_Store (sBuf s)) tx (sJournal s)"
    using G by (simp_all add: st(2) base_text_def)
qed

text \<open>Putting other pieces with the same bytes in place of all of the document's.\<close>

lemma swap_pieces_tl:
  assumes "tl_inv s" "pe_splice_ok (sBuf s) out" "recs_text (pe_Store (sBuf s)) out = pe_text (sBuf s)"
  defines "b \<equiv> pe_insertRecs (snd (pe_removeRange (sBuf s) 0 (pe_Len (sBuf s)))) 0 out"
  shows "tl_inv (s\<lparr>sBuf := b\<rparr>)" "pe_text b = pe_text (sBuf s)"
proof -
  let ?n = "pe_Len (sBuf s)"
  have n: "0 \<le> ?n" using tl_len[OF assms(1)] by simp
  obtain rs d where R: "pe_removeRange (sBuf s) 0 ?n = (rs, d)" by fastforce
  note D = pe.remove_law[OF tl_invD(5)[OF assms(1)] clampRange_id[of 0 ?n ?n] R]
  have d: "pe_inv d" "pe_Store d = pe_Store (sBuf s)" "pe_fits d = pe_fits (sBuf s)" "flat (pe_pieces d) = []"
    using D n pe_length_content[OF tl_invD(5)[OF assms(1)]] by (auto simp: cut_range_def pe_content_def)
  have "\<forall>r \<in> set out. pe_fits d r \<and> rec_in_store (pe_Store d) r" using assms(2) d by (simp add: pe_splice_ok_def)
  note I = pe.insert_law[OF d(1) this, of 0]
  have b: "pe_inv b" "pe_Store b = pe_Store (sBuf s)" "pe_fits b = pe_fits (sBuf s)" "flat (pe_pieces b) = flat out"
    using I d R by (simp_all add: b_def put_at_def)
  show t: "pe_text b = pe_text (sBuf s)"
    using assms(3) splice_ok_text[OF assms(2)] b(2,4) by (simp add: pe_text_def pe_content_def)
  have "op_recs_ok b q = op_recs_ok (sBuf s) q" for q using b(2,3) by (rule op_recs_ok_cong)
  then have "flow_inv (s\<lparr>sBuf := b\<rparr>)" using tl_invD(1)[OF assms(1)] b(1,2) t by (simp add: flow_inv_def base_text_def)
  then show "tl_inv (s\<lparr>sBuf := b\<rparr>)" using assms(1) by (simp add: tl_inv_def journal_inv_def depth_ok_def)
qed

lemma Compact_law:
  assumes "tl_inv s" "\<forall>r \<in> set (compact_out s saved). pe_fits (sBuf s) r" "Compact s saved = (k, s')"
  shows "tl_inv s'" "pe_text (sBuf s') = pe_text (sBuf s)" "sJournal s' = sJournal s" "sGroupState s' = sGroupState s"
proof -
  let ?n = "pe_Len (sBuf s)" and ?idx = "newOriginIndex (allOrigins s)"
  let ?ps = "pe_pieceRange (sBuf s) 0 ?n"
  have n: "0 \<le> ?n" using tl_len[OF assms(1)] by simp
  note P = pe_pieceRange_exact[OF tl_invD(5)[OF assms(1)] order_refl n]
  have ps: "recs_in s ?ps" "recs_text (pe_Store (sBuf s)) ?ps = pe_text (sBuf s)"
    using P(2) splice_ok_text[OF P(2)] P(1) pe_length_content[OF tl_invD(5)[OF assms(1)]] sub_range_all[of "pe_content (sBuf s)"]
    by (auto simp: pe_splice_ok_def pe_text_def)
  obtain s1 out ch where C: "compactPieces s ?ps ?idx saved = (s1, out, ch)" by (metis prod_cases3)
  then have L: "grown s s1" "recs_in s1 out" "recs_text (pe_Store (sBuf s1)) out = pe_text (sBuf s)"
    using compact_loop_text[OF ps(1), of "[]" ?idx saved False] ps(2) by (auto simp: compactPieces_def)
  note G = grown_tl[OF assms(1) L(1)]
  have "out = compact_out s saved" using C by (simp add: compact_out_def)
  then have "pe_splice_ok (sBuf s1) out" using assms(2) L(2) G(3) by (simp add: pe_splice_ok_def)
  note W = swap_pieces_tl[OF G(1) this L(3)[folded G(2)]]
  have r: "s' = s \<or> s' = s1 \<or> s' = s1\<lparr>sBuf := pe_insertRecs (snd (pe_removeRange (sBuf s1) 0 (pe_Len (sBuf s1)))) 0 out\<rparr>"
    using assms(3) C G(4) by (auto simp: Compact_def Let_def split: if_splits)
  then show "tl_inv s'" "pe_text (sBuf s') = pe_text (sBuf s)" "sJournal s' = sJournal s" "sGroupState s' = sGroupState s"
    using assms(1) G W by auto
qed

end
