(* ===== verification/SnapshotState.thy ===== *)
theory SnapshotState
  imports Review Reach
begin

text \<open>
  Session snapshots of \<open>internal/piecetable/snapshot.go\<close>: the capture, the checks a restore makes
  before it replays anything, and the rebuilt session. The JSON encoding is the standard library's and
  is not modelled; \<open>Restore\<close> takes the decoded value.
\<close>

record snapshot =
  snVersion :: int
  snOrigLen :: int
  snBase :: "byte list"
  snStore :: "byte list list"
  snJournal :: "Op list"
  snGroupState :: "(nat \<times> GroupState) list"
  snGroupTask :: "(nat \<times> string) list"
  snNextGroup :: nat
  snCompacted :: "insOrigin list"

definition snapshotVersion :: int where "snapshotVersion = 1"

text \<open>One constructor per error the code returns.\<close>

datatype snapshot_error =
    BadVersion int
  | NegativeBase int
  | NoStore
  | BaseTooLong int
  | BaseMismatch
  | BadSeq nat
  | BadDeleted nat
  | BadInserted nat
  | BadOrigin int int
  | StaleGroup nat nat

definition SnapshotState :: "session \<Rightarrow> (snapshot_error, snapshot) sum" where
  "SnapshotState s =
     (let txs = texts (pe_Store (sBuf s)) in
      if sOrigLen s < 0 \<or> (txs \<noteq> [] \<and> int (length (hd txs)) < sOrigLen s) then Inl (BaseTooLong (sOrigLen s))
      else Inr \<lparr>snVersion = snapshotVersion, snOrigLen = sOrigLen s,
        snBase = (if txs \<noteq> [] then take (nat (sOrigLen s)) (hd txs) else replicate (nat (sOrigLen s)) 0),
        snStore = txs, snJournal = sJournal s, snGroupState = sGroupState s, snGroupTask = sGroupTask s,
        snNextGroup = sGroup s, snCompacted = sCompacted s\<rparr>)"

definition rec_ok :: "byte list list \<Rightarrow> PieceRec \<Rightarrow> bool" where
  "rec_ok store r \<longleftrightarrow> 0 \<le> Buf r \<and> Buf r < int (length store) \<and>
     (let n = int (length (store ! nat (Buf r))) in
      0 \<le> Start r \<and> 0 \<le> Length r \<and> Start r \<le> n \<and> Length r \<le> n - Start r)"

definition checkRecs :: "PieceRec list \<Rightarrow> byte list list \<Rightarrow> bool" where
  "checkRecs recs store \<longleftrightarrow> list_all (rec_ok store) recs"

text \<open>The loop over the journal: the first op that is refused.\<close>

fun check_journal :: "nat \<Rightarrow> Op list \<Rightarrow> byte list list \<Rightarrow> snapshot_error option" where
  "check_journal i [] store = None"
| "check_journal i (q # qs) store =
     (if opSeq q \<noteq> i then Some (BadSeq i)
      else if \<not> checkRecs (opDel q) store then Some (BadDeleted i)
      else if \<not> checkRecs (opIns q) store then Some (BadInserted i)
      else check_journal (i + 1) qs store)"

definition origin_ok :: "byte list list \<Rightarrow> insOrigin \<Rightarrow> bool" where
  "origin_ok store c \<longleftrightarrow> 0 \<le> orBuf c \<and> orBuf c < int (length store) \<and> 0 \<le> orStart c \<and> orStart c \<le> orEnd c \<and>
     orEnd c \<le> int (length (store ! nat (orBuf c)))"

definition max_group :: "snapshot \<Rightarrow> nat" where
  "max_group sn = foldl max 0 (map opGroup (snJournal sn) @ map fst (snGroupState sn) @ map fst (snGroupTask sn) @
     map orGroup (snCompacted sn))"

definition restored :: "snapshot \<Rightarrow> session" where
  "restored sn =
     (let recs = (if 0 < snOrigLen sn then [piece Original 0 (snOrigLen sn)] else []);
          d = \<lparr>dStore = \<lparr>texts = snStore sn\<rparr>, dTree = NewPieceBTree (WidthFor (snOrigLen sn + 2 ^ 20)) recs\<rparr>;
          s = NewRestoredSession (DocBuf d) (snJournal sn) (snGroupState sn) (snOrigLen sn)
      in s\<lparr>sGroup := snNextGroup sn, sGroupTask := snGroupTask sn, sCompacted := snCompacted sn\<rparr>)"

definition Restore :: "snapshot \<Rightarrow> (snapshot_error, session) sum" where
  "Restore sn =
     (if snVersion sn \<noteq> snapshotVersion then Inl (BadVersion (snVersion sn))
      else if snOrigLen sn < 0 then Inl (NegativeBase (snOrigLen sn))
      else if snStore sn = [] then Inl NoStore
      else if int (length (hd (snStore sn))) < snOrigLen sn then Inl (BaseTooLong (snOrigLen sn))
      else if snBase sn \<noteq> take (nat (snOrigLen sn)) (hd (snStore sn)) then Inl BaseMismatch
      else case check_journal 0 (snJournal sn) (snStore sn) of
        Some e \<Rightarrow> Inl e
      | None \<Rightarrow>
          (case find (\<lambda>c. \<not> origin_ok (snStore sn) c) (snCompacted sn) of
             Some c \<Rightarrow> Inl (BadOrigin (orStart c) (orEnd c))
           | None \<Rightarrow>
               if snNextGroup sn < max_group sn then Inl (StaleGroup (snNextGroup sn) (max_group sn))
               else Inr (restored sn)))"

text \<open>
  A snapshot rebuilds the session it captured (\<open>internal/piecetable/snapshot.go\<close>): replaying the
  journal over the base gives the document back, and liveness, decisions, tasks, origins and the
  next group are the same. The bound is the record width of the rebuilt tree.
\<close>

section \<open>The document a restore starts from\<close>

definition restore_width :: "int \<Rightarrow> nat" where
  "restore_width n = WidthFor (n + 2 ^ 20)"

definition base_doc :: "byte list list \<Rightarrow> int \<Rightarrow> doc" where
  "base_doc txs n = \<lparr>dStore = \<lparr>texts = txs\<rparr>,
     dTree = NewPieceBTree (restore_width n) (if 0 < n then [piece Original 0 n] else [])\<rparr>"

lemma base_doc_inv:
  assumes "0 \<le> n" "n < 2 ^ 62" "txs \<noteq> []" "n \<le> int (length (txs ! 0))"
  shows "pe_inv (DocBuf (base_doc txs n))" "pe_text (DocBuf (base_doc txs n)) = take (nat n) (txs ! 0)"
    "pe_fits (DocBuf (base_doc txs n)) = piece_fits (restore_width n)" "pe_Store (DocBuf (base_doc txs n)) = \<lparr>texts = txs\<rparr>"
proof -
  let ?m = "n + 2 ^ 20" and ?rs = "if 0 < n then [piece Original 0 n] else []"
  have wf: "1 \<le> WidthFor ?m" "WidthFor ?m \<le> 8" "?m < 2 ^ (8 * WidthFor ?m)"
    using WidthFor_loop_spec[of ?m 1] assms(1,2) by (auto simp: WidthFor_def)
  have "n < 2 ^ (8 * WidthFor ?m)" by (rule le_less_trans[OF _ wf(3)]) simp
  moreover have "n < 2 ^ 63" using assms(2) by simp
  ultimately have "field_ok (restore_width n) n" using assms(1) by (simp add: field_ok_def restore_width_def)
  then have f: "\<forall>r \<in> set ?rs. piece_fits (restore_width n) r" by (auto simp: piece_fits_def Original_def)
  then have "\<forall>r \<in> set ?rs. rec_fits (restore_width n) r" using piece_fits_rec by blast
  note N = NewPieceBTree_inv[OF wf(1,2)[folded restore_width_def] this]
  have i: "\<forall>r \<in> set ?rs. rec_in_store \<lparr>texts = txs\<rparr> r"
    using assms by (auto simp: rec_in_store_def Original_def)
  show "pe_inv (DocBuf (base_doc txs n))" "pe_Store (DocBuf (base_doc txs n)) = \<lparr>texts = txs\<rparr>"
    using N f i by (auto simp: doc_inv_def ptree_inv_def base_doc_def split: if_splits)
  show "pe_fits (DocBuf (base_doc txs n)) = piece_fits (restore_width n)"
    using N by (simp add: base_doc_def doc_fits_def fun_eq_iff)
  have "pe_text (DocBuf (base_doc txs n)) = recs_text \<lparr>texts = txs\<rparr> ?rs"
    using N recs_text_bytes[OF i] by (simp add: pe_text_def pe_content_def doc_pieces_def base_doc_def)
  also have "\<dots> = take (nat n) (txs ! 0)"
    using assms by (auto simp: recs_text_def rec_text_def store_Slice_def Original_def author_of_def sub_range_def)
  finally show "pe_text (DocBuf (base_doc txs n)) = take (nat n) (txs ! 0)" .
qed

section \<open>Replaying the journal\<close>

lemma restore_ops_fields:
  "sOrigLen (restore_ops s qs) = sOrigLen s \<and> sJournal (restore_ops s qs) = sJournal s \<and> sDepth (restore_ops s qs) = sDepth s \<and>
   sReversers (restore_ops s qs) = derive_reversers qs (sReversers s)"
  by (induction qs arbitrary: s) simp_all

lemma restore_ops_text:
  assumes "pe_inv (sBuf s)" "\<forall>q \<in> set qs. op_recs_ok (sBuf s) q" "frames_ok (pe_Len (sBuf s)) qs"
  shows "pe_inv (sBuf (restore_ops s qs)) \<and> pe_Store (sBuf (restore_ops s qs)) = pe_Store (sBuf s) \<and>
    pe_fits (sBuf (restore_ops s qs)) = pe_fits (sBuf s) \<and>
    pe_text (sBuf (restore_ops s qs)) = replay (pe_Store (sBuf s)) (pe_text (sBuf s)) qs"
  using assms
proof (induction qs arbitrary: s)
  case (Cons q qs)
  then have "op_recs_ok (sBuf s) q" "step_in (pe_Len (sBuf s)) q" by simp_all
  note A = apply_op_in[OF Cons.prems(1) this]
  show ?case using Cons A op_recs_ok_cong[OF A(3,4)] by simp
qed simp

section \<open>The checks pass\<close>

lemma rec_ok_in_store: "rec_in_store \<lparr>texts = txs\<rparr> r \<Longrightarrow> rec_ok txs r"
  by (auto simp: rec_ok_def rec_in_store_def Let_def)

lemma check_journal_ok:
  assumes "\<forall>i < length qs. opSeq (qs ! i) = k + i"
    "\<forall>q \<in> set qs. \<forall>r \<in> set (opDel q) \<union> set (opIns q). rec_in_store \<lparr>texts = txs\<rparr> r"
  shows "check_journal k qs txs = None"
  using assms
proof (induction qs arbitrary: k)
  case (Cons q qs)
  have "opSeq q = k" using Cons.prems(1) by auto
  moreover have "\<forall>i < length qs. opSeq (qs ! i) = Suc k + i" using Cons.prems(1) by auto
  ultimately show ?case using Cons rec_ok_in_store by (auto simp: checkRecs_def list_all_iff)
qed simp

lemma foldl_max_le: "foldl max k xs \<le> n \<longleftrightarrow> k \<le> n \<and> (\<forall>x \<in> set xs. x \<le> (n :: nat))"
  by (induction xs arbitrary: k) auto

text \<open>What a session must hold for its snapshot to be accepted: every id it names was opened by it,
  compacted origins lie in the stores, and the ops fit the rebuilt tree's records.\<close>

definition snapshot_ok :: "session \<Rightarrow> bool" where
  "snapshot_ok s \<longleftrightarrow> sOrigLen s < 2 ^ 62 \<and>
     list_all (\<lambda>(g, st). st \<noteq> Accepted \<and> g \<le> sGroup s) (sGroupState s) \<and> list_all (\<lambda>(g, t). g \<le> sGroup s) (sGroupTask s) \<and>
     list_all (\<lambda>c. orGroup c \<le> sGroup s \<and> origin_ok (texts (pe_Store (sBuf s))) c) (sCompacted s) \<and>
     list_all (\<lambda>q. list_all (piece_fits (restore_width (sOrigLen s))) (opDel q @ opIns q)) (sJournal s)"

lemma snapshot_restores:
  assumes "tl_inv s" "snapshot_ok s" "sDepth s = 0"
  shows "\<exists>sn s'. SnapshotState s = Inr sn \<and> Restore sn = Inr s' \<and> tl_inv s' \<and> pe_text (sBuf s') = pe_text (sBuf s) \<and>
    s' = s\<lparr>sBuf := sBuf s'\<rparr>"
proof -
  let ?txs = "texts (pe_Store (sBuf s))" and ?n = "sOrigLen s"
  have F: "?txs \<noteq> []" "0 \<le> ?n" "?n \<le> int (length (?txs ! 0))" using tl_invD(1)[OF assms(1)] by (auto simp: flow_inv_def)
  then have hd: "hd ?txs = ?txs ! 0" by (simp add: hd_conv_nth)
  let ?sn = "\<lparr>snVersion = snapshotVersion, snOrigLen = ?n, snBase = take (nat ?n) (hd ?txs), snStore = ?txs, snJournal = sJournal s,
    snGroupState = sGroupState s, snGroupTask = sGroupTask s, snNextGroup = sGroup s, snCompacted = sCompacted s\<rparr>"
  have S: "SnapshotState s = Inr ?sn" using F hd by (simp add: SnapshotState_def Let_def)
  have st: "pe_Store (sBuf s) = \<lparr>texts = ?txs\<rparr>" by simp
  have rin: "\<forall>q \<in> set (sJournal s). \<forall>r \<in> set (opDel q) \<union> set (opIns q). rec_in_store \<lparr>texts = ?txs\<rparr> r"
    using tl_invD(6)[OF assms(1)] by (fastforce simp: op_recs_ok_def pe_splice_ok_def simp flip: st)
  have ck: "check_journal 0 (sJournal s) ?txs = None"
    using check_journal_ok[OF _ rin, of 0] tl_invD(2)[OF assms(1)] by (simp add: journal_inv_def)
  have fo: "find (\<lambda>c. \<not> origin_ok ?txs c) (sCompacted s) = None"
    using assms(2) by (auto simp: snapshot_ok_def list_all_iff find_None_iff)
  have mg: "max_group ?sn \<le> sGroup s"
    using assms(2) tl_invD(2)[OF assms(1)]
    by (auto simp: max_group_def foldl_max_le snapshot_ok_def list_all_iff journal_inv_def)
  have R: "Restore ?sn = Inr (restored ?sn)" using F hd ck fo mg by (simp add: Restore_def snapshotVersion_def)
  note B = base_doc_inv[OF F(2) _ F(1,3)]
  have lt: "?n < 2 ^ 62" using assms(2) by (simp add: snapshot_ok_def)
  let ?b = "DocBuf (base_doc ?txs ?n)"
  let ?s0 = "(NewSession ?b)\<lparr>sOrigLen := ?n\<rparr>"
  let ?r = "restore_ops ?s0 (sJournal s)"
  have ro: "\<forall>q \<in> set (sJournal s). op_recs_ok (sBuf ?s0) q"
    using assms(2) rin B(3,4)[OF lt] by (auto simp: op_recs_ok_def pe_splice_ok_def snapshot_ok_def list_all_iff NewSession_def)
  have ln: "pe_Len ?b = ?n" using pe_text_length[OF B(1)[OF lt]] B(2)[OF lt] F by simp
  have T: "pe_inv (sBuf ?s0)" "frames_ok (pe_Len (sBuf ?s0)) (sJournal s)"
    using B(1)[OF lt] tl_invD(8)[OF assms(1)] ln by (simp_all add: NewSession_def)
  note X = restore_ops_text[OF T(1) ro T(2), THEN conjunct1] restore_ops_text[OF T(1) ro T(2), THEN conjunct2, THEN conjunct1]
    restore_ops_text[OF T(1) ro T(2), THEN conjunct2, THEN conjunct2, THEN conjunct1]
    restore_ops_text[OF T(1) ro T(2), THEN conjunct2, THEN conjunct2, THEN conjunct2]
  and Y = restore_ops_fields[of ?s0 "sJournal s"]
  have gs: "filter (\<lambda>(g, st). st \<noteq> Accepted) (sGroupState s) = sGroupState s"
    using assms(2) by (auto simp: snapshot_ok_def list_all_iff intro!: filter_True)
  have "restored ?sn = ?r\<lparr>sJournal := sJournal s, sGroupState := sGroupState s, sGroup := sGroup s,
      sGroupTask := sGroupTask s, sCompacted := sCompacted s\<rparr>"
    by (simp only: restored_def NewRestoredSession_def Let_def base_doc_def restore_width_def gs snapshot.simps)
  then have r: "restored ?sn = s\<lparr>sBuf := sBuf ?r\<rparr>"
    using Y assms(3) tl_invD(2)[OF assms(1)]
    by (intro session.equality) (simp_all add: NewSession_def journal_inv_def)
  have bt: "base_text s = take (nat ?n) (?txs ! 0)" by (simp add: base_text_def)
  have tx: "pe_text (sBuf ?r) = pe_text (sBuf s)" and sr: "pe_Store (sBuf ?r) = pe_Store (sBuf s)"
    using X(2,4) B(2,4)[OF lt] tl_invD(7)[OF assms(1)] bt by (simp_all add: NewSession_def st[symmetric])
  have "flow_inv (restored ?sn)"
    using tl_invD(1)[OF assms(1)] X(1) tx sr ro op_recs_ok_cong[OF X(2) X(3)] by (simp add: flow_inv_def r base_text_def)
  then have "tl_inv (restored ?sn)" using assms(1) by (simp add: tl_inv_def journal_inv_def depth_ok_def r)
  then show ?thesis using S R r tx by auto
qed

end
