(* ===== verification/Machine.thy ===== *)
theory Machine
  imports Compact SnapshotState
begin

text \<open>
  The session as a state machine (\<open>internal/piecetable\<close>): one step per public operation, the sessions
  reachable from a fresh buffer, and what holds of all of them. Each operation extends the session: the
  journal and the stores only grow, the base stays.
\<close>

section \<open>Operations extend the session\<close>

lemma extends_Begin [simp]: "extends s (Begin s)"
  and extends_End [simp]: "extends s (End s)"
  and extends_Mark [simp]: "extends s (MarkGroup s g st)"
  and extends_Task [simp]: "extends s (SetGroupTask s g task)"
  and extends_Reject [simp]: "extends s (snd (RejectGroup s g))"
  by (simp_all add: extends_def Begin_def End_def SetGroupTask_def RejectGroup_def)

lemma extends_Insert: "0 \<le> a \<Longrightarrow> extends s (Insert s a pos t)"
  by (auto simp: Insert_def Let_def split: prod.splits intro: extends_trans[OF extends_append])

lemma extends_Delete: "extends s (Delete s a pos n)"
  by (simp add: Delete_def split: prod.splits)

lemma extends_Paste: "extends s (InsertPieces s a pos recs)"
  by (simp add: InsertPieces_def)

lemma extends_Undo: "tl_inv s \<Longrightarrow> extends s (snd (Undo s a))"
  using reverseLatest_tl[of s a KindUndo "fst (Undo s a)" "snd (Undo s a)"] by (simp add: Undo_def)

lemma extends_Redo: "tl_inv s \<Longrightarrow> extends s (snd (Redo s a))"
  using reverseLatest_tl[of s a KindRedo "fst (Redo s a)" "snd (Redo s a)"] by (simp add: Redo_def)

lemma extends_Clear: "tl_inv s \<Longrightarrow> extends s (snd (snd (ClearGroup s g)))"
proof -
  assume t: "tl_inv s"
  obtain ok b s' where R: "reverseGroupBlock s g KindUndo None = (ok, b, s')" by (metis prod_cases3)
  have e: "extends s s'" using reverseGroupBlock_tl[OF t R] by blast
  have "extends s (snd (snd (ClearRejectedBlock s g)))"
    using R e extends_trans[OF e extends_Mark] by (simp add: ClearRejectedBlock_def)
  then show "extends s (snd (snd (ClearGroup s g)))"
    by (simp add: ClearGroup_def split: GroupState.splits option.splits)
qed

lemma extends_revert_loop: "tl_inv s \<Longrightarrow> extends s (snd (revert_loop s a gs))"
proof (induction gs arbitrary: s)
  case (Cons g gs)
  obtain ok b s1 where R: "reverseGroupBlock s g KindUndo (Some (byAuthor a)) = (ok, b, s1)" by (metis prod_cases3)
  have e: "tl_inv s1" "extends s s1" using reverseGroupBlock_tl[OF Cons.prems R] by blast+
  let ?s2 = "if \<not> hasLiveMembers s1 g then MarkGroup s1 g Accepted else s1"
  have "tl_inv ?s2" "extends s ?s2" using e extends_trans[OF e(2) extends_Mark] by (simp_all add: MarkGroup_tl)
  then show ?case using R e(2) extends_trans[OF _ Cons.IH[of ?s2]] by simp
qed simp

lemma extends_Revert: "tl_inv s \<Longrightarrow> extends s (snd (snd (RevertAuthor s a)))"
  using extends_revert_loop[of s a "rev (author_groups s a)"]
  by (auto simp: RevertAuthor_def Let_def split: prod.splits option.splits)

lemma AcceptPending_fields:
  "sJournal (snd (AcceptPending s)) = sJournal s" "sBuf (snd (AcceptPending s)) = sBuf s"
  "sOrigLen (snd (AcceptPending s)) = sOrigLen s"
proof -
  have "sJournal (foldl (\<lambda>s g. AcceptGroup s (gID g)) s gs) = sJournal s \<and> sBuf (foldl (\<lambda>s g. AcceptGroup s (gID g)) s gs) = sBuf s \<and>
      sOrigLen (foldl (\<lambda>s g. AcceptGroup s (gID g)) s gs) = sOrigLen s" for gs
    by (induction gs arbitrary: s) (simp_all add: AcceptGroup_def)
  from this[of "Pending s"] show "sJournal (snd (AcceptPending s)) = sJournal s" "sBuf (snd (AcceptPending s)) = sBuf s"
    "sOrigLen (snd (AcceptPending s)) = sOrigLen s"
    by (simp_all add: AcceptPending_def Let_def)
qed

lemma extends_land: "0 \<le> a \<Longrightarrow> extends s (land s a h lo hi g)"
  by (auto simp: land_def Let_def split: prod.splits intro: extends_trans[OF extends_append])

lemma extends_hunk:
  assumes "0 \<le> a" "apply_hunk a base i h d = Some d'"
  shows "extends (dsSession d) (dsSession d')"
proof -
  obtain lo hi at ok where r: "rebase (dsSession d) (hkStart h) (hkEnd h) base = (lo, hi, at, ok)" by (metis prod_cases4)
  show ?thesis by (rule apply_hunk_cases[OF assms(2) r]) (simp_all add: extends_land[OF assms(1)])
qed

lemma pe_store_swap: "pe_Store (pe_insertRecs (snd (pe_removeRange b p n)) q rs) = pe_Store b"
proof -
  have i: "pe_Store (pe_insertRecs x pos rs) = pe_Store x" for x pos rs
    by (cases x) (simp_all add: naive_insertRecs_def doc_insertRecs_def)
  have "pe_Store (snd (pe_removeRange x pos n)) = pe_Store x" for x pos n
    by (cases x) (auto simp: naive_removeRange_def doc_cut_def doc_removeRange_def Let_def split: prod.splits option.splits)
  then show ?thesis by (simp add: i)
qed

lemma extends_grown: "grown s s' \<Longrightarrow> extends s s'"
  by (auto simp: grown_def extends_def)

lemma extends_Compact:
  assumes "tl_inv s"
  shows "extends s (snd (Compact s saved))"
proof -
  let ?n = "pe_Len (sBuf s)" and ?idx = "newOriginIndex (allOrigins s)"
  let ?ps = "pe_pieceRange (sBuf s) 0 ?n"
  have n: "0 \<le> ?n" using tl_len[OF assms(1)] by simp
  have ps: "recs_in s ?ps" using pe_pieceRange_exact(2)[OF tl_invD(5)[OF assms] order_refl n] by (auto simp: pe_splice_ok_def)
  obtain s1 out ch where C: "compactPieces s ?ps ?idx saved = (s1, out, ch)" by (metis prod_cases3)
  then have g: "grown s s1" using compact_loop_text[OF ps, of "[]" ?idx saved False] by (auto simp: compactPieces_def)
  have "extends s1 (s1\<lparr>sBuf := pe_insertRecs (snd (pe_removeRange (sBuf s1) 0 ?n)) 0 out\<rparr>)"
    by (simp add: extends_def pe_store_swap)
  then show ?thesis
    using C extends_grown[OF g] extends_trans[OF extends_grown[OF g]] by (auto simp: Compact_def Let_def)
qed

section \<open>The steps\<close>

text \<open>One call on a session. What a step asks of its caller: a text must fit the stores, captured
  pieces must come from the document, a hunk must lie inside the version it names, and the pieces
  compaction makes must fit the records.\<close>

inductive session_step :: "session \<Rightarrow> session \<Rightarrow> bool" where
  InsertS: "room s a t \<Longrightarrow> session_step s (Insert s a pos t)"
| DeleteS: "session_step s (Delete s a pos n)"
| PasteS: "pe_splice_ok (sBuf s) recs \<Longrightarrow> session_step s (InsertPieces s a pos recs)"
| BeginS: "session_step s (Begin s)"
| EndS: "session_step s (End s)"
| MarkS: "session_step s (MarkGroup s g st)"
| TaskS: "session_step s (SetGroupTask s g task)"
| RejectS: "session_step s (snd (RejectGroup s g))"
| AcceptS: "session_step s (snd (AcceptPending s))"
| UndoS: "session_step s (snd (Undo s a))"
| RedoS: "session_step s (snd (Redo s a))"
| ClearS: "session_step s (snd (snd (ClearGroup s g)))"
| RevertS: "session_step s (snd (snd (RevertAuthor s a)))"
| HunkS: "hunk_ok (dsSession d) a base h \<Longrightarrow> apply_hunk a base i h d = Some d' \<Longrightarrow>
    session_step (dsSession d) (dsSession d')"
| CompactS: "\<forall>r \<in> set (compact_out s saved). pe_fits (sBuf s) r \<Longrightarrow> session_step s (snd (Compact s saved))"

inductive reachable :: "pieceEditor \<Rightarrow> session \<Rightarrow> bool" for b where
  start: "reachable b (NewSession b)"
| step: "reachable b s \<Longrightarrow> session_step s s' \<Longrightarrow> reachable b s'"

lemmas session_tl = Begin_tl[THEN conjunct1] End_tl[THEN conjunct1] Insert_tl(1) InsertPieces_tl
  Undo_tl Redo_tl ClearGroup_tl RevertAuthor_tl AcceptPending_tl RejectGroup_tl apply_hunk_tl

lemmas session_extends = extends_Insert extends_Delete extends_Paste extends_Undo extends_Redo extends_Clear extends_Revert
  extends_hunk extends_Compact

lemma session_step_tl: "session_step s s' \<Longrightarrow> tl_inv s \<Longrightarrow> tl_inv s'"
proof (induction rule: session_step.induct)
  case (DeleteS s a pos n)
  obtain p k where "clampRange pos n (pe_Len (sBuf s)) = (p, k)" by fastforce
  then show ?case using DeleteS by (intro Delete_tl)
next
  case (CompactS s saved)
  then show ?case using Compact_law(1)[of s saved "fst (Compact s saved)" "snd (Compact s saved)"] by simp
qed (auto intro: session_tl simp: MarkGroup_tl SetGroupTask_tl)

lemma session_step_extends: "session_step s s' \<Longrightarrow> tl_inv s \<Longrightarrow> extends s s'"
proof (induction rule: session_step.induct)
  case (AcceptS s)
  then show ?case by (intro extends_same) (simp_all add: AcceptPending_fields)
next
  case (HunkS d a base h i d')
  then show ?case by (intro extends_hunk[of a base i h]) (simp_all add: hunk_ok_def room_def)
qed (auto intro: session_extends simp: room_def)

lemma reachable_tl:
  assumes "reachable b s" "fresh_buffer b"
  shows "tl_inv s \<and> extends (NewSession b) s"
  using assms
  by (induction rule: reachable.induct)
    (auto intro: NewSession_tl session_step_tl extends_trans session_step_extends)

text \<open>The base of a reachable session is the text the buffer opened with.\<close>

lemma reachable_base:
  assumes "reachable b s" "fresh_buffer b"
  shows "base_text s = pe_text b"
proof -
  have f: "texts (pe_Store b) \<noteq> []" "pe_text b = texts (pe_Store b) ! 0" using assms(2) by (auto simp: fresh_buffer_def)
  have e: "store_le (pe_Store b) (pe_Store (sBuf s))" "sOrigLen s = store_Len (pe_Store b) Original"
    using reachable_tl[OF assms] by (auto simp: extends_def NewSession_def)
  from store_leD[OF e(1), of 0] f(1) obtain t where "texts (pe_Store (sBuf s)) ! 0 = texts (pe_Store b) ! 0 @ t" by auto
  then show ?thesis using e(2) f by (auto simp: base_text_def store_Len_def Original_def)
qed

end
