(* ===== verification/Reversal.thy ===== *)
theory Reversal
  imports Machine
begin

text \<open>
  Reversing the newest op (\<open>reverseLatest\<close>, \<open>reverseGroupBlock\<close>, \<open>rebasedInverseAt\<close> of
  \<open>internal/piecetable/session.go\<close>): when it is alone in its change set, its inverse needs no carrying,
  matches the document, and puts back the text the op changed.
\<close>

lemma int_of_version_le: "int_of_version v \<le> int v"
proof -
  have "sint (word_of_nat v :: 64 word) = signed_take_bit 63 (int v)"
    by (simp add: signed_of_nat)
  also have "\<dots> \<le> int v" by (rule signed_take_bit_int_less_eq_self_iff[THEN iffD2]) simp
  finally show ?thesis by (simp add: int_of_version_def)
qed

lemma rebase_now: "rebase s a b (length (sJournal s)) = (a, b, 0, True)"
  using int_of_version_le[of "length (sJournal s)"] by (simp add: rebase_def start_point_def)

lemma no_reversers:
  assumes "tl_inv s" "length (sJournal s) \<le> Suc v"
  shows "revs (sReversers s) v = []" "live s v"
proof -
  have "r \<notin> set (revs (sReversers s) v)" for r
    using session_revs_less[OF tl_invD(2)[OF assms(1)], of r v] in_session_revs[OF tl_invD(2)[OF assms(1)], of r v] assms(2)
    by (auto simp: Version_def)
  then show "revs (sReversers s) v = []" by (metis all_not_in_conv set_empty)
  then show "live s v" by (simp add: live_def)
qed

text \<open>The newest op of the journal, alone in its set, matching the text it was applied to.\<close>

definition newest :: "session \<Rightarrow> Op list \<Rightarrow> Op \<Rightarrow> byte list \<Rightarrow> bool" where
  "newest s js p tx \<longleftrightarrow> sJournal s = js @ [p] \<and> opGroup p \<notin> opGroup ` set js \<and>
     step_ok (pe_Store (sBuf s)) tx p \<and> pe_text (sBuf s) = text_step (pe_Store (sBuf s)) p tx"

lemma Inverse_op [simp]:
  "opPos (Inverse p) = opPos p" "opAuthor (Inverse p) = opAuthor p" "opIns (Inverse p) = opDel p" "opDel (Inverse p) = opIns p"
  "opKind (Inverse p) = (if opKind p = KindUndo then KindRedo else KindUndo)" "opUndoes (Inverse p) = opSeq p"
  by (simp_all add: Inverse_def)

lemma reverse_newest:
  assumes "tl_inv s" "sDepth s = 0" "newest s js p tx" "reverses_kind want p"
  shows "\<exists>s'. reverseLatest s (opAuthor p) want = (True, s') \<and> tl_inv s' \<and> sDepth s' = 0 \<and> pe_text (sBuf s') = tx \<and>
    (\<exists>iv. newest s' (js @ [p]) iv (pe_text (sBuf s)) \<and> opAuthor iv = opAuthor p \<and>
       opKind iv = (if opKind p = KindUndo then KindRedo else KindUndo))"
proof -
  let ?n = "length js" and ?st = "pe_Store (sBuf s)"
  have N: "sJournal s = js @ [p]" "opGroup p \<notin> opGroup ` set js" "step_ok ?st tx p" "pe_text (sBuf s) = text_step ?st p tx"
    using assms(3) by (auto simp: newest_def)
  have seq: "opSeq p = ?n" and rk: "op_recs_ok (sBuf s) p" and gp: "opGroup p \<le> sGroup s"
    using tl_op(1)[OF assms(1), of ?n] tl_invD(6)[OF assms(1)] tl_invD(2)[OF assms(1)] N(1) by (auto simp: journal_inv_def)
  have lv: "live s ?n" using no_reversers(2)[OF assms(1), of ?n] N(1) by simp
  have fnd: "find (\<lambda>q. opAuthor q = opAuthor p \<and> live s (opSeq q) \<and> reverses_kind want q) (rev (sJournal s)) = Some p"
    using N(1) seq lv assms(4) by simp
  have mem: "reverseMembers s (opGroup p) want (Some (byAuthor (opAuthor p))) = [p]"
    using N(1,2) seq lv assms(4) by (auto simp: reverseMembers_def byAuthor_def filter_empty_conv image_iff)
  let ?b = "Begin s" and ?iv = "Inverse p"
  have bj: "sJournal ?b = js @ [p]" "sBuf ?b = sBuf s" "sDepth ?b = 1" "sGroup ?b = Suc (sGroup s)"
    using N(1) assms(2) by (simp_all add: Begin_def)
  have sb: "pe_splice_ok (sBuf s) (opIns p)" "pe_splice_ok (sBuf s) (opDel p)" using rk by (auto simp: op_recs_ok_def)
  note I = text_step_inverse[OF sb N(3)]
  have len: "int (length (pe_text (sBuf s))) = pe_Len (sBuf s)" using tl_len[OF assms(1)] by simp
  have end_le: "opPos p + InsLen p \<le> pe_Len (sBuf s)"
    using I(1) N(4) len by (simp add: step_ok_def Inverse_def DelLen_def InsLen_def)
  have rn: "rebase ?b (opPos p) (opPos p + InsLen p) (Suc ?n) = (opPos p, opPos p + InsLen p, 0, True)"
    using rebase_now[of ?b] bj(1) by simp
  have ri: "rebasedInverseAt ?b p = Inr ?iv"
    using rn end_le bj(2) seq by (simp add: rebasedInverseAt_def Inverse_def)
  have tb: "tl_inv ?b" using Begin_tl[OF assms(1)] by simp
  have ci: "commit_in ?b ?iv" using inverse_commit_in(1)[OF tb, of ?n ?iv] bj(1) ri by simp
  let ?s1 = "commit ?b ?iv" and ?q = "?iv\<lparr>opGroup := Suc (sGroup s), opSeq := Suc ?n\<rparr>"
  note C = commit_tl[OF tb ci]
  have cj: "sJournal ?s1 = js @ [p] @ [?q]" "sDepth ?s1 = 1"
    using bj commitInto_fields(6)[of 0 ?b ?iv] by (simp_all add: commit_def commitInto_fields(1,7))
  have rl: "reverse_loop ?b [p] [] = (?s1, [Version ?b], None)" using ri by simp
  have res: "reverseLatest s (opAuthor p) want = (True, End ?s1)"
    using fnd rl mem by (simp add: reverseLatest_def reverseGroup_def reverseGroupBlock_def Let_def)
  have tx: "pe_text (sBuf ?s1) = tx" using C(2) I(2) N(4) bj(2) by simp
  have e: "sBuf (End ?s1) = sBuf ?s1" "sJournal (End ?s1) = sJournal ?s1" "sDepth (End ?s1) = 0"
    using cj(2) by (simp_all add: End_def)
  have st: "pe_Store (sBuf ?s1) = ?st" using C(4) bj(2) by simp
  have "opGroup ?q \<notin> opGroup ` set (js @ [p])"
    using tl_invD(2)[OF assms(1)] N(1) by (fastforce simp: journal_inv_def)
  moreover have "step_ok ?st (pe_text (sBuf s)) ?q" using I(1) N(4) by simp
  moreover have "tx = text_step ?st ?q (pe_text (sBuf s))" using I(2) N(4) by simp
  ultimately have "newest (End ?s1) (js @ [p]) ?q (pe_text (sBuf s))" using cj(1) tx st by (simp add: newest_def e)
  then show ?thesis using res End_tl[OF C(1)] e tx by (intro exI[of _ "End ?s1"]) (auto intro!: exI[of _ ?q])
qed

text \<open>An edit that was just committed outside a transaction is the newest op.\<close>

lemma commit_newest:
  assumes "tl_inv s" "sDepth s = 0" "commit_in s q" "step_ok (pe_Store (sBuf s)) (pe_text (sBuf s)) q"
  shows "\<exists>p. newest (commit s q) (sJournal s) p (pe_text (sBuf s)) \<and> opAuthor p = opAuthor q \<and> opKind p = opKind q"
    "sDepth (commit s q) = 0"
proof -
  note C = commit_tl[OF assms(1,3)]
  let ?p = "q\<lparr>opGroup := sGroup (commit s q), opSeq := length (sJournal s)\<rparr>"
  have g: "sGroup (commit s q) = Suc (sGroup s)" using assms(2) commitInto_fields(5)[of 0 s q] by (simp add: commit_def)
  have "sJournal (commit s q) = sJournal s @ [?p]" by (simp add: commit_def commitInto_fields(1))
  moreover have "opGroup ?p \<notin> opGroup ` set (sJournal s)"
    using tl_invD(2)[OF assms(1)] g by (fastforce simp: journal_inv_def)
  ultimately have "newest (commit s q) (sJournal s) ?p (pe_text (sBuf s))" using assms(4) C(2,4) by (simp add: newest_def)
  then show "\<exists>p. newest (commit s q) (sJournal s) p (pe_text (sBuf s)) \<and> opAuthor p = opAuthor q \<and> opKind p = opKind q"
    by (intro exI[of _ ?p]) simp
  show "sDepth (commit s q) = 0" using assms(2) by (simp add: commit_def commitInto_fields)
qed

text \<open>Undo, then redo, of the newest edit.\<close>

lemma undo_redo_newest:
  assumes "tl_inv s" "sDepth s = 0" "newest s js p tx" "opKind p = KindEdit"
  shows "\<exists>s1 s2. Undo s (opAuthor p) = (True, s1) \<and> pe_text (sBuf s1) = tx \<and>
    Redo s1 (opAuthor p) = (True, s2) \<and> pe_text (sBuf s2) = pe_text (sBuf s)"
proof -
  obtain s1 iv where U: "reverseLatest s (opAuthor p) KindUndo = (True, s1)" "tl_inv s1" "sDepth s1 = 0" "pe_text (sBuf s1) = tx"
      "newest s1 (js @ [p]) iv (pe_text (sBuf s))" "opAuthor iv = opAuthor p" "opKind iv = KindUndo"
    using reverse_newest[OF assms(1-3), of KindUndo] assms(4) by (auto simp: reverses_kind_def)
  obtain s2 where "reverseLatest s1 (opAuthor iv) KindRedo = (True, s2)" "pe_text (sBuf s2) = pe_text (sBuf s)"
    using reverse_newest[OF U(2,3,5), of KindRedo] U(7) by (auto simp: reverses_kind_def)
  then show ?thesis using U by (auto simp: Undo_def Redo_def)
qed

lemma edit_step_ok:
  assumes "tl_inv s" "0 \<le> pos" "0 \<le> n" "pos + n \<le> pe_Len (sBuf s)"
  shows "step_ok (pe_Store (sBuf s)) (pe_text (sBuf s)) (edit_op a pos (pe_pieceRange (sBuf s) pos n) ins)"
proof -
  note R = pe_pieceRange_exact[OF tl_invD(5)[OF assms(1)] assms(2-4)]
  have "recs_text (pe_Store (sBuf s)) (pe_pieceRange (sBuf s) pos n) = sub_range pos n (pe_text (sBuf s))"
    using R(1) splice_ok_text[OF R(2)] by (simp add: pe_text_def map_sub_range)
  then show ?thesis using assms R(3) tl_len[OF assms(1)] by (simp add: step_ok_def)
qed

end
