(* ===== verification/SessionProps.thy ===== *)
theory SessionProps
  imports Reversal
begin

text \<open>
  Properties of whole sessions (\<open>internal/piecetable/session.go\<close>, \<open>groups.go\<close>, \<open>snapshot.go\<close>,
  \<open>compact.go\<close>): the timeline invariant of every reachable session, undo and redo of the newest action,
  rebasing and diffs, liveness, snapshots and compaction, each with a run of the model as its witness.
\<close>

section \<open>Runs used by the witnesses\<close>

definition demo_buf :: pieceEditor where
  "demo_buf = NaiveBuf (NewNaive [97, 98, 99, 100, 101, 102])"

lemma demo_fresh: "fresh_buffer demo_buf"
  by (simp add: demo_buf_def fresh_NewNaive)

lemma room_naive: "sBuf s = NaiveBuf n \<Longrightarrow> 0 \<le> a \<Longrightarrow> a < 256 \<Longrightarrow> room s a t"
  by (simp add: room_def naive_fits_def)

text \<open>The user types at the front, then the agent deletes two bytes.\<close>

definition demo1 :: session where "demo1 = Insert (NewSession demo_buf) User 0 [88]"
definition demo2 :: session where "demo2 = Delete demo1 Agent 2 2"

text \<open>Then the agent takes it back.\<close>

definition demo3 :: session where "demo3 = snd (Undo demo2 Agent)"

lemma demo_reach: "reachable demo_buf (NewSession demo_buf)" "reachable demo_buf demo1" "reachable demo_buf demo2"
  "reachable demo_buf demo3"
proof -
  show 0: "reachable demo_buf (NewSession demo_buf)" by (rule reachable.start)
  have "room (NewSession demo_buf) User [88]"
    by (rule room_naive[of _ "NewNaive [97, 98, 99, 100, 101, 102]"]) (simp_all add: NewSession_def demo_buf_def User_def)
  then show 1: "reachable demo_buf demo1" unfolding demo1_def by (intro reachable.step[OF 0] InsertS)
  show 2: "reachable demo_buf demo2" unfolding demo2_def by (intro reachable.step[OF 1] DeleteS)
  show "reachable demo_buf demo3" unfolding demo3_def by (intro reachable.step[OF 2] UndoS)
qed

lemmas demo_tl = reachable_tl[OF demo_reach(1) demo_fresh, THEN conjunct1] reachable_tl[OF demo_reach(2) demo_fresh, THEN conjunct1]
  reachable_tl[OF demo_reach(3) demo_fresh, THEN conjunct1]

section \<open>The timeline\<close>

text \<open>C1: in every reachable session the document is the journal replayed over the text the buffer
  opened with, every op sits in the frame its predecessors left, its sequence number is its index, and
  \<open>LengthAt\<close> reports the length of the text at each past version.\<close>

theorem reachable_timeline:
  assumes "fresh_buffer b" "reachable b s"
  shows "pe_text (sBuf s) = replay (pe_Store (sBuf s)) (pe_text b) (sJournal s) \<and> pe_inv (sBuf s) \<and>
    (\<forall>v < Version s. opSeq (sJournal s ! v) = v \<and> 0 \<le> opPos (sJournal s ! v) \<and>
       opPos (sJournal s ! v) + DelLen (sJournal s ! v) \<le> int (length (replay (pe_Store (sBuf s)) (pe_text b) (take v (sJournal s))))) \<and>
    (\<forall>v. LengthAt s v = (if Version s < v then None
       else Some (int (length (replay (pe_Store (sBuf s)) (pe_text b) (take v (sJournal s)))))))"
proof -
  have t: "tl_inv s" and bt: "base_text s = pe_text b" using reachable_tl reachable_base assms by blast+
  have l: "int (length (replay (pe_Store (sBuf s)) (pe_text b) (take v (sJournal s)))) = len_at s v" for v
    using length_text_at[OF tl_invD(1)[OF t]] by (simp add: text_at_def bt)
  show ?thesis
    using tl_invD(5,7)[OF t] tl_op[OF t] by (auto simp: bt l LengthAt_len_at Version_def step_in_def)
qed

theorem reachable_timeline_witness:
  "pe_text (sBuf demo2) = replay (pe_Store (sBuf demo2)) (pe_text demo_buf) (sJournal demo2)"
  using reachable_timeline[OF demo_fresh demo_reach(3)] by simp

section \<open>Editing\<close>

text \<open>C7: \<open>Insert\<close> puts the text at the clamped position and records it as one new op of its author, in
  a change set of its own outside a transaction; an empty text changes nothing.\<close>

theorem Insert_correct:
  assumes "fresh_buffer b" "reachable b s" "room s a t" "t \<noteq> []"
  shows "pe_text (sBuf (Insert s a pos t)) = put_at (min pos (pe_Len (sBuf s))) t (pe_text (sBuf s)) \<and>
    Insert s a pos [] = s \<and>
    (\<exists>q. sJournal (Insert s a pos t) = sJournal s @ [q] \<and> opAuthor q = a \<and> opKind q = KindEdit \<and> opSeq q = Version s \<and>
       opDel q = [] \<and> opPos q = max 0 (min pos (pe_Len (sBuf s))) \<and>
       recs_text (pe_Store (sBuf (Insert s a pos t))) (opIns q) = t \<and>
       (sDepth s = 0 \<longrightarrow> opGroup q = sGroup s + 1))"
proof -
  have t: "tl_inv s" using reachable_tl assms by blast
  obtain start s1 where ap: "session_append s a t = (start, s1)" by fastforce
  note A = append_tl[OF t assms(3) ap assms(4)]
  obtain bb where b: "s1 = s\<lparr>sBuf := bb\<rparr>" using A(6) by blast
  let ?p = "fst (clampRange pos 0 (pe_Len (sBuf s)))" and ?r = "[piece a start (int (length t))]"
  have I: "Insert s a pos t = commit s1 (edit_op a ?p [] ?r)" using assms(4) ap by (simp add: Insert_def)
  let ?q = "(edit_op a ?p [] ?r)\<lparr>opGroup := sGroup (commit s1 (edit_op a ?p [] ?r)), opSeq := length (sJournal s)\<rparr>"
  have j: "sJournal (Insert s a pos t) = sJournal s @ [?q]"
    unfolding I using b by (simp add: commit_def commitInto_fields)
  have g: "sDepth s = 0 \<longrightarrow> sGroup (commit s1 (edit_op a ?p [] ?r)) = sGroup s + 1"
    using b commitInto_fields(5)[of 0 s1] by (simp add: commit_def)
  have p: "?p = max 0 (min pos (pe_Len (sBuf s)))" using tl_len[OF t] by (simp add: clamp_point)
  have st: "pe_Store (sBuf (Insert s a pos t)) = pe_Store (sBuf s1)" by (simp add: I commit_def commitInto_fields)
  have "recs_text (pe_Store (sBuf (Insert s a pos t))) ?r = t" using A(5) st by simp
  moreover have "Insert s a pos [] = s" by (simp add: Insert_def)
  ultimately show ?thesis
    using Insert_tl(2)[OF t assms(3), of pos] g p
    by (intro conjI exI[of _ ?q]) (simp_all only: j op_fields edit_op_simps Op.simps Version_def, simp_all)
qed

theorem Insert_correct_witness:
  "pe_text (sBuf (Insert (NewSession demo_buf) User 2 [88])) = put_at (min 2 (pe_Len demo_buf)) [88] (pe_text demo_buf)"
  using Insert_correct[OF demo_fresh demo_reach(1) room_naive[of "NewSession demo_buf"], of "NewNaive [97, 98, 99, 100, 101, 102]" User "[88]" 2]
  by (simp add: NewSession_def demo_buf_def User_def)

text \<open>\<open>Delete\<close> removes exactly the bytes of the clamped range and records the pieces that held them;
  a range that clamps to nothing changes nothing.\<close>

theorem Delete_correct:
  assumes "fresh_buffer b" "reachable b s" "clampRange pos n (pe_Len (sBuf s)) = (p, k)"
  shows "pe_text (sBuf (Delete s a pos n)) = cut_range p k (pe_text (sBuf s)) \<and>
    (k = 0 \<longrightarrow> Delete s a pos n = s) \<and>
    (k \<noteq> 0 \<longrightarrow> (\<exists>q. sJournal (Delete s a pos n) = sJournal s @ [q] \<and> opAuthor q = a \<and> opKind q = KindEdit \<and>
       opPos q = p \<and> opIns q = [] \<and> recs_text (pe_Store (sBuf s)) (opDel q) = sub_range p k (pe_text (sBuf s))))"
proof -
  have t: "tl_inv s" using reachable_tl assms by blast
  have "0 \<le> pe_Len (sBuf s)" using tl_len[OF t] by simp
  note P = pe_pieceRange_exact[OF tl_invD(5)[OF t] clampRange_bounds[OF this assms(3)]]
  have d: "recs_text (pe_Store (sBuf s)) (pe_pieceRange (sBuf s) p k) = sub_range p k (pe_text (sBuf s))"
    using P(1) splice_ok_text[OF P(2)] by (simp add: pe_text_def map_sub_range)
  show ?thesis
    using Delete_tl(2)[OF t assms(3), of a] assms(3) d by (auto simp: Delete_def commit_def commitInto_fields)
qed

theorem Delete_correct_witness: "pe_text (sBuf (Delete (NewSession demo_buf) Agent 2 3)) = cut_range 2 3 (pe_text demo_buf)"
  using Delete_correct[OF demo_fresh demo_reach(1), of 2 3 2 3 Agent]
  by (simp add: NewSession_def demo_buf_def NewNaive_def naive_Len_def orig_recs_def clampRange_def)

section \<open>Undo and redo\<close>

text \<open>C6: outside a transaction, undoing right after an insertion succeeds and puts the text back, and
  redoing after that succeeds and brings the insertion back, with everyone's earlier edits in between
  untouched.\<close>

theorem undo_redo_insert:
  assumes "fresh_buffer b" "reachable b s" "sDepth s = 0" "room s a t" "t \<noteq> []"
  shows "\<exists>s1 s2. Undo (Insert s a pos t) a = (True, s1) \<and> pe_text (sBuf s1) = pe_text (sBuf s) \<and>
    Redo s1 a = (True, s2) \<and> pe_text (sBuf s2) = pe_text (sBuf (Insert s a pos t))"
proof -
  have t: "tl_inv s" using reachable_tl assms by blast
  obtain start s1 where ap: "session_append s a t = (start, s1)" by fastforce
  note A = append_tl[OF t assms(4) ap assms(5)]
  let ?p = "fst (clampRange pos 0 (pe_Len (sBuf s)))" and ?r = "[piece a start (int (length t))]"
  let ?q = "edit_op a ?p [] ?r"
  have pb: "0 \<le> ?p" "?p \<le> pe_Len (sBuf s1)" using clamped_point[of "pe_Len (sBuf s)" pos] tl_len[OF t] A(3) by simp_all
  have c: "commit_in s1 ?q" using edit_commit_in(3)[OF A(1) pb(1) order_refl _ A(4)] pb(2) by simp
  have so: "step_ok (pe_Store (sBuf s1)) (pe_text (sBuf s1)) ?q" using pb tl_len[OF A(1)] by (simp add: step_ok_def)
  have d: "sDepth s1 = 0" using assms(3) ap by (auto simp: session_append_def split: prod.splits)
  obtain p where N: "newest (commit s1 ?q) (sJournal s1) p (pe_text (sBuf s1))" "opAuthor p = a" "opKind p = KindEdit"
    using commit_newest(1)[OF A(1) d c so] by auto
  have I: "Insert s a pos t = commit s1 ?q" using assms(5) ap by (simp add: Insert_def)
  from undo_redo_newest[OF commit_tl(1)[OF A(1) c] commit_newest(2)[OF A(1) d c so] N(1,3)] N(2) A(2) show ?thesis
    by (simp add: I)
qed

theorem undo_redo_insert_witness:
  "\<exists>s1 s2. Undo (Insert (NewSession demo_buf) User 2 [88]) User = (True, s1) \<and> pe_text (sBuf s1) = pe_text demo_buf \<and>
    Redo s1 User = (True, s2)"
  using undo_redo_insert[OF demo_fresh demo_reach(1) _ room_naive[of "NewSession demo_buf"], of "NewNaive [97, 98, 99, 100, 101, 102]" User "[88]" 2]
  by (auto simp: NewSession_def demo_buf_def User_def)

text \<open>The same for a deletion: undo brings back exactly the bytes that were deleted, where they were,
  and redo deletes them again.\<close>

theorem undo_redo_delete:
  assumes "fresh_buffer b" "reachable b s" "sDepth s = 0" "clampRange pos n (pe_Len (sBuf s)) = (p, k)" "k \<noteq> 0"
  shows "\<exists>s1 s2. Undo (Delete s a pos n) a = (True, s1) \<and> pe_text (sBuf s1) = pe_text (sBuf s) \<and>
    Redo s1 a = (True, s2) \<and> pe_text (sBuf s2) = cut_range p k (pe_text (sBuf s))"
proof -
  have t: "tl_inv s" using reachable_tl assms by blast
  have "0 \<le> pe_Len (sBuf s)" using tl_len[OF t] by simp
  note B = clampRange_bounds[OF this assms(4)]
  let ?q = "edit_op a p (pe_pieceRange (sBuf s) p k) []"
  have c: "commit_in s ?q" by (rule edit_commit_in(1)[OF t B]) (simp add: pe_splice_ok_def)
  have so: "step_ok (pe_Store (sBuf s)) (pe_text (sBuf s)) ?q" by (rule edit_step_ok[OF t B])
  obtain r where N: "newest (commit s ?q) (sJournal s) r (pe_text (sBuf s))" "opAuthor r = a" "opKind r = KindEdit"
    using commit_newest(1)[OF t assms(3) c so] by auto
  have D: "Delete s a pos n = commit s ?q" using assms(4,5) by (simp add: Delete_def)
  from undo_redo_newest[OF commit_tl(1)[OF t c] commit_newest(2)[OF t assms(3) c so] N(1,3)] N(2)
    Delete_tl(2)[OF t assms(4), of a] show ?thesis by (simp add: D)
qed

theorem undo_redo_delete_witness:
  "\<exists>s1 s2. Undo (Delete (NewSession demo_buf) Agent 2 3) Agent = (True, s1) \<and> pe_text (sBuf s1) = pe_text demo_buf \<and>
    Redo s1 Agent = (True, s2)"
  using undo_redo_delete[OF demo_fresh demo_reach(1), of 2 3 2 3 Agent]
  by (auto simp: NewSession_def demo_buf_def NewNaive_def naive_Len_def orig_recs_def clampRange_def)

text \<open>C8: an op is in effect exactly when no reversal of it is in effect; the recursion that decides it
  ends because a reversal always comes later in the journal than what it reverses.\<close>

theorem live_recursive:
  assumes "fresh_buffer b" "reachable b s"
  shows "(live s v \<longleftrightarrow> (\<forall>r < Version s. opKind (sJournal s ! r) \<noteq> KindEdit \<and> opUndoes (sJournal s ! r) = v \<longrightarrow> \<not> live s r)) \<and>
    (\<forall>r < Version s. opKind (sJournal s ! r) \<noteq> KindEdit \<longrightarrow> opUndoes (sJournal s ! r) < r)"
proof -
  have j: "journal_inv s" using reachable_tl[OF assms(2,1)] tl_invD(2) by blast
  then have "\<forall>r < Version s. opKind (sJournal s ! r) \<noteq> KindEdit \<longrightarrow> opUndoes (sJournal s ! r) < r"
    by (auto simp: journal_inv_def Version_def)
  then show ?thesis using live_iff[OF j, of v] in_session_revs[OF j] by blast
qed

theorem live_recursive_witness: "\<not> live demo3 1"
proof -
  have "2 < Version demo3 \<and> opKind (sJournal demo3 ! 2) \<noteq> KindEdit \<and> opUndoes (sJournal demo3 ! 2) = 1 \<and> live demo3 2"
    by code_simp
  then show ?thesis using live_recursive[OF demo_fresh demo_reach(4), of 1] by blast
qed

section \<open>Rebasing\<close>

text \<open>Whatever was undone or redone since, an offset range of a past version that rebases lies inside
  the present document.\<close>

theorem rebase_in_document:
  assumes "fresh_buffer b" "reachable b s" "v \<le> Version s" "LengthAt s v = Some n" "0 \<le> p" "p \<le> n" "0 \<le> q" "q \<le> n"
    "rebase s p q v = (lo, hi, at, True)"
  shows "0 \<le> lo \<and> lo \<le> pe_Len (sBuf s) \<and> 0 \<le> hi \<and> hi \<le> pe_Len (sBuf s)"
  using rebase_bounds[OF _ _ assms(5) _ assms(7) _ assms(9)] reachable_tl[OF assms(2,1)] assms(3,4,6,8)
  by (simp add: LengthAt_len_at Version_def split: if_splits)

theorem rebase_in_document_witness: "rebase demo3 1 7 1 = (1, 7, 0, True) \<and> 7 \<le> pe_Len (sBuf demo3)"
proof -
  have r: "rebase demo3 1 7 1 = (1, 7, 0, True) \<and> LengthAt demo3 1 = Some 7 \<and> 1 \<le> Version demo3" by code_simp
  then show ?thesis using rebase_in_document[OF demo_fresh demo_reach(4), of 1 7 1 7 1 7 0] by simp
qed

lemma rebase_window:
  assumes "tl_inv s" "plain_window s v" "v \<le> Version s" "0 \<le> p" "p \<le> q" "LengthAt s v = Some n" "q \<le> n"
  shows "case rebase s p q v of (lo, hi, at, ok) \<Rightarrow>
     if ok then 0 \<le> lo \<and> hi \<le> pe_Len (sBuf s) \<and> hi - lo = q - p \<and>
       sub_range lo (hi - lo) (pe_text (sBuf s)) = sub_range p (q - p) (text_at s v)
     else v \<le> at \<and> at < Version s \<and> live_edit s (sJournal s ! at)"
proof -
  have v: "v \<le> length (sJournal s)" using assms(3) by (simp add: Version_def)
  have n: "q \<le> len_at s v" using assms(6,7) v by (simp add: LengthAt_len_at)
  have e: "ends_ok (start_point p) (start_point q)" using assms(5) by (simp add: ends_ok_def start_point_def)
  have w: "rebase s p q v = rebase_walk s (start_point p) (start_point q) (drop v (sJournal s))"
    using int_of_version_le[of v] v by (simp add: rebase_def)
  have "0 \<le> ptAt (start_point p)" "ptAt (start_point q) \<le> len_at s v" using assms(4) n by (simp_all add: start_point_def)
  from plain_walk[OF assms(1,2) v e this] show ?thesis
    unfolding w by (auto simp: start_point_def Version_def split: prod.splits if_splits)
qed

text \<open>C2: over a window of plain edits still in effect, a rebased range holds byte for byte what it held at
  the version it was written against; when it cannot be rebased, the op that is named is a live edit of
  that window.\<close>

theorem rebase_preserves_bytes:
  assumes "fresh_buffer b" "reachable b s" "plain_window s v" "v \<le> Version s" "0 \<le> p" "p \<le> q" "LengthAt s v = Some n" "q \<le> n"
  shows "case rebase s p q v of (lo, hi, at, ok) \<Rightarrow>
     if ok then 0 \<le> lo \<and> hi \<le> pe_Len (sBuf s) \<and> hi - lo = q - p \<and>
       sub_range lo (hi - lo) (pe_text (sBuf s)) = sub_range p (q - p) (text_at s v)
     else v \<le> at \<and> at < Version s \<and> live_edit s (sJournal s ! at)"
  by (rule rebase_window[OF conjunct1[OF reachable_tl[OF assms(2,1)]] assms(3-8)])

theorem rebase_preserves_bytes_witness:
  "sub_range 2 3 (pe_text (sBuf demo2)) = sub_range 3 3 (text_at demo2 0)"
proof -
  have "plain_window demo2 0 \<and> LengthAt demo2 0 = Some 6 \<and> rebase demo2 3 6 0 = (2, 5, 0, True)" by code_simp
  then show ?thesis using rebase_preserves_bytes[OF demo_fresh demo_reach(3), of 0 3 6 6] by simp
qed

section \<open>Diffs\<close>



text \<open>A diff panics exactly when it has a hunk that is not a no-op and names a version past the journal
  that reads as a negative or small signed integer: the guard compares \<open>int(base)\<close>, the slice uses \<open>base\<close>.\<close>

theorem ApplyDiff_panics:
  "ApplyDiff s a base hs = None \<longleftrightarrow>
     (\<exists>h \<in> set hs. \<not> (hkStart h = hkEnd h \<and> hkText h = [])) \<and>
     length (sJournal s) < base \<and> int_of_version base \<le> int (length (sJournal s))"
proof -
  have "apply_hunks a base i hs d = None \<longleftrightarrow>
     (\<exists>h \<in> set hs. \<not> (hkStart h = hkEnd h \<and> hkText h = [])) \<and> rebase_panics (dsSession d) base" for i d
  proof (induction hs arbitrary: i d)
    case (Cons h hs)
    show ?case
    proof (cases "hkStart h = hkEnd h \<and> hkText h = []")
      case True
      then show ?thesis using Cons.IH[of "i + 1" d] by (simp add: apply_hunk_def)
    next
      case n: False
      show ?thesis
      proof (cases "rebase_panics (dsSession d) base")
        case True
        then show ?thesis using n by (auto simp: apply_hunk_def Let_def)
      next
        case False
        obtain lo hi at ok where r: "rebase (dsSession d) (hkStart h) (hkEnd h) base = (lo, hi, at, ok)" by (metis prod_cases4)
        have "apply_hunk a base i h d \<noteq> None" using r False by (auto simp: apply_hunk_def Let_def split: verdict.splits)
        then obtain d' where d: "apply_hunk a base i h d = Some d'" by blast
        have "\<not> rebase_panics (dsSession d') base"
          by (rule apply_hunk_cases[OF d r]) (use False r in \<open>auto simp: rebase_panics_def rebase_def land_def Let_def
            commitInto_fields(1) session_append_def split: prod.splits if_splits\<close>)
        then show ?thesis using Cons.IH[of "i + 1" d'] False d by simp
      qed
    qed
  qed simp
  from this[of 0 "\<lparr>dsSession = s, dsConflicts = [], dsWarnings = []\<rparr>"] show ?thesis
    by (auto simp: ApplyDiff_def rebase_panics_def)
qed

end
