(* ===== verification/Compositions.thy ===== *)
theory Compositions
  imports SessionProps
begin

text \<open>
  Lemmas about what \<open>internal/piecetable/project.go\<close> derives: the view a composition starts from, the
  ownership runs, the alignment segments; and two witnesses of a composition that is not what its
  comment promises.
\<close>

section \<open>The view\<close>

lemma view_inv:
  assumes "tl_inv s"
  shows "naive_inv (view_of s)" "flat (nPieces (view_of s)) = pe_content (sBuf s)" "nStore (view_of s) = pe_Store (sBuf s)"
    "naive_Len (view_of s) = pe_Len (sBuf s)"
proof -
  have n: "0 \<le> pe_Len (sBuf s)" using tl_len[OF assms] by simp
  have iv: "pe_inv (sBuf s)" by (rule tl_invD(5)[OF assms])
  note P = pe_pieceRange_exact[OF iv order_refl n]
  have "within (pe_pieceRange (sBuf s) 0 (pe_Len (sBuf s))) (pe_pieces (sBuf s))"
    using pe.range_law[OF iv clampRange_id[of 0 "pe_Len (sBuf s)" "pe_Len (sBuf s)"]] n by simp
  then have "pos_ok (pe_pieceRange (sBuf s) 0 (pe_Len (sBuf s)))" by (rule within_pos_ok)
  then show ni: "naive_inv (view_of s)" using P(2) by (auto simp: naive_inv_def view_of_def pe_splice_ok_def)
  show f: "flat (nPieces (view_of s)) = pe_content (sBuf s)" "nStore (view_of s) = pe_Store (sBuf s)"
    using P(1) pe_length_content[OF iv] sub_range_all[of "pe_content (sBuf s)"] by (simp_all add: view_of_def)
  show "naive_Len (view_of s) = pe_Len (sBuf s)"
    using naive_ed.length_content[OF ni] pe_length_content[OF iv] f by simp
qed

lemma view_text: "tl_inv s \<Longrightarrow> naive_Slice (view_of s) 0 (naive_Len (view_of s)) = pe_text (sBuf s)"
  using naive_ed.slice_all[OF view_inv(1)] view_inv(2,3) by (simp add: pe_text_def)

text \<open>The review view un-applies nothing.\<close>

lemma project_step_Annotated: "project_step s Annotated [] invalid None acc q = acc"
  by (simp add: project_step_def included_def split: prod.splits)

lemma Annotated_comp: "dpComp (Project s Annotated) = view_of s"
proof -
  have "foldl (project_step s Annotated [] invalid None) acc qs = acc" for invalid acc qs
    by (induction qs) (simp_all add: project_step_Annotated)
  then show ?thesis
    by (simp add: Project_def project_def projectNoDecisions_def deferredDeletions_def Let_def split: prod.splits)
qed

section \<open>Ownership runs\<close>

fun runs_tile :: "int \<Rightarrow> StateRun list \<Rightarrow> int \<Rightarrow> bool" where
  "runs_tile off [] end \<longleftrightarrow> off = end"
| "runs_tile off (r # rs) end \<longleftrightarrow> srOff r = off \<and> 0 < srLen r \<and> runs_tile (off + srLen r) rs end"

lemma runs_tile_snoc: "runs_tile off (rs @ [r]) end \<longleftrightarrow> runs_tile off rs (srOff r) \<and> 0 < srLen r \<and> srOff r + srLen r = end"
  by (induction rs arbitrary: off) auto

lemma add_run_tile:
  assumes "runs_tile a runs off" "0 < Length p"
  shows "runs_tile a (add_run own p off runs) (off + Length p)"
proof (cases "runs \<noteq> [] \<and> srGroup (last runs) = fst own \<and> srState (last runs) = snd own")
  case True
  then obtain rs r where r: "runs = rs @ [r]" by (cases runs rule: rev_cases) auto
  show ?thesis using True assms unfolding r by (auto simp: add_run_def runs_tile_snoc)
next
  case False
  then show ?thesis using assms by (auto simp: add_run_def runs_tile_snoc)
qed

definition run_state_ok :: "session \<Rightarrow> StateRun \<Rightarrow> bool" where
  "run_state_ok s r \<longleftrightarrow> (srGroup r = 0 \<and> srState r = Accepted) \<or> srState r = GroupState_of s (srGroup r)"

lemma add_run_state:
  "\<forall>r \<in> set runs. run_state_ok s r \<Longrightarrow> \<forall>r \<in> set (add_run (owner_state s index p) p off runs). run_state_ok s r"
  by (auto simp: add_run_def run_state_ok_def owner_state_def split: option.splits dest: in_set_butlastD)

lemma state_runs_tile:
  assumes "pos_ok ps" "runs_tile a runs off" "\<forall>r \<in> set runs. run_state_ok s r"
  shows "runs_tile a (state_runs_loop s index ps off runs) (off + recsLen ps) \<and>
    (\<forall>r \<in> set (state_runs_loop s index ps off runs). run_state_ok s r)"
  using assms
proof (induction ps arbitrary: off runs)
  case (Cons p ps)
  have p: "0 < Length p" "pos_ok ps" using Cons.prems(1) by (auto simp: pos_ok_def)
  from Cons.IH[OF p(2) add_run_tile[OF Cons.prems(2) p(1)] add_run_state[OF Cons.prems(3)]] p(1)
  show ?case by (simp add: add.assoc)
qed simp

lemma annotated_runs:
  assumes "tl_inv s"
  shows "runs_tile 0 (dpStates (Project s Annotated)) (pe_Len (sBuf s)) \<and> (\<forall>r \<in> set (dpStates (Project s Annotated)). run_state_ok s r)"
proof -
  have "pos_ok (nPieces (view_of s))" "recsLen (nPieces (view_of s)) = pe_Len (sBuf s)"
    using view_inv(1,4)[OF assms] by (auto simp: naive_inv_def pos_ok_def naive_Len_def naive_Len_loop_eq)
  from state_runs_tile[OF this(1), of 0 "[]" 0 s "newOriginIndex (allOrigins s)"] this(2) show ?thesis
    by (simp add: Annotated_states Annotated_comp stateRuns_def)
qed

section \<open>Alignment segments\<close>

text \<open>Where the composition bytes of a segment list end, and lists whose segments sit there.\<close>

definition segs_len :: "ProjSeg list \<Rightarrow> int" where
  "segs_len segs = (\<Sum>g\<leftarrow>segs. pgDLen g)"

definition seg_kind_ok :: "ProjSeg \<Rightarrow> bool" where
  "seg_kind_ok g \<longleftrightarrow> (pgHide g \<longrightarrow> \<not> pgRestore g \<and> pgDLen g = 0) \<and> (pgRestore g \<longrightarrow> pgLen g = 0) \<and>
     (\<not> pgHide g \<and> \<not> pgRestore g \<longrightarrow> pgLen g = pgDLen g)"

definition segs_tile :: "ProjSeg list \<Rightarrow> bool" where
  "segs_tile segs \<longleftrightarrow> (\<forall>i < length segs. pgDisp (segs ! i) = segs_len (take i segs) \<and> seg_kind_ok (segs ! i))"

lemma segs_len_simps [simp]: "segs_len [] = 0" "segs_len (xs @ ys) = segs_len xs + segs_len ys" "segs_len (g # gs) = pgDLen g + segs_len gs"
  by (simp_all add: segs_len_def)

lemma segs_tile_Nil [simp]: "segs_tile []"
  by (simp add: segs_tile_def)

lemma segs_tile_snoc: "segs_tile (gs @ [g]) \<longleftrightarrow> segs_tile gs \<and> pgDisp g = segs_len gs \<and> seg_kind_ok g"
  by (auto simp: segs_tile_def nth_append less_Suc_eq)

lemma hide_seg_ok: "seg_kind_ok (hide_seg h d)" "pgDLen (hide_seg h d) = 0" "pgDisp (hide_seg h d) = d"
  by (simp_all add: seg_kind_ok_def hide_seg_def)

lemma hide_segs:
  assumes "segs_tile segs" "segs_len segs = d"
  shows "segs_tile (segs @ map (\<lambda>h. hide_seg h d) hs) \<and> segs_len (segs @ map (\<lambda>h. hide_seg h d) hs) = d"
  using assms
proof (induction hs rule: rev_induct)
  case (snoc h hs)
  then show ?case using segs_tile_snoc[of "segs @ map (\<lambda>h. hide_seg h d) hs" "hide_seg h d"] by (simp add: hide_seg_ok)
qed simp

lemma flush_segs:
  assumes "segs_tile segs" "segs_len segs = d" "flush_hidden till d segs doc hs = (segs', doc', hs')"
  shows "segs_tile segs' \<and> segs_len segs' = d"
  using assms
proof (induction hs arbitrary: segs doc)
  case (Cons h hs)
  have "segs_tile (segs @ [hide_seg h d])" "segs_len (segs @ [hide_seg h d]) = d"
    using Cons.prems hide_segs[of segs d "[h]"] by simp_all
  note IH = Cons.IH[OF this]
  show ?case
  proof (cases "hrDoc h < till")
    case True
    then have "flush_hidden till d (segs @ [hide_seg h d]) (hrDoc h + hrLength h) hs = (segs', doc', hs')"
      using Cons.prems(3) by simp
    then show ?thesis by (rule IH)
  next
    case False
    then show ?thesis using Cons.prems by simp
  qed
qed simp

lemma extend_last_seg:
  assumes "segs_tile segs" "extends_seg segs pr"
  shows "segs_tile (butlast segs @ [(last segs)\<lparr>pgLen := pgLen (last segs) + n, pgDLen := pgDLen (last segs) + n\<rparr>]) \<and>
    segs_len (butlast segs @ [(last segs)\<lparr>pgLen := pgLen (last segs) + n, pgDLen := pgDLen (last segs) + n\<rparr>]) = segs_len segs + n"
proof -
  obtain gs g where s: "segs = gs @ [g]" using assms(2) by (cases segs rule: rev_cases) (auto simp: extends_seg_def)
  show ?thesis using assms unfolding s by (simp add: segs_tile_snoc seg_kind_ok_def extends_seg_def)
qed

lemma segment_loop_tile:
  assumes "segs_tile segs" "segs_len segs = d"
  shows "segs_tile (segment_loop ps hs d doc segs) \<and> segs_len (segment_loop ps hs d doc segs) = d + recsLen (map fst ps)"
  using assms
proof (induction ps arbitrary: hs d doc segs)
  case Nil
  then show ?case using hide_segs by simp
next
  case (Cons x ps)
  obtain p pr where x: "x = (p, pr)" by fastforce
  show ?case
  proof (cases "poDoc pr < 0")
    case True
    let ?g = "\<lparr>pgDoc = doc, pgDisp = d, pgLen = 0, pgDLen = Length p, pgGroup = poGroup pr, pgState = poState pr,
      pgHide = False, pgRestore = True, pgHiddenLines = 0\<rparr>"
    have "segs_tile (segs @ [?g])" "segs_len (segs @ [?g]) = d + Length p"
      using Cons.prems by (simp_all add: segs_tile_snoc seg_kind_ok_def)
    from Cons.IH[OF this] show ?thesis using True by (simp add: x add.assoc)
  next
    case False
    obtain segs1 doc1 hs1 where F: "flush_hidden (poDoc pr) d segs doc hs = (segs1, doc1, hs1)" by (metis prod_cases3)
    note S = flush_segs[OF Cons.prems F]
    let ?g = "\<lparr>pgDoc = poDoc pr, pgDisp = d, pgLen = Length p, pgDLen = Length p, pgGroup = poGroup pr,
      pgState = poState pr, pgHide = False, pgRestore = False, pgHiddenLines = 0\<rparr>"
    let ?n = "if extends_seg segs1 pr
             then butlast segs1 @ [(last segs1)\<lparr>pgLen := pgLen (last segs1) + Length p, pgDLen := pgDLen (last segs1) + Length p\<rparr>]
             else segs1 @ [?g]"
    have "segs_tile ?n \<and> segs_len ?n = d + Length p"
      using S extend_last_seg[of segs1 pr "Length p"] by (simp add: segs_tile_snoc seg_kind_ok_def)
    from Cons.IH[OF conjunct1[OF this] conjunct2[OF this]] show ?thesis using False F by (simp add: x add.assoc)
  qed
qed

section \<open>Provenance keeps step with the pieces\<close>

definition in_step :: "naive \<times> projOrigin list \<times> hiddenRun list \<Rightarrow> bool" where
  "in_step acc \<longleftrightarrow> (case acc of (cmp, prov, hidden) \<Rightarrow> length prov = length (nPieces cmp))"

lemma unapply_whole_length:
  "length (uaProv u) = length (uaPieces u) \<Longrightarrow>
   length (uaProv (unapply_whole s st owns ps off u)) = length (uaPieces (unapply_whole s st owns ps off u))"
  by (induction ps arbitrary: off u) (auto simp: keep_piece_def)

lemma keep_run_length:
  "length (uaProv (snd acc)) = length (uaPieces (snd acc)) \<Longrightarrow>
   length (uaProv (snd (foldl (keep_run p pr) acc rs))) = length (uaPieces (snd (foldl (keep_run p pr) acc rs)))"
  by (induction rs arbitrary: acc) (auto simp: keep_run_def keep_piece_def split: prod.splits)

lemma unapply_keep_newlines_length:
  "length (uaProv u) = length (uaPieces u) \<Longrightarrow>
   length (uaProv (unapply_keep_newlines s st owns ps off u)) = length (uaPieces (unapply_keep_newlines s st owns ps off u))"
proof (induction ps arbitrary: off u)
  case (Cons x ps)
  obtain p pr where x: "x = (p, pr)" by fastforce
  let ?u = "u\<lparr>uaAt := (if uaAt u < 0 then off else uaAt u), uaRemoved := True\<rparr>"
  obtain off' u' where F: "foldl (keep_run p pr) (off, ?u) (nl_runs 0 (rec_text st p)) = (off', u')" by fastforce
  have "length (uaProv u') = length (uaPieces u')"
    using keep_run_length[of "(off, ?u)" p pr "nl_runs 0 (rec_text st p)"] Cons.prems F by simp
  then show ?case using Cons F by (simp add: x keep_piece_def Let_def)
qed simp

lemma unapply_length:
  "length prov = length (nPieces cmp) \<Longrightarrow>
   length (uaProv (unapplyRemoveIns s cmp prov ins gid)) = length (uaPieces (unapplyRemoveIns s cmp prov ins gid))"
  by (simp add: unapplyRemoveIns_def Let_def unapply_whole_length unapply_keep_newlines_length)

lemma split_insert_length:
  assumes "locate ps pos = (i, off)" "recs \<noteq> []"
  shows "length (split_insert ps pos recs) = length ps + length recs + (if 0 < off then 1 else 0)"
proof -
  have i: "i \<le> length ps" "i = length ps \<Longrightarrow> off = 0"
    using assms(1) loc_le[of ps pos] by (auto simp: locate_loc split: if_splits)
  show ?thesis
  proof (cases "0 < off")
    case True
    then have "Suc i \<le> length ps" using i by (cases "i = length ps") auto
    then show ?thesis using assms True
      by (simp add: split_insert_def insertRec_def slice_insert_eq insert_run_eq Let_def)
  next
    case False
    then show ?thesis using assms i(1) by (simp add: split_insert_def insert_run_eq)
  qed
qed

lemma insertRecsProv_length:
  assumes "length prov = length (nPieces cmp)" "insertRecsProv cmp prov pos recs meta = (c, pv)"
  shows "length pv = length (nPieces c)"
proof (cases "recs = []")
  case False
  obtain i off where l: "locate (nPieces cmp) pos = (i, off)" by fastforce
  then have i: "i \<le> length prov" "i = length prov \<Longrightarrow> off = 0"
    using assms(1) loc_le[of "nPieces cmp" pos] by (auto simp: locate_loc split: if_splits)
  show ?thesis
    using assms False l i split_insert_length[OF l False]
    by (auto simp: insertRecsProv_def naive_insertRecs_def split_prov_def)
qed (use assms in \<open>simp add: insertRecsProv_def\<close>)

lemma project_step_in_step:
  assumes "in_step acc"
  shows "in_step (project_step s p df iv pr acc q)"
proof -
  obtain cmp prov hidden where a: "acc = (cmp, prov, hidden)" by (metis prod_cases3)
  define u where "u = unapplyRemoveIns s cmp prov (opIns q) (opGroup q)"
  have u: "length (uaProv u) = length (nPieces (cmp\<lparr>nPieces := uaPieces u\<rparr>))"
    using unapply_length[of prov cmp] assms by (simp add: u_def a in_step_def)
  have R: "in_step (case insertRecsProv (cmp\<lparr>nPieces := uaPieces u\<rparr>) (uaProv u) at recs meta of (c, pv) \<Rightarrow> (c, pv, h))" for at recs meta h
    using insertRecsProv_length[OF u] by (auto simp: in_step_def split: prod.split)
  show ?thesis using assms u R
    by (auto simp: project_step_def a u_def[symmetric] Let_def in_step_def[of "(_, _, _)"] simp del: naive_Len_def split: prod.split)
qed

lemma project_in_step: "in_step acc \<Longrightarrow> in_step (foldl (project_step s p df iv pr) acc qs)"
  by (induction qs arbitrary: acc) (simp_all add: project_step_in_step)

lemma view_prov_length: "length (fst (foldl (view_prov_step s ix) acc ps)) = length (fst acc) + length ps"
  by (induction ps arbitrary: acc) (auto simp: view_prov_step_def split: prod.splits)

lemma project_segments:
  assumes "HasDecisions s"
  shows "segs_tile (dpSegments (project s p pr)) \<and> segs_len (dpSegments (project s p pr)) = recsLen (nPieces (dpComp (project s p pr)))"
proof -
  let ?prov = "fst (foldl (view_prov_step s (newOriginIndex (allOrigins s))) ([], 0) (nPieces (view_of s)))"
  let ?iv = "if p \<noteq> Annotated then invalidGroups s else []"
  obtain cmp prov1 hidden where F: "foldl (project_step s p (deferredDeletions s p) ?iv pr) (view_of s, ?prov, []) (rev (sJournal s)) = (cmp, prov1, hidden)"
    by (metis prod_cases3)
  have "in_step (view_of s, ?prov, [])" by (simp add: in_step_def view_prov_length)
  from project_in_step[OF this, of s p "deferredDeletions s p" ?iv pr "rev (sJournal s)"]
  have l: "length prov1 = length (nPieces cmp)" by (simp add: F in_step_def)
  have d: "dpComp (project s p pr) = cmp" "dpSegments (project s p pr) = buildSegments (nPieces cmp) prov1 hidden"
    using F assms by (simp_all add: project_def Let_def)
  show ?thesis
    using segment_loop_tile[of "[]" 0 "zip (nPieces cmp) prov1" "merge_hidden hidden" 0] l by (simp add: d buildSegments_def)
qed

end
