(* ===== verification/Pendings.thy ===== *)
theory Pendings
  imports Reach
begin

text \<open>
  Lemmas about the review of pending change sets (\<open>internal/piecetable/groups.go\<close>): which sets the
  overlap listing names, and what a decision leaves of everything else that is derived.
\<close>

section \<open>Overlaps\<close>

lemma hunkOverlap_commute: "hunkOverlap a b = hunkOverlap b a"
  by (auto simp: hunkOverlap_def Let_def)

text \<open>The sets named beside a set.\<close>

definition names :: "(nat \<times> Overlap list) list \<Rightarrow> nat \<Rightarrow> nat set" where
  "names m g = (case map_of m g of None \<Rightarrow> {} | Some vs \<Rightarrow> ovGroup ` set vs)"

lemma addOverlap_groups: "ovGroup ` set (addOverlap vs v) = insert (ovGroup v) (ovGroup ` set vs)"
  by (induction vs) auto

lemma names_note: "names (note_overlap g v m) h = (if h = g then insert (ovGroup v) (names m g) else names m h)"
  by (auto simp: names_def note_overlap_def update_conv' addOverlap_groups split: option.splits)

definition spans_meet :: "member_span \<Rightarrow> member_span \<Rightarrow> bool" where
  "spans_meet a b \<longleftrightarrow> fst a \<noteq> fst b \<and> hunkOverlap (snd (snd a)) (snd (snd b)) \<noteq> None"

lemma names_pair:
  "h \<in> names (pair_overlap a m b) g \<longleftrightarrow> h \<in> names m g \<or> (spans_meet a b \<and> (fst a = g \<and> fst b = h \<or> fst a = h \<and> fst b = g))"
  by (cases a; cases b) (auto simp: pair_overlap_def spans_meet_def names_note split: option.splits)

lemma names_pairs:
  "h \<in> names (foldl (pair_overlap a) m bs) g \<longleftrightarrow>
     h \<in> names m g \<or> (\<exists>b \<in> set bs. spans_meet a b \<and> (fst a = g \<and> fst b = h \<or> fst a = h \<and> fst b = g))"
  by (induction bs arbitrary: m) (auto simp: names_pair)

lemma spans_meet_commute: "spans_meet a b = spans_meet b a"
  by (auto simp: spans_meet_def hunkOverlap_commute)

lemma names_all:
  "h \<in> names (all_overlaps spans m) g \<longleftrightarrow>
     h \<in> names m g \<or> (\<exists>a \<in> set spans. \<exists>b \<in> set spans. spans_meet a b \<and> fst a = g \<and> fst b = h)"
proof (induction spans arbitrary: m)
  case (Cons x rest)
  have i: "\<not> spans_meet x x" by (simp add: spans_meet_def)
  show ?case unfolding all_overlaps.simps Cons.IH names_pairs using i spans_meet_commute by auto
qed simp

lemma names_sorted: "names (map (\<lambda>(g, vs). (g, sort_key f vs)) m) g = names m g"
  by (induction m) (auto simp: names_def split: prod.splits)

section \<open>What a decision leaves alone\<close>

text \<open>The live ops, the origins of pieces and the projection of a member do not depend on decisions.\<close>

definition same_text :: "session \<Rightarrow> session \<Rightarrow> bool" where
  "same_text s s' \<longleftrightarrow> (\<exists>gs. s' = s\<lparr>sGroupState := gs\<rparr>)"

lemma same_text_refl [simp]: "same_text s s"
  unfolding same_text_def by (rule exI[of _ "sGroupState s"]) simp

lemma same_text_trans: "same_text a b \<Longrightarrow> same_text b c \<Longrightarrow> same_text a c"
  by (auto simp: same_text_def)

lemma same_text_Mark [simp]: "same_text s (MarkGroup s g st)"
  by (auto simp: MarkGroup_def same_text_def)

lemma live_decide [simp]: "live (s\<lparr>sGroupState := gs\<rparr>) = live s"
  by (intro ext) (simp add: live_def)

lemma liveReverser_decide [simp]: "liveReverser (s\<lparr>sGroupState := gs\<rparr>) = liveReverser s"
  by (intro ext) (simp add: liveReverser_def)

lemma carry_decide [simp]: "carry (s\<lparr>sGroupState := gs\<rparr>) = carry s"
  by (intro ext) (simp only: carry_def liveReverser_decide)

lemma damages_decide [simp]: "damages (s\<lparr>sGroupState := gs\<rparr>) = damages s"
  by (intro ext) (simp only: damages_def live_decide)

lemma rebase_walk_decide [simp]: "rebase_walk (s\<lparr>sGroupState := gs\<rparr>) lo hi qs = rebase_walk s lo hi qs"
  by (induction qs arbitrary: lo hi) (simp_all add: Let_def cong: option.case_cong)

lemma rebase_decide [simp]: "rebase (s\<lparr>sGroupState := gs\<rparr>) p q v = rebase s p q v"
  by (simp add: rebase_def)

lemma recsText_decide [simp]: "recsText (s\<lparr>sGroupState := gs\<rparr>) = recsText s"
  by (intro ext) (simp add: recsText_def)

lemma member_runs_decide [simp]: "member_runs (s\<lparr>sGroupState := gs\<rparr>) q ps pos st run hs = member_runs s q ps pos st run hs"
  by (induction ps arbitrary: pos st run hs) (simp_all add: compactedOwns_def flush_run_def)

lemma projectMember_decide [simp]: "projectMember (s\<lparr>sGroupState := gs\<rparr>) q = projectMember s q"
  by (simp add: projectMember_def Let_def split: prod.splits)

lemma live_member_decide [simp]: "live_member (s\<lparr>sGroupState := gs\<rparr>) g q = live_member s g q"
  by (simp add: live_member_def live_edit_def)

text \<open>The hunks of a rendered set are those of its live members, in journal order.\<close>

lemma project_one_hunks:
  "gdHunks (foldl (project_one s) d qs) = gdHunks d @ concat (map (projectMember s) (filter (live_member s (gID (gdGroup d))) qs)) \<and>
   gdGroup (foldl (project_one s) d qs) = gdGroup d"
  by (induction qs arbitrary: d) (auto simp: project_one_def Let_def)

lemma projectGroup_hunks:
  "gdHunks (projectGroup s g) = concat (map (projectMember s) (filter (live_member s (gID g)) (sJournal s)))"
  "gdGroup (projectGroup s g) = g"
  using project_one_hunks[of s "\<lparr>gdGroup = g, gdHunks = [], gdMoved = 0, gdMovedHunks = []\<rparr>" "sJournal s"]
  by (simp_all add: projectGroup_def)

section \<open>The listing\<close>

lemma GroupState_Mark: "GroupState_of (MarkGroup s g st) h = (if h = g then st else GroupState_of s h)"
  by (auto simp: GroupState_of_def MarkGroup_def update_conv' delete_conv')

lemma count_member_fields [simp]: "gID (count_member s q g) = gID g" "gState (count_member s q g) = gState g"
  "live s (opSeq q) \<Longrightarrow> gOps (count_member s q g) = gOps g + 1" "gOps g \<le> gOps (count_member s q g)"
  by (simp_all add: count_member_def Let_def)

lemma upd_group_mem: "g \<in> set (upd_group f i gs) \<Longrightarrow> g \<in> set gs \<or> (\<exists>x \<in> set gs. g = f x)"
  by (induction gs) (auto split: if_splits)

lemma upd_group_keeps:
  assumes "\<exists>g \<in> set gs. P g" "\<And>g. P g \<Longrightarrow> P (f g)"
  shows "\<exists>g \<in> set (upd_group f i gs). P g"
  using assms(1) by (induction gs) (auto dest: assms(2))

lemma upd_group_makes:
  assumes "list_ex (\<lambda>g. gID g = i) gs" "\<And>g. gID g = i \<Longrightarrow> P (f g)"
  shows "\<exists>g \<in> set (upd_group f i gs). P g"
  using assms(1) by (induction gs) (auto intro: assms(2))

lemma listing_states:
  assumes "\<forall>g \<in> set gs. gState g = GroupState_of s (gID g)"
  shows "\<forall>g \<in> set (foldl (addMember s) gs qs). gState g = GroupState_of s (gID g)"
  using assms
proof (induction qs arbitrary: gs)
  case (Cons q qs)
  have "\<forall>g \<in> set (addMember s gs q). gState g = GroupState_of s (gID g)"
    using Cons.prems by (auto simp: addMember_def new_group_def dest!: upd_group_mem)
  then show ?case using Cons.IH by simp
qed simp

lemma addMember_keeps:
  assumes "\<exists>g \<in> set gs. gID g = i \<and> gOps g \<noteq> 0"
  shows "\<exists>g \<in> set (foldl (addMember s) gs qs). gID g = i \<and> gOps g \<noteq> 0"
  using assms
proof (induction qs arbitrary: gs)
  case (Cons q qs)
  have "gOps g \<noteq> 0 \<Longrightarrow> gOps (count_member s q g) \<noteq> 0" for g using count_member_fields(4)[of g s q] by linarith
  then have "\<exists>g \<in> set (upd_group (count_member s q) (opGroup q) gs). gID g = i \<and> gOps g \<noteq> 0"
    by (intro upd_group_keeps[OF Cons.prems]) auto
  then have "\<exists>g \<in> set (addMember s gs q). gID g = i \<and> gOps g \<noteq> 0"
    using Cons.prems by (auto simp: addMember_def)
  then show ?case using Cons.IH by simp
qed simp

lemma listing_counts:
  assumes "q \<in> set qs" "live_edit s q"
  shows "\<exists>g \<in> set (foldl (addMember s) gs qs). gID g = opGroup q \<and> gOps g \<noteq> 0"
  using assms(1)
proof (induction qs arbitrary: gs)
  case (Cons x qs)
  show ?case
  proof (cases "x = q")
    case True
    have "\<exists>g \<in> set (addMember s gs q). gID g = opGroup q \<and> gOps g \<noteq> 0"
      using assms(2) upd_group_makes[of "opGroup q" gs "\<lambda>g. gID g = opGroup q \<and> gOps g \<noteq> 0" "count_member s q"]
      by (auto simp: addMember_def live_edit_def new_group_def)
    then show ?thesis using True addMember_keeps by simp
  next
    case False
    then show ?thesis using Cons by simp
  qed
qed simp

lemma markInvalid_fields:
  "map (\<lambda>g. (gID g, gState g, gOps g)) (markInvalid s gs) = map (\<lambda>g. (gID g, gState g, gOps g)) gs"
  by (auto simp: markInvalid_def split: prod.splits option.splits)

lemma Groups_fields:
  "(\<lambda>g. (gID g, gState g, gOps g)) ` set (Groups s) = (\<lambda>g. (gID g, gState g, gOps g)) ` set (foldl (addMember s) [] (sJournal s))"
proof -
  let ?f = "\<lambda>g. (gID g, gState g, gOps g)" and ?l = "sort_key gFirst (foldl (addMember s) [] (sJournal s))"
  have "?f ` set (Groups s) = set (map ?f (markInvalid s ?l))" by (simp add: Groups_def)
  also have "\<dots> = ?f ` set ?l" by (simp only: markInvalid_fields list.set_map)
  finally show ?thesis by simp
qed

lemma Groups_state: "g \<in> set (Groups s) \<Longrightarrow> gState g = GroupState_of s (gID g)"
proof -
  assume "g \<in> set (Groups s)"
  then have "(gID g, gState g, gOps g) \<in> (\<lambda>g. (gID g, gState g, gOps g)) ` set (foldl (addMember s) [] (sJournal s))"
    using Groups_fields[of s] by blast
  then show ?thesis using listing_states[of "[]" s "sJournal s"] by auto
qed

lemma Groups_has:
  assumes "q \<in> set (sJournal s)" "live_edit s q"
  shows "\<exists>g \<in> set (Groups s). gID g = opGroup q \<and> gOps g \<noteq> 0"
proof -
  obtain g where "g \<in> set (foldl (addMember s) [] (sJournal s))" "gID g = opGroup q" "gOps g \<noteq> 0"
    using listing_counts[OF assms, of "[]"] by blast
  then have "(opGroup q, gState g, gOps g) \<in> (\<lambda>g. (gID g, gState g, gOps g)) ` set (Groups s)"
    unfolding Groups_fields by force
  then show ?thesis using \<open>gOps g \<noteq> 0\<close> by auto
qed

text \<open>Accepting a list of sets.\<close>

lemma accept_all:
  "same_text s (foldl (\<lambda>s g. AcceptGroup s (gID g)) s gs) \<and>
   (\<forall>h. GroupState_of (foldl (\<lambda>s g. AcceptGroup s (gID g)) s gs) h = (if h \<in> gID ` set gs then Accepted else GroupState_of s h))"
proof (induction gs arbitrary: s)
  case (Cons g gs)
  have "same_text s (AcceptGroup s (gID g))" by (simp add: AcceptGroup_def)
  from same_text_trans[OF this conjunct1[OF Cons.IH]] conjunct2[OF Cons.IH, of "AcceptGroup s (gID g)"] show ?case
    by (simp add: AcceptGroup_def GroupState_Mark)
qed simp

lemma nothing_pending:
  assumes "same_text s s'" "\<forall>h. GroupState_of s' h = (if h \<in> gID ` set (Pending s) then Accepted else GroupState_of s h)"
  shows "Pending s' = []"
proof -
  obtain gs where s': "s' = s\<lparr>sGroupState := gs\<rparr>" using assms(1) by (auto simp: same_text_def)
  have "gdHunks (projectGroup s' g) = []" if g: "g \<in> set (Groups s')" "undecided g" for g
  proof (rule ccontr)
    assume n: "gdHunks (projectGroup s' g) \<noteq> []"
    then obtain q where q: "q \<in> set (sJournal s)" "live_member s (gID g) q" by (fastforce simp: projectGroup_hunks s' filter_empty_conv)
    then obtain x where x: "x \<in> set (Groups s)" "gID x = gID g" "gOps x \<noteq> 0"
      using Groups_has[of q s] by (auto simp: live_member_def)
    have "GroupState_of s' (gID g) = Proposed" using Groups_state[OF g(1)] g(2) by (simp add: undecided_def)
    then have out: "gID g \<notin> gID ` set (Pending s)" "GroupState_of s (gID g) = Proposed" using assms(2) by (auto split: if_splits)
    have "undecided x" using Groups_state[OF x(1)] x out(2) by (simp add: undecided_def)
    moreover have "gdHunks (projectGroup s x) \<noteq> []" using n x(2) by (simp add: projectGroup_hunks s')
    ultimately have "x \<in> set (Pending s)" using x(1) by (force simp: Pending_def DiffPending_def projectGroup_hunks(2))
    then have "gID x \<in> gID ` set (Pending s)" by (rule imageI)
    then show False using out(1) x(2) by simp
  qed
  then show ?thesis by (auto simp: Pending_def DiffPending_def filter_empty_conv)
qed

end
