(* ===== verification/Cursors.thy ===== *)
theory Cursors
  imports DocBuf "HOL-Library.Multiset"
begin

text \<open>
  Cursor sets of \<open>internal/piecetable/cursor.go\<close>: sorted byte offsets shifted by edits, one at a time
  or a whole batch in one sweep, and what each shift does to every single cursor.
\<close>

section \<open>The code\<close>

definition NewCursorSet :: "int list \<Rightarrow> int list" where
  "NewCursorSet offsets = sort offsets"

definition cursor_Add :: "int list \<Rightarrow> int \<Rightarrow> int list" where
  "cursor_Add offs off = slice_insert 0 (SearchInts offs off) off offs"

definition cursor_Resolve :: "PieceBTree \<Rightarrow> int \<Rightarrow> int \<times> int" where
  "cursor_Resolve t cursor = tree_At t cursor"

definition ShiftInsert :: "int list \<Rightarrow> int \<Rightarrow> int \<Rightarrow> int list" where
  "ShiftInsert offs pos len =
     (let i = SearchInts offs pos in take i offs @ map (\<lambda>v. v + len) (drop i offs))"

definition ShiftDelete :: "int list \<Rightarrow> int \<Rightarrow> int \<Rightarrow> int list" where
  "ShiftDelete offs pos len =
     (let i = SearchInts offs pos; end = pos + len
      in take i offs @ map (\<lambda>v. if v < end then pos else v - len) (drop i offs))"

record Edit =
  edAt :: int
  edLength :: int

text \<open>The inner loop: the edits at or before a cursor, and the running total.\<close>

fun take_edits :: "int \<Rightarrow> Edit list \<Rightarrow> int \<Rightarrow> Edit list \<times> int" where
  "take_edits off [] cum = ([], cum)"
| "take_edits off (e # es) cum = (if edAt e \<le> off then take_edits off es (cum + edLength e) else (e # es, cum))"

fun batch_shift :: "int list \<Rightarrow> Edit list \<Rightarrow> int \<Rightarrow> int list" where
  "batch_shift [] es cum = []"
| "batch_shift (off # offs) es cum =
     (case take_edits off es cum of (es', cum') \<Rightarrow> (off + cum') # batch_shift offs es' cum')"

definition ApplyInsertsBatch :: "int list \<Rightarrow> Edit list \<Rightarrow> int list" where
  "ApplyInsertsBatch offs edits = (if edits = [] then offs else batch_shift offs (sort_key edAt edits) 0)"

section \<open>Every cursor on its own\<close>

lemma shift_pointwise:
  assumes "sorted offs"
  shows "take (SearchInts offs x) offs @ map f (drop (SearchInts offs x) offs) = map (\<lambda>v. if x \<le> v then f v else v) offs"
proof -
  let ?f = "\<lambda>v. if x \<le> v then f v else v"
  have "map ?f (takeWhile (\<lambda>v. v < x) offs) = takeWhile (\<lambda>v. v < x) offs"
    using split_at_search(3)[OF assms, of _ x] by (intro map_idI) fastforce
  moreover have "map ?f (dropWhile (\<lambda>v. v < x) offs) = map f (dropWhile (\<lambda>v. v < x) offs)"
    using split_at_search(4)[OF assms, of _ x] by simp
  moreover have "map ?f offs = map ?f (takeWhile (\<lambda>v. v < x) offs) @ map ?f (dropWhile (\<lambda>v. v < x) offs)"
    by (simp add: map_append[symmetric] del: map_append)
  ultimately show ?thesis by (simp add: split_at_search(1,2)[OF assms])
qed

lemma ShiftInsert_map: "sorted offs \<Longrightarrow> ShiftInsert offs pos len = map (\<lambda>v. if pos \<le> v then v + len else v) offs"
  by (simp add: ShiftInsert_def Let_def shift_pointwise)

lemma ShiftDelete_map:
  "sorted offs \<Longrightarrow> ShiftDelete offs pos len =
     map (\<lambda>v. if pos \<le> v then (if v < pos + len then pos else v - len) else v) offs"
  by (simp add: ShiftDelete_def Let_def shift_pointwise)

text \<open>The bytes a batch inserts at or before an offset.\<close>

definition inserted_before :: "Edit list \<Rightarrow> int \<Rightarrow> int" where
  "inserted_before es off = (\<Sum>e\<leftarrow>filter (\<lambda>e. edAt e \<le> off) es. edLength e)"

lemma inserted_before_sort: "inserted_before (sort_key edAt es) off = inserted_before es off"
proof -
  have "image_mset edLength (filter_mset (\<lambda>e. edAt e \<le> off) (mset (sort_key edAt es))) =
      image_mset edLength (filter_mset (\<lambda>e. edAt e \<le> off) (mset es))"
    by (simp only: mset_sort)
  then have "mset (map edLength (filter (\<lambda>e. edAt e \<le> off) (sort_key edAt es))) = mset (map edLength (filter (\<lambda>e. edAt e \<le> off) es))"
    by (simp only: mset_map mset_filter)
  then show ?thesis unfolding inserted_before_def by (metis sum_mset_sum_list)
qed

lemma take_edits_spec:
  assumes "sorted (map edAt es)"
  shows "take_edits off es cum = (filter (\<lambda>e. \<not> edAt e \<le> off) es, cum + inserted_before es off)"
  using assms
proof (induction es arbitrary: cum)
  case (Cons e es)
  have "\<not> edAt e \<le> off \<Longrightarrow> \<forall>x \<in> set es. \<not> edAt x \<le> off" using Cons.prems by auto
  then show ?case using Cons
    by (cases "edAt e \<le> off") (auto simp: inserted_before_def filter_id_conv filter_empty_conv)
qed (simp add: inserted_before_def)

lemma inserted_before_rest:
  assumes "a \<le> b"
  shows "inserted_before es a + inserted_before (filter (\<lambda>e. \<not> edAt e \<le> a) es) b = inserted_before es b"
  using assms by (induction es) (auto simp: inserted_before_def)

lemma batch_shift_spec:
  assumes "sorted offs" "sorted (map edAt es)"
  shows "batch_shift offs es cum = map (\<lambda>v. v + cum + inserted_before es v) offs"
  using assms
proof (induction offs arbitrary: es cum)
  case (Cons x xs)
  let ?r = "filter (\<lambda>e. \<not> edAt e \<le> x) es"
  have "sorted (map edAt ?r)" using Cons.prems(2) by (rule sorted_filter)
  then have "batch_shift xs ?r (cum + inserted_before es x) = map (\<lambda>v. v + (cum + inserted_before es x) + inserted_before ?r v) xs"
    using Cons by simp
  also have "\<dots> = map (\<lambda>v. v + cum + inserted_before es v) xs"
    using Cons.prems(1) inserted_before_rest[of x _ es] by (intro map_cong refl) fastforce
  finally show ?case using Cons.prems(2) by (simp add: take_edits_spec)
qed simp

end
