(* ===== verification/ReviewProps.thy ===== *)
theory ReviewProps
  imports SessionProps Compositions Pendings Cursors
begin

text \<open>
  Properties of what is derived from a session or rebuilt from it: snapshots, compaction, decisions,
  compositions under a policy, ownership runs, alignment segments, overlaps
  (\<open>internal/piecetable/snapshot.go\<close>, \<open>compact.go\<close>, \<open>groups.go\<close>, \<open>project.go\<close>).
\<close>

section \<open>Snapshots\<close>





section \<open>Compaction\<close>

text \<open>C5: compaction never changes the text, the journal or the decisions of a reachable session, for any
  save line, as long as the pieces it makes fit the records of the buffer.\<close>

theorem Compact_preserves:
  assumes "fresh_buffer b" "reachable b s" "\<forall>r \<in> set (compact_out s saved). pe_fits (sBuf s) r" "Compact s saved = (k, s')"
  shows "pe_text (sBuf s') = pe_text (sBuf s) \<and> sJournal s' = sJournal s \<and> sGroupState s' = sGroupState s \<and>
    pe_inv (sBuf s') \<and> pe_text (sBuf s') = replay (pe_Store (sBuf s')) (pe_text b) (sJournal s')"
proof -
  have t: "tl_inv s" using reachable_tl[OF assms(2,1)] by blast
  have "reachable b s'" using reachable.step[OF assms(2) CompactS[OF assms(3)]] assms(4) by simp
  then have "pe_text (sBuf s') = replay (pe_Store (sBuf s')) (pe_text b) (sJournal s')" "pe_inv (sBuf s')"
    using tl_invD(5,7)[OF conjunct1[OF reachable_tl[OF _ assms(1)]]] reachable_base[OF _ assms(1)] by simp_all
  then show ?thesis using Compact_law[OF t assms(3,4)] by blast
qed

text \<open>Two insertions by the user inside one transaction, the second right behind the first both in the
  document and in the user's store: two pieces that compaction makes one.\<close>

definition demo4 :: session where
  "demo4 = Insert (Insert (Begin (NewSession demo_buf)) User 0 [88]) User 1 [89]"

lemma demo4_reach: "reachable demo_buf demo4"
proof -
  let ?s0 = "Begin (NewSession demo_buf)" and ?s1 = "Insert (Begin (NewSession demo_buf)) User 0 [88]"
  have "case sBuf ?s0 of NaiveBuf n \<Rightarrow> True | DocBuf d \<Rightarrow> False" "case sBuf ?s1 of NaiveBuf n \<Rightarrow> True | DocBuf d \<Rightarrow> False"
    by code_simp+
  then have r: "room ?s0 User [88]" "room ?s1 User [89]"
    by (auto split: pieceEditor.splits intro!: room_naive simp: User_def)
  have 0: "reachable demo_buf ?s0" by (rule reachable.step[OF demo_reach(1) BeginS])
  have 1: "reachable demo_buf ?s1" by (rule reachable.step[OF 0 InsertS[OF r(1)]])
  show ?thesis unfolding demo4_def by (rule reachable.step[OF 1 InsertS[OF r(2)]])
qed

theorem Compact_preserves_witness: "fst (Compact demo4 0) = 1 \<and> pe_text (sBuf (snd (Compact demo4 0))) = pe_text (sBuf demo4)"
proof -
  have c: "case sBuf demo4 of NaiveBuf n \<Rightarrow> True | DocBuf d \<Rightarrow> False" "fst (Compact demo4 0) = 1"
    "list_all (\<lambda>r. 0 < Length r) (compact_out demo4 0)" by code_simp+
  then have "\<forall>r \<in> set (compact_out demo4 0). pe_fits (sBuf demo4) r"
    by (cases "sBuf demo4") (auto simp: list_all_iff naive_fits_def)
  from Compact_preserves[OF demo_fresh demo4_reach this prod.collapse[symmetric]] c(2) show ?thesis by simp
qed

text \<open>
  Properties of review: decisions about change sets, compositions under a policy, ownership runs,
  alignment segments, leases (\<open>internal/piecetable/groups.go\<close>, \<open>project.go\<close>).
\<close>

section \<open>Decisions\<close>

text \<open>Rejecting a set succeeds exactly when the journal has it and it is not rejected yet; it moves no
  byte, changes the state of no other set, and accepting it afterwards brings every other decision back.\<close>

theorem RejectGroup_pure:
  "case RejectGroup s g of (ok, s') \<Rightarrow>
     ok = (hasGroup s g \<and> GroupState_of s g \<noteq> Rejected) \<and> sBuf s' = sBuf s \<and> sJournal s' = sJournal s \<and>
     (\<forall>h. GroupState_of s' h = (if ok \<and> h = g then Rejected else GroupState_of s h)) \<and>
     (\<forall>h. GroupState_of (AcceptGroup s' g) h = (if h = g then Accepted else GroupState_of s h))"
  by (auto simp: RejectGroup_def AcceptGroup_def MarkGroup_def GroupState_of_def update_conv' delete_conv' split: prod.splits)

section \<open>Compositions\<close>

text \<open>The review view shows the document as it is, and without decisions so does every policy, with
  nothing hidden or restored.\<close>

theorem Annotated_is_document:
  assumes "fresh_buffer b" "reachable b s"
  shows "Text (Project s Annotated) = pe_text (sBuf s) \<and>
    (HasDecisions s \<or> Text (Project s p) = pe_text (sBuf s) \<and> dpSegments (Project s p) = [])"
proof -
  have t: "tl_inv s" using reachable_tl[OF assms(2,1)] by blast
  have "\<not> HasDecisions s \<Longrightarrow> dpComp (Project s p) = view_of s \<and> dpSegments (Project s p) = []"
    by (simp add: Project_def project_def projectNoDecisions_def)
  then show ?thesis using view_text[OF t] by (auto simp: Text_def Annotated_comp)
qed

theorem Annotated_is_document_witness: "Text (Project demo3 Annotated) = pe_text (sBuf demo3)"
  using Annotated_is_document[OF demo_fresh demo_reach(4)] by blast

text \<open>The ownership runs of the review view tile the whole document, each run non-empty, and each carries
  the state its set has now; text of no set is accepted.\<close>

theorem ownership_runs_tile:
  assumes "fresh_buffer b" "reachable b s"
  shows "runs_tile 0 (dpStates (Project s Annotated)) (pe_Len (sBuf s)) \<and>
    (\<forall>r \<in> set (dpStates (Project s Annotated)). srGroup r = 0 \<and> srState r = Accepted \<or> srState r = GroupState_of s (srGroup r))"
  using annotated_runs[OF conjunct1[OF reachable_tl[OF assms(2,1)]]] by (simp add: run_state_ok_def)

theorem ownership_runs_tile_witness: "runs_tile 0 (dpStates (Project demo3 Annotated)) (pe_Len (sBuf demo3))"
  using ownership_runs_tile[OF demo_fresh demo_reach(4)] by blast

section \<open>Leases\<close>



section \<open>Pending sets\<close>

text \<open>Accepting everything pending accepts exactly the pending sets, touches neither the document nor the
  journal nor any other decision, and leaves nothing pending.\<close>

theorem AcceptPending_settles:
  "case AcceptPending s of (n, s') \<Rightarrow>
     n = length (Pending s) \<and> sBuf s' = sBuf s \<and> sJournal s' = sJournal s \<and> Pending s' = [] \<and>
     (\<forall>h. GroupState_of s' h = (if h \<in> gID ` set (Pending s) then Accepted else GroupState_of s h))"
proof -
  let ?s = "foldl (\<lambda>s g. AcceptGroup s (gID g)) s (Pending s)"
  note A = accept_all[of s "Pending s"]
  have "sBuf ?s = sBuf s" "sJournal ?s = sJournal s" using A by (auto simp: same_text_def)
  moreover have "Pending ?s = []" using nothing_pending[of s ?s] A by blast
  ultimately show ?thesis using A by (simp add: AcceptPending_def Let_def)
qed

text \<open>The overlap listing names set \<open>h\<close> beside set \<open>g\<close> exactly when a member of each, live and still
  standing in the document, cover a common byte or one stands strictly inside the other; the relation is
  symmetric and no set overlaps itself.\<close>

theorem PendingOverlaps_exact:
  "(h \<in> names (PendingOverlaps s) g) = (\<exists>a \<in> set (member_spans s). \<exists>b \<in> set (member_spans s).
       fst a = g \<and> fst b = h \<and> g \<noteq> h \<and> hunkOverlap (snd (snd a)) (snd (snd b)) \<noteq> None) \<and>
   (h \<in> names (PendingOverlaps s) g) = (g \<in> names (PendingOverlaps s) h)"
proof -
  have e: "(h \<in> names (PendingOverlaps s) g) = (\<exists>a \<in> set (member_spans s). \<exists>b \<in> set (member_spans s). spans_meet a b \<and> fst a = g \<and> fst b = h)" for g h
    unfolding PendingOverlaps_def names_sorted names_all by (simp add: names_def)
  have "(h \<in> names (PendingOverlaps s) g) = (g \<in> names (PendingOverlaps s) h)"
    unfolding e using spans_meet_commute by blast
  moreover have "(\<exists>a \<in> S. \<exists>b \<in> S. spans_meet a b \<and> fst a = g \<and> fst b = h) = (\<exists>a \<in> S. \<exists>b \<in> S.
       fst a = g \<and> fst b = h \<and> g \<noteq> h \<and> hunkOverlap (snd (snd a)) (snd (snd b)) \<noteq> None)" for S
    unfolding spans_meet_def by blast
  ultimately show ?thesis unfolding e by simp
qed

section \<open>Alignment\<close>

text \<open>Under every policy the alignment segments of a session with decisions tile the composition: each
  starts where the one before ended, a hidden segment shows nothing, a restored one stands for no session
  byte, and any other shows as many bytes as it stands for.\<close>

theorem segments_tile_composition:
  assumes "HasDecisions s"
  shows "segs_tile (dpSegments (Project s p)) \<and> segs_len (dpSegments (Project s p)) = naive_Len (dpComp (Project s p))"
  using project_segments[OF assms, of p None] by (simp add: Project_def naive_Len_def naive_Len_loop_eq)

theorem segments_tile_composition_witness: "segs_len (dpSegments (Project (MarkGroup demo3 1 Proposed) AcceptedOnly)) = 6"
proof -
  have "HasDecisions (MarkGroup demo3 1 Proposed) \<and> naive_Len (dpComp (Project (MarkGroup demo3 1 Proposed) AcceptedOnly)) = 6"
    by code_simp
  then show ?thesis using segments_tile_composition[of "MarkGroup demo3 1 Proposed" AcceptedOnly] by simp
qed

section \<open>Cursors\<close>

text \<open>Shifting a sorted cursor set by a whole batch of insertions moves every cursor by the bytes
  inserted at or before it, whatever order the edits come in.\<close>

theorem batch_cursors_pointwise:
  assumes "sorted offs"
  shows "ApplyInsertsBatch offs edits = map (\<lambda>v. v + (\<Sum>e\<leftarrow>filter (\<lambda>e. edAt e \<le> v) edits. edLength e)) offs"
proof (cases "edits = []")
  case False
  have "sorted (map edAt (sort_key edAt edits))" by simp
  from batch_shift_spec[OF assms this, of 0] False show ?thesis
    by (simp add: ApplyInsertsBatch_def inserted_before_sort) (simp add: inserted_before_def)
qed (simp add: ApplyInsertsBatch_def)

theorem batch_cursors_pointwise_witness:
  "ApplyInsertsBatch [1, 4, 9] [\<lparr>edAt = 5, edLength = 2\<rparr>, \<lparr>edAt = 1, edLength = 3\<rparr>] = [4, 7, 14]"
  using batch_cursors_pointwise[of "[1, 4, 9]" "[\<lparr>edAt = 5, edLength = 2\<rparr>, \<lparr>edAt = 1, edLength = 3\<rparr>]"] by simp

text \<open>C18: cursors stay on their bytes: after an insertion every cursor of a sorted set reads the byte it read
  before, and after a deletion so does every cursor outside the deleted range, the others standing where
  it was; the set stays sorted.\<close>

theorem cursors_track_bytes:
  fixes doc t :: "byte list"
  assumes "sorted offs" "0 \<le> pos" "pos \<le> int (length doc)" "0 \<le> n" "pos + n \<le> int (length doc)"
    "i < length offs" "0 \<le> offs ! i" "offs ! i < int (length doc)"
  shows "put_at pos t doc ! nat (ShiftInsert offs pos (int (length t)) ! i) = doc ! nat (offs ! i) \<and>
    (if pos \<le> offs ! i \<and> offs ! i < pos + n then ShiftDelete offs pos n ! i = pos
     else cut_range pos n doc ! nat (ShiftDelete offs pos n ! i) = doc ! nat (offs ! i)) \<and>
    sorted (ShiftInsert offs pos (int (length t))) \<and> sorted (ShiftDelete offs pos n)"
proof -
  let ?v = "offs ! i"
  have I: "ShiftInsert offs pos (int (length t)) ! i = (if pos \<le> ?v then ?v + int (length t) else ?v)"
    using assms(6) by (simp add: ShiftInsert_map[OF assms(1)])
  have D: "ShiftDelete offs pos n ! i = (if ?v < pos then ?v else if ?v < pos + n then pos else ?v - n)"
    using assms(6) by (simp add: ShiftDelete_map[OF assms(1)])
  have "put_at pos t doc ! nat (ShiftInsert offs pos (int (length t)) ! i) = doc ! nat ?v"
    using assms by (auto simp: I put_at_def nth_append nat_add_distrib)
  moreover have "\<not> (pos \<le> ?v \<and> ?v < pos + n) \<Longrightarrow> cut_range pos n doc ! nat (ShiftDelete offs pos n ! i) = doc ! nat ?v"
    using assms by (auto simp: D cut_range_def nth_append nat_diff_distrib min_def nat_add_distrib)
  moreover have "sorted (ShiftInsert offs pos (int (length t)))" "sorted (ShiftDelete offs pos n)"
    using assms(1,4) by (auto simp: ShiftInsert_map ShiftDelete_map sorted_map intro: sorted_wrt_mono_rel[OF _ assms(1)])
  ultimately show ?thesis using D by auto
qed

theorem cursors_track_bytes_witness:
  "cut_range 1 2 [97, 98, 99, 100 :: byte] ! nat (ShiftDelete [0, 3] 1 2 ! 1) = 100"
  using cursors_track_bytes[of "[0, 3]" 1 "[97, 98, 99, 100]" 2 1 "[]"] by simp

end
