(* ===== verification/Divergences.thy ===== *)
theory Divergences
  imports SnapshotState Projection
begin

text \<open>
  Runs of the model on which \<open>internal/piecetable\<close> does something else than its comments promise, each
  evaluated by the kernel. The properties of the other theories exclude these inputs by a hypothesis or
  do not speak of them.
\<close>

definition six :: session where
  "six = NewSession (NaiveBuf (NewNaive [1, 2, 3, 4, 5, 6]))"

section \<open>A restored deletion lands in the wrong place\<close>

text \<open>Set 1 deletes one byte, set 2 inserts before it; both are undecided. The saved composition un-applies
  the insertion first and then restores the deleted byte where the live document has it, one byte too far
  right in the composition: what would be written was never anyone's text.\<close>

definition two_proposed :: session where
  "two_proposed = MarkGroup (Insert (MarkGroup (Delete six Agent 3 1) 1 Proposed) Agent 0 [7]) 2 Proposed"

lemma project_misplaces_restored:
  "Text (Project six AcceptedOnly) = [1, 2, 3, 4, 5, 6] \<and> Text (Project two_proposed AcceptedOnly) = [1, 2, 3, 5, 4, 6]"
  by code_simp

section \<open>Provenance out of step with the pieces\<close>

text \<open>Restoring into the middle of a piece writes the piece's two halves side by side in the provenance,
  while the pieces have the restored record between them: the restored record carries the right half's
  origin.\<close>

lemma restored_provenance_swapped:
  "insertRecsProv (NewNaive [1, 2, 3, 4]) [\<lparr>poDoc = 0, poGroup = 0, poState = Accepted\<rparr>] 1 [piece 0 2 1]
     \<lparr>poDoc = - 1, poGroup = 7, poState = Proposed\<rparr> =
   (\<lparr>nStore = NewStore [1, 2, 3, 4], nPieces = [piece 0 0 1, piece 0 2 1, piece 0 1 3]\<rparr>,
    [\<lparr>poDoc = 0, poGroup = 0, poState = Accepted\<rparr>, \<lparr>poDoc = 1, poGroup = 0, poState = Accepted\<rparr>,
     \<lparr>poDoc = - 1, poGroup = 7, poState = Proposed\<rparr>])"
  by code_simp

section \<open>An insertion taken for a reversal\<close>

text \<open>An ordinary op has \<open>Undoes\<close> zero, which is also the version of the first op. When the first op is a
  deletion starting at a point, the next insertion there is taken for its reversal and the point stays
  left of it; behind any other op the same edits carry the point to the right.\<close>

lemma carry_mistakes_first_op:
  "rebase (Insert (Delete six User 0 2) User 0 [9]) 0 0 0 = (0, 0, 0, True) \<and>
   rebase (Insert (Delete (Insert six User 6 [8]) User 0 2) User 0 [9]) 0 0 1 = (1, 1, 0, True)"
  by code_simp

section \<open>An empty probe is damaged\<close>

text \<open>The user deletes across the start of the agent's text. Two of its bytes survive, but the empty probe
  at its start lies strictly inside the deletion, so the member projects to nothing.\<close>

definition cut_across :: session where
  "cut_across = Delete (Insert six Agent 3 [11, 12, 13, 14]) User 2 3"

lemma probe_damaged:
  "pe_text (sBuf cut_across) = [1, 2, 13, 14, 4, 5, 6] \<and> projectMember cut_across (sJournal cut_across ! 0) = []"
  by code_simp

section \<open>A version past the signed range\<close>

text \<open>\<open>int(base)\<close> of a version from \<open>2^63\<close> is negative, so the guard lets it pass and the slice of the journal
  panics.\<close>

lemma huge_version_panics: "rebase_panics six (2 ^ 63)" "\<not> rebase_panics six 5"
  by (simp_all add: rebase_panics_def six_def NewSession_def int_of_version_def)

end
