(* ===== verification/LogCodec.thy ===== *)
theory LogCodec
  imports Codec
begin

text \<open>
  The on-disk op log (\<open>internal/journal/journal.go\<close>): the encoder and decoder with their sticky error, the
  seven record kinds, and the header body. Strings and blobs are byte lists; fixed-width integers are
  words; enumerations are the bytes that carry them. A record interface that is nil, or holds a nil
  pointer, is \<open>None\<close>.
\<close>

unbundle bit_operations_syntax

section \<open>Records\<close>

record Encoding =
  ecKind :: byte
  ecCRLF :: bool
  ecBOM :: bool

definition no_encoding :: Encoding where
  "no_encoding = \<lparr>ecKind = 0, ecCRLF = False, ecBOM = False\<rparr>"

record Base =
  baPath :: "byte list"
  baHash :: "byte list"
  baBytes :: "byte list"
  baEncoding :: Encoding

record StoreAppend =
  saAuthor :: byte
  saStart :: "64 word"
  saBlob :: "byte list"

record Piece =
  pcBuf :: byte
  pcStart :: "64 word"
  pcLength :: "64 word"

record LogOp =
  loSeq :: "64 word"
  loAuthor :: byte
  loPos :: "64 word"
  loDel :: "Piece list"
  loIns :: "Piece list"
  loUndoes :: "64 word"
  loGroup :: "64 word"
  loKind :: byte

record Decision =
  deGroup :: "64 word"
  deState :: byte

record AuthorRow =
  auID :: byte
  auIdentity :: "byte list"
  auName :: "byte list"
  auKind :: byte
  auTask :: "byte list"

record Written =
  wrPath :: "byte list"
  wrHash :: "byte list"
  wrVersion :: "64 word"
  wrEncoding :: Encoding

datatype Record = RBase Base | RStore StoreAppend | ROp LogOp | RDecision Decision
  | RAuthor AuthorRow | RSession "byte list" | RWritten Written

fun recordKind :: "Record \<Rightarrow> byte" where
  "recordKind (RBase _) = 1"
| "recordKind (RStore _) = 2"
| "recordKind (ROp _) = 3"
| "recordKind (RDecision _) = 4"
| "recordKind (RAuthor _) = 5"
| "recordKind (RSession _) = 6"
| "recordKind (RWritten _) = 7"

record Header =
  hdRoot :: "byte list"
  hdIdentity :: "byte list"

definition MaxHeaderBytes :: nat where "MaxHeaderBytes = 2 ^ 20"
definition MaxStringBytes :: nat where "MaxStringBytes = 2 ^ 20"
definition MaxBlobBytes :: nat where "MaxBlobBytes = 2 ^ 30"
definition MaxRecs :: nat where "MaxRecs = 2 ^ 20"
definition MaxRecordBytes :: nat where "MaxRecordBytes = 2 ^ 30"
definition pieceBytes :: nat where "pieceBytes = 17"

section \<open>The encoder\<close>

datatype enc_error = NilRecord | TooManyItems nat | StringTooLong nat | BlobTooLong nat
  | HeaderTooLong nat | RecordTooLong nat

record encoder =
  enB :: "byte list"
  enErr :: "enc_error option"

definition new_encoder :: encoder where
  "new_encoder = \<lparr>enB = [], enErr = None\<rparr>"

definition enc_put :: "byte list \<Rightarrow> encoder \<Rightarrow> encoder" where
  "enc_put bs e = e\<lparr>enB := enB e @ bs\<rparr>"

definition enc_u8 :: "byte \<Rightarrow> encoder \<Rightarrow> encoder" where
  "enc_u8 v e = enc_put [v] e"

definition enc_u32 :: "32 word \<Rightarrow> encoder \<Rightarrow> encoder" where
  "enc_u32 v e = enc_put (le_bytes 4 (ucast v)) e"

definition enc_u64 :: "64 word \<Rightarrow> encoder \<Rightarrow> encoder" where
  "enc_u64 v e = enc_put (le_bytes 8 v) e"

definition enc_count :: "nat \<Rightarrow> encoder \<Rightarrow> encoder" where
  "enc_count n e =
     (if enErr e \<noteq> None then e
      else if MaxRecs < n then e\<lparr>enErr := Some (TooManyItems n)\<rparr>
      else enc_u32 (word_of_nat n) e)"

definition enc_piece :: "Piece \<Rightarrow> encoder \<Rightarrow> encoder" where
  "enc_piece p e = enc_u64 (pcLength p) (enc_u64 (pcStart p) (enc_u8 (pcBuf p) e))"

definition enc_str :: "byte list \<Rightarrow> encoder \<Rightarrow> encoder" where
  "enc_str s e =
     (if enErr e \<noteq> None then e
      else if MaxStringBytes < length s then e\<lparr>enErr := Some (StringTooLong (length s))\<rparr>
      else enc_put s (enc_u32 (word_of_nat (length s)) e))"

definition enc_blob :: "byte list \<Rightarrow> encoder \<Rightarrow> encoder" where
  "enc_blob s e =
     (if enErr e \<noteq> None then e
      else if MaxBlobBytes < length s then e\<lparr>enErr := Some (BlobTooLong (length s))\<rparr>
      else enc_put s (enc_u64 (word_of_nat (length s)) e))"

definition encoding_flags :: "Encoding \<Rightarrow> byte" where
  "encoding_flags x = (if ecCRLF x then 1 else 0) OR (if ecBOM x then 2 else 0)"

definition enc_encoding :: "Encoding \<Rightarrow> encoder \<Rightarrow> encoder" where
  "enc_encoding x e =
     (if enErr e \<noteq> None \<or> x = no_encoding then e
      else enc_u8 (encoding_flags x) (enc_u8 (ecKind x) e))"

definition encodeOp :: "LogOp \<Rightarrow> encoder \<Rightarrow> encoder" where
  "encodeOp q e =
     (let e1 = enc_count (length (loDel q)) (enc_u64 (loPos q) (enc_u8 (loAuthor q) (enc_u64 (loSeq q) e)));
          e2 = fold enc_piece (loDel q) e1;
          e3 = fold enc_piece (loIns q) (enc_count (length (loIns q)) e2)
      in enc_u8 (loKind q) (enc_u64 (loGroup q) (enc_u64 (loUndoes q) e3)))"

fun encode_fields :: "Record \<Rightarrow> encoder \<Rightarrow> encoder" where
  "encode_fields (RBase v) e = enc_encoding (baEncoding v) (enc_blob (baBytes v) (enc_str (baHash v) (enc_str (baPath v) e)))"
| "encode_fields (RStore v) e = enc_blob (saBlob v) (enc_u64 (saStart v) (enc_u8 (saAuthor v) e))"
| "encode_fields (ROp v) e = encodeOp v e"
| "encode_fields (RDecision v) e = enc_u8 (deState v) (enc_u64 (deGroup v) e)"
| "encode_fields (RAuthor v) e =
     (let e1 = enc_u8 (auKind v) (enc_str (auName v) (enc_str (auIdentity v) (enc_u8 (auID v) e)))
      in if auTask v = [] then e1 else enc_str (auTask v) e1)"
| "encode_fields (RSession b) e = enc_blob b e"
| "encode_fields (RWritten v) e =
     enc_encoding (wrEncoding v) (enc_u64 (wrVersion v) (enc_str (wrHash v) (enc_str (wrPath v) e)))"

definition encodeRecord :: "Record option \<Rightarrow> (enc_error, byte \<times> byte list) sum" where
  "encodeRecord r =
     (case r of
        None \<Rightarrow> Inl NilRecord
      | Some r \<Rightarrow>
          let e = encode_fields r new_encoder
          in case enErr e of Some x \<Rightarrow> Inl x | None \<Rightarrow> Inr (recordKind r, enB e))"

definition encodeHeader :: "Header \<Rightarrow> (enc_error, byte list) sum" where
  "encodeHeader h =
     (let e = enc_str (hdIdentity h) (enc_str (hdRoot h) new_encoder)
      in case enErr e of Some x \<Rightarrow> Inl x | None \<Rightarrow> Inr (enB e))"

section \<open>The decoder\<close>

datatype dec_error = ShortField nat | DTooManyItems nat | DPieces nat nat | DString nat | DBlob nat
  | UnknownFlags byte | NonCanonical | TrailingRecord nat | TrailingHeader nat | UnknownRecord byte
  | UnknownOpKind byte | UnknownState byte | UnknownParticipant byte | UnknownEncoding byte

record decoder =
  dcB :: "byte list"
  dcOff :: nat
  dcErr :: "dec_error option"

definition new_decoder :: "byte list \<Rightarrow> decoder" where
  "new_decoder b = \<lparr>dcB = b, dcOff = 0, dcErr = None\<rparr>"

text \<open>\<open>fail\<close> keeps the first error; \<open>need\<close> asks for bytes and fails when they are not there.\<close>

definition dec_fail :: "dec_error \<Rightarrow> decoder \<Rightarrow> decoder" where
  "dec_fail x d = (if dcErr d = None then d\<lparr>dcErr := Some x\<rparr> else d)"

definition dec_need :: "nat \<Rightarrow> decoder \<Rightarrow> bool \<times> decoder" where
  "dec_need n d =
     (if dcErr d \<noteq> None then (False, d)
      else if int (length (dcB d)) - int (dcOff d) < int n then (False, dec_fail (ShortField (dcOff d)) d)
      else (True, d))"

definition dec_take :: "nat \<Rightarrow> decoder \<Rightarrow> byte list \<times> decoder" where
  "dec_take n d =
     (case dec_need n d of
        (False, d') \<Rightarrow> ([], d')
      | (True, d') \<Rightarrow> (take n (drop (dcOff d) (dcB d)), d'\<lparr>dcOff := dcOff d + n\<rparr>))"

definition dec_u8 :: "decoder \<Rightarrow> byte \<times> decoder" where
  "dec_u8 d = (case dec_take 1 d of (bs, d') \<Rightarrow> (if bs = [] then 0 else hd bs, d'))"

definition dec_u32 :: "decoder \<Rightarrow> 32 word \<times> decoder" where
  "dec_u32 d = (case dec_take 4 d of (bs, d') \<Rightarrow> (ucast (le_word bs), d'))"

definition dec_u64 :: "decoder \<Rightarrow> 64 word \<times> decoder" where
  "dec_u64 d = (case dec_take 8 d of (bs, d') \<Rightarrow> (le_word bs, d'))"

definition dec_count :: "decoder \<Rightarrow> nat \<times> decoder" where
  "dec_count d =
     (case dec_u32 d of (n, d1) \<Rightarrow>
        if dcErr d1 \<noteq> None then (0, d1)
        else if MaxRecs < unat n then (0, dec_fail (DTooManyItems (unat n)) d1)
        else (unat n, d1))"

definition dec_piece :: "decoder \<Rightarrow> Piece \<times> decoder" where
  "dec_piece d =
     (let (b, d1) = dec_u8 d; (s, d2) = dec_u64 d1; (l, d3) = dec_u64 d2
      in (\<lparr>pcBuf = b, pcStart = s, pcLength = l\<rparr>, d3))"

fun dec_piece_loop :: "nat \<Rightarrow> Piece list \<Rightarrow> decoder \<Rightarrow> Piece list \<times> decoder" where
  "dec_piece_loop 0 out d = (out, d)"
| "dec_piece_loop (Suc n) out d =
     (let (p, d1) = dec_piece d; out1 = out @ [p]
      in if dcErr d1 \<noteq> None then (out1, d1) else dec_piece_loop n out1 d1)"

definition dec_pieces :: "decoder \<Rightarrow> Piece list \<times> decoder" where
  "dec_pieces d =
     (case dec_count d of (n, d1) \<Rightarrow>
        if n = 0 then ([], d1)
        else if (length (dcB d1) - dcOff d1) div pieceBytes < n
        then ([], dec_fail (DPieces n (length (dcB d1) - dcOff d1)) d1)
        else dec_piece_loop n [] d1)"

definition dec_str :: "decoder \<Rightarrow> byte list \<times> decoder" where
  "dec_str d =
     (case dec_u32 d of (n, d1) \<Rightarrow>
        if dcErr d1 \<noteq> None then ([], d1)
        else if MaxStringBytes < unat n then ([], dec_fail (DString (unat n)) d1)
        else dec_take (unat n) d1)"

definition dec_blob :: "decoder \<Rightarrow> byte list \<times> decoder" where
  "dec_blob d =
     (case dec_u64 d of (n, d1) \<Rightarrow>
        if dcErr d1 \<noteq> None then ([], d1)
        else if MaxBlobBytes < unat n then ([], dec_fail (DBlob (unat n)) d1)
        else dec_take (unat n) d1)"

definition dec_encoding :: "decoder \<Rightarrow> Encoding \<times> decoder" where
  "dec_encoding d =
     (if dcErr d \<noteq> None \<or> dcOff d = length (dcB d) then (no_encoding, d)
      else if dcOff d + 2 \<noteq> length (dcB d) then (no_encoding, dec_fail (TrailingRecord (length (dcB d) - dcOff d)) d)
      else let (kind, d1) = dec_u8 d; (flags, d2) = dec_u8 d1
           in if dcErr d2 \<noteq> None then (no_encoding, d2)
              else if flags AND NOT 3 \<noteq> 0 then (no_encoding, dec_fail (UnknownFlags flags) d2)
              else let x = \<lparr>ecKind = kind, ecCRLF = (flags AND 1 \<noteq> 0), ecBOM = (flags AND 2 \<noteq> 0)\<rparr>
                   in if x = no_encoding then (no_encoding, dec_fail NonCanonical d2) else (x, d2))"

definition decode_op :: "decoder \<Rightarrow> LogOp \<times> decoder" where
  "decode_op d =
     (let (q, d1) = dec_u64 d; (a, d2) = dec_u8 d1; (p, d3) = dec_u64 d2;
          (del, d4) = dec_pieces d3; (ins, d5) = dec_pieces d4;
          (u, d6) = dec_u64 d5; (g, d7) = dec_u64 d6; (k, d8) = dec_u8 d7
      in (\<lparr>loSeq = q, loAuthor = a, loPos = p, loDel = del, loIns = ins, loUndoes = u, loGroup = g, loKind = k\<rparr>, d8))"

text \<open>The fields of a record of a kind; no kind but 1 to 7 is known.\<close>

definition decode_fields :: "byte \<Rightarrow> decoder \<Rightarrow> (Record \<times> decoder) option" where
  "decode_fields k d =
     (if k = 1 then
        (let (p, d1) = dec_str d; (h, d2) = dec_str d1; (b, d3) = dec_blob d2; (x, d4) = dec_encoding d3
         in Some (RBase \<lparr>baPath = p, baHash = h, baBytes = b, baEncoding = x\<rparr>, d4))
      else if k = 2 then
        (let (a, d1) = dec_u8 d; (s, d2) = dec_u64 d1; (b, d3) = dec_blob d2
         in Some (RStore \<lparr>saAuthor = a, saStart = s, saBlob = b\<rparr>, d3))
      else if k = 3 then (let (q, d1) = decode_op d in Some (ROp q, d1))
      else if k = 4 then
        (let (g, d1) = dec_u64 d; (s, d2) = dec_u8 d1 in Some (RDecision \<lparr>deGroup = g, deState = s\<rparr>, d2))
      else if k = 5 then
        (let (i, d1) = dec_u8 d; (idn, d2) = dec_str d1; (n, d3) = dec_str d2; (kd, d4) = dec_u8 d3;
             (t, d5) = (if dcOff d4 < length (dcB d4) then dec_str d4 else ([], d4))
         in Some (RAuthor \<lparr>auID = i, auIdentity = idn, auName = n, auKind = kd, auTask = t\<rparr>, d5))
      else if k = 7 then
        (let (p, d1) = dec_str d; (h, d2) = dec_str d1; (v, d3) = dec_u64 d2; (x, d4) = dec_encoding d3
         in Some (RWritten \<lparr>wrPath = p, wrHash = h, wrVersion = v, wrEncoding = x\<rparr>, d4))
      else if k = 6 then (let (b, d1) = dec_blob d in Some (RSession b, d1))
      else None)"

fun validate :: "Record \<Rightarrow> dec_error option" where
  "validate (ROp v) = (if 2 < loKind v then Some (UnknownOpKind (loKind v)) else None)"
| "validate (RDecision v) = (if 2 < deState v then Some (UnknownState (deState v)) else None)"
| "validate (RAuthor v) = (if 1 < auKind v then Some (UnknownParticipant (auKind v)) else None)"
| "validate (RBase v) = (if 4 < ecKind (baEncoding v) then Some (UnknownEncoding (ecKind (baEncoding v))) else None)"
| "validate (RWritten v) = (if 4 < ecKind (wrEncoding v) then Some (UnknownEncoding (ecKind (wrEncoding v))) else None)"
| "validate _ = None"

definition decodeRecord :: "byte \<Rightarrow> byte list \<Rightarrow> (dec_error, Record) sum" where
  "decodeRecord k b =
     (case decode_fields k (new_decoder b) of
        None \<Rightarrow> Inl (UnknownRecord k)
      | Some (r, d) \<Rightarrow>
          (case dcErr d of
             Some x \<Rightarrow> Inl x
           | None \<Rightarrow>
               if dcOff d \<noteq> length b then Inl (TrailingRecord (length b - dcOff d))
               else (case validate r of Some x \<Rightarrow> Inl x | None \<Rightarrow> Inr r)))"

definition decodeHeader :: "byte list \<Rightarrow> (dec_error, Header) sum" where
  "decodeHeader b =
     (let (r, d1) = dec_str (new_decoder b); (i, d2) = dec_str d1
      in case dcErr d2 of
           Some x \<Rightarrow> Inl x
         | None \<Rightarrow> if dcOff d2 \<noteq> length b then Inl (TrailingHeader (length b - dcOff d2))
                   else Inr \<lparr>hdRoot = r, hdIdentity = i\<rparr>)"

end
