(* ===== verification/LogLaw.thy ===== *)
theory LogLaw
  imports LogCodec
begin

text \<open>
  Lemmas about the record codec of \<open>internal/journal/journal.go\<close>: the bytes a record encodes to, every
  decoder primitive on a position in a buffer, and decoding as the inverse of encoding both ways.
\<close>

unbundle bit_operations_syntax

section \<open>Words and their bytes\<close>

lemma le_word_bound: "take_bit (8 * length bs) (le_word bs) = le_word bs"
proof (induction bs)
  case (Cons b bs)
  show ?case
  proof (rule bit_word_eqI)
    fix n
    assume "n < LENGTH(64)"
    have "bit (le_word bs) k \<Longrightarrow> k < 8 * length bs" for k
      by (metis Cons bit_take_bit_iff)
    then show "bit (take_bit (8 * length (b # bs)) (le_word (b # bs))) n = bit (le_word (b # bs)) n"
      by (auto simp: bit_take_bit_iff bit_or_iff bit_push_bit_iff bit_unsigned_iff dest: bit_imp_le_length) fastforce+
  qed
qed simp

lemma le_bytes_le_word: "length bs \<le> 8 \<Longrightarrow> le_bytes (length bs) (le_word bs) = bs"
proof (induction bs)
  case (Cons b bs)
  have w: "bit (le_word bs) k \<Longrightarrow> k < 8 * length bs" for k
    by (metis le_word_bound bit_take_bit_iff)
  have "ucast (le_word (b # bs)) = b"
    by (rule bit_word_eqI) (auto simp: bit_unsigned_iff bit_or_iff bit_push_bit_iff)
  moreover have "drop_bit 8 (le_word (b # bs)) = le_word bs"
  proof (rule bit_word_eqI)
    fix n
    assume "n < LENGTH(64)"
    have "bit (le_word bs) n \<Longrightarrow> n + 8 < 64" using w[of n] Cons.prems by simp
    then show "bit (drop_bit 8 (le_word (b # bs))) n = bit (le_word bs) n"
      by (auto simp: bit_drop_bit_eq bit_or_iff bit_push_bit_iff bit_unsigned_iff dest: bit_imp_le_length)
  qed
  ultimately show ?case using Cons by simp
qed simp

lemma le_word_8 [simp]: "le_word (le_bytes 8 u) = u"
  by (simp add: le_word_le_bytes take_bit_word_eq_self)

lemma le_word_4 [simp]: "ucast (le_word (le_bytes 4 (ucast (v :: 32 word)))) = v"
  by (rule bit_word_eqI) (simp add: le_word_le_bytes bit_unsigned_iff bit_take_bit_iff)

lemma le_bytes_4: "length bs = 4 \<Longrightarrow> le_bytes 4 (ucast (ucast (le_word bs) :: 32 word)) = bs"
proof -
  assume l: "length bs = 4"
  have "take_bit 32 (le_word bs) = le_word bs" using le_word_bound[of bs] l by simp
  then have w: "bit (le_word bs) k \<Longrightarrow> k < 32" for k by (metis bit_take_bit_iff)
  have "ucast (ucast (le_word bs) :: 32 word) = le_word bs"
    by (rule bit_word_eqI) (auto simp: bit_unsigned_iff dest: w)
  then show ?thesis using le_bytes_le_word[of bs] l by simp
qed

lemma le_bytes_8: "length bs = 8 \<Longrightarrow> le_bytes 8 (le_word bs) = bs"
  using le_bytes_le_word[of bs] by simp

lemma unat_of_nat_32: "n \<le> 2 ^ 30 \<Longrightarrow> unat (word_of_nat n :: 32 word) = n"
  by (simp add: unsigned_of_nat take_bit_nat_eq_self)

lemma unat_of_nat_64: "n \<le> 2 ^ 30 \<Longrightarrow> unat (word_of_nat n :: 64 word) = n"
  by (simp add: unsigned_of_nat take_bit_nat_eq_self)

section \<open>What the encoder writes\<close>

definition u32_bytes :: "nat \<Rightarrow> byte list" where
  "u32_bytes n = le_bytes 4 (ucast (word_of_nat n :: 32 word))"

definition str_bytes :: "byte list \<Rightarrow> byte list" where
  "str_bytes s = u32_bytes (length s) @ s"

definition blob_bytes :: "byte list \<Rightarrow> byte list" where
  "blob_bytes s = le_bytes 8 (word_of_nat (length s)) @ s"

definition piece_bytes :: "Piece \<Rightarrow> byte list" where
  "piece_bytes p = pcBuf p # le_bytes 8 (pcStart p) @ le_bytes 8 (pcLength p)"

definition pieces_bytes :: "Piece list \<Rightarrow> byte list" where
  "pieces_bytes ps = u32_bytes (length ps) @ concat (map piece_bytes ps)"

definition encoding_bytes :: "Encoding \<Rightarrow> byte list" where
  "encoding_bytes x = (if x = no_encoding then [] else [ecKind x, encoding_flags x])"

definition op_bytes :: "LogOp \<Rightarrow> byte list" where
  "op_bytes q = le_bytes 8 (loSeq q) @ loAuthor q # le_bytes 8 (loPos q) @ pieces_bytes (loDel q) @ pieces_bytes (loIns q) @
     le_bytes 8 (loUndoes q) @ le_bytes 8 (loGroup q) @ [loKind q]"

fun rec_bytes :: "Record \<Rightarrow> byte list" where
  "rec_bytes (RBase v) = str_bytes (baPath v) @ str_bytes (baHash v) @ blob_bytes (baBytes v) @ encoding_bytes (baEncoding v)"
| "rec_bytes (RStore v) = saAuthor v # le_bytes 8 (saStart v) @ blob_bytes (saBlob v)"
| "rec_bytes (ROp v) = op_bytes v"
| "rec_bytes (RDecision v) = le_bytes 8 (deGroup v) @ [deState v]"
| "rec_bytes (RAuthor v) = auID v # str_bytes (auIdentity v) @ str_bytes (auName v) @ auKind v #
     (if auTask v = [] then [] else str_bytes (auTask v))"
| "rec_bytes (RSession b) = blob_bytes b"
| "rec_bytes (RWritten v) = str_bytes (wrPath v) @ str_bytes (wrHash v) @ le_bytes 8 (wrVersion v) @ encoding_bytes (wrEncoding v)"

fun rec_limits :: "Record \<Rightarrow> bool" where
  "rec_limits (RBase v) = (length (baPath v) \<le> MaxStringBytes \<and> length (baHash v) \<le> MaxStringBytes \<and> length (baBytes v) \<le> MaxBlobBytes)"
| "rec_limits (RStore v) = (length (saBlob v) \<le> MaxBlobBytes)"
| "rec_limits (ROp v) = (length (loDel v) \<le> MaxRecs \<and> length (loIns v) \<le> MaxRecs)"
| "rec_limits (RDecision v) = True"
| "rec_limits (RAuthor v) = (length (auIdentity v) \<le> MaxStringBytes \<and> length (auName v) \<le> MaxStringBytes \<and> length (auTask v) \<le> MaxStringBytes)"
| "rec_limits (RSession b) = (length b \<le> MaxBlobBytes)"
| "rec_limits (RWritten v) = (length (wrPath v) \<le> MaxStringBytes \<and> length (wrHash v) \<le> MaxStringBytes)"

named_theorems enc_simps "what an encoder step leaves"

lemma enc_put_simps [enc_simps]: "enErr (enc_put bs e) = enErr e" "enB (enc_put bs e) = enB e @ bs"
  by (simp_all add: enc_put_def)

lemma enc_fixed [enc_simps]:
  "enErr (enc_u8 b e) = enErr e" "enB (enc_u8 b e) = enB e @ [b]"
  "enErr (enc_u32 v e) = enErr e" "enB (enc_u32 v e) = enB e @ le_bytes 4 (ucast v)"
  "enErr (enc_u64 w e) = enErr e" "enB (enc_u64 w e) = enB e @ le_bytes 8 w"
  by (simp_all add: enc_u8_def enc_u32_def enc_u64_def enc_simps)

lemma enc_sized_err [enc_simps]:
  "enErr (enc_str s e) = None \<longleftrightarrow> enErr e = None \<and> length s \<le> MaxStringBytes"
  "enErr (enc_blob s e) = None \<longleftrightarrow> enErr e = None \<and> length s \<le> MaxBlobBytes"
  "enErr (enc_count n e) = None \<longleftrightarrow> enErr e = None \<and> n \<le> MaxRecs"
  "enErr (enc_encoding x e) = enErr e"
  by (auto simp: enc_str_def enc_blob_def enc_count_def enc_encoding_def enc_simps)

lemma enc_sized:
  "enErr (enc_str s e) = None \<Longrightarrow> enB (enc_str s e) = enB e @ str_bytes s"
  "enErr (enc_blob s e) = None \<Longrightarrow> enB (enc_blob s e) = enB e @ blob_bytes s"
  "enErr (enc_count n e) = None \<Longrightarrow> enB (enc_count n e) = enB e @ u32_bytes n"
  "enErr (enc_encoding x e) = None \<Longrightarrow> enB (enc_encoding x e) = enB e @ encoding_bytes x"
  unfolding enc_simps
  by (simp_all add: enc_str_def enc_blob_def enc_count_def enc_encoding_def enc_simps str_bytes_def blob_bytes_def
      u32_bytes_def encoding_bytes_def)

lemma enc_pieces [enc_simps]:
  "enErr (fold enc_piece ps e) = enErr e" "enB (fold enc_piece ps e) = enB e @ concat (map piece_bytes ps)"
  by (induction ps arbitrary: e) (simp_all add: enc_piece_def enc_simps piece_bytes_def)

lemma encode_fields_err: "enErr (encode_fields r e) = None \<longleftrightarrow> enErr e = None \<and> rec_limits r"
  by (cases r) (auto simp: encodeOp_def Let_def enc_simps)

lemma encode_fields_bytes: "enErr (encode_fields r e) = None \<Longrightarrow> enB (encode_fields r e) = enB e @ rec_bytes r"
  by (cases r) (auto simp: encodeOp_def Let_def enc_simps enc_sized op_bytes_def pieces_bytes_def)

lemma encodeRecord_iff: "encodeRecord (Some r) = Inr (k, b) \<longleftrightarrow> rec_limits r \<and> k = recordKind r \<and> b = rec_bytes r"
  using encode_fields_err[of r new_encoder] encode_fields_bytes[of r new_encoder]
  by (auto simp: encodeRecord_def Let_def new_encoder_def split: option.splits)

definition header_bytes :: "Header \<Rightarrow> byte list" where
  "header_bytes h = str_bytes (hdRoot h) @ str_bytes (hdIdentity h)"

lemma encodeHeader_iff:
  "encodeHeader h = Inr b \<longleftrightarrow> length (hdRoot h) \<le> MaxStringBytes \<and> length (hdIdentity h) \<le> MaxStringBytes \<and> b = header_bytes h"
proof -
  let ?e = "enc_str (hdIdentity h) (enc_str (hdRoot h) new_encoder)"
  have "enErr ?e = None \<longleftrightarrow> length (hdRoot h) \<le> MaxStringBytes \<and> length (hdIdentity h) \<le> MaxStringBytes"
    by (auto simp: enc_simps new_encoder_def)
  moreover have "enErr ?e = None \<Longrightarrow> enB ?e = header_bytes h"
    by (simp add: enc_simps enc_sized header_bytes_def) (simp add: new_encoder_def)
  ultimately show ?thesis by (auto simp: encodeHeader_def Let_def split: option.splits)
qed

section \<open>The decoder at a position\<close>

text \<open>A decoder that has read \<open>pre\<close> without error and has \<open>rest\<close> ahead.\<close>

definition reading :: "byte list \<Rightarrow> byte list \<Rightarrow> decoder" where
  "reading pre rest = \<lparr>dcB = pre @ rest, dcOff = length pre, dcErr = None\<rparr>"

named_theorems dec_simps "what a decoder step reads"

lemma reading_fields [simp]: "dcErr (reading pre rest) = None" "dcOff (reading pre rest) = length pre"
  "dcB (reading pre rest) = pre @ rest"
  by (simp_all add: reading_def)

lemma new_decoder_reading: "new_decoder b = reading [] b"
  by (simp add: new_decoder_def reading_def)

lemma dec_take_reading: "dec_take n (reading pre rest) =
    (if n \<le> length rest then (take n rest, reading (pre @ take n rest) (drop n rest))
     else ([], dec_fail (ShortField (length pre)) (reading pre rest)))"
  by (auto simp: dec_take_def dec_need_def reading_def dec_fail_def)

lemma dec_fail_err [simp]: "dcErr (dec_fail x d) \<noteq> None"
  by (auto simp: dec_fail_def)

text \<open>An error sticks: a step after it changes nothing.\<close>

lemma dec_stuck:
  assumes "dcErr d \<noteq> None"
  shows "snd (dec_take n d) = d" "snd (dec_u8 d) = d" "snd (dec_u32 d) = d" "snd (dec_u64 d) = d"
    "snd (dec_str d) = d" "snd (dec_blob d) = d" "dec_count d = (0, d)" "snd (dec_pieces d) = d" "snd (dec_encoding d) = d"
proof -
  show t: "snd (dec_take n d) = d" for n using assms by (simp add: dec_take_def dec_need_def)
  show "snd (dec_u8 d) = d" using t by (simp add: dec_u8_def split: prod.splits) (metis snd_conv)
  show u32: "snd (dec_u32 d) = d" using t by (simp add: dec_u32_def split: prod.splits) (metis snd_conv)
  show u64: "snd (dec_u64 d) = d" using t by (simp add: dec_u64_def split: prod.splits) (metis snd_conv)
  show "snd (dec_str d) = d" using u32 assms by (auto simp: dec_str_def split: prod.splits)
  show "snd (dec_blob d) = d" using u64 assms by (auto simp: dec_blob_def split: prod.splits)
  show c: "dec_count d = (0, d)" using u32 assms by (auto simp: dec_count_def split: prod.splits)
  show "snd (dec_pieces d) = d" by (simp add: dec_pieces_def c)
  show "snd (dec_encoding d) = d" using assms by (simp add: dec_encoding_def)
qed

lemma dec_u8_reading [dec_simps]: "dec_u8 (reading pre (b # rest)) = (b, reading (pre @ [b]) rest)"
  by (simp add: dec_u8_def dec_take_reading)

lemma dec_u32_reading [dec_simps]:
  "dec_u32 (reading pre (le_bytes 4 (ucast v) @ rest)) = (v, reading (pre @ le_bytes 4 (ucast v)) rest)"
  by (simp add: dec_u32_def dec_take_reading)

lemma dec_u64_reading [dec_simps]: "dec_u64 (reading pre (le_bytes 8 v @ rest)) = (v, reading (pre @ le_bytes 8 v) rest)"
  by (simp add: dec_u64_def dec_take_reading)

lemma limits: "MaxStringBytes \<le> 2 ^ 30" "MaxBlobBytes \<le> 2 ^ 30" "MaxRecs \<le> 2 ^ 30"
  by (simp_all add: MaxStringBytes_def MaxBlobBytes_def MaxRecs_def)

lemma dec_str_reading [dec_simps]:
  "length s \<le> MaxStringBytes \<Longrightarrow> dec_str (reading pre (str_bytes s @ rest)) = (s, reading (pre @ str_bytes s) rest)"
  using limits(1) by (simp add: dec_str_def str_bytes_def u32_bytes_def dec_simps unat_of_nat_32 dec_take_reading)

lemma dec_blob_reading [dec_simps]:
  "length s \<le> MaxBlobBytes \<Longrightarrow> dec_blob (reading pre (blob_bytes s @ rest)) = (s, reading (pre @ blob_bytes s) rest)"
  using limits(2) by (simp add: dec_blob_def blob_bytes_def dec_simps unat_of_nat_64 dec_take_reading)

lemma dec_count_reading [dec_simps]:
  "n \<le> MaxRecs \<Longrightarrow> dec_count (reading pre (u32_bytes n @ rest)) = (n, reading (pre @ u32_bytes n) rest)"
  using limits(3) by (simp add: dec_count_def u32_bytes_def dec_simps unat_of_nat_32)

lemma dec_piece_reading [dec_simps]:
  "dec_piece (reading pre (piece_bytes p @ rest)) = (p, reading (pre @ piece_bytes p) rest)"
  by (simp add: dec_piece_def piece_bytes_def dec_simps)

lemma dec_piece_loop_reading [dec_simps]:
  "dec_piece_loop (length ps) out (reading pre (concat (map piece_bytes ps) @ rest)) =
     (out @ ps, reading (pre @ concat (map piece_bytes ps)) rest)"
  by (induction ps arbitrary: out pre) (simp_all add: dec_simps)

lemma length_piece_bytes [simp]: "length (piece_bytes p) = pieceBytes"
  by (simp add: piece_bytes_def pieceBytes_def)

lemma length_pieces_concat [simp]: "length (concat (map piece_bytes ps)) = length ps * pieceBytes"
  by (induction ps) simp_all

lemma dec_pieces_reading [dec_simps]:
  assumes "length ps \<le> MaxRecs"
  shows "dec_pieces (reading pre (pieces_bytes ps @ rest)) = (ps, reading (pre @ pieces_bytes ps) rest)"
proof -
  have "length ps \<le> (length ps * pieceBytes + length rest) div pieceBytes"
    by (simp add: pieceBytes_def div_mult_self3)
  then show ?thesis using assms by (simp add: dec_pieces_def pieces_bytes_def dec_simps)
qed

lemma encoding_flags_simps [simp]: "encoding_flags x AND - 4 = 0" "(encoding_flags x AND 1 \<noteq> 0) = ecCRLF x"
  "(encoding_flags x AND 2 \<noteq> 0) = ecBOM x"
  by (auto simp: encoding_flags_def)

lemma Encoding_eta [simp]: "\<lparr>ecKind = ecKind x, ecCRLF = ecCRLF x, ecBOM = ecBOM x\<rparr> = (x :: Encoding)"
  by (cases x) simp

lemma dec_encoding_reading [dec_simps]:
  "dec_encoding (reading pre (encoding_bytes x)) = (x, reading (pre @ encoding_bytes x) [])"
  by (cases "x = no_encoding") (simp_all add: dec_encoding_def encoding_bytes_def dec_simps Let_def)

section \<open>Decoding what was encoded\<close>

lemma decode_op_reading [dec_simps]:
  "length (loDel q) \<le> MaxRecs \<Longrightarrow> length (loIns q) \<le> MaxRecs \<Longrightarrow>
   decode_op (reading pre (op_bytes q)) = (q, reading (pre @ op_bytes q) [])"
  by (simp add: decode_op_def op_bytes_def dec_simps)

lemma str_bytes_ne [simp]: "str_bytes t \<noteq> []"
  by (simp add: str_bytes_def u32_bytes_def flip: length_0_conv)

lemma dec_str_end [dec_simps]: "length s \<le> MaxStringBytes \<Longrightarrow> dec_str (reading pre (str_bytes s)) = (s, reading (pre @ str_bytes s) [])"
  using dec_str_reading[of s pre "[]"] by simp

lemma dec_blob_end [dec_simps]: "length s \<le> MaxBlobBytes \<Longrightarrow> dec_blob (reading pre (blob_bytes s)) = (s, reading (pre @ blob_bytes s) [])"
  using dec_blob_reading[of s pre "[]"] by simp

lemma AuthorRow_no_task: "auTask v = [] \<Longrightarrow>
  \<lparr>auID = auID v, auIdentity = auIdentity v, auName = auName v, auKind = auKind v, auTask = []\<rparr> = (v :: AuthorRow)"
  by (cases v) simp

lemma decode_fields_reading:
  assumes "rec_limits r"
  shows "decode_fields (recordKind r) (reading pre (rec_bytes r)) = Some (r, reading (pre @ rec_bytes r) [])"
proof (cases r)
  case (RAuthor v)
  show ?thesis using assms by (cases "auTask v = []") (simp_all add: RAuthor decode_fields_def dec_simps AuthorRow_no_task)
qed (use assms in \<open>simp_all add: decode_fields_def dec_simps\<close>)

lemma decode_encoded: "rec_limits r \<Longrightarrow> validate r = None \<Longrightarrow> decodeRecord (recordKind r) (rec_bytes r) = Inr r"
  using decode_fields_reading[of r "[]"] by (simp add: decodeRecord_def new_decoder_reading)

section \<open>Encoding what was decoded\<close>

text \<open>A step that ends without error started without one.\<close>

lemma dec_unstuck:
  "dec_take n d = (bs, d') \<Longrightarrow> dcErr d' = None \<Longrightarrow> dcErr d = None"
  "dec_u8 d = (b, d') \<Longrightarrow> dcErr d' = None \<Longrightarrow> dcErr d = None"
  "dec_u32 d = (w, d') \<Longrightarrow> dcErr d' = None \<Longrightarrow> dcErr d = None"
  "dec_u64 d = (v, d') \<Longrightarrow> dcErr d' = None \<Longrightarrow> dcErr d = None"
  "dec_str d = (bs, d') \<Longrightarrow> dcErr d' = None \<Longrightarrow> dcErr d = None"
  "dec_blob d = (bs, d') \<Longrightarrow> dcErr d' = None \<Longrightarrow> dcErr d = None"
  "dec_pieces d = (ps, d') \<Longrightarrow> dcErr d' = None \<Longrightarrow> dcErr d = None"
  "dec_encoding d = (x, d') \<Longrightarrow> dcErr d' = None \<Longrightarrow> dcErr d = None"
  using dec_stuck[of d] by (metis snd_conv)+

text \<open>What a decoder that stays clean has read is what encoding its result writes.\<close>

definition consumed :: "byte list \<Rightarrow> byte list \<Rightarrow> byte list \<Rightarrow> decoder \<Rightarrow> bool" where
  "consumed pre rest bs d \<longleftrightarrow> (\<exists>r. rest = bs @ r \<and> d = reading (pre @ bs) r)"

lemma dec_take_inv:
  assumes "dec_take n (reading pre rest) = (bs, d)" "dcErr d = None"
  shows "length bs = n \<and> consumed pre rest bs d"
  using assms by (auto simp: dec_take_reading consumed_def split: if_splits intro!: exI[of _ "drop n rest"])

lemma dec_u8_inv:
  assumes "dec_u8 (reading pre rest) = (b, d)" "dcErr d = None"
  shows "consumed pre rest [b] d"
proof -
  obtain bs where t: "dec_take 1 (reading pre rest) = (bs, d)" "b = (if bs = [] then 0 else hd bs)"
    using assms(1) by (auto simp: dec_u8_def split: prod.splits)
  from dec_take_inv[OF t(1) assms(2)] t(2) show ?thesis by (cases bs) auto
qed

lemma dec_u32_inv:
  assumes "dec_u32 (reading pre rest) = (v, d)" "dcErr d = None"
  shows "consumed pre rest (le_bytes 4 (ucast v)) d"
proof -
  obtain bs where t: "dec_take 4 (reading pre rest) = (bs, d)" "v = ucast (le_word bs)"
    using assms(1) by (auto simp: dec_u32_def split: prod.splits)
  from dec_take_inv[OF t(1) assms(2)] t(2) show ?thesis by (simp add: le_bytes_4)
qed

lemma dec_u64_inv:
  assumes "dec_u64 (reading pre rest) = (v, d)" "dcErr d = None"
  shows "consumed pre rest (le_bytes 8 v) d"
proof -
  obtain bs where t: "dec_take 8 (reading pre rest) = (bs, d)" "v = le_word bs"
    using assms(1) by (auto simp: dec_u64_def split: prod.splits)
  from dec_take_inv[OF t(1) assms(2)] t(2) show ?thesis by (simp add: le_bytes_8)
qed

lemma reading_inject [simp]: "reading p r = reading p' r' \<longleftrightarrow> p = p' \<and> r = r'"
  by (auto simp: reading_def)

lemma consumed_trans: "consumed pre rest a (reading p r) \<Longrightarrow> consumed p r b d \<Longrightarrow> consumed pre rest (a @ b) d"
  by (auto simp: consumed_def)

lemma dec_str_inv:
  assumes "dec_str (reading pre rest) = (s, d)" "dcErr d = None"
  shows "consumed pre rest (str_bytes s) d \<and> length s \<le> MaxStringBytes"
proof -
  obtain n d1 where n: "dec_u32 (reading pre rest) = (n, d1)" by fastforce
  have t: "dcErr d1 = None" "unat n \<le> MaxStringBytes" "dec_take (unat n) d1 = (s, d)"
    using assms n by (auto simp: dec_str_def split: if_splits)
  note c = dec_u32_inv[OF n t(1)]
  then obtain p r where d1: "d1 = reading p r" by (auto simp: consumed_def)
  note T = dec_take_inv[OF t(3)[unfolded d1] assms(2)]
  have "word_of_nat (length s) = n" using T by simp
  then show ?thesis using consumed_trans[OF c[unfolded d1] conjunct2[OF T]] T t(2) by (simp add: str_bytes_def u32_bytes_def)
qed

lemma dec_blob_inv:
  assumes "dec_blob (reading pre rest) = (s, d)" "dcErr d = None"
  shows "consumed pre rest (blob_bytes s) d \<and> length s \<le> MaxBlobBytes"
proof -
  obtain n d1 where n: "dec_u64 (reading pre rest) = (n, d1)" by fastforce
  have t: "dcErr d1 = None" "unat n \<le> MaxBlobBytes" "dec_take (unat n) d1 = (s, d)"
    using assms n by (auto simp: dec_blob_def split: if_splits)
  note c = dec_u64_inv[OF n t(1)]
  then obtain p r where d1: "d1 = reading p r" by (auto simp: consumed_def)
  note T = dec_take_inv[OF t(3)[unfolded d1] assms(2)]
  have "word_of_nat (length s) = n" using T by simp
  then show ?thesis using consumed_trans[OF c[unfolded d1] conjunct2[OF T]] T t(2) by (simp add: blob_bytes_def)
qed

text \<open>The same for steps chained one after the other.\<close>

definition eats :: "decoder \<Rightarrow> byte list \<Rightarrow> decoder \<Rightarrow> bool" where
  "eats d bs d' \<longleftrightarrow> (\<exists>p r. d = reading p (bs @ r) \<and> d' = reading (p @ bs) r)"

definition clean :: "decoder \<Rightarrow> bool" where
  "clean d \<longleftrightarrow> (\<exists>p r. d = reading p r)"

lemma eats_trans [trans]: "eats d a d1 \<Longrightarrow> eats d1 b d2 \<Longrightarrow> eats d (a @ b) d2"
  unfolding eats_def by (elim exE conjE) (intro exI, auto)

lemma eats_clean: "eats d bs d' \<Longrightarrow> clean d'"
  by (auto simp: eats_def clean_def)

lemma clean_new [simp]: "clean (new_decoder b)"
  by (auto simp: clean_def new_decoder_reading)

lemma consumed_eats: "consumed p r bs d' = eats (reading p r) bs d'"
  by (auto simp: consumed_def eats_def)

lemma eats_steps:
  assumes "clean d"
  shows "dec_u8 d = (b, d') \<Longrightarrow> dcErr d' = None \<Longrightarrow> eats d [b] d'"
    "dec_u32 d = (w, d') \<Longrightarrow> dcErr d' = None \<Longrightarrow> eats d (le_bytes 4 (ucast w)) d'"
    "dec_u64 d = (v, d') \<Longrightarrow> dcErr d' = None \<Longrightarrow> eats d (le_bytes 8 v) d'"
    "dec_str d = (s, d') \<Longrightarrow> dcErr d' = None \<Longrightarrow> eats d (str_bytes s) d' \<and> length s \<le> MaxStringBytes"
    "dec_blob d = (s, d') \<Longrightarrow> dcErr d' = None \<Longrightarrow> eats d (blob_bytes s) d' \<and> length s \<le> MaxBlobBytes"
  using assms dec_u8_inv dec_u32_inv dec_u64_inv dec_str_inv dec_blob_inv unfolding clean_def consumed_eats by blast+

lemma dec_piece_inv:
  assumes "dec_piece d = (p, d')" "dcErr d' = None" "clean d"
  shows "eats d (piece_bytes p) d'"
proof -
  obtain b d1 s d2 l where e: "dec_u8 d = (b, d1)" "dec_u64 d1 = (s, d2)" "dec_u64 d2 = (l, d')"
      and p: "p = \<lparr>pcBuf = b, pcStart = s, pcLength = l\<rparr>"
    using assms(1) by (auto simp: dec_piece_def split: prod.splits)
  note n2 = dec_unstuck(4)[OF e(3) assms(2)]
  note n1 = dec_unstuck(4)[OF e(2) n2]
  note E1 = eats_steps(1)[OF assms(3) e(1) n1]
  note E2 = eats_steps(3)[OF eats_clean[OF E1] e(2) n2]
  note E3 = eats_steps(3)[OF eats_clean[OF E2] e(3) assms(2)]
  show ?thesis using eats_trans[OF E1 eats_trans[OF E2 E3]] by (simp add: piece_bytes_def p)
qed

lemma dec_piece_loop_inv:
  assumes "dec_piece_loop n out d = (res, d')" "dcErr d' = None" "clean d"
  shows "\<exists>ps. res = out @ ps \<and> length ps = n \<and> eats d (concat (map piece_bytes ps)) d'"
  using assms
proof (induction n arbitrary: out d)
  case 0
  then show ?case by (auto simp: eats_def clean_def)
next
  case (Suc n)
  obtain p d1 where p: "dec_piece d = (p, d1)" by fastforce
  have l: "dcErr d1 = None" "dec_piece_loop n (out @ [p]) d1 = (res, d')"
    using Suc.prems p by (auto simp: Let_def split: if_splits)
  note E1 = dec_piece_inv[OF p l(1) Suc.prems(3)]
  from Suc.IH[OF l(2) Suc.prems(2) eats_clean[OF E1]] obtain ps where
    ps: "res = (out @ [p]) @ ps" "length ps = n" "eats d1 (concat (map piece_bytes ps)) d'" by blast
  show ?case using ps eats_trans[OF E1 ps(3)] by (intro exI[of _ "p # ps"]) simp
qed

lemma dec_count_inv:
  assumes "dec_count d = (n, d')" "dcErr d' = None" "clean d"
  shows "eats d (u32_bytes n) d' \<and> n \<le> MaxRecs"
proof -
  obtain w d0 where w: "dec_u32 d = (w, d0)" by fastforce
  have n: "n = unat w" "d0 = d'" "n \<le> MaxRecs" using assms(1,2) w by (auto simp: dec_count_def split: if_splits)
  from eats_steps(2)[OF assms(3) w] assms(2) n show ?thesis by (simp add: u32_bytes_def)
qed

lemma dec_count_err: "dec_count d = (n, d') \<Longrightarrow> n \<noteq> 0 \<Longrightarrow> dcErr d' = None"
  by (auto simp: dec_count_def split: prod.splits if_splits)

lemma dec_pieces_inv:
  assumes "dec_pieces d = (ps, d')" "dcErr d' = None" "clean d"
  shows "eats d (pieces_bytes ps) d' \<and> length ps \<le> MaxRecs"
proof -
  obtain n d1 where n: "dec_count d = (n, d1)" by fastforce
  show ?thesis
  proof (cases "n = 0")
    case True
    then have "ps = []" "d1 = d'" using assms(1) n by (simp_all add: dec_pieces_def)
    then show ?thesis using dec_count_inv[OF n _ assms(3)] assms(2) True by (simp add: pieces_bytes_def)
  next
    case False
    have l: "dec_piece_loop n [] d1 = (ps, d')" using assms(1,2) n False by (auto simp: dec_pieces_def split: if_splits)
    note E1 = dec_count_inv[OF n dec_count_err[OF n False] assms(3)]
    from dec_piece_loop_inv[OF l assms(2) eats_clean[OF conjunct1[OF E1]]]
    have L: "length ps = n" "eats d1 (concat (map piece_bytes ps)) d'" by auto
    show ?thesis using eats_trans[OF conjunct1[OF E1] L(2)] E1 L(1) by (simp add: pieces_bytes_def)
  qed
qed

lemma flags_back:
  assumes "(f :: byte) AND - 4 = 0"
  shows "(if f AND 1 \<noteq> 0 then 1 else 0) OR (if f AND 2 \<noteq> 0 then 2 else 0) = f"
proof -
  have "f = f AND 1 OR (f AND 2 OR f AND - 4)"
    by (simp flip: bit.conj_disj_distrib)
  moreover have "f AND 1 = (if bit f 0 then 1 else 0)"
    by (rule bit_word_eqI) (auto simp: bit_and_iff bit_1_iff simp del: and_one_eq intro: gr0I)
  moreover have "f AND 2 = (if bit f 1 then 2 else 0)"
    by (rule bit_word_eqI) (auto simp: bit_and_iff bit_2_iff)
  ultimately show ?thesis using assms by auto
qed

lemma dec_encoding_inv:
  assumes "dec_encoding d = (x, d')" "dcErr d' = None" "clean d"
  shows "eats d (encoding_bytes x) d' "
proof (cases "dcOff d = length (dcB d)")
  case True
  then show ?thesis using assms by (auto simp: dec_encoding_def encoding_bytes_def eats_def clean_def)
next
  case False
  obtain k d1 f d2 where e: "dec_u8 d = (k, d1)" "dec_u8 d1 = (f, d2)" by (metis surj_pair)
  have c: "dcErr d = None" using assms(3) by (auto simp: clean_def)
  have n: "dcErr d2 = None" "d2 = d'" "f AND - 4 = 0" "x \<noteq> no_encoding"
      "x = \<lparr>ecKind = k, ecCRLF = (f AND 1 \<noteq> 0), ecBOM = (f AND 2 \<noteq> 0)\<rparr>"
    using assms(1,2) False c e by (auto simp: dec_encoding_def Let_def split: if_splits)
  note E1 = eats_steps(1)[OF assms(3) e(1) dec_unstuck(2)[OF e(2) n(1)]]
  note E2 = eats_steps(1)[OF eats_clean[OF E1] e(2) n(1)]
  have "encoding_flags x = f" using flags_back[OF n(3)] by (simp add: n(5) encoding_flags_def)
  then show ?thesis using eats_trans[OF E1 E2] n by (simp add: encoding_bytes_def)
qed

lemma decode_op_inv:
  assumes "decode_op d = (q, d')" "dcErr d' = None" "clean d"
  shows "eats d (op_bytes q) d' \<and> rec_limits (ROp q)"
proof -
  obtain v1 d1 v2 d2 v3 d3 v4 d4 v5 d5 v6 d6 v7 d7 v8 where
    e: "dec_u64 d = (v1, d1)" "dec_u8 d1 = (v2, d2)" "dec_u64 d2 = (v3, d3)" "dec_pieces d3 = (v4, d4)"
      "dec_pieces d4 = (v5, d5)" "dec_u64 d5 = (v6, d6)" "dec_u64 d6 = (v7, d7)" "dec_u8 d7 = (v8, d')"
    and q: "q = \<lparr>loSeq = v1, loAuthor = v2, loPos = v3, loDel = v4, loIns = v5, loUndoes = v6, loGroup = v7, loKind = v8\<rparr>"
    using assms(1) by (auto simp: decode_op_def split: prod.splits)
  note n7 = dec_unstuck(2)[OF e(8) assms(2)]
  note n6 = dec_unstuck(4)[OF e(7) n7]
  note n5 = dec_unstuck(4)[OF e(6) n6]
  note n4 = dec_unstuck(7)[OF e(5) n5]
  note n3 = dec_unstuck(7)[OF e(4) n4]
  note n2 = dec_unstuck(4)[OF e(3) n3]
  note n1 = dec_unstuck(2)[OF e(2) n2]
  note E1 = eats_steps(3)[OF assms(3) e(1) n1]
  note E2 = eats_steps(1)[OF eats_clean[OF E1] e(2) n2]
  note E3 = eats_steps(3)[OF eats_clean[OF E2] e(3) n3]
  note E4 = dec_pieces_inv[OF e(4) n4 eats_clean[OF E3]]
  note E5 = dec_pieces_inv[OF e(5) n5 eats_clean[OF conjunct1[OF E4]]]
  note E6 = eats_steps(3)[OF eats_clean[OF conjunct1[OF E5]] e(6) n6]
  note E7 = eats_steps(3)[OF eats_clean[OF E6] e(7) n7]
  note E8 = eats_steps(1)[OF eats_clean[OF E7] e(8) assms(2)]
  show ?thesis
    using eats_trans[OF E1 eats_trans[OF E2 eats_trans[OF E3 eats_trans[OF conjunct1[OF E4] eats_trans[OF conjunct1[OF E5]
      eats_trans[OF E6 eats_trans[OF E7 E8]]]]]]] E4 E5
    by (simp add: op_bytes_def q)
qed

text \<open>An author row may spell out an empty task; every other record that decodes is written back as it was.\<close>

definition empty_task :: "Record \<Rightarrow> byte list \<Rightarrow> bool" where
  "empty_task r b \<longleftrightarrow> (\<exists>v. r = RAuthor v \<and> auTask v = [] \<and> b = rec_bytes r @ u32_bytes 0)"

lemma decode_author_inv:
  assumes "decode_fields 5 d = Some (r, d')" "dcErr d' = None" "clean d"
  shows "recordKind r = 5 \<and> rec_limits r \<and> (eats d (rec_bytes r) d' \<or> (\<exists>v. r = RAuthor v \<and> auTask v = [] \<and> eats d (rec_bytes r @ u32_bytes 0) d'))"
proof -
  obtain v1 d1 v2 d2 v3 d3 v4 d4 v5 where
    e: "dec_u8 d = (v1, d1)" "dec_str d1 = (v2, d2)" "dec_str d2 = (v3, d3)" "dec_u8 d3 = (v4, d4)"
      "(if dcOff d4 < length (dcB d4) then dec_str d4 else ([], d4)) = (v5, d')"
    and r: "r = RAuthor \<lparr>auID = v1, auIdentity = v2, auName = v3, auKind = v4, auTask = v5\<rparr>"
    using assms(1) by (auto simp: decode_fields_def split: prod.splits)
  have n4: "dcErr d4 = None" using e(5) assms(2) dec_unstuck(5)[of d4] by (auto split: if_splits)
  note n3 = dec_unstuck(2)[OF e(4) n4]
  note n2 = dec_unstuck(5)[OF e(3) n3]
  note n1 = dec_unstuck(5)[OF e(2) n2]
  note E1 = eats_steps(1)[OF assms(3) e(1) n1]
  note E2 = eats_steps(4)[OF eats_clean[OF E1] e(2) n2]
  note E3 = eats_steps(4)[OF eats_clean[OF conjunct1[OF E2]] e(3) n3]
  note E4 = eats_steps(1)[OF eats_clean[OF conjunct1[OF E3]] e(4) n4]
  note E = eats_trans[OF E1 eats_trans[OF conjunct1[OF E2] eats_trans[OF conjunct1[OF E3] E4]]]
  show ?thesis
  proof (cases "dcOff d4 < length (dcB d4)")
    case True
    then have "dec_str d4 = (v5, d')" using e(5) by simp
    note E5 = eats_steps(4)[OF eats_clean[OF E4] this assms(2)]
    show ?thesis using eats_trans[OF E conjunct1[OF E5]] E2 E3 E5 by (auto simp: r str_bytes_def)
  next
    case False
    then show ?thesis using E E2 E3 e(5) by (auto simp: r MaxStringBytes_def)
  qed
qed

lemma decode_base_inv:
  assumes "decode_fields 1 d = Some (r, d')" "dcErr d' = None" "clean d"
  shows "recordKind r = 1 \<and> rec_limits r \<and> eats d (rec_bytes r) d'"
proof -
  obtain v1 d1 v2 d2 v3 d3 v4 where
    e: "dec_str d = (v1, d1)" "dec_str d1 = (v2, d2)" "dec_blob d2 = (v3, d3)" "dec_encoding d3 = (v4, d')"
    and r: "r = RBase \<lparr>baPath = v1, baHash = v2, baBytes = v3, baEncoding = v4\<rparr>"
    using assms(1) by (auto simp: decode_fields_def split: prod.splits)
  note n3 = dec_unstuck(8)[OF e(4) assms(2)]
  note n2 = dec_unstuck(6)[OF e(3) n3]
  note n1 = dec_unstuck(5)[OF e(2) n2]
  note E1 = eats_steps(4)[OF assms(3) e(1) n1]
  note E2 = eats_steps(4)[OF eats_clean[OF conjunct1[OF E1]] e(2) n2]
  note E3 = eats_steps(5)[OF eats_clean[OF conjunct1[OF E2]] e(3) n3]
  note E4 = dec_encoding_inv[OF e(4) assms(2) eats_clean[OF conjunct1[OF E3]]]
  show ?thesis
    using eats_trans[OF conjunct1[OF E1] eats_trans[OF conjunct1[OF E2] eats_trans[OF conjunct1[OF E3] E4]]] E1 E2 E3
    by (simp add: r)
qed

lemma decode_written_inv:
  assumes "decode_fields 7 d = Some (r, d')" "dcErr d' = None" "clean d"
  shows "recordKind r = 7 \<and> rec_limits r \<and> eats d (rec_bytes r) d'"
proof -
  obtain v1 d1 v2 d2 v3 d3 v4 where
    e: "dec_str d = (v1, d1)" "dec_str d1 = (v2, d2)" "dec_u64 d2 = (v3, d3)" "dec_encoding d3 = (v4, d')"
    and r: "r = RWritten \<lparr>wrPath = v1, wrHash = v2, wrVersion = v3, wrEncoding = v4\<rparr>"
    using assms(1) by (auto simp: decode_fields_def split: prod.splits)
  note n3 = dec_unstuck(8)[OF e(4) assms(2)]
  note n2 = dec_unstuck(4)[OF e(3) n3]
  note n1 = dec_unstuck(5)[OF e(2) n2]
  note E1 = eats_steps(4)[OF assms(3) e(1) n1]
  note E2 = eats_steps(4)[OF eats_clean[OF conjunct1[OF E1]] e(2) n2]
  note E3 = eats_steps(3)[OF eats_clean[OF conjunct1[OF E2]] e(3) n3]
  note E4 = dec_encoding_inv[OF e(4) assms(2) eats_clean[OF E3]]
  show ?thesis
    using eats_trans[OF conjunct1[OF E1] eats_trans[OF conjunct1[OF E2] eats_trans[OF E3 E4]]] E1 E2
    by (simp add: r)
qed

lemma decode_small_inv:
  assumes "decode_fields k d = Some (r, d')" "k = 2 \<or> k = 4 \<or> k = 6" "dcErr d' = None" "clean d"
  shows "recordKind r = k \<and> rec_limits r \<and> eats d (rec_bytes r) d'"
  using assms(2)
proof (elim disjE)
  assume k: "k = 2"
  obtain v1 d1 v2 d2 v3 where e: "dec_u8 d = (v1, d1)" "dec_u64 d1 = (v2, d2)" "dec_blob d2 = (v3, d')"
    and r: "r = RStore \<lparr>saAuthor = v1, saStart = v2, saBlob = v3\<rparr>"
    using assms(1) k by (auto simp: decode_fields_def split: prod.splits)
  note n2 = dec_unstuck(6)[OF e(3) assms(3)]
  note n1 = dec_unstuck(4)[OF e(2) n2]
  note E1 = eats_steps(1)[OF assms(4) e(1) n1]
  note E2 = eats_steps(3)[OF eats_clean[OF E1] e(2) n2]
  note E3 = eats_steps(5)[OF eats_clean[OF E2] e(3) assms(3)]
  show ?thesis using eats_trans[OF E1 eats_trans[OF E2 conjunct1[OF E3]]] E3 by (simp add: r k)
next
  assume k: "k = 4"
  obtain v1 d1 v2 where e: "dec_u64 d = (v1, d1)" "dec_u8 d1 = (v2, d')" and r: "r = RDecision \<lparr>deGroup = v1, deState = v2\<rparr>"
    using assms(1) k by (auto simp: decode_fields_def split: prod.splits)
  note E1 = eats_steps(3)[OF assms(4) e(1) dec_unstuck(2)[OF e(2) assms(3)]]
  note E2 = eats_steps(1)[OF eats_clean[OF E1] e(2) assms(3)]
  show ?thesis using eats_trans[OF E1 E2] by (simp add: r k)
next
  assume k: "k = 6"
  obtain v1 where e: "dec_blob d = (v1, d')" "r = RSession v1"
    using assms(1) k by (auto simp: decode_fields_def split: prod.splits)
  show ?thesis using eats_steps(5)[OF assms(4) e(1) assms(3)] by (simp add: e(2) k)
qed

lemma decode_fields_kind: "decode_fields k d = Some x \<Longrightarrow> k = 1 \<or> k = 2 \<or> k = 3 \<or> k = 4 \<or> k = 5 \<or> k = 6 \<or> k = 7"
  by (auto simp: decode_fields_def split: if_splits)

lemma decode_fields_inv:
  assumes "decode_fields k d = Some (r, d')" "dcErr d' = None" "clean d"
  shows "recordKind r = k \<and> rec_limits r \<and>
    (eats d (rec_bytes r) d' \<or> (\<exists>v. r = RAuthor v \<and> auTask v = [] \<and> eats d (rec_bytes r @ u32_bytes 0) d'))"
proof -
  consider "k = 1" | "k = 3" | "k = 5" | "k = 7" | "k = 2 \<or> k = 4 \<or> k = 6" using decode_fields_kind[OF assms(1)] by auto
  then show ?thesis
  proof cases
    case 2
    then obtain q where "decode_op d = (q, d')" "r = ROp q" using assms(1) by (auto simp: decode_fields_def split: prod.splits)
    then show ?thesis using decode_op_inv[of d q d'] assms(2,3) 2 by simp
  qed (use decode_base_inv[OF _ assms(2,3)] decode_author_inv[OF _ assms(2,3)] decode_written_inv[OF _ assms(2,3)]
      decode_small_inv[OF assms(1) _ assms(2,3)] assms(1) in blast)+
qed

lemma eats_all: "eats (new_decoder b) bs d \<Longrightarrow> dcOff d = length b \<Longrightarrow> b = bs"
  by (auto simp: eats_def new_decoder_reading)

lemma encode_decoded:
  assumes "decodeRecord k b = Inr r"
  shows "recordKind r = k \<and> rec_limits r \<and> validate r = None \<and> (b = rec_bytes r \<or> empty_task r b)"
proof -
  obtain d where d: "decode_fields k (new_decoder b) = Some (r, d)" "dcErr d = None" "dcOff d = length b" "validate r = None"
    using assms by (auto simp: decodeRecord_def split: option.splits if_splits)
  from decode_fields_inv[OF d(1,2) clean_new] eats_all[OF _ d(3)] d(4) show ?thesis
    by (auto simp: empty_task_def)
qed

end
