(* ===== verification/LogFile.thy ===== *)
theory LogFile
  imports LogLaw "HOL-Library.Sublist"
begin

text \<open>
  The log file of \<open>internal/journal/journal.go\<close>: creating it, appending records, and scanning it back up to
  the first damaged record. A file is the list of its bytes; opening, reading, writing and syncing it are
  the operating system's and do not fail here, except that a write may stop anywhere (the torn files of
  \<open>torn_log\<close>). \<open>hash/crc32\<close> is modelled as the table-driven IEEE checksum it is.
\<close>

unbundle bit_operations_syntax

section \<open>CRC-32\<close>

definition crc_bit :: "32 word \<Rightarrow> 32 word" where
  "crc_bit c = (if bit c 0 then drop_bit 1 c XOR 0xEDB88320 else drop_bit 1 c)"

definition crc_table :: "byte \<Rightarrow> 32 word" where
  "crc_table b = (crc_bit ^^ 8) (ucast b)"

definition crc_update :: "32 word \<Rightarrow> byte list \<Rightarrow> 32 word" where
  "crc_update crc p = NOT (foldl (\<lambda>c b. crc_table (ucast c XOR b) XOR drop_bit 8 c) (NOT crc) p)"

lemma crc_update_append: "crc_update (crc_update c p) q = crc_update c (p @ q)"
  by (simp add: crc_update_def)

section \<open>Writing\<close>

definition Magic :: "byte list" where
  "Magic = [82, 65, 74, 76, 79, 71, 48, 49]"

definition FormatVersion :: nat where "FormatVersion = 2"
definition headerPrefixLen :: nat where "headerPrefixLen = length Magic + 2 + 2 + 4 + 4"
definition recordHeaderLen :: nat where "recordHeaderLen = 4 + 1 + 4"

definition header_file :: "byte list \<Rightarrow> byte list" where
  "header_file body = Magic @ le_bytes 2 (word_of_nat FormatVersion) @ le_bytes 2 0 @
     le_bytes 4 (word_of_nat (length body)) @ le_bytes 4 (ucast (crc_update 0 body)) @ body"

definition Create :: "Header \<Rightarrow> (enc_error, byte list) sum" where
  "Create h =
     (case encodeHeader h of
        Inl e \<Rightarrow> Inl e
      | Inr body \<Rightarrow> if MaxHeaderBytes < length body then Inl (HeaderTooLong (length body)) else Inr (header_file body))"

definition frame_of :: "byte \<Rightarrow> byte list \<Rightarrow> byte list" where
  "frame_of kind payload =
     (let start = le_bytes 4 (word_of_nat (length payload)) @ [kind];
          sum = crc_update (crc_update 0 start) payload
      in start @ le_bytes 4 (ucast sum) @ payload)"

definition Append :: "byte list \<Rightarrow> Record option \<Rightarrow> (enc_error, byte list) sum" where
  "Append file r =
     (case encodeRecord r of
        Inl e \<Rightarrow> Inl e
      | Inr (kind, payload) \<Rightarrow>
          if MaxRecordBytes < length payload then Inl (RecordTooLong (length payload))
          else Inr (file @ frame_of kind payload))"

text \<open>A run of appends that all succeed.\<close>

fun append_all :: "byte list \<Rightarrow> Record list \<Rightarrow> (enc_error, byte list) sum" where
  "append_all file [] = Inr file"
| "append_all file (r # rs) = (case Append file (Some r) of Inl e \<Rightarrow> Inl e | Inr file' \<Rightarrow> append_all file' rs)"

section \<open>Reading\<close>

datatype open_error = BadMagic "byte list" | BadFormat "64 word" | HeaderLength nat | HeaderChecksum
  | HeaderBody dec_error | RecordAt nat dec_error | DamagedTail nat nat

record Log =
  lgHeader :: Header
  lgRecords :: "Record list"
  lgTail :: nat
  lgSize :: nat
  lgDamaged :: bool

definition le_at :: "nat \<Rightarrow> nat \<Rightarrow> byte list \<Rightarrow> 64 word" where
  "le_at w off data = le_word (take w (drop off data))"

text \<open>The scan: the records found, where it stopped, and whether it stopped at damage.\<close>

function scan :: "byte list \<Rightarrow> nat \<Rightarrow> Record list \<Rightarrow> (open_error, Record list \<times> nat \<times> bool) sum" where
  "scan data off recs =
     (if off < length data then
        if length data - off < recordHeaderLen then Inr (recs, off, True)
        else let n = unat (le_at 4 off data); kind = data ! (off + 4); want = le_at 4 (off + 5) data;
                 off1 = off + recordHeaderLen
             in if MaxRecordBytes < n \<or> length data - off1 < n then Inr (recs, off, True)
                else let payload = take n (drop off1 data);
                         sum = crc_update (crc_update 0 (take 5 (drop off data))) payload
                     in if ucast sum \<noteq> want then Inr (recs, off, True)
                        else (case decodeRecord kind payload of
                                Inl e \<Rightarrow> Inl (RecordAt off e)
                              | Inr r \<Rightarrow> scan data (off1 + n) (recs @ [r]))
      else Inr (recs, off, False))"
  by pat_completeness auto
termination by (relation "measure (\<lambda>(data, off, recs). length data - off)") (auto simp: recordHeaderLen_def)

declare scan.simps [simp del]

definition no_header :: Header where
  "no_header = \<lparr>hdRoot = [], hdIdentity = []\<rparr>"

definition torn_header :: "byte list \<Rightarrow> Log" where
  "torn_header data = \<lparr>lgHeader = no_header, lgRecords = [], lgTail = 0, lgSize = length data, lgDamaged = True\<rparr>"

definition Open :: "byte list \<Rightarrow> (open_error, Log) sum" where
  "Open data =
     (if data = [] then Inr \<lparr>lgHeader = no_header, lgRecords = [], lgTail = 0, lgSize = 0, lgDamaged = False\<rparr>
      else if length data < headerPrefixLen then Inr (torn_header data)
      else if take (length Magic) data \<noteq> Magic then Inl (BadMagic (take (length Magic) data))
      else if le_at 2 (length Magic) data \<noteq> word_of_nat FormatVersion then Inl (BadFormat (le_at 2 (length Magic) data))
      else let bodyLen = unat (le_at 4 (length Magic + 4) data);
               bodyCRC = le_at 4 (length Magic + 8) data;
               end = headerPrefixLen + bodyLen
           in if MaxHeaderBytes < bodyLen then Inl (HeaderLength bodyLen)
              else if length data < end then Inr (torn_header data)
              else let body = take bodyLen (drop headerPrefixLen data)
                   in if ucast (crc_update 0 body) \<noteq> bodyCRC then Inl HeaderChecksum
                      else case decodeHeader body of
                        Inl e \<Rightarrow> Inl (HeaderBody e)
                      | Inr h \<Rightarrow>
                          (case scan data end [] of
                             Inl e \<Rightarrow> Inl e
                           | Inr (recs, off, damaged) \<Rightarrow>
                               Inr \<lparr>lgHeader = h, lgRecords = recs, lgTail = off, lgSize = length data,
                                    lgDamaged = (damaged \<or> off < length data)\<rparr>))"

definition Truncate :: "Log \<Rightarrow> byte list \<Rightarrow> byte list" where
  "Truncate l data = take (lgTail l) data"

text \<open>\<open>OpenWriter\<close>: the header to go on with, refused while the tail is damaged.\<close>

definition OpenWriter :: "byte list \<Rightarrow> (open_error, Header) sum" where
  "OpenWriter data =
     (case Open data of
        Inl e \<Rightarrow> Inl e
      | Inr l \<Rightarrow> if lgDamaged l then Inl (DamagedTail (lgSize l - lgTail l) (lgTail l)) else Inr (lgHeader l))"

definition Log_Encoding :: "Log \<Rightarrow> Encoding" where
  "Log_Encoding l =
     foldl (\<lambda>x r. case r of RBase v \<Rightarrow> baEncoding v | RWritten v \<Rightarrow> wrEncoding v | _ \<Rightarrow> x) no_encoding (lgRecords l)"

section \<open>Scanning frames\<close>

definition frame_rec :: "Record \<Rightarrow> byte list" where
  "frame_rec r = frame_of (recordKind r) (rec_bytes r)"

definition storable :: "Record \<Rightarrow> bool" where
  "storable r \<longleftrightarrow> rec_limits r \<and> length (rec_bytes r) \<le> MaxRecordBytes"

lemma Append_iff: "Append f (Some r) = Inr f' \<longleftrightarrow> storable r \<and> f' = f @ frame_rec r"
proof (cases "encodeRecord (Some r)")
  case (Inl e)
  then have "\<not> rec_limits r" using encodeRecord_iff[of r "recordKind r" "rec_bytes r"] by auto
  then show ?thesis using Inl by (simp add: Append_def storable_def)
next
  case (Inr kp)
  then have "rec_limits r" "kp = (recordKind r, rec_bytes r)" using encodeRecord_iff[of r "fst kp" "snd kp"] by (cases kp; simp)+
  then show ?thesis using Inr by (auto simp: Append_def storable_def frame_rec_def)
qed

lemma append_all_iff:
  "append_all f rs = Inr f' \<longleftrightarrow> (\<forall>r \<in> set rs. storable r) \<and> f' = f @ concat (map frame_rec rs)"
proof (induction rs arbitrary: f)
  case (Cons r rs)
  show ?case
  proof (cases "Append f (Some r)")
    case (Inl e)
    then show ?thesis using Append_iff[of f r "f @ frame_rec r"] by auto
  next
    case (Inr f1)
    then show ?thesis using Append_iff[of f r f1] Cons.IH[of f1] by auto
  qed
qed auto

lemma length_frame: "length (frame_rec r) = recordHeaderLen + length (rec_bytes r)"
  by (simp add: frame_rec_def frame_of_def recordHeaderLen_def Let_def)

lemma le_word_4_nat: "n \<le> 2 ^ 30 \<Longrightarrow> unat (le_word (le_bytes 4 (word_of_nat n))) = n"
  by (simp add: le_word_le_bytes unsigned_take_bit_eq unsigned_of_nat take_bit_nat_eq_self)

lemma le_word_4_ucast: "le_word (le_bytes 4 (ucast (v :: 32 word))) = ucast v"
  by (rule bit_word_eqI) (auto simp: le_word_le_bytes bit_unsigned_iff bit_take_bit_iff dest: bit_imp_le_length)

lemma scan_frame:
  assumes "storable r" "validate r = None"
  shows "scan (pre @ frame_rec r @ rest) (length pre) recs = scan (pre @ frame_rec r @ rest) (length pre + length (frame_rec r)) (recs @ [r])"
proof -
  let ?p = "rec_bytes r" and ?k = "recordKind r"
  let ?l = "le_bytes 4 (word_of_nat (length ?p)) :: byte list"
  let ?c = "le_bytes 4 (ucast (crc_update (crc_update 0 (?l @ [?k])) ?p)) :: byte list"
  define data where "data = pre @ frame_rec r @ rest"
  have f: "frame_rec r = ?l @ ?k # ?c @ ?p" by (simp add: frame_rec_def frame_of_def Let_def)
  have m: "length ?p \<le> MaxRecordBytes" "MaxRecordBytes = 2 ^ 30" using assms(1) by (simp_all add: storable_def MaxRecordBytes_def)
  have a: "le_at 4 (length pre) data = le_word ?l" "data ! (length pre + 4) = ?k" "le_at 4 (length pre + 5) data = le_word ?c"
    "take 5 (drop (length pre) data) = ?l @ [?k]" "take (length ?p) (drop (length pre + recordHeaderLen) data) = ?p"
    by (simp_all add: data_def le_at_def f nth_append recordHeaderLen_def)
  have n: "unat (le_at 4 (length pre) data) = length ?p" using m le_word_4_nat by (simp add: a(1))
  have d: "decodeRecord ?k ?p = Inr r" using decode_encoded assms by (simp add: storable_def)
  have len: "\<not> length data - length pre < recordHeaderLen" "\<not> length data - (length pre + recordHeaderLen) < length ?p"
      "length pre < length data" "length pre + recordHeaderLen + length ?p = length pre + length (frame_rec r)"
    by (simp_all add: data_def length_frame recordHeaderLen_def)
  show ?thesis
    unfolding data_def[symmetric] using len(1-3) m a(2,3,4,5) n d
    by (subst scan.simps) (simp add: le_word_4_ucast flip: len(4))
qed

lemma scan_frames:
  assumes "\<forall>r \<in> set rs. storable r \<and> validate r = None"
  shows "scan (pre @ concat (map frame_rec rs) @ rest) (length pre) recs =
    scan (pre @ concat (map frame_rec rs) @ rest) (length pre + length (concat (map frame_rec rs))) (recs @ rs)"
  using assms
proof (induction rs arbitrary: pre recs)
  case (Cons r rs)
  have "scan (pre @ frame_rec r @ concat (map frame_rec rs) @ rest) (length pre) recs =
      scan ((pre @ frame_rec r) @ concat (map frame_rec rs) @ rest) (length (pre @ frame_rec r)) (recs @ [r])"
    using scan_frame[of r pre] Cons.prems by simp
  also have "\<dots> = scan ((pre @ frame_rec r) @ concat (map frame_rec rs) @ rest)
      (length (pre @ frame_rec r) + length (concat (map frame_rec rs))) ((recs @ [r]) @ rs)"
    by (rule Cons.IH) (use Cons.prems in simp)
  finally show ?case by (simp add: add.assoc)
qed simp

text \<open>A cut inside a frame is a short record, whatever the bytes that are left.\<close>

lemma scan_cut:
  assumes "storable r" "junk = take j (frame_rec r)" "j < length (frame_rec r)"
  shows "scan (pre @ junk) (length pre) recs = Inr (recs, length pre, junk \<noteq> [])"
proof -
  define data where "data = pre @ junk"
  have j: "length junk < recordHeaderLen + length (rec_bytes r)" using assms(2,3) by (simp add: length_frame)
  have d: "length data - length pre = length junk" "length pre < length data \<longleftrightarrow> junk \<noteq> []" by (simp_all add: data_def)
  have n: "unat (le_at 4 (length pre) data) = length (rec_bytes r)" if "recordHeaderLen \<le> length junk"
  proof -
    have "take 4 (drop (length pre) data) = take 4 (frame_rec r)"
      using that assms(2,3) by (simp add: data_def recordHeaderLen_def take_take min_def)
    also have "\<dots> = le_bytes 4 (word_of_nat (length (rec_bytes r)))" by (simp add: frame_rec_def frame_of_def Let_def)
    finally show ?thesis using assms(1) le_word_4_nat by (simp add: le_at_def storable_def MaxRecordBytes_def)
  qed
  show ?thesis
  proof (cases "recordHeaderLen \<le> length junk")
    case True
    then have "length data - (length pre + recordHeaderLen) < length (rec_bytes r)" "junk \<noteq> []"
      using j d(1) by (auto simp: recordHeaderLen_def)
    then show ?thesis unfolding data_def[symmetric] using True d n by (subst scan.simps) simp
  next
    case False
    then show ?thesis unfolding data_def[symmetric] using d by (subst scan.simps) simp
  qed
qed

lemma scan_end: "scan data (length data) recs = Inr (recs, length data, False)"
  by (subst scan.simps) simp

text \<open>Where a cut falls in a run of frames.\<close>

lemma cut_frames:
  "\<exists>m junk. take k (concat (map frame_rec rs)) = concat (map frame_rec (take m rs)) @ junk \<and> m \<le> length rs \<and>
     (m = length rs \<and> junk = [] \<or> (\<exists>j. m < length rs \<and> j < length (frame_rec (rs ! m)) \<and> junk = take j (frame_rec (rs ! m))))"
proof (induction rs arbitrary: k)
  case (Cons r rs)
  show ?case
  proof (cases "k < length (frame_rec r)")
    case True
    then show ?thesis by (intro exI[of _ 0] exI[of _ "take k (frame_rec r)"]) auto
  next
    case False
    obtain m junk where m: "take (k - length (frame_rec r)) (concat (map frame_rec rs)) = concat (map frame_rec (take m rs)) @ junk"
      "m \<le> length rs" "m = length rs \<and> junk = [] \<or> (\<exists>j. m < length rs \<and> j < length (frame_rec (rs ! m)) \<and> junk = take j (frame_rec (rs ! m)))"
      using Cons.IH by blast
    then show ?thesis using False by (intro exI[of _ "Suc m"] exI[of _ junk]) auto
  qed
qed simp

lemma scan_torn:
  assumes "\<forall>r \<in> set rs. storable r \<and> validate r = None" "length pre \<le> k" "k \<le> length pre + length (concat (map frame_rec rs))"
  shows "\<exists>m. scan (take k (pre @ concat (map frame_rec rs))) (length pre) [] =
      Inr (take m rs, length (pre @ concat (map frame_rec (take m rs))), length (pre @ concat (map frame_rec (take m rs))) < k) \<and>
    length (pre @ concat (map frame_rec (take m rs))) \<le> k \<and> m \<le> length rs \<and>
    (m < length rs \<longrightarrow> k < length (pre @ concat (map frame_rec (take (Suc m) rs))))"
proof -
  let ?k = "k - length pre"
  obtain m junk where t: "take ?k (concat (map frame_rec rs)) = concat (map frame_rec (take m rs)) @ junk" "m \<le> length rs"
    and j: "m = length rs \<and> junk = [] \<or> (\<exists>j. m < length rs \<and> j < length (frame_rec (rs ! m)) \<and> junk = take j (frame_rec (rs ! m)))"
    using cut_frames by blast
  let ?c = "concat (map frame_rec (take m rs))"
  have d: "take k (pre @ concat (map frame_rec rs)) = pre @ ?c @ junk" using assms(2) t(1) by simp
  have "\<forall>r \<in> set (take m rs). storable r \<and> validate r = None" using assms(1) by (blast dest: in_set_takeD)
  note S = scan_frames[OF this, of pre junk "[]"]
  have l: "length pre + length ?c + length junk = k"
    using arg_cong[OF d, of length] assms(2,3) by (simp add: min_def split: if_splits)
  have J: "scan (pre @ ?c @ junk) (length pre + length ?c) (take m rs) = Inr (take m rs, length (pre @ ?c), junk \<noteq> [])"
    using j
  proof
    assume "\<exists>j. m < length rs \<and> j < length (frame_rec (rs ! m)) \<and> junk = take j (frame_rec (rs ! m))"
    then show ?thesis using scan_cut[of "rs ! m" junk _ "pre @ ?c" "take m rs"] assms(1) by auto
  qed (use scan_end[of "pre @ ?c" "take m rs"] in simp)
  have "m < length rs \<Longrightarrow> k < length (pre @ concat (map frame_rec (take (Suc m) rs)))"
    using j l by (auto simp: take_Suc_conv_app_nth)
  then show ?thesis using S J d l t(2) by (intro exI[of _ m]) auto
qed

section \<open>Opening a file that was written\<close>

lemma Create_iff: "Create h = Inr f \<longleftrightarrow> length (hdRoot h) \<le> MaxStringBytes \<and> length (hdIdentity h) \<le> MaxStringBytes \<and>
    length (header_bytes h) \<le> MaxHeaderBytes \<and> f = header_file (header_bytes h)"
proof (cases "encodeHeader h")
  case (Inl e)
  then show ?thesis using encodeHeader_iff[of h "header_bytes h"] by (auto simp: Create_def)
next
  case (Inr b)
  then show ?thesis using encodeHeader_iff[of h b] by (auto simp: Create_def)
qed

lemma decode_header:
  "length (hdRoot h) \<le> MaxStringBytes \<Longrightarrow> length (hdIdentity h) \<le> MaxStringBytes \<Longrightarrow> decodeHeader (header_bytes h) = Inr h"
  by (simp add: decodeHeader_def header_bytes_def new_decoder_reading dec_simps)

lemma length_header_file: "length (header_file body) = headerPrefixLen + length body"
  by (simp add: header_file_def headerPrefixLen_def)

lemma header_file_fields:
  "take (length Magic) (header_file body @ rest) = Magic"
  "le_at 2 (length Magic) (header_file body @ rest) = le_word (le_bytes 2 (word_of_nat FormatVersion))"
  "le_at 4 (length Magic + 4) (header_file body @ rest) = le_word (le_bytes 4 (word_of_nat (length body)))"
  "le_at 4 (length Magic + 8) (header_file body @ rest) = le_word (le_bytes 4 (ucast (crc_update 0 body)))"
  "take (length body) (drop headerPrefixLen (header_file body @ rest)) = body"
  by (simp_all add: header_file_def le_at_def headerPrefixLen_def)

lemma format_word: "le_word (le_bytes 2 (word_of_nat FormatVersion)) = word_of_nat FormatVersion"
  by (simp add: le_word_le_bytes FormatVersion_def)

lemma header_not_empty: "header_file body \<noteq> []"
  by (simp add: header_file_def Magic_def)

lemma Open_written:
  assumes "Create h = Inr f0"
  shows "Open (f0 @ rest) =
    (case scan (f0 @ rest) (length f0) [] of
       Inl e \<Rightarrow> Inl e
     | Inr (recs, off, damaged) \<Rightarrow>
         Inr \<lparr>lgHeader = h, lgRecords = recs, lgTail = off, lgSize = length (f0 @ rest), lgDamaged = (damaged \<or> off < length (f0 @ rest))\<rparr>)"
proof -
  let ?b = "header_bytes h"
  have c: "decodeHeader ?b = Inr h" "length ?b \<le> MaxHeaderBytes" "f0 = header_file ?b"
    using assms decode_header by (auto simp: Create_iff)
  have m: "MaxHeaderBytes \<le> 2 ^ 30" by (simp add: MaxHeaderBytes_def)
  define data where "data = f0 @ rest"
  note F = header_file_fields[of ?b rest, folded c(3), folded data_def]
  have n: "unat (le_at 4 (length Magic + 4) data) = length ?b" using F(3) le_word_4_nat c(2) m by simp
  have l: "length f0 = headerPrefixLen + length ?b" "data \<noteq> []" "\<not> length data < headerPrefixLen" "\<not> length data < headerPrefixLen + length ?b"
    using header_not_empty[of ?b] by (simp_all add: data_def c(3) length_header_file)
  show ?thesis
    unfolding data_def[symmetric] Open_def Let_def using l(2-) F c(1,2) n
    by (simp add: format_word le_word_4_ucast l(1))
qed

lemma Open_torn_header:
  assumes "Create h = Inr f0" "k < length f0"
  shows "Open (take k f0) = Inr \<lparr>lgHeader = no_header, lgRecords = [], lgTail = 0, lgSize = k, lgDamaged = (0 < k)\<rparr>"
proof -
  let ?b = "header_bytes h"
  have c: "length ?b \<le> MaxHeaderBytes" "f0 = header_file ?b" using assms(1) by (auto simp: Create_iff)
  have m: "MaxHeaderBytes \<le> 2 ^ 30" by (simp add: MaxHeaderBytes_def)
  have l: "length (take k f0) = k" using assms(2) by simp
  show ?thesis
  proof (cases "k < headerPrefixLen")
    case True
    then show ?thesis using l by (auto simp: Open_def torn_header_def)
  next
    case False
    have tk: "take w (drop i (take k f0)) = take w (drop i f0)" if "i + w \<le> headerPrefixLen" for i w
      using that False by (simp add: drop_take take_take min_def)
    have h: "length Magic + 4 + 4 \<le> headerPrefixLen" "length Magic + 2 \<le> headerPrefixLen" "0 + length Magic \<le> headerPrefixLen"
      by (simp_all add: headerPrefixLen_def)
    note F = header_file_fields[of ?b "[]", simplified, folded c(2)]
    have f: "take (length Magic) (take k f0) = Magic" "le_at 2 (length Magic) (take k f0) = word_of_nat FormatVersion"
      "unat (le_at 4 (length Magic + 4) (take k f0)) = length ?b"
      using tk[OF h(3)] tk[OF h(2)] tk[OF h(1)] F(1-3) format_word le_word_4_nat[of "length ?b"] c(1) m
      by (simp_all add: le_at_def)
    have s: "k < headerPrefixLen + length ?b" "0 < k" "take k f0 \<noteq> []" using assms(2) False c(2) l header_not_empty[of ?b]
      by (auto simp: length_header_file headerPrefixLen_def header_not_empty)
    show ?thesis unfolding Open_def using f s False l c(1) by (simp add: Let_def torn_header_def)
  qed
qed

end
