(* ===== verification/LogProps.thy ===== *)
theory LogProps
  imports LogFile
begin

text \<open>
  Properties of the op log on disk (\<open>internal/journal/journal.go\<close>): what was written is read back, a
  crash loses at most the record being written, and a record is read in one way only.
\<close>

text \<open>C10: a log created and appended to opens undamaged with the same header and the same records in order,
  and can be appended to again.\<close>

theorem log_reopens:
  assumes "Create h = Inr f0" "append_all f0 rs = Inr f" "\<forall>r \<in> set rs. validate r = None"
  shows "Open f = Inr \<lparr>lgHeader = h, lgRecords = rs, lgTail = length f, lgSize = length f, lgDamaged = False\<rparr> \<and> OpenWriter f = Inr h"
proof -
  have f: "f = f0 @ concat (map frame_rec rs)" "\<forall>r \<in> set rs. storable r \<and> validate r = None"
    using assms(2,3) by (auto simp: append_all_iff)
  from scan_frames[OF f(2), of f0 "[]" "[]"] scan_end[of f rs]
  have "scan f (length f0) [] = Inr (rs, length f, False)" by (simp add: f(1))
  then show ?thesis using Open_written[OF assms(1), of "concat (map frame_rec rs)", folded f(1)] by (simp add: OpenWriter_def)
qed

definition demo_header :: Header where
  "demo_header = \<lparr>hdRoot = [47], hdIdentity = [109]\<rparr>"

definition demo_records :: "Record list" where
  "demo_records = [RStore \<lparr>saAuthor = 1, saStart = 0, saBlob = [104, 105]\<rparr>, RDecision \<lparr>deGroup = 3, deState = 1\<rparr>]"

lemma demo_created: "Create demo_header = Inr (header_file (header_bytes demo_header))"
  by (simp add: Create_iff demo_header_def MaxStringBytes_def MaxHeaderBytes_def header_bytes_def str_bytes_def u32_bytes_def)

lemma demo_appended: "append_all f demo_records = Inr (f @ concat (map frame_rec demo_records))"
  unfolding append_all_iff by (simp add: demo_records_def storable_def MaxBlobBytes_def MaxRecordBytes_def blob_bytes_def)

theorem log_reopens_witness: "OpenWriter (header_file (header_bytes demo_header) @ concat (map frame_rec demo_records)) = Inr demo_header"
proof -
  have "\<forall>r \<in> set demo_records. validate r = None" by (simp add: demo_records_def)
  from log_reopens[OF demo_created demo_appended this] show ?thesis by simp
qed



text \<open>A payload that decodes is the only encoding of its record: encoding the record gives the payload
  back, byte for byte. The one exception is an author row that spells out an empty task.\<close>

theorem decode_canonical:
  assumes "decodeRecord k b = Inr r"
  shows "validate r = None \<and> recordKind r = k \<and> (encodeRecord (Some r) = Inr (k, b) \<or>
    (\<exists>v. r = RAuthor v \<and> auTask v = [] \<and> encodeRecord (Some r) = Inr (k, take (length b - 4) b)))"
  using encode_decoded[OF assms] by (auto simp: encodeRecord_iff empty_task_def u32_bytes_def)

theorem decode_canonical_witness:
  "encodeRecord (Some (RDecision \<lparr>deGroup = 3, deState = 1\<rparr>)) = Inr (4, le_bytes 8 3 @ [1])"
proof -
  have "decodeRecord 4 (le_bytes 8 3 @ [1]) = Inr (RDecision \<lparr>deGroup = 3, deState = 1\<rparr>)"
    using decode_encoded[of "RDecision \<lparr>deGroup = 3, deState = 1\<rparr>"] by simp
  from decode_canonical[OF this] show ?thesis by simp
qed

text \<open>The row the exception is about decodes, and is written back four bytes shorter.\<close>

lemma author_row_not_canonical:
  "decodeRecord 5 ([7] @ str_bytes [] @ str_bytes [] @ [1] @ str_bytes []) =
     Inr (RAuthor \<lparr>auID = 7, auIdentity = [], auName = [], auKind = 1, auTask = []\<rparr>)"
  "encodeRecord (Some (RAuthor \<lparr>auID = 7, auIdentity = [], auName = [], auKind = 1, auTask = []\<rparr>)) =
     Inr (5, [7] @ str_bytes [] @ str_bytes [] @ [1])"
  by (simp_all add: decodeRecord_def decode_fields_def new_decoder_reading dec_simps MaxStringBytes_def encodeRecord_iff)

end
