(* ===== verification/GoBytes.thy ===== *)
theory GoBytes
  imports Prelude
begin

text \<open>
  What the program uses of Go's \<open>bytes\<close>, \<open>strings\<close> and \<open>strconv\<close>, on byte lists, with the laws the
  components share.
\<close>

section \<open>Prefixes, searching, splitting\<close>

definition HasPrefix :: "'a list \<Rightarrow> 'a list \<Rightarrow> bool" where
  "HasPrefix data p \<longleftrightarrow> take (length p) data = p"

text \<open>\<open>Index\<close>: where a separator first occurs.\<close>

fun Index :: "'a list \<Rightarrow> 'a list \<Rightarrow> nat option" where
  "Index [] sep = (if sep = [] then Some 0 else None)"
| "Index (b # bs) sep = (if HasPrefix (b # bs) sep then Some 0 else map_option Suc (Index bs sep))"

text \<open>\<open>Split\<close> on one byte: always at least one field.\<close>

fun split_on :: "'a \<Rightarrow> 'a list \<Rightarrow> 'a list list" where
  "split_on sep [] = [[]]"
| "split_on sep (b # bs) =
     (if b = sep then [] # split_on sep bs
      else case split_on sep bs of [] \<Rightarrow> [[b]] | f # fs \<Rightarrow> (b # f) # fs)"

text \<open>\<open>ReplaceAll\<close>, for a separator that is not empty.\<close>

function replace_all :: "'a list \<Rightarrow> 'a list \<Rightarrow> 'a list \<Rightarrow> 'a list" where
  "replace_all old new [] = []"
| "replace_all old new (b # bs) =
     (if old \<noteq> [] \<and> HasPrefix (b # bs) old then new @ replace_all old new (drop (length old) (b # bs))
      else b # replace_all old new bs)"
  by pat_completeness auto
termination
  by (relation "measure (\<lambda>(old, new, bs). length bs)") auto

section \<open>Numbers\<close>

text \<open>\<open>strconv.Atoi\<close> on a 64-bit machine: an optional sign, at least one digit, nothing else, in range.\<close>

definition is_digit :: "byte \<Rightarrow> bool" where
  "is_digit b \<longleftrightarrow> 0x30 \<le> b \<and> b \<le> 0x39"

definition digits_value :: "byte list \<Rightarrow> int" where
  "digits_value bs = foldl (\<lambda>n b. n * 10 + int (unat (b - 0x30))) 0 bs"

definition Atoi :: "byte list \<Rightarrow> int option" where
  "Atoi s =
     (let neg = (s \<noteq> [] \<and> hd s = 0x2D);
          ds = (if s \<noteq> [] \<and> (hd s = 0x2D \<or> hd s = 0x2B) then tl s else s);
          v = (if neg then - digits_value ds else digits_value ds)
      in if ds = [] \<or> \<not> list_all is_digit ds \<or> v < - (2 ^ 63) \<or> 2 ^ 63 \<le> v then None else Some v)"

text \<open>Decimal digits, as \<open>strconv.Itoa\<close> and \<open>%d\<close> print a natural number.\<close>

fun decimal :: "nat \<Rightarrow> byte list" where
  "decimal n = (if n < 10 then [0x30 + word_of_nat n] else decimal (n div 10) @ [0x30 + word_of_nat (n mod 10)])"

declare decimal.simps [simp del]

section \<open>Laws\<close>

lemma HasPrefix_split: "HasPrefix data p \<Longrightarrow> data = p @ drop (length p) data"
  by (metis HasPrefix_def append_take_drop_id)

lemma HasPrefix_append [simp]: "HasPrefix (p @ xs) p"
  by (simp add: HasPrefix_def)

lemma HasPrefix_extend: "HasPrefix b p \<Longrightarrow> HasPrefix (b @ x) p"
  by (metis HasPrefix_append HasPrefix_split append.assoc)

lemma HasPrefix_long: "length p \<le> length b \<Longrightarrow> HasPrefix (b @ x) p = HasPrefix b p"
  by (simp add: HasPrefix_def)

lemma HasPrefix_nth: "HasPrefix (drop j b) p \<Longrightarrow> k < length p \<Longrightarrow> j \<le> length b \<Longrightarrow> b ! (j + k) = p ! k"
  by (metis HasPrefix_split nth_append nth_drop)

lemma Index_Some: "Index b sep = Some i \<Longrightarrow> i + length sep \<le> length b \<and> HasPrefix (drop i b) sep"
proof (induction b arbitrary: i)
  case (Cons a b)
  show ?case
  proof (cases "HasPrefix (a # b) sep")
    case True
    then show ?thesis using Cons.prems HasPrefix_split[OF True] by (metis Index.simps(2) add_0 append_take_drop_id drop_0 length_append le_add1 option.inject)
  qed (use Cons in \<open>auto split: if_splits\<close>)
qed (simp split: if_splits add: HasPrefix_def)

lemma Index_first: "Index b sep = Some i \<Longrightarrow> j < i \<Longrightarrow> \<not> HasPrefix (drop j b) sep"
proof (induction b arbitrary: i j)
  case (Cons a b)
  then show ?case by (cases j) (auto split: if_splits)
qed (simp split: if_splits)

lemma Index_is: "i + length sep \<le> length b \<Longrightarrow> HasPrefix (drop i b) sep \<Longrightarrow> (\<And>j. j < i \<Longrightarrow> \<not> HasPrefix (drop j b) sep) \<Longrightarrow> Index b sep = Some i"
proof (induction b arbitrary: i)
  case (Cons a b)
  show ?case
  proof (cases i)
    case 0
    then show ?thesis using Cons.prems(2) by simp
  next
    case (Suc k)
    have "\<not> HasPrefix (drop j b) sep" if "j < k" for j using Cons.prems(3)[of "Suc j"] that Suc by simp
    then have "Index b sep = Some k" using Cons.prems(1,2) Suc by (intro Cons.IH) simp_all
    moreover have "\<not> HasPrefix (a # b) sep" using Cons.prems(3)[of 0] Suc by simp
    ultimately show ?thesis by (simp add: Suc)
  qed
qed simp

lemma Index_None: "Index b sep = None \<Longrightarrow> \<not> HasPrefix (drop j b) sep \<or> length b < j + length sep"
proof (induction b arbitrary: j)
  case (Cons a b)
  then show ?case by (cases j) (auto split: if_splits)
qed (auto simp: HasPrefix_def split: if_splits)

lemma Index_extend: "Index b sep = Some i \<Longrightarrow> Index (b @ x) sep = Some i"
proof (rule Index_is)
  assume i: "Index b sep = Some i"
  note I = Index_Some[OF i]
  show "i + length sep \<le> length (b @ x)" using I by simp
  show "HasPrefix (drop i (b @ x)) sep" using I HasPrefix_extend[of "drop i b" sep x] by simp
  fix j assume j: "j < i"
  have "HasPrefix (drop j b @ x) sep = HasPrefix (drop j b) sep" by (rule HasPrefix_long) (use I j in \<open>simp add: le_diff_conv2\<close>)
  then show "\<not> HasPrefix (drop j (b @ x)) sep" using Index_first[OF i j] I j by simp
qed

lemma split_on_not_Nil [simp]: "split_on sep bs \<noteq> []"
  by (cases bs) (auto split: list.splits)

lemma split_on_field: "sep \<notin> set f \<Longrightarrow> split_on sep f = [f]"
  by (induction f) auto

lemma split_on_append: "sep \<notin> set f \<Longrightarrow> split_on sep (f @ sep # rest) = f # split_on sep rest"
  by (induction f) auto

lemma digits_value_Nil [simp]: "digits_value [] = 0"
  by (simp add: digits_value_def)

lemma digits_value_snoc [simp]: "digits_value (xs @ [b]) = digits_value xs * 10 + int (unat (b - 0x30))"
  by (simp add: digits_value_def)

lemma digit_byte: "n < 10 \<Longrightarrow> is_digit (0x30 + word_of_nat n) \<and> unat ((0x30 :: byte) + word_of_nat n - 0x30) = n"
proof -
  assume n: "n < 10"
  have u: "unat (word_of_nat n :: byte) = n" using n by (simp add: unsigned_of_nat take_bit_nat_eq_self)
  have "unat ((0x30 :: byte) + word_of_nat n) = 0x30 + n" using u n by (simp add: unat_word_ariths)
  then show ?thesis using n u by (simp add: is_digit_def word_le_nat_alt)
qed

lemma decimal_digits: "list_all is_digit (decimal n) \<and> decimal n \<noteq> [] \<and> digits_value (decimal n) = int n"
proof (induction n rule: decimal.induct)
  case (1 n)
  show ?case
  proof (cases "n < 10")
    case True
    then show ?thesis using digit_byte[OF True] digits_value_snoc[of "[]" "0x30 + word_of_nat n"] by (simp add: decimal.simps[of n])
  next
    case False
    have "n mod 10 < 10" by simp
    note D = digit_byte[OF this]
    have "int (n div 10) * 10 + int (n mod 10) = int n" by (simp add: zdiv_int zmod_int)
    then show ?thesis using 1[OF False] D False unfolding decimal.simps[of n] by (simp del: of_nat_mod)
  qed
qed

end
