(* ===== verification/Utf8.thy ===== *)
theory Utf8
  imports GoBytes
begin

text \<open>
  What the program uses of Go's \<open>unicode/utf8\<close> and \<open>unicode/utf16\<close>, on strings as byte lists and
  runes as natural numbers: decoding one rune (an invalid sequence is U+FFFD of width one), ranging over
  a string, encoding, validity, and surrogate pairs. The lemmas give the two round trips.
\<close>

section \<open>UTF-8\<close>

definition RuneError :: nat where "RuneError = 65533"

definition scalar :: "nat \<Rightarrow> bool" where
  "scalar r \<longleftrightarrow> r < 55296 \<or> 57344 \<le> r \<and> r < 1114112"

definition cont :: "byte \<Rightarrow> bool" where
  "cont b \<longleftrightarrow> 128 \<le> unat b \<and> unat b < 192"

text \<open>The second byte a lead byte accepts: no overlong form, no surrogate, nothing past U+10FFFF.\<close>

definition second_ok :: "nat \<Rightarrow> byte \<Rightarrow> bool" where
  "second_ok c b \<longleftrightarrow> (if c = 224 then 160 else if c = 240 then 144 else 128) \<le> unat b \<and>
     unat b < (if c = 237 then 160 else if c = 244 then 144 else 192)"

fun DecodeRune :: "byte list \<Rightarrow> nat \<times> nat" where
  "DecodeRune [] = (RuneError, 0)"
| "DecodeRune (b # bs) =
     (let c = unat b in
      if c < 128 then (c, 1)
      else if 194 \<le> c \<and> c < 224 then
        (case bs of b1 # _ \<Rightarrow> if cont b1 then ((c - 192) * 64 + (unat b1 - 128), 2) else (RuneError, 1) | [] \<Rightarrow> (RuneError, 1))
      else if 224 \<le> c \<and> c < 240 then
        (case bs of
           b1 # b2 # _ \<Rightarrow>
             if second_ok c b1 \<and> cont b2 then ((c - 224) * 4096 + (unat b1 - 128) * 64 + (unat b2 - 128), 3) else (RuneError, 1)
         | _ \<Rightarrow> (RuneError, 1))
      else if 240 \<le> c \<and> c < 245 then
        (case bs of
           b1 # b2 # b3 # _ \<Rightarrow>
             if second_ok c b1 \<and> cont b2 \<and> cont b3
             then ((c - 240) * 262144 + (unat b1 - 128) * 4096 + (unat b2 - 128) * 64 + (unat b3 - 128), 4)
             else (RuneError, 1)
         | _ \<Rightarrow> (RuneError, 1))
      else (RuneError, 1))"

definition byte_of :: "nat \<Rightarrow> byte" where
  "byte_of n = word_of_nat n"

definition EncodeRune :: "nat \<Rightarrow> byte list" where
  "EncodeRune r =
     (let r = (if scalar r then r else RuneError) in
      if r < 128 then [byte_of r]
      else if r < 2048 then [byte_of (192 + r div 64), byte_of (128 + r mod 64)]
      else if r < 65536 then
        [byte_of (224 + r div 4096), byte_of (128 + r div 64 mod 64), byte_of (128 + r mod 64)]
      else [byte_of (240 + r div 262144), byte_of (128 + r div 4096 mod 64), byte_of (128 + r div 64 mod 64),
            byte_of (128 + r mod 64)])"

definition RuneLen :: "nat \<Rightarrow> int" where
  "RuneLen r = (if \<not> scalar r then -1 else if r < 128 then 1 else if r < 2048 then 2 else if r < 65536 then 3 else 4)"

lemma DecodeRune_size: "DecodeRune bs = (r, n) \<Longrightarrow> n \<le> length bs \<and> (bs \<noteq> [] \<longrightarrow> 0 < n)"
  by (cases bs) (auto simp: Let_def split: if_splits list.splits)

text \<open>\<open>for i, r := range s\<close>: the runes of a string with their byte offsets and sizes.\<close>

function range_runes :: "nat \<Rightarrow> byte list \<Rightarrow> (nat \<times> nat \<times> nat) list" where
  "range_runes i bs =
     (if bs = [] then []
      else case DecodeRune bs of (r, n) \<Rightarrow> (i, r, n) # range_runes (i + n) (drop n bs))"
  by pat_completeness auto
termination by (relation "measure (\<lambda>(i, bs). length bs)") (auto dest!: DecodeRune_size[OF sym])

declare range_runes.simps [simp del]

definition runes :: "byte list \<Rightarrow> nat list" where
  "runes bs = map (fst \<circ> snd) (range_runes 0 bs)"

function Valid :: "byte list \<Rightarrow> bool" where
  "Valid bs = (if bs = [] then True
     else case DecodeRune bs of (r, n) \<Rightarrow> \<not> (r = RuneError \<and> n = 1) \<and> Valid (drop n bs))"
  by pat_completeness auto
termination by (relation "measure length") (auto dest!: DecodeRune_size[OF sym])

declare Valid.simps [simp del]

definition utf8_string :: "nat list \<Rightarrow> byte list" where
  "utf8_string rs = concat (map EncodeRune rs)"

section \<open>Round trips\<close>

lemma unat_byte [simp]: "n < 256 \<Longrightarrow> unat (byte_of n) = n"
  by (simp add: byte_of_def unsigned_of_nat take_bit_nat_eq_self)

lemma byte_of_unat [simp]: "byte_of (unat b) = b"
  by (simp add: byte_of_def)

lemma unat_lt_256: "unat (b :: byte) < 256"
  using unsigned_less[of b] by simp

lemma EncodeRune_nonempty [simp]: "EncodeRune r \<noteq> []"
  by (simp add: EncodeRune_def Let_def)

lemma base_64: "r div 4096 * 4096 + r div 64 mod 64 * 64 + r mod 64 = (r :: nat)"
  "r div 262144 * 262144 + r div 4096 mod 64 * 4096 + r div 64 mod 64 * 64 + r mod 64 = r"
proof -
  have d: "r div 4096 = r div 64 div 64" "r div 262144 = r div 64 div 64 div 64" by (simp_all flip: div_mult2_eq)
  note m = div_mult_mod_eq[of r 64] div_mult_mod_eq[of "r div 64" 64] div_mult_mod_eq[of "r div 64 div 64" 64]
  show "r div 4096 * 4096 + r div 64 mod 64 * 64 + r mod 64 = r" using m(1,2) unfolding d by linarith
  show "r div 262144 * 262144 + r div 4096 mod 64 * 4096 + r div 64 mod 64 * 64 + r mod 64 = r" using m unfolding d by linarith
qed

lemma decode_encode:
  assumes "scalar r"
  shows "DecodeRune (EncodeRune r @ rest) = (r, length (EncodeRune r))"
proof -
  have s: "r < 1114112" using assms by (auto simp: scalar_def)
  consider "r < 128" | "128 \<le> r" "r < 2048" | "2048 \<le> r" "r < 65536" | "65536 \<le> r" by linarith
  then show ?thesis
  proof cases
    case 1
    then show ?thesis using assms by (simp add: EncodeRune_def)
  next
    case 2
    define q m where "q = r div 64" "m = r mod 64"
    have "2 \<le> q" "q < 32" "m < 64" "q * 64 + m = r" using 2 by (auto simp: q_m_def)
    then show ?thesis using assms 2 by (simp add: EncodeRune_def cont_def Let_def flip: q_m_def)
  next
    case 3
    define q m k where "q = r div 4096" "m = r div 64 mod 64" "k = r mod 64"
    have e: "q * 4096 + m * 64 + k = r" "m < 64" "k < 64" using base_64(1)[of r] by (simp_all add: q_m_k_def)
    then have "q < 16" "q = 0 \<Longrightarrow> 32 \<le> m" using 3 by linarith+
    moreover have "q = 13 \<Longrightarrow> m < 32"
    proof -
      assume h: "q = 13"
      have "r < 57344" using e h by linarith
      then have "r < 55296" using assms by (auto simp: scalar_def)
      then show "m < 32" using e h by linarith
    qed
    ultimately show ?thesis
      using assms 3 e by (simp add: EncodeRune_def cont_def second_ok_def Let_def flip: q_m_k_def)
  next
    case 4
    define q m k j where "q = r div 262144" "m = r div 4096 mod 64" "k = r div 64 mod 64" "j = r mod 64"
    have e: "q * 262144 + m * 4096 + k * 64 + j = r" "m < 64" "k < 64" "j < 64" using base_64(2)[of r] by (simp_all add: q_m_k_j_def)
    then have "q < 5" "q = 0 \<Longrightarrow> 16 \<le> m" "q = 4 \<Longrightarrow> m < 16" using 4 s by linarith+
    then show ?thesis
      using assms 4 e by (simp add: EncodeRune_def cont_def second_ok_def Let_def flip: q_m_k_j_def)
  qed
qed

lemma digit_64: "k < 64 \<Longrightarrow> (a * 64 + k) div 64 = (a :: nat)" "k < 64 \<Longrightarrow> (a * 64 + k) mod 64 = k"
  by simp_all

text \<open>A sequence that decodes without error is the encoding of its rune.\<close>

lemma EncodeRune_byte: "scalar r \<Longrightarrow> r < 128 \<Longrightarrow> EncodeRune r = [byte_of r]"
  by (simp add: EncodeRune_def)

lemma encode_decode:
  assumes "DecodeRune bs = (r, n)" "bs \<noteq> []" "\<not> (r = RuneError \<and> n = 1)"
  shows "scalar r \<and> take n bs = EncodeRune r"
proof -
  obtain b xs where bs: "bs = b # xs" using assms(2) by (cases bs) auto
  let ?c = "unat b"
  consider "?c < 128" | "194 \<le> ?c" "?c < 224" | "224 \<le> ?c" "?c < 240" | "240 \<le> ?c" "?c < 245"
    using assms(1,3) by (fastforce simp: bs Let_def split: if_splits)
  then show ?thesis
  proof cases
    case 1
    then have "r = ?c" "n = 1" using assms(1) by (auto simp: bs)
    moreover have "scalar ?c" using 1 by (simp add: scalar_def)
    ultimately show ?thesis using 1 by (simp add: bs EncodeRune_def)
  next
    case 2
    obtain b1 ys where x: "xs = b1 # ys" "cont b1" "r = (?c - 192) * 64 + (unat b1 - 128)" "n = 2"
      using assms(1,3) 2 by (auto simp: bs Let_def split: list.splits if_splits)
    define q m where "q = ?c - 192" "m = unat b1 - 128"
    have b: "b = byte_of (192 + q)" "b1 = byte_of (128 + m)" "2 \<le> q" "q < 32" "m < 64" "r = q * 64 + m"
      using 2 x(2,3) by (simp_all add: q_m_def cont_def) (linarith+)?
    have d: "r div 64 = q" "r mod 64 = m" "128 \<le> r" "r < 2048" "scalar r" using b(3-6) by (simp_all add: scalar_def)
    show ?thesis using d x(4) by (simp add: bs x(1) EncodeRune_def b(1,2))
  next
    case 3
    obtain b1 b2 ys where x: "xs = b1 # b2 # ys" "second_ok ?c b1" "cont b2"
        "r = (?c - 224) * 4096 + (unat b1 - 128) * 64 + (unat b2 - 128)" "n = 3"
      using assms(1,3) 3 by (auto simp: bs Let_def split: list.splits if_splits)
    define q m k where "q = ?c - 224" "m = unat b1 - 128" "k = unat b2 - 128"
    have s: "128 \<le> unat b1" "unat b1 < 192" "?c - 224 = 0 \<Longrightarrow> 160 \<le> unat b1" "?c - 224 = 13 \<Longrightarrow> unat b1 < 160"
      using x(2) 3 by (auto simp: second_ok_def split: if_splits)
    have s2: "128 \<le> unat b2" "unat b2 < 192" using x(3) by (simp_all add: cont_def)
    have b: "b = byte_of (224 + q)" "b1 = byte_of (128 + m)" "b2 = byte_of (128 + k)" "q < 16" "m < 64" "k < 64"
        "r = (q * 64 + m) * 64 + k" "q = 0 \<Longrightarrow> 32 \<le> m" "q = 13 \<Longrightarrow> m < 32"
      using 3 x(4) s s2 by (simp_all add: q_m_k_def)
    have d1: "r div 64 = q * 64 + m" "r mod 64 = k" unfolding b(7) by (rule digit_64[OF b(6)])+
    have d: "r div 4096 = q" "r div 64 mod 64 = m"
      using digit_64[OF b(5), of q] d1(1) div_mult2_eq[of r 64 64] by simp_all
    have R: "r = q * 4096 + m * 64 + k" using b(7) by simp
    have "2048 \<le> r" using R b(8) by (cases "q = 0") simp_all
    moreover have "r < 65536" using b(4-6) R by linarith
    moreover have "scalar r"
    proof (cases "q < 13")
      case True
      then have "r < 55296" using b(5,6) R by linarith
      then show ?thesis by (simp add: scalar_def)
    next
      case False
      then show ?thesis
      proof (cases "q = 13")
        case True
        then have "r < 55296" using b(6,9) R by linarith
        then show ?thesis by (simp add: scalar_def)
      next
        case False
        then have "57344 \<le> r" using \<open>\<not> q < 13\<close> R by linarith
        then show ?thesis using \<open>r < 65536\<close> by (simp add: scalar_def)
      qed
    qed
    ultimately show ?thesis using d d1(2) x(5) by (simp add: bs x(1) EncodeRune_def b(1,2,3))
  next
    case 4
    obtain b1 b2 b3 ys where x: "xs = b1 # b2 # b3 # ys" "second_ok ?c b1" "cont b2" "cont b3"
        "r = (?c - 240) * 262144 + (unat b1 - 128) * 4096 + (unat b2 - 128) * 64 + (unat b3 - 128)" "n = 4"
      using assms(1,3) 4 by (auto simp: bs Let_def split: list.splits if_splits)
    define q m k j where "q = ?c - 240" "m = unat b1 - 128" "k = unat b2 - 128" "j = unat b3 - 128"
    have s: "128 \<le> unat b1" "unat b1 < 192" "?c - 240 = 0 \<Longrightarrow> 144 \<le> unat b1" "?c - 240 = 4 \<Longrightarrow> unat b1 < 144"
      using x(2) 4 by (auto simp: second_ok_def split: if_splits)
    have s2: "128 \<le> unat b2" "unat b2 < 192" "128 \<le> unat b3" "unat b3 < 192" using x(3,4) by (simp_all add: cont_def)
    have b: "b = byte_of (240 + q)" "b1 = byte_of (128 + m)" "b2 = byte_of (128 + k)" "b3 = byte_of (128 + j)" "q < 5" "m < 64" "k < 64" "j < 64"
        "q = 0 \<Longrightarrow> 16 \<le> m" "q = 4 \<Longrightarrow> m < 16"
      using 4 s s2 by (simp_all add: q_m_k_j_def)
    have R: "r = q * 262144 + m * 4096 + k * 64 + j" by (simp only: x(5) q_m_k_j_def)
    then have r: "r = ((q * 64 + m) * 64 + k) * 64 + j" by simp
    have d1: "r div 64 = (q * 64 + m) * 64 + k" "r mod 64 = j" unfolding r by (rule digit_64[OF b(8)])+
    have d2: "r div 4096 = q * 64 + m" "r div 64 mod 64 = k"
      using digit_64[OF b(7), of "q * 64 + m"] d1(1) div_mult2_eq[of r 64 64] by simp_all
    have d: "r div 262144 = q" "r div 4096 mod 64 = m"
      using digit_64[OF b(6), of q] d2(1) div_mult2_eq[of r 4096 64] by simp_all
    have l: "65536 \<le> r" using R b(9) by (cases "q = 0") simp_all
    moreover have "r < 1114112"
    proof (cases "q = 4")
      case True
      then show ?thesis using b(7,8,10) R by linarith
    next
      case False
      then show ?thesis using b(5-8) R by linarith
    qed
    then have "scalar r" using l by (simp add: scalar_def)
    ultimately show ?thesis using d d2 d1(2) x(6) by (simp add: bs x(1) EncodeRune_def b(1-4))
  qed
qed

text \<open>Strings of runes.\<close>

lemma range_runes_Nil [simp]: "range_runes i [] = []"
  by (simp add: range_runes.simps)

lemma range_runes_encode: "scalar r \<Longrightarrow>
  range_runes i (EncodeRune r @ rest) = (i, r, length (EncodeRune r)) # range_runes (i + length (EncodeRune r)) rest"
  by (subst range_runes.simps) (simp add: decode_encode)

text \<open>The runes do not depend on where the offsets start.\<close>

lemma range_shift: "range_runes (i + k) bs = map (\<lambda>(o1, r, n). (o1 + k, r, n)) (range_runes i bs)"
proof (induction i bs arbitrary: k rule: range_runes.induct)
  case (1 i bs)
  show ?case
  proof (cases "bs = []")
    case False
    obtain r n where d: "DecodeRune bs = (r, n)" by fastforce
    from "1"[OF False d[symmetric], of k] show ?thesis
      using False d by (subst (1 2) range_runes.simps) (simp add: ac_simps)
  qed simp
qed

lemma runes_from: "map (fst \<circ> snd) (range_runes i bs) = runes bs"
  using range_shift[of 0 i bs] by (simp add: runes_def comp_def case_prod_beta)

lemma runes_Nil [simp]: "runes [] = []"
  by (simp add: runes_def)

lemma runes_step: "bs \<noteq> [] \<Longrightarrow> DecodeRune bs = (r, n) \<Longrightarrow> runes bs = r # runes (drop n bs)"
  unfolding runes_def by (subst range_runes.simps) (simp add: runes_from flip: runes_def)

lemma runes_utf8: "\<forall>r \<in> set rs. scalar r \<Longrightarrow> runes (utf8_string rs) = rs"
proof (induction rs)
  case (Cons r rs)
  then show ?case using runes_step[of "EncodeRune r @ utf8_string rs" r] decode_encode[of r "utf8_string rs"]
    by (simp add: utf8_string_def)
qed (simp add: utf8_string_def)

lemma Valid_Nil [simp]: "Valid []"
  by (simp add: Valid.simps)

lemma Valid_encode: "scalar r \<Longrightarrow> Valid (EncodeRune r @ rest) = Valid rest"
proof -
  assume s: "scalar r"
  have "r = RuneError \<Longrightarrow> length (EncodeRune r) \<noteq> 1" by (simp add: EncodeRune_def RuneError_def scalar_def)
  then show ?thesis using decode_encode[OF s, of rest] by (subst Valid.simps) auto
qed

lemma Valid_utf8: "\<forall>r \<in> set rs. scalar r \<Longrightarrow> Valid (utf8_string rs)"
  by (induction rs) (simp_all add: utf8_string_def Valid_encode)

lemma utf8_runes: "Valid bs \<Longrightarrow> utf8_string (runes bs) = bs \<and> (\<forall>r \<in> set (runes bs). scalar r)"
proof (induction bs rule: Valid.induct)
  case (1 bs)
  show ?case
  proof (cases "bs = []")
    case False
    obtain r n where d: "DecodeRune bs = (r, n)" by fastforce
    have v: "\<not> (r = RuneError \<and> n = 1)" "Valid (drop n bs)"
      using "1.prems" False d by (subst (asm) Valid.simps; simp)+
    from "1.IH"[OF False d[symmetric] v(2)] encode_decode[OF d False v(1)] runes_step[OF False d] show ?thesis
      by (auto simp: utf8_string_def) (metis append_take_drop_id)
  qed (simp add: utf8_string_def)
qed

lemma EncodeRune_ascii: "scalar r \<Longrightarrow> b \<in> set (EncodeRune r) \<Longrightarrow> unat b < 128 \<Longrightarrow> EncodeRune r = [b] \<and> r = unat b"
proof -
  assume a: "scalar r" "b \<in> set (EncodeRune r)" "unat b < 128"
  have "r < 128"
  proof (rule ccontr)
    assume r: "\<not> r < 128"
    have h: "unat (byte_of (128 + k mod 64)) = 128 + k mod 64" for k by (rule unat_byte) (simp add: less_trans[of _ 64])
    have "192 + r div 64 < 256 \<or> \<not> r < 2048" "224 + r div 4096 < 256 \<or> \<not> r < 65536" "240 + r div 262144 < 256"
      using a(1) by (auto simp: scalar_def less_mult_imp_div_less)
    then show False using a r h by (auto simp: EncodeRune_def Let_def split: if_splits)
  qed
  then show ?thesis using a by (auto simp: EncodeRune_def)
qed

section \<open>UTF-16\<close>

definition utf16_units :: "nat \<Rightarrow> nat list" where
  "utf16_units r =
     (if r < 55296 \<or> 57344 \<le> r \<and> r < 65536 then [r]
      else if 65536 \<le> r \<and> r < 1114112 then [55296 + (r - 65536) div 1024, 56320 + (r - 65536) mod 1024]
      else [RuneError])"

definition utf16_Encode :: "nat list \<Rightarrow> nat list" where
  "utf16_Encode rs = concat (map utf16_units rs)"

fun utf16_Decode :: "nat list \<Rightarrow> nat list" where
  "utf16_Decode [] = []"
| "utf16_Decode [u] = [if 55296 \<le> u \<and> u < 57344 then RuneError else u]"
| "utf16_Decode (u # v # us) =
     (if 55296 \<le> u \<and> u < 56320 \<and> 56320 \<le> v \<and> v < 57344
      then ((u - 55296) * 1024 + (v - 56320) + 65536) # utf16_Decode us
      else (if 55296 \<le> u \<and> u < 57344 then RuneError else u) # utf16_Decode (v # us))"

end
