(* ===== verification/TextEncoding.thy ===== *)
theory TextEncoding
  imports Utf8
begin

text \<open>
  Decoding a file into the UTF-8, LF-only text a buffer holds and encoding it back
  (\<open>internal/editor/encoding.go\<close>, with the verdict of \<open>binary.go\<close>). Errors are constructors; the wrapped
  message texts are not modelled.
\<close>

unbundle bit_operations_syntax

datatype EncodingKind = UTF8 | UTF16LE | UTF16BE | Windows1252 | Latin1

fun Kind_String :: "EncodingKind \<Rightarrow> string" where
  "Kind_String UTF16LE = ''UTF-16LE''"
| "Kind_String UTF16BE = ''UTF-16BE''"
| "Kind_String Windows1252 = ''Windows-1252''"
| "Kind_String Latin1 = ''Latin-1''"
| "Kind_String UTF8 = ''UTF-8''"

record TextEncoding =
  teKind :: EncodingKind
  teCRLF :: bool
  teBOM :: bool
  teMixed :: bool

definition text_encoding :: "EncodingKind \<Rightarrow> bool \<Rightarrow> TextEncoding" where
  "text_encoding k bom = \<lparr>teKind = k, teCRLF = False, teBOM = bom, teMixed = False\<rparr>"

datatype text_error = ErrBinary | UnsupportedUTF32 | UnmarkedUTF16 | OddUTF16 | UnpairedSurrogate | InvalidUTF8
  | Unencodable nat

section \<open>Tables and marks\<close>

definition utf8BOM :: "byte list" where "utf8BOM = [0xEF, 0xBB, 0xBF]"
definition utf16LEBOM :: "byte list" where "utf16LEBOM = [0xFF, 0xFE]"
definition utf16BEBOM :: "byte list" where "utf16BEBOM = [0xFE, 0xFF]"
definition utf32LEBOM :: "byte list" where "utf32LEBOM = [0xFF, 0xFE, 0, 0]"
definition utf32BEBOM :: "byte list" where "utf32BEBOM = [0, 0, 0xFE, 0xFF]"

definition cp1252_high :: "(nat \<times> nat) list" where
  "cp1252_high =
    [(0x80, 0x20AC), (0x82, 0x201A), (0x83, 0x0192), (0x84, 0x201E),
     (0x85, 0x2026), (0x86, 0x2020), (0x87, 0x2021), (0x88, 0x02C6),
     (0x89, 0x2030), (0x8A, 0x0160), (0x8B, 0x2039), (0x8C, 0x0152),
     (0x8E, 0x017D), (0x91, 0x2018), (0x92, 0x2019), (0x93, 0x201C),
     (0x94, 0x201D), (0x95, 0x2022), (0x96, 0x2013), (0x97, 0x2014),
     (0x98, 0x02DC), (0x99, 0x2122), (0x9A, 0x0161), (0x9B, 0x203A),
     (0x9C, 0x0153), (0x9E, 0x017E), (0x9F, 0x0178)]"

definition cp1252 :: "nat \<Rightarrow> nat" where
  "cp1252 b = (case map_of cp1252_high b of None \<Rightarrow> b | Some r \<Rightarrow> r)"

definition cp1252Rev :: "nat \<Rightarrow> nat option" where
  "cp1252Rev r = find (\<lambda>b. cp1252 b = r) [0..<256]"

section \<open>Finding out the encoding\<close>

definition sniffLen :: nat where "sniffLen = 8192"

definition zeros_at :: "nat \<Rightarrow> byte list \<Rightarrow> nat" where
  "zeros_at parity head = length (filter (\<lambda>(i, b). b = 0 \<and> i mod 2 = parity) (enumerate 0 head))"

definition looksUTF16 :: "byte list \<Rightarrow> bool" where
  "looksUTF16 head0 =
     (if length head0 < 4 then False
      else let head = take 64 head0; even = zeros_at 0 head; odd = zeros_at 1 head
           in if 0 < even \<and> 0 < odd then False
              else 0 < even + odd \<and> length head \<le> (even + odd) * 4)"

definition sniffSingleByte :: "byte list \<Rightarrow> (text_error, EncodingKind) sum" where
  "sniffSingleByte data =
     (let head = take sniffLen data in
      if 0 \<in> set data then (if looksUTF16 head then Inl UnmarkedUTF16 else Inl ErrBinary)
      else if Valid data then Inr UTF8
      else if list_ex (\<lambda>b. b < 0x20 \<and> b \<noteq> 9 \<and> b \<noteq> 10 \<and> b \<noteq> 13 \<or> b = 0x7f) head then Inl ErrBinary
      else if list_ex (\<lambda>b. 0x80 \<le> b \<and> b \<le> 0x9f) head then Inr Windows1252
      else Inr Latin1)"

definition charset :: "byte list \<Rightarrow> (text_error, TextEncoding \<times> byte list) sum" where
  "charset data =
     (if HasPrefix data utf32LEBOM \<or> HasPrefix data utf32BEBOM then Inl UnsupportedUTF32
      else if HasPrefix data utf16LEBOM then Inr (text_encoding UTF16LE True, drop 2 data)
      else if HasPrefix data utf16BEBOM then Inr (text_encoding UTF16BE True, drop 2 data)
      else if HasPrefix data utf8BOM then Inr (text_encoding UTF8 True, drop 3 data)
      else case sniffSingleByte data of
             Inl e \<Rightarrow> Inl e
           | Inr k \<Rightarrow> Inr (text_encoding k False, data))"

definition IsBinary :: "byte list \<Rightarrow> bool" where
  "IsBinary content \<longleftrightarrow> charset content = Inl ErrBinary"

section \<open>Decoding\<close>

fun units_of :: "bool \<Rightarrow> byte list \<Rightarrow> nat list" where
  "units_of bigEndian (a # b # bs) =
     (if bigEndian then unat a * 256 + unat b else unat b * 256 + unat a) # units_of bigEndian bs"
| "units_of bigEndian _ = []"

fun paired :: "nat list \<Rightarrow> bool" where
  "paired [] = True"
| "paired (u # us) =
     (if 0xD800 \<le> u \<and> u \<le> 0xDBFF
      then (case us of [] \<Rightarrow> False | v # vs \<Rightarrow> 0xDC00 \<le> v \<and> v \<le> 0xDFFF \<and> paired vs)
      else \<not> (0xDC00 \<le> u \<and> u \<le> 0xDFFF) \<and> paired us)"

definition decodeUTF16 :: "byte list \<Rightarrow> bool \<Rightarrow> (text_error, byte list) sum" where
  "decodeUTF16 data bigEndian =
     (if length data mod 2 \<noteq> 0 then Inl OddUTF16
      else let units = units_of bigEndian data
           in if \<not> paired units then Inl UnpairedSurrogate else Inr (utf8_string (utf16_Decode units)))"

definition decodeLatin1 :: "byte list \<Rightarrow> byte list" where
  "decodeLatin1 data = concat (map (\<lambda>c. if c < 0x80 then [c] else [0xC0 OR drop_bit 6 c, 0x80 OR (c AND 0x3F)]) data)"

definition decodeWindows1252 :: "byte list \<Rightarrow> byte list" where
  "decodeWindows1252 data = concat (map (\<lambda>c. EncodeRune (cp1252 (unat c))) data)"

definition decodeCharset :: "byte list \<Rightarrow> EncodingKind \<Rightarrow> (text_error, byte list) sum" where
  "decodeCharset data kind =
     (case kind of
        UTF16LE \<Rightarrow> decodeUTF16 data False
      | UTF16BE \<Rightarrow> decodeUTF16 data True
      | Windows1252 \<Rightarrow> Inr (decodeWindows1252 data)
      | Latin1 \<Rightarrow> Inr (decodeLatin1 data)
      | UTF8 \<Rightarrow> if \<not> Valid data then Inl InvalidUTF8 else Inr data)"

fun stripCR :: "byte list \<Rightarrow> byte list" where
  "stripCR [] = []"
| "stripCR (b # bs) = (if b = 13 \<and> bs \<noteq> [] \<and> hd bs = 10 then stripCR bs else b # stripCR bs)"

fun count_crlf :: "byte list \<Rightarrow> nat" where
  "count_crlf [] = 0"
| "count_crlf (b # bs) = (if b = 13 \<and> bs \<noteq> [] \<and> hd bs = 10 then 1 else 0) + count_crlf bs"

definition count_lf :: "byte list \<Rightarrow> nat" where
  "count_lf bs = length (filter (\<lambda>b. b = 10) bs)"

definition decode :: "byte list \<Rightarrow> (text_error, byte list \<times> TextEncoding) sum" where
  "decode data =
     (case charset data of
        Inl e \<Rightarrow> Inl e
      | Inr (enc, body) \<Rightarrow>
          (case decodeCharset body (teKind enc) of
             Inl e \<Rightarrow> Inl e
           | Inr content \<Rightarrow>
               let crlf = count_crlf content; lf = count_lf content
               in if 0 < crlf
                  then Inr (stripCR content, enc\<lparr>teCRLF := (lf \<le> crlf * 2), teMixed := (crlf \<noteq> lf)\<rparr>)
                  else Inr (content, enc)))"

section \<open>Encoding\<close>

definition unit_bytes :: "bool \<Rightarrow> nat \<Rightarrow> byte list" where
  "unit_bytes bigEndian u =
     (if bigEndian then [byte_of (u div 256), byte_of (u mod 256)] else [byte_of (u mod 256), byte_of (u div 256)])"

definition encodeUTF16 :: "byte list \<Rightarrow> bool \<Rightarrow> byte list" where
  "encodeUTF16 content bigEndian =
     (if bigEndian then utf16BEBOM else utf16LEBOM) @ concat (map (unit_bytes bigEndian) (utf16_Encode (runes content)))"

fun encode_table :: "(nat \<Rightarrow> nat option) \<Rightarrow> nat list \<Rightarrow> (text_error, byte list) sum" where
  "encode_table f [] = Inr []"
| "encode_table f (r # rs) =
     (case f r of
        None \<Rightarrow> Inl (Unencodable r)
      | Some c \<Rightarrow> (case encode_table f rs of Inl e \<Rightarrow> Inl e | Inr bs \<Rightarrow> Inr (byte_of c # bs)))"

definition encodeWindows1252 :: "byte list \<Rightarrow> (text_error, byte list) sum" where
  "encodeWindows1252 content = encode_table cp1252Rev (runes content)"

definition encodeLatin1 :: "byte list \<Rightarrow> (text_error, byte list) sum" where
  "encodeLatin1 content = encode_table (\<lambda>r. if 0xFF < r then None else Some r) (runes content)"

definition with_crlf :: "byte list \<Rightarrow> byte list" where
  "with_crlf content = concat (map (\<lambda>b. if b = 10 then [13, 10] else [b]) content)"

definition encode :: "byte list \<Rightarrow> TextEncoding \<Rightarrow> (text_error, byte list) sum" where
  "encode content0 e =
     (let content = (if teCRLF e then with_crlf content0 else content0)
      in case teKind e of
           UTF16LE \<Rightarrow> Inr (encodeUTF16 content False)
         | UTF16BE \<Rightarrow> Inr (encodeUTF16 content True)
         | Windows1252 \<Rightarrow> encodeWindows1252 content
         | Latin1 \<Rightarrow> encodeLatin1 content
         | UTF8 \<Rightarrow> if teBOM e then Inr (utf8BOM @ content) else Inr content)"

section \<open>Line endings\<close>

lemma count_cons_lf [simp]: "count_crlf (10 # bs) = count_crlf bs" "count_lf (10 # bs) = Suc (count_lf bs)" "count_lf (13 # bs) = count_lf bs"
  by (simp_all add: count_lf_def)

lemma crlf_le_lf: "count_crlf bs \<le> count_lf bs"
proof (induction bs rule: measure_induct_rule[where f = length])
  case (less bs)
  show ?case
  proof (cases bs)
    case (Cons b xs)
    show ?thesis
    proof (cases "b = 13 \<and> xs \<noteq> [] \<and> hd xs = 10")
      case True
      then obtain ys where "xs = 10 # ys" by (cases xs) auto
      then show ?thesis using less[of ys] Cons True by simp
    next
      case False
      then show ?thesis using less[of xs] Cons by (auto simp: count_lf_def)
    qed
  qed simp
qed

lemma with_crlf_simps [simp]: "with_crlf [] = []" "with_crlf (b # bs) = (if b = 10 then [13, 10] else [b]) @ with_crlf bs"
  by (simp_all add: with_crlf_def)

lemma crlf_restored: "count_crlf bs = count_lf bs \<Longrightarrow> with_crlf (stripCR bs) = bs"
proof (induction bs rule: measure_induct_rule[where f = length])
  case (less bs)
  show ?case
  proof (cases bs)
    case (Cons b xs)
    show ?thesis
    proof (cases "b = 13 \<and> xs \<noteq> [] \<and> hd xs = 10")
      case True
      then obtain ys where "xs = 10 # ys" by (cases xs) auto
      then show ?thesis using less.IH[of ys] less.prems Cons True by simp
    next
      case False
      have "b \<noteq> 10" using less.prems Cons crlf_le_lf[of xs] by (auto simp: count_lf_def)
      then show ?thesis using less.IH[of xs] less.prems Cons False by (auto simp: count_lf_def)
    qed
  qed simp
qed

lemma crlf_none: "count_crlf bs = 0 \<Longrightarrow> stripCR bs = bs"
  by (induction bs) (auto split: if_splits)

section \<open>Single bytes\<close>

lemma find_unique:
  assumes "b < n" "P b" "\<And>a. a < n \<Longrightarrow> P a \<Longrightarrow> a = b"
  shows "find P [0..<n] = Some b"
proof -
  have "\<not> P j" if "j < b" for j using assms(3)[of j] that assms(1) by auto
  then show ?thesis unfolding find_Some_iff by (intro exI[of _ b]) (use assms(1,2) in auto)
qed

lemma cp1252_values: "distinct (map snd cp1252_high)" "list_all (\<lambda>(b, r). 255 < r \<and> scalar r) cp1252_high"
  by (simp_all add: cp1252_high_def scalar_def)

lemma cp1252_cases: "(b, cp1252 b) \<in> set cp1252_high \<or> cp1252 b = b"
  by (auto simp: cp1252_def split: option.split dest: map_of_SomeD)

lemma cp1252_inj: "a < 256 \<Longrightarrow> b < 256 \<Longrightarrow> cp1252 a = cp1252 b \<Longrightarrow> a = b"
proof -
  assume a: "a < 256" "b < 256" "cp1252 a = cp1252 b"
  have big: "(x, r) \<in> set cp1252_high \<Longrightarrow> 255 < r" for x r using cp1252_values(2) by (auto simp: list_all_iff)
  have "inj_on snd (set cp1252_high)" using cp1252_values(1) by (simp add: distinct_map)
  then have one: "(x, r) \<in> set cp1252_high \<Longrightarrow> (y, r) \<in> set cp1252_high \<Longrightarrow> x = y" for x y r
    by (metis inj_onD prod.sel)
  show "a = b" using cp1252_cases[of a] cp1252_cases[of b] big one a by force
qed

lemma cp1252_back: "b < 256 \<Longrightarrow> cp1252Rev (cp1252 b) = Some b" "b < 256 \<Longrightarrow> scalar (cp1252 b)"
proof -
  assume b: "b < 256"
  show "cp1252Rev (cp1252 b) = Some b" unfolding cp1252Rev_def using b cp1252_inj by (intro find_unique) auto
  show "scalar (cp1252 b)" using cp1252_cases[of b] cp1252_values(2) b by (fastforce simp: list_all_iff scalar_def)
qed

lemma scalar_byte [simp]: "scalar (unat (c :: byte))"
  unfolding scalar_def using unat_lt_256[of c] by linarith

lemma div_64_high: "128 \<le> n \<Longrightarrow> n < 256 \<Longrightarrow> n div 64 = 2 \<or> n div 64 = (3 :: nat)"
  by (cases "n < 192") (auto intro!: div_nat_eqI)

lemma latin1_rune: "(if c < 0x80 then [c] else [0xC0 OR drop_bit 6 c, 0x80 OR (c AND 0x3F)]) = EncodeRune (unat c)"
proof (cases "c < 0x80")
  case True
  then have "unat c < 128" by (simp add: word_less_nat_alt)
  then show ?thesis using True by (simp add: EncodeRune_def)
next
  case False
  then have r: "128 \<le> unat c" "unat c < 256" using unat_lt_256[of c] by (simp_all add: word_less_nat_alt not_less)
  have d: "drop_bit 6 c = byte_of (unat c div 64)"
    unfolding word_unat_eq_iff using order_le_less_trans[OF div_le_dividend r(2), of 64]
    by (simp add: unsigned_drop_bit_eq drop_bit_eq_div unat_div_distrib)
  have "unat c div 64 = 2 \<or> unat c div 64 = 3" using r by (rule div_64_high)
  then have hi: "0xC0 OR drop_bit 6 c = byte_of (192 + unat c div 64)" unfolding d by (auto simp: byte_of_def)
  have "c AND 0x3F = take_bit 6 c" by (simp add: take_bit_eq_mask mask_eq_exp_minus_1)
  moreover have "unat c mod 64 < 256" by (rule less_trans[of _ 64]) simp_all
  ultimately have m: "c AND 0x3F = byte_of (unat c mod 64)"
    unfolding word_unat_eq_iff by (simp add: unsigned_take_bit_eq take_bit_eq_mod unat_mod_distrib)
  have "0x80 OR (c AND 0x3F) = 0x80 + (c AND 0x3F)"
  proof (rule disjunctive_add[symmetric])
    have e: "(0x80 :: byte) = 2 ^ 7" "(0x3F :: byte) = mask 6" by (simp_all add: mask_eq_exp_minus_1)
    show "\<not> bit (0x80 :: byte) n \<or> \<not> bit (c AND 0x3F) n" for n
      unfolding e by (auto simp: bit_and_iff bit_exp_iff bit_mask_iff simp del: power_numeral)
  qed
  then have lo: "0x80 OR (c AND 0x3F) = byte_of (128 + unat c mod 64)" by (simp add: m byte_of_def)
  show ?thesis using False r hi lo by (simp add: EncodeRune_def Let_def)
qed

lemma encode_table_map:
  "(\<And>c. c \<in> set cs \<Longrightarrow> f (g c) = Some (unat c)) \<Longrightarrow> encode_table f (map g cs) = Inr cs"
  by (induction cs) auto

lemma latin1_string: "decodeLatin1 data = utf8_string (map unat data)"
  by (simp add: decodeLatin1_def utf8_string_def latin1_rune comp_def)

lemma windows1252_string: "decodeWindows1252 data = utf8_string (map (\<lambda>c. cp1252 (unat c)) data)"
  by (simp add: decodeWindows1252_def utf8_string_def comp_def)

lemma latin1_back: "encodeLatin1 (decodeLatin1 data) = Inr data"
proof -
  note latin1_string[of data]
  moreover have "\<forall>r \<in> set (map unat data). scalar r" by simp
  ultimately have "runes (decodeLatin1 data) = map unat data" by (simp only: runes_utf8)
  moreover have "unat c \<le> 0xFF" for c :: byte using unat_lt_256[of c] by linarith
  ultimately show ?thesis unfolding encodeLatin1_def by (simp add: encode_table_map not_less)
qed

lemma windows1252_back: "encodeWindows1252 (decodeWindows1252 data) = Inr data"
proof -
  note windows1252_string[of data]
  moreover have "\<forall>r \<in> set (map (\<lambda>c. cp1252 (unat c)) data). scalar r" using cp1252_back(2)[OF unat_lt_256] by simp
  ultimately have "runes (decodeWindows1252 data) = map (\<lambda>c. cp1252 (unat c)) data" by (simp only: runes_utf8)
  then show ?thesis unfolding encodeWindows1252_def by (simp add: encode_table_map cp1252_back(1)[OF unat_lt_256])
qed

section \<open>UTF-16\<close>

lemma utf16_back:
  assumes "paired us" "\<forall>u \<in> set us. u < 65536"
  shows "utf16_Encode (utf16_Decode us) = us \<and> (\<forall>r \<in> set (utf16_Decode us). scalar r)"
  using assms
proof (induction us rule: utf16_Decode.induct)
  case (2 u)
  then show ?case by (auto simp: utf16_Encode_def utf16_units_def scalar_def split: if_splits)
next
  case (3 u v us)
  show ?case
  proof (cases "55296 \<le> u \<and> u < 56320 \<and> 56320 \<le> v \<and> v < 57344")
    case True
    define a b where "a = u - 55296" "b = v - 56320"
    have ab: "u = 55296 + a" "v = 56320 + b" "a < 1024" "b < 1024" unfolding a_b_def using True by linarith+
    then have "utf16_units (a * 1024 + b + 65536) = [u, v]" "scalar (a * 1024 + b + 65536)"
      by (simp_all add: utf16_units_def scalar_def)
    moreover have "paired us" "\<forall>w \<in> set us. w < 65536" using 3(3,4) True by (auto split: if_splits)
    ultimately show ?thesis using 3(1)[OF True] True by (simp add: utf16_Encode_def a_b_def)
  next
    case False
    have p: "\<not> (55296 \<le> u \<and> u < 57344)" "paired (v # us)" using 3(3) False by (auto split: if_splits)
    then have "utf16_units u = [u]" "scalar u" using 3(4) by (auto simp: utf16_units_def scalar_def)
    then show ?thesis using 3(2)[OF False p(2)] 3(4) p(1) False by (auto simp: utf16_Encode_def)
  qed
qed (simp add: utf16_Encode_def)

lemma utf16_forth:
  assumes "\<forall>r \<in> set rs. scalar r"
  shows "utf16_Decode (utf16_Encode rs) = rs \<and> paired (utf16_Encode rs) \<and> (\<forall>u \<in> set (utf16_Encode rs). u < 65536)"
  using assms
proof (induction rs)
  case (Cons r rs)
  note IH = Cons.IH[OF ballI[OF bspec[OF Cons.prems]], simplified]
  show ?case
  proof (cases "r < 65536")
    case True
    then have u: "utf16_units r = [r]" "\<not> (55296 \<le> r \<and> r < 57344)" using Cons.prems by (auto simp: utf16_units_def scalar_def)
    moreover have "utf16_Decode (r # us) = r # utf16_Decode us" for us using u(2) by (cases us) auto
    ultimately show ?thesis using IH True by (auto simp: utf16_Encode_def)
  next
    case False
    define a b where "a = (r - 65536) div 1024" "b = (r - 65536) mod 1024"
    have r: "r = 65536 + a * 1024 + b" "b < 1024" "r < 1114112" using False Cons.prems by (simp_all add: a_b_def scalar_def)
    then have a: "a < 1024" by linarith
    have "utf16_units r = [55296 + a, 56320 + b]" using False r(3) by (simp add: utf16_units_def a_b_def)
    moreover have "a * 1024 + b + 65536 = r" using r(1) by linarith
    ultimately show ?thesis using IH r(2) a by (auto simp: utf16_Encode_def)
  qed
qed (simp add: utf16_Encode_def)

lemma units_back:
  "even (length data) \<Longrightarrow> concat (map (unit_bytes be) (units_of be data)) = data \<and> (\<forall>u \<in> set (units_of be data). u < 65536)"
proof (induction be data rule: units_of.induct)
  case (1 be a b bs)
  have "unat a * 256 + unat b < 65536" "unat b * 256 + unat a < 65536" using unat_lt_256[of a] unat_lt_256[of b] by linarith+
  then show ?case using 1 unat_lt_256[of a] unat_lt_256[of b] by (simp add: unit_bytes_def)
qed (simp_all add: even_Suc)

lemma units_forth:
  "\<forall>u \<in> set us. u < 65536 \<Longrightarrow> units_of be (concat (map (unit_bytes be) us)) = us \<and> even (length (concat (map (unit_bytes be) us)))"
proof (induction us)
  case (Cons u us)
  have "u div 256 < 256" using Cons.prems by (simp add: less_mult_imp_div_less)
  then show ?case using Cons by (cases be) (simp_all add: unit_bytes_def)
qed simp

lemma decodeUTF16_back:
  assumes "decodeUTF16 body be = Inr content"
  shows "encodeUTF16 content be = (if be then utf16BEBOM else utf16LEBOM) @ body"
proof -
  let ?us = "units_of be body"
  have d: "even (length body)" "paired ?us" "content = utf8_string (utf16_Decode ?us)"
    using assms by (auto simp: decodeUTF16_def Let_def even_iff_mod_2_eq_zero split: if_splits)
  note U = units_back[OF d(1), of be]
  note B = utf16_back[OF d(2) conjunct2[OF U]]
  have "runes content = utf16_Decode ?us" unfolding d(3) using B by (intro runes_utf8) blast
  then show ?thesis using U B by (simp add: encodeUTF16_def)
qed

lemma encodeUTF16_back:
  assumes "Valid content"
  shows "decodeUTF16 (concat (map (unit_bytes be) (utf16_Encode (runes content)))) be = Inr content"
proof -
  note R = utf8_runes[OF assms]
  note F = utf16_forth[OF conjunct2[OF R]]
  note U = units_forth[OF conjunct2[OF conjunct2[OF F]], of be]
  show ?thesis using R F U by (simp add: decodeUTF16_def Let_def even_iff_mod_2_eq_zero[symmetric])
qed

section \<open>Characters and line endings together\<close>

text \<open>The bytes a decoded body came from, mark included.\<close>

definition encode_body :: "byte list \<Rightarrow> TextEncoding \<Rightarrow> (text_error, byte list) sum" where
  "encode_body content e = encode content (e\<lparr>teCRLF := False\<rparr>)"

lemma encode_crlf: "encode content e = encode_body (if teCRLF e then with_crlf content else content) e"
  by (simp add: encode_body_def encode_def Let_def)

lemma charset_back:
  assumes "charset data = Inr (enc, body)" "decodeCharset body (teKind enc) = Inr content"
  shows "encode_body content enc = Inr data \<and> \<not> teCRLF enc \<and> \<not> teMixed enc"
proof -
  consider "HasPrefix data utf16LEBOM" "enc = text_encoding UTF16LE True" "body = drop 2 data"
    | "HasPrefix data utf16BEBOM" "enc = text_encoding UTF16BE True" "body = drop 2 data"
    | "HasPrefix data utf8BOM" "enc = text_encoding UTF8 True" "body = drop 3 data"
    | k where "sniffSingleByte data = Inr k" "enc = text_encoding k False" "body = data"
    using assms(1) by (auto simp: charset_def split: if_splits sum.splits)
  then show ?thesis
  proof cases
    case 1
    then show ?thesis using decodeUTF16_back[of body False content] assms(2) HasPrefix_split[OF 1(1)]
      by (simp add: encode_body_def encode_def decodeCharset_def text_encoding_def utf16LEBOM_def numeral_2_eq_2)
  next
    case 2
    then show ?thesis using decodeUTF16_back[of body True content] assms(2) HasPrefix_split[OF 2(1)]
      by (simp add: encode_body_def encode_def decodeCharset_def text_encoding_def utf16BEBOM_def numeral_2_eq_2)
  next
    case 3
    then show ?thesis using assms(2) HasPrefix_split[OF 3(1)]
      by (simp add: encode_body_def encode_def decodeCharset_def text_encoding_def utf8BOM_def numeral_3_eq_3 split: if_splits)
  next
    case 4
    then have "k = UTF8 \<or> k = Windows1252 \<or> k = Latin1" by (auto simp: sniffSingleByte_def Let_def split: if_splits)
    then show ?thesis using 4 assms(2) latin1_back windows1252_back
      by (auto simp: encode_body_def encode_def decodeCharset_def text_encoding_def split: if_splits)
  qed
qed

lemma decode_back:
  assumes "decode data = Inr (content, enc)" "\<not> teMixed enc"
  shows "encode content enc = Inr data"
proof -
  obtain e body content0 where d: "charset data = Inr (e, body)" "decodeCharset body (teKind e) = Inr content0"
      "(content, enc) = (if 0 < count_crlf content0 then (stripCR content0, e\<lparr>teCRLF := (count_lf content0 \<le> count_crlf content0 * 2), teMixed := (count_crlf content0 \<noteq> count_lf content0)\<rparr>) else (content0, e))"
    using assms(1) by (auto simp: decode_def Let_def split: sum.splits if_splits)
  note B = charset_back[OF d(1,2)]
  have r: "encode_body t (e\<lparr>teCRLF := x, teMixed := y\<rparr>) = encode_body t e" for t x y
    by (simp add: encode_body_def encode_def)
  show ?thesis
  proof (cases "0 < count_crlf content0")
    case True
    then have "count_crlf content0 = count_lf content0" using d(3) assms(2) by simp
    then show ?thesis using d(3) B True crlf_restored[of content0] by (simp add: encode_crlf r)
  next
    case False
    then show ?thesis using d(3) B by (simp add: encode_crlf)
  qed
qed

section \<open>What a save writes\<close>

lemma with_crlf_utf8: "\<forall>r \<in> set rs. scalar r \<Longrightarrow>
  with_crlf (utf8_string rs) = utf8_string (concat (map (\<lambda>r. if r = 10 then [13, 10] else [r]) rs))"
proof (induction rs)
  case (Cons r rs)
  have "with_crlf (xs @ ys) = with_crlf xs @ with_crlf ys" for xs ys by (simp add: with_crlf_def)
  moreover have "with_crlf (EncodeRune r) = utf8_string (if r = 10 then [13, 10] else [r])"
  proof (cases "r = 10")
    case True
    then show ?thesis by (simp add: EncodeRune_def scalar_def utf8_string_def byte_of_def)
  next
    case False
    have "10 \<notin> set (EncodeRune r)" using EncodeRune_ascii[of r 10] Cons.prems False by auto
    then have "map (\<lambda>b. if b = 10 then [13, 10] else [b]) (EncodeRune r) = map (\<lambda>b. [b]) (EncodeRune r)" by auto
    then have "with_crlf (EncodeRune r) = concat (map (\<lambda>b. [b]) (EncodeRune r))" by (simp only: with_crlf_def)
    then show ?thesis using False by (simp add: utf8_string_def)
  qed
  ultimately show ?case using Cons by (simp add: utf8_string_def)
qed (simp add: utf8_string_def)

lemma Valid_with_crlf: "Valid t \<Longrightarrow> Valid (with_crlf t)"
proof -
  assume "Valid t"
  note R = utf8_runes[OF this]
  have "\<forall>r \<in> set (concat (map (\<lambda>r. if r = 10 then [13, 10] else [r]) (runes t))). scalar r"
    using R by (auto simp: scalar_def)
  then show ?thesis using with_crlf_utf8[OF conjunct2[OF R]] R Valid_utf8 by metis
qed

lemma stripCR_with_crlf: "stripCR (with_crlf t) = t"
proof (induction t)
  case (Cons b t)
  have "with_crlf t \<noteq> [] \<Longrightarrow> hd (with_crlf t) \<noteq> 10" by (cases t) auto
  then show ?case using Cons by auto
qed simp

lemma encode_table_back:
  "encode_table f rs = Inr bs \<Longrightarrow> (\<And>r c. f r = Some c \<Longrightarrow> c < 256 \<and> g c = r) \<Longrightarrow> map (\<lambda>b. g (unat b)) bs = rs"
proof (induction rs arbitrary: bs)
  case (Cons r rs)
  obtain c cs where c: "f r = Some c" "encode_table f rs = Inr cs" "bs = byte_of c # cs"
    using Cons.prems(1) by (auto split: option.splits sum.splits)
  then show ?case using Cons.IH[OF c(2) Cons.prems(2)] Cons.prems(2)[OF c(1)] by simp
qed simp

lemma encode_table_err:
  "encode_table f rs = Inl e \<longleftrightarrow> (\<exists>r \<in> set rs. f r = None) \<and> e = Unencodable (hd (filter (\<lambda>r. f r = None) rs))"
  by (induction rs) (auto split: option.splits sum.splits)

lemma cp1252Rev_Some: "cp1252Rev r = Some c \<Longrightarrow> c < 256 \<and> cp1252 c = r"
  by (auto simp: cp1252Rev_def find_Some_iff)

text \<open>The mark a save puts in front.\<close>

definition mark_of :: "TextEncoding \<Rightarrow> byte list" where
  "mark_of e = (case teKind e of UTF16LE \<Rightarrow> utf16LEBOM | UTF16BE \<Rightarrow> utf16BEBOM | UTF8 \<Rightarrow> (if teBOM e then utf8BOM else []) | _ \<Rightarrow> [])"

lemma encode_body_faithful:
  assumes "Valid t" "encode_body t e = Inr data"
  shows "\<exists>body. data = mark_of e @ body \<and> decodeCharset body (teKind e) = Inr t"
proof -
  note R = utf8_runes[OF assms(1)]
  show ?thesis
  proof (cases "teKind e")
    case UTF8
    then show ?thesis using assms by (auto simp: encode_body_def encode_def mark_of_def decodeCharset_def split: if_splits)
  next
    case UTF16LE
    then show ?thesis using assms(2) encodeUTF16_back[OF assms(1), of False]
      by (auto simp: encode_body_def encode_def mark_of_def decodeCharset_def encodeUTF16_def)
  next
    case UTF16BE
    then show ?thesis using assms(2) encodeUTF16_back[OF assms(1), of True]
      by (auto simp: encode_body_def encode_def mark_of_def decodeCharset_def encodeUTF16_def)
  next
    case Windows1252
    then have "encode_table cp1252Rev (runes t) = Inr data" using assms(2) by (simp add: encode_body_def encode_def encodeWindows1252_def)
    from encode_table_back[OF this, of cp1252] cp1252Rev_Some have "map (\<lambda>b. cp1252 (unat b)) data = runes t" by blast
    then have "decodeWindows1252 data = t" using R by (simp add: windows1252_string)
    then show ?thesis using Windows1252 by (simp add: mark_of_def decodeCharset_def)
  next
    case Latin1
    then have "encode_table (\<lambda>r. if 0xFF < r then None else Some r) (runes t) = Inr data"
      using assms(2) by (simp add: encode_body_def encode_def encodeLatin1_def)
    moreover have "(if 0xFF < r then None else Some r) = Some c \<Longrightarrow> c < 256 \<and> c = r" for r c :: nat
      by (auto split: if_splits)
    ultimately have "map unat data = runes t" by (rule encode_table_back)
    then have "decodeLatin1 data = t" using R by (simp add: latin1_string)
    then show ?thesis using Latin1 by (simp add: mark_of_def decodeCharset_def)
  qed
qed

end
