(* ===== verification/LineIndex.thy ===== *)
theory LineIndex
  imports Prelude
begin

text \<open>
  The line index of \<open>internal/view/index.go\<close>: the byte offsets at which lines start, kept up to date
  through insertions and deletions, and the queries between offsets and lines. An index is the list of its
  starts.
\<close>

section \<open>The code\<close>

text \<open>The scan of \<open>NewIndex\<close>: one start past every newline.\<close>

fun newline_starts :: "int \<Rightarrow> byte list \<Rightarrow> int list" where
  "newline_starts i [] = []"
| "newline_starts i (b # bs) = (if b = 10 then [i + 1] else []) @ newline_starts (i + 1) bs"

definition NewIndex :: "byte list \<Rightarrow> int list" where
  "NewIndex doc = 0 # newline_starts 0 doc"

definition ix_Lines :: "int list \<Rightarrow> int" where
  "ix_Lines ix = int (length ix)"

definition ix_LineStart :: "int list \<Rightarrow> int \<Rightarrow> int" where
  "ix_LineStart ix line =
     (if line < 0 then 0 else if int (length ix) \<le> line then ix ! (length ix - 1) else ix ! nat line)"

definition ix_LineOf :: "int list \<Rightarrow> int \<Rightarrow> int" where
  "ix_LineOf ix off = (if off \<le> 0 then 0 else int (SearchInts ix (off + 1)) - 1)"

definition ix_LineEnd :: "int list \<Rightarrow> int \<Rightarrow> int \<Rightarrow> int" where
  "ix_LineEnd ix line doclen = (if line + 1 < int (length ix) then ix ! nat (line + 1) - 1 else doclen)"

definition ix_LineLen :: "int list \<Rightarrow> int \<Rightarrow> int \<Rightarrow> int" where
  "ix_LineLen ix line doclen = ix_LineEnd ix line doclen - ix_LineStart ix line"

text \<open>\<open>splice\<close>: grow by the new starts, move the tail up, write them in.\<close>

definition ix_splice :: "nat \<Rightarrow> int list \<Rightarrow> int list \<Rightarrow> int list" where
  "ix_splice first added ix =
     (if added = [] then ix
      else let ix1 = ix @ added;
               ix2 = copy_at (first + length added) (drop first (take (length ix1 - length added) ix1)) ix1
           in copy_at first added ix2)"

definition shift_from :: "nat \<Rightarrow> int \<Rightarrow> int list \<Rightarrow> int list" where
  "shift_from first n ix = take first ix @ map (\<lambda>v. v + n) (drop first ix)"

definition ix_Insert :: "int list \<Rightarrow> int \<Rightarrow> byte list \<Rightarrow> int list" where
  "ix_Insert ix pos t =
     (if t = [] then ix
      else let first = SearchInts ix (pos + 1); ix1 = shift_from first (int (length t)) ix
           in if 10 \<notin> set t then ix1 else ix_splice first (newline_starts pos t) ix1)"

definition ix_InsertLen :: "int list \<Rightarrow> int \<Rightarrow> int \<Rightarrow> int list \<Rightarrow> int list" where
  "ix_InsertLen ix pos n starts =
     (if n = 0 then ix
      else let first = SearchInts ix (pos + 1) in ix_splice first starts (shift_from first n ix))"

definition ix_Delete :: "int list \<Rightarrow> int \<Rightarrow> int \<Rightarrow> int list" where
  "ix_Delete ix pos len =
     (if len \<le> 0 then ix
      else let end = pos + len; from = SearchInts ix (pos + 1); upto = SearchInts ix (end + 1);
               ix1 = (if from < upto then take from ix @ drop upto ix else ix)
           in shift_from from (- len) ix1)"

definition ix_Rebuild :: "int list \<Rightarrow> byte list \<Rightarrow> int list" where
  "ix_Rebuild ix doc = NewIndex doc"

section \<open>Starts of a text in parts\<close>

lemma newline_starts_append: "newline_starts i (xs @ ys) = newline_starts i xs @ newline_starts (i + int (length xs)) ys"
  by (induction xs arbitrary: i) (simp_all add: ac_simps)

lemma newline_starts_shift: "newline_starts (i + k) xs = map (\<lambda>v. v + k) (newline_starts i xs)"
proof (induction xs arbitrary: i)
  case (Cons b xs)
  have "newline_starts (i + k + 1) xs = newline_starts (i + 1 + k) xs" by (simp add: ac_simps)
  then show ?case using Cons[of "i + 1"] by simp
qed simp

lemma newline_starts_bounds: "v \<in> set (newline_starts i xs) \<Longrightarrow> i < v \<and> v \<le> i + int (length xs)"
  by (induction xs arbitrary: i) (fastforce split: if_splits)+

lemma newline_starts_sorted: "sorted (newline_starts i xs)"
  by (induction xs arbitrary: i) (auto dest: newline_starts_bounds)

lemma newline_starts_none: "newline_starts i xs = [] \<longleftrightarrow> 10 \<notin> set xs"
  by (induction xs arbitrary: i) auto

lemma NewIndex_sorted: "sorted (NewIndex doc)"
  using newline_starts_sorted newline_starts_bounds by (fastforce simp: NewIndex_def)

lemma NewIndex_parts: "NewIndex (xs @ ys) = NewIndex xs @ newline_starts (int (length xs)) ys"
  by (simp add: NewIndex_def newline_starts_append)

lemma NewIndex_bounds: "v \<in> set (NewIndex xs) \<Longrightarrow> 0 \<le> v \<and> v \<le> int (length xs)"
  using newline_starts_bounds by (fastforce simp: NewIndex_def)

text \<open>Starts up to an offset come before those of the text behind it.\<close>

lemma SearchInts_parts:
  assumes "x = int (length xs) + 1" "\<And>v. v \<in> set zs \<Longrightarrow> int (length xs) < v"
  shows "SearchInts (NewIndex xs @ zs) x = length (NewIndex xs)"
proof -
  have "takeWhile (\<lambda>v. v < x) (NewIndex xs @ zs) = NewIndex xs @ takeWhile (\<lambda>v. v < x) zs"
    using NewIndex_bounds[of _ xs] assms(1) by (intro takeWhile_append2) fastforce
  moreover have "takeWhile (\<lambda>v. v < x) zs = []"
  proof (cases zs)
    case (Cons z zs')
    then show ?thesis using assms(2)[of z] assms(1) by simp
  qed simp
  ultimately show ?thesis by (simp add: SearchInts_def)
qed

lemma splice_eq: "first \<le> length ix \<Longrightarrow> ix_splice first added ix = take first ix @ added @ drop first ix"
  by (auto simp: ix_splice_def copy_at_def Let_def)

lemma index_insert_parts:
  "NewIndex (xs @ t @ ys) = take (length (NewIndex xs)) (NewIndex (xs @ ys)) @ newline_starts (int (length xs)) t @
     map (\<lambda>v. v + int (length t)) (drop (length (NewIndex xs)) (NewIndex (xs @ ys)))"
  using newline_starts_shift[of "int (length xs)" "int (length t)" ys]
  by (simp add: NewIndex_parts newline_starts_append)

lemma insert_spec:
  assumes "0 \<le> pos" "pos \<le> int (length doc)"
  shows "NewIndex (put_at pos t doc) = ix_InsertLen (NewIndex doc) pos (int (length t)) (newline_starts pos t)"
proof (cases "t = []")
  case False
  define xs ys where "xs = take (nat pos) doc" "ys = drop (nat pos) doc"
  have d: "doc = xs @ ys" "int (length xs) = pos" "put_at pos t doc = xs @ t @ ys"
    using assms by (simp_all add: xs_ys_def put_at_def)
  have s: "SearchInts (NewIndex doc) (pos + 1) = length (NewIndex xs)"
    unfolding d(1) NewIndex_parts using newline_starts_bounds[of _ pos ys] d(2) by (intro SearchInts_parts) auto
  have l: "length (NewIndex xs) \<le> length (NewIndex doc)" by (simp add: d(1) NewIndex_parts)
  show ?thesis
    using False l unfolding ix_InsertLen_def Let_def s
    by (simp add: splice_eq shift_from_def d(2,3) index_insert_parts flip: d(1))
qed (simp add: ix_InsertLen_def)

lemma Insert_InsertLen: "ix_Insert ix pos t = ix_InsertLen ix pos (int (length t)) (newline_starts pos t)"
  by (auto simp: ix_Insert_def ix_InsertLen_def Let_def ix_splice_def newline_starts_none)

lemma delete_spec:
  assumes "0 \<le> pos" "0 \<le> len" "pos + len \<le> int (length doc)"
  shows "NewIndex (cut_range pos len doc) = ix_Delete (NewIndex doc) pos len"
proof (cases "len = 0")
  case False
  define xs t ys where "xs = take (nat pos) doc" "t = take (nat len) (drop (nat pos) doc)" "ys = drop (nat pos + nat len) doc"
  have d: "doc = xs @ t @ ys" "int (length xs) = pos" "int (length t) = len" "cut_range pos len doc = xs @ ys"
    using assms by (simp_all add: xs_t_ys_def cut_range_def) (metis add.commute append_take_drop_id drop_drop)
  have e: "NewIndex doc = NewIndex xs @ newline_starts pos t @ newline_starts (pos + len) ys"
    unfolding d(1) NewIndex_parts newline_starts_append d(2,3) ..
  have s: "SearchInts (NewIndex doc) (pos + 1) = length (NewIndex xs)"
    unfolding e using newline_starts_bounds[of _ pos t] newline_starts_bounds[of _ "pos + len" ys] d(2) assms(2)
    by (intro SearchInts_parts) fastforce+
  have u: "SearchInts (NewIndex doc) (pos + len + 1) = length (NewIndex xs) + length (newline_starts pos t)"
  proof -
    have "NewIndex doc = NewIndex (xs @ t) @ newline_starts (pos + len) ys" using e d(2) by (simp add: NewIndex_parts)
    then have "SearchInts (NewIndex doc) (pos + len + 1) = length (NewIndex (xs @ t))"
      using newline_starts_bounds[of _ "pos + len" ys] d(2,3) by (simp only:) (rule SearchInts_parts, auto)
    then show ?thesis using d(2) by (simp add: NewIndex_parts)
  qed
  have sh: "map (\<lambda>v. v - len) (newline_starts (pos + len) ys) = newline_starts pos ys"
    using newline_starts_shift[of "pos + len" "- len" ys] by simp
  have "ix_Delete (NewIndex doc) pos len = NewIndex xs @ newline_starts pos ys"
    using False assms(2) sh unfolding ix_Delete_def Let_def s u
    by (cases "newline_starts pos t = []") (simp_all add: e shift_from_def)
  then show ?thesis using d(2,4) by (simp add: NewIndex_parts)
qed (simp add: ix_Delete_def)

section \<open>Where an offset is\<close>

lemma newline_starts_count: "length (newline_starts i xs) = length (filter (\<lambda>b. b = 10) xs)"
  by (induction xs arbitrary: i) auto

lemma newline_starts_hd: "10 \<in> set xs \<Longrightarrow> hd (newline_starts i xs) = i + int (length (takeWhile (\<lambda>b. b \<noteq> 10) xs)) + 1"
  by (induction xs arbitrary: i) auto

lemma NewIndex_last: "last (NewIndex xs) = int (length xs) - int (length (takeWhile (\<lambda>b. b \<noteq> 10) (rev xs)))"
proof (induction xs rule: rev_induct)
  case (snoc b xs)
  then show ?case by (simp add: NewIndex_parts)
qed (simp add: NewIndex_def)

lemma LineOf_spec:
  assumes "0 \<le> off" "off \<le> int (length doc)"
  shows "ix_LineOf (NewIndex doc) off = int (length (filter (\<lambda>b. b = 10) (take (nat off) doc)))"
proof -
  define xs ys where "xs = take (nat off) doc" "ys = drop (nat off) doc"
  have d: "doc = xs @ ys" "int (length xs) = off" using assms by (simp_all add: xs_ys_def)
  have "SearchInts (NewIndex doc) (off + 1) = length (NewIndex xs)"
    unfolding d(1) NewIndex_parts using newline_starts_bounds[of _ off ys] d(2) by (intro SearchInts_parts) auto
  moreover have "length (NewIndex xs) = Suc (length (filter (\<lambda>b. b = 10) xs))"
    by (simp add: NewIndex_def newline_starts_count)
  ultimately show ?thesis using assms(1) d(2) by (auto simp: ix_LineOf_def xs_ys_def)
qed

lemma line_bounds:
  assumes "0 \<le> off" "off \<le> int (length doc)" "l = ix_LineOf (NewIndex doc) off"
  shows "0 \<le> l" "l < ix_Lines (NewIndex doc)"
    "ix_LineStart (NewIndex doc) l = off - int (length (takeWhile (\<lambda>b. b \<noteq> 10) (rev (take (nat off) doc))))"
    "ix_LineEnd (NewIndex doc) l (int (length doc)) = off + int (length (takeWhile (\<lambda>b. b \<noteq> 10) (drop (nat off) doc)))"
proof -
  define xs ys where "xs = take (nat off) doc" "ys = drop (nat off) doc"
  have d: "doc = xs @ ys" "int (length xs) = off" using assms by (simp_all add: xs_ys_def)
  have e: "NewIndex doc = NewIndex xs @ newline_starts off ys" by (simp add: d NewIndex_parts)
  have l: "l = int (length (NewIndex xs)) - 1"
    using LineOf_spec[OF assms(1,2)] by (simp add: assms(3) NewIndex_def newline_starts_count xs_ys_def)
  have n: "0 < length (NewIndex xs)" by (simp add: NewIndex_def)
  show "0 \<le> l" "l < ix_Lines (NewIndex doc)" using l n by (simp_all add: ix_Lines_def e)
  have "nat l = length (NewIndex xs) - 1" using l n by simp
  then have "NewIndex doc ! nat l = last (NewIndex xs)" using n by (simp add: e nth_append last_conv_nth)
  then show "ix_LineStart (NewIndex doc) l = off - int (length (takeWhile (\<lambda>b. b \<noteq> 10) (rev (take (nat off) doc))))"
    using \<open>0 \<le> l\<close> \<open>l < ix_Lines (NewIndex doc)\<close> d(2) by (simp add: ix_LineStart_def ix_Lines_def NewIndex_last xs_ys_def)
  show "ix_LineEnd (NewIndex doc) l (int (length doc)) = off + int (length (takeWhile (\<lambda>b. b \<noteq> 10) (drop (nat off) doc)))"
  proof (cases "10 \<in> set ys")
    case True
    have ne: "newline_starts off ys \<noteq> []" using True by (simp add: newline_starts_none)
    have "nat (l + 1) = length (NewIndex xs)" using l by simp
    then have "NewIndex doc ! nat (l + 1) = hd (newline_starts off ys)" using ne by (simp add: e nth_append hd_conv_nth)
    then show ?thesis using ne l newline_starts_hd[OF True, of off] by (simp add: ix_LineEnd_def e xs_ys_def)
  next
    case False
    then have w: "length (takeWhile (\<lambda>b. b \<noteq> 10) ys) = length ys" by (metis (mono_tags, lifting) takeWhile_eq_all_conv)
    have "newline_starts off ys = []" using False by (simp add: newline_starts_none)
    then have "\<not> l + 1 < int (length (NewIndex doc))" using l by (simp add: e)
    moreover have "int (length doc) = off + int (length ys)" using d by simp
    ultimately show ?thesis by (simp only: ix_LineEnd_def if_False flip: xs_ys_def) (simp only: w)
  qed
qed

end
