(* ===== verification/Positions.thy ===== *)
theory Positions
  imports LineIndex Utf8
begin

text \<open>
  Language-server positions (\<open>internal/lsp/position.go\<close>): lines and UTF-16 code units against byte offsets.
  Loops over a byte position recurse on it, with \<open>line[i:]\<close> as a drop.
\<close>

section \<open>The code\<close>

record Position =
  psLine :: int
  psCharacter :: int

record LspRange =
  rgStart :: Position
  rgEnd :: Position

definition utf16Len :: "nat \<Rightarrow> int" where
  "utf16Len r = (if 65535 < r then 2 else 1)"

function to_utf16_loop :: "byte list \<Rightarrow> nat \<Rightarrow> nat \<Rightarrow> int \<Rightarrow> int" where
  "to_utf16_loop line byteOff i units =
     (if i < byteOff then
        case DecodeRune (drop i line) of (r, sz) \<Rightarrow>
          if sz = 0 then units
          else if byteOff < i + sz then units
          else to_utf16_loop line byteOff (i + sz) (units + utf16Len r)
      else units)"
  by pat_completeness auto
termination by (relation "measure (\<lambda>(line, byteOff, i, units). byteOff - i)") auto

definition ToUTF16 :: "byte list \<Rightarrow> int \<Rightarrow> int" where
  "ToUTF16 line byteOff =
     (if byteOff \<le> 0 then 0
      else to_utf16_loop line (nat (if int (length line) < byteOff then int (length line) else byteOff)) 0 0)"

function from_utf16_loop :: "byte list \<Rightarrow> int \<Rightarrow> nat \<Rightarrow> int \<Rightarrow> int" where
  "from_utf16_loop line units i seen =
     (if i < length line then
        if units \<le> seen then int i
        else case DecodeRune (drop i line) of (r, sz) \<Rightarrow>
          if sz = 0 then int (length line)
          else if units < seen + utf16Len r then int i
          else from_utf16_loop line units (i + sz) (seen + utf16Len r)
      else int (length line))"
  by pat_completeness auto
termination by (relation "measure (\<lambda>(line, units, i, seen). length line - i)") auto

definition FromUTF16 :: "byte list \<Rightarrow> int \<Rightarrow> int" where
  "FromUTF16 line units = (if units \<le> 0 then 0 else from_utf16_loop line units 0 0)"

declare to_utf16_loop.simps [simp del] from_utf16_loop.simps [simp del]

record Document =
  dcText :: "byte list"
  dcStarts :: "int list"

definition NewDocument :: "byte list \<Rightarrow> Document" where
  "NewDocument t = \<lparr>dcText = t, dcStarts = 0 # newline_starts 0 t\<rparr>"

definition dc_Lines :: "Document \<Rightarrow> int" where
  "dc_Lines d = int (length (dcStarts d))"

function line_search :: "int list \<Rightarrow> int \<Rightarrow> int \<Rightarrow> int \<Rightarrow> int" where
  "line_search starts off lo hi =
     (if lo < hi then
        let mid = (lo + hi + 1) div 2 in
        if starts ! nat mid \<le> off then line_search starts off mid hi else line_search starts off lo (mid - 1)
      else lo)"
  by pat_completeness auto
termination by (relation "measure (\<lambda>(starts, off, lo, hi). nat (hi - lo))") auto

declare line_search.simps [simp del]

definition dc_lineOf :: "Document \<Rightarrow> int \<Rightarrow> int" where
  "dc_lineOf d off = line_search (dcStarts d) off 0 (int (length (dcStarts d)) - 1)"

definition dc_line :: "Document \<Rightarrow> int \<Rightarrow> byte list" where
  "dc_line d n =
     (let start = dcStarts d ! nat n;
          end0 = (if n + 1 < int (length (dcStarts d)) then dcStarts d ! nat (n + 1) - 1 else int (length (dcText d)));
          end = (if end0 < start then start else end0)
      in sub_range start (end - start) (dcText d))"

definition dc_Position :: "Document \<Rightarrow> int \<Rightarrow> Position" where
  "dc_Position d off0 =
     (let off = (if off0 < 0 then 0 else off0);
          off = (if int (length (dcText d)) < off then int (length (dcText d)) else off);
          line = dc_lineOf d off
      in \<lparr>psLine = line, psCharacter = ToUTF16 (dc_line d line) (off - dcStarts d ! nat line)\<rparr>)"

definition dc_Offset :: "Document \<Rightarrow> Position \<Rightarrow> int" where
  "dc_Offset d p =
     (if psLine p < 0 then 0
      else if int (length (dcStarts d)) \<le> psLine p then int (length (dcText d))
      else dcStarts d ! nat (psLine p) + FromUTF16 (dc_line d (psLine p)) (psCharacter p))"

definition dc_Span :: "Document \<Rightarrow> LspRange \<Rightarrow> int \<times> int" where
  "dc_Span d r =
     (let lo = dc_Offset d (rgStart r); hi = dc_Offset d (rgEnd r) in if hi < lo then (hi, lo) else (lo, hi))"

function span_loop :: "byte list \<Rightarrow> int \<Rightarrow> nat \<Rightarrow> int \<Rightarrow> int" where
  "span_loop t len i units =
     (if i < length t \<and> units < len then
        case DecodeRune (drop i t) of (r, sz) \<Rightarrow>
          if sz = 0 then int i
          else if len < units + utf16Len r then int i
          else span_loop t len (i + sz) (units + utf16Len r)
      else int i)"
  by pat_completeness auto
termination by (relation "measure (\<lambda>(t, len, i, units). length t - i)") auto

definition dc_SpanFrom :: "Document \<Rightarrow> Position \<Rightarrow> int \<Rightarrow> int \<times> int" where
  "dc_SpanFrom d start len =
     (let lo = dc_Offset d start in (lo, span_loop (dcText d) (if len < 0 then 0 else len) (nat lo) 0))"

declare span_loop.simps [simp del]

section \<open>Steps over runes\<close>

text \<open>From one byte position to another by whole runes, and the code units passed.\<close>

inductive rune_steps :: "byte list \<Rightarrow> nat \<Rightarrow> nat \<Rightarrow> int \<Rightarrow> bool" for line where
  here: "i \<le> length line \<Longrightarrow> rune_steps line i i 0"
| rune: "i < length line \<Longrightarrow> DecodeRune (drop i line) = (r, n) \<Longrightarrow> rune_steps line (i + n) j w \<Longrightarrow>
    rune_steps line i j (utf16Len r + w)"

inductive_cases rune_stepsE: "rune_steps line i j w"

lemma utf16Len_pos: "0 < utf16Len r"
  by (simp add: utf16Len_def)

lemma rune_size: "i < length line \<Longrightarrow> DecodeRune (drop i line) = (r, n) \<Longrightarrow> 0 < n \<and> i + n \<le> length line"
  using DecodeRune_size[of "drop i line" r n] by auto

lemma rune_steps_bounds: "rune_steps line i j w \<Longrightarrow> i \<le> j \<and> j \<le> length line \<and> 0 \<le> w \<and> (w = 0 \<longleftrightarrow> i = j)"
proof (induction rule: rune_steps.induct)
  case (rune i r n j w)
  then show ?case using rune_size[OF rune(1,2)] utf16Len_pos[of r] by simp
qed simp

lemma to_utf16_steps:
  "rune_steps line i j w \<Longrightarrow> j \<le> k \<Longrightarrow> to_utf16_loop line k i u = to_utf16_loop line k j (u + w)"
proof (induction arbitrary: u rule: rune_steps.induct)
  case (rune i r n j w)
  have "i + n \<le> j" using rune_steps_bounds[OF rune(3)] by simp
  then show ?case using rune rune_size[OF rune(1,2)]
    by (subst to_utf16_loop.simps) (simp add: add.assoc)
qed simp

lemma from_utf16_steps: "rune_steps line i j w \<Longrightarrow> from_utf16_loop line (u + w) i u = int j"
proof (induction arbitrary: u rule: rune_steps.induct)
  case (rune i r n j w)
  have "0 \<le> w" using rune_steps_bounds[OF rune(3)] by simp
  then have "\<not> u + (utf16Len r + w) \<le> u" "\<not> u + (utf16Len r + w) < u + utf16Len r" using utf16Len_pos[of r] by simp_all
  then show ?case using rune(1,2) rune.IH[of "u + utf16Len r"] rune_size[OF rune(1,2)]
    by (subst from_utf16_loop.simps) (simp add: add.assoc)
qed (simp add: from_utf16_loop.simps)

text \<open>Every offset has a last rune start at or before it.\<close>

lemma rune_floor:
  "i \<le> k \<Longrightarrow> k \<le> length line \<Longrightarrow>
   \<exists>j w. rune_steps line i j w \<and> j \<le> k \<and> (j = k \<or> (j < length line \<and> k < j + snd (DecodeRune (drop j line))))"
proof (induction "k - i" arbitrary: i rule: less_induct)
  case less
  show ?case
  proof (cases "i = k")
    case True
    then show ?thesis using less.prems here[of i line] by blast
  next
    case False
    obtain r n where d: "DecodeRune (drop i line) = (r, n)" by fastforce
    have i: "i < length line" using False less.prems by simp
    note n = rune_size[OF i d]
    show ?thesis
    proof (cases "i + n \<le> k")
      case True
      have "\<exists>j w. rune_steps line (i + n) j w \<and> j \<le> k \<and> (j = k \<or> (j < length line \<and> k < j + snd (DecodeRune (drop j line))))"
        by (rule less.hyps) (use n True less.prems False in auto)
      then show ?thesis using rune_steps.rune[OF i d] by blast
    next
      case False
      then show ?thesis using here[of i line] i less.prems d by (intro exI[of _ i] exI[of _ 0]) simp
    qed
  qed
qed

lemma to_utf16_stop:
  "j < length line \<Longrightarrow> k < j + snd (DecodeRune (drop j line)) \<Longrightarrow> to_utf16_loop line k j u = u"
  by (subst to_utf16_loop.simps) (auto split: prod.splits)

lemma to_utf16_done: "to_utf16_loop line k k u = u"
  by (subst to_utf16_loop.simps) simp

text \<open>Rounding to a rune start.\<close>

definition on_rune :: "byte list \<Rightarrow> int \<Rightarrow> bool" where
  "on_rune line k \<longleftrightarrow> 0 \<le> k \<and> (\<exists>w. rune_steps line 0 (nat k) w)"

lemma utf16_there_and_back:
  assumes "0 \<le> k" "k \<le> int (length line)" "j = FromUTF16 line (ToUTF16 line k)"
  shows "on_rune line j" "0 \<le> j" "j \<le> k" "on_rune line k \<Longrightarrow> j = k" "ToUTF16 line j = ToUTF16 line k"
    "j < k \<Longrightarrow> k < j + int (snd (DecodeRune (drop (nat j) line)))"
proof -
  have "nat k \<le> length line" using assms(2) by simp
  from rune_floor[OF le0 this] obtain m w where
    m: "rune_steps line 0 m w" "m \<le> nat k" "m = nat k \<or> (m < length line \<and> nat k < m + snd (DecodeRune (drop m line)))" by blast
  note B = rune_steps_bounds[OF m(1)]
  have to: "ToUTF16 line (int l) = to_utf16_loop line l 0 0" if "l \<le> length line" for l
    using that to_utf16_done[of line 0 0] by (auto simp: ToUTF16_def)
  have tk: "ToUTF16 line k = w"
    using to[of "nat k"] assms(1,2) to_utf16_steps[OF m(1,2), of 0] m(3) to_utf16_stop to_utf16_done by auto
  have "FromUTF16 line w = int m"
    using from_utf16_steps[OF m(1), of 0] B by (auto simp: FromUTF16_def)
  then have j: "j = int m" by (simp add: assms(3) tk)
  show "on_rune line j" using m(1) by (auto simp: on_rune_def j)
  show "0 \<le> j" "j \<le> k" using m(2) assms(1) by (simp_all add: j)
  have "ToUTF16 line j = w" unfolding j using to[of m] B to_utf16_steps[OF m(1) order_refl, of 0] to_utf16_done by simp
  then show "ToUTF16 line j = ToUTF16 line k" by (simp add: tk)
  show "j < k \<Longrightarrow> k < j + int (snd (DecodeRune (drop (nat j) line)))" using m(2,3) by (auto simp: j)
  show "on_rune line k \<Longrightarrow> j = k"
  proof -
    assume "on_rune line k"
    then obtain v where v: "rune_steps line 0 (nat k) v" by (auto simp: on_rune_def)
    have "ToUTF16 line k = v" using to[of "nat k"] assms(1,2) to_utf16_steps[OF v order_refl, of 0] to_utf16_done by simp
    then have "FromUTF16 line (ToUTF16 line k) = int (nat k)"
      using from_utf16_steps[OF v, of 0] rune_steps_bounds[OF v] by (auto simp: FromUTF16_def)
    then show "j = k" using assms(1,3) by simp
  qed
qed

section \<open>Lines\<close>

lemma line_search_spec:
  assumes "sorted starts" "0 \<le> lo" "lo \<le> hi" "hi < int (length starts)" "starts ! nat lo \<le> off"
    "\<And>k. hi < k \<Longrightarrow> k < int (length starts) \<Longrightarrow> off < starts ! nat k"
  shows "let l = line_search starts off lo hi in 0 \<le> l \<and> l < int (length starts) \<and> starts ! nat l \<le> off \<and>
    (\<forall>k. l < k \<and> k < int (length starts) \<longrightarrow> off < starts ! nat k)"
  using assms
proof (induction starts off lo hi rule: line_search.induct)
  case (1 starts off lo hi)
  show ?case
  proof (cases "lo < hi")
    case True
    let ?mid = "(lo + hi + 1) div 2"
    have m: "lo < ?mid" "?mid \<le> hi" using True by linarith+
    show ?thesis
    proof (cases "starts ! nat ?mid \<le> off")
      case t: True
      then show ?thesis using "1.IH"(1)[OF True refl t] "1.prems" m by (subst line_search.simps) (simp add: Let_def True t)
    next
      case f: False
      have "off < starts ! nat k" if "?mid - 1 < k" "k < int (length starts)" for k
        using f sorted_nth_mono[OF "1.prems"(1), of "nat ?mid" "nat k"] that m "1.prems"(2) by (simp add: nat_less_iff nat_mono)
      then show ?thesis using "1.IH"(2)[OF True refl f] "1.prems" m by (subst line_search.simps) (simp add: Let_def True f)
    qed
  next
    case False
    then show ?thesis using "1.prems" by (subst line_search.simps) (auto simp: Let_def)
  qed
qed

lemma starts_NewIndex: "dcStarts (NewDocument t) = NewIndex t" "dcText (NewDocument t) = t"
  by (simp_all add: NewDocument_def NewIndex_def)

text \<open>A line is the one an offset is on when it starts at or before it and the next ones start after it.\<close>

lemma lineOf_unique:
  assumes "0 \<le> off" "off \<le> int (length t)" "0 \<le> l" "l < int (length (NewIndex t))" "NewIndex t ! nat l \<le> off"
    "\<And>k. l < k \<Longrightarrow> k < int (length (NewIndex t)) \<Longrightarrow> off < NewIndex t ! nat k"
  shows "ix_LineOf (NewIndex t) off = l"
proof -
  have "takeWhile (\<lambda>v. v < off + 1) (NewIndex t) = take (Suc (nat l)) (NewIndex t)"
  proof (rule takeWhile_eq_take_P_nth)
    fix i
    assume "i < Suc (nat l)" "i < length (NewIndex t)"
    then have "NewIndex t ! i \<le> NewIndex t ! nat l" using assms(4) sorted_nth_mono[OF NewIndex_sorted, of i "nat l" t] by simp
    then show "NewIndex t ! i < off + 1" using assms(5) by simp
  next
    assume "Suc (nat l) < length (NewIndex t)"
    moreover have "nat (l + 1) = Suc (nat l)" using assms(3) by simp
    ultimately have "off < NewIndex t ! Suc (nat l)" using assms(6)[of "l + 1"] assms(3) by simp
    then show "\<not> NewIndex t ! Suc (nat l) < off + 1" by simp
  qed
  then have "SearchInts (NewIndex t) (off + 1) = Suc (nat l)" using assms(3,4) by (simp add: SearchInts_def)
  moreover have "off = 0 \<Longrightarrow> l = 0"
  proof (rule ccontr)
    assume "off = 0" "l \<noteq> 0"
    then obtain k where k: "nat l = Suc k" "k < length (newline_starts 0 t)" using assms(3,4) by (cases "nat l") (auto simp: NewIndex_def)
    then have "newline_starts 0 t ! k \<le> 0" using assms(5) \<open>off = 0\<close> by (simp add: NewIndex_def)
    then show False using newline_starts_bounds[OF nth_mem[OF k(2)]] by simp
  qed
  ultimately show ?thesis using assms(1,3) by (auto simp: ix_LineOf_def)
qed

lemma dc_lineOf_spec:
  assumes "0 \<le> off" "off \<le> int (length t)" "l = dc_lineOf (NewDocument t) off"
  shows "l = ix_LineOf (NewIndex t) off" "0 \<le> l" "l < int (length (NewIndex t))" "NewIndex t ! nat l \<le> off"
    "\<And>k. l < k \<Longrightarrow> k < int (length (NewIndex t)) \<Longrightarrow> off < NewIndex t ! nat k"
proof -
  have n: "0 < length (NewIndex t)" "NewIndex t ! 0 \<le> off" using assms(1) by (simp_all add: NewIndex_def)
  have "l = line_search (NewIndex t) off 0 (int (length (NewIndex t)) - 1)"
    by (simp add: assms(3) dc_lineOf_def starts_NewIndex)
  from line_search_spec[OF NewIndex_sorted, of 0 "int (length (NewIndex t)) - 1" t off, folded this] n
  show a: "0 \<le> l" "l < int (length (NewIndex t))" "NewIndex t ! nat l \<le> off"
    "\<And>k. l < k \<Longrightarrow> k < int (length (NewIndex t)) \<Longrightarrow> off < NewIndex t ! nat k" by (simp_all add: Let_def)
  show "l = ix_LineOf (NewIndex t) off" using lineOf_unique[OF assms(1,2) a(1-3)] a(4) by simp
qed

text \<open>The offset a position leads back to: the start of its line plus the column rounded down.\<close>

lemma position_floor:
  assumes "0 \<le> off" "off \<le> int (length t)" "d = NewDocument t" "l = dc_lineOf d off" "s = NewIndex t ! nat l"
    "line = dc_line d l" "j = FromUTF16 line (ToUTF16 line (off - s))"
  shows "dc_Position d off = \<lparr>psLine = l, psCharacter = ToUTF16 line (off - s)\<rparr>" "dc_Offset d (dc_Position d off) = s + j"
    "0 \<le> s" "0 \<le> off - s" "off - s \<le> int (length line)"
proof -
  have l: "l = dc_lineOf (NewDocument t) off" by (simp add: assms(3,4))
  note L = dc_lineOf_spec[OF assms(1,2) l]
  note B = line_bounds[OF assms(1,2) L(1)]
  show p: "dc_Position d off = \<lparr>psLine = l, psCharacter = ToUTF16 line (off - s)\<rparr>"
    using assms(1,2) by (simp add: assms(3,4,5,6) dc_Position_def Let_def starts_NewIndex)
  show s0: "0 \<le> s" using NewIndex_bounds[of s t] L(2,3) by (simp add: assms(5) nat_less_iff)
  define e where "e = ix_LineEnd (NewIndex t) l (int (length t))"
  have e: "off \<le> e" "e \<le> int (length t)"
  proof -
    show "off \<le> e" using B(4) by (simp add: e_def)
    have "length (takeWhile (\<lambda>b. b \<noteq> 10) (drop (nat off) t)) \<le> length (drop (nat off) t)" by (rule length_takeWhile_le)
    then show "e \<le> int (length t)" using B(4) assms(1,2) by (simp add: e_def)
  qed
  have line: "line = sub_range s (e - s) t"
    using e(1) L(4) by (auto simp: dc_line_def Let_def assms(3,5,6) starts_NewIndex e_def ix_LineEnd_def)
  show "0 \<le> off - s" "off - s \<le> int (length line)"
    using L(4) e s0 length_sub_range[of s "e - s" t] by (simp_all add: line assms(5))
  show "dc_Offset d (dc_Position d off) = s + j"
    unfolding p using L(2,3) by (simp add: dc_Offset_def assms(3,5-7) starts_NewIndex)
qed

lemma position_roundtrip_law:
  assumes "0 \<le> off" "off \<le> int (length t)" "d = NewDocument t" "p = dc_Position d off" "l = psLine p"
  shows "l = int (length (filter (\<lambda>b. b = 10) (take (nat off) t)))" "dc_Offset d p \<le> off" "0 \<le> dc_Offset d p"
    "dc_Position d (dc_Offset d p) = p" "on_rune (dc_line d l) (off - dcStarts d ! nat l) \<Longrightarrow> dc_Offset d p = off"
proof -
  note P = position_floor[OF assms(1-3) refl refl refl refl]
  have l: "l = dc_lineOf (NewDocument t) off" by (simp add: assms(4,5) P(1)) (simp add: assms(3))
  note L = dc_lineOf_spec[OF assms(1,2) l]
  show "l = int (length (filter (\<lambda>b. b = 10) (take (nat off) t)))" using L(1) LineOf_spec[OF assms(1,2)] by simp
  let ?s = "NewIndex t ! nat l" and ?line = "dc_line d l"
  note Q = P[folded l[folded assms(3)]]
  define j where "j = FromUTF16 ?line (ToUTF16 ?line (off - ?s))"
  note U = utf16_there_and_back[OF Q(4,5) j_def]
  have o: "dc_Offset d p = ?s + j" using Q(2) by (simp add: assms(4) j_def)
  show "dc_Offset d p \<le> off" "0 \<le> dc_Offset d p" using U(2,3) Q(3) by (simp_all add: o)
  have in_doc: "0 \<le> ?s + j" "?s + j \<le> int (length t)" using U(2,3) Q(3) assms(2) by simp_all
  have "dc_lineOf d (?s + j) = l"
  proof -
    have "\<And>k. l < k \<Longrightarrow> k < int (length (NewIndex t)) \<Longrightarrow> ?s + j < NewIndex t ! nat k" using L(5) U(3) by fastforce
    from lineOf_unique[OF in_doc L(2,3) _ this] have "ix_LineOf (NewIndex t) (?s + j) = l" using U(2) by simp
    then show ?thesis using dc_lineOf_spec(1)[OF in_doc refl] by (simp add: assms(3))
  qed
  from position_floor(1)[OF in_doc assms(3) this[symmetric] refl refl refl]
  show "dc_Position d (dc_Offset d p) = p" unfolding o using U(5) Q(1) by (simp add: assms(4))
  show "on_rune ?line (off - dcStarts d ! nat l) \<Longrightarrow> dc_Offset d p = off"
    unfolding o using U(4) by (simp add: assms(3) starts_NewIndex)
qed

text \<open>Rounding keeps the order of offsets.\<close>

lemma rune_steps_from:
  "rune_steps line i j w \<Longrightarrow> rune_steps line i k v \<Longrightarrow> j < k \<Longrightarrow> j + snd (DecodeRune (drop j line)) \<le> k"
proof (induction arbitrary: v rule: rune_steps.induct)
  case (here i)
  from here(2) show ?case using here(3) by (cases rule: rune_steps.cases) (auto dest: rune_steps_bounds)
next
  case (rune i r n j w)
  from rune.prems(1) show ?case
  proof (cases rule: rune_steps.cases)
    case here
    then show ?thesis using rune.prems(2) rune_steps_bounds[OF rune(3)] by simp
  next
    case (rune r' n' w')
    then show ?thesis using rune.IH[of w'] rune.prems(2) \<open>DecodeRune (drop i line) = (r, n)\<close> by simp
  qed
qed

lemma floor_mono:
  assumes "0 \<le> a" "a \<le> b" "b \<le> int (length line)"
  shows "FromUTF16 line (ToUTF16 line a) \<le> FromUTF16 line (ToUTF16 line b)"
proof -
  define i j where ij: "i = FromUTF16 line (ToUTF16 line a)" "j = FromUTF16 line (ToUTF16 line b)"
  note A = utf16_there_and_back[OF assms(1) order_trans[OF assms(2,3)] ij(1)]
  note B = utf16_there_and_back[OF order_trans[OF assms(1,2)] assms(3) ij(2)]
  show ?thesis
  proof (rule ccontr)
    assume "\<not> ?thesis"
    then have "j < i" by (simp add: ij)
    moreover from this A(3) assms(2) have "j < b" by simp
    moreover obtain v w where "rune_steps line 0 (nat j) v" "rune_steps line 0 (nat i) w" using A(1) B(1) by (auto simp: on_rune_def)
    ultimately show False using rune_steps_from[of line 0 "nat j" v "nat i" w] A(3) B(2) B(6) assms(2) by simp
  qed
qed

lemma position_mono:
  assumes "0 \<le> a" "a \<le> b" "b \<le> int (length t)" "d = NewDocument t"
  shows "dc_Offset d (dc_Position d a) \<le> dc_Offset d (dc_Position d b)"
proof -
  define l m where lm: "l = dc_lineOf d a" "m = dc_lineOf d b"
  note A = position_floor[OF assms(1) order_trans[OF assms(2,3)] assms(4) lm(1) refl refl refl]
  note B = position_floor[OF order_trans[OF assms(1,2)] assms(3,4) lm(2) refl refl refl]
  note LA = dc_lineOf_spec[OF assms(1) order_trans[OF assms(2,3)] lm(1)[unfolded assms(4)]]
  note LB = dc_lineOf_spec[OF order_trans[OF assms(1,2)] assms(3) lm(2)[unfolded assms(4)]]
  have "l \<le> m"
  proof (rule ccontr)
    assume "\<not> l \<le> m"
    then show False using LB(5)[of l] LA(3,4) assms(2) by simp
  qed
  show ?thesis
  proof (cases "l = m")
    case True
    then show ?thesis using floor_mono[of "a - NewIndex t ! nat m" "b - NewIndex t ! nat m" "dc_line d m"] A(2,4) B(2,4,5) assms(2) by simp
  next
    case False
    then have "a < NewIndex t ! nat m" using LA(5)[of m] LB(3) \<open>l \<le> m\<close> by simp
    moreover have "dc_Offset d (dc_Position d a) \<le> a"
      using position_roundtrip_law(2)[OF assms(1) order_trans[OF assms(2,3)] assms(4) refl refl] .
    moreover have "NewIndex t ! nat m \<le> dc_Offset d (dc_Position d b)"
      using B(2) utf16_there_and_back(2)[OF B(4,5) refl] by simp
    ultimately show ?thesis by simp
  qed
qed

end
