(* ===== verification/EditorProps.thy ===== *)
theory EditorProps
  imports TextEncoding Positions
begin

text \<open>
  Properties of the text side of the editor: the encodings a file is read and saved in
  (\<open>internal/editor/encoding.go\<close>), the line index (\<open>internal/view/index.go\<close>) and language-server
  positions (\<open>internal/lsp/position.go\<close>).
\<close>

section \<open>Encodings\<close>

lemma sniffed_kind: "sniffSingleByte data = Inr k \<Longrightarrow> k = UTF8 \<or> k = Windows1252 \<or> k = Latin1"
  by (simp add: sniffSingleByte_def Let_def split: if_splits)

lemma charset_mark: "charset data = Inr (enc, body) \<Longrightarrow> data = mark_of enc @ body"
  using HasPrefix_split[of data utf16LEBOM] HasPrefix_split[of data utf16BEBOM] HasPrefix_split[of data utf8BOM]
  by (auto simp: charset_def mark_of_def text_encoding_def dest: sniffed_kind split: sum.splits if_splits)
    (simp_all add: utf8BOM_def utf16LEBOM_def utf16BEBOM_def numeral_2_eq_2 numeral_3_eq_3)

lemma stripCR_skip: "13 \<notin> set xs \<Longrightarrow> stripCR (xs @ rest) = xs @ stripCR rest"
  by (induction xs) auto

lemma Valid_stripCR: "Valid t \<Longrightarrow> Valid (stripCR t)"
proof -
  have "\<forall>r \<in> set rs. scalar r \<Longrightarrow> Valid (stripCR (utf8_string rs))" for rs
  proof (induction rs)
    case (Cons r rs)
    show ?case
    proof (cases "r = 13")
      case True
      then have "EncodeRune r = [13]" by (simp add: EncodeRune_def byte_of_def scalar_def)
      then show ?thesis using Cons Valid_encode[of r "stripCR (utf8_string rs)"] by (simp add: utf8_string_def)
    next
      case False
      then have "13 \<notin> set (EncodeRune r)" using EncodeRune_ascii[of r 13] Cons.prems by auto
      then show ?thesis using Cons by (simp add: utf8_string_def stripCR_skip Valid_encode)
    qed
  qed (simp add: utf8_string_def)
  then show "Valid t \<Longrightarrow> Valid (stripCR t)" using utf8_runes by metis
qed

lemma Valid_decodeCharset: "decodeCharset body k = Inr t \<Longrightarrow> Valid t"
proof -
  have u: "even (length body) \<Longrightarrow> paired (units_of be body) \<Longrightarrow> Valid (utf8_string (utf16_Decode (units_of be body)))" for be
    using units_back[of body be] utf16_back[of "units_of be body"] by (intro Valid_utf8) blast
  have s: "b < 256 \<Longrightarrow> scalar (cp1252 b)" for b by (rule cp1252_back)
  have "Valid (decodeWindows1252 body)" unfolding windows1252_string by (rule Valid_utf8) (auto intro!: s unsigned_less[THEN less_le_trans])
  moreover have "Valid (decodeLatin1 body)" unfolding latin1_string by (rule Valid_utf8) auto
  ultimately show "decodeCharset body k = Inr t \<Longrightarrow> Valid t"
    using u by (auto simp: decodeCharset_def decodeUTF16_def Let_def split: EncodingKind.splits if_splits)
qed

text \<open>Whatever a file holds, the text it opens as is well-formed UTF-8 of scalar values, obtained from the
  body behind its mark by the decoder of its kind, and it is marked as mixed exactly when the body has both line
  endings.\<close>

theorem decoded_text_valid:
  assumes "decode data = Inr (t, e)"
  shows "Valid t \<and> utf8_string (runes t) = t \<and> (\<forall>r \<in> set (runes t). scalar r) \<and>
    (\<exists>body content. data = mark_of e @ body \<and> decodeCharset body (teKind e) = Inr content \<and>
      t = (if 0 < count_crlf content then stripCR content else content) \<and>
      (teMixed e \<longleftrightarrow> 0 < count_crlf content \<and> count_crlf content < count_lf content))"
proof -
  obtain enc body content where d: "charset data = Inr (enc, body)" "decodeCharset body (teKind enc) = Inr content"
    "t = (if 0 < count_crlf content then stripCR content else content)" "teKind e = teKind enc" "teBOM e = teBOM enc"
    "0 < count_crlf content \<longrightarrow> teMixed e = (count_crlf content \<noteq> count_lf content)"
    "\<not> 0 < count_crlf content \<longrightarrow> e = enc"
    using assms by (auto simp: decode_def Let_def split: sum.splits prod.splits if_splits)
  have "Valid t" using d(3) Valid_decodeCharset[OF d(2)] Valid_stripCR by (simp split: if_splits)
  moreover have "teMixed e \<longleftrightarrow> 0 < count_crlf content \<and> count_crlf content < count_lf content"
    using d(6,7) charset_back[OF d(1,2)] crlf_le_lf[of content] by auto
  moreover have "data = mark_of e @ body" using charset_mark[OF d(1)] d(4,5) by (simp add: mark_of_def)
  ultimately show ?thesis using utf8_runes d(2,3,4) by metis
qed


definition latin1_file :: "byte list" where "latin1_file = [0x63, 0xE9, 13, 10]"

lemma latin1_file_charset: "charset latin1_file = Inr (text_encoding Latin1 False, latin1_file)"
  by (simp add: latin1_file_def charset_def HasPrefix_def utf8BOM_def utf16LEBOM_def utf16BEBOM_def utf32LEBOM_def utf32BEBOM_def
      sniffSingleByte_def Valid.simps[of "99 # _"] Valid.simps[of "233 # _"] cont_def second_ok_def sniffLen_def)

lemma latin1_file_decode: "decode latin1_file = Inr ([0x63, 0xC3, 0xA9, 10], (text_encoding Latin1 False)\<lparr>teCRLF := True\<rparr>)"
  by (simp add: decode_def latin1_file_charset) (simp add: text_encoding_def decodeCharset_def decodeLatin1_def latin1_file_def count_lf_def Let_def)

theorem decoded_text_valid_witness: "Valid [0x63, 0xC3, 0xA9, 10]"
  using decoded_text_valid[OF latin1_file_decode] by simp

text \<open>C12: a file read in is written back byte for byte when its text has not changed, unless its line endings were
  mixed.\<close>

theorem decode_encode_roundtrip:
  assumes "decode data = Inr (t, e)" "\<not> teMixed e"
  shows "encode t e = Inr data"
  using assms by (rule decode_back)

theorem decode_encode_roundtrip_witness:
  "encode [0x63, 0xC3, 0xA9, 10] ((text_encoding Latin1 False)\<lparr>teCRLF := True\<rparr>) = Inr latin1_file"
  by (rule decode_encode_roundtrip[OF latin1_file_decode]) (simp add: text_encoding_def)


lemma runes_with_crlf: "Valid t \<Longrightarrow> runes (with_crlf t) = concat (map (\<lambda>r. if r = 10 then [13, 10] else [r]) (runes t))"
proof -
  assume "Valid t"
  note R = utf8_runes[OF this]
  have "\<forall>r \<in> set (concat (map (\<lambda>r. if r = 10 then [13, 10] else [r]) (runes t))). scalar r" using R by (auto simp: scalar_def)
  from runes_utf8[OF this] show ?thesis using with_crlf_utf8[OF conjunct2[OF R]] R by simp
qed

lemma cp1252Rev_None: "cp1252Rev r = None \<longleftrightarrow> (\<forall>b < 256. cp1252 b \<noteq> r)"
  by (auto simp: cp1252Rev_def find_None_iff)

definition byte_rune :: "EncodingKind \<Rightarrow> nat \<Rightarrow> nat" where
  "byte_rune k b = (if k = Windows1252 then cp1252 b else b)"

lemma encode_body_refuses:
  assumes "encode_body c e = Inl err"
  shows "teKind e \<in> {Windows1252, Latin1} \<and> (\<exists>r \<in> set (runes c). err = Unencodable r \<and> (\<forall>b < 256. byte_rune (teKind e) b \<noteq> r))"
proof -
  have hd: "\<exists>x \<in> set xs. P x \<Longrightarrow> hd (filter P xs) \<in> set xs \<and> P (hd (filter P xs))" for P and xs :: "nat list"
    by (induction xs) auto
  have k: "teKind e \<in> {Windows1252, Latin1}" using assms by (auto simp: encode_body_def encode_def split: EncodingKind.splits if_splits)
  show ?thesis
  proof (cases "teKind e = Latin1")
    case True
    then have "encode_table (\<lambda>r. if 0xFF < r then None else Some r) (runes c) = Inl err"
      using assms by (simp add: encode_body_def encode_def encodeLatin1_def)
    then show ?thesis using True hd[of "runes c" "\<lambda>r. 255 < r"] unfolding encode_table_err by (auto simp: byte_rune_def split: if_splits)
  next
    case False
    then have w: "teKind e = Windows1252" using k by simp
    then have "encode_table cp1252Rev (runes c) = Inl err" using assms by (simp add: encode_body_def encode_def encodeWindows1252_def)
    then show ?thesis using w hd[of "runes c" "\<lambda>r. cp1252Rev r = None"] unfolding encode_table_err
      by (auto simp: byte_rune_def cp1252Rev_None)
  qed
qed

text \<open>C13: what a save of well-formed text writes reads back, under the same encoding, as that text with its line
  endings put in, and stripping them gives the text; it fails only in a single-byte encoding, naming a character of the
  text that no byte stands for.\<close>

theorem encode_faithful:
  assumes "Valid t"
  shows "case encode t e of
      Inr data \<Rightarrow> \<exists>body. data = mark_of e @ body \<and>
        decodeCharset body (teKind e) = Inr (if teCRLF e then with_crlf t else t) \<and> (teCRLF e \<longrightarrow> stripCR (with_crlf t) = t)
    | Inl err \<Rightarrow> teKind e \<in> {Windows1252, Latin1} \<and>
        (\<exists>r \<in> set (runes t). err = Unencodable r \<and> (\<forall>b < 256. byte_rune (teKind e) b \<noteq> r))"
proof (cases "encode t e")
  case (Inr data)
  have "Valid (if teCRLF e then with_crlf t else t)" using assms Valid_with_crlf by simp
  from encode_body_faithful[OF this, of e data] show ?thesis using Inr stripCR_with_crlf by (simp add: encode_crlf)
next
  case (Inl err)
  then have "encode_body (if teCRLF e then with_crlf t else t) e = Inl err" by (simp add: encode_crlf)
  note k = conjunct1[OF encode_body_refuses[OF this]]
  obtain r where r: "r \<in> set (runes (if teCRLF e then with_crlf t else t))" "err = Unencodable r"
    "\<forall>b < 256. byte_rune (teKind e) b \<noteq> r" using encode_body_refuses[OF \<open>encode_body _ e = _\<close>] by blast
  have "byte_rune (teKind e) 13 = 13" by (simp add: byte_rune_def cp1252_def cp1252_high_def)
  then have "r \<noteq> 13" using r(3)[rule_format, of 13] by auto
  then have "r \<in> set (runes t)" using r(1) runes_with_crlf[OF assms] by (auto split: if_splits)
  then show ?thesis using Inl k r(2,3) by auto
qed

theorem encode_faithful_witness: "case encode [0xE2, 0x82, 0xAC] (text_encoding Latin1 False) of Inr data \<Rightarrow> False | Inl err \<Rightarrow> err = Unencodable 0x20AC"
proof -
  have v: "Valid [0xE2, 0x82, 0xAC]" by (simp add: Valid.simps cont_def second_ok_def)
  have r: "runes [0xE2, 0x82, 0xAC] = [0x20AC]" by (simp add: runes_step cont_def second_ok_def)
  from encode_faithful[OF v, of "text_encoding Latin1 False"] show ?thesis
    by (auto simp: r encode_def text_encoding_def encodeLatin1_def)
qed


text \<open>A buffer opened from a file can hold a carriage return before a newline, and saving it then writes two, where
  the comment in \<open>encode\<close> says the replacement cannot.\<close>

lemma saved_double_cr:
  "decode [13, 13, 10] = Inr ([13, 10], (text_encoding UTF8 False)\<lparr>teCRLF := True\<rparr>)"
  "encode [13, 10] ((text_encoding UTF8 False)\<lparr>teCRLF := True\<rparr>) = Inr [13, 13, 10]"
proof -
  have "charset [13, 13, 10] = Inr (text_encoding UTF8 False, [13, 13, 10])"
    by (simp add: charset_def HasPrefix_def utf8BOM_def utf16LEBOM_def utf16BEBOM_def utf32LEBOM_def utf32BEBOM_def
        sniffSingleByte_def Valid.simps sniffLen_def RuneError_def Let_def)
  then show "decode [13, 13, 10] = Inr ([13, 10], (text_encoding UTF8 False)\<lparr>teCRLF := True\<rparr>)"
    by (simp add: decode_def) (simp add: text_encoding_def decodeCharset_def Valid.simps RuneError_def count_lf_def)
  show "encode [13, 10] ((text_encoding UTF8 False)\<lparr>teCRLF := True\<rparr>) = Inr [13, 13, 10]"
    by (simp add: encode_def text_encoding_def)
qed

section \<open>The line index\<close>

text \<open>An index kept up to date through an insertion or a deletion inside the document is the one built from
  scratch on the edited text, by either entry point.\<close>

theorem line_index_edits:
  assumes "0 \<le> pos" "pos \<le> int (length doc)"
  shows "ix_Insert (NewIndex doc) pos t = NewIndex (put_at pos t doc) \<and>
    ix_InsertLen (NewIndex doc) pos (int (length t)) (newline_starts pos t) = ix_Rebuild (NewIndex doc) (put_at pos t doc) \<and>
    (0 \<le> len \<longrightarrow> pos + len \<le> int (length doc) \<longrightarrow> ix_Delete (NewIndex doc) pos len = NewIndex (cut_range pos len doc))"
  using insert_spec[OF assms, of t] delete_spec[of pos len doc] assms(1) by (simp add: Insert_InsertLen ix_Rebuild_def)

theorem line_index_edits_witness:
  "ix_Insert (NewIndex [97, 10, 98]) 1 [10, 99] = NewIndex [97, 10, 99, 10, 98] \<and> ix_Delete (NewIndex [97, 10, 98]) 1 1 = NewIndex [97, 98]"
  using line_index_edits[of 1 "[97, 10, 98]" "[10, 99]" 1] by (simp add: put_at_def cut_range_def)

text \<open>The line of an offset is the number of newlines before it; it is a line of the index, it starts right
  behind the newline before the offset and ends at the newline at or after it, or where the document does.\<close>

theorem line_of_offset:
  assumes "0 \<le> off" "off \<le> int (length doc)" "l = ix_LineOf (NewIndex doc) off"
  shows "l = int (length (filter (\<lambda>b. b = 10) (take (nat off) doc))) \<and> 0 \<le> l \<and> l < ix_Lines (NewIndex doc) \<and>
    ix_LineStart (NewIndex doc) l = off - int (length (takeWhile (\<lambda>b. b \<noteq> 10) (rev (take (nat off) doc)))) \<and>
    ix_LineEnd (NewIndex doc) l (int (length doc)) = off + int (length (takeWhile (\<lambda>b. b \<noteq> 10) (drop (nat off) doc)))"
  using LineOf_spec[OF assms(1,2)] line_bounds[OF assms] by (simp add: assms(3))

theorem line_of_offset_witness:
  "ix_LineOf (NewIndex [97, 10, 98]) 3 = 1 \<and> ix_LineStart (NewIndex [97, 10, 98]) 1 = 2 \<and> ix_LineEnd (NewIndex [97, 10, 98]) 1 3 = 3"
  using line_of_offset[of 3 "[97, 10, 98]"] by (auto simp: NewIndex_def ix_LineOf_def SearchInts_def)

section \<open>Language-server positions\<close>



end
