(* ===== verification/LspSync.thy ===== *)
theory LspSync
  imports Positions
begin

text \<open>
  Document synchronisation with a language server (\<open>internal/lsp/sync.go\<close>) and the file URIs it is keyed by
  (\<open>internal/lsp/conn.go\<close>). A call that would notify the server returns the message it hands to the connection;
  the server itself is not part of the program: what it does with a message is a parameter, the reading of a position.
\<close>

unbundle bit_operations_syntax

section \<open>File URIs\<close>

definition uri_plain :: "byte \<Rightarrow> bool" where
  "uri_plain b \<longleftrightarrow> b = 0x2F \<or> b = 0x2E \<or> b = 0x2D \<or> b = 0x5F \<or> b = 0x7E \<or>
     0x61 \<le> b \<and> b \<le> 0x7A \<or> 0x41 \<le> b \<and> b \<le> 0x5A \<or> 0x30 \<le> b \<and> b \<le> 0x39"

text \<open>The two upper-case digits of \<open>%02X\<close>.\<close>

definition hex_digit :: "byte \<Rightarrow> byte" where
  "hex_digit n = (if n < 10 then 0x30 + n else 0x37 + n)"

definition uri_byte :: "byte \<Rightarrow> byte list" where
  "uri_byte b = (if uri_plain b then [b] else [0x25, hex_digit (drop_bit 4 b), hex_digit (b AND 15)])"

definition file_scheme :: "byte list" where
  "file_scheme = [0x66, 0x69, 0x6C, 0x65, 0x3A, 0x2F, 0x2F]"

definition URI :: "byte list \<Rightarrow> byte list" where
  "URI path = file_scheme @ concat (map uri_byte path)"

definition hexVal :: "byte \<Rightarrow> byte option" where
  "hexVal b =
     (if 0x30 \<le> b \<and> b \<le> 0x39 then Some (b - 0x30)
      else if 0x61 \<le> b \<and> b \<le> 0x66 then Some (b - 0x61 + 10)
      else if 0x41 \<le> b \<and> b \<le> 0x46 then Some (b - 0x41 + 10)
      else None)"

definition unhex :: "byte \<Rightarrow> byte \<Rightarrow> byte option" where
  "unhex a b = (case (hexVal a, hexVal b) of (Some hi, Some lo) \<Rightarrow> Some (push_bit 4 hi OR lo) | _ \<Rightarrow> None)"

fun path_loop :: "byte list \<Rightarrow> byte list" where
  "path_loop (c # a # b # s) =
     (if c = 0x25 then (case unhex a b of Some v \<Rightarrow> v # path_loop s | None \<Rightarrow> c # path_loop (a # b # s))
      else c # path_loop (a # b # s))"
| "path_loop (c # s) = c # path_loop s"
| "path_loop [] = []"

definition Path :: "byte list \<Rightarrow> byte list" where
  "Path uri = path_loop (if take 7 uri = file_scheme then drop 7 uri else uri)"

section \<open>The tracker\<close>

datatype SyncKind = SyncNone | SyncFull | SyncIncremental

record LspEdit =
  leStart :: int
  leEnd :: int
  leText :: "byte list"

record tracked =
  trVersion :: int
  trText :: "byte list"

record Sync =
  syConn :: bool
  syKind :: SyncKind
  syOpen :: "(byte list, tracked) map"

definition NewSync :: "bool \<Rightarrow> SyncKind \<Rightarrow> Sync" where
  "NewSync conn k = \<lparr>syConn = conn, syKind = k, syOpen = Map.empty\<rparr>"

datatype content_change = FullChange "byte list" | RangedChange LspRange "byte list"

datatype message =
    DidOpen "byte list" "byte list" int "byte list"
  | DidChange "byte list" int "content_change list"
  | DidSave "byte list" "byte list"
  | DidChangeWatchedFiles "byte list list"
  | DidClose "byte list"

text \<open>What a call comes to: \<open>ErrClosed\<close>, nothing to send, or a message handed to the connection.\<close>

datatype outcome = ErrClosed | Silent | Notify message

definition sync_Open :: "Sync \<Rightarrow> byte list \<Rightarrow> byte list \<Rightarrow> byte list \<Rightarrow> int \<Rightarrow> outcome \<times> Sync" where
  "sync_Open s path lang t v =
     (if \<not> syConn s then (ErrClosed, s)
      else let uri = URI path in
        case syOpen s uri of
          Some _ \<Rightarrow> (Silent, s)
        | None \<Rightarrow> (Notify (DidOpen uri lang v t), s\<lparr>syOpen := (syOpen s)(uri \<mapsto> \<lparr>trVersion = v, trText = t\<rparr>)\<rparr>))"

definition maxIncrementalEdits :: nat where "maxIncrementalEdits = 64"

text \<open>The replay of a batch: the ranges to send and the text they lead to.\<close>

fun replay_edits :: "byte list \<Rightarrow> LspEdit list \<Rightarrow> (content_change list \<times> byte list) option" where
  "replay_edits working [] = Some ([], working)"
| "replay_edits working (e # es) =
     (if leStart e = leEnd e \<and> leText e = [] then replay_edits working es
      else if leStart e < 0 \<or> leEnd e < leStart e \<or> int (length working) < leEnd e then None
      else let d = NewDocument working;
               r = \<lparr>rgStart = dc_Position d (leStart e), rgEnd = dc_Position d (leEnd e)\<rparr>;
               (lo, hi) = dc_Span d r
           in case replay_edits (take (nat lo) working @ leText e @ drop (nat hi) working) es of
                None \<Rightarrow> None
              | Some (cs, w) \<Rightarrow> Some (RangedChange r (leText e) # cs, w))"

definition incrementalChanges :: "byte list \<Rightarrow> LspEdit list option \<Rightarrow> byte list \<Rightarrow> content_change list option" where
  "incrementalChanges old edits new =
     (case edits of
        None \<Rightarrow> None
      | Some es \<Rightarrow>
          if maxIncrementalEdits < length es then None
          else case replay_edits old es of
                 None \<Rightarrow> None
               | Some (cs, w) \<Rightarrow> if w \<noteq> new then None else Some cs)"

definition sync_Change :: "Sync \<Rightarrow> byte list \<Rightarrow> byte list \<Rightarrow> int \<Rightarrow> LspEdit list option \<Rightarrow> outcome \<times> Sync" where
  "sync_Change s path t v edits =
     (if \<not> syConn s then (ErrClosed, s)
      else if syKind s = SyncNone then (Silent, s)
      else let uri = URI path in
        case syOpen s uri of
          None \<Rightarrow> (Silent, s)
        | Some pin \<Rightarrow>
            if \<not> (v \<noteq> trVersion pin \<or> t \<noteq> trText pin) then (Silent, s)
            else let s1 = s\<lparr>syOpen := (syOpen s)(uri \<mapsto> \<lparr>trVersion = v, trText = t\<rparr>)\<rparr> in
              if syKind s = SyncIncremental \<and> trVersion pin < v then
                (case incrementalChanges (trText pin) edits t of
                   Some [] \<Rightarrow> (Silent, s1)
                 | Some ranged \<Rightarrow> (Notify (DidChange uri v ranged), s1)
                 | None \<Rightarrow> (Notify (DidChange uri v [FullChange t]), s1))
              else (Notify (DidChange uri v [FullChange t]), s1))"

definition sync_Save :: "Sync \<Rightarrow> byte list \<Rightarrow> byte list \<Rightarrow> outcome \<times> Sync" where
  "sync_Save s path t =
     (if \<not> syConn s then (ErrClosed, s)
      else let uri = URI path in
        case syOpen s uri of None \<Rightarrow> (Silent, s) | Some _ \<Rightarrow> (Notify (DidSave uri t), s))"

definition sync_Changed :: "Sync \<Rightarrow> byte list list \<Rightarrow> outcome \<times> Sync" where
  "sync_Changed s paths =
     (if \<not> syConn s then (ErrClosed, s)
      else if paths = [] then (Silent, s)
      else (Notify (DidChangeWatchedFiles (map URI paths)), s))"

definition sync_Close :: "Sync \<Rightarrow> byte list \<Rightarrow> outcome \<times> Sync" where
  "sync_Close s path =
     (if \<not> syConn s then (ErrClosed, s)
      else let uri = URI path; s1 = s\<lparr>syOpen := (syOpen s)(uri := None)\<rparr> in
        case syOpen s uri of None \<Rightarrow> (Silent, s1) | Some _ \<Rightarrow> (Notify (DidClose uri), s1))"

definition sync_IsOpen :: "Sync \<Rightarrow> byte list \<Rightarrow> bool" where
  "sync_IsOpen s path \<longleftrightarrow> syOpen s (URI path) \<noteq> None"

definition sync_Version :: "Sync \<Rightarrow> byte list \<Rightarrow> int \<times> bool" where
  "sync_Version s path = (case syOpen s (URI path) of None \<Rightarrow> (0, False) | Some p \<Rightarrow> (trVersion p, True))"

definition sync_Pinned :: "Sync \<Rightarrow> byte list \<Rightarrow> int \<times> byte list \<times> bool" where
  "sync_Pinned s path = (case syOpen s (URI path) of None \<Rightarrow> (0, [], False) | Some p \<Rightarrow> (trVersion p, trText p, True))"

section \<open>Languages\<close>

text \<open>The extension: what follows the last dot behind the last separator, with the dot.\<close>

fun ext_scan :: "string \<Rightarrow> string \<Rightarrow> string" where
  "ext_scan [] seen = []"
| "ext_scan (c # cs) seen =
     (if c = CHR ''.'' then c # seen
      else if c = CHR ''/'' \<or> c = CHR 0x5C then []
      else ext_scan cs (c # seen))"

definition languages :: "(string \<times> string) list" where
  "languages =
    [(''.go'', ''go''), (''.rs'', ''rust''), (''.py'', ''python''), (''.rb'', ''ruby''),
     (''.js'', ''javascript''), (''.mjs'', ''javascript''), (''.cjs'', ''javascript''), (''.jsx'', ''javascriptreact''),
     (''.ts'', ''typescript''), (''.tsx'', ''typescriptreact''), (''.c'', ''c''), (''.h'', ''c''),
     (''.cc'', ''cpp''), (''.cpp'', ''cpp''), (''.hpp'', ''cpp''), (''.hh'', ''cpp''), (''.java'', ''java''),
     (''.json'', ''json''), (''.md'', ''markdown''), (''.markdown'', ''markdown''), (''.sh'', ''shellscript''),
     (''.bash'', ''shellscript''), (''.css'', ''css''), (''.html'', ''html''), (''.yml'', ''yaml''), (''.yaml'', ''yaml''),
     (''.toml'', ''toml'')]"

definition LanguageID :: "string \<Rightarrow> string" where
  "LanguageID path = (case map_of languages (ext_scan (rev path) []) of None \<Rightarrow> [] | Some l \<Rightarrow> l)"

section \<open>URIs lead back to their paths\<close>

lemma hexVal_digit: "n < 16 \<Longrightarrow> hexVal (hex_digit n) = Some n"
proof -
  assume "n < 16"
  then have "unat n < 16" by (simp add: word_less_nat_alt)
  then have "unat n \<in> set [0..<16]" by simp
  moreover have "\<forall>k \<in> set [0..<16]. hexVal (hex_digit (word_of_nat k)) = Some (word_of_nat k)"
    by (simp add: upt_rec hex_digit_def hexVal_def word_less_nat_alt word_le_nat_alt)
  ultimately have "hexVal (hex_digit (word_of_nat (unat n))) = Some (word_of_nat (unat n))" by blast
  then show ?thesis by simp
qed

lemma nibbles: "drop_bit 4 (b :: byte) < 16" "b AND 15 < 16" "push_bit 4 (drop_bit 4 b) OR (b AND 15) = b"
proof -
  have "unat b < 2 ^ LENGTH(8)" by (rule unsigned_less)
  then show "drop_bit 4 b < 16"
    unfolding word_less_nat_alt unat_drop_bit_eq by (simp add: drop_bit_eq_div less_mult_imp_div_less)
  have m: "b AND 15 = take_bit 4 b" using take_bit_eq_mask[of 4 b] by (simp add: mask_eq_exp_minus_1)
  show "b AND 15 < 16"
    unfolding m word_less_nat_alt unsigned_take_bit_eq by (simp add: take_bit_eq_mod)
  show "push_bit 4 (drop_bit 4 b) OR (b AND 15) = b"
    unfolding m by (rule bit_word_eqI) (auto simp: bit_simps)
qed

lemma path_loop_plain: "c \<noteq> 0x25 \<Longrightarrow> path_loop (c # s) = c # path_loop s"
  by (cases s; cases "tl s") auto

lemma path_loop_uri: "path_loop (concat (map uri_byte p)) = p"
proof (induction p)
  case (Cons b p)
  show ?case
  proof (cases "uri_plain b")
    case True
    then have "b \<noteq> 0x25" by (auto simp: uri_plain_def)
    then show ?thesis using True Cons by (simp add: uri_byte_def path_loop_plain)
  next
    case False
    then show ?thesis using Cons nibbles[of b] by (simp add: uri_byte_def unhex_def hexVal_digit)
  qed
qed simp

lemma Path_URI: "Path (URI p) = p"
  by (simp add: Path_def URI_def file_scheme_def path_loop_uri)

end
