(* ===== verification/LspServer.thy ===== *)
theory LspServer
  imports LspSync
begin

text \<open>
  A language server at the other end of \<open>LspSync\<close>: it keeps the documents it was told about and applies the
  messages in the order they were sent. How it reads a position is a parameter, of which the protocol fixes only
  this: the position of an offset that starts a character denotes that offset.
\<close>

definition starts_char :: "byte list \<Rightarrow> int \<Rightarrow> bool" where
  "starts_char t off \<longleftrightarrow> 0 \<le> off \<and> off \<le> int (length t) \<and>
     (let d = NewDocument t; l = dc_lineOf d off in on_rune (dc_line d l) (off - dcStarts d ! nat l))"

definition reads_positions :: "(byte list \<Rightarrow> Position \<Rightarrow> int) \<Rightarrow> bool" where
  "reads_positions rd \<longleftrightarrow> (\<forall>t off. starts_char t off \<longrightarrow> rd t (dc_Position (NewDocument t) off) = off)"

fun apply_change :: "(byte list \<Rightarrow> Position \<Rightarrow> int) \<Rightarrow> content_change \<Rightarrow> byte list \<Rightarrow> byte list" where
  "apply_change rd (FullChange t) w = t"
| "apply_change rd (RangedChange r t) w = take (nat (rd w (rgStart r))) w @ t @ drop (nat (rd w (rgEnd r))) w"

fun server_step :: "(byte list \<Rightarrow> Position \<Rightarrow> int) \<Rightarrow> message \<Rightarrow> (byte list, byte list) map \<Rightarrow> (byte list, byte list) map" where
  "server_step rd (DidOpen uri lang v t) srv = srv(uri \<mapsto> t)"
| "server_step rd (DidChange uri v cs) srv = srv(uri := map_option (fold (apply_change rd) cs) (srv uri))"
| "server_step rd (DidClose uri) srv = srv(uri := None)"
| "server_step rd _ srv = srv"

fun deliver :: "(byte list \<Rightarrow> Position \<Rightarrow> int) \<Rightarrow> outcome \<Rightarrow> (byte list, byte list) map \<Rightarrow> (byte list, byte list) map" where
  "deliver rd (Notify m) srv = server_step rd m srv"
| "deliver rd _ srv = srv"

text \<open>Any sequence of calls, with the server that receives what they send.\<close>

inductive sync_run :: "(byte list \<Rightarrow> Position \<Rightarrow> int) \<Rightarrow> bool \<Rightarrow> SyncKind \<Rightarrow> Sync \<Rightarrow> (byte list, byte list) map \<Rightarrow> bool"
  for rd conn k where
  start: "sync_run rd conn k (NewSync conn k) Map.empty"
| opens: "sync_run rd conn k s srv \<Longrightarrow> sync_Open s path lang t v = (out, s') \<Longrightarrow> sync_run rd conn k s' (deliver rd out srv)"
| change: "sync_run rd conn k s srv \<Longrightarrow> sync_Change s path t v edits = (out, s') \<Longrightarrow> sync_run rd conn k s' (deliver rd out srv)"
| save: "sync_run rd conn k s srv \<Longrightarrow> sync_Save s path t = (out, s') \<Longrightarrow> sync_run rd conn k s' (deliver rd out srv)"
| changed: "sync_run rd conn k s srv \<Longrightarrow> sync_Changed s paths = (out, s') \<Longrightarrow> sync_run rd conn k s' (deliver rd out srv)"
| closes: "sync_run rd conn k s srv \<Longrightarrow> sync_Close s path = (out, s') \<Longrightarrow> sync_run rd conn k s' (deliver rd out srv)"

section \<open>Ranges\<close>

text \<open>What the client sends for an offset is the position of a character's start, and the server reads that start.\<close>

lemma reads_floor:
  assumes "reads_positions rd" "0 \<le> off" "off \<le> int (length t)" "d = NewDocument t"
  shows "rd t (dc_Position d off) = dc_Offset d (dc_Position d off)"
proof -
  define p o1 where po: "p = dc_Position d off" "o1 = dc_Offset d p"
  define l where l: "l = dc_lineOf d off"
  note R = position_roundtrip_law[OF assms(2,3,4) po(1) refl, folded po(2)]
  note P = position_floor[OF assms(2,3,4) l refl refl refl, folded po(1), folded po(2)]
  have in_doc: "0 \<le> o1" "o1 \<le> int (length t)" using R(2,3) assms(3) by simp_all
  have "psLine (dc_Position d o1) = dc_lineOf d o1" using position_floor(1)[OF in_doc assms(4) refl refl refl refl] by simp
  then have l1: "dc_lineOf d o1 = l" using R(4) P(1) by simp
  have "on_rune (dc_line d l) (o1 - NewIndex t ! nat l)"
    using P(2) utf16_there_and_back(1)[OF P(4,5) refl] by simp
  then have "starts_char t o1" using in_doc l1 by (simp add: starts_char_def Let_def assms(4) starts_NewIndex)
  then have "rd t (dc_Position d o1) = o1" using assms(1) by (simp add: reads_positions_def assms(4))
  then show ?thesis using R(4) by (simp add: po)
qed

lemma replay_applies:
  assumes "reads_positions rd"
  shows "replay_edits w es = Some (cs, w') \<Longrightarrow> fold (apply_change rd) cs w = w'"
proof (induction w es arbitrary: cs rule: replay_edits.induct)
  case (2 w e es)
  show ?case
  proof (cases "leStart e = leEnd e \<and> leText e = []")
    case False
    define d where "d = NewDocument w"
    define r where "r = \<lparr>rgStart = dc_Position d (leStart e), rgEnd = dc_Position d (leEnd e)\<rparr>"
    have in_doc: "0 \<le> leStart e" "leStart e \<le> leEnd e" "leEnd e \<le> int (length w)"
      using 2(3) False by (auto split: if_splits)
    have "dc_Span d r = (dc_Offset d (rgStart r), dc_Offset d (rgEnd r))"
      using position_mono[OF in_doc d_def] by (simp add: dc_Span_def r_def)
    moreover have "rd w (rgStart r) = dc_Offset d (rgStart r)" "rd w (rgEnd r) = dc_Offset d (rgEnd r)"
      using in_doc reads_floor[OF assms _ _ d_def] by (simp_all add: r_def)
    ultimately have span: "dc_Span d r = (rd w (rgStart r), rd w (rgEnd r))" by simp
    let ?w = "take (nat (rd w (rgStart r))) w @ leText e @ drop (nat (rd w (rgEnd r))) w"
    obtain cs1 where cs: "replay_edits ?w es = Some (cs1, w')" "cs = RangedChange r (leText e) # cs1"
      using 2(3) False in_doc span by (auto simp: Let_def r_def d_def split: option.splits)
    have "fold (apply_change rd) cs1 ?w = w'"
      using 2(2)[OF False _ d_def r_def[unfolded d_def, folded d_def] span[symmetric] refl cs(1)] in_doc by auto
    then show ?thesis by (simp add: cs(2))
  qed (use 2 in auto)
qed simp

lemma incremental_applies:
  "reads_positions rd \<Longrightarrow> incrementalChanges old edits new = Some cs \<Longrightarrow> fold (apply_change rd) cs old = new"
  by (auto simp: incrementalChanges_def replay_applies split: option.splits if_splits)


section \<open>Sync never drifts\<close>

definition agree :: "Sync \<Rightarrow> (byte list, byte list) map \<Rightarrow> bool" where
  "agree s srv \<longleftrightarrow> (\<forall>uri. srv uri = map_option trText (syOpen s uri))"

lemma Change_agree:
  assumes "reads_positions rd" "agree s srv" "sync_Change s path t v edits = (out, s')"
  shows "agree s' (deliver rd out srv)"
    "syConn s \<Longrightarrow> syKind s \<noteq> SyncNone \<Longrightarrow> sync_IsOpen s path \<Longrightarrow> deliver rd out srv (URI path) = Some t"
proof -
  let ?u = "URI path"
  have a: "srv u = map_option trText (syOpen s u)" for u using assms(2) by (simp add: agree_def)
  have "agree s' (deliver rd out srv) \<and>
    (syConn s \<and> syKind s \<noteq> SyncNone \<and> sync_IsOpen s path \<longrightarrow> deliver rd out srv ?u = Some t)"
  proof (cases "syConn s \<and> syKind s \<noteq> SyncNone")
    case True
    show ?thesis
    proof (cases "syOpen s ?u")
      case None
      then show ?thesis using assms(2,3) True by (simp add: sync_Change_def sync_IsOpen_def)
    next
      case (Some pin)
      show ?thesis
      proof (cases "v = trVersion pin \<and> t = trText pin")
        case True
        then show ?thesis using assms(2,3) Some a[of ?u] \<open>syConn s \<and> _\<close> by (simp add: sync_Change_def)
      next
        case False
        have s': "s' = s\<lparr>syOpen := (syOpen s)(?u \<mapsto> \<lparr>trVersion = v, trText = t\<rparr>)\<rparr>"
          using assms(3) True Some False by (auto simp: sync_Change_def Let_def split: if_splits option.splits list.splits)
        have "deliver rd out srv = srv(?u \<mapsto> t)"
        proof (cases "out = Notify (DidChange ?u v [FullChange t])")
          case True
          then show ?thesis using a[of ?u] Some by simp
        next
          case other: False
          have k: "syKind s = SyncIncremental" "trVersion pin < v"
            using assms(3) True Some False other by (auto simp: sync_Change_def Let_def split: if_splits)
          obtain cs where cs: "incrementalChanges (trText pin) edits t = Some cs"
            "out = (case cs of [] \<Rightarrow> Silent | _ \<Rightarrow> Notify (DidChange ?u v cs))"
            using assms(3) True Some False other k by (auto simp: sync_Change_def Let_def split: option.splits list.splits)
          have "fold (apply_change rd) cs (trText pin) = t" using incremental_applies[OF assms(1) cs(1)] .
          then show ?thesis using cs(2) a[of ?u] Some by (cases cs) (auto simp: fun_upd_idem)
        qed
        then show ?thesis using a by (simp add: agree_def s')
      qed
    qed
  qed (use assms(2,3) in \<open>auto simp: sync_Change_def split: if_splits\<close>)
  then show "agree s' (deliver rd out srv)"
    "syConn s \<Longrightarrow> syKind s \<noteq> SyncNone \<Longrightarrow> sync_IsOpen s path \<Longrightarrow> deliver rd out srv ?u = Some t" by blast+
qed

lemma Change_kind: "sync_Change s path t v edits = (out, s') \<Longrightarrow> syConn s' = syConn s \<and> syKind s' = syKind s"
  by (auto simp: sync_Change_def Let_def split: if_splits option.splits list.splits)

lemma run_agree:
  assumes "reads_positions rd"
  shows "sync_run rd conn k s srv \<Longrightarrow> agree s srv \<and> syConn s = conn \<and> syKind s = k"
proof (induction rule: sync_run.induct)
  case start
  then show ?case by (simp add: NewSync_def agree_def)
next
  case (opens s srv path lang t v out s')
  then show ?case by (auto simp: sync_Open_def Let_def agree_def split: if_splits option.splits)
next
  case (change s srv path t v edits out s')
  then show ?case using Change_agree(1)[OF assms _ change(2)] Change_kind[OF change(2)] by simp
next
  case (save s srv path t out s')
  then show ?case by (auto simp: sync_Save_def Let_def split: if_splits option.splits)
next
  case (changed s srv paths out s')
  then show ?case by (auto simp: sync_Changed_def split: if_splits)
next
  case (closes s srv path out s')
  then show ?case by (auto simp: sync_Close_def Let_def agree_def split: if_splits option.splits)
qed

text \<open>C19: after any calls the server holds exactly the documents the tracker has open, each with the text it was
  last told, and once a change of an open document has been passed on the server holds the buffer's text, ranges or
  not, whatever edits were claimed.\<close>

theorem sync_never_drifts:
  assumes "reads_positions rd" "sync_run rd conn k s srv"
  shows "srv (URI path) = (if sync_IsOpen s path then Some (fst (snd (sync_Pinned s path))) else None) \<and>
    (conn \<and> k \<noteq> SyncNone \<and> sync_IsOpen s path \<longrightarrow>
      (let (out, s') = sync_Change s path t v edits
       in deliver rd out srv (URI path) = Some t \<and> sync_Version s' path = (v, True)))"
proof -
  note R = run_agree[OF assms]
  obtain out s' where c: "sync_Change s path t v edits = (out, s')" by fastforce
  have "sync_Version s' path = (v, True)" if "conn" "k \<noteq> SyncNone" "sync_IsOpen s path"
    using c that R
    by (auto simp: sync_Change_def sync_IsOpen_def sync_Version_def Let_def split: if_splits option.splits list.splits)
  moreover have "deliver rd out srv (URI path) = Some t" if "conn" "k \<noteq> SyncNone" "sync_IsOpen s path"
    using Change_agree(2)[OF assms(1) _ c] that R by blast
  moreover have "srv (URI path) = (if sync_IsOpen s path then Some (fst (snd (sync_Pinned s path))) else None)"
    using R by (auto simp: agree_def sync_IsOpen_def sync_Pinned_def split: option.splits)
  ultimately show ?thesis by (simp add: c)
qed

definition offset_reader :: "byte list \<Rightarrow> Position \<Rightarrow> int" where
  "offset_reader t p = dc_Offset (NewDocument t) p"

lemma offset_reader_reads: "reads_positions offset_reader"
  unfolding reads_positions_def
proof (intro allI impI)
  fix t off
  assume a: "starts_char t off"
  then have b: "0 \<le> off" "off \<le> int (length t)" by (simp_all add: starts_char_def)
  have "psLine (dc_Position (NewDocument t) off) = dc_lineOf (NewDocument t) off"
    using position_floor(1)[OF b refl refl refl refl] by simp
  then show "offset_reader t (dc_Position (NewDocument t) off) = off"
    using position_roundtrip_law(5)[OF b refl refl refl] a by (simp add: starts_char_def Let_def offset_reader_def)
qed

lemma demo_run:
  "sync_run offset_reader True SyncIncremental
     \<lparr>syConn = True, syKind = SyncIncremental, syOpen = [URI [0x61] \<mapsto> \<lparr>trVersion = 1, trText = [0x68, 0x69]\<rparr>]\<rparr> [URI [0x61] \<mapsto> [0x68, 0x69]]"
proof -
  have o: "sync_Open (NewSync True SyncIncremental) [0x61] [] [0x68, 0x69] 1 = (Notify (DidOpen (URI [0x61]) [] 1 [0x68, 0x69]),
    \<lparr>syConn = True, syKind = SyncIncremental, syOpen = [URI [0x61] \<mapsto> \<lparr>trVersion = 1, trText = [0x68, 0x69]\<rparr>]\<rparr>)"
    by (simp add: sync_Open_def NewSync_def Let_def)
  from sync_run.opens[OF sync_run.start o, of offset_reader] show ?thesis by simp
qed

theorem sync_never_drifts_witness:
  "case sync_Change \<lparr>syConn = True, syKind = SyncIncremental, syOpen = [URI [0x61] \<mapsto> \<lparr>trVersion = 1, trText = [0x68, 0x69]\<rparr>]\<rparr>
      [0x61] [0x68, 0x6F] 2 (Some [\<lparr>leStart = 1, leEnd = 2, leText = [0x6F]\<rparr>]) of
     (out, s') \<Rightarrow> deliver offset_reader out [URI [0x61] \<mapsto> [0x68, 0x69]] (URI [0x61]) = Some [0x68, 0x6F]"
  using sync_never_drifts[OF offset_reader_reads demo_run, of "[0x61]" "[0x68, 0x6F]" 2 "Some [\<lparr>leStart = 1, leEnd = 2, leText = [0x6F]\<rparr>]"]
  by (auto simp: sync_IsOpen_def split: prod.splits)

text \<open>A file URI leads back to its path, so documents of different paths are tracked apart.\<close>

theorem uri_roundtrip: "Path (URI p) = p \<and> (URI p = URI q \<longleftrightarrow> p = q)"
  using Path_URI by metis

end
