(* ===== verification/KeyDecode.thy ===== *)
theory KeyDecode
  imports Utf8
begin

text \<open>
  Decoding the bytes a terminal sends into key, mouse, paste and focus events (\<open>internal/keys/decode.go\<close>,
  \<open>mouse.go\<close>) and the reader that feeds it (\<open>decodeStream\<close> and \<open>dispatch\<close> of \<open>internal/ui/native.go\<close>).
  A decoder returns the event and the bytes it used; none used means more bytes are needed.
\<close>

unbundle bit_operations_syntax

section \<open>Events\<close>

datatype EventKind = KeyEvent | FocusIn | FocusOut | KKPFlags | OSCReply | OtherReply | Partial | PasteEvent | MouseEvent

definition ModShift :: int where "ModShift = 1"
definition ModAlt :: int where "ModAlt = 2"
definition ModCtrl :: int where "ModCtrl = 4"
definition ModSuper :: int where "ModSuper = 8"
definition modMask :: int where "modMask = ModShift OR ModAlt OR ModCtrl OR ModSuper OR 16 OR 32"

definition Press :: int where "Press = 1"
definition Repeat :: int where "Repeat = 2"
definition Release :: int where "Release = 3"

text \<open>Buttons: left, middle, right, none, then the four wheel directions.\<close>

definition MouseLeft :: int where "MouseLeft = 0"
definition WheelUp :: int where "WheelUp = 4"

record Mouse =
  moButton :: int
  moCol :: int
  moRow :: int
  moMods :: int
  moPress :: bool
  moMotion :: bool
  moIsWheel :: bool

record Event =
  evKind :: EventKind
  evRaw :: "byte list"
  evCode :: int
  evShifted :: int
  evBase :: int
  evMods :: int
  evType :: int
  evText :: "byte list"
  evFinal :: byte
  evParams :: "byte list list"
  evMouse :: Mouse

definition no_mouse :: Mouse where
  "no_mouse = \<lparr>moButton = 0, moCol = 0, moRow = 0, moMods = 0, moPress = False, moMotion = False, moIsWheel = False\<rparr>"

definition no_event :: Event where
  "no_event = \<lparr>evKind = KeyEvent, evRaw = [], evCode = 0, evShifted = 0, evBase = 0, evMods = 0, evType = 0, evText = [],
     evFinal = 0, evParams = [], evMouse = no_mouse\<rparr>"

definition partial :: "Event \<times> nat" where
  "partial = (no_event\<lparr>evKind := Partial\<rparr>, 0)"

section \<open>Fields\<close>

definition param_at :: "byte list list \<Rightarrow> nat \<Rightarrow> byte list" where
  "param_at params i = (if i < length params then params ! i else [])"

definition num :: "byte list \<Rightarrow> nat \<Rightarrow> int" where
  "num field i =
     (let parts = split_on 0x3A field in
      if length parts \<le> i then 0 else case Atoi (parts ! i) of None \<Rightarrow> 0 | Some v \<Rightarrow> v)"

text \<open>\<open>rune(v)\<close> keeps 32 bits, and \<open>string\<close> of what is no scalar value is U+FFFD.\<close>

definition rune_of_int :: "int \<Rightarrow> nat" where
  "rune_of_int v = (let r = signed_take_bit 31 v in if r < 0 then RuneError else nat r)"

section \<open>Mouse reports\<close>

definition atoiStrict :: "byte list \<Rightarrow> int option" where
  "atoiStrict s = (if s = [] \<or> 9 < length s \<or> \<not> list_all is_digit s then None else Some (digits_value s))"

definition max0 :: "int \<Rightarrow> int" where
  "max0 n = (if n < 0 then 0 else n)"

definition mouseMods :: "int \<Rightarrow> int" where
  "mouseMods cb =
     (if cb AND 4 \<noteq> 0 then ModShift else 0) OR (if cb AND 8 \<noteq> 0 then ModAlt else 0) OR (if cb AND 16 \<noteq> 0 then ModCtrl else 0)"

definition TrimPrefix :: "'a list \<Rightarrow> 'a list \<Rightarrow> 'a list" where
  "TrimPrefix s p = (if HasPrefix s p then drop (length p) s else s)"

definition parseMouse :: "Event \<Rightarrow> Event option" where
  "parseMouse e =
     (if length (evParams e) \<noteq> 3 then None
      else case (atoiStrict (TrimPrefix (evParams e ! 0) [0x3C]), atoiStrict (evParams e ! 1), atoiStrict (evParams e ! 2)) of
        (Some cb, Some cx, Some cy) \<Rightarrow>
          let m = no_mouse\<lparr>moCol := max0 (cx - 1), moRow := max0 (cy - 1), moPress := (evFinal e = 0x4D),
                moMotion := (cb AND 32 \<noteq> 0), moMods := mouseMods cb\<rparr>
          in if cb AND 128 \<noteq> 0 then None
             else if cb AND 64 \<noteq> 0 then
               Some (e\<lparr>evKind := MouseEvent, evMouse := m\<lparr>moIsWheel := True, moButton := WheelUp + (cb AND 3), moPress := True\<rparr>\<rparr>)
             else Some (e\<lparr>evKind := MouseEvent, evMouse := m\<lparr>moButton := MouseLeft + (cb AND 3)\<rparr>\<rparr>)
      | _ \<Rightarrow> None)"

section \<open>Control sequences\<close>

definition csi_param :: "byte \<Rightarrow> bool" where "csi_param b \<longleftrightarrow> 0x30 \<le> b \<and> b \<le> 0x3F"
definition csi_inter :: "byte \<Rightarrow> bool" where "csi_inter b \<longleftrightarrow> 0x20 \<le> b \<and> b \<le> 0x2F"

text \<open>Where the final byte is: behind the parameter bytes and the intermediate ones.\<close>

definition csi_final :: "byte list \<Rightarrow> nat" where
  "csi_final b =
     (let i = 2 + length (takeWhile csi_param (drop 2 b)) in i + length (takeWhile csi_inter (drop i b)))"

text \<open>The key a sequence reports: code, modifiers, event type and text.\<close>

definition key_fields :: "Event \<Rightarrow> Event" where
  "key_fields e =
     (let key = param_at (evParams e) 0; md = param_at (evParams e) 1; m = num md 0; t = num md 1;
          texts = split_on 0x3A (param_at (evParams e) 2)
      in e\<lparr>evKind := KeyEvent,
           evCode := (if evFinal e \<noteq> 0x75 \<and> evFinal e \<noteq> 0x7E then 0 else num key 0),
           evShifted := num key 1, evBase := num key 2,
           evMods := (if 0 < m then (m - 1) AND modMask else 0),
           evType := (if 0 < t then t else Press),
           evText := concat (map (\<lambda>cp. case Atoi cp of Some v \<Rightarrow> if 0 < v then EncodeRune (rune_of_int v) else [] | None \<Rightarrow> []) texts)\<rparr>)"

definition csi_letters :: "byte list" where
  "csi_letters = [0x41, 0x42, 0x43, 0x44, 0x45, 0x46, 0x48, 0x50, 0x51, 0x53]"

definition csi_event :: "byte list \<Rightarrow> Event \<Rightarrow> Event" where
  "csi_event body e =
     (if (evFinal e = 0x4D \<or> evFinal e = 0x6D) \<and> HasPrefix body [0x3C] then
        (case parseMouse e of Some e1 \<Rightarrow> e1 | None \<Rightarrow> e\<lparr>evKind := OtherReply\<rparr>)
      else if evFinal e = 0x49 then e\<lparr>evKind := FocusIn\<rparr>
      else if evFinal e = 0x4F then e\<lparr>evKind := FocusOut\<rparr>
      else if evFinal e = 0x75 \<and> HasPrefix body [0x3F] then e\<lparr>evKind := KKPFlags\<rparr>
      else if evFinal e = 0x75 \<or> evFinal e = 0x7E \<or> evFinal e \<in> set csi_letters then key_fields e
      else e\<lparr>evKind := OtherReply\<rparr>)"

definition parseCSI :: "byte list \<Rightarrow> Event \<times> nat" where
  "parseCSI b =
     (let i = csi_final b in
      if length b \<le> i \<or> b ! i < 0x40 \<or> 0x7E < b ! i then partial
      else let body = drop 2 (take i b);
               e = no_event\<lparr>evRaw := take (i + 1) b, evFinal := b ! i, evParams := (if body = [] then [] else split_on 0x3B body)\<rparr>
           in (csi_event body e, i + 1))"

section \<open>Pastes\<close>

definition pasteStart :: "byte list" where "pasteStart = [0x1B, 0x5B, 0x32, 0x30, 0x30, 0x7E]"
definition pasteEnd :: "byte list" where "pasteEnd = [0x1B, 0x5B, 0x32, 0x30, 0x31, 0x7E]"

definition MaxPaste :: nat where "MaxPaste = 16777216"

definition PastePending :: "byte list \<Rightarrow> bool" where
  "PastePending b \<longleftrightarrow> length b \<le> MaxPaste \<and> HasPrefix b pasteStart \<and> Index b pasteEnd = None"

definition normalizeNewlines :: "byte list \<Rightarrow> byte list" where
  "normalizeNewlines s = (if 13 \<notin> set s then s else replace_all [13] [10] (replace_all [13, 10] [10] s))"

definition parsePaste :: "byte list \<Rightarrow> Event \<times> nat" where
  "parsePaste b =
     (case Index b pasteEnd of
        None \<Rightarrow>
          if MaxPaste < length b then (no_event\<lparr>evKind := OtherReply, evRaw := take (length pasteStart) b\<rparr>, length pasteStart)
          else partial
      | Some i \<Rightarrow>
          let n = i + length pasteEnd
          in (no_event\<lparr>evKind := PasteEvent, evRaw := take n b, evText := normalizeNewlines (drop (length pasteStart) (take i b))\<rparr>, n))"

section \<open>Replies and keys\<close>

function terminated_loop :: "byte list \<Rightarrow> EventKind \<Rightarrow> nat \<Rightarrow> Event \<times> nat" where
  "terminated_loop b k i =
     (if i < length b then
        if b ! i = 7 then (no_event\<lparr>evKind := k, evRaw := take (i + 1) b\<rparr>, i + 1)
        else if b ! i = 0x1B \<and> i + 1 < length b \<and> b ! (i + 1) = 0x5C then (no_event\<lparr>evKind := k, evRaw := take (i + 2) b\<rparr>, i + 2)
        else terminated_loop b k (i + 1)
      else partial)"
  by pat_completeness auto
termination by (relation "measure (\<lambda>(b, k, i). length b - i)") auto

declare terminated_loop.simps [simp del]

definition parseTerminated :: "byte list \<Rightarrow> EventKind \<Rightarrow> Event \<times> nat" where
  "parseTerminated b k = terminated_loop b k 2"

definition legacyControl :: "byte \<Rightarrow> Event option" where
  "legacyControl b =
     (let e = no_event\<lparr>evType := Press, evRaw := [b]\<rparr> in
      if b = 9 \<or> b = 13 \<or> b = 27 \<or> b = 32 then None
      else if b = 8 \<or> b = 127 then Some (e\<lparr>evCode := 127\<rparr>)
      else if b = 0 then Some (e\<lparr>evCode := 32, evMods := ModCtrl\<rparr>)
      else if 1 \<le> b \<and> b \<le> 26 then Some (e\<lparr>evCode := int (unat (0x61 + b - 1)), evMods := ModCtrl\<rparr>)
      else if 28 \<le> b \<and> b \<le> 31 then Some (e\<lparr>evCode := int ([0x5C, 0x5D, 0x5E, 0x5F] ! (unat b - 28)), evMods := ModCtrl\<rparr>)
      else None)"

definition Parse :: "byte list \<Rightarrow> Event \<times> nat" where
  "Parse b =
     (if b = [] then partial
      else if b ! 0 \<noteq> 0x1B then
        (case legacyControl (b ! 0) of
           Some e \<Rightarrow> (e, 1)
         | None \<Rightarrow>
             let (r, n) = DecodeRune b in
             if r = RuneError \<and> n = 1 \<and> length b < 4 then partial
             else (no_event\<lparr>evRaw := take n b, evCode := int r, evType := Press\<rparr>, n))
      else if length b = 1 then partial
      else if b ! 1 = 0x5B then (if HasPrefix b pasteStart then parsePaste b else parseCSI b)
      else if b ! 1 = 0x5D then parseTerminated b OSCReply
      else if b ! 1 = 0x50 \<or> b ! 1 = 0x58 \<or> b ! 1 = 0x5E \<or> b ! 1 = 0x5F then parseTerminated b OtherReply
      else let (r, n) = DecodeRune (drop 1 b) in
           if r = RuneError \<and> n = 1 \<and> length b < 5 then partial
           else (no_event\<lparr>evRaw := take (1 + n) b, evCode := int r, evMods := ModAlt, evType := Press\<rparr>, 1 + n))"

definition ParseFinal :: "byte list \<Rightarrow> Event \<times> nat" where
  "ParseFinal b =
     (if length b = 1 \<and> b ! 0 = 0x1B then (no_event\<lparr>evRaw := take 1 b, evCode := 27, evType := Press\<rparr>, 1) else Parse b)"

end
