(* ===== verification/KeyLaw.thy ===== *)
theory KeyLaw
  imports KeyDecode
begin

text \<open>
  Laws of the decoder: what it uses it has, only a partial event uses nothing, and an event once decoded does not
  change when more bytes arrive.
\<close>

section \<open>What is used\<close>

definition used :: "byte list \<Rightarrow> Event \<times> nat \<Rightarrow> bool" where
  "used b q \<longleftrightarrow> snd q \<le> length b \<and> (snd q = 0 \<longleftrightarrow> evKind (fst q) = Partial) \<and> (0 < snd q \<longrightarrow> evRaw (fst q) = take (snd q) b)"

lemma used_partial [simp]: "used b partial"
  by (simp add: used_def partial_def)

lemma parseMouse_raw: "parseMouse e = Some e1 \<Longrightarrow> evRaw e1 = evRaw e \<and> evKind e1 = MouseEvent"
  by (auto simp: parseMouse_def Let_def split: if_splits option.splits)

lemma csi_event_raw: "evRaw (csi_event body e) = evRaw e \<and> evKind (csi_event body e) \<noteq> Partial"
  using parseMouse_raw[of e] by (auto simp: csi_event_def key_fields_def Let_def split: option.splits)

lemma parseCSI_used: "used b (parseCSI b)"
  by (simp add: parseCSI_def Let_def used_def csi_event_raw partial_def)

lemma terminated_used: "used b (terminated_loop b k i) \<or> k = Partial"
proof (induction b k i rule: terminated_loop.induct)
  case (1 b k i)
  then show ?case by (subst terminated_loop.simps) (auto simp: used_def partial_def)
qed

lemma parsePaste_used: "HasPrefix b pasteStart \<Longrightarrow> used b (parsePaste b)"
  using HasPrefix_split[of b pasteStart, THEN arg_cong[of _ _ length]] Index_Some[of b pasteEnd]
  by (auto simp: parsePaste_def used_def Let_def pasteStart_def pasteEnd_def partial_def split: option.splits)

lemma legacyControl_event: "legacyControl c = Some e \<Longrightarrow> evRaw e = [c] \<and> evKind e = KeyEvent"
  by (auto simp: legacyControl_def Let_def no_event_def split: if_splits)

lemma used_if: "(c \<Longrightarrow> used b x) \<Longrightarrow> (\<not> c \<Longrightarrow> used b y) \<Longrightarrow> used b (if c then x else y)"
  by simp

text \<open>The decoder by the first bytes.\<close>

lemma Parse_plain: "c \<noteq> 0x1B \<Longrightarrow> Parse (c # bs) =
  (case legacyControl c of
     Some e \<Rightarrow> (e, 1)
   | None \<Rightarrow> let q = DecodeRune (c # bs) in
       if fst q = RuneError \<and> snd q = 1 \<and> length (c # bs) < 4 then partial
       else (no_event\<lparr>evRaw := take (snd q) (c # bs), evCode := int (fst q), evType := Press\<rparr>, snd q))"
  by (cases "DecodeRune (c # bs)") (simp add: Parse_def Let_def del: DecodeRune.simps split: option.split)

lemma Parse_escape: "Parse (0x1B # d # ds) =
  (let b = 0x1B # d # ds in
   if d = 0x5B then (if HasPrefix b pasteStart then parsePaste b else parseCSI b)
   else if d = 0x5D then parseTerminated b OSCReply
   else if d = 0x50 \<or> d = 0x58 \<or> d = 0x5E \<or> d = 0x5F then parseTerminated b OtherReply
   else let q = DecodeRune (d # ds) in
     if fst q = RuneError \<and> snd q = 1 \<and> length b < 5 then partial
     else (no_event\<lparr>evRaw := take (1 + snd q) b, evCode := int (fst q), evMods := ModAlt, evType := Press\<rparr>, 1 + snd q))"
  by (cases "DecodeRune (d # ds)") (simp add: Parse_def Let_def del: DecodeRune.simps)

lemma Parse_paste:
  assumes "HasPrefix b pasteStart"
  shows "Parse b = parsePaste b"
proof -
  obtain ds where b: "b = 0x1B # 0x5B # ds" using HasPrefix_split[OF assms] by (simp add: pasteStart_def)
  show ?thesis using assms unfolding b Parse_escape Let_def by simp
qed

lemma Parse_alt:
  assumes "bs \<noteq> []" "hd bs \<noteq> 0x5B" "\<not> (hd bs = 0x5D \<or> hd bs = 0x50 \<or> hd bs = 0x58 \<or> hd bs = 0x5E \<or> hd bs = 0x5F)"
  shows "Parse (0x1B # bs) =
    (if fst (DecodeRune bs) = RuneError \<and> snd (DecodeRune bs) = 1 \<and> length bs < 4 then partial
     else (no_event\<lparr>evRaw := take (1 + snd (DecodeRune bs)) (0x1B # bs), evCode := int (fst (DecodeRune bs)), evMods := ModAlt,
       evType := Press\<rparr>, 1 + snd (DecodeRune bs)))"
proof -
  obtain d ds where b: "bs = d # ds" using assms(1) by (cases bs) auto
  have l: "(length (0x1B # d # ds) < 5) = (length (d # ds) < 4)" by simp
  show ?thesis using assms(2,3) unfolding b Parse_escape Let_def l by (simp del: DecodeRune.simps)
qed

lemma Parse_short: "Parse [] = partial" "Parse [0x1B] = partial"
  by (simp_all add: Parse_def)

lemma DecodeRune_used: "b \<noteq> [] \<Longrightarrow> snd (DecodeRune b) \<le> length b \<and> 0 < snd (DecodeRune b)"
  using DecodeRune_size[of b] by (metis prod.collapse)

lemma take_used: "b \<noteq> [] \<Longrightarrow> take (snd (DecodeRune b)) (b @ x) = take (snd (DecodeRune b)) b"
  using DecodeRune_used[of b] by simp

lemma Parse_used: "used b (Parse b)"
proof (cases b)
  case (Cons c bs)
  show ?thesis
  proof (cases "c = 0x1B")
    case True
    show ?thesis
    proof (cases bs)
      case Nil
      then show ?thesis using Cons True by (simp add: Parse_short)
    next
      case d: (Cons d ds)
      have r: "used b (no_event\<lparr>evRaw := take (1 + snd (DecodeRune bs)) b, evCode := x, evMods := m, evType := y\<rparr>, 1 + snd (DecodeRune bs))" for x m y
        using DecodeRune_used[of bs] d Cons by (simp add: used_def no_event_def del: DecodeRune.simps)
      show ?thesis unfolding Cons d True Parse_escape Let_def
        by (intro used_if used_partial parseCSI_used parsePaste_used r[unfolded Cons d True])
          (use terminated_used in \<open>auto simp: parseTerminated_def\<close>)
    qed
  next
    case False
    have r: "used b (no_event\<lparr>evRaw := take (snd (DecodeRune b)) b, evCode := x, evType := y\<rparr>, snd (DecodeRune b))" for x y
      using DecodeRune_used[of b] Cons by (simp add: used_def no_event_def del: DecodeRune.simps)
    show ?thesis unfolding Cons Parse_plain[OF False] Let_def
      using r[unfolded Cons] legacyControl_event[of c]
      by (simp del: DecodeRune.simps split: option.split) (simp add: used_def)
  qed
qed (simp add: Parse_short)

section \<open>More bytes change nothing\<close>

lemma DecodeRune_extend:
  "DecodeRune b = (r, n) \<Longrightarrow> b \<noteq> [] \<Longrightarrow> \<not> (r = RuneError \<and> n = 1) \<or> 4 \<le> length b \<Longrightarrow> DecodeRune (b @ x) = (r, n)"
proof (cases b)
  case (Cons c bs)
  assume a: "DecodeRune b = (r, n)" "\<not> (r = RuneError \<and> n = 1) \<or> 4 \<le> length b"
  show ?thesis
  proof (cases "4 \<le> length b")
    case True
    then obtain c1 c2 c3 ds where "bs = c1 # c2 # c3 # ds" using Cons by (auto simp: Suc_le_length_iff numeral_eq_Suc)
    then have "DecodeRune (b @ x) = DecodeRune b" using Cons by (simp add: Let_def)
    then show ?thesis using a(1) by simp
  next
    case False
    then have "\<not> (r = RuneError \<and> n = 1)" using a(2) by simp
    then show ?thesis using a(1) Cons by (auto simp: Let_def split: if_splits list.splits)
  qed
qed simp

lemma takeWhile_stop: "length (takeWhile P xs) < length xs \<Longrightarrow> takeWhile P (xs @ ys) = takeWhile P xs"
  by (induction xs) auto

lemma csi_final_extend: "csi_final b < length b \<Longrightarrow> csi_final (b @ x) = csi_final b"
proof -
  assume a: "csi_final b < length b"
  define i where "i = 2 + length (takeWhile csi_param (drop 2 b))"
  have i: "i \<le> csi_final b" "csi_final b = i + length (takeWhile csi_inter (drop i b))" by (simp_all add: csi_final_def Let_def i_def)
  then have "i < length b" using a by simp
  then have "length (takeWhile csi_param (drop 2 b)) < length (drop 2 b)" by (simp add: i_def)
  from takeWhile_stop[OF this] have pre: "takeWhile csi_param (drop 2 (b @ x)) = takeWhile csi_param (drop 2 b)"
    using \<open>i < length b\<close> by (simp add: i_def)
  have "length (takeWhile csi_inter (drop i b)) < length (drop i b)" using a i \<open>i < length b\<close> by simp
  from takeWhile_stop[OF this] have "takeWhile csi_inter (drop i (b @ x)) = takeWhile csi_inter (drop i b)"
    using \<open>i < length b\<close> by simp
  then show ?thesis unfolding csi_final_def Let_def pre unfolding i_def[symmetric] by simp
qed

lemma parseCSI_extend: "parseCSI b = (e, n) \<Longrightarrow> 0 < n \<Longrightarrow> parseCSI (b @ x) = (e, n)"
  using csi_final_extend[of b x]
  by (auto simp: parseCSI_def Let_def partial_def nth_append split: if_splits)

lemma terminated_extend: "terminated_loop b k i = (e, n) \<Longrightarrow> 0 < n \<Longrightarrow> terminated_loop (b @ x) k i = (e, n)"
proof (induction b k i rule: terminated_loop.induct)
  case (1 b k i)
  have p: "terminated_loop b k i = partial" if "\<not> i < length b" for i using that by (simp add: terminated_loop.simps)
  show ?case
  proof (cases "i + 1 < length b")
    case True
    then show ?thesis using "1.prems" "1.IH" terminated_loop.simps[of b k i]
      by (subst terminated_loop.simps) (auto simp: nth_append split: if_splits)
  next
    case False
    have i: "i < length b" using "1.prems" p[of i] by (auto simp: partial_def)
    then show ?thesis using "1.prems" False p[of "i + 1"] terminated_loop.simps[of b k i]
      by (subst terminated_loop.simps) (auto simp: nth_append partial_def split: if_splits)
  qed
qed

lemma parsePaste_extend:
  "parsePaste b = (e, n) \<Longrightarrow> 0 < n \<Longrightarrow> length b \<le> MaxPaste \<Longrightarrow> parsePaste (b @ x) = (e, n)"
  using Index_Some[of b pasteEnd]
  by (auto simp: parsePaste_def partial_def Let_def Index_extend split: option.splits if_splits)


lemma decoded_extend:
  assumes "b \<noteq> []" "\<not> (fst (DecodeRune b) = RuneError \<and> snd (DecodeRune b) = 1 \<and> length b < 4)"
  shows "DecodeRune (b @ x) = DecodeRune b"
  using DecodeRune_extend[of b "fst (DecodeRune b)" "snd (DecodeRune b)" x] assms by auto

lemma partial_zero [simp]: "partial = (e, n) \<Longrightarrow> 0 < n \<Longrightarrow> False"
  by (simp add: partial_def)

text \<open>A paste marker cut short is no control sequence yet.\<close>

lemma pasteStart_csi:
  assumes "HasPrefix (b @ x) pasteStart" "\<not> HasPrefix b pasteStart" "2 \<le> length b"
  shows "parseCSI b = partial"
proof -
  have l: "length b < 6"
  proof (rule ccontr)
    assume "\<not> ?thesis"
    then have "length pasteStart \<le> length b" by (simp add: pasteStart_def)
    then show False using assms(1,2) HasPrefix_long[of pasteStart b x] by simp
  qed
  have f: "take (length b) (take (length pasteStart) (b @ x)) = b" using l by (simp add: pasteStart_def min_def)
  have b: "b = take (length b) pasteStart" by (rule f[unfolded assms(1)[unfolded HasPrefix_def], symmetric])
  have "length b = 2 \<or> length b = 3 \<or> length b = 4 \<or> length b = 5" using l assms(3) by linarith
  then show ?thesis
    by (elim disjE; subst b; simp add: pasteStart_def parseCSI_def csi_final_def csi_param_def csi_inter_def Let_def)
qed

text \<open>An event decoded from the bytes at hand is the event however the stream goes on. Only a paste longer than the
  limit is given up early.\<close>

lemma Parse_extend:
  assumes "Parse b = (e, n)" "0 < n" "length b \<le> MaxPaste"
  shows "Parse (b @ x) = (e, n)"
proof (cases b)
  case Nil
  then show ?thesis using assms by (simp add: Parse_short partial_def)
next
  case (Cons c bs)
  show ?thesis
  proof (cases "c = 0x1B")
    case False
    show ?thesis
    proof (cases "legacyControl c")
      case None
      have d: "\<not> (fst (DecodeRune b) = RuneError \<and> snd (DecodeRune b) = 1 \<and> length b < 4)"
        using assms(1,2) Cons Parse_plain[OF False, of bs] None by (auto simp: Let_def partial_def simp del: DecodeRune.simps)
      have "DecodeRune (b @ x) = DecodeRune b" using decoded_extend[OF _ d] Cons by (simp del: DecodeRune.simps)
      moreover have "take (snd (DecodeRune b)) (b @ x) = take (snd (DecodeRune b)) b" by (rule take_used) (simp add: Cons)
      ultimately show ?thesis using assms(1) d Cons Parse_plain[OF False, of bs] Parse_plain[OF False, of "bs @ x"] None
        by (auto simp: Let_def simp del: DecodeRune.simps)
    next
      case (Some e1)
      then show ?thesis using assms(1) Cons Parse_plain[OF False] by simp
    qed
  next
    case True
    show ?thesis
    proof (cases bs)
      case Nil
      then show ?thesis using assms Cons True by (simp add: Parse_short partial_def)
    next
      case d: (Cons d ds)
      have b: "b = 0x1B # d # ds" by (simp add: Cons True d)
      have x: "b @ x = 0x1B # d # (ds @ x)" by (simp add: b)
      note P = assms(1)[unfolded b Parse_escape Let_def, folded b]
      consider "d = 0x5B" "HasPrefix b pasteStart" | "d = 0x5B" "\<not> HasPrefix b pasteStart"
        | "d = 0x5D \<or> d = 0x50 \<or> d = 0x58 \<or> d = 0x5E \<or> d = 0x5F"
        | "d \<noteq> 0x5B" "\<not> (d = 0x5D \<or> d = 0x50 \<or> d = 0x58 \<or> d = 0x5E \<or> d = 0x5F)" by blast
      then show ?thesis
      proof cases
        case 1
        then have "parsePaste (b @ x) = (e, n)" using P parsePaste_extend[OF _ assms(2,3)] by simp
        then show ?thesis using 1 HasPrefix_extend[OF 1(2), of x] by (simp add: x Parse_escape Let_def)
      next
        case 2
        then have c: "parseCSI b = (e, n)" using P by simp
        then have "\<not> HasPrefix (b @ x) pasteStart" using pasteStart_csi[OF _ 2(2)] assms(2) b by (auto simp: partial_def)
        then show ?thesis using 2 parseCSI_extend[OF c assms(2), of x] by (simp add: x Parse_escape Let_def)
      next
        case 3
        define k where "k = (if d = 0x5D then OSCReply else OtherReply)"
        have "Parse (0x1B # d # zs) = terminated_loop (0x1B # d # zs) k 2" for zs
          using 3 unfolding Parse_escape Let_def k_def parseTerminated_def by auto
        then have "terminated_loop b k 2 = (e, n)" "Parse (b @ x) = terminated_loop (b @ x) k 2"
          using assms(1) unfolding b x by (simp_all add: b)
        then show ?thesis using terminated_extend[OF _ assms(2)] by metis
      next
        case 4
        have s: "bs \<noteq> []" "hd bs \<noteq> 0x5B" "\<not> (hd bs = 0x5D \<or> hd bs = 0x50 \<or> hd bs = 0x58 \<or> hd bs = 0x5E \<or> hd bs = 0x5F)"
          "bs @ x \<noteq> []" "hd (bs @ x) = hd bs" using 4 d by simp_all
        have e: "(e, n) = Parse (0x1B # bs)" using assms(1) by (simp add: Cons True)
        have q: "\<not> (fst (DecodeRune bs) = RuneError \<and> snd (DecodeRune bs) = 1 \<and> length bs < 4)"
        proof
          assume "fst (DecodeRune bs) = RuneError \<and> snd (DecodeRune bs) = 1 \<and> length bs < 4"
          then have "partial = (e, n)" using e unfolding Parse_alt[OF s(1-3)] by simp
          then show False using partial_zero assms(2) by blast
        qed
        have t: "take (1 + k) (y # ys) = y # take k ys" for k and y :: byte and ys by simp
        note D = decoded_extend[OF s(1) q, of x] take_used[OF s(1), of x]
        have q1: "\<not> (fst (DecodeRune (bs @ x)) = RuneError \<and> snd (DecodeRune (bs @ x)) = 1 \<and> length (bs @ x) < 4)"
          using q unfolding D(1) by auto
        have "Parse (0x1B # bs @ x) = Parse (0x1B # bs)"
          unfolding Parse_alt[OF s(1-3)] Parse_alt[OF s(4) s(2,3)[folded s(5)]] if_not_P[OF q] if_not_P[OF q1]
          unfolding D(1) t D(2) ..
        then show ?thesis using e by (simp add: Cons True)
      qed
    qed
  qed
qed

end
