(* ===== verification/KeyReader.thy ===== *)
theory KeyReader
  imports KeyLaw
begin

text \<open>
  The reader that turns chunks of terminal bytes into events (\<open>decodeStream\<close> of \<open>internal/ui/native.go\<close>): bytes are
  gathered until they decode, and a silence settles what is left over. Channels and the clock are the sequence of
  inputs; what the reader hands on is the list of events.
\<close>

section \<open>The code\<close>

function drain :: "byte list \<Rightarrow> Event list \<times> byte list" where
  "drain buf =
     (if snd (Parse buf) = 0 then ([], buf)
      else case drain (drop (snd (Parse buf)) buf) of (es, r) \<Rightarrow> (fst (Parse buf) # es, r))"
  by pat_completeness auto
termination
proof (relation "measure length")
  fix buf :: "byte list"
  assume n: "snd (Parse buf) \<noteq> 0"
  then have "snd (Parse buf) \<le> length buf" using Parse_used[of buf] by (simp add: used_def)
  then show "(drop (snd (Parse buf)) buf, buf) \<in> measure length" using n by simp
qed simp

declare drain.simps [simp del]

datatype reader_input = Chunk "byte list" | Silence

fun read_step :: "byte list \<Rightarrow> reader_input \<Rightarrow> Event list \<times> byte list" where
  "read_step buf (Chunk b) = drain (buf @ b)"
| "read_step buf Silence =
     (if buf = [] then ([], [])
      else if PastePending buf then ([], buf)
      else let (e, n) = ParseFinal buf in
           if n = 0 then ([], [])
           else case drain (drop n buf) of (es, r) \<Rightarrow> (e # es, r))"

fun read_all :: "byte list \<Rightarrow> reader_input list \<Rightarrow> Event list \<times> byte list" where
  "read_all buf [] = ([], buf)"
| "read_all buf (i # is) = (case read_step buf i of (es, r) \<Rightarrow> case read_all r is of (es1, r1) \<Rightarrow> (es @ es1, r1))"

text \<open>What an event leads to in the host.\<close>

datatype host_event = Invalidate | FocusEvent bool | ThemeReply "byte list" | PasteText "byte list" | MouseReport Mouse | KeyPress Event

definition IsModifierKey :: "Event \<Rightarrow> bool" where
  "IsModifierKey e \<longleftrightarrow> 57441 \<le> evCode e \<and> evCode e \<le> 57450"

fun dispatch :: "Event \<Rightarrow> host_event list" where
  "dispatch e =
     (case evKind e of
        FocusIn \<Rightarrow> [Invalidate, FocusEvent True]
      | FocusOut \<Rightarrow> [FocusEvent False]
      | OSCReply \<Rightarrow> [ThemeReply (evRaw e)]
      | PasteEvent \<Rightarrow> [PasteText (evText e)]
      | MouseEvent \<Rightarrow> [MouseReport (evMouse e)]
      | KeyEvent \<Rightarrow> if evType e \<noteq> Release \<and> \<not> IsModifierKey e then [KeyPress e] else []
      | _ \<Rightarrow> [])"

section \<open>Laws\<close>

lemma drain_rest: "snd (Parse (snd (drain b))) = 0"
proof (induction b rule: drain.induct)
  case (1 b)
  then show ?case by (subst drain.simps) (auto split: prod.split)
qed

lemma drain_partial: "snd (Parse b) = 0 \<Longrightarrow> drain b = ([], b)"
  by (simp add: drain.simps)

lemma drain_step: "snd (Parse b) = n \<Longrightarrow> 0 < n \<Longrightarrow> drain b = (fst (Parse b) # fst (drain (drop n b)), snd (drain (drop n b)))"
  by (subst drain.simps) (simp add: case_prod_unfold)

lemma drain_bytes: "concat (map evRaw (fst (drain b))) @ snd (drain b) = b"
proof (induction b rule: drain.induct)
  case (1 b)
  show ?case
  proof (cases "snd (Parse b) = 0")
    case False
    have "evRaw (fst (Parse b)) = take (snd (Parse b)) b" using Parse_used[of b] False by (simp add: used_def)
    then show ?thesis using 1[OF False] False by (subst (1 2) drain.simps) (auto split: prod.split)
  qed (simp add: drain_partial)
qed

lemma drain_append:
  "length b \<le> MaxPaste \<Longrightarrow> drain (b @ x) = (fst (drain b) @ fst (drain (snd (drain b) @ x)), snd (drain (snd (drain b) @ x)))"
proof (induction b rule: drain.induct)
  case (1 b)
  show ?case
  proof (cases "snd (Parse b) = 0")
    case False
    define e n where en: "e = fst (Parse b)" "n = snd (Parse b)"
    have "Parse (b @ x) = Parse b" using Parse_extend[of b e n x] False "1.prems" by (simp add: en)
    moreover have "n \<le> length b" using Parse_used[of b] by (simp add: used_def en)
    moreover have "drain (drop n b @ x) = (fst (drain (drop n b)) @ fst (drain (snd (drain (drop n b)) @ x)), snd (drain (snd (drain (drop n b)) @ x)))"
      using "1.IH"[OF False] "1.prems" by (simp add: en)
    moreover have "drain b = (e # fst (drain (drop n b)), snd (drain (drop n b)))"
      using False by (subst drain.simps) (simp add: en split: prod.split)
    ultimately show ?thesis using False by (subst drain.simps) (simp add: en split: prod.split)
  qed (simp add: drain_partial)
qed

lemma drain_rest_long: "length (snd (drain b)) \<le> length b"
  using drain_bytes[of b] by (metis le_add2 length_append)

lemma read_chunks: "length (buf @ concat cs) \<le> MaxPaste \<Longrightarrow> snd (Parse buf) = 0 \<Longrightarrow> read_all buf (map Chunk cs) = drain (buf @ concat cs)"
proof (induction cs arbitrary: buf)
  case (Cons c cs)
  let ?r = "snd (drain (buf @ c))"
  have l: "length (buf @ c) \<le> MaxPaste" using Cons.prems(1) by simp
  have "length (?r @ concat cs) \<le> MaxPaste" using Cons.prems(1) drain_rest_long[of "buf @ c"] by simp
  from Cons.IH[OF this drain_rest] have "read_all ?r (map Chunk cs) = drain (?r @ concat cs)" .
  moreover have "drain (buf @ c @ concat cs) = (fst (drain (buf @ c)) @ fst (drain (?r @ concat cs)), snd (drain (?r @ concat cs)))"
    using drain_append[OF l, of "concat cs"] by simp
  ultimately show ?case by (simp add: case_prod_unfold)
qed (simp add: drain_partial)

end
