(* ===== verification/Keymap.thy ===== *)
theory Keymap
  imports KeyReader
begin

text \<open>
  From an event to an action (\<open>internal/keys/names.go\<close>, \<open>keymap.go\<close>, \<open>table.go\<close>, \<open>commands.go\<close>): the name of
  a chord, the tables of bindings, resolution by the scope with the focus, and the ctrl aliases of super chords. Names and
  actions are strings; the notes and triggers of a binding reach only generated configuration files and are left out
  of the tables.
\<close>

unbundle bit_operations_syntax

section \<open>Names\<close>

definition finalNames :: "(byte \<times> string) list" where
  "finalNames =
    [(0x41, ''up''), (0x42, ''down''), (0x43, ''right''), (0x44, ''left''),
     (0x48, ''home''), (0x46, ''end''), (0x45, ''kpbegin''),
     (0x50, ''f1''), (0x51, ''f2''), (0x53, ''f4'')]"

definition tildeNames :: "(int \<times> string) list" where
  "tildeNames =
    [(2, ''insert''), (3, ''delete''), (5, ''pgup''), (6, ''pgdown''),
     (15, ''f5''), (17, ''f6''), (18, ''f7''), (19, ''f8''), (20, ''f9''), (21, ''f10''), (23, ''f11''), (24, ''f12'')]"

definition codeNames :: "(int \<times> string) list" where
  "codeNames =
    [(9, ''tab''), (13, ''enter''), (27, ''esc''), (32, ''space''), (127, ''backspace''),
     (57344, ''esc''), (57345, ''enter''), (57346, ''tab''), (57347, ''backspace''),
     (57348, ''insert''), (57349, ''delete''), (57352, ''home''), (57353, ''end''),
     (57354, ''pgup''), (57355, ''pgdown''), (57358, ''capslock''),
     (57441, ''lshift''), (57442, ''lctrl''), (57443, ''lalt''), (57444, ''lsuper''),
     (57447, ''rshift''), (57448, ''rctrl''), (57449, ''ralt''), (57450, ''rsuper'')]"

definition modOrder :: "(int \<times> string) list" where
  "modOrder = [(ModShift, ''shift''), (ModCtrl, ''ctrl''), (ModAlt, ''alt''), (ModSuper, ''super''), (16, ''hyper''), (32, ''meta'')]"

text \<open>Bytes that are ASCII, as characters; \<open>%d\<close> of a number.\<close>

definition ascii :: "byte list \<Rightarrow> string" where
  "ascii bs = map (\<lambda>b. char_of (unat b)) bs"

definition show_int :: "int \<Rightarrow> string" where
  "show_int v = (if v < 0 then ''-'' @ ascii (decimal (nat (- v))) else ascii (decimal (nat v)))"

definition KeyName :: "Event \<Rightarrow> string" where
  "KeyName e =
     (if evFinal e \<noteq> 0 \<and> evFinal e \<noteq> 0x75 \<and> evFinal e \<noteq> 0x7E then
        (case map_of finalNames (evFinal e) of Some n \<Rightarrow> n | None \<Rightarrow> ''final('' @ ascii [evFinal e] @ '')'')
      else if evFinal e = 0x7E then
        (case map_of tildeNames (evCode e) of Some n \<Rightarrow> n | None \<Rightarrow> ''tilde('' @ show_int (evCode e) @ '')'')
      else case map_of codeNames (evCode e) of
        Some n \<Rightarrow> n
      | None \<Rightarrow>
          if 32 < evCode e \<and> evCode e < 127 then [char_of (nat (evCode e))]
          else if evCode e < 32 \<and> 0 < evCode e then ''ctrl-char('' @ show_int (evCode e) @ '')''
          else ''code('' @ show_int (evCode e) @ '')'')"

fun join_plus :: "string list \<Rightarrow> string" where
  "join_plus [] = []"
| "join_plus [p] = p"
| "join_plus (p # q # ps) = p @ ''+'' @ join_plus (q # ps)"

definition Chord :: "Event \<Rightarrow> string" where
  "Chord e = join_plus (map snd (filter (\<lambda>(b, n). evMods e AND b \<noteq> 0) modOrder) @ [KeyName e])"

definition Insertable :: "Event \<Rightarrow> byte list" where
  "Insertable e =
     (if evMods e AND NOT ModShift \<noteq> 0 then []
      else if evText e \<noteq> [] then evText e
      else if evFinal e \<noteq> 0 \<and> evFinal e \<noteq> 0x75 then []
      else if evMods e AND ModShift \<noteq> 0 \<and> 32 < evShifted e \<and> evShifted e < 0xE000 then EncodeRune (rune_of_int (evShifted e))
      else if evCode e = 13 then [10]
      else if evCode e = 32 then [32]
      else if 32 < evCode e \<and> evCode e \<noteq> 127 \<and> evCode e < 0xE000 then EncodeRune (rune_of_int (evCode e))
      else [])"

section \<open>Tables\<close>

type_synonym Action = string

abbreviation (input) no_action :: Action where "no_action \<equiv> []"

datatype Scope = Global | Editor | Explorer | Search | Picker | Prompt

record Binding =
  bnGroup :: string
  bnAction :: Action
  bnChord :: string
  bnSeq :: string

definition binding :: "string \<times> string \<times> string \<times> string \<Rightarrow> Binding" where
  "binding r = (case r of (g, a, c, q) \<Rightarrow> \<lparr>bnGroup = g, bnAction = a, bnChord = c, bnSeq = q\<rparr>)"

definition Bindings :: "Binding list" where
  "Bindings = map binding
    [
     (''panes'', ''toggle_sidebar'', ''super+b'', ''98;9u''),
     (''panes'', ''focus_explorer'', ''shift+super+e'', ''101;10u''),
     (''panes'', ''focus_search'', ''shift+super+f'', ''102;10u''),
     (''panes'', ''focus_problems'', ''shift+super+m'', ''109;10u''),
     (''panes'', ''file_picker'', ''super+p'', ''112;9u''),
     (''panes'', ''command_palette'', ''shift+super+p'', ''112;10u''),
     (''panes'', ''find_in_file'', ''super+f'', ''102;9u''),
     (''panes'', ''suspend'', ''ctrl+z'', ''122;5u''),
     (''panes'', ''quit'', ''ctrl+c'', ''99;5u''),
     (''panes'', ''toggle_debug'', ''shift+ctrl+d'', ''100;6u''),
     (''tabs'', ''close_tab'', ''super+w'', ''119;9u''),
     (''tabs'', ''reopen_tab'', ''shift+super+t'', ''116;10u''),
     (''tabs'', ''next_tab'', ''alt+super+right'', ''1;11C''),
     (''tabs'', ''prev_tab'', ''alt+super+left'', ''1;11D''),
     (''file'', ''new_file'', ''super+n'', ''110;9u''),
     (''file'', ''save'', ''super+s'', ''115;9u''),
     (''file'', ''reload'', ''shift+super+r'', ''114;10u''),
     (''edit'', ''undo'', ''super+z'', ''122;9u''),
     (''edit'', ''redo'', ''shift+super+z'', ''122;10u''),
     (''edit'', ''restore_deleted'', ''ctrl+super+z'', ''122;13u''),
     (''edit'', ''cut'', ''super+x'', ''120;9u''),
     (''edit'', ''copy'', ''super+c'', ''99;9u''),
     (''edit'', ''select_all'', ''super+a'', ''97;9u''),
     (''edit'', ''select_line'', ''super+l'', ''108;9u''),
     (''edit'', ''toggle_comment'', ''super+/'', ''47;9u''),
     (''edit'', ''delete_line'', ''shift+super+k'', ''107;10u''),
     (''edit'', ''delete_to_line_end'', ''super+k'', ''107;9u''),
     (''edit'', ''line_below'', ''super+enter'', ''13;9u''),
     (''edit'', ''line_above'', ''shift+super+enter'', ''13;10u''),
     (''edit'', ''move_line_up'', ''alt+up'', ''1;3A''),
     (''edit'', ''move_line_down'', ''alt+down'', ''1;3B''),
     (''edit'', ''copy_line_up'', ''shift+alt+up'', ''1;4A''),
     (''edit'', ''copy_line_down'', ''shift+alt+down'', ''1;4B''),
     (''cursor'', ''cursor_above'', ''alt+super+up'', ''1;11A''),
     (''cursor'', ''cursor_below'', ''alt+super+down'', ''1;11B''),
     (''cursor'', ''add_next_occurrence'', ''super+d'', ''100;9u''),
     (''cursor'', ''split_into_lines'', ''shift+super+l'', ''108;10u''),
     (''cursor'', ''all_occurrences'', ''ctrl+super+g'', ''103;13u''),
     (''cursor'', ''cursor_undo'', ''super+u'', ''117;9u''),
     (''nav'', ''line_start'', ''super+left'', ''1;9D''),
     (''nav'', ''line_end'', ''super+right'', ''1;9C''),
     (''nav'', ''doc_start'', ''super+up'', ''1;9A''),
     (''nav'', ''doc_end'', ''super+down'', ''1;9B''),
     (''nav'', ''word_left'', ''alt+left'', ''1;3D''),
     (''nav'', ''word_right'', ''alt+right'', ''1;3C''),
     (''nav'', ''sel_line_start'', ''shift+super+left'', ''1;10D''),
     (''nav'', ''sel_line_end'', ''shift+super+right'', ''1;10C''),
     (''nav'', ''sel_doc_start'', ''shift+super+up'', ''1;10A''),
     (''nav'', ''sel_doc_end'', ''shift+super+down'', ''1;10B''),
     (''nav'', ''sel_word_left'', ''shift+alt+left'', ''1;4D''),
     (''nav'', ''sel_word_right'', ''shift+alt+right'', ''1;4C''),
     (''nav'', ''goto_line'', ''ctrl+g'', ''103;5u''),
     (''nav'', ''find_next'', ''super+g'', ''103;9u''),
     (''nav'', ''find_prev'', ''shift+super+g'', ''103;10u''),
     (''nav'', ''goto_symbol'', ''shift+super+o'', ''111;10u''),
     (''nav'', ''hover'', ''super+i'', ''105;9u''),
     (''nav'', ''goto_definition'', ''super+j'', ''106;9u''),
     (''nav'', ''references'', ''shift+super+j'', ''106;10u''),
     (''nav'', ''goto_declaration'', ''ctrl+super+b'', ''98;13u''),
     (''nav'', ''goto_type_definition'', ''ctrl+super+t'', ''116;13u''),
     (''nav'', ''goto_implementation'', ''ctrl+super+i'', ''105;13u''),
     (''nav'', ''workspace_symbols'', ''ctrl+super+o'', ''111;13u''),
     (''nav'', ''toggle_inlay_hints'', ''shift+super+i'', ''105;10u''),
     (''nav'', ''apply_inlay_edit'', ''super+.'', ''46;9u''),
     (''nav'', ''signature_help'', ''shift+ctrl+space'', ''32;6u''),
     (''nav'', ''code_action'', ''ctrl+super+a'', ''97;13u''),
     (''nav'', ''open_menu'', ''shift+f10'', ''21;2~''),
     (''nav'', ''run_code_lens'', ''ctrl+super+l'', ''108;13u''),
     (''nav'', ''toggle_fold'', ''ctrl+super+c'', ''99;13u''),
     (''nav'', ''rename'', ''ctrl+super+r'', ''114;13u''),
     (''nav'', ''format'', ''shift+alt+f'', ''102;4u''),
     (''nav'', ''format_range'', ''ctrl+alt+f'', ''102;7u''),
     (''nav'', ''follow_link'', ''ctrl+super+y'', ''121;13u''),
     (''proposals'', ''toggle_review'', ''super+r'', ''114;9u''),
     (''proposals'', ''review_proposed'', ''ctrl+super+v'', ''118;13u''),
     (''proposals'', ''accept_proposed'', ''ctrl+super+m'', ''109;13u''),
     (''proposals'', ''reject_proposed'', ''ctrl+super+/'', ''47;13u''),
     (''proposals'', ''clear_rejected'', ''ctrl+super+k'', ''107;13u''),
     (''proposals'', ''prev_proposed'', ''ctrl+super+,'', ''44;13u''),
     (''proposals'', ''next_proposed'', ''ctrl+super+.'', ''46;13u'')]"

definition Reclaim :: "Binding list" where
  "Reclaim = map binding
    [
     (''nav'', ''sel_page_up'', ''shift+pgup'', ''5;2~''),
     (''nav'', ''sel_page_down'', ''shift+pgdown'', ''6;2~'')]"

definition Natives :: "(string \<times> Action) list" where
  "Natives =
    [
     (''tab'', ''cycle_focus''),
     (''shift+tab'', ''cycle_focus_back''),
     (''esc'', ''cancel''),
     (''enter'', ''confirm''),
     (''left'', ''char_left''),
     (''right'', ''char_right''),
     (''up'', ''line_up''),
     (''down'', ''line_down''),
     (''shift+left'', ''sel_char_left''),
     (''shift+right'', ''sel_char_right''),
     (''shift+up'', ''sel_line_up''),
     (''shift+down'', ''sel_line_down''),
     (''ctrl+alt+w'', ''toggle_wrap''),
     (''ctrl+space'', ''complete''),
     (''pgup'', ''page_up''),
     (''pgdown'', ''page_down''),
     (''backspace'', ''backspace''),
     (''delete'', ''delete'')]"

definition Emitted :: "Binding list" where
  "Emitted = Bindings @ Reclaim"

definition scopeOverrides :: "(Scope \<times> string \<times> Action) list" where
  "scopeOverrides =
    [(Editor, ''tab'', ''indent''), (Editor, ''shift+tab'', ''outdent''), (Editor, ''enter'', no_action),
     (Picker, ''tab'', no_action), (Picker, ''shift+tab'', no_action),
     (Prompt, ''tab'', ''indent''), (Prompt, ''shift+tab'', no_action),
     (Explorer, ''super+enter'', ''toggle_expand_all''), (Search, ''super+enter'', ''toggle_expand_all'')]"

section \<open>The keymap\<close>

record Keymap =
  kmGlobal :: "(string, Action) map"
  kmScoped :: "(Scope, (string, Action) map) map"

definition Bind :: "Scope \<Rightarrow> string \<Rightarrow> Action \<Rightarrow> Keymap \<Rightarrow> Keymap" where
  "Bind s c a k =
     (let m = (case kmScoped k s of None \<Rightarrow> Map.empty | Some m \<Rightarrow> m) in k\<lparr>kmScoped := (kmScoped k)(s \<mapsto> m(c \<mapsto> a))\<rparr>)"

definition bind_global :: "string \<Rightarrow> Action \<Rightarrow> Keymap \<Rightarrow> Keymap" where
  "bind_global c a k = k\<lparr>kmGlobal := (kmGlobal k)(c \<mapsto> a)\<rparr>"

definition NewKeymap :: Keymap where
  "NewKeymap =
     (let k0 = \<lparr>kmGlobal = Map.empty, kmScoped = Map.empty\<rparr>;
          k1 = fold (\<lambda>b. bind_global (bnChord b) (bnAction b)) Bindings k0;
          k2 = fold (\<lambda>(c, a). bind_global c a) Natives k1;
          k3 = fold (\<lambda>b. bind_global (bnChord b) (bnAction b)) Reclaim k2
      in fold (\<lambda>(s, c, a). Bind s c a) scopeOverrides k3)"

definition Lookup :: "Keymap \<Rightarrow> Scope \<Rightarrow> string \<Rightarrow> Action" where
  "Lookup k s c =
     (let g = (case kmGlobal k c of None \<Rightarrow> no_action | Some a \<Rightarrow> a) in
      case kmScoped k s of
        None \<Rightarrow> g
      | Some m \<Rightarrow> (case m c of Some a \<Rightarrow> a | None \<Rightarrow> g))"

definition Resolve :: "Keymap \<Rightarrow> Scope \<Rightarrow> Event \<Rightarrow> Action \<times> byte list \<times> bool" where
  "Resolve k s e =
     (if evKind e \<noteq> KeyEvent \<or> evType e = Release \<or> IsModifierKey e then (no_action, [], False)
      else if Lookup k s (Chord e) \<noteq> no_action then (Lookup k s (Chord e), [], True)
      else if Insertable e \<noteq> [] then (no_action, Insertable e, True)
      else (no_action, [], False))"

definition ctrlAlias :: "string \<Rightarrow> string option" where
  "ctrlAlias chord =
     (let parts = split_on (CHR ''+'') chord in
      if length parts < 2 then None
      else let key = last parts; mods = butlast parts in
        if ''super'' \<notin> set mods \<or> ''ctrl'' \<in> set mods \<or> (\<exists>p \<in> set mods. p \<notin> {''shift'', ''ctrl'', ''alt'', ''super''}) then None
        else Some (join_plus ((if ''shift'' \<in> set mods then [''shift''] else []) @ [''ctrl''] @
               (if ''alt'' \<in> set mods then [''alt''] else []) @ [key])))"

record alias_state =
  asKeymap :: Keymap
  asAdded :: nat
  asCollisions :: "string list"

definition add_alias :: "Scope \<Rightarrow> string \<Rightarrow> Action \<Rightarrow> alias_state \<Rightarrow> alias_state" where
  "add_alias s chord action q =
     (case ctrlAlias chord of
        None \<Rightarrow> q
      | Some c \<Rightarrow>
          if action = no_action then q
          else if s = Global then
            (if kmGlobal (asKeymap q) c \<noteq> None then q\<lparr>asCollisions := asCollisions q @ [chord]\<rparr>
             else q\<lparr>asKeymap := bind_global c action (asKeymap q), asAdded := asAdded q + 1\<rparr>)
          else let m = (case kmScoped (asKeymap q) s of None \<Rightarrow> Map.empty | Some m \<Rightarrow> m) in
            if m c \<noteq> None then
              q\<lparr>asKeymap := (asKeymap q)\<lparr>kmScoped := (kmScoped (asKeymap q))(s \<mapsto> m)\<rparr>, asCollisions := asCollisions q @ [chord]\<rparr>
            else q\<lparr>asKeymap := Bind s c action (asKeymap q), asAdded := asAdded q + 1\<rparr>)"

definition CtrlAliases :: "Keymap \<Rightarrow> alias_state" where
  "CtrlAliases k =
     (let q0 = \<lparr>asKeymap = k, asAdded = 0, asCollisions = []\<rparr>;
          q1 = fold (\<lambda>b. add_alias Global (bnChord b) (bnAction b)) Bindings q0;
          q2 = fold (\<lambda>b. add_alias Global (bnChord b) (bnAction b)) Reclaim q1
      in fold (\<lambda>(s, c, a). add_alias s c a) scopeOverrides q2)"

section \<open>Commands\<close>

record Command =
  cmAction :: Action
  cmName :: string
  cmChord :: string

definition nameOf :: "Action \<Rightarrow> string" where
  "nameOf a = map (\<lambda>c. if c = CHR ''_'' then CHR '' '' else c) a"

definition Unbound :: "Action list" where
  "Unbound = [''copy_relative_path'', ''settings'']"

definition add_command :: "Action \<Rightarrow> string \<Rightarrow> Command list \<Rightarrow> Command list" where
  "add_command a chord out =
     (if a = no_action then out
      else if a \<in> cmAction ` set out then map (\<lambda>c. if cmAction c = a then c\<lparr>cmChord := cmChord c @ '', '' @ chord\<rparr> else c) out
      else out @ [\<lparr>cmAction = a, cmName = nameOf a, cmChord = chord\<rparr>])"

definition add_unbound :: "Action \<Rightarrow> Command list \<Rightarrow> Command list" where
  "add_unbound a out =
     (if a = no_action \<or> a \<in> cmAction ` set out then out else out @ [\<lparr>cmAction = a, cmName = nameOf a, cmChord = []\<rparr>])"

definition Commands :: "Command list" where
  "Commands =
     fold add_unbound Unbound
       (fold (\<lambda>(c, a). add_command a c) Natives
         (fold (\<lambda>b. add_command (bnAction b) (bnChord b)) (Bindings @ Reclaim) []))"

end
