(* ===== verification/KeyProps.thy ===== *)
theory KeyProps
  imports Keymap
begin

text \<open>
  Properties of the way from terminal bytes to actions (\<open>internal/keys\<close> and the reader of
  \<open>internal/ui/native.go\<close>).
\<close>

unbundle bit_operations_syntax

section \<open>Control sequences\<close>

lemma takeWhile_all: "list_all P xs \<Longrightarrow> \<not> P y \<Longrightarrow> takeWhile P (xs @ y # ys) = xs"
  by (induction xs) auto

text \<open>A sequence of parameter bytes and a final byte decodes as a whole.\<close>

lemma parseCSI_params:
  assumes "list_all csi_param ps" "0x40 \<le> f" "f \<le> 0x7E"
  shows "parseCSI (0x1B # 0x5B # ps @ f # rest) =
    (csi_event ps (no_event\<lparr>evRaw := 0x1B # 0x5B # ps @ [f], evFinal := f, evParams := (if ps = [] then [] else split_on 0x3B ps)\<rparr>),
     length ps + 3)"
proof -
  have f: "\<not> csi_param f" "\<not> csi_inter f" using assms(2,3) by (auto simp: csi_param_def csi_inter_def word_le_nat_alt)
  let ?b = "0x1B # 0x5B # ps @ f # rest"
  have "takeWhile csi_param (drop 2 ?b) = ps" using takeWhile_all[OF assms(1) f(1)] by (simp add: numeral_2_eq_2)
  moreover have "drop (2 + length ps) ?b = f # rest" by (simp add: numeral_2_eq_2)
  ultimately have i: "csi_final ?b = length ps + 2" using f(2) by (simp add: csi_final_def Let_def)
  have n: "?b ! (length ps + 2) = f" "take (length ps + 2) ?b = 0x1B # 0x5B # ps" "take (length ps + 2 + 1) ?b = 0x1B # 0x5B # ps @ [f]"
    by (simp_all add: numeral_2_eq_2)
  have g: "\<not> (length ?b \<le> length ps + 2 \<or> f < 0x40 \<or> 0x7E < f)" using assms(2,3) by auto
  show ?thesis unfolding parseCSI_def Let_def i n if_not_P[OF g] by (simp add: numeral_2_eq_2)
qed

lemma digits_params: "list_all is_digit ds \<Longrightarrow> list_all csi_param ds"
  by (auto simp: list_all_iff is_digit_def csi_param_def word_le_nat_alt)

lemma digits_no_sep: "list_all is_digit ds \<Longrightarrow> 0x3B \<notin> set ds \<and> 0x3A \<notin> set ds \<and> 0x3C \<notin> set ds \<and> 0x2D \<notin> set ds \<and> 0x2B \<notin> set ds"
  by (auto simp: list_all_iff is_digit_def word_le_nat_alt)

lemma decimal_length: "n < 10 ^ k \<Longrightarrow> 0 < k \<Longrightarrow> length (decimal n) \<le> k"
proof (induction k arbitrary: n)
  case (Suc k)
  show ?case
  proof (cases "n < 10")
    case False
    then have "0 < k" using Suc.prems by (cases k) auto
    moreover have "n div 10 < 10 ^ k" using Suc.prems(1) by (simp add: less_mult_imp_div_less mult.commute)
    ultimately have "length (decimal (n div 10)) \<le> k" using Suc.IH by blast
    then show ?thesis using False by (simp add: decimal.simps[of n])
  qed (simp add: decimal.simps)
qed simp

lemma decimal_simps [simp]: "list_all is_digit (decimal n)" "decimal n \<noteq> []" "digits_value (decimal n) = int n"
  using decimal_digits[of n] by simp_all

lemma atoiStrict_decimal: "n < 1000000000 \<Longrightarrow> atoiStrict (decimal n) = Some (int n)"
  using decimal_length[of n 9] by (simp add: atoiStrict_def)

lemma Atoi_decimal: "n < 2 ^ 63 \<Longrightarrow> Atoi (decimal n) = Some (int n)"
proof -
  assume n: "n < 2 ^ 63"
  have "hd (decimal n) \<in> set (decimal n)" by simp
  then have h: "hd (decimal n) \<noteq> 0x2D" "hd (decimal n) \<noteq> 0x2B" using digits_no_sep[OF decimal_simps(1)[of n]] by metis+
  have "int n < 2 ^ 63" using n by (metis of_nat_less_iff of_nat_numeral of_nat_power)
  then show ?thesis using h by (simp add: Atoi_def Let_def)
qed

section \<open>Mouse\<close>

definition mouse_report :: "nat \<Rightarrow> nat \<Rightarrow> nat \<Rightarrow> bool \<Rightarrow> byte list" where
  "mouse_report cb col row press =
     0x1B # 0x5B # ([0x3C] @ decimal cb @ [0x3B] @ decimal (col + 1) @ [0x3B] @ decimal (row + 1)) @ [if press then 0x4D else 0x6D]"

lemma Parse_CSI: "\<not> HasPrefix (0x1B # 0x5B # ds) pasteStart \<Longrightarrow> Parse (0x1B # 0x5B # ds) = parseCSI (0x1B # 0x5B # ds)"
  unfolding Parse_escape Let_def by simp

lemma mouse_fields:
  assumes "cb < 128" "col < 999999999" "row < 999999999"
  shows "Parse (mouse_report cb col row press @ rest) =
    (no_event\<lparr>evKind := MouseEvent, evRaw := mouse_report cb col row press, evFinal := (if press then 0x4D else 0x6D),
       evParams := [0x3C # decimal cb, decimal (col + 1), decimal (row + 1)],
       evMouse := \<lparr>moButton = (if int cb AND 64 \<noteq> 0 then 4 else 0) + (int cb AND 3), moCol = int col, moRow = int row,
         moMods = mouseMods (int cb), moPress = (press \<or> int cb AND 64 \<noteq> 0), moMotion = (int cb AND 32 \<noteq> 0),
         moIsWheel = (int cb AND 64 \<noteq> 0)\<rparr>\<rparr>, length (mouse_report cb col row press))"
proof -
  define ps where "ps = [0x3C] @ decimal cb @ [0x3B] @ decimal (col + 1) @ [0x3B] @ decimal (row + 1)"
  define f :: byte where "f = (if press then 0x4D else 0x6D)"
  have r: "mouse_report cb col row press = 0x1B # 0x5B # ps @ [f]" by (simp add: mouse_report_def ps_def f_def)
  have p: "list_all csi_param ps"
    using digits_params[OF decimal_simps(1)] by (simp add: ps_def) (simp add: csi_param_def)
  have f: "0x40 \<le> f" "f \<le> 0x7E" by (simp_all add: f_def)
  have "\<not> HasPrefix (0x1B # 0x5B # ps @ f # rest) pasteStart" by (simp add: HasPrefix_def pasteStart_def ps_def)
  then have parse: "Parse (mouse_report cb col row press @ rest) = parseCSI (0x1B # 0x5B # ps @ f # rest)"
    unfolding r append_Cons append_assoc append_Nil by (rule Parse_CSI)
  have s: "split_on 0x3B ps = [0x3C # decimal cb, decimal (col + 1), decimal (row + 1)]"
  proof -
    have "0x3B \<notin> set ([0x3C] @ decimal cb)" using digits_no_sep[OF decimal_simps(1)[of cb]] by simp
    from split_on_append[OF this] split_on_append[of "0x3B" "decimal (col + 1)"] split_on_field[of "0x3B" "decimal (row + 1)"] show ?thesis
      using digits_no_sep[OF decimal_simps(1)[of "col + 1"]] digits_no_sep[OF decimal_simps(1)[of "row + 1"]] by (simp add: ps_def)
  qed
  have x: "int cb AND 128 = 0"
  proof -
    have "\<not> bit (int cb) 7" using assms(1) by (simp add: bit_iff_odd)
    then have "int cb AND 2 ^ 7 = 0" unfolding and_exp_eq_0_iff_not_bit .
    then show ?thesis by simp
  qed
  have ne: "ps \<noteq> []" by (simp add: ps_def)
  have h: "HasPrefix ps [0x3C]" by (simp add: HasPrefix_def ps_def)
  show ?thesis unfolding parse unfolding parseCSI_params[OF p f] unfolding r
    using assms x h ne by (simp add: csi_event_def parseMouse_def s TrimPrefix_def atoiStrict_decimal Let_def f_def
        max0_def no_mouse_def MouseLeft_def WheelUp_def no_event_def HasPrefix_def[of "_ # _"])
qed


text \<open>A mouse report for any button, position and modifiers decodes to exactly that, in zero-based coordinates, and
  takes none of the bytes behind it; a wheel notch is a press whatever its final byte.\<close>

theorem mouse_roundtrip:
  assumes "cb < 128" "col < 999999999" "row < 999999999"
  shows "let (e, n) = Parse (mouse_report cb col row press @ rest)
    in n = length (mouse_report cb col row press) \<and> evKind e = MouseEvent \<and>
       evMouse e = \<lparr>moButton = (if int cb AND 64 \<noteq> 0 then 4 else 0) + (int cb AND 3), moCol = int col, moRow = int row,
         moMods = mouseMods (int cb), moPress = (press \<or> int cb AND 64 \<noteq> 0), moMotion = (int cb AND 32 \<noteq> 0),
         moIsWheel = (int cb AND 64 \<noteq> 0)\<rparr>"
  using mouse_fields[OF assms, of press rest] by (simp add: no_event_def)

theorem mouse_roundtrip_witness:
  "evMouse (fst (Parse (mouse_report 4 6 2 True))) =
     \<lparr>moButton = 0, moCol = 6, moRow = 2, moMods = 1, moPress = True, moMotion = False, moIsWheel = False\<rparr>"
proof -
  have "mouseMods 4 = 1" by (simp add: mouseMods_def ModShift_def ModAlt_def ModCtrl_def)
  then show ?thesis using mouse_roundtrip[of 4 6 2 True "[]"] by (simp add: case_prod_unfold Let_def)
qed

section \<open>Pastes\<close>

text \<open>What a paste's line endings become: a carriage return with or without its newline is a newline.\<close>

fun fold_newlines :: "byte list \<Rightarrow> byte list" where
  "fold_newlines [] = []"
| "fold_newlines (b # bs) =
     (if b = 13 then 10 # (if bs \<noteq> [] \<and> hd bs = 10 then fold_newlines (tl bs) else fold_newlines bs) else b # fold_newlines bs)"

lemma replace_one: "replace_all [a] [c] bs = map (\<lambda>b. if b = a then c else b) bs"
  by (induction bs) (auto simp: HasPrefix_def)

lemma normalize_folds: "normalizeNewlines s = fold_newlines s"
proof -
  have "map (\<lambda>b. if b = 13 then 10 else b) (replace_all [13, 10] [10] s) = fold_newlines s"
  proof (induction s rule: fold_newlines.induct)
    case (2 b bs)
    then show ?case by (cases bs) (auto simp: HasPrefix_def)
  qed simp
  moreover have "13 \<notin> set s \<Longrightarrow> fold_newlines s = s" by (induction s) auto
  ultimately show ?thesis by (simp add: normalizeNewlines_def replace_one)
qed

lemma fold_newlines_clean: "13 \<notin> set (fold_newlines s)"
proof (induction s rule: fold_newlines.induct)
  case (2 b bs)
  then show ?case by auto
qed simp

lemma paste_end_index:
  assumes "Index t pasteEnd = None"
  shows "Index (pasteStart @ t @ pasteEnd @ rest) pasteEnd = Some (6 + length t)"
proof (rule Index_is)
  let ?b = "pasteStart @ t @ pasteEnd @ rest"
  have l: "length pasteStart = 6" "length pasteEnd = 6" by (simp_all add: pasteStart_def pasteEnd_def)
  show "6 + length t + length pasteEnd \<le> length ?b" by (simp add: l)
  show "HasPrefix (drop (6 + length t) ?b) pasteEnd" by (simp add: l)
  fix j assume j: "j < 6 + length t"
  show "\<not> HasPrefix (drop j ?b) pasteEnd"
  proof
    assume h: "HasPrefix (drop j ?b) pasteEnd"
    have at: "?b ! (j + k) = pasteEnd ! k" if "k < 6" for k
      using HasPrefix_nth[OF h, of k] that j l by simp
    have e: "pasteEnd ! k = 0x1B \<longleftrightarrow> k = 0" if "k < 6" for k
    proof -
      have "k = 0 \<or> k = 1 \<or> k = 2 \<or> k = 3 \<or> k = 4 \<or> k = 5" using that by linarith
      then show ?thesis by (auto simp: pasteEnd_def)
    qed
    consider "j < 6" | "6 \<le> j" "j + 6 \<le> 6 + length t" | "6 \<le> j" "6 + length t < j + 6" by linarith
    then show False
    proof cases
      case 1
      have s: "?b ! 5 = 0x7E" "?b ! 3 = 0x30" "?b ! 4 = 0x30" "?b ! 0 = 0x1B" "?b ! 1 = 0x5B" "?b ! 2 = 0x32"
        by (simp_all add: pasteStart_def nth_append)
      have "j = 0 \<or> j = 1 \<or> j = 2 \<or> j = 3 \<or> j = 4 \<or> j = 5" using 1 by linarith
      moreover have "?b ! j = 0x1B" using at[of 0] by (simp add: pasteEnd_def)
      ultimately have "j = 0" using s by (elim disjE) simp_all
      then show False using at[of 4] s by (simp add: pasteEnd_def)
    next
      case 2
      have "HasPrefix (drop (j - 6) t) pasteEnd"
        using h 2 l by (simp add: HasPrefix_def)
      then show False using Index_None[OF assms, of "j - 6"] 2 l by simp
    next
      case 3
      define k where "k = 6 + length t - j"
      have k: "0 < k" "k < 6" "j + k = 6 + length t" using 3 j by (auto simp: k_def)
      have "?b ! (j + k) = 0x1B" unfolding k(3) by (simp add: l nth_append pasteEnd_def)
      then show False using at[OF k(2)] e[OF k(2)] k(1) by simp
    qed
  qed
qed


lemma paste_parse:
  assumes "Index t pasteEnd = None"
  shows "Parse (pasteStart @ t @ pasteEnd @ rest) =
    (no_event\<lparr>evKind := PasteEvent, evRaw := pasteStart @ t @ pasteEnd, evText := fold_newlines t\<rparr>, 12 + length t)"
proof -
  let ?b = "pasteStart @ t @ pasteEnd @ rest"
  have l: "length pasteStart = 6" "length pasteEnd = 6" by (simp_all add: pasteStart_def pasteEnd_def)
  have "Parse ?b = parsePaste ?b" by (rule Parse_paste) simp
  moreover have "take (6 + length t + 6) ?b = pasteStart @ t @ pasteEnd" "drop 6 (take (6 + length t) ?b) = t" by (simp_all add: l)
  ultimately show ?thesis unfolding parsePaste_def paste_end_index[OF assms] by (simp add: l normalize_folds Let_def)
qed

text \<open>C20: however a terminal's bytes are cut into chunks, the reader hands on the events of the whole stream, loses no byte
  of it and keeps back only what is not yet an event.\<close>

theorem reader_chunks:
  assumes "length (concat cs) \<le> MaxPaste"
  shows "read_all [] (map Chunk cs) = drain (concat cs) \<and>
    concat (map evRaw (fst (drain (concat cs)))) @ snd (drain (concat cs)) = concat cs \<and>
    snd (Parse (snd (drain (concat cs)))) = 0"
  using read_chunks[of "[]" cs] assms drain_bytes[of "concat cs"] drain_rest[of "concat cs"] by (simp add: Parse_short partial_def)

theorem reader_chunks_witness:
  "map evCode (fst (read_all [] (map Chunk [[0x1B, 0x5B], [0x31, 0x3B, 0x33], [0x41, 0xC3], [0xA9]]))) = [0, 233]"
proof -
  have "map evCode (fst (drain [0x1B, 0x5B, 0x31, 0x3B, 0x33, 0x41, 0xC3, 0xA9])) = [0, 233]"
  proof -
    let ?b = "[0x1B, 0x5B, 0x31, 0x3B, 0x33, 0x41, 0xC3, 0xA9]"
    have d: "snd (Parse [0xC3, 0xA9]) = 2" "evCode (fst (Parse [0xC3, 0xA9])) = 233"
      by (simp_all add: Parse_plain legacyControl_def cont_def no_event_def)
    have q: "snd (Parse ?b) = 6" by code_simp
    have p: "evCode (fst (Parse ?b)) = 0" by code_simp
    have "drain [0xC3, 0xA9] = ([fst (Parse [0xC3, 0xA9])], [])"
      using drain_step[of "[0xC3, 0xA9]" 2] d by (simp add: drain_partial Parse_short partial_def)
    then show ?thesis using drain_step[of ?b 6] p q d by simp
  qed
  then show ?thesis using reader_chunks[of "[[0x1B, 0x5B], [0x31, 0x3B, 0x33], [0x41, 0xC3], [0xA9]]"] by (simp add: MaxPaste_def)
qed




section \<open>Keys\<close>

definition key_params :: "nat \<Rightarrow> nat \<Rightarrow> nat \<Rightarrow> byte list" where
  "key_params code mods ty = decimal code @ [0x3B] @ (decimal (mods + 1) @ [0x3A] @ decimal ty)"

definition key_report :: "nat \<Rightarrow> nat \<Rightarrow> nat \<Rightarrow> byte list" where
  "key_report code mods ty = 0x1B # 0x5B # key_params code mods ty @ [0x75]"

lemma params_no_paste:
  assumes "list_all csi_param ps" "4 \<le> length ps"
  shows "\<not> HasPrefix (0x1B # 0x5B # ps @ zs) pasteStart"
proof
  assume h: "HasPrefix (0x1B # 0x5B # ps @ zs) pasteStart"
  have "(0x1B # 0x5B # ps @ zs) ! 5 = 0x7E"
    using HasPrefix_nth[of 0 "0x1B # 0x5B # ps @ zs" pasteStart 5] h by (simp add: pasteStart_def)
  moreover have "(0x1B # 0x5B # ps @ zs) ! 5 = ps ! 3" using assms(2) by (simp add: nth_append)
  moreover have "csi_param (ps ! 3)" using assms by (simp add: list_all_length)
  ultimately show False by (simp add: csi_param_def)
qed

lemma modMask_63: "modMask = 63"
  by (simp add: modMask_def ModShift_def ModAlt_def ModCtrl_def ModSuper_def)

lemma key_report_fields:
  assumes "code < 2 ^ 63" "mods < 2 ^ 63 - 1" "0 < ty" "ty < 2 ^ 63"
  shows "Parse (key_report code mods ty @ rest) =
    (no_event\<lparr>evKind := KeyEvent, evRaw := key_report code mods ty, evFinal := 0x75,
       evParams := [decimal code, decimal (mods + 1) @ [0x3A] @ decimal ty],
       evCode := int code, evMods := int (mods mod 64), evType := int ty\<rparr>, length (key_report code mods ty))"
proof -
  let ?ps = "key_params code mods ty"
  note D = digits_no_sep[OF decimal_simps(1)]
  have p: "list_all csi_param ?ps"
    using digits_params[OF decimal_simps(1)] by (simp add: key_params_def) (simp add: csi_param_def)
  have l: "4 \<le> length ?ps"
  proof -
    have "0 < length (decimal k)" for k by simp
    from this[of code] this[of "mods + 1"] this[of ty] show ?thesis by (simp add: key_params_def del: length_greater_0_conv)
  qed
  then have ne: "?ps \<noteq> []" by auto
  have parse: "Parse (key_report code mods ty @ rest) = parseCSI (0x1B # 0x5B # ?ps @ 0x75 # rest)"
    unfolding key_report_def append_Cons append_assoc append_Nil by (rule Parse_CSI) (rule params_no_paste[OF p l])
  have s: "split_on 0x3B ?ps = [decimal code, decimal (mods + 1) @ [0x3A] @ decimal ty]"
    using split_on_append[of "0x3B" "decimal code"] split_on_field[of "0x3B" "decimal (mods + 1) @ [0x3A] @ decimal ty"] D
    by (simp add: key_params_def)
  have q: "split_on 0x3A (decimal (mods + 1) @ [0x3A] @ decimal ty) = [decimal (mods + 1), decimal ty]" "split_on 0x3A (decimal code) = [decimal code]"
    using split_on_append[of "0x3A" "decimal (mods + 1)"] split_on_field[of "0x3A" "decimal ty"] split_on_field[of "0x3A" "decimal code"] D
    by simp_all
  have h: "\<not> HasPrefix ?ps [0x3F]" "\<not> HasPrefix ?ps [0x3C]"
  proof -
    have "hd ?ps = hd (decimal code)" by (simp add: key_params_def)
    moreover have "is_digit (hd (decimal code))" using decimal_simps(1,2)[of code] by (metis list.pred_set list.set_sel(1))
    ultimately have "is_digit (hd ?ps)" by simp
    then show "\<not> HasPrefix ?ps [0x3F]" "\<not> HasPrefix ?ps [0x3C]" using ne by (cases ?ps; auto simp: HasPrefix_def is_digit_def)+
  qed
  have a: "Atoi (decimal code) = Some (int code)" "Atoi (decimal (mods + 1)) = Some (int mods + 1)" "Atoi (decimal ty) = Some (int ty)"
    using Atoi_decimal[of code] Atoi_decimal[of "mods + 1"] Atoi_decimal[of ty] assms by simp_all
  have m: "int mods AND modMask = int (mods mod 64)"
    using take_bit_eq_mask[of 6 "int mods"] by (simp add: modMask_63 take_bit_eq_mod zmod_int mask_eq_exp_minus_1)
  have e: "split_on 0x3A [] = [[]]" "Atoi [] = None" by (simp_all add: Atoi_def)
  show ?thesis unfolding parse parseCSI_params[OF p, of "0x75" rest, simplified]
    using ne h a[simplified] m assms(3)
    by (simp add: csi_event_def key_fields_def s[simplified] q[simplified] e num_def param_at_def Let_def key_report_def no_event_def)
qed

lemma Chord_cong: "evFinal e = evFinal q \<Longrightarrow> evCode e = evCode q \<Longrightarrow> evMods e = evMods q \<Longrightarrow> Chord e = Chord q"
  by (simp add: Chord_def KeyName_def cong: option.case_cong)

text \<open>A key reported by the keyboard protocol decodes to its code, its event type and its modifiers with the lock keys
  masked out, so caps lock and num lock change no chord.\<close>

theorem key_reported:
  assumes "code < 2 ^ 63" "mods < 256" "0 < ty" "ty < 4"
  shows "let (e, n) = Parse (key_report code mods ty @ rest); (e1, n1) = Parse (key_report code (mods mod 64) ty)
    in n = length (key_report code mods ty) \<and> evKind e = KeyEvent \<and> evCode e = int code \<and> evMods e = int (mods mod 64) \<and>
       evType e = int ty \<and> Chord e = Chord e1 \<and> (ty = 3 \<longrightarrow> dispatch e = [])"
  using key_report_fields[of code mods ty rest] key_report_fields[of code "mods mod 64" ty "[]"] assms
    Chord_cong[of "fst (Parse (key_report code mods ty @ rest))" "fst (Parse (key_report code (mods mod 64) ty))"]
  by (simp add: no_event_def Release_def)

theorem key_reported_witness: "Chord (fst (Parse (key_report 98 72 1))) = ''super+b''"
proof -
  have "Chord (fst (Parse (key_report 98 8 1))) = ''super+b''"
    using key_report_fields[of 98 8 1 "[]"] by (simp add: Chord_def modOrder_def no_event_def KeyName_def codeNames_def
        ModShift_def ModCtrl_def ModAlt_def ModSuper_def char_of_def bit_iff_odd)
  then show ?thesis using key_reported[of 98 72 1 "[]"] by (simp add: case_prod_unfold Let_def)
qed

text \<open>A character typed on a terminal without the keyboard protocol is one key event, taking its bytes and no more,
  whose text is the character itself; but characters from U+E000 on insert nothing.\<close>

theorem typed_character:
  assumes "scalar r" "32 < r" "r \<noteq> 127"
  shows "let (e, n) = Parse (EncodeRune r @ rest)
    in n = length (EncodeRune r) \<and> evKind e = KeyEvent \<and> evCode e = int r \<and> evType e = Press \<and>
       Insertable e = (if r < 0xE000 then EncodeRune r else [])"
proof -
  obtain c cs where c: "EncodeRune r = c # cs" by (cases "EncodeRune r") (auto simp: EncodeRune_def Let_def split: if_splits)
  have n: "128 \<le> unat c \<or> cs = [] \<and> unat c = r" using EncodeRune_ascii[OF assms(1), of c] c by force
  then have u: "32 < unat c" "unat c \<noteq> 127" using assms(2,3) by auto
  have v: "c \<noteq> 0x1B" "legacyControl c = None"
  proof -
    show "c \<noteq> 0x1B" using u by auto
    show "legacyControl c = None" using u by (auto simp: legacyControl_def word_le_nat_alt Let_def)
  qed
  have d: "DecodeRune (c # cs @ rest) = (r, length (EncodeRune r))" using decode_encode[OF assms(1), of rest] c by simp
  have l: "0 < length (EncodeRune r)" "r = RuneError \<Longrightarrow> length (EncodeRune r) \<noteq> 1"
    using c by (auto simp: EncodeRune_def RuneError_def scalar_def)
  have p: "Parse (EncodeRune r @ rest) = (no_event\<lparr>evRaw := EncodeRune r, evCode := int r, evType := Press\<rparr>, length (EncodeRune r))"
    unfolding c append_Cons using Parse_plain[OF v(1), of "cs @ rest"] v(2) d l c by (auto simp: Let_def simp del: DecodeRune.simps)
  have "signed_take_bit 31 (int r) = int r"
    using assms(1) by (intro signed_take_bit_int_eq_self) (auto simp: scalar_def)
  then have "rune_of_int (int r) = r" by (simp add: rune_of_int_def)
  then show ?thesis using assms(2,3) by (auto simp: p no_event_def Insertable_def Press_def)
qed

theorem typed_character_witness: "Insertable (fst (Parse (EncodeRune 0x1F600))) = [] \<and> Insertable (fst (Parse (EncodeRune 233))) = EncodeRune 233"
  using typed_character[of "0x1F600" "[]"] typed_character[of 233 "[]"] by (simp add: scalar_def case_prod_unfold Let_def)


section \<open>A sequence that never ends\<close>

text \<open>An escape inside a control sequence, before its final byte, is no byte such a sequence can hold: no bytes to come make
  it an event, though the decoder asks for more, and what is typed behind it before a silence is dropped with it.\<close>

lemma csi_never_completes: "Parse (0x1B # 0x5B # 0x1B # rest) = partial"
proof -
  have "\<not> HasPrefix (0x1B # 0x5B # 0x1B # rest) pasteStart" by (simp add: HasPrefix_def pasteStart_def)
  from Parse_CSI[OF this] show ?thesis by (simp add: parseCSI_def csi_final_def csi_param_def csi_inter_def Let_def)
qed

lemma key_behind_dropped: "read_all [] [Chunk [0x1B, 0x5B, 0x1B], Chunk [0x71], Silence] = ([], [])"
proof -
  have "snd (Parse (0x1B # 0x5B # 0x1B # r)) = 0" for r by (simp add: csi_never_completes partial_def)
  then show ?thesis by (simp add: drain_partial ParseFinal_def PastePending_def HasPrefix_def pasteStart_def csi_never_completes partial_def)
qed

end
