(* ===== verification/KeymapProps.thy ===== *)
theory KeymapProps
  imports KeyProps
begin

text \<open>
  Properties of the binding tables and of the keymap built from them (\<open>internal/keys/table.go\<close>, \<open>keymap.go\<close>).
\<close>

section \<open>The tables decode to their chords\<close>

definition seq_bytes :: "string \<Rightarrow> byte list" where
  "seq_bytes s = 0x1B # 0x5B # map (\<lambda>c. word_of_nat (of_char c)) s"

definition decodes :: "Binding \<Rightarrow> bool" where
  "decodes b \<longleftrightarrow>
     (let q = Parse (seq_bytes (bnSeq b))
      in snd q = length (seq_bytes (bnSeq b)) \<and> evKind (fst q) = KeyEvent \<and> evType (fst q) = Press \<and>
         \<not> IsModifierKey (fst q) \<and> Chord (fst q) = bnChord b)"

lemma decodes_first: "list_all decodes (take 41 Bindings)"
  by code_simp

lemma decodes_last: "list_all decodes (drop 41 Bindings)"
  by code_simp

lemma decodes_reclaim: "list_all decodes Reclaim"
  by code_simp

lemma Emitted_decodes: "b \<in> set Emitted \<Longrightarrow> decodes b"
proof -
  assume "b \<in> set Emitted"
  then have "b \<in> set (take 41 Bindings @ drop 41 Bindings) \<or> b \<in> set Reclaim" by (simp only: append_take_drop_id Emitted_def set_append Un_iff)
  then show ?thesis using decodes_first decodes_last decodes_reclaim unfolding list_all_iff set_append by blast
qed

section \<open>The keymap holds the tables\<close>

lemma fold_unbound: "c \<notin> fst ` set xs \<Longrightarrow> kmGlobal (fold (\<lambda>(c, a). bind_global c a) xs k) c = kmGlobal k c"
  by (induction xs arbitrary: k) (auto simp: bind_global_def)

lemma fold_bound: "distinct (map fst xs) \<Longrightarrow> (c, a) \<in> set xs \<Longrightarrow> kmGlobal (fold (\<lambda>(c, a). bind_global c a) xs k) c = Some a"
proof (induction xs arbitrary: k)
  case (Cons x xs)
  show ?case
  proof (cases "x = (c, a)")
    case True
    then have "kmGlobal (fold (\<lambda>(c, a). bind_global c a) xs (bind_global c a k)) c = kmGlobal (bind_global c a k) c"
      using Cons.prems by (intro fold_unbound) auto
    then have "kmGlobal (fold (\<lambda>(c, a). bind_global c a) xs (bind_global c a k)) c = Some a" by (simp add: bind_global_def[of c a k])
    then show ?thesis by (simp add: True)
  next
    case False
    then show ?thesis using Cons by (cases x) auto
  qed
qed simp

lemma fold_Bind_global: "kmGlobal (fold (\<lambda>(s, c, a). Bind s c a) os k) = kmGlobal k"
  by (induction os arbitrary: k) (auto simp: Bind_def Let_def)

lemma fold_Bind_scope: "s \<notin> fst ` set os \<Longrightarrow> kmScoped (fold (\<lambda>(s, c, a). Bind s c a) os k) s = kmScoped k s"
  by (induction os arbitrary: k) (auto simp: Bind_def Let_def)

lemma fold_global_scope: "kmScoped (fold (\<lambda>(c, a). bind_global c a) xs k) = kmScoped k"
  by (induction xs arbitrary: k) (auto simp: bind_global_def)

abbreviation binding_pair :: "Binding \<Rightarrow> string \<times> Action" where
  "binding_pair b \<equiv> (bnChord b, bnAction b)"

lemma fold_pairs: "fold (\<lambda>b. bind_global (bnChord b) (bnAction b)) bs k = fold (\<lambda>(c, a). bind_global c a) (map binding_pair bs) k"
  by (induction bs arbitrary: k) simp_all

lemma NewKeymap_eq:
  "NewKeymap = fold (\<lambda>(s, c, a). Bind s c a) scopeOverrides
     (fold (\<lambda>(c, a). bind_global c a) (map binding_pair Bindings @ Natives @ map binding_pair Reclaim) \<lparr>kmGlobal = Map.empty, kmScoped = Map.empty\<rparr>)"
  by (simp add: NewKeymap_def Let_def fold_pairs)

lemma table_distinct: "distinct (map fst (map binding_pair Bindings @ Natives @ map binding_pair Reclaim))"
  by (simp add: Bindings_def Natives_def Reclaim_def binding_def)

lemma Lookup_table:
  assumes "(c, a) \<in> set (map binding_pair Bindings @ Natives @ map binding_pair Reclaim)"
  shows "Lookup NewKeymap Global c = a"
proof -
  have "kmGlobal NewKeymap c = Some a" unfolding NewKeymap_eq fold_Bind_global by (rule fold_bound[OF table_distinct assms])
  moreover have "Global \<notin> fst ` set scopeOverrides" by (simp add: scopeOverrides_def)
  then have "kmScoped NewKeymap Global = None" unfolding NewKeymap_eq by (simp add: fold_Bind_scope fold_global_scope del: fold_append)
  ultimately show ?thesis by (simp add: Lookup_def Let_def)
qed

lemma actions_named: "list_all (\<lambda>b. bnAction b \<noteq> no_action) Emitted"
  by (simp add: Emitted_def Bindings_def Reclaim_def binding_def)

lemma Emitted_resolves:
  assumes "b \<in> set Emitted" "q = Parse (seq_bytes (bnSeq b))"
  shows "snd q = length (seq_bytes (bnSeq b)) \<and> dispatch (fst q) = [KeyPress (fst q)] \<and> Chord (fst q) = bnChord b \<and>
    Resolve NewKeymap Global (fst q) = (bnAction b, [], True)"
proof -
  have "bnAction b \<noteq> no_action" using actions_named assms(1) by (simp add: list_all_iff)
  moreover have "Lookup NewKeymap Global (bnChord b) = bnAction b"
    by (rule Lookup_table) (use assms(1) in \<open>auto simp: Emitted_def\<close>)
  moreover note Emitted_decodes[OF assms(1), unfolded decodes_def Let_def, folded assms(2)]
  ultimately show ?thesis by (simp add: Resolve_def Press_def Release_def)
qed


section \<open>Aliases\<close>

text \<open>What stays bound.\<close>

definition scope_map :: "Keymap \<Rightarrow> Scope \<Rightarrow> (string, Action) map" where
  "scope_map k s = (case kmScoped k s of None \<Rightarrow> Map.empty | Some m \<Rightarrow> m)"

definition keeps :: "Keymap \<Rightarrow> Keymap \<Rightarrow> bool" where
  "keeps k k1 \<longleftrightarrow> kmGlobal k \<subseteq>\<^sub>m kmGlobal k1 \<and> (\<forall>s. scope_map k s \<subseteq>\<^sub>m scope_map k1 s)"

lemma keeps_refl: "keeps k k"
  by (simp add: keeps_def)

lemma keeps_trans: "keeps k k1 \<Longrightarrow> keeps k1 k2 \<Longrightarrow> keeps k k2"
  unfolding keeps_def using map_le_trans by blast

lemma keeps_global: "kmGlobal k c = None \<Longrightarrow> keeps k (bind_global c a k)"
  by (auto simp: keeps_def bind_global_def map_le_def scope_map_def)

lemma keeps_touch: "keeps k (k\<lparr>kmScoped := (kmScoped k)(s \<mapsto> scope_map k s)\<rparr>)"
  by (simp add: keeps_def scope_map_def)

lemma keeps_Bind: "scope_map k s c = None \<Longrightarrow> keeps k (Bind s c a k)"
  by (auto simp: keeps_def scope_map_def Bind_def Let_def map_le_def)

lemma add_alias_keeps: "keeps (asKeymap q) (asKeymap (add_alias s chord action q))"
proof (cases "ctrlAlias chord")
  case (Some c)
  then show ?thesis
    unfolding add_alias_def Let_def scope_map_def[symmetric] Some option.case
    by (simp add: keeps_refl keeps_global keeps_touch keeps_Bind)
qed (simp add: add_alias_def keeps_refl)

lemma keeps_bound:
  "keeps k k1 \<Longrightarrow> kmGlobal k c = Some a \<Longrightarrow> kmGlobal k1 c = Some a"
  "keeps k k1 \<Longrightarrow> kmScoped k s = Some m \<Longrightarrow> m c = Some a \<Longrightarrow> \<exists>m1. kmScoped k1 s = Some m1 \<and> m1 c = Some a"
proof -
  show "keeps k k1 \<Longrightarrow> kmGlobal k c = Some a \<Longrightarrow> kmGlobal k1 c = Some a"
    unfolding keeps_def map_le_def by (metis domI)
  assume "keeps k k1" "kmScoped k s = Some m" "m c = Some a"
  then have "scope_map k1 s c = Some a" unfolding keeps_def map_le_def by (metis domI option.simps(5) scope_map_def)
  then show "\<exists>m1. kmScoped k1 s = Some m1 \<and> m1 c = Some a" by (auto simp: scope_map_def split: option.splits)
qed

lemma add_alias_source:
  "kmGlobal (asKeymap (add_alias s chord action q)) c = Some a \<Longrightarrow>
   kmGlobal (asKeymap q) c = Some a \<or> s = Global \<and> ctrlAlias chord = Some c \<and> action = a"
  by (auto simp: add_alias_def Let_def bind_global_def Bind_def split: option.splits if_splits)

lemma add_alias_count:
  "asAdded (add_alias s chord action q) + length (asCollisions (add_alias s chord action q)) =
   asAdded q + length (asCollisions q) + (if ctrlAlias chord \<noteq> None \<and> action \<noteq> no_action then 1 else 0)"
  by (auto simp: add_alias_def Let_def split: option.split)

text \<open>All of them in one walk, in table order.\<close>

definition alias_rows :: "(Scope \<times> string \<times> Action) list" where
  "alias_rows = map (\<lambda>b. (Global, bnChord b, bnAction b)) Emitted @ scopeOverrides"

lemma CtrlAliases_walk:
  "CtrlAliases k = fold (\<lambda>(s, c, a). add_alias s c a) alias_rows \<lparr>asKeymap = k, asAdded = 0, asCollisions = []\<rparr>"
  by (simp add: CtrlAliases_def alias_rows_def Emitted_def fold_map comp_def Let_def)

lemma walk_keeps: "keeps (asKeymap q) (asKeymap (fold (\<lambda>(s, c, a). add_alias s c a) rows q))"
proof (induction rows arbitrary: q)
  case (Cons r rows)
  obtain s c a where r: "r = (s, c, a)" by (cases r)
  show ?case using keeps_trans[OF add_alias_keeps Cons] by (simp add: r)
qed (simp add: keeps_refl)

lemma walk_source:
  "kmGlobal (asKeymap (fold (\<lambda>(s, c, a). add_alias s c a) rows q)) c = Some a \<Longrightarrow>
   kmGlobal (asKeymap q) c = Some a \<or> (\<exists>chord. (Global, chord, a) \<in> set rows \<and> ctrlAlias chord = Some c)"
proof (induction rows arbitrary: q)
  case (Cons r rows)
  obtain s d b where r: "r = (s, d, b)" by (cases r)
  show ?case using Cons.IH[of "add_alias s d b q"] Cons.prems add_alias_source[of s d b q c a] by (auto simp: r)
qed simp

lemma walk_count:
  "asAdded (fold (\<lambda>(s, c, a). add_alias s c a) rows q) + length (asCollisions (fold (\<lambda>(s, c, a). add_alias s c a) rows q)) =
   asAdded q + length (asCollisions q) + length (filter (\<lambda>(s, c, a). ctrlAlias c \<noteq> None \<and> a \<noteq> no_action) rows)"
proof (induction rows arbitrary: q)
  case (Cons r rows)
  obtain s d b where r: "r = (s, d, b)" by (cases r)
  show ?case using Cons[of "add_alias s d b q"] add_alias_count[of s d b q] by (simp add: r)
qed simp

text \<open>Adding ctrl aliases changes no chord that is bound, in any scope; a chord bound anew is the alias of a binding in
  the tables and has its action; and every super chord with an alias is either added or reported as a collision.\<close>

theorem aliases_safe:
  "(kmGlobal k c = Some a \<longrightarrow> kmGlobal (asKeymap (CtrlAliases k)) c = Some a) \<and>
   (kmScoped k s = Some m \<and> m c = Some a \<longrightarrow>
      (\<exists>m1. kmScoped (asKeymap (CtrlAliases k)) s = Some m1 \<and> m1 c = Some a)) \<and>
   (kmGlobal k c = None \<and> kmGlobal (asKeymap (CtrlAliases k)) c = Some a \<longrightarrow>
      (\<exists>b \<in> set Emitted. ctrlAlias (bnChord b) = Some c \<and> bnAction b = a)) \<and>
   asAdded (CtrlAliases k) + length (asCollisions (CtrlAliases k)) =
     length (filter (\<lambda>(s, c, a). ctrlAlias c \<noteq> None \<and> a \<noteq> no_action) alias_rows)"
proof -
  let ?q = "\<lparr>asKeymap = k, asAdded = 0, asCollisions = []\<rparr>"
  have "keeps k (asKeymap (CtrlAliases k))" using walk_keeps[of ?q alias_rows] by (simp add: CtrlAliases_walk)
  moreover have "\<exists>b \<in> set Emitted. ctrlAlias (bnChord b) = Some c \<and> bnAction b = a"
    if "kmGlobal k c = None" "kmGlobal (asKeymap (CtrlAliases k)) c = Some a"
    using walk_source[of alias_rows ?q c a] that by (auto simp: CtrlAliases_walk alias_rows_def scopeOverrides_def)
  ultimately show ?thesis using walk_count[of alias_rows ?q] by (auto simp: CtrlAliases_walk dest: keeps_bound)
qed

theorem aliases_safe_witness:
  "kmGlobal (asKeymap (CtrlAliases \<lparr>kmGlobal = [''ctrl+b'' \<mapsto> ''suspend''], kmScoped = Map.empty\<rparr>)) ''ctrl+b'' = Some ''suspend''"
  using aliases_safe[of "\<lparr>kmGlobal = [''ctrl+b'' \<mapsto> ''suspend''], kmScoped = Map.empty\<rparr>" "''ctrl+b''" "''suspend''"] by simp

end
