(* ===== verification/Columns.thy ===== *)
theory Columns
  imports Utf8
begin

text \<open>
  Display columns: the width of a rune (\<open>internal/ui/width.go\<close>), byte offsets of a line against columns with tabs, wide
  runes and inlay hints (\<open>internal/view/columns.go\<close>). The Unicode classes of combining marks and format characters come from
  Go's \<open>unicode\<close> tables and are a parameter. A loop \<open>for i, r := range line\<close> recurses on the line's runes.
\<close>

section \<open>Widths\<close>

definition wide :: "(nat \<times> nat) list" where
  "wide =
    [(0x1100, 0x115F), (0x2E80, 0x303E), (0x3041, 0x33FF), (0x3400, 0x4DBF), (0x4E00, 0x9FFF), (0xA000, 0xA4CF),
     (0xA960, 0xA97F), (0xAC00, 0xD7A3), (0xF900, 0xFAFF), (0xFE10, 0xFE19), (0xFE30, 0xFE6F), (0xFF00, 0xFF60),
     (0xFFE0, 0xFFE6), (0x1F300, 0x1F64F), (0x1F900, 0x1F9FF), (0x20000, 0x2FFFD), (0x30000, 0x3FFFD)]"

definition ambiguousWide :: "(nat \<times> nat) list" where
  "ambiguousWide = [(0x2190, 0x2190), (0x2192, 0x2192), (0x2194, 0x2194)]"

function range_search :: "nat \<Rightarrow> (nat \<times> nat) list \<Rightarrow> int \<Rightarrow> int \<Rightarrow> bool" where
  "range_search r table lo hi =
     (if lo \<le> hi then
        let mid = (lo + hi) div 2 in
        if r < fst (table ! nat mid) then range_search r table lo (mid - 1)
        else if snd (table ! nat mid) < r then range_search r table (mid + 1) hi
        else True
      else False)"
  by pat_completeness auto
termination by (relation "measure (\<lambda>(r, table, lo, hi). nat (hi - lo + 1))") auto

declare range_search.simps [simp del]

definition inRanges :: "nat \<Rightarrow> (nat \<times> nat) list \<Rightarrow> bool" where
  "inRanges r table = range_search r table 0 (int (length table) - 1)"

definition RuneWidth :: "(nat \<Rightarrow> bool) \<Rightarrow> nat \<Rightarrow> int" where
  "RuneWidth combining r =
     (if r = 0 then 0
      else if r < 0x20 \<or> (0x7F \<le> r \<and> r < 0xA0) then 0
      else if r < 0x300 then 1
      else if combining r then 0
      else if inRanges r wide \<or> inRanges r ambiguousWide then 2
      else 1)"

section \<open>Columns of a line\<close>

definition TabWidth :: int where "TabWidth = 2"

record Columns =
  coTab :: int
  coCombining :: "nat \<Rightarrow> bool"

record HintCol =
  hcOff :: int
  hcWidth :: int

definition NewColumns :: "(nat \<Rightarrow> bool) \<Rightarrow> int \<Rightarrow> Columns" where
  "NewColumns combining tab = \<lparr>coTab = (if tab \<le> 0 then TabWidth else tab), coCombining = combining\<rparr>"

definition advance :: "Columns \<Rightarrow> nat \<Rightarrow> int \<Rightarrow> int" where
  "advance c r col =
     (if r = 9 then coTab c - col mod coTab c
      else if 0 < RuneWidth (coCombining c) r then RuneWidth (coCombining c) r else 0)"

fun col_loop :: "Columns \<Rightarrow> (nat \<times> nat \<times> nat) list \<Rightarrow> int \<Rightarrow> int \<Rightarrow> int" where
  "col_loop c [] off col = col"
| "col_loop c ((i, r, n) # rs) off col = (if off \<le> int i then col else col_loop c rs off (col + advance c r col))"

definition co_colOf :: "Columns \<Rightarrow> byte list \<Rightarrow> int \<Rightarrow> int" where
  "co_colOf c line off = col_loop c (range_runes 0 line) off 0"

fun off_loop :: "Columns \<Rightarrow> nat \<Rightarrow> (nat \<times> nat \<times> nat) list \<Rightarrow> int \<Rightarrow> int \<Rightarrow> int" where
  "off_loop c len [] col cur = int len"
| "off_loop c len ((i, r, n) # rs) col cur =
     (if col \<le> cur then int i
      else if col < cur + advance c r cur then int i
      else off_loop c len rs col (cur + advance c r cur))"

definition co_offsetOf :: "Columns \<Rightarrow> byte list \<Rightarrow> int \<Rightarrow> int" where
  "co_offsetOf c line col = off_loop c (length line) (range_runes 0 line) col 0"

definition WidthHints :: "Columns \<Rightarrow> byte list \<Rightarrow> HintCol list \<Rightarrow> int" where
  "WidthHints c line hints = co_colOf c line (int (length line)) + (\<Sum>h\<leftarrow>hints. hcWidth h)"

definition co_Width :: "Columns \<Rightarrow> byte list \<Rightarrow> int" where
  "co_Width c line = WidthHints c line []"

fun hints_before :: "HintCol list \<Rightarrow> int \<Rightarrow> int \<Rightarrow> int" where
  "hints_before [] off col = col"
| "hints_before (h # hs) off col = (if off \<le> hcOff h then col else hints_before hs off (col + hcWidth h))"

definition ColOfHints :: "Columns \<Rightarrow> byte list \<Rightarrow> int \<Rightarrow> HintCol list \<Rightarrow> int" where
  "ColOfHints c line off hints = hints_before hints off (co_colOf c line off)"

definition ColOf :: "Columns \<Rightarrow> byte list \<Rightarrow> int \<Rightarrow> int" where
  "ColOf c line off = ColOfHints c line off []"

fun hint_walk :: "Columns \<Rightarrow> byte list \<Rightarrow> int \<Rightarrow> HintCol list \<Rightarrow> int \<Rightarrow> int" where
  "hint_walk c line col [] shift = co_offsetOf c line (col - shift)"
| "hint_walk c line col (h # hs) shift =
     (let start = co_colOf c line (hcOff h) + shift in
      if col < start then co_offsetOf c line (col - shift)
      else if col < start + hcWidth h then hcOff h
      else hint_walk c line col hs (shift + hcWidth h))"

definition OffsetOfHints :: "Columns \<Rightarrow> byte list \<Rightarrow> int \<Rightarrow> HintCol list \<Rightarrow> int" where
  "OffsetOfHints c line col hints = hint_walk c line col hints 0"

definition OffsetOf :: "Columns \<Rightarrow> byte list \<Rightarrow> int \<Rightarrow> int" where
  "OffsetOf c line col = OffsetOfHints c line col []"

text \<open>\<open>Expand\<close>: the runes drawn, and the offsets kept for each column.\<close>

fun expand_loop :: "Columns \<Rightarrow> (nat \<times> nat \<times> nat) list \<Rightarrow> int \<Rightarrow> nat list \<times> nat list" where
  "expand_loop c [] col = ([], [])"
| "expand_loop c ((i, r, n) # rs) col =
     (let w = advance c r col; (out, offs) = expand_loop c rs (col + w)
      in if r = 9 then (replicate (nat w) 32 @ out, replicate (nat w) i @ offs)
         else (r # out, i # replicate (nat (w - 1)) i @ offs))"

definition Expand :: "Columns \<Rightarrow> byte list \<Rightarrow> byte list \<times> nat list" where
  "Expand c line = (case expand_loop c (range_runes 0 line) 0 of (out, offs) \<Rightarrow> (utf8_string out, offs))"

section \<open>The range tables\<close>

text \<open>The binary search finds what lies in a range, in a table whose ranges are in order and apart.\<close>

definition ranges_ok :: "(nat \<times> nat) list \<Rightarrow> bool" where
  "ranges_ok table \<longleftrightarrow> list_all (\<lambda>(a, b). a \<le> b) table \<and> sorted_wrt (\<lambda>p q. snd p < fst q) table"

lemma range_search_spec:
  "ranges_ok table \<Longrightarrow> 0 \<le> lo \<Longrightarrow> hi < int (length table) \<Longrightarrow>
    range_search r table lo hi \<longleftrightarrow> (\<exists>k. lo \<le> int k \<and> int k \<le> hi \<and> fst (table ! k) \<le> r \<and> r \<le> snd (table ! k))"
proof (induction r table lo hi rule: range_search.induct)
  case (1 r table lo hi)
  have ok: "fst (table ! k) \<le> snd (table ! k)" if "k < length table" for k
    using "1.prems"(1) that by (auto simp: ranges_ok_def list_all_length case_prod_unfold)
  have apart: "snd (table ! j) < fst (table ! k)" if "j < k" "k < length table" for j k
    using "1.prems"(1) that by (simp add: ranges_ok_def sorted_wrt_iff_nth_less)
  show ?case
  proof (cases "lo \<le> hi")
    case True
    define mid where "mid = (lo + hi) div 2"
    have m: "lo \<le> mid" "mid \<le> hi" using True by (simp_all add: mid_def)
    let ?m = "nat mid"
    have mi: "int ?m = mid" "?m < length table" using m "1.prems"(2,3) by simp_all
    show ?thesis
    proof (cases "r < fst (table ! ?m)")
      case below: True
      have left: "int k \<le> mid - 1" if "int k \<le> hi" "fst (table ! k) \<le> r" for k
      proof (rule ccontr)
        assume "\<not> int k \<le> mid - 1"
        then have "k = ?m \<or> snd (table ! ?m) < fst (table ! k)" using apart[of ?m k] that(1) "1.prems"(3) mi(1) by linarith
        then show False using below that(2) ok[OF mi(2)] by auto
      qed
      then have "(\<exists>k. lo \<le> int k \<and> int k \<le> hi \<and> fst (table ! k) \<le> r \<and> r \<le> snd (table ! k)) =
        (\<exists>k. lo \<le> int k \<and> int k \<le> mid - 1 \<and> fst (table ! k) \<le> r \<and> r \<le> snd (table ! k))"
        by (intro ex_cong1) (use left m in fastforce)
      then show ?thesis using "1.IH"(1)[OF True mid_def below] "1.prems" m True below
        by (subst range_search.simps) (simp add: Let_def flip: mid_def)
    next
      case above: False
      show ?thesis
      proof (cases "snd (table ! ?m) < r")
        case past: True
        have right: "mid + 1 \<le> int k" if "int k \<le> hi" "r \<le> snd (table ! k)" for k
        proof (rule ccontr)
          assume "\<not> mid + 1 \<le> int k"
          then have "k = ?m \<or> snd (table ! k) < fst (table ! ?m)" using apart[of k ?m] mi by linarith
          then show False using past that(2) ok[OF mi(2)] by auto
        qed
        then have "(\<exists>k. lo \<le> int k \<and> int k \<le> hi \<and> fst (table ! k) \<le> r \<and> r \<le> snd (table ! k)) =
          (\<exists>k. mid + 1 \<le> int k \<and> int k \<le> hi \<and> fst (table ! k) \<le> r \<and> r \<le> snd (table ! k))"
          by (intro ex_cong1) (use right m in fastforce)
        then show ?thesis using "1.IH"(2)[OF True mid_def above past] "1.prems" m True above past
          by (subst range_search.simps) (simp add: Let_def flip: mid_def)
      next
        case False
        then have "\<exists>k. lo \<le> int k \<and> int k \<le> hi \<and> fst (table ! k) \<le> r \<and> r \<le> snd (table ! k)"
          using above m mi(1) by (intro exI[of _ ?m]) simp
        then show ?thesis using True above False by (subst range_search.simps) (simp add: Let_def flip: mid_def)
      qed
    qed
  qed (subst range_search.simps, auto)
qed

lemma inRanges_iff: "ranges_ok table \<Longrightarrow> inRanges r table \<longleftrightarrow> (\<exists>(a, b) \<in> set table. a \<le> r \<and> r \<le> b)"
proof -
  assume "ranges_ok table"
  from range_search_spec[OF this, of 0 "int (length table) - 1" r]
  have "inRanges r table \<longleftrightarrow> (\<exists>k < length table. fst (table ! k) \<le> r \<and> r \<le> snd (table ! k))"
    by (simp add: inRanges_def)
  also have "\<dots> \<longleftrightarrow> (\<exists>p \<in> set table. fst p \<le> r \<and> r \<le> snd p)" by (metis in_set_conv_nth)
  finally show ?thesis by (simp add: case_prod_unfold)
qed

lemma tables_ok: "ranges_ok wide" "ranges_ok ambiguousWide"
  by (simp_all add: ranges_ok_def wide_def ambiguousWide_def)

text \<open>
  Laws of display columns: a line's runes as a chain of byte positions, and the loops of \<open>Columns\<close> over it.
\<close>

section \<open>The chain of runes\<close>

fun chain :: "nat \<Rightarrow> (nat \<times> nat \<times> nat) list \<Rightarrow> nat \<Rightarrow> bool" where
  "chain i [] e \<longleftrightarrow> i = e"
| "chain i ((j, r, n) # rs) e \<longleftrightarrow> j = i \<and> 0 < n \<and> chain (i + n) rs e"

lemma chain_le: "chain i rs e \<Longrightarrow> i \<le> e"
  by (induction i rs e rule: chain.induct) auto

lemma chain_append: "chain i (xs @ ys) e \<longleftrightarrow> (\<exists>k. chain i xs k \<and> chain k ys e)"
  by (induction i xs e rule: chain.induct) auto

lemma chain_runes: "chain i (range_runes i bs) (i + length bs)"
proof (induction i bs rule: range_runes.induct)
  case (1 i bs)
  show ?case
  proof (cases "bs = []")
    case False
    obtain r n where d: "DecodeRune bs = (r, n)" by fastforce
    have "0 < n" "n \<le> length bs" using DecodeRune_size[OF d] False by auto
    then show ?thesis using 1[OF False d[symmetric]] False d by (subst range_runes.simps) simp
  qed simp
qed

lemma chain_positions: "chain i rs e \<Longrightarrow> (j, r, n) \<in> set rs \<Longrightarrow> i \<le> j \<and> j + n \<le> e"
proof (induction i rs e rule: chain.induct)
  case (2 i k r1 n1 rs e)
  then show ?case using chain_le[of "i + n1" rs e] by fastforce
qed simp

lemma chain_fun: "chain i xs a \<Longrightarrow> chain i xs b \<Longrightarrow> a = b"
  by (induction i xs a rule: chain.induct) auto

lemma chain_less: "chain i xs e \<Longrightarrow> xs \<noteq> [] \<Longrightarrow> i < e"
  by (cases xs) (force dest: chain_le)+

text \<open>A byte offset that starts a character, or ends the line.\<close>

definition boundary :: "byte list \<Rightarrow> int \<Rightarrow> bool" where
  "boundary line off \<longleftrightarrow> off = int (length line) \<or> off \<in> (\<lambda>(i, r, n). int i) ` set (range_runes 0 line)"

lemma boundary_split:
  "boundary line off \<longleftrightarrow>
   (\<exists>pre post k. range_runes 0 line = pre @ post \<and> chain 0 pre k \<and> chain k post (length line) \<and> off = int k)"
proof
  have c: "chain 0 (range_runes 0 line) (length line)" using chain_runes[of 0 line] by simp
  assume "boundary line off"
  then consider "off = int (length line)" | i r n where "(i, r, n) \<in> set (range_runes 0 line)" "off = int i"
    by (auto simp: boundary_def)
  then show "\<exists>pre post k. range_runes 0 line = pre @ post \<and> chain 0 pre k \<and> chain k post (length line) \<and> off = int k"
  proof cases
    case 1
    then show ?thesis using c by (intro exI[of _ "range_runes 0 line"] exI[of _ "[]"] exI[of _ "length line"]) simp
  next
    case 2
    then obtain pre post where s: "range_runes 0 line = pre @ (i, r, n) # post" by (metis split_list)
    then obtain k where "chain 0 pre k" "chain k ((i, r, n) # post) (length line)" using c by (auto simp: chain_append)
    then show ?thesis using s 2(2) by (intro exI[of _ pre] exI[of _ "(i, r, n) # post"] exI[of _ k]) simp
  qed
next
  assume "\<exists>pre post k. range_runes 0 line = pre @ post \<and> chain 0 pre k \<and> chain k post (length line) \<and> off = int k"
  then obtain pre post k where s: "range_runes 0 line = pre @ post" "chain 0 pre k" "chain k post (length line)" "off = int k" by blast
  show "boundary line off"
  proof (cases post)
    case (Cons p post1)
    obtain i r n where "p = (i, r, n)" by (cases p)
    then show ?thesis using s Cons by (force simp: boundary_def)
  qed (use s in \<open>simp add: boundary_def\<close>)
qed

section \<open>Columns along a chain\<close>

fun cols_from :: "Columns \<Rightarrow> (nat \<times> nat \<times> nat) list \<Rightarrow> int \<Rightarrow> int" where
  "cols_from c [] col = col"
| "cols_from c ((i, r, n) # rs) col = cols_from c rs (col + advance c r col)"

lemma advance_nonneg: "0 < coTab c \<Longrightarrow> 0 \<le> advance c r col"
  by (simp add: advance_def order_less_imp_le[OF pos_mod_bound])

lemma cols_from_mono: "0 < coTab c \<Longrightarrow> col \<le> cols_from c rs col"
proof (induction rs arbitrary: col)
  case (Cons p rs)
  obtain i r n where p: "p = (i, r, n)" by (cases p)
  show ?case using Cons.IH[OF Cons.prems, of "col + advance c r col"] advance_nonneg[OF Cons.prems, of r col] by (simp add: p)
qed simp

lemma cols_from_append: "cols_from c (xs @ ys) col = cols_from c ys (cols_from c xs col)"
  by (induction c xs col rule: cols_from.induct) simp_all

lemma col_loop_split: "chain i pre k \<Longrightarrow> chain k post e \<Longrightarrow> col_loop c (pre @ post) (int k) col = cols_from c pre col"
proof (induction c pre col arbitrary: i rule: cols_from.induct)
  case (1 c col)
  then show ?case by (cases post) auto
next
  case (2 c j r n rs col)
  then have "chain (i + n) rs k" "j = i" "0 < n" by simp_all
  then show ?case using 2 chain_le[of "i + n" rs k] by simp
qed

lemma colOf_split:
  "range_runes 0 line = pre @ post \<Longrightarrow> chain 0 pre k \<Longrightarrow> chain k post (length line) \<Longrightarrow> co_colOf c line (int k) = cols_from c pre 0"
  by (simp add: co_colOf_def col_loop_split)

lemma col_loop_mono: "0 < coTab c \<Longrightarrow> a \<le> b \<Longrightarrow> col \<le> col_loop c rs a col \<and> col_loop c rs a col \<le> col_loop c rs b col"
proof (induction rs arbitrary: col)
  case (Cons p rs)
  obtain i r n where p: "p = (i, r, n)" by (cases p)
  show ?case using Cons.IH[OF Cons.prems, of "col + advance c r col"] advance_nonneg[OF Cons.prems(1), of r col] Cons.prems(2)
    by (auto simp: p)
qed simp

lemma colOf_mono: "0 < coTab c \<Longrightarrow> a \<le> b \<Longrightarrow> co_colOf c line a \<le> co_colOf c line b"
  using col_loop_mono[of c a b 0] by (simp add: co_colOf_def)

text \<open>From a column back: the first position at which the column is reached, and the start of the character it falls in.\<close>

lemma off_loop_spec:
  assumes "0 < coTab c"
  shows "chain i rs e \<Longrightarrow> \<exists>pre post k. rs = pre @ post \<and> chain i pre k \<and> chain k post e \<and> off_loop c e rs col cur = int k \<and>
     cols_from c pre cur \<le> max col cur \<and>
     (post \<noteq> [] \<longrightarrow> col < cols_from c (pre @ [hd post]) cur \<or> col = cols_from c pre cur \<or> col \<le> cur \<and> pre = []) \<and>
     (\<forall>a b. pre = a @ b \<longrightarrow> b \<noteq> [] \<longrightarrow> cols_from c a cur < col)"
proof (induction rs arbitrary: i cur)
  case Nil
  then show ?case by (intro exI[of _ "[]"]) simp
next
  case (Cons p rs)
  obtain j r n where p: "p = (j, r, n)" by (cases p)
  show ?case
  proof (cases "col \<le> cur \<or> col < cur + advance c r cur")
    case True
    then show ?thesis using Cons.prems p by (intro exI[of _ "[]"] exI[of _ "p # rs"] exI[of _ i]) auto
  next
    case False
    let ?cur = "cur + advance c r cur"
    have "chain (i + n) rs e" using Cons.prems p by simp
    from Cons.IH[OF this, of ?cur] obtain pre post k where
      h: "rs = pre @ post" "chain (i + n) pre k" "chain k post e" "off_loop c e rs col ?cur = int k"
      "cols_from c pre ?cur \<le> max col ?cur"
      "post \<noteq> [] \<longrightarrow> col < cols_from c (pre @ [hd post]) ?cur \<or> col = cols_from c pre ?cur \<or> col \<le> ?cur \<and> pre = []"
      "\<forall>a b. pre = a @ b \<longrightarrow> b \<noteq> [] \<longrightarrow> cols_from c a ?cur < col" by blast
    have "\<forall>a b. p # pre = a @ b \<longrightarrow> b \<noteq> [] \<longrightarrow> cols_from c a cur < col"
    proof (intro allI impI)
      fix a b
      assume ab: "p # pre = a @ b" "b \<noteq> []"
      show "cols_from c a cur < col"
      proof (cases a)
        case Nil
        then show ?thesis using False by simp
      next
        case (Cons q a1)
        then show ?thesis using ab h(7) p by auto
      qed
    qed
    then show ?thesis using h False Cons.prems p
      by (intro exI[of _ "p # pre"] exI[of _ post] exI[of _ k]) (auto simp: max_def)
  qed
qed

end
