(* ===== verification/ViewProps.thy ===== *)
theory ViewProps
  imports Columns
begin

text \<open>
  Properties of display columns (\<open>internal/view/columns.go\<close>): columns and offsets with tabs, wide runes and hints.
\<close>

section \<open>Columns\<close>

text \<open>Two positions of a chain, by their prefixes.\<close>

lemma two_splits:
  assumes "pre @ post = pre0 @ post0" "chain i pre k" "chain i pre0 k0"
  obtains b where "pre = pre0 @ b" "k0 \<le> k" | b where "pre0 = pre @ b" "b \<noteq> []" "k < k0"
proof -
  from assms(1) obtain us where "pre = pre0 @ us \<or> pre0 = pre @ us" by (auto simp: append_eq_append_conv2)
  then show thesis
  proof
    assume u: "pre = pre0 @ us"
    then have "k0 \<le> k" using assms(2,3) chain_append[of i pre0 us k] chain_fun chain_le by metis
    then show thesis using u that(1) by blast
  next
    assume u: "pre0 = pre @ us"
    show thesis
    proof (cases "us = []")
      case True
      then show thesis using u that(1)[of "[]"] assms(2,3) chain_fun by auto
    next
      case False
      then have "k < k0" using u assms(2,3) chain_append[of i pre us k0] chain_fun chain_less by metis
      then show thesis using u False that(2) by blast
    qed
  qed
qed

lemma ColOf_colOf: "ColOf c line off = co_colOf c line off" "OffsetOf c line col = co_offsetOf c line col"
  by (simp_all add: ColOf_def ColOfHints_def OffsetOf_def OffsetOfHints_def)

lemma offsetOf_colOf:
  assumes "0 < coTab c" "boundary line off" "k = co_offsetOf c line (co_colOf c line off)"
  shows "boundary line k" "k \<le> off" "co_colOf c line k = co_colOf c line off"
    "\<And>b. boundary line b \<Longrightarrow> b < k \<Longrightarrow> co_colOf c line b < co_colOf c line off"
proof -
  obtain pre0 post0 k0 where s: "range_runes 0 line = pre0 @ post0" "chain 0 pre0 k0" "chain k0 post0 (length line)" "off = int k0"
    using assms(2) unfolding boundary_split by blast
  define C where "C = co_colOf c line off"
  have C: "C = cols_from c pre0 0" unfolding C_def s(4) by (rule colOf_split[OF s(1-3)])
  have C0: "0 \<le> C" using cols_from_mono[OF assms(1), of 0 pre0] C by simp
  have "chain 0 (range_runes 0 line) (length line)" using chain_runes[of 0 line] by simp
  from off_loop_spec[OF assms(1) this, of C 0] obtain pre post m where
    h: "range_runes 0 line = pre @ post" "chain 0 pre m" "chain m post (length line)" "off_loop c (length line) (range_runes 0 line) C 0 = int m"
    "cols_from c pre 0 \<le> max C 0"
    "post \<noteq> [] \<longrightarrow> C < cols_from c (pre @ [hd post]) 0 \<or> C = cols_from c pre 0 \<or> C \<le> 0 \<and> pre = []"
    "\<forall>a b. pre = a @ b \<longrightarrow> b \<noteq> [] \<longrightarrow> cols_from c a 0 < C" by blast
  have k: "k = int m" using h(4) by (simp add: assms(3) co_offsetOf_def flip: C_def)
  show "boundary line k" unfolding boundary_split using h(1-3) k by blast
  have ck: "co_colOf c line k = cols_from c pre 0" unfolding k by (rule colOf_split[OF h(1-3)])
  have mono: "cols_from c xs 0 \<le> cols_from c (xs @ b) 0" for xs b using cols_from_mono[OF assms(1)] by (simp add: cols_from_append)
  have "k \<le> off \<and> co_colOf c line k = co_colOf c line off"
  proof (rule two_splits[of pre post pre0 post0 0 m k0])
    show "pre @ post = pre0 @ post0" "chain 0 pre m" "chain 0 pre0 k0" using h(1,2) s(1,2) by simp_all
  next
    fix b
    assume b: "pre = pre0 @ b" "k0 \<le> m"
    have "b = []" using h(7) b(1) C by auto
    then show "k \<le> off \<and> co_colOf c line k = co_colOf c line off"
      using b h(2) s(2,4) k ck C chain_fun[of 0 pre m k0] by (simp flip: C_def)
  next
    fix b
    assume b: "pre0 = pre @ b" "b \<noteq> []" "m < k0"
    then obtain p b1 where p: "b = p # b1" by (cases b) auto
    have post: "post = b @ post0" using h(1) s(1) b(1) by simp
    then have "cols_from c (pre @ [hd post]) 0 \<le> C" using mono[of "pre @ [p]" b1] C b(1) p by simp
    moreover have "cols_from c pre 0 = 0 \<and> C = 0" if "C \<le> 0" "pre = []" using that C0 by simp
    ultimately have "C = cols_from c pre 0" using h(6) post p by fastforce
    then have "co_colOf c line k = co_colOf c line off" using ck by (simp add: C_def)
    moreover have "k \<le> off" using b(3) k s(4) by simp
    ultimately show "k \<le> off \<and> co_colOf c line k = co_colOf c line off" by simp
  qed
  then show "k \<le> off" "co_colOf c line k = co_colOf c line off" by simp_all
  fix b
  assume b: "boundary line b" "b < k"
  obtain preb postb kb where sb: "range_runes 0 line = preb @ postb" "chain 0 preb kb" "chain kb postb (length line)" "b = int kb"
    using b(1) unfolding boundary_split by blast
  have "co_colOf c line b = cols_from c preb 0" unfolding sb(4) by (rule colOf_split[OF sb(1-3)])
  moreover have "\<exists>d. pre = preb @ d \<and> d \<noteq> []"
  proof -
    have "preb @ postb = pre @ post" using sb(1) h(1) by simp
    from two_splits[OF this sb(2) h(2)] show ?thesis using b(2) k sb(4) by (metis of_nat_less_iff not_less)
  qed
  ultimately show "co_colOf c line b < co_colOf c line off" using h(7) by (auto simp flip: C_def)
qed


text \<open>The column of a character's start leads back to the first character start with that column: the character itself
  when no zero-width character comes before it, and in any case one drawn in the same column, never past it. Any column
  leads to a character's start or the end of the line.\<close>

theorem columns_roundtrip:
  assumes "0 < coTab c" "boundary line off"
  shows "let o1 = OffsetOf c line (ColOf c line off)
    in boundary line o1 \<and> o1 \<le> off \<and> ColOf c line o1 = ColOf c line off \<and>
       (\<forall>b. boundary line b \<longrightarrow> b < o1 \<longrightarrow> ColOf c line b < ColOf c line off) \<and> boundary line (OffsetOf c line col)"
proof -
  have "chain 0 (range_runes 0 line) (length line)" using chain_runes[of 0 line] by simp
  from off_loop_spec[OF assms(1) this, of col 0] have "boundary line (co_offsetOf c line col)"
    unfolding boundary_split co_offsetOf_def by metis
  then show ?thesis using offsetOf_colOf[OF assms refl] by (auto simp: ColOf_colOf Let_def)
qed

definition tab2 :: Columns where "tab2 = NewColumns (\<lambda>_. False) 0"

lemma tab2_line: "range_runes 0 [9, 0xE4, 0xB8, 0x96, 97] = [(0, 9, 1), (1, 0x4E16, 3), (4, 97, 1)]"
  by (simp add: range_runes.simps cont_def second_ok_def)

theorem columns_roundtrip_witness: "OffsetOf tab2 [9, 0xE4, 0xB8, 0x96, 97] (ColOf tab2 [9, 0xE4, 0xB8, 0x96, 97] 4) = 4 \<and>
  ColOf tab2 [9, 0xE4, 0xB8, 0x96, 97] 4 = 4"
proof -
  have i: "inRanges 0x4E16 wide"
  proof -
    have "(0x4E00, 0x9FFF) \<in> set wide" by (simp add: wide_def)
    then show ?thesis unfolding inRanges_iff[OF tables_ok(1)] by (intro bexI[of _ "(0x4E00, 0x9FFF)"]) simp_all
  qed
  have b: "boundary [9, 0xE4, 0xB8, 0x96, 97] 4" by (simp add: boundary_def tab2_line)
  have c: "ColOf tab2 [9, 0xE4, 0xB8, 0x96, 97] 4 = 4" "ColOf tab2 [9, 0xE4, 0xB8, 0x96, 97] 1 = 2" "ColOf tab2 [9, 0xE4, 0xB8, 0x96, 97] 0 = 0"
    using i by (simp_all add: ColOf_colOf co_colOf_def tab2_line advance_def tab2_def NewColumns_def TabWidth_def RuneWidth_def)
  let ?o = "OffsetOf tab2 [9, 0xE4, 0xB8, 0x96, 97] (ColOf tab2 [9, 0xE4, 0xB8, 0x96, 97] 4)"
  have "0 < coTab tab2" by (simp add: tab2_def NewColumns_def TabWidth_def)
  from columns_roundtrip[OF this b, of 0] have "boundary [9, 0xE4, 0xB8, 0x96, 97] ?o" "?o \<le> 4" "ColOf tab2 [9, 0xE4, 0xB8, 0x96, 97] ?o = 4"
    by (simp_all add: Let_def c(1))
  then show ?thesis using c by (auto simp: boundary_def tab2_line)
qed


section \<open>Hints\<close>

definition no_zero_width :: "Columns \<Rightarrow> byte list \<Rightarrow> bool" where
  "no_zero_width c line \<longleftrightarrow> (\<forall>(i, r, n) \<in> set (range_runes 0 line). r = 9 \<or> 0 < RuneWidth (coCombining c) r)"

lemma advance_pos: "0 < coTab c \<Longrightarrow> r = 9 \<or> 0 < RuneWidth (coCombining c) r \<Longrightarrow> 0 < advance c r col"
  by (auto simp: advance_def pos_mod_bound)

lemma col_loop_past:
  "0 < coTab c \<Longrightarrow> chain i pre k \<Longrightarrow> int k < b \<Longrightarrow> cols_from c (pre @ [(k, r, n)]) col \<le> col_loop c (pre @ (k, r, n) # rs) b col"
proof (induction c pre col arbitrary: i rule: cols_from.induct)
  case (1 c col)
  then show ?case using col_loop_mono[of c b b "col + advance c r col" rs] by simp
next
  case (2 c j r1 n1 xs col)
  then have "chain (i + n1) xs k" "j = i" "0 < n1" by simp_all
  then show ?case using 2 chain_le[of "i + n1" xs k] by simp
qed

lemma colOf_strict:
  assumes "0 < coTab c" "no_zero_width c line" "boundary line off" "off < b" "b \<le> int (length line)"
  shows "co_colOf c line off < co_colOf c line b"
proof -
  obtain pre post k where s: "range_runes 0 line = pre @ post" "chain 0 pre k" "chain k post (length line)" "off = int k"
    using assms(3) unfolding boundary_split by blast
  have "post \<noteq> []" using s(3,4) assms(4,5) by (cases post) auto
  then obtain r n rs where p: "post = (k, r, n) # rs" using s(3) by (cases post) auto
  have "0 < advance c r x" for x
    using assms(1,2) advance_pos[of c r x] s(1) p by (force simp: no_zero_width_def)
  then have "cols_from c pre 0 < cols_from c (pre @ [(k, r, n)]) 0" by (simp add: cols_from_append)
  also have "\<dots> \<le> co_colOf c line b" unfolding co_colOf_def s(1) p using col_loop_past[OF assms(1) s(2)] assms(4) s(4) by simp
  finally show ?thesis using colOf_split[OF s(1-3), of c] s(4) by simp
qed

lemma hints_before_add: "hints_before hs off (x + y) = x + hints_before hs off y"
  by (induction hs arbitrary: y) (auto simp: add.assoc)

lemma hints_before_none: "\<forall>h \<in> set hs. off \<le> hcOff h \<Longrightarrow> hints_before hs off col = col"
  by (cases hs) auto

lemma hints_before_ge: "\<forall>h \<in> set hs. 0 \<le> hcWidth h \<Longrightarrow> col \<le> hints_before hs off col"
proof (induction hs arbitrary: col)
  case (Cons h hs)
  then show ?case using Cons.IH[of "col + hcWidth h"] by fastforce
qed simp

lemma boundary_le: "boundary line off \<Longrightarrow> 0 \<le> off \<and> off \<le> int (length line)"
  unfolding boundary_split using chain_le by fastforce

lemma offsetOf_exact:
  assumes "0 < coTab c" "no_zero_width c line" "boundary line off"
  shows "co_offsetOf c line (co_colOf c line off) = off"
proof (rule ccontr)
  define k where "k = co_offsetOf c line (co_colOf c line off)"
  note K = offsetOf_colOf[OF assms(1,3) k_def]
  assume "\<not> ?thesis"
  then have "k < off" using K(2) by (simp add: k_def)
  then have "co_colOf c line k < co_colOf c line off"
    using colOf_strict[OF assms(1,2) K(1)] boundary_le[OF assms(3)] by blast
  then show False using K(3) by linarith
qed

lemma hint_walk_back:
  assumes "0 < coTab c" "no_zero_width c line" "boundary line off"
  shows "sorted (map hcOff hs) \<Longrightarrow> \<forall>h \<in> set hs. 0 \<le> hcWidth h \<and> hcOff h \<le> int (length line) \<Longrightarrow>
    hint_walk c line (hints_before hs off (co_colOf c line off + shift)) hs shift = off"
proof (induction hs arbitrary: shift)
  case Nil
  show ?case using offsetOf_exact[OF assms] by simp
next
  case (Cons h hs)
  let ?C = "co_colOf c line off"
  have w: "0 \<le> hcWidth h" "\<forall>h \<in> set hs. 0 \<le> hcWidth h" "hcOff h \<le> int (length line)" using Cons.prems by simp_all
  have IH: "hint_walk c line (hints_before hs off (?C + (shift + x))) hs (shift + x) = off" for x
    using Cons.IH Cons.prems by simp
  consider "off < hcOff h" | "hcOff h = off" | "hcOff h < off" by linarith
  then show ?case
  proof cases
    case 1
    have "?C < co_colOf c line (hcOff h)" by (rule colOf_strict[OF assms 1 w(3)])
    then show ?thesis using 1 offsetOf_exact[OF assms] by simp
  next
    case 2
    then have "\<forall>g \<in> set hs. off \<le> hcOff g" using Cons.prems(1) by simp
    from hints_before_none[OF this] show ?thesis using 2 w(1) IH[of 0] by (simp add: Let_def)
  next
    case 3
    have "co_colOf c line (hcOff h) \<le> ?C" using colOf_mono[OF assms(1)] 3 by simp
    moreover have "?C + shift + hcWidth h \<le> hints_before hs off (?C + shift + hcWidth h)" using hints_before_ge[OF w(2)] .
    ultimately show ?thesis using 3 w(1) IH[of "hcWidth h"] by (simp add: Let_def add.assoc)
  qed
qed


text \<open>C23: with inlay hints drawn between the characters, the column at which a character's caret is drawn leads back to the
  character, whatever hints are before, at or behind it, on a line without zero-width characters.\<close>

theorem hints_roundtrip:
  assumes "0 < coTab c" "no_zero_width c line" "boundary line off" "sorted (map hcOff hints)"
    "\<forall>h \<in> set hints. 0 \<le> hcWidth h \<and> hcOff h \<le> int (length line)"
  shows "OffsetOfHints c line (ColOfHints c line off hints) hints = off"
  using hint_walk_back[OF assms(1-5), of 0] by (simp add: OffsetOfHints_def ColOfHints_def)

theorem hints_roundtrip_witness:
  "OffsetOfHints tab2 [97, 98] (ColOfHints tab2 [97, 98] 1 [\<lparr>hcOff = 1, hcWidth = 5\<rparr>]) [\<lparr>hcOff = 1, hcWidth = 5\<rparr>] = 1"
proof -
  have r: "range_runes 0 [97, 98] = [(0, 97, 1), (1, 98, 1)]" by (simp add: range_runes.simps)
  have "0 < coTab tab2" "no_zero_width tab2 [97, 98]" "boundary [97, 98] 1"
    by (simp_all add: tab2_def NewColumns_def TabWidth_def no_zero_width_def boundary_def r RuneWidth_def)
  from hints_roundtrip[OF this, of "[\<lparr>hcOff = 1, hcWidth = 5\<rparr>]"] show ?thesis by simp
qed

text \<open>The offsets \<open>Expand\<close> gives are one per column, while the renderer reads one per rune drawn: behind a wide rune the two
  part, and the character there is painted as the byte before it.\<close>

lemma expand_per_column: "expand_loop tab2 (range_runes 0 [0xE4, 0xB8, 0x96, 97]) 0 = ([0x4E16, 97], [0, 0, 3])"
proof -
  have "range_runes 0 [0xE4, 0xB8, 0x96, 97] = [(0, 0x4E16, 3), (3, 97, 1)]" by (simp add: range_runes.simps cont_def second_ok_def)
  moreover have "(0x4E00, 0x9FFF) \<in> set wide" by (simp add: wide_def)
  then have "inRanges 0x4E16 wide" unfolding inRanges_iff[OF tables_ok(1)] by (intro bexI[of _ "(0x4E00, 0x9FFF)"]) simp_all
  ultimately show ?thesis
    by (simp add: advance_def tab2_def NewColumns_def TabWidth_def RuneWidth_def Let_def)
qed

end
