(* ===== verification/Wrap.thy ===== *)
theory Wrap
  imports Columns "HOL-Library.Signed_Division"
begin

text \<open>
  Visual rows: the wrap of one line (\<open>internal/view/wrap.go\<close>), and the window that scrolls over the lines
  (\<open>internal/view/viewport.go\<close>). A slice \<open>s[a:b]\<close> is \<open>sub_range a (b - a) s\<close>; the append-only output parameter of the
  single wrap loop is always kept, which \<open>WrapRows\<close> ignores.
\<close>

section \<open>Break policies\<close>

type_synonym BreakPolicy = "nat \<Rightarrow> bool"

definition BreakAnywhere :: BreakPolicy where "BreakAnywhere r = True"

definition BreakOnSpace :: BreakPolicy where "BreakOnSpace r \<longleftrightarrow> r = 32 \<or> r = 9"

text \<open>Space, tab and \<open>/ . , ; : - _ ) ] } > = | & +\<close>.\<close>

definition BreakHybrid :: BreakPolicy where
  "BreakHybrid r \<longleftrightarrow> r \<in> set [32, 9, 47, 46, 44, 59, 58, 45, 95, 41, 93, 125, 62, 61, 124, 38, 43]"

section \<open>The wrap of a line\<close>

definition runeCols :: "Columns \<Rightarrow> nat \<Rightarrow> int \<Rightarrow> int" where
  "runeCols c r col =
     (if r = 9 then let tab = (if coTab c < 1 then 1 else coTab c) in tab - col mod tab
      else RuneWidth (coCombining c) r)"

fun colOf_loop :: "Columns \<Rightarrow> (nat \<times> nat \<times> nat) list \<Rightarrow> int \<Rightarrow> int" where
  "colOf_loop c [] col = col"
| "colOf_loop c ((i, r, n) # rs) col = colOf_loop c rs (col + runeCols c r col)"

definition colOfFrom :: "Columns \<Rightarrow> byte list \<Rightarrow> int \<Rightarrow> int" where
  "colOfFrom c s start = colOf_loop c (range_runes 0 s) start"

record wrap_state =
  wpRows :: int
  wpCol :: int
  wpOppAt :: int
  wpOppCol :: int
  wpOut :: "int list"

text \<open>The inner loop: rows begin until the rune fits, or stands first in its row.\<close>

function wrap_fit :: "Columns \<Rightarrow> byte list \<Rightarrow> int \<Rightarrow> int \<Rightarrow> nat \<Rightarrow> int \<Rightarrow> wrap_state \<Rightarrow> int \<times> wrap_state" where
  "wrap_fit c s w i r rw st =
     (if w < wpCol st + rw \<and> 0 < wpCol st then
        (let (start, col) =
           (if 0 < wpOppAt st \<and> wpOppAt st \<le> i
            then (wpOppAt st, colOfFrom c (sub_range (wpOppAt st) (i - wpOppAt st) s) (wpOppCol st))
            else (i, 0))
         in wrap_fit c s w i r (runeCols c r col)
              (st\<lparr>wpOut := wpOut st @ [start], wpRows := wpRows st + 1, wpOppAt := -1, wpOppCol := 0, wpCol := col\<rparr>))
      else (rw, st))"
  by pat_completeness auto
termination
  by (relation "measure (\<lambda>(c, s, w, i, r, rw, st).
        if wpCol st \<le> 0 then 0 else if 0 < wpOppAt st \<and> wpOppAt st \<le> i then 2 else 1)") (auto split: if_splits)

declare wrap_fit.simps [simp del]

definition wrap_rune :: "Columns \<Rightarrow> byte list \<Rightarrow> int \<Rightarrow> BreakPolicy \<Rightarrow> int \<Rightarrow> nat \<Rightarrow> wrap_state \<Rightarrow> wrap_state" where
  "wrap_rune c s w opp i r st =
     (let (rw, st) = wrap_fit c s w i r (runeCols c r (wpCol st)) st;
          st = st\<lparr>wpCol := wpCol st + rw\<rparr>
      in if opp r then st\<lparr>wpOppAt := i + RuneLen r, wpOppCol := 0\<rparr> else st)"

fun wrap_loop :: "Columns \<Rightarrow> byte list \<Rightarrow> int \<Rightarrow> BreakPolicy \<Rightarrow> (nat \<times> nat \<times> nat) list \<Rightarrow> wrap_state \<Rightarrow> wrap_state" where
  "wrap_loop c s w opp [] st = st"
| "wrap_loop c s w opp ((i, r, n) # rs) st = wrap_loop c s w opp rs (wrap_rune c s w opp (int i) r st)"

definition wrap :: "Columns \<Rightarrow> byte list \<Rightarrow> int \<Rightarrow> BreakPolicy \<Rightarrow> int \<times> int list" where
  "wrap c s w opp =
     (if w < 1 \<or> s = [] then (1, [])
      else let st = wrap_loop c s w opp (range_runes 0 s) \<lparr>wpRows = 1, wpCol = 0, wpOppAt = -1, wpOppCol = 0, wpOut = []\<rparr>
        in (wpRows st, wpOut st))"

definition WrapRows :: "Columns \<Rightarrow> byte list \<Rightarrow> int \<Rightarrow> BreakPolicy \<Rightarrow> int" where
  "WrapRows c s w opp = fst (wrap c s w opp)"

definition AppendWrap :: "Columns \<Rightarrow> int list \<Rightarrow> byte list \<Rightarrow> int \<Rightarrow> BreakPolicy \<Rightarrow> int list" where
  "AppendWrap c dst s w opp = dst @ snd (wrap c s w opp)"

section \<open>Rows of a laid-out line\<close>

fun row_scan :: "int list \<Rightarrow> int \<Rightarrow> int \<Rightarrow> int \<Rightarrow> int \<times> int" where
  "row_scan [] off row start = (row, start)"
| "row_scan (b # bs) off row start = (if off < b then (row, start) else row_scan bs off (row + 1) b)"

definition RowOfBreaks :: "Columns \<Rightarrow> int list \<Rightarrow> byte list \<Rightarrow> int \<Rightarrow> int \<times> int" where
  "RowOfBreaks c breaks s off =
     (let off = (if int (length s) < off then int (length s) else off);
          (row, start) = row_scan breaks off 0 0
      in (row, colOfFrom c (sub_range start (off - start) s) 0))"

definition RowBounds :: "int list \<Rightarrow> int \<Rightarrow> int \<Rightarrow> int \<times> int" where
  "RowBounds breaks len row =
     (let row = (if row < 0 then 0 else row);
          row = (if int (length breaks) < row then int (length breaks) else row);
          lo = (if 0 < row then breaks ! nat (row - 1) else 0);
          hi = (if row < int (length breaks) then breaks ! nat row else len)
      in (lo, hi))"

definition OffsetAtRow :: "Columns \<Rightarrow> int list \<Rightarrow> byte list \<Rightarrow> int \<Rightarrow> int \<Rightarrow> int" where
  "OffsetAtRow c breaks s row col =
     (let (lo, hi) = RowBounds breaks (int (length s)) row in lo + OffsetOf c (sub_range lo (hi - lo) s) col)"

section \<open>The viewport\<close>

record Viewport =
  vpTop :: int
  vpLeft :: int
  vpTopRow :: int
  vpCols :: int
  vpRows :: int
  vpScrollOff :: int

definition clampTop :: "Viewport \<Rightarrow> int \<Rightarrow> Viewport" where
  "clampTop v lines =
     (let mx = (if lines - 1 < 0 then 0 else lines - 1);
          v = (if mx < vpTop v then v\<lparr>vpTop := mx\<rparr> else v)
      in if vpTop v < 0 then v\<lparr>vpTop := 0\<rparr> else v)"

definition Resize :: "Viewport \<Rightarrow> int \<Rightarrow> int \<Rightarrow> int \<Rightarrow> Viewport" where
  "Resize v cols rows lines = clampTop (v\<lparr>vpCols := cols, vpRows := rows\<rparr>) lines"

definition Bottom :: "Viewport \<Rightarrow> int" where
  "Bottom v = vpTop v + vpRows v"

definition Visible :: "Viewport \<Rightarrow> int \<Rightarrow> bool" where
  "Visible v line \<longleftrightarrow> vpTop v \<le> line \<and> line < Bottom v"

definition ScrollTo :: "Viewport \<Rightarrow> int \<Rightarrow> int \<Rightarrow> int \<Rightarrow> Viewport" where
  "ScrollTo v line col lines =
     (let off = vpScrollOff v;
          off = (if 0 < vpRows v \<and> vpRows v \<le> off * 2 then (vpRows v - 1) sdiv 2 else off);
          v = (if line - off < vpTop v then v\<lparr>vpTop := line - off\<rparr>
               else if Bottom v \<le> line + off then v\<lparr>vpTop := line + off - vpRows v + 1\<rparr>
               else v);
          v = clampTop v lines;
          v = (if col < vpLeft v then v\<lparr>vpLeft := col\<rparr>
               else if 0 < vpCols v \<and> vpLeft v + vpCols v \<le> col then v\<lparr>vpLeft := col - vpCols v + 1\<rparr>
               else v)
      in if vpLeft v < 0 then v\<lparr>vpLeft := 0\<rparr> else v)"

definition Center :: "Viewport \<Rightarrow> int \<Rightarrow> int \<Rightarrow> Viewport" where
  "Center v line lines = clampTop (v\<lparr>vpTop := line - vpRows v sdiv 2\<rparr>) lines"

definition ScrollBy :: "Viewport \<Rightarrow> int \<Rightarrow> int \<Rightarrow> Viewport" where
  "ScrollBy v delta lines = clampTop (v\<lparr>vpTop := vpTop v + delta\<rparr>) lines"

text \<open>
  Laws of the wrap: the runes of a slice between two characters, the rows a line is cut into, and the invariant of the
  wrap loop.
\<close>

section \<open>Runes of a slice\<close>

lemma DecodeRune_take:
  assumes "DecodeRune bs = (r, n)" "n \<le> k" "bs \<noteq> []" "0 < k"
  shows "DecodeRune (take k bs) = (r, n)"
proof -
  obtain b xs where bs: "bs = b # xs" using assms(3) by (cases bs) auto
  obtain j where k: "k = Suc j" using assms(4) by (cases k) auto
  show ?thesis using assms(1,2) unfolding bs k
    by (cases xs; cases "tl xs"; cases "tl (tl xs)"; cases j; cases "j - 1"; cases "j - 2")
      (auto simp: Let_def split: if_splits list.splits)
qed

lemma range_runes_take:
  "range_runes i bs = xs @ ys \<Longrightarrow> chain i xs (i + k) \<Longrightarrow> range_runes i (take k bs) = xs"
proof (induction xs arbitrary: i bs k)
  case (Cons p xs)
  obtain j r n where p: "p = (j, r, n)" by (cases p)
  have ne: "bs \<noteq> []" using Cons.prems(1) by auto
  obtain r1 n1 where d: "DecodeRune bs = (r1, n1)" by fastforce
  then have h: "j = i" "r1 = r" "n1 = n" "range_runes (i + n) (drop n bs) = xs @ ys"
    using Cons.prems(1) ne by (auto simp: p range_runes.simps[of i bs])
  have c: "0 < n" "chain (i + n) xs (i + k)" using Cons.prems(2) p by simp_all
  then have nk: "n \<le> k" using chain_le by fastforce
  have "range_runes (i + n) (take (k - n) (drop n bs)) = xs" using Cons.IH[OF h(4), of "k - n"] c(2) nk by simp
  moreover have "DecodeRune (take k bs) = (r, n)" using DecodeRune_take[of bs r n k] d h ne nk c(1) by simp
  moreover have "take k bs \<noteq> []" using ne nk c(1) by simp
  ultimately show ?case using h(1) p by (simp add: range_runes.simps[of i "take k bs"] drop_take)
qed simp

lemma range_runes_drop:
  "range_runes i bs = xs @ ys \<Longrightarrow> chain i xs (i + k) \<Longrightarrow> range_runes (i + k) (drop k bs) = ys"
proof (induction xs arbitrary: i bs k)
  case (Cons p xs)
  obtain j r n where p: "p = (j, r, n)" by (cases p)
  have ne: "bs \<noteq> []" using Cons.prems(1) by auto
  obtain r1 n1 where d: "DecodeRune bs = (r1, n1)" by fastforce
  then have h: "j = i" "n1 = n" "range_runes (i + n) (drop n bs) = xs @ ys"
    using Cons.prems(1) ne by (auto simp: p range_runes.simps[of i bs])
  have c: "chain (i + n) xs (i + n + (k - n))" "n \<le> k" using Cons.prems(2) p chain_le by fastforce+
  from Cons.IH[OF h(3) c(1)] show ?case using c(2) by simp
qed simp

lemma chain_shift: "chain (i + a) (map (\<lambda>(o1, r, n). (o1 + a, r, n)) rs) (e + a) = chain i rs e"
proof (induction rs arbitrary: i)
  case (Cons p rs)
  obtain j r n where p: "p = (j, r, n)" by (cases p)
  show ?case using Cons.IH[of "i + n"] by (auto simp: p ac_simps)
qed simp

text \<open>The runes between two character positions of a line are those of the slice, at shifted offsets.\<close>

lemma runes_slice:
  assumes "range_runes 0 s = pre @ mid @ post" "chain 0 pre a" "chain a mid b"
  shows "mid = map (\<lambda>(o1, r, n). (o1 + a, r, n)) (range_runes 0 (sub_range (int a) (int b - int a) s))"
proof -
  have ab: "a \<le> b" using assms(3) chain_le by blast
  have "range_runes a (drop a s) = mid @ post" using range_runes_drop[of 0 s pre "mid @ post" a] assms(1,2) by simp
  from range_runes_take[OF this, of "b - a"] have "range_runes a (take (b - a) (drop a s)) = mid" using assms(3) ab by simp
  then show ?thesis using range_shift[of 0 a "take (b - a) (drop a s)"] ab by (simp add: sub_range_def nat_diff_distrib)
qed


section \<open>Columns of a row\<close>

lemma RuneWidth_nonneg: "0 \<le> RuneWidth comb r"
  by (simp add: RuneWidth_def)

lemma runeCols_advance: "0 < coTab c \<Longrightarrow> runeCols c r col = advance c r col"
  using RuneWidth_nonneg[of "coCombining c" r] by (auto simp: runeCols_def advance_def Let_def)

lemma colOf_loop_cols: "0 < coTab c \<Longrightarrow> colOf_loop c rs col = cols_from c rs col"
  by (induction c rs col rule: colOf_loop.induct) (simp_all add: runeCols_advance)

lemma cols_from_shift: "cols_from c (map (\<lambda>(o1, r, n). (o1 + a, r, n)) rs) col = cols_from c rs col"
  by (induction rs arbitrary: col) auto

lemma colOfFrom_slice:
  assumes "0 < coTab c" "range_runes 0 s = pre @ mid @ post" "chain 0 pre a" "chain a mid b"
  shows "colOfFrom c (sub_range (int a) (int b - int a) s) col = cols_from c mid col"
  unfolding runes_slice[OF assms(2-4)] cols_from_shift colOfFrom_def by (rule colOf_loop_cols[OF assms(1)])

text \<open>What a row may hold: it fits the width, or at most one of its characters takes any column.\<close>

definition shows_col :: "Columns \<Rightarrow> nat \<times> nat \<times> nat \<Rightarrow> bool" where
  "shows_col c p = (case p of (i, r, n) \<Rightarrow> r = 9 \<or> 0 < RuneWidth (coCombining c) r)"

definition row_fits :: "Columns \<Rightarrow> int \<Rightarrow> (nat \<times> nat \<times> nat) list \<Rightarrow> bool" where
  "row_fits c w rs \<longleftrightarrow> cols_from c rs 0 \<le> w \<or> length (filter (shows_col c) rs) \<le> 1"

lemma row_fits_prefix: "0 < coTab c \<Longrightarrow> row_fits c w (xs @ ys) \<Longrightarrow> row_fits c w xs"
  unfolding row_fits_def cols_from_append using cols_from_mono[of c "cols_from c xs 0" ys] by auto

lemma advance_shows: "0 < coTab c \<Longrightarrow> 0 < advance c r col \<longleftrightarrow> shows_col c (i, r, n)"
  using RuneWidth_nonneg[of "coCombining c" r] pos_mod_bound[of "coTab c" col] by (auto simp: advance_def shows_col_def)

lemma no_cols: "0 < coTab c \<Longrightarrow> cols_from c rs 0 \<le> 0 \<Longrightarrow> filter (shows_col c) rs = []"
proof (induction rs)
  case (Cons p rs)
  obtain i r n where p: "p = (i, r, n)" by (cases p)
  have "advance c r 0 \<le> cols_from c rs (advance c r 0)" by (rule cols_from_mono[OF Cons.prems(1)])
  then have "advance c r 0 = 0" using Cons.prems p advance_nonneg[OF Cons.prems(1), of r 0] by simp
  then show ?case using Cons p advance_shows[OF Cons.prems(1), of r 0 i n] by simp
qed simp

lemma row_fits_snoc:
  assumes "0 < coTab c" "row_fits c w rs" "cols_from c rs 0 + advance c r (cols_from c rs 0) \<le> w \<or> cols_from c rs 0 \<le> 0"
  shows "row_fits c w (rs @ [(i, r, n)])"
  using assms no_cols[OF assms(1)] by (auto simp: row_fits_def cols_from_append)

section \<open>The layout\<close>

text \<open>One row of a line, between two character positions; and the rows up to a position, by the breaks that end them.\<close>

definition wrap_row_at :: "Columns \<Rightarrow> int \<Rightarrow> byte list \<Rightarrow> int \<Rightarrow> int \<Rightarrow> bool" where
  "wrap_row_at c w s lo hi \<longleftrightarrow> (\<exists>pre row post a b. lo = int a \<and> hi = int b \<and> range_runes 0 s = pre @ row @ post \<and>
     chain 0 pre a \<and> chain a row b \<and> row \<noteq> [] \<and> row_fits c w row)"

fun laid :: "Columns \<Rightarrow> int \<Rightarrow> byte list \<Rightarrow> int \<Rightarrow> int list \<Rightarrow> int \<Rightarrow> bool" where
  "laid c w s lo [] e \<longleftrightarrow> lo = e"
| "laid c w s lo (b # bs) e \<longleftrightarrow> wrap_row_at c w s lo b \<and> laid c w s b bs e"

lemma laid_snoc: "laid c w s lo bs e \<Longrightarrow> wrap_row_at c w s e e1 \<Longrightarrow> laid c w s lo (bs @ [e1]) e1"
  by (induction c w s lo bs e rule: laid.induct) auto

lemma laid_nth: "laid c w s lo bs e \<Longrightarrow> k < length bs \<Longrightarrow> wrap_row_at c w s ((lo # bs) ! k) (bs ! k)"
  by (induction c w s lo bs e arbitrary: k rule: laid.induct) (auto simp: less_Suc_eq_0_disj)

section \<open>The invariant of the loop\<close>

text \<open>The position reached, the runes of the current row, and the last place in it where it may be broken.\<close>

definition wrap_row :: "Columns \<Rightarrow> int \<Rightarrow> byte list \<Rightarrow> nat \<Rightarrow> (nat \<times> nat \<times> nat) list \<Rightarrow> wrap_state \<Rightarrow>
    (nat \<times> nat \<times> nat) list \<Rightarrow> nat \<Rightarrow> bool" where
  "wrap_row c w s i rest st row b \<longleftrightarrow> (\<exists>pre. range_runes 0 s = pre @ row @ rest \<and> chain 0 pre b \<and> chain b row i) \<and>
     wpCol st = cols_from c row 0 \<and> row_fits c w row \<and> laid c w s 0 (wpOut st) (int b) \<and>
     wpRows st = 1 + int (length (wpOut st)) \<and>
     (0 < wpOppAt st \<longrightarrow> wpOppCol st = 0 \<and>
       (\<exists>r1 r2 k. row = r1 @ r2 \<and> r1 \<noteq> [] \<and> chain b r1 k \<and> chain k r2 i \<and> wpOppAt st = int k))"

lemma wrap_break:
  assumes "0 < coTab c" "wrap_row c w s i rest st row b" "row = r1 @ r2" "r1 \<noteq> []" "chain b r1 k" "chain k r2 i"
    "col = cols_from c r2 0" "row_fits c w r2"
  shows "wrap_row c w s i rest (st\<lparr>wpOut := wpOut st @ [int k], wpRows := wpRows st + 1, wpOppAt := -1, wpOppCol := 0, wpCol := col\<rparr>) r2 k"
proof -
  obtain pre where p: "range_runes 0 s = pre @ row @ rest" "chain 0 pre b" "chain b row i"
    using assms(2) by (auto simp: wrap_row_def)
  have "row_fits c w r1" using assms(2,3) row_fits_prefix[OF assms(1)] by (auto simp: wrap_row_def)
  then have "wrap_row_at c w s (int b) (int k)" unfolding wrap_row_at_def using p assms(3-6)
    by (intro exI[of _ pre] exI[of _ r1] exI[of _ "r2 @ rest"] exI[of _ b] exI[of _ k]) simp
  then have "laid c w s 0 (wpOut st @ [int k]) (int k)" using assms(2) laid_snoc by (auto simp: wrap_row_def)
  moreover have "chain 0 (pre @ r1) k" using p(2) assms(5) chain_append by blast
  ultimately show ?thesis using p assms by (auto simp: wrap_row_def intro!: exI[of _ "pre @ r1"])
qed

text \<open>A later start reaches no earlier column, so the part of a row behind a break fits where the row did.\<close>

lemma advance_mono: "0 < coTab c \<Longrightarrow> x \<le> y \<Longrightarrow> x + advance c r x \<le> y + advance c r y"
proof -
  assume t: "0 < coTab c" "x \<le> y"
  have "x - x mod coTab c \<le> y - y mod coTab c"
    using zdiv_mono1[OF t(2,1)] t(1) by (simp add: minus_mod_eq_mult_div)
  then show ?thesis using t by (simp add: advance_def)
qed

lemma cols_from_start: "0 < coTab c \<Longrightarrow> x \<le> y \<Longrightarrow> cols_from c rs x \<le> cols_from c rs y"
proof (induction rs arbitrary: x y)
  case (Cons p rs)
  obtain i r n where p: "p = (i, r, n)" by (cases p)
  show ?case using Cons.IH[OF Cons.prems(1) advance_mono[OF Cons.prems]] by (simp add: p)
qed simp

lemma row_fits_suffix: "0 < coTab c \<Longrightarrow> row_fits c w (xs @ ys) \<Longrightarrow> row_fits c w ys"
  unfolding row_fits_def cols_from_append
  using cols_from_start[of c 0 "cols_from c xs 0" ys] cols_from_mono[of c 0 xs] by auto

lemma row_fits_Nil [simp]: "row_fits c w []"
  by (simp add: row_fits_def)

lemma wrap_fit_row:
  "0 < coTab c \<Longrightarrow> wrap_row c w s j rest st row b \<Longrightarrow> i = int j \<Longrightarrow> rw = advance c r (wpCol st) \<Longrightarrow>
    wrap_fit c s w i r rw st = (rw1, st1) \<Longrightarrow>
    (\<exists>row1 b1. wrap_row c w s j rest st1 row1 b1) \<and> rw1 = advance c r (wpCol st1) \<and> (wpCol st1 + rw1 \<le> w \<or> wpCol st1 \<le> 0)"
proof (induction c s w i r rw st arbitrary: row b rule: wrap_fit.induct)
  case (1 c s w i r rw st)
  note tab = "1.prems"(1)
  obtain pre where p: "range_runes 0 s = pre @ row @ rest" "chain 0 pre b" "chain b row j"
    and inv: "wpCol st = cols_from c row 0" "row_fits c w row"
    using "1.prems"(2) by (auto simp: wrap_row_def)
  show ?case
  proof (cases "w < wpCol st + rw \<and> 0 < wpCol st")
    case False
    then have "(rw1, st1) = (rw, st)" using "1.prems"(5) by (subst (asm) wrap_fit.simps) (simp split: if_splits)
    then show ?thesis using 1 False by auto
  next
    case True
    show ?thesis
    proof (cases "0 < wpOppAt st \<and> wpOppAt st \<le> i")
      case opp: True
      then obtain r1 r2 k where o1: "row = r1 @ r2" "r1 \<noteq> []" "chain b r1 k" "chain k r2 j" "wpOppAt st = int k" "wpOppCol st = 0"
        using "1.prems"(2) by (auto simp: wrap_row_def)
      have "chain 0 (pre @ r1) k" using p(2) o1(3) chain_append by blast
      then have col: "colOfFrom c (sub_range (wpOppAt st) (i - wpOppAt st) s) (wpOppCol st) = cols_from c r2 0"
        using colOfFrom_slice[of c s "pre @ r1" r2 rest k j 0] o1 p(1) "1.prems"(3) tab by simp
      have "row_fits c w r2" using row_fits_suffix[OF tab] inv(2) o1(1) by simp
      note W = wrap_break[OF tab "1.prems"(2) o1(1-4) refl this]
      show ?thesis
        by (rule "1.IH"[OF True _ _ tab W "1.prems"(3)])
          (use opp col o1 "1.prems"(5) True in \<open>simp_all add: wrap_fit.simps[of c s w i r rw st] runeCols_advance[OF tab]\<close>)
    next
      case False
      have "row \<noteq> []" using inv(1) True by auto
      note W = wrap_break[OF tab "1.prems"(2) _ this p(3), of "[]", simplified]
      show ?thesis
        by (rule "1.IH"[OF True _ _ tab W "1.prems"(3)])
          (use False "1.prems"(3,5) True in \<open>auto simp: wrap_fit.simps[of c s w "int j" r rw st] runeCols_advance[OF tab]\<close>)
    qed
  qed
qed

section \<open>The loop\<close>

lemma DecodeRune_len: "DecodeRune bs = (r, n) \<Longrightarrow> bs \<noteq> [] \<Longrightarrow> r \<noteq> RuneError \<Longrightarrow> RuneLen r = int n"
proof -
  assume d: "DecodeRune bs = (r, n)" "bs \<noteq> []" "r \<noteq> RuneError"
  have "scalar r \<and> take n bs = EncodeRune r" by (rule encode_decode[OF d(1,2)]) (use d(3) in simp)
  moreover have "length (take n bs) = n" using DecodeRune_size[OF d(1)] by simp
  moreover have "scalar r \<Longrightarrow> int (length (EncodeRune r)) = RuneLen r" by (simp add: EncodeRune_def RuneLen_def Let_def)
  ultimately show ?thesis by simp
qed

lemma range_runes_len: "(j, r, n) \<in> set (range_runes i bs) \<Longrightarrow> r \<noteq> RuneError \<Longrightarrow> RuneLen r = int n"
proof (induction i bs rule: range_runes.induct)
  case (1 i bs)
  then have ne: "bs \<noteq> []" by auto
  obtain r1 n1 where d: "DecodeRune bs = (r1, n1)" by fastforce
  show ?case using 1 ne d DecodeRune_len[of bs r n] by (auto simp: range_runes.simps[of i bs])
qed

lemma wrap_rune_row:
  assumes "0 < coTab c" "\<not> opp RuneError" "wrap_row c w s j ((i, r, n) # rest) st row b"
  shows "\<exists>row1 b1. wrap_row c w s (j + n) rest (wrap_rune c s w opp (int j) r st) row1 b1 \<and> row1 \<noteq> []"
proof -
  obtain rw1 st1 where f: "wrap_fit c s w (int j) r (advance c r (wpCol st)) st = (rw1, st1)" by fastforce
  from wrap_fit_row[OF assms(1,3) refl refl f] obtain row1 b1 where
    W: "wrap_row c w s j ((i, r, n) # rest) st1 row1 b1" "rw1 = advance c r (wpCol st1)" "wpCol st1 + rw1 \<le> w \<or> wpCol st1 \<le> 0" by blast
  then obtain pre where p: "range_runes 0 s = pre @ row1 @ (i, r, n) # rest" "chain 0 pre b1" "chain b1 row1 j"
    by (auto simp: wrap_row_def)
  have "chain 0 (range_runes 0 s) (length s)" using chain_runes[of 0 s] by simp
  then have n: "i = j" "0 < n" using p by (auto simp: chain_append dest: chain_fun)
  have len: "opp r \<Longrightarrow> RuneLen r = int n" using range_runes_len[of i r n 0 s] p(1) assms(2) by auto
  let ?row = "row1 @ [(j, r, n)]"
  have c: "chain b1 ?row (j + n)" using p(3) n by (auto simp: chain_append)
  have fits: "row_fits c w ?row" using row_fits_snoc[OF assms(1)] W by (simp add: wrap_row_def)
  have old: "\<exists>r1 r2 k. ?row = r1 @ r2 \<and> r1 \<noteq> [] \<and> chain b1 r1 k \<and> chain k r2 (j + n) \<and> wpOppAt st1 = int k" if opp: "0 < wpOppAt st1"
  proof -
    obtain r1 r2 k where "row1 = r1 @ r2" "r1 \<noteq> []" "chain b1 r1 k" "chain k r2 j" "wpOppAt st1 = int k"
      using W(1) opp by (auto simp: wrap_row_def)
    then show ?thesis using n by (intro exI[of _ r1] exI[of _ "r2 @ [(j, r, n)]"] exI[of _ k]) (auto simp: chain_append)
  qed
  have new: "\<exists>r1 r2 k. ?row = r1 @ r2 \<and> r1 \<noteq> [] \<and> chain b1 r1 k \<and> chain k r2 (j + n) \<and> int (j + n) = int k"
    using c by (intro exI[of _ ?row] exI[of _ "[]"] exI[of _ "j + n"]) simp
  have "wrap_row c w s (j + n) rest (wrap_rune c s w opp (int j) r st) ?row b1"
    using W(1,2) p n c fits old new len
    by (auto simp: wrap_row_def wrap_rune_def runeCols_advance[OF assms(1)] f Let_def cols_from_append intro!: exI[of _ pre])
  then show ?thesis by blast
qed

lemma wrap_loop_row:
  assumes "0 < coTab c" "\<not> opp RuneError"
  shows "wrap_row c w s j rest st row b \<Longrightarrow> row \<noteq> [] \<or> rest \<noteq> [] \<Longrightarrow> chain j rest (length s) \<Longrightarrow>
    \<exists>row1 b1. wrap_row c w s (length s) [] (wrap_loop c s w opp rest st) row1 b1 \<and> row1 \<noteq> []"
proof (induction rest arbitrary: j st row b)
  case (Cons p rest)
  obtain i r n where p: "p = (i, r, n)" by (cases p)
  then have j: "i = j" "chain (j + n) rest (length s)" using Cons.prems(3) by simp_all
  from wrap_rune_row[where opp = opp, OF assms, of w s j i r n rest st row b] obtain row1 b1 where
    "wrap_row c w s (j + n) rest (wrap_rune c s w opp (int j) r st) row1 b1" "row1 \<noteq> []" using Cons.prems(1) p by blast
  from Cons.IH[OF this(1) _ j(2)] this(2) show ?case using p j(1) by simp
qed auto

text \<open>The breaks of a line, with its end, cut it into rows.\<close>

lemma wrap_laid:
  assumes "0 < coTab c" "\<not> opp RuneError" "1 \<le> w" "s \<noteq> []"
  shows "laid c w s 0 (AppendWrap c [] s w opp @ [int (length s)]) (int (length s))"
    "WrapRows c s w opp = int (length (AppendWrap c [] s w opp)) + 1"
proof -
  let ?st = "\<lparr>wpRows = 1, wpCol = 0, wpOppAt = -1, wpOppCol = 0, wpOut = []\<rparr>"
  have ne: "range_runes 0 s \<noteq> []" using assms(4) by (subst range_runes.simps) (auto split: prod.splits)
  have ch: "chain 0 (range_runes 0 s) (length s)" using chain_runes[of 0 s] by simp
  have "wrap_row c w s 0 (range_runes 0 s) ?st [] 0" by (auto simp: wrap_row_def)
  from wrap_loop_row[where opp = opp, OF assms(1,2) this _ ch] ne obtain row b where
    W: "wrap_row c w s (length s) [] (wrap_loop c s w opp (range_runes 0 s) ?st) row b" "row \<noteq> []" by blast
  then obtain pre where "range_runes 0 s = pre @ row" "chain 0 pre b" "chain b row (length s)" "row_fits c w row"
    by (auto simp: wrap_row_def)
  then have "wrap_row_at c w s (int b) (int (length s))" unfolding wrap_row_at_def using W(2)
    by (intro exI[of _ pre] exI[of _ row] exI[of _ "[]"] exI[of _ b] exI[of _ "length s"]) simp
  then show "laid c w s 0 (AppendWrap c [] s w opp @ [int (length s)]) (int (length s))"
    using W(1) assms(3,4) laid_snoc by (auto simp: wrap_row_def AppendWrap_def wrap_def Let_def)
  show "WrapRows c s w opp = int (length (AppendWrap c [] s w opp)) + 1"
    using W(1) assms(3,4) by (auto simp: wrap_row_def WrapRows_def AppendWrap_def wrap_def Let_def)
qed

end
