(* ===== verification/WrapProps.thy ===== *)
theory WrapProps
  imports ViewProps Wrap
begin

text \<open>
  Properties of visual rows: how a line is cut, how the caret's row and column lead back to it, and what the viewport
  promises when it scrolls.
\<close>

section \<open>The rows of a line\<close>

lemma row_bounds_at:
  assumes "laid c w s 0 (breaks @ [int (length s)]) e" "0 \<le> k" "k \<le> int (length breaks)" "RowBounds breaks (int (length s)) k = (lo, hi)"
  shows "wrap_row_at c w s lo hi"
proof -
  have "lo = (0 # breaks @ [int (length s)]) ! nat k" "hi = (breaks @ [int (length s)]) ! nat k"
    using assms(2-4) by (auto simp: RowBounds_def Let_def nth_Cons nth_append nat_diff_distrib split: nat.splits if_splits)
  then show ?thesis using laid_nth[OF assms(1), of "nat k"] assms(2,3) by simp
qed

lemma row_at_slice:
  assumes "0 < coTab c" "wrap_row_at c w s lo hi"
  shows "0 \<le> lo" "lo < hi" "hi \<le> int (length s)" "boundary s lo" "boundary s hi"
    "colOfFrom c (sub_range lo (hi - lo) s) 0 \<le> w \<or> length (filter (shows_col c) (range_runes 0 (sub_range lo (hi - lo) s))) \<le> 1"
proof -
  obtain pre row post a b where r: "lo = int a" "hi = int b" "range_runes 0 s = pre @ row @ post" "chain 0 pre a" "chain a row b"
      "row \<noteq> []" "row_fits c w row" using assms(2) by (auto simp: wrap_row_at_def)
  have ch: "chain 0 (range_runes 0 s) (length s)" using chain_runes[of 0 s] by simp
  then have post: "chain b post (length s)" using r(3-5) chain_fun by (auto simp: chain_append) (metis chain_fun)
  have pr: "chain 0 (pre @ row) b" using r(4,5) chain_append by blast
  show "0 \<le> lo" "lo < hi" "hi \<le> int (length s)" using r(1,2) chain_less[OF r(5,6)] chain_le[OF post] by simp_all
  show "boundary s lo" unfolding boundary_split using r(1,3,4,5) post by (metis chain_append)
  show "boundary s hi" unfolding boundary_split using r(2,3) pr post by (metis append.assoc)
  have "length (filter (shows_col c) row) = length (filter (shows_col c) (range_runes 0 (sub_range lo (hi - lo) s)))"
    using arg_cong[OF runes_slice[OF r(3-5)], of "\<lambda>rs. length (filter (shows_col c) rs)"] r(1,2)
    by (simp add: filter_map o_def shows_col_def[abs_def] case_prod_unfold)
  then show "colOfFrom c (sub_range lo (hi - lo) s) 0 \<le> w \<or>
      length (filter (shows_col c) (range_runes 0 (sub_range lo (hi - lo) s))) \<le> 1"
    using r(7) colOfFrom_slice[OF assms(1) r(3-5), of 0] r(1,2) by (simp add: row_fits_def)
qed



section \<open>Caret rows\<close>

lemma row_scan_spec:
  "start \<le> off \<Longrightarrow> row_scan bs off row start = (k, lo) \<Longrightarrow>
    row \<le> k \<and> k \<le> row + int (length bs) \<and> lo = (start # bs) ! nat (k - row) \<and> lo \<le> off \<and>
    (k < row + int (length bs) \<longrightarrow> off < bs ! nat (k - row))"
proof (induction bs off row start rule: row_scan.induct)
  case (2 b bs off row start)
  show ?case
  proof (cases "off < b")
    case False
    then have IH: "row + 1 \<le> k \<and> k \<le> row + 1 + int (length bs) \<and> lo = (b # bs) ! nat (k - (row + 1)) \<and> lo \<le> off \<and>
        (k < row + 1 + int (length bs) \<longrightarrow> off < bs ! nat (k - (row + 1)))" using 2 by simp
    then have "nat (k - row) = Suc (nat (k - (row + 1)))" by linarith
    then show ?thesis using IH by simp
  qed (use 2 in auto)
qed auto

lemma row_split:
  assumes "wrap_row_at c w s lo hi" "boundary s off" "lo \<le> off" "off \<le> hi"
  obtains pre r1 r2 post a m b where "lo = int a" "off = int m" "hi = int b" "range_runes 0 s = pre @ (r1 @ r2) @ post"
    "chain 0 pre a" "chain a r1 m" "chain m r2 b"
proof -
  obtain pre row post a b where r: "lo = int a" "hi = int b" "range_runes 0 s = pre @ row @ post" "chain 0 pre a" "chain a row b"
    using assms(1) by (auto simp: wrap_row_at_def)
  obtain pre0 post0 m where q: "range_runes 0 s = pre0 @ post0" "chain 0 pre0 m" "off = int m"
    using assms(2) unfolding boundary_split by blast
  have pr: "chain 0 (pre @ row) b" using r(4,5) chain_append by blast
  obtain b0 where b0: "pre @ row = pre0 @ b0"
  proof (rule two_splits[OF _ pr q(2), of post post0])
    show "(pre @ row) @ post = pre0 @ post0" using r(3) q(1) by simp
  next
    fix us
    assume "pre0 = (pre @ row) @ us" "us \<noteq> []" "b < m"
    then show thesis using assms(4) r(2) q(3) by simp
  qed blast
  obtain r1 where r1: "pre0 = pre @ r1"
  proof (rule two_splits[OF _ q(2) r(4), of b0 row])
    show "pre0 @ b0 = pre @ row" using b0 by simp
  next
    fix us
    assume "pre = pre0 @ us" "us \<noteq> []" "m < a"
    then show thesis using assms(3) r(1) q(3) by simp
  qed blast
  then have row: "row = r1 @ b0" using b0 by simp
  have "chain a r1 m" using q(2) r(4) chain_fun unfolding r1 chain_append by metis
  moreover from this have "chain m b0 b" using r(5) chain_fun unfolding row chain_append by metis
  ultimately show thesis using that[OF r(1) q(3) r(2) _ r(4)] r(3) row by simp
qed

text \<open>Within a row, the column of a character position leads back to it.\<close>

lemma row_column_back:
  assumes "0 < coTab c" "no_zero_width c s" "wrap_row_at c w s lo hi" "boundary s off" "lo \<le> off" "off \<le> hi"
  shows "lo + co_offsetOf c (sub_range lo (hi - lo) s) (colOfFrom c (sub_range lo (off - lo) s) 0) = off"
proof -
  obtain pre r1 r2 post a m b where r: "lo = int a" "off = int m" "hi = int b"
    "range_runes 0 s = pre @ (r1 @ r2) @ post" "chain 0 pre a" "chain a r1 m" "chain m r2 b"
    by (rule row_split[OF assms(3-6)])
  let ?L = "sub_range lo (hi - lo) s"
  have am: "a \<le> m" "m \<le> b" using chain_le[OF r(6)] chain_le[OF r(7)] by simp_all
  have "chain a (r1 @ r2) b" using r(6,7) chain_append by blast
  note S = runes_slice[OF r(4,5) this, folded r(1,3)]
  then obtain x1 x2 where x: "range_runes 0 ?L = x1 @ x2" "r1 = map (\<lambda>(o1, r, n). (o1 + a, r, n)) x1"
    "r2 = map (\<lambda>(o1, r, n). (o1 + a, r, n)) x2" by (auto simp: append_eq_map_conv)
  have x1: "chain 0 x1 (m - a)" using chain_shift[of 0 a x1 "m - a"] r(6) x(2) am by simp
  have x2: "chain (m - a) x2 (length ?L)"
  proof -
    have "chain 0 (x1 @ x2) (length ?L)" using chain_runes[of 0 ?L] x(1) by simp
    then show ?thesis using x1 chain_fun unfolding chain_append by metis
  qed
  have "colOfFrom c (sub_range lo (off - lo) s) 0 = cols_from c r1 0"
    using colOfFrom_slice[of c s pre r1 "r2 @ post" a m 0] assms(1) r by simp
  also have "\<dots> = co_colOf c ?L (int (m - a))" unfolding x(2) cols_from_shift by (rule colOf_split[OF x(1) x1 x2, symmetric])
  finally have col: "colOfFrom c (sub_range lo (off - lo) s) 0 = co_colOf c ?L (off - lo)" using r(1,2) am by simp
  have "no_zero_width c ?L" using assms(2) r(4) S by (fastforce simp: no_zero_width_def)
  moreover have "boundary ?L (off - lo)" unfolding boundary_split using x(1) x1 x2 r(1,2) am
    by (intro exI[of _ x1] exI[of _ x2] exI[of _ "m - a"]) simp
  ultimately show ?thesis using offsetOf_exact[OF assms(1)] col by simp
qed

text \<open>C25: the row and the column at which the caret is drawn on a wrapped line lead back to its offset, on a line without
  zero-width characters.\<close>

theorem row_roundtrip:
  assumes "0 < coTab c" "no_zero_width c s" "\<not> opp RuneError" "1 \<le> w" "boundary s off" "breaks = AppendWrap c [] s w opp"
    "RowOfBreaks c breaks s off = (row, col)"
  shows "OffsetAtRow c breaks s row col = off"
proof (cases "s = []")
  case True
  then show ?thesis using assms(5-7)
    by (auto simp: AppendWrap_def wrap_def RowOfBreaks_def OffsetAtRow_def RowBounds_def boundary_def ColOf_colOf co_offsetOf_def Let_def)
next
  case False
  note L = wrap_laid[where opp = opp, OF assms(1,3,4) False]
  have b: "0 \<le> off" "off \<le> int (length s)" using boundary_le[OF assms(5)] by simp_all
  obtain lo where scan: "row_scan breaks off 0 0 = (row, lo)" "col = colOfFrom c (sub_range lo (off - lo) s) 0"
    using assms(7) b by (auto simp: RowOfBreaks_def Let_def split: prod.splits)
  note K = row_scan_spec[OF b(1) scan(1)]
  define hi where "hi = (if row < int (length breaks) then breaks ! nat row else int (length s))"
  have "lo = (if 0 < row then breaks ! nat (row - 1) else 0)" using K by (simp add: nth_Cons' nat_diff_distrib)
  then have hi: "RowBounds breaks (int (length s)) row = (lo, hi)" "off \<le> hi"
    using K b by (auto simp: RowBounds_def Let_def hi_def)
  have "wrap_row_at c w s lo hi" by (rule row_bounds_at[OF L(1)[folded assms(6)] _ _ hi(1)]) (use K in simp_all)
  from row_column_back[OF assms(1,2) this assms(5) _ hi(2)] K show ?thesis
    by (simp add: OffsetAtRow_def hi(1) ColOf_colOf scan(2))
qed

theorem row_roundtrip_witness:
  "OffsetAtRow tab2 [3] [97, 98, 32, 99, 100] 1 1 = 4"
proof -
  let ?s = "[97, 98, 32, 99, 100] :: byte list"
  have r: "range_runes 0 ?s = [(0, 97, 1), (1, 98, 1), (2, 32, 1), (3, 99, 1), (4, 100, 1)]" by (simp add: range_runes.simps)
  have t: "0 < coTab tab2" "no_zero_width tab2 ?s" "\<not> BreakHybrid RuneError" "1 \<le> (3 :: int)" "boundary ?s 4"
    by (simp_all add: tab2_def NewColumns_def TabWidth_def BreakHybrid_def RuneError_def no_zero_width_def boundary_def r RuneWidth_def)
  have "wrap tab2 ?s 3 BreakHybrid = (2, [3])"
    by (simp add: wrap_def r wrap_rune_def wrap_fit.simps runeCols_def RuneWidth_def BreakHybrid_def RuneLen_def scalar_def Let_def)
      (simp add: colOfFrom_def sub_range_def)
  then have a: "[3] = AppendWrap tab2 [] ?s 3 BreakHybrid" by (simp add: AppendWrap_def)
  have "RowOfBreaks tab2 [3] ?s 4 = (1, 1)"
    by (simp add: RowOfBreaks_def Let_def sub_range_def colOfFrom_def range_runes.simps runeCols_def RuneWidth_def)
  from row_roundtrip[OF t a this] show ?thesis .
qed

section \<open>The viewport\<close>

lemma clampTop_simps:
  "vpTop (clampTop v lines) = max 0 (min (vpTop v) (max 0 (lines - 1)))" "vpLeft (clampTop v lines) = vpLeft v"
  "vpRows (clampTop v lines) = vpRows v" "vpCols (clampTop v lines) = vpCols v" "vpScrollOff (clampTop v lines) = vpScrollOff v"
  by (auto simp: clampTop_def Let_def)

lemma half_less: "0 < r \<Longrightarrow> (r - 1) sdiv 2 = (r - 1) div 2" for r :: int
  by (cases "r = 1") (simp_all add: signed_divide_int_def)

text \<open>After scrolling to a position of the document, its line and its column are on screen, the window starts on a line
  of the document, and a position that already had its context on screen does not move the window.\<close>

theorem scroll_shows:
  assumes "0 < vpRows v" "0 < vpCols v" "0 \<le> vpScrollOff v" "0 \<le> line" "line < lines" "0 \<le> col"
  shows "let v1 = ScrollTo v line col lines in
    Visible v1 line \<and> vpLeft v1 \<le> col \<and> col < vpLeft v1 + vpCols v1 \<and> 0 \<le> vpTop v1 \<and> vpTop v1 < lines \<and> 0 \<le> vpLeft v1 \<and>
    (vpTop v \<in> {0..<lines} \<and> 0 \<le> vpLeft v \<and> vpTop v + vpScrollOff v \<le> line \<and> line + vpScrollOff v < Bottom v \<and>
      vpLeft v \<le> col \<and> col < vpLeft v + vpCols v \<longrightarrow> v1 = v)"
  using assms half_less[OF assms(1)]
  by (auto simp: ScrollTo_def Let_def Visible_def Bottom_def clampTop_def)

theorem scroll_shows_witness:
  "Visible (ScrollTo \<lparr>vpTop = 0, vpLeft = 0, vpTopRow = 0, vpCols = 80, vpRows = 10, vpScrollOff = 3\<rparr> 40 0 100) 40"
  using scroll_shows[of "\<lparr>vpTop = 0, vpLeft = 0, vpTopRow = 0, vpCols = 80, vpRows = 10, vpScrollOff = 3\<rparr>" 40 100 0]
  by (simp add: Let_def)

end
