(* ===== verification/IndentStyle.thy ===== *)
theory IndentStyle
  imports Utf8
begin

text \<open>
  What one press of tab inserts (\<open>internal/editor/indent_style.go\<close>): the style a format requires, a file shows, or a language
  has by convention. A path is a string, a text a list of bytes. \<open>strings.ToLower\<close> is applied to path names only and is
  written out for the ASCII letters, which is all the names compared with consist of.
\<close>

section \<open>The code\<close>

record Indent =
  inTabs :: bool
  inWidth :: int

definition DefaultIndentWidth :: int where "DefaultIndentWidth = 4"

definition Unit :: "Indent \<Rightarrow> byte list" where
  "Unit i =
     (if inTabs i then [9]
      else let w = (if inWidth i \<le> 0 then DefaultIndentWidth else inWidth i) in replicate (nat w) 32)"

definition Indent_String :: "Indent \<Rightarrow> byte list" where
  "Indent_String i =
     (if inTabs i then map (\<lambda>c. word_of_nat (of_char c)) ''tabs''
      else let w = (if inWidth i \<le> 0 then DefaultIndentWidth else inWidth i)
           in map (\<lambda>c. word_of_nat (of_char c)) ''spaces:'' @ decimal (nat w))"

datatype IndentSource = IndentFromDefault | IndentFromLanguage | IndentFromContent | IndentFromFormat

definition lower_char :: "char \<Rightarrow> char" where
  "lower_char c = (if 65 \<le> (of_char c :: nat) \<and> (of_char c :: nat) \<le> 90 then char_of ((of_char c :: nat) + 32) else c)"

definition lower_path :: "string \<Rightarrow> string" where "lower_path s = map lower_char s"

text \<open>\<open>filepath.Base\<close> and \<open>filepath.Ext\<close> of the standard library, for slash-separated paths.\<close>

definition path_base :: "string \<Rightarrow> string" where
  "path_base p =
     (if p = [] then ''.''
      else let q = rev (dropWhile (\<lambda>c. c = CHR ''/'') (rev p))
           in if q = [] then ''/'' else rev (takeWhile (\<lambda>c. c \<noteq> CHR ''/'') (rev q)))"

fun ext_from :: "string \<Rightarrow> string \<Rightarrow> string" where
  "ext_from [] seen = []"
| "ext_from (c # cs) seen = (if c = CHR ''/'' then [] else if c = CHR ''.'' then c # seen else ext_from cs (c # seen))"

definition path_ext :: "string \<Rightarrow> string" where "path_ext p = ext_from (rev p) []"

definition isMakefile :: "string \<Rightarrow> bool" where
  "isMakefile path =
     (let base = path_base path; ext = lower_path (path_ext base)
      in if ext = ''.mk'' \<or> ext = ''.mak'' \<or> ext = ''.make'' then True
         else let lower = lower_path base;
                  lower = (case Index lower ''.'' of Some i \<Rightarrow> if 0 < i then take i lower else lower | None \<Rightarrow> lower)
              in lower \<in> {''makefile'', ''gnumakefile'', ''bsdmakefile'', ''justfile''})"

definition mandated :: "string \<Rightarrow> Indent option" where
  "mandated path = (if isMakefile path then Some \<lparr>inTabs = True, inWidth = 0\<rparr> else None)"

definition conventional :: "string \<Rightarrow> Indent option" where
  "conventional path = (if lower_path (path_ext path) = ''.go'' then Some \<lparr>inTabs = True, inWidth = 0\<rparr> else None)"

definition maxDetectLines :: nat where "maxDetectLines = 5000"

definition is_blank :: "byte \<Rightarrow> bool" where "is_blank b \<longleftrightarrow> b = 32 \<or> b = 9"

text \<open>\<open>detectWidth\<close>: the count of a step, and the best step seen with its count.\<close>

record width_scan =
  wsPrev :: int
  wsFreq :: "int \<Rightarrow> int"
  wsBest :: int
  wsBestN :: int

definition width_step :: "width_scan \<Rightarrow> int \<Rightarrow> width_scan" where
  "width_step st w =
     (let d = w - wsPrev st; st = st\<lparr>wsPrev := w\<rparr>; d = (if d < 0 then - d else d)
      in if d = 0 \<or> 8 < d then st
         else let st = st\<lparr>wsFreq := (wsFreq st)(d := wsFreq st d + 1)\<rparr>
              in if wsBestN st < wsFreq st d then st\<lparr>wsBest := d, wsBestN := wsFreq st d\<rparr> else st)"

definition width_start :: width_scan where
  "width_start = \<lparr>wsPrev = 0, wsFreq = (\<lambda>_. 0), wsBest = 0, wsBestN = 0\<rparr>"

definition detectWidth :: "int list \<Rightarrow> int" where
  "detectWidth widths =
     (let st = foldl width_step width_start widths in if wsBest st = 0 then DefaultIndentWidth else wsBest st)"

text \<open>The lines of a text as the scan cuts them: up to each newline, and what is left behind the last one if anything.\<close>

function detect_lines :: "nat \<Rightarrow> byte list \<Rightarrow> byte list list" where
  "detect_lines n text =
     (if text = [] \<or> n = 0 then []
      else case Index text [10] of
        None \<Rightarrow> [text]
      | Some i \<Rightarrow> take i text # detect_lines (n - 1) (drop (i + 1) text))"
  by pat_completeness auto
termination by (relation "measure fst") auto

declare detect_lines.simps [simp del]

definition indented :: "byte list \<Rightarrow> bool" where
  "indented line \<longleftrightarrow> dropWhile is_blank line \<noteq> []"

definition DetectIndent :: "byte list \<Rightarrow> Indent option" where
  "DetectIndent text =
     (let lines = filter indented (detect_lines maxDetectLines text);
          tabs = length (filter (\<lambda>l. hd l = 9) lines); spaced = filter (\<lambda>l. hd l = 32) lines;
          widths = map (\<lambda>l. int (length (takeWhile (\<lambda>b. b = 32) l))) spaced
      in if tabs = 0 \<and> spaced = [] then None
         else if length spaced \<le> tabs then Some \<lparr>inTabs = True, inWidth = 0\<rparr>
         else Some \<lparr>inTabs = False, inWidth = detectWidth widths\<rparr>)"

definition IndentFor :: "string \<Rightarrow> byte list \<Rightarrow> Indent \<Rightarrow> Indent \<times> IndentSource" where
  "IndentFor path content fallback =
     (case mandated path of Some i \<Rightarrow> (i\<lparr>inWidth := inWidth fallback\<rparr>, IndentFromFormat)
      | None \<Rightarrow>
     case DetectIndent content of
        Some i \<Rightarrow> (if inTabs i then i\<lparr>inWidth := inWidth fallback\<rparr> else i, IndentFromContent)
      | None \<Rightarrow>
     case conventional path of Some i \<Rightarrow> (i\<lparr>inWidth := inWidth fallback\<rparr>, IndentFromLanguage)
      | None \<Rightarrow> (fallback, IndentFromDefault))"

text \<open>\<open>unicode.IsSpace\<close>, and whether \<open>strings.TrimSpace\<close> leaves nothing of a line.\<close>

definition is_space :: "nat \<Rightarrow> bool" where
  "is_space r \<longleftrightarrow> r \<in> {9, 10, 11, 12, 13, 32, 0x85, 0xA0, 0x1680, 0x2028, 0x2029, 0x202F, 0x205F, 0x3000} \<or> (0x2000 \<le> r \<and> r \<le> 0x200A)"

definition blank_line :: "byte list \<Rightarrow> bool" where "blank_line l \<longleftrightarrow> list_all is_space (runes l)"

definition SpaceIndentedLines :: "string \<Rightarrow> byte list \<Rightarrow> int" where
  "SpaceIndentedLines path content =
     (if mandated path = None then 0
      else int (length (filter (\<lambda>l. HasPrefix l [32] \<and> \<not> blank_line l) (split_on 10 content))))"

section \<open>The width of a level\<close>

text \<open>The step that comes most often between neighbouring widths, or the default when there is none to count.\<close>

fun steps_from :: "int \<Rightarrow> int list \<Rightarrow> int list" where
  "steps_from p [] = []"
| "steps_from p (w # ws) = \<bar>w - p\<bar> # steps_from w ws"

definition steps_of :: "int list \<Rightarrow> int list" where
  "steps_of widths = filter (\<lambda>d. d \<noteq> 0 \<and> d \<le> 8) (steps_from 0 widths)"

lemma steps_from_snoc: "steps_from p (ws @ [w]) = steps_from p ws @ [\<bar>w - last (p # ws)\<bar>]"
  by (induction ws arbitrary: p) auto

lemma steps_of_snoc: "steps_of (ws @ [w]) = steps_of ws @ filter (\<lambda>d. d \<noteq> 0 \<and> d \<le> 8) [\<bar>w - last (0 # ws)\<bar>]"
  by (simp only: steps_of_def steps_from_snoc filter_append)

lemma steps_bounds: "d \<in> set (steps_of ws) \<Longrightarrow> 1 \<le> d \<and> d \<le> 8"
proof -
  have "\<forall>d \<in> set (steps_from p ws). 0 \<le> d" for p by (induction ws arbitrary: p) auto
  then show "d \<in> set (steps_of ws) \<Longrightarrow> 1 \<le> d \<and> d \<le> 8" by (force simp: steps_of_def)
qed

definition scan_ok :: "width_scan \<Rightarrow> int list \<Rightarrow> bool" where
  "scan_ok st ws \<longleftrightarrow> wsPrev st = last (0 # ws) \<and> wsFreq st = (\<lambda>d. int (count_list (steps_of ws) d)) \<and>
     (\<forall>d. int (count_list (steps_of ws) d) \<le> wsBestN st) \<and>
     (if wsBestN st = 0 then wsBest st = 0 else int (count_list (steps_of ws) (wsBest st)) = wsBestN st)"

lemma width_scan_counts: "scan_ok (foldl width_step width_start widths) widths"
proof (induction widths rule: rev_induct)
  case Nil
  then show ?case by (simp add: width_start_def steps_of_def scan_ok_def)
next
  case (snoc w ws)
  let ?st = "foldl width_step width_start ws"
  have prev: "wsPrev ?st = last (0 # ws)" using snoc by (simp add: scan_ok_def)
  show ?case
  proof (cases "\<bar>w - wsPrev ?st\<bar> = 0 \<or> 8 < \<bar>w - wsPrev ?st\<bar>")
    case True
    have "width_step ?st w = ?st\<lparr>wsPrev := w\<rparr>" using True by (auto simp: width_step_def Let_def abs_if split: if_splits)
    moreover have "steps_of (ws @ [w]) = steps_of ws" using True prev by (auto simp: steps_of_snoc)
    ultimately show ?thesis using snoc by (simp add: scan_ok_def)
  next
    case False
    define d where "d = \<bar>w - wsPrev ?st\<bar>"
    have st: "width_step ?st w = (let st = ?st\<lparr>wsPrev := w, wsFreq := (wsFreq ?st)(d := wsFreq ?st d + 1)\<rparr>
        in if wsBestN ?st < wsFreq ?st d + 1 then st\<lparr>wsBest := d, wsBestN := wsFreq ?st d + 1\<rparr> else st)"
      using False by (simp add: width_step_def Let_def d_def abs_if)
    have "steps_of (ws @ [w]) = steps_of ws @ [d]" using False prev by (simp add: steps_of_snoc d_def)
    then have cnt: "count_list (steps_of (ws @ [w])) e = count_list (steps_of ws) e + (if e = d then 1 else 0)" for e
      by (simp add: count_list_append)
    have ok: "wsFreq ?st = (\<lambda>d. int (count_list (steps_of ws) d))" "\<And>d. int (count_list (steps_of ws) d) \<le> wsBestN ?st"
      "if wsBestN ?st = 0 then wsBest ?st = 0 else int (count_list (steps_of ws) (wsBest ?st)) = wsBestN ?st"
      using snoc by (simp_all add: scan_ok_def)
    show ?thesis
    proof (cases "wsBestN ?st < wsFreq ?st d + 1")
      case True
      then show ?thesis using ok(1) ok(2)[of d] ok(2) by (auto simp: scan_ok_def st Let_def cnt fun_eq_iff le_less_trans less_imp_le)
    next
      case keep: False
      then have "wsBestN ?st \<noteq> 0" using ok(1) by auto
      then show ?thesis using keep ok by (auto simp: scan_ok_def st Let_def cnt fun_eq_iff)
    qed
  qed
qed

text \<open>The width detected is a step of one to eight columns that comes at least as often as any other between neighbouring
  lines, or the default where the lines show no step.\<close>

lemma detected_width:
  "1 \<le> detectWidth widths \<and> detectWidth widths \<le> 8 \<and>
   (steps_of widths \<noteq> [] \<longrightarrow> (\<forall>d. count_list (steps_of widths) d \<le> count_list (steps_of widths) (detectWidth widths))) \<and>
   (steps_of widths = [] \<longrightarrow> detectWidth widths = DefaultIndentWidth)"
proof -
  let ?st = "foldl width_step width_start widths"
  have c: "int (count_list (steps_of widths) d) \<le> wsBestN ?st"
    "if wsBestN ?st = 0 then wsBest ?st = 0 else int (count_list (steps_of widths) (wsBest ?st)) = wsBestN ?st" for d
    using width_scan_counts[of widths] by (simp_all add: scan_ok_def)
  show ?thesis
  proof (cases "steps_of widths = []")
    case True
    then have "wsBest ?st = 0" using c(2) by (cases "wsBestN ?st = 0") simp_all
    then show ?thesis using True by (simp add: detectWidth_def Let_def DefaultIndentWidth_def)
  next
    case False
    then obtain d where "d \<in> set (steps_of widths)" by fastforce
    then have "count_list (steps_of widths) d \<noteq> 0" by (simp add: count_list_0_iff)
    then have "wsBestN ?st \<noteq> 0" using c(1)[of d] by linarith
    then have b: "int (count_list (steps_of widths) (wsBest ?st)) = wsBestN ?st" using c(2) by simp
    then have "count_list (steps_of widths) (wsBest ?st) \<noteq> 0" using \<open>wsBestN ?st \<noteq> 0\<close> by linarith
    then have "wsBest ?st \<in> set (steps_of widths)" by (simp only: count_list_0_iff not_not)
    then have r: "1 \<le> wsBest ?st" "wsBest ?st \<le> 8" using steps_bounds by auto
    then have "detectWidth widths = wsBest ?st" by (simp add: detectWidth_def Let_def)
    moreover have "count_list (steps_of widths) d \<le> count_list (steps_of widths) (wsBest ?st)" for d using c(1)[of d] b by linarith
    ultimately show ?thesis using False r by simp
  qed
qed

text \<open>Ties do not go to the smaller step, as the comment says, but to the step that reached the count first.\<close>

lemma tie_to_first: "detectWidth [4, 6] = 4" "count_list (steps_of [4, 6]) 4 = count_list (steps_of [4, 6]) 2"
  by (simp_all add: detectWidth_def width_step_def width_start_def Let_def steps_of_def)

end
