(* ===== verification/EditorFile.thy ===== *)
theory EditorFile
  imports Machine LineIndex Columns TextEncoding IndentStyle
begin

text \<open>
  An open document (\<open>internal/editor/file.go\<close>): the session with the line index that follows it, the lease check
  before every edit, the decisions made through it, what it remembers of the last save, and the save itself. The
  highlighter and the overlays that only colour text are left out; the inline hints (\<open>hints.go\<close>) are kept, because
  they move columns. A digest is the value of the parameter \<open>sha\<close> (SHA-256), whether the file on disk changed and
  whether the write succeeded are arguments of the save, and the check of the text before a save (\<open>savecheck.go\<close>,
  Go's own parser) is one too. Reading the index catches it up first; a read returns only its value.
\<close>

section \<open>Hints\<close>

record Hint =
  hiOff :: int
  hiText :: "byte list"
  hiLeft :: bool
  hiRight :: bool

type_synonym HintSet = "(int, Hint list) map"

record LineHint =
  lhLine :: int
  lhHint :: Hint

definition hint_place :: "Hint list \<Rightarrow> Hint \<Rightarrow> Hint list" where
  "hint_place hs h =
     (let k = length hs - length (takeWhile (\<lambda>g. hiOff h < hiOff g) (rev hs)) in take k hs @ h # drop k hs)"

definition hint_Width :: "(nat \<Rightarrow> bool) \<Rightarrow> Hint \<Rightarrow> int" where
  "hint_Width combining h =
     (\<Sum>r\<leftarrow>runes (hiText h). RuneWidth combining r) + (if hiLeft h then 1 else 0) + (if hiRight h then 1 else 0)"

definition HintCols :: "(nat \<Rightarrow> bool) \<Rightarrow> Hint list \<Rightarrow> HintCol list" where
  "HintCols combining hs = map (\<lambda>h. \<lparr>hcOff = hiOff h, hcWidth = hint_Width combining h\<rparr>) hs"

definition hints_At :: "HintSet option \<Rightarrow> int \<Rightarrow> Hint list" where
  "hints_At h line = (case h of None \<Rightarrow> [] | Some m \<Rightarrow> (case m line of None \<Rightarrow> [] | Some hs \<Rightarrow> hs))"

definition hints_Add :: "HintSet \<Rightarrow> int \<Rightarrow> Hint \<Rightarrow> HintSet" where
  "hints_Add m line h = m(line \<mapsto> hint_place (hints_At (Some m) line) h)"

section \<open>The state\<close>

type_synonym digest = "byte list"

record File =
  flPath :: string
  flCols :: Columns
  flHints :: "HintSet option"
  flLenses :: "HintSet option"
  flSess :: session
  flIdx :: "int list"
  flApplied :: nat
  flNewline :: PieceRec
  flSaved :: nat
  flSavedLen :: int
  flSavedSum :: digest
  flSavedDisk :: digest
  flSavedGen :: nat
  flDecisionGen :: nat
  flLayered :: bool
  flCleanVer :: nat
  flCleanGen :: nat
  flCleanKnow :: bool
  flCleanDirt :: bool
  flSnapshot :: bool
  flReadOnly :: bool
  flEnc :: TextEncoding
  flIndent :: Indent
  flIndentFrom :: IndentSource
  flExplicitWidth :: int

definition SetEncoding :: "File \<Rightarrow> TextEncoding \<Rightarrow> File" where
  "SetEncoding f e = f\<lparr>flEnc := e\<rparr>"

definition SetIndentDefault :: "File \<Rightarrow> Indent \<Rightarrow> File" where
  "SetIndentDefault f i =
     (if flIndentFrom f \<noteq> IndentFromDefault then f
      else f\<lparr>flIndent := (if inWidth i \<le> 0 then i\<lparr>inWidth := inWidth (flIndent f)\<rparr> else i)\<rparr>)"

definition SetTabWidth :: "File \<Rightarrow> int \<Rightarrow> File" where
  "SetTabWidth f w =
     (if w \<le> 0 then f
      else f\<lparr>flCols := (flCols f)\<lparr>coTab := w\<rparr>, flIndent := (flIndent f)\<lparr>inWidth := w\<rparr>, flExplicitWidth := w\<rparr>)"

definition IndentDetected :: "File \<Rightarrow> bool" where
  "IndentDetected f \<longleftrightarrow> flIndentFrom f \<noteq> IndentFromDefault"

definition fl_Text :: "File \<Rightarrow> byte list" where
  "fl_Text f = pe_Slice (sBuf (flSess f)) 0 (pe_Len (sBuf (flSess f)))"

text \<open>The number of lines the warning names; none is no warning.\<close>

definition IndentWarning :: "File \<Rightarrow> int" where
  "IndentWarning f = (if flIndentFrom f \<noteq> IndentFromFormat then 0 else SpaceIndentedLines (flPath f) (fl_Text f))"

definition fl_Len :: "File \<Rightarrow> int" where
  "fl_Len f = pe_Len (sBuf (flSess f))"

definition fl_Slice :: "File \<Rightarrow> int \<Rightarrow> int \<Rightarrow> byte list" where
  "fl_Slice f pos n = pe_Slice (sBuf (flSess f)) pos n"

section \<open>The line index\<close>

text \<open>The newlines of an op's inserted pieces, by their offsets in the document the op produced.\<close>

fun piece_newlines :: "store \<Rightarrow> int \<Rightarrow> PieceRec list \<Rightarrow> int list" where
  "piece_newlines st at [] = []"
| "piece_newlines st at (r # rs) =
     newline_starts at (store_Slice st (author_of (Buf r)) (Start r) (Length r)) @ piece_newlines st (at + Length r) rs"

definition applyToIndex :: "store \<Rightarrow> Op \<Rightarrow> int list \<Rightarrow> int list" where
  "applyToIndex st q ix =
     (let ix = ix_Delete ix (opPos q) (DelLen q); n = InsLen q
      in if 0 < n then ix_InsertLen ix (opPos q) n (piece_newlines st (opPos q) (opIns q)) else ix)"

text \<open>The ops past a version; past the end of the journal the code would panic.\<close>

definition ops_from :: "session \<Rightarrow> nat \<Rightarrow> Op list" where
  "ops_from s v = (case OpsSince s v of None \<Rightarrow> [] | Some qs \<Rightarrow> qs)"

definition fl_sync :: "File \<Rightarrow> File" where
  "fl_sync f =
     f\<lparr>flIdx := fold (applyToIndex (pe_Store (sBuf (flSess f)))) (ops_from (flSess f) (flApplied f)) (flIdx f),
       flApplied := Version (flSess f)\<rparr>"

definition fl_index :: "File \<Rightarrow> int list" where
  "fl_index f = flIdx (fl_sync f)"

definition fl_Lines :: "File \<Rightarrow> int" where "fl_Lines f = ix_Lines (fl_index f)"
definition fl_LineStart :: "File \<Rightarrow> int \<Rightarrow> int" where "fl_LineStart f n = ix_LineStart (fl_index f) n"
definition fl_LineEnd :: "File \<Rightarrow> int \<Rightarrow> int" where "fl_LineEnd f n = ix_LineEnd (fl_index f) n (fl_Len f)"
definition fl_LineOf :: "File \<Rightarrow> int \<Rightarrow> int" where "fl_LineOf f off = ix_LineOf (fl_index f) off"

definition fl_Line :: "File \<Rightarrow> int \<Rightarrow> byte list" where
  "fl_Line f n =
     (if n < 0 \<or> fl_Lines f \<le> n then []
      else let start = fl_LineStart f n in fl_Slice f start (fl_LineEnd f n - start))"

definition LensAt :: "File \<Rightarrow> int \<Rightarrow> Hint list" where "LensAt f line = hints_At (flLenses f) line"
definition inlayAt :: "File \<Rightarrow> int \<Rightarrow> Hint list" where "inlayAt f line = hints_At (flHints f) line"

definition HintsAt :: "File \<Rightarrow> int \<Rightarrow> Hint list" where
  "HintsAt f line =
     (let lenses = LensAt f line; hints = inlayAt f line
      in if lenses = [] then hints else if hints = [] then lenses else lenses @ hints)"

definition fl_HintCols :: "File \<Rightarrow> int \<Rightarrow> HintCol list" where
  "fl_HintCols f line = HintCols (coCombining (flCols f)) (HintsAt f line)"

text \<open>\<open>thatFit\<close> ranges over a Go map of the lines; the order in which lines are met does not matter.\<close>

definition thatFit :: "File \<Rightarrow> LineHint list \<Rightarrow> int \<Rightarrow> (int \<Rightarrow> Hint list) \<Rightarrow> HintSet option" where
  "thatFit f lhs width other =
     (let of_line = (\<lambda>line. map lhHint (filter (\<lambda>lh. lhLine lh = line) lhs));
          fits = (\<lambda>line. \<not> (1 \<le> width \<and>
            width < WidthHints (flCols f) (fl_Line f line) (HintCols (coCombining (flCols f)) (other line @ of_line line))));
          m = foldl (\<lambda>m line. foldl (\<lambda>m h. hints_Add m line h) m (of_line line)) Map.empty
                (filter fits (remdups (map lhLine lhs)))
      in if m = Map.empty then None else Some m)"

definition HintsThatFit :: "File \<Rightarrow> LineHint list \<Rightarrow> int \<Rightarrow> HintSet option" where
  "HintsThatFit f lhs width = thatFit f lhs width (LensAt f)"

definition LensesThatFit :: "File \<Rightarrow> LineHint list \<Rightarrow> int \<Rightarrow> HintSet option" where
  "LensesThatFit f lhs width = thatFit f lhs width (inlayAt f)"

definition fl_LineCol :: "File \<Rightarrow> int \<Rightarrow> int \<times> int" where
  "fl_LineCol f off =
     (let line = fl_LineOf f off
      in (line, ColOfHints (flCols f) (fl_Line f line) (off - fl_LineStart f line) (fl_HintCols f line)))"

definition fl_OffsetAt :: "File \<Rightarrow> int \<Rightarrow> int \<Rightarrow> int" where
  "fl_OffsetAt f line col =
     (if line < 0 then 0
      else if fl_Lines f \<le> line then fl_Len f
      else fl_LineStart f line + OffsetOfHints (flCols f) (fl_Line f line) col (fl_HintCols f line))"

section \<open>Edits\<close>

definition fl_Leased :: "File \<Rightarrow> int \<Rightarrow> int \<Rightarrow> nat option" where
  "fl_Leased f pos len = Leased (flSess f) pos len"

definition fl_EditLeased :: "File \<Rightarrow> int \<Rightarrow> int \<Rightarrow> nat option" where
  "fl_EditLeased f pos remove = fl_Leased f pos remove"

definition fl_Insert :: "File \<Rightarrow> author \<Rightarrow> int \<Rightarrow> byte list \<Rightarrow> bool \<times> File" where
  "fl_Insert f a pos t =
     (if t = [] then (False, f)
      else if fl_Leased f pos 0 \<noteq> None then (False, f)
      else (True, fl_sync (f\<lparr>flSess := Insert (flSess f) a pos t\<rparr>)))"

definition fl_Delete :: "File \<Rightarrow> author \<Rightarrow> int \<Rightarrow> int \<Rightarrow> bool \<times> File" where
  "fl_Delete f a pos len =
     (if len \<le> 0 then (False, f)
      else if fl_Leased f pos len \<noteq> None then (False, f)
      else (True, fl_sync (f\<lparr>flSess := Delete (flSess f) a pos len\<rparr>)))"

definition fl_InsertPieces :: "File \<Rightarrow> author \<Rightarrow> int \<Rightarrow> PieceRec list \<Rightarrow> bool \<times> File" where
  "fl_InsertPieces f a pos recs =
     (if recs = [] then (False, f)
      else if fl_Leased f pos 0 \<noteq> None then (False, f)
      else (True, fl_sync (f\<lparr>flSess := InsertPieces (flSess f) a pos recs\<rparr>)))"

text \<open>The diff's catch-up is spelled out where the others call \<open>sync\<close>; it does the same. A diff that panics is \<open>None\<close>.\<close>

definition fl_ApplyDiff :: "File \<Rightarrow> author \<Rightarrow> nat \<Rightarrow> Hunk list \<Rightarrow> (Conflict list \<times> Block list \<times> File) option" where
  "fl_ApplyDiff f a base hs =
     (case ApplyDiff (flSess f) a base hs of
        None \<Rightarrow> None
      | Some d \<Rightarrow> Some (dsConflicts d, dsWarnings d, fl_sync (f\<lparr>flSess := dsSession d\<rparr>)))"

definition fl_reverse :: "bool \<times> session \<Rightarrow> File \<Rightarrow> Op list \<times> bool \<times> File" where
  "fl_reverse r f =
     (let f1 = f\<lparr>flSess := snd r\<rparr>
      in if \<not> fst r then ([], False, f1) else (ops_from (snd r) (flApplied f), True, fl_sync f1))"

definition fl_Undo :: "File \<Rightarrow> author \<Rightarrow> Op list \<times> bool \<times> File" where
  "fl_Undo f a = fl_reverse (Undo (flSess f) a) f"

definition fl_Redo :: "File \<Rightarrow> author \<Rightarrow> Op list \<times> bool \<times> File" where
  "fl_Redo f a = fl_reverse (Redo (flSess f) a) f"

definition fl_Begin :: "File \<Rightarrow> File" where "fl_Begin f = f\<lparr>flSess := Begin (flSess f)\<rparr>"
definition fl_End :: "File \<Rightarrow> File" where "fl_End f = f\<lparr>flSess := End (flSess f)\<rparr>"

definition fl_Snapshot :: "File \<Rightarrow> int \<Rightarrow> int \<Rightarrow> PieceRec list" where
  "fl_Snapshot f pos len = Snapshot (flSess f) pos len"

definition NewlinePiece :: "File \<Rightarrow> author \<Rightarrow> PieceRec \<times> File" where
  "NewlinePiece f a =
     (if Length (flNewline f) = 0
      then let (start, s) = session_append (flSess f) a [10]; p = piece a start 1 in (p, f\<lparr>flSess := s, flNewline := p\<rparr>)
      else (flNewline f, f))"

end
