(* ===== verification/EditorCursors.thy ===== *)
theory EditorCursors
  imports Prelude "HOL-Library.Product_Lexorder"
begin

text \<open>
  The cursors of a pane (\<open>internal/editor/cursors.go\<close>): carets with selections, kept in order and merged when they meet,
  with one of them primary. \<open>Primary\<close> clamps the stored index as it reads it, so it returns the set as well.
\<close>

section \<open>The code\<close>

record Cursor =
  cuHead :: int
  cuAnchor :: int
  cuGoal :: int

definition HasSelection :: "Cursor \<Rightarrow> bool" where
  "HasSelection c \<longleftrightarrow> cuHead c \<noteq> cuAnchor c"

definition cu_Range :: "Cursor \<Rightarrow> int \<times> int" where
  "cu_Range c = (if cuHead c < cuAnchor c then (cuHead c, cuAnchor c) else (cuAnchor c, cuHead c))"

record Cursors =
  csList :: "Cursor list"
  csPrimary :: int

definition cursor_at :: "int \<Rightarrow> int \<Rightarrow> Cursor" where
  "cursor_at head anchor = \<lparr>cuHead = head, cuAnchor = anchor, cuGoal = 0\<rparr>"

definition NewCursors :: Cursors where
  "NewCursors = \<lparr>csList = [cursor_at 0 0], csPrimary = 0\<rparr>"

definition cs_Count :: "Cursors \<Rightarrow> int" where
  "cs_Count cs = int (length (csList cs))"

definition Primary :: "Cursors \<Rightarrow> Cursor \<times> Cursors" where
  "Primary cs =
     (let cs = (if cs_Count cs \<le> csPrimary cs then cs\<lparr>csPrimary := cs_Count cs - 1\<rparr> else cs)
      in if csPrimary cs < 0 then (cursor_at 0 0, cs) else (csList cs ! nat (csPrimary cs), cs))"

definition cs_Set :: "Cursors \<Rightarrow> int \<Rightarrow> int \<Rightarrow> Cursors" where
  "cs_Set cs head anchor = cs\<lparr>csList := [cursor_at head anchor], csPrimary := 0\<rparr>"

definition cu_overlaps :: "Cursor \<Rightarrow> Cursor \<Rightarrow> bool" where
  "cu_overlaps a b =
     (let (alo, ahi) = cu_Range a; (blo, bhi) = cu_Range b in blo \<le> ahi \<and> alo \<le> bhi)"

definition cu_merge :: "Cursor \<Rightarrow> Cursor \<Rightarrow> int \<times> int" where
  "cu_merge a b =
     (let (alo, ahi) = cu_Range a; (blo, bhi) = cu_Range b; lo = min alo blo; hi = max ahi bhi
      in if cuAnchor a \<le> cuHead a then (hi, lo) else (lo, hi))"

text \<open>The pass over the sorted list; the last cursor kept absorbs what it overlaps.\<close>

fun merge_pass :: "Cursor \<Rightarrow> Cursor list \<Rightarrow> Cursor list" where
  "merge_pass l [] = [l]"
| "merge_pass l (c # cs) =
     (if cu_overlaps l c
      then merge_pass (l\<lparr>cuHead := fst (cu_merge l c), cuAnchor := snd (cu_merge l c)\<rparr>) cs
      else l # merge_pass c cs)"

fun primary_scan :: "int \<Rightarrow> int \<Rightarrow> Cursor list \<Rightarrow> int" where
  "primary_scan head i [] = 0"
| "primary_scan head i (c # cs) =
     (let (lo, hi) = cu_Range c in if lo \<le> head \<and> head \<le> hi then i else primary_scan head (i + 1) cs)"

definition Normalize :: "Cursors \<Rightarrow> Cursors" where
  "Normalize cs =
     (if cs_Count cs < 2 then cs
      else let (primary, cs) = Primary cs;
               sorted = sort_key (\<lambda>c. (cuHead c, cuAnchor c)) (csList cs);
               out = merge_pass (hd sorted) (tl sorted)
           in cs\<lparr>csList := out, csPrimary := primary_scan (cuHead primary) 0 out\<rparr>)"

definition cs_Add :: "Cursors \<Rightarrow> int \<Rightarrow> int \<Rightarrow> Cursors" where
  "cs_Add cs head anchor = Normalize (cs\<lparr>csList := csList cs @ [cursor_at head anchor]\<rparr>)"

definition cs_Replace :: "Cursors \<Rightarrow> Cursor list \<Rightarrow> Cursors" where
  "cs_Replace cs l = (if l = [] then cs else Normalize (cs\<lparr>csList := l, csPrimary := 0\<rparr>))"

definition cs_State :: "Cursors \<Rightarrow> Cursor list \<times> int" where
  "cs_State cs = (csList cs, csPrimary cs)"

definition cs_Restore :: "Cursors \<Rightarrow> Cursor list \<Rightarrow> int \<Rightarrow> Cursors" where
  "cs_Restore cs l primary =
     (if l = [] then cs
      else cs\<lparr>csList := l, csPrimary := (if primary < 0 \<or> int (length l) \<le> primary then 0 else primary)\<rparr>)"

definition cs_Clear :: "Cursors \<Rightarrow> Cursors" where
  "cs_Clear cs =
     (let (p, cs) = Primary cs in cs\<lparr>csList := [p\<lparr>cuAnchor := cuHead p\<rparr>], csPrimary := 0\<rparr>)"

definition CollapseSelections :: "Cursors \<Rightarrow> Cursors" where
  "CollapseSelections cs = cs\<lparr>csList := map (\<lambda>c. c\<lparr>cuAnchor := cuHead c\<rparr>) (csList cs)\<rparr>"

definition cs_Apply :: "Cursors \<Rightarrow> (Cursor \<Rightarrow> Cursor) \<Rightarrow> Cursors" where
  "cs_Apply cs f = Normalize (cs\<lparr>csList := map f (csList cs)\<rparr>)"

definition shiftOffset :: "int \<Rightarrow> int \<Rightarrow> int \<Rightarrow> int \<Rightarrow> int" where
  "shiftOffset off pos removed added =
     (if off \<le> pos then off else if pos + removed \<le> off then off - removed + added else pos)"

definition cs_Shift :: "Cursors \<Rightarrow> int \<Rightarrow> int \<Rightarrow> int \<Rightarrow> Cursors" where
  "cs_Shift cs pos removed added =
     Normalize (cs\<lparr>csList := map (\<lambda>c. c\<lparr>cuHead := shiftOffset (cuHead c) pos removed added,
       cuAnchor := shiftOffset (cuAnchor c) pos removed added\<rparr>) (csList cs)\<rparr>)"

section \<open>Ranges of cursors\<close>

definition cu_lo :: "Cursor \<Rightarrow> int" where "cu_lo c = min (cuHead c) (cuAnchor c)"
definition cu_hi :: "Cursor \<Rightarrow> int" where "cu_hi c = max (cuHead c) (cuAnchor c)"

lemma cu_Range_lo_hi [simp]: "cu_Range c = (cu_lo c, cu_hi c)"
  by (auto simp: cu_Range_def cu_lo_def cu_hi_def)

lemma cu_lo_hi: "cu_lo c \<le> cu_hi c"
  by (simp add: cu_lo_def cu_hi_def)

lemma head_in: "cu_lo c \<le> cuHead c" "cuHead c \<le> cu_hi c"
  by (simp_all add: cu_lo_def cu_hi_def)

definition covers :: "Cursor \<Rightarrow> int set" where "covers c = {cu_lo c..cu_hi c}"

lemma merged:
  assumes "m = l\<lparr>cuHead := fst (cu_merge l c), cuAnchor := snd (cu_merge l c)\<rparr>"
  shows "cu_lo m = min (cu_lo l) (cu_lo c)" "cu_hi m = max (cu_hi l) (cu_hi c)"
  unfolding assms by (auto simp: cu_merge_def Let_def cu_lo_def cu_hi_def)

lemma merge_covers: "cu_overlaps a b \<Longrightarrow> m = a\<lparr>cuHead := fst (cu_merge a b), cuAnchor := snd (cu_merge a b)\<rparr> \<Longrightarrow>
  covers m = covers a \<union> covers b"
  using cu_lo_hi[of a] cu_lo_hi[of b] by (auto simp: covers_def merged cu_overlaps_def)

lemma merge_pass_covers: "(\<Union>c \<in> set (merge_pass l cs). covers c) = covers l \<union> (\<Union>c \<in> set cs. covers c)"
proof (induction l cs rule: merge_pass.induct)
  case (2 l c cs)
  then show ?case using merge_covers[of l c] by auto
qed simp

lemma merge_pass_length: "length (merge_pass l cs) \<le> length cs + 1" "merge_pass l cs \<noteq> []"
  by (induction l cs rule: merge_pass.induct) auto

lemma primary_scan_spec:
  "\<exists>c \<in> set cs. head \<in> covers c \<Longrightarrow> i \<le> primary_scan head i cs \<and> primary_scan head i cs < i + int (length cs) \<and>
    head \<in> covers (cs ! nat (primary_scan head i cs - i))"
proof (induction head i cs rule: primary_scan.induct)
  case (2 head i c cs)
  show ?case
  proof (cases "head \<in> covers c")
    case False
    then have IH: "i + 1 \<le> primary_scan head (i + 1) cs \<and> primary_scan head (i + 1) cs < i + 1 + int (length cs) \<and>
        head \<in> covers (cs ! nat (primary_scan head (i + 1) cs - (i + 1)))" using 2 by (auto simp: covers_def)
    then have "nat (primary_scan head (i + 1) cs - i) = Suc (nat (primary_scan head (i + 1) cs - (i + 1)))" by linarith
    then show ?thesis using IH False by (auto simp: covers_def)
  qed (simp add: covers_def)
qed simp

text \<open>Cursors apart, in order: no two share an offset, not even an end.\<close>

definition apart :: "Cursor list \<Rightarrow> bool" where
  "apart cs \<longleftrightarrow> sorted_wrt (\<lambda>a b. cu_hi a < cu_lo b) cs"

lemma merge_pass_apart:
  "sorted (map cu_lo cs) \<Longrightarrow> \<forall>c \<in> set cs. cu_lo l \<le> cu_lo c \<Longrightarrow>
    apart (merge_pass l cs) \<and> (\<forall>c \<in> set (merge_pass l cs). cu_lo l \<le> cu_lo c)"
proof (induction l cs rule: merge_pass.induct)
  case (2 l c cs)
  show ?case
  proof (cases "cu_overlaps l c")
    case True
    let ?m = "l\<lparr>cuHead := fst (cu_merge l c), cuAnchor := snd (cu_merge l c)\<rparr>"
    have "cu_lo ?m = cu_lo l" using merged[OF refl, of l c] 2(4) by simp
    then show ?thesis using 2 True by simp
  next
    case False
    then have "cu_hi l < cu_lo c" using 2(4) cu_lo_hi[of l] cu_lo_hi[of c] by (auto simp: cu_overlaps_def)
    moreover have "apart (merge_pass c cs) \<and> (\<forall>d \<in> set (merge_pass c cs). cu_lo c \<le> cu_lo d)" using 2 False by simp
    ultimately show ?thesis using False cu_lo_hi[of l] 2(4) by (fastforce simp: apart_def)
  qed
qed (simp add: apart_def)

lemma merge_pass_same: "apart (l # cs) \<Longrightarrow> merge_pass l cs = l # cs"
  by (induction l cs rule: merge_pass.induct) (auto simp: apart_def cu_overlaps_def)

section \<open>Normalizing\<close>

lemma Normalize_merges:
  assumes "2 \<le> length (csList cs)" "l = sort_key (\<lambda>c. (cuHead c, cuAnchor c)) (csList cs)"
  shows "csList (Normalize cs) = merge_pass (hd l) (tl l)" "l \<noteq> []" "set l = set (csList cs)" "length l = length (csList cs)"
    "0 \<le> csPrimary cs \<Longrightarrow> csPrimary cs < cs_Count cs \<Longrightarrow>
      csPrimary (Normalize cs) = primary_scan (cuHead (csList cs ! nat (csPrimary cs))) 0 (merge_pass (hd l) (tl l))"
proof -
  show "l \<noteq> []" using arg_cong[OF assms(2), of length] assms(1) by (cases l) auto
  show "csList (Normalize cs) = merge_pass (hd l) (tl l)" "set l = set (csList cs)" "length l = length (csList cs)"
    using assms by (auto simp: Normalize_def cs_Count_def Primary_def Let_def)
  show "0 \<le> csPrimary cs \<Longrightarrow> csPrimary cs < cs_Count cs \<Longrightarrow>
      csPrimary (Normalize cs) = primary_scan (cuHead (csList cs ! nat (csPrimary cs))) 0 (merge_pass (hd l) (tl l))"
    using assms by (auto simp: Normalize_def cs_Count_def Primary_def Let_def)
qed

text \<open>C32: normalizing keeps exactly the offsets the cursors covered, adds no cursor, and leaves as primary one that covers
  where the primary caret was.\<close>

theorem normalize_covers:
  assumes "0 \<le> csPrimary cs" "csPrimary cs < cs_Count cs"
  shows "(\<Union>c \<in> set (csList (Normalize cs)). covers c) = (\<Union>c \<in> set (csList cs). covers c) \<and>
    0 < cs_Count (Normalize cs) \<and> cs_Count (Normalize cs) \<le> cs_Count cs \<and>
    0 \<le> csPrimary (Normalize cs) \<and> csPrimary (Normalize cs) < cs_Count (Normalize cs) \<and>
    cuHead (csList cs ! nat (csPrimary cs)) \<in> covers (csList (Normalize cs) ! nat (csPrimary (Normalize cs)))"
proof (cases "2 \<le> length (csList cs)")
  case False
  then have "Normalize cs = cs" by (simp add: Normalize_def cs_Count_def)
  then show ?thesis using assms head_in by (auto simp: covers_def)
next
  case True
  define l where "l = sort_key (\<lambda>c. (cuHead c, cuAnchor c)) (csList cs)"
  note N = Normalize_merges[OF True l_def]
  let ?out = "merge_pass (hd l) (tl l)"
  have "set l = insert (hd l) (set (tl l))" using N(2) by (cases l) auto
  then have cov: "(\<Union>c \<in> set ?out. covers c) = (\<Union>c \<in> set (csList cs). covers c)"
    using merge_pass_covers[of "hd l" "tl l"] N(3) by (metis UN_insert)
  let ?p = "csList cs ! nat (csPrimary cs)"
  have "?p \<in> set (csList cs)" using assms by (intro nth_mem) (simp add: cs_Count_def)
  moreover have "cuHead ?p \<in> covers ?p" using head_in[of ?p] by (simp add: covers_def)
  ultimately have "cuHead ?p \<in> (\<Union>c \<in> set ?out. covers c)" unfolding cov by blast
  then have "\<exists>c \<in> set ?out. cuHead ?p \<in> covers c" by simp
  from primary_scan_spec[OF this, of 0] have "0 \<le> csPrimary (Normalize cs)"
      "csPrimary (Normalize cs) < cs_Count (Normalize cs)"
      "cuHead ?p \<in> covers (csList (Normalize cs) ! nat (csPrimary (Normalize cs)))"
    using N(1) N(5)[OF assms] by (simp_all add: cs_Count_def)
  moreover have "cs_Count (Normalize cs) \<le> cs_Count cs" using merge_pass_length(1)[of "hd l" "tl l"] N(1,2,4)
    by (cases l) (simp_all add: cs_Count_def)
  ultimately show ?thesis using cov N(1) by (metis le_less_trans)
qed

definition two_cursors :: Cursors where
  "two_cursors = \<lparr>csList = [cursor_at 9 4, cursor_at 2 2], csPrimary = 0\<rparr>"

theorem normalize_covers_witness:
  "9 \<in> covers (csList (Normalize two_cursors) ! nat (csPrimary (Normalize two_cursors))) \<and>
   (\<Union>c \<in> set (csList (Normalize two_cursors)). covers c) = {4..9} \<union> {2}"
  using normalize_covers[of two_cursors] by (simp add: two_cursors_def cs_Count_def cursor_at_def covers_def cu_lo_def cu_hi_def)

lemma sort_heads:
  assumes "\<forall>a \<in> set cs. \<forall>b \<in> set cs. cuHead a < cuHead b \<longrightarrow> cu_lo a \<le> cu_lo b"
  shows "sorted (map cu_lo (sort_key (\<lambda>c. (cuHead c, cuAnchor c)) cs))"
proof -
  define l where "l = sort_key (\<lambda>c. (cuHead c, cuAnchor c)) cs"
  have "sorted_wrt (\<lambda>a b. (cuHead a, cuAnchor a) \<le> (cuHead b, cuAnchor b)) l"
    using sorted_sort_key[of "\<lambda>c. (cuHead c, cuAnchor c)" cs] by (simp add: l_def sorted_map)
  moreover have "cu_lo a \<le> cu_lo b" if "(cuHead a, cuAnchor a) \<le> (cuHead b, cuAnchor b)" "a \<in> set l" "b \<in> set l" for a b
  proof (cases "cuHead a < cuHead b")
    case True
    then show ?thesis using assms that(2,3) by (simp add: l_def)
  next
    case False
    then show ?thesis using that(1) by (auto simp: cu_lo_def)
  qed
  ultimately have "sorted_wrt (\<lambda>a b. cu_lo a \<le> cu_lo b) l" by (rule sorted_wrt_mono_rel[rotated])
  then show ?thesis by (simp add: l_def sorted_map)
qed

text \<open>C33: when the selections begin in the order of their carets, as they do when no selection was drawn forwards over
  another cursor, no two cursors of the normalized set share an offset, so a keystroke is applied once in each place.\<close>

theorem normalize_apart:
  assumes "\<forall>a \<in> set (csList cs). \<forall>b \<in> set (csList cs). cuHead a < cuHead b \<longrightarrow> cu_lo a \<le> cu_lo b"
  shows "apart (csList (Normalize cs))"
proof (cases "2 \<le> length (csList cs)")
  case False
  then have "Normalize cs = cs" "length (csList cs) \<le> 1" by (simp_all add: Normalize_def cs_Count_def)
  then show ?thesis by (cases "csList cs") (simp_all add: apart_def)
next
  case True
  define l where "l = sort_key (\<lambda>c. (cuHead c, cuAnchor c)) (csList cs)"
  note N = Normalize_merges[OF True l_def]
  have "sorted (map cu_lo l)" unfolding l_def by (rule sort_heads[OF assms])
  then show ?thesis using merge_pass_apart[of "tl l" "hd l"] N(1,2) by (cases l) auto
qed

theorem normalize_apart_witness: "apart (csList (Normalize two_cursors))"
  by (rule normalize_apart) (simp add: two_cursors_def cursor_at_def cu_lo_def)

lemma sort_swap: "sort_key (\<lambda>c. (cuHead c, cuAnchor c)) [a, b] = (if (cuHead a, cuAnchor a) \<le> (cuHead b, cuAnchor b) then [a, b] else [b, a])"
  by simp

text \<open>Without that, cursors that overlap are left: with carets at 1 and 5, a selection drawn from 0 forwards to 6 absorbs the
  caret at 5 and not the one at 1, which it also covers. The pass compares a cursor with the last one kept only.\<close>

lemma normalize_leaves_overlap:
  "csList (cs_Add (cs_Add (cs_Set NewCursors 1 1) 5 5) 6 0) = [cursor_at 1 1, cursor_at 6 0] \<and> cu_overlaps (cursor_at 6 0) (cursor_at 1 1)"
  by (simp add: cs_Add_def cs_Set_def Normalize_def Primary_def cs_Count_def cursor_at_def cu_overlaps_def cu_merge_def
      cu_lo_def cu_hi_def Let_def less_prod_def)

section \<open>Shifting\<close>

text \<open>An edit keeps the offsets of a text in order, and a caret outside the removed bytes on the byte it was at.\<close>

lemma shiftOffset_mono: "0 \<le> removed \<Longrightarrow> 0 \<le> added \<Longrightarrow> a \<le> b \<Longrightarrow> shiftOffset a pos removed added \<le> shiftOffset b pos removed added"
  by (auto simp: shiftOffset_def)

end
