(* ===== verification/DisplayMap.thy ===== *)
theory DisplayMap
  imports LineIndex
begin

text \<open>
  The display projection (\<open>internal/view/projection.go\<close>): a composition laid out into rows. A row shows bytes of a session
  line, stands for a hidden run (a fold), or shows bytes only the composition has. The parallel slices of the code, one
  entry per row, are one list of rows. \<open>sort.Search\<close> is its binary search, which is the first index only where the
  predicate is monotone; \<open>sort.Slice\<close> on fold ranges is a stable sort. Composition and session lengths fit an \<open>int\<close>.
\<close>

section \<open>Binary search\<close>

function search_loop :: "(int \<Rightarrow> bool) \<Rightarrow> int \<Rightarrow> int \<Rightarrow> int" where
  "search_loop f i j =
     (if i < j then let h = (i + j) div 2 in if \<not> f h then search_loop f (h + 1) j else search_loop f i h else i)"
  by pat_completeness auto
termination by (relation "measure (\<lambda>(f, i, j). nat (j - i))") auto

declare search_loop.simps [simp del]

definition sort_Search :: "int \<Rightarrow> (int \<Rightarrow> bool) \<Rightarrow> int" where
  "sort_Search n f = search_loop f 0 n"

section \<open>Segments and rows\<close>

record Seg =
  sgDoc :: int
  sgDisp :: int
  sgLen :: int
  sgDLen :: int
  sgFold :: bool
  sgGroup :: nat
  sgHiddenLines :: int

record DispLine =
  dlLine :: int
  dlLo :: int
  dlHi :: int
  dlFold :: nat

record DispRow =
  rwLine :: DispLine
  rwDocLo :: int
  rwDocHi :: int
  rwCompLo :: int
  rwCompHi :: int

record DisplayMap =
  dmText :: "byte list"
  dmStarts :: "int list"
  dmLen :: int
  dmRows :: "DispRow list"
  dmFirst :: "int list"
  dmSessRows :: "int list"
  dmFoldRows :: "int list"

record FoldRange =
  frLo :: int
  frHi :: int

definition UserFold :: nat where "UserFold = 18446744073709551615"

section \<open>Session lines\<close>

definition projLineOf :: "int list \<Rightarrow> int \<Rightarrow> int" where
  "projLineOf starts off =
     (if off \<le> 0 \<or> starts = [] then 0
      else let i = sort_Search (int (length starts)) (\<lambda>k. off + 1 \<le> starts ! nat k);
               i = (if int (length starts) < i then int (length starts) else i)
           in i - 1)"

definition projLineStart :: "int list \<Rightarrow> int \<Rightarrow> int" where
  "projLineStart starts line =
     (if starts = [] then 0
      else if line < 0 then 0
      else if int (length starts) \<le> line then last starts
      else starts ! nat line)"

definition seg_starts :: "byte list \<Rightarrow> int \<Rightarrow> Seg \<Rightarrow> int list" where
  "seg_starts cmp n s =
     (if sgFold s then map (\<lambda>k. sgDoc s + sgLen s - sgHiddenLines s + k) [1..min (sgHiddenLines s) (sgLen s)]
      else if sgLen s \<le> 0 \<or> sgDLen s \<le> 0 then []
      else map (\<lambda>i. min i n)
             (newline_starts (sgDoc s) (sub_range (sgDisp s) (min (sgDisp s + sgDLen s) (int (length cmp)) - sgDisp s) cmp)))"

definition projectionStarts :: "byte list \<Rightarrow> Seg list \<Rightarrow> int \<times> int list" where
  "projectionStarts cmp segs =
     (let n = (\<Sum>s\<leftarrow>segs. sgLen s) in (n, 0 # concat (map (seg_starts cmp n) segs)))"

section \<open>Pieces and folds\<close>

record DispPiece =
  dpDisp :: int
  dpDLen :: int
  dpDoc :: int
  dpLength :: int

record FoldRun =
  fnDisp :: int
  fnGroup :: nat
  fnDoc :: int
  fnLength :: int

definition seg_piece :: "Seg \<Rightarrow> DispPiece" where
  "seg_piece s = \<lparr>dpDisp = sgDisp s, dpDLen = sgDLen s, dpDoc = sgDoc s, dpLength = sgLen s\<rparr>"

definition seg_fold :: "Seg \<Rightarrow> FoldRun" where
  "seg_fold s = \<lparr>fnDisp = sgDisp s, fnGroup = sgGroup s, fnDoc = sgDoc s, fnLength = sgLen s\<rparr>"

definition splitSegs :: "Seg list \<Rightarrow> DispPiece list \<times> FoldRun list" where
  "splitSegs segs =
     (sort_key dpDisp (map seg_piece (filter (\<lambda>s. \<not> sgFold s \<and> 0 < sgDLen s) segs)),
      sort_key fnDisp (map seg_fold (filter sgFold segs)))"

section \<open>Laying out\<close>

record composer =
  coComp :: "byte list"
  coStarts :: "int list"
  coPieces :: "DispPiece list"
  coFolds :: "FoldRun list"

definition segAt :: "composer \<Rightarrow> int \<Rightarrow> DispPiece option" where
  "segAt c off =
     (let ps = coPieces c; n = int (length ps);
          i = sort_Search n (\<lambda>k. off < dpDisp (ps ! nat k) + dpDLen (ps ! nat k))
      in if i < n \<and> dpDisp (ps ! nat i) \<le> off \<and> off < dpDisp (ps ! nat i) + dpDLen (ps ! nat i) then Some (ps ! nat i)
         else if off = int (length (coComp c)) \<and> 0 < n then Some (last ps)
         else None)"

definition disp_row :: "DispLine \<Rightarrow> int \<Rightarrow> int \<Rightarrow> int \<Rightarrow> int \<Rightarrow> DispRow" where
  "disp_row l docA docB compA compB = \<lparr>rwLine = l, rwDocLo = docA, rwDocHi = docB, rwCompLo = compA, rwCompHi = compB\<rparr>"

definition emit :: "DispLine \<Rightarrow> int \<Rightarrow> int \<Rightarrow> int \<Rightarrow> int \<Rightarrow> DisplayMap \<Rightarrow> DisplayMap" where
  "emit l docA docB compA compB p =
     (let p = p\<lparr>dmRows := dmRows p @ [disp_row l docA docB compA compB]\<rparr>
      in if 0 \<le> dlLine l \<and> dmFirst p ! nat (dlLine l) < 0
         then p\<lparr>dmFirst := (dmFirst p)[nat (dlLine l) := int (length (dmRows p)) - 1]\<rparr>
         else p)"

definition line_row :: "int \<Rightarrow> int \<Rightarrow> int \<Rightarrow> nat \<Rightarrow> DispLine" where
  "line_row sl lo hi g = \<lparr>dlLine = sl, dlLo = lo, dlHi = hi, dlFold = g\<rparr>"

definition foldAt :: "composer \<Rightarrow> int \<Rightarrow> bool" where
  "foldAt c off =
     (let fs = coFolds c; i = sort_Search (int (length fs)) (\<lambda>k. off \<le> fnDisp (fs ! nat k))
      in i < int (length fs) \<and> fnDisp (fs ! nat i) = off)"

text \<open>The inner loop of \<open>emitContent\<close>: the end of the run in the composition and in the session.\<close>

function absorb :: "composer \<Rightarrow> int \<Rightarrow> int \<Rightarrow> int \<Rightarrow> int \<times> int" where
  "absorb c b merged docB =
     (if merged < b \<and> \<not> foldAt c merged
      then case segAt c merged of
             None \<Rightarrow> (merged, docB)
           | Some np \<Rightarrow>
               if dpLength np \<le> 0 \<or> dpDisp np \<noteq> merged \<or> dpDoc np \<noteq> docB then (merged, docB)
               else let nend = min b (dpDisp np + dpDLen np)
                    in if nend \<le> merged then (merged, docB) else absorb c b nend (dpDoc np + (nend - dpDisp np))
      else (merged, docB))"
  by pat_completeness auto
termination by (relation "measure (\<lambda>(c, b, merged, docB). nat (b - merged))") auto

declare absorb.simps [simp del]

lemma absorb_grows: "merged \<le> fst (absorb c b merged docB)"
proof (induction c b merged docB rule: absorb.induct)
  case (1 c b merged docB)
  then show ?case by (subst absorb.simps) (force simp: Let_def split: option.splits)
qed

function emitContent :: "composer \<Rightarrow> int \<Rightarrow> int \<Rightarrow> DisplayMap \<Rightarrow> DisplayMap" where
  "emitContent c a b p =
     (if a < b
      then case segAt c a of
             None \<Rightarrow> p
           | Some pc \<Rightarrow>
               (let end = min b (dpDisp pc + dpDLen pc) in
                if end \<le> a then p
                else if dpLength pc \<le> 0
                then emitContent c end b (emit (line_row (-1) (a - dpDisp pc) (end - dpDisp pc) 0) (dpDoc pc) (dpDoc pc) a end p)
                else let docA = dpDoc pc + (a - dpDisp pc);
                         m = absorb c b end (dpDoc pc + (end - dpDisp pc));
                         sl = projLineOf (coStarts c) docA; ls = projLineStart (coStarts c) sl
                     in emitContent c (fst m) b (emit (line_row sl (docA - ls) (snd m - ls) 0) docA (snd m) a (fst m) p))
      else p)"
  by pat_completeness auto
termination
proof (relation "measure (\<lambda>(c, a, b, p). nat (b - a))")
  show "wf (measure (\<lambda>(c, a, b, p). nat (b - a)))" by simp
next
  fix c a b and p :: DisplayMap and pc e
  assume "a < b" "e = min b (dpDisp pc + dpDLen pc)" "\<not> e \<le> a"
  then show "((c, e, b, emit (line_row (-1) (a - dpDisp pc) (e - dpDisp pc) 0) (dpDoc pc) (dpDoc pc) a e p), c, a, b, p)
     \<in> measure (\<lambda>(c, a, b, p). nat (b - a))" by auto
next
  fix c a b and p :: DisplayMap and pc e docA m sl ls
  assume "a < b" "\<not> e \<le> a" "m = absorb c b e (dpDoc pc + (e - dpDisp pc))"
  moreover have "e \<le> fst (absorb c b e (dpDoc pc + (e - dpDisp pc)))" by (rule absorb_grows)
  ultimately show "((c, fst m, b, emit (line_row sl (docA - ls) (snd m - ls) 0) docA (snd m) a (fst m) p), c, a, b, p)
     \<in> measure (\<lambda>(c, a, b, p). nat (b - a))" by auto
qed

declare emitContent.simps [simp del]

definition emitEmpty :: "composer \<Rightarrow> int \<Rightarrow> DisplayMap \<Rightarrow> DisplayMap" where
  "emitEmpty c cs p =
     (case (if segAt c cs = None \<and> 0 < cs then segAt c (cs - 1) else segAt c cs) of
        None \<Rightarrow> emit (line_row (-1) 0 0 0) 0 0 cs cs p
      | Some pc \<Rightarrow>
          if 0 < dpLength pc
          then let doc = max (min (dpDoc pc + (cs - dpDisp pc)) (dpDoc pc + dpLength pc)) (dpDoc pc);
                   sl = projLineOf (coStarts c) doc; ls = projLineStart (coStarts c) sl
               in emit (line_row sl (doc - ls) (doc - ls) 0) doc doc cs cs p
          else emit (line_row (-1) 0 0 0) (dpDoc pc) (dpDoc pc) cs cs p)"

text \<open>The folds of one line of the composition: the position reached, whether a row was emitted, the folds left.\<close>

fun emit_folds :: "composer \<Rightarrow> int \<Rightarrow> FoldRun list \<Rightarrow> int \<Rightarrow> bool \<Rightarrow> DisplayMap \<Rightarrow> DisplayMap \<times> int \<times> bool \<times> FoldRun list" where
  "emit_folds c ce [] pos emitted p = (p, pos, emitted, [])"
| "emit_folds c ce (f # fs) pos emitted p =
     (if fnDisp f \<le> ce
      then let p = (if pos < fnDisp f then emitContent c pos (fnDisp f) p else p);
               p = emit (line_row (-1) 0 0 (fnGroup f)) (fnDoc f) (fnDoc f + fnLength f) (fnDisp f) (fnDisp f) p
           in emit_folds c ce fs (fnDisp f) True p
      else (p, pos, emitted, f # fs))"

definition emit_line :: "composer \<Rightarrow> int \<Rightarrow> int \<Rightarrow> FoldRun list \<Rightarrow> DisplayMap \<Rightarrow> DisplayMap \<times> FoldRun list" where
  "emit_line c cs ce folds p =
     (case emit_folds c ce (dropWhile (\<lambda>f. fnDisp f < cs) folds) cs False p of
        (p, pos, emitted, fs) \<Rightarrow>
          (let p1 = (if pos < ce then emitContent c pos ce p else p)
           in (if emitted \<or> pos < ce then p1 else emitEmpty c cs p1, fs)))"

fun emit_lines :: "composer \<Rightarrow> int list \<Rightarrow> FoldRun list \<Rightarrow> DisplayMap \<Rightarrow> DisplayMap" where
  "emit_lines c [] folds p = p"
| "emit_lines c (cs # rest) folds p =
     (let ce = (case rest of [] \<Rightarrow> int (length (coComp c)) | next # _ \<Rightarrow> next - 1)
      in case emit_line c cs ce folds p of (p, fs) \<Rightarrow> emit_lines c rest fs p)"

definition emitRows :: "composer \<Rightarrow> DisplayMap \<Rightarrow> DisplayMap" where
  "emitRows c p =
     emit_lines c (NewIndex (coComp c)) (coFolds c) (p\<lparr>dmFirst := replicate (length (coStarts c)) (-1)\<rparr>)"

definition buildProjection :: "byte list \<Rightarrow> Seg list \<Rightarrow> DisplayMap option" where
  "buildProjection cmp segs =
     (if segs = [] then None
      else let (n, starts) = projectionStarts cmp segs; (pieces, folds) = splitSegs segs;
               p = \<lparr>dmText = cmp, dmStarts = starts, dmLen = n, dmRows = [], dmFirst = [], dmSessRows = [], dmFoldRows = []\<rparr>
           in Some (emitRows \<lparr>coComp = cmp, coStarts = starts, coPieces = pieces, coFolds = folds\<rparr> p))"

section \<open>Indexing the rows\<close>

fun reindex_loop :: "int \<Rightarrow> DispRow list \<Rightarrow> DisplayMap \<Rightarrow> DisplayMap" where
  "reindex_loop i [] p = p"
| "reindex_loop i (r # rs) p =
     reindex_loop (i + 1) rs
       (let d = rwLine r in
        if dlFold d \<noteq> 0 then p\<lparr>dmFoldRows := dmFoldRows p @ [i]\<rparr>
        else if 0 \<le> dlLine d
        then let p = p\<lparr>dmSessRows := dmSessRows p @ [i]\<rparr>
             in if dlLine d < int (length (dmFirst p)) \<and> dmFirst p ! nat (dlLine d) < 0
                then p\<lparr>dmFirst := (dmFirst p)[nat (dlLine d) := i]\<rparr> else p
        else p)"

definition reindex :: "DisplayMap \<Rightarrow> DisplayMap" where
  "reindex p =
     reindex_loop 0 (dmRows p) (p\<lparr>dmFirst := replicate (length (dmStarts p)) (-1), dmFoldRows := [], dmSessRows := []\<rparr>)"

section \<open>Reader folds\<close>

text \<open>Sorted ranges, overlapping and touching ones joined; the accumulator's last range grows.\<close>

fun join_folds :: "FoldRange \<Rightarrow> FoldRange list \<Rightarrow> FoldRange list" where
  "join_folds l [] = [l]"
| "join_folds l (f # fs) =
     (if frLo f \<le> frHi l then join_folds (if frHi l < frHi f then l\<lparr>frHi := frHi f\<rparr> else l) fs
      else l # join_folds f fs)"

text \<open>The rows, with those that start in a range replaced by one row of the range.\<close>

function hide_rows :: "FoldRange list \<Rightarrow> DispRow list \<Rightarrow> DispRow list" where
  "hide_rows fs [] = []"
| "hide_rows fs (r # rs) =
     (case dropWhile (\<lambda>f. frHi f \<le> rwDocLo r) fs of
        [] \<Rightarrow> r # hide_rows [] rs
      | f # fs1 \<Rightarrow>
          if frLo f \<le> rwDocLo r \<and> rwDocLo r < frHi f
          then disp_row (line_row (-1) 0 0 UserFold) (frLo f) (frHi f) 0 0
                 # hide_rows (f # fs1) (dropWhile (\<lambda>q. frLo f \<le> rwDocLo q \<and> rwDocLo q < frHi f) rs)
          else r # hide_rows (f # fs1) rs)"
  by pat_completeness auto
termination
proof (relation "measure (\<lambda>(fs, rs). length rs)")
  fix fs rs and f :: FoldRange and fs1 r
  show "((f # fs1, dropWhile (\<lambda>q. frLo f \<le> rwDocLo q \<and> rwDocLo q < frHi f) rs), fs, r # rs)
      \<in> measure (\<lambda>(fs, rs). length rs)"
    using length_dropWhile_le[of "\<lambda>q. frLo f \<le> rwDocLo q \<and> rwDocLo q < frHi f" rs] by (simp add: less_Suc_eq_le)
qed auto

definition hideUserFolds :: "FoldRange list \<Rightarrow> DisplayMap \<Rightarrow> DisplayMap" where
  "hideUserFolds folds p =
     (case sort_key frLo (filter (\<lambda>f. frLo f < frHi f) folds) of
        [] \<Rightarrow> p
      | f # fs \<Rightarrow> p\<lparr>dmRows := hide_rows (join_folds f fs) (dmRows p)\<rparr>)"

definition identity_seg :: "byte list \<Rightarrow> Seg" where
  "identity_seg cmp = \<lparr>sgDoc = 0, sgDisp = 0, sgLen = int (length cmp), sgDLen = int (length cmp), sgFold = False,
     sgGroup = 0, sgHiddenLines = 0\<rparr>"

definition BuildFolds :: "byte list \<Rightarrow> Seg list \<Rightarrow> FoldRange list \<Rightarrow> DisplayMap option" where
  "BuildFolds cmp segs user =
     (if segs = [] \<and> user = [] then None
      else let segs = (if segs = [] then [identity_seg cmp] else segs)
           in case buildProjection cmp segs of
                None \<Rightarrow> None
              | Some p \<Rightarrow> Some (reindex (if user \<noteq> [] then hideUserFolds user p else p)))"

definition Build :: "byte list \<Rightarrow> Seg list \<Rightarrow> DisplayMap option" where
  "Build cmp segs = BuildFolds cmp segs []"

section \<open>Reading the rows\<close>

definition dm_Text :: "DisplayMap option \<Rightarrow> byte list" where
  "dm_Text p = (case p of None \<Rightarrow> [] | Some p \<Rightarrow> dmText p)"

definition dm_Lines :: "DisplayMap option \<Rightarrow> int" where
  "dm_Lines p = (case p of None \<Rightarrow> 0 | Some p \<Rightarrow> int (length (dmRows p)))"

definition dm_At :: "DisplayMap option \<Rightarrow> int \<Rightarrow> DispLine" where
  "dm_At p line =
     (case p of None \<Rightarrow> line_row (-1) 0 0 0
      | Some p \<Rightarrow> if dmRows p = [] then line_row (-1) 0 0 0
                  else rwLine (dmRows p ! nat (max (min line (int (length (dmRows p)) - 1)) 0)))"

definition row_text :: "byte list \<Rightarrow> DispRow \<Rightarrow> byte list" where
  "row_text t r = sub_range (rwCompLo r) (rwCompHi r - rwCompLo r) t"

definition RowText :: "DisplayMap option \<Rightarrow> int \<Rightarrow> byte list" where
  "RowText p line =
     (case p of None \<Rightarrow> []
      | Some p \<Rightarrow> if line < 0 \<or> int (length (dmRows p)) \<le> line then [] else row_text (dmText p) (dmRows p ! nat line))"

definition dm_Fold :: "DisplayMap option \<Rightarrow> int \<Rightarrow> (nat \<times> int) option" where
  "dm_Fold p line =
     (case p of None \<Rightarrow> None
      | Some p \<Rightarrow>
          if line < 0 \<or> int (length (dmRows p)) \<le> line then None
          else let r = dmRows p ! nat line
               in if dlFold (rwLine r) = 0 then None else Some (dlFold (rwLine r), rwDocHi r - rwDocLo r))"

definition DispOfDocLine :: "DisplayMap option \<Rightarrow> int \<Rightarrow> int" where
  "DispOfDocLine p line =
     (case p of None \<Rightarrow> -1
      | Some p \<Rightarrow> if line < 0 \<or> int (length (dmFirst p)) \<le> line then -1 else dmFirst p ! nat line)"

definition DocAt :: "DisplayMap option \<Rightarrow> int \<Rightarrow> int \<Rightarrow> int" where
  "DocAt p line col =
     (case p of None \<Rightarrow> -1
      | Some p \<Rightarrow>
          if dmRows p = [] then -1
          else let r = dmRows p ! nat (max (min line (int (length (dmRows p)) - 1)) 0); d = rwLine r
               in if dlFold d \<noteq> 0 \<or> dlLine d < 0 then rwDocLo r
                  else rwDocLo r + (max (min col (dlHi d)) (dlLo d) - dlLo d))"

definition row_at :: "DisplayMap \<Rightarrow> int list \<Rightarrow> int \<Rightarrow> int" where
  "row_at p idx off = sort_Search (int (length idx)) (\<lambda>k. off < rwDocLo (dmRows p ! nat (idx ! nat k)))"

definition findRange :: "DisplayMap \<Rightarrow> int list \<Rightarrow> int \<Rightarrow> int option" where
  "findRange p idx off =
     (let i = row_at p idx off
      in if 0 < i \<and> off < rwDocHi (dmRows p ! nat (idx ! nat (i - 1))) then Some (idx ! nat (i - 1)) else None)"

text \<open>The scan of \<open>lineEndRow\<close> over the rows from one on.\<close>

fun line_end_scan :: "int \<Rightarrow> int \<Rightarrow> int \<Rightarrow> DispRow list \<Rightarrow> int" where
  "line_end_scan sl want r [] = -1"
| "line_end_scan sl want r (q # qs) =
     (let d = rwLine q in
      if dlLine d < 0 then line_end_scan sl want (r + 1) qs
      else if sl < dlLine d then -1
      else if dlHi d = want then r
      else line_end_scan sl want (r + 1) qs)"

definition lineEndRow :: "DisplayMap \<Rightarrow> int \<Rightarrow> int" where
  "lineEndRow p off =
     (let sl = projLineOf (dmStarts p) off
      in if sl < 0 \<or> int (length (dmFirst p)) \<le> sl then -1
         else let want = off - projLineStart (dmStarts p) sl; r = dmFirst p ! nat sl
              in if r < 0 then -1 else line_end_scan sl want r (drop (nat r) (dmRows p)))"

definition nearest :: "DisplayMap \<Rightarrow> int \<Rightarrow> int \<times> int" where
  "nearest p off =
     (let i = row_at p (dmSessRows p) off; best = (if 0 < i then dmSessRows p ! nat (i - 1) else -1);
          j = row_at p (dmFoldRows p) off; r = dmFoldRows p ! nat (j - 1);
          best = (if 0 < j \<and> (best < 0 \<or> rwDocLo (dmRows p ! nat best) < rwDocLo (dmRows p ! nat r)) then r else best)
      in if best < 0 then (if dmRows p \<noteq> [] then (0, 0) else (-1, 0))
         else let d = rwLine (dmRows p ! nat best) in if dlLine d < 0 then (best, 0) else (best, dlHi d))"

definition DispOfDoc :: "DisplayMap option \<Rightarrow> int \<Rightarrow> int \<times> int" where
  "DispOfDoc p off =
     (case p of None \<Rightarrow> (-1, 0)
      | Some p \<Rightarrow>
          if dmRows p = [] then (-1, 0)
          else let off = max (min off (dmLen p)) 0
               in case findRange p (dmFoldRows p) off of
                    Some r \<Rightarrow> (r, 0)
                  | None \<Rightarrow>
                      case findRange p (dmSessRows p) off of
                        Some r \<Rightarrow> let q = dmRows p ! nat r in (r, dlLo (rwLine q) + (off - rwDocLo q))
                      | None \<Rightarrow> let r = lineEndRow p off
                                in if 0 \<le> r then (r, dlHi (rwLine (dmRows p ! nat r))) else nearest p off)"

end
