(* ===== verification/PaneView.thy ===== *)
theory PaneView
  imports EditorFile EditorCursors DisplayMap Wrap
begin

text \<open>
  A pane (\<open>internal/editor/pane.go\<close>): an open document, its cursors and the window onto it, with the display projection
  between the document and the screen, the reader's folds (\<open>fold.go\<close>), wrapped rows (\<open>wrap.go\<close>) and the history of cursor
  positions. Labels, disk marks, focus and what only rendering reads are left out. The slice of the cursors keeps its array
  when cursors merge: \<open>pnStale\<close> holds the cells behind the list, which a loop over the slice taken before still reads.
  Following the cursor clamps the stored primary index, as reading the primary does.
\<close>

section \<open>The state\<close>

record Fold =
  fdStart :: int
  fdEnd :: int
  fdLo :: int
  fdHi :: int
  fdClosed :: bool

record Pane =
  pnFile :: File
  pnCursors :: Cursors
  pnStale :: "Cursor list"
  pnView :: Viewport
  pnAuthor :: author
  pnLeaseHit :: nat
  pnLeaseBlocked :: bool
  pnWrap :: bool
  pnAutoPairs :: bool
  pnDisp :: "DisplayMap option"
  pnDispVersion :: nat
  pnDispGen :: nat
  pnDispPolicy :: Policy
  pnDispKeyValid :: bool
  pnFolds :: "Fold list"
  pnFoldVersion :: int
  pnFoldRev :: nat
  pnDispFoldRev :: nat
  pnHistory :: "(Cursor list \<times> int) list"

definition NewPane :: "File \<Rightarrow> Pane" where
  "NewPane f = \<lparr>pnFile = f, pnCursors = NewCursors, pnStale = [],
     pnView = \<lparr>vpTop = 0, vpLeft = 0, vpTopRow = 0, vpCols = 0, vpRows = 0, vpScrollOff = 2\<rparr>,
     pnAuthor = User, pnLeaseHit = 0, pnLeaseBlocked = False, pnWrap = False, pnAutoPairs = False, pnDisp = None,
     pnDispVersion = 0, pnDispGen = 0, pnDispPolicy = AcceptedOnly, pnDispKeyValid = False, pnFolds = [], pnFoldVersion = 0,
     pnFoldRev = 0, pnDispFoldRev = 0, pnHistory = []\<rparr>"

section \<open>Reader folds\<close>

definition SetFolds :: "Pane \<Rightarrow> Fold list \<Rightarrow> int \<Rightarrow> Pane" where
  "SetFolds p folds version =
     (let keep = (\<lambda>f. case find (\<lambda>old. fdStart old = fdStart f \<and> fdEnd old = fdEnd f) (pnFolds p) of
                        None \<Rightarrow> f | Some old \<Rightarrow> f\<lparr>fdClosed := fdClosed old\<rparr>)
      in p\<lparr>pnFolds := map keep folds, pnFoldVersion := version, pnFoldRev := pnFoldRev p + 1\<rparr>)"

definition ClearFolds :: "Pane \<Rightarrow> Pane" where
  "ClearFolds p =
     (if pnFolds p = [] \<and> pnFoldVersion p = 0 then p
      else p\<lparr>pnFolds := [], pnFoldVersion := 0, pnFoldRev := pnFoldRev p + 1\<rparr>)"

definition FoldCount :: "Pane \<Rightarrow> int" where "FoldCount p = int (length (pnFolds p))"

definition hiddenFoldRanges :: "Pane \<Rightarrow> FoldRange list" where
  "hiddenFoldRanges p =
     (if pnFolds p = [] \<or> pnFoldVersion p \<noteq> int (Version (flSess (pnFile p))) then []
      else map (\<lambda>f. \<lparr>frLo = fdLo f, frHi = fdHi f\<rparr>) (filter (\<lambda>f. fdClosed f \<and> fdLo f < fdHi f) (pnFolds p)))"

definition innermost :: "Fold \<Rightarrow> Fold \<Rightarrow> bool" where
  "innermost a b =
     (let sa = fdEnd a - fdStart a; sb = fdEnd b - fdStart b in if sa \<noteq> sb then sa < sb else fdStart b < fdStart a)"

fun best_fold :: "int \<Rightarrow> nat \<Rightarrow> Fold list \<Rightarrow> (nat \<times> Fold) option \<Rightarrow> (nat \<times> Fold) option" where
  "best_fold line i [] best = best"
| "best_fold line i (f # fs) best =
     best_fold line (i + 1) fs
       (if line < fdStart f \<or> fdEnd f < line then best
        else case best of None \<Rightarrow> Some (i, f) | Some (j, g) \<Rightarrow> if innermost f g then Some (i, f) else best)"

definition ToggleFoldAt :: "Pane \<Rightarrow> int \<Rightarrow> Fold option \<times> Pane" where
  "ToggleFoldAt p line =
     (case best_fold line 0 (pnFolds p) None of
        None \<Rightarrow> (None, p)
      | Some (i, f) \<Rightarrow>
          let g = f\<lparr>fdClosed := \<not> fdClosed f\<rparr>
          in (Some g, p\<lparr>pnFolds := (pnFolds p)[i := g], pnFoldRev := pnFoldRev p + 1\<rparr>))"

section \<open>The display\<close>

definition view_seg :: "ProjSeg \<Rightarrow> Seg" where
  "view_seg s = \<lparr>sgDoc = pgDoc s, sgDisp = pgDisp s, sgLen = pgLen s, sgDLen = pgDLen s, sgFold = pgHide s,
     sgGroup = pgGroup s, sgHiddenLines = int (pgHiddenLines s)\<rparr>"

definition SetDisplay :: "Pane \<Rightarrow> Policy \<Rightarrow> Pane" where
  "SetDisplay p policy =
     (let d = Project (flSess (pnFile p)) policy
      in p\<lparr>pnDisp := BuildFolds (Text d) (map view_seg (dpSegments d)) (hiddenFoldRanges p),
           pnDispVersion := Version (flSess (pnFile p)), pnDispGen := flDecisionGen (pnFile p), pnDispPolicy := policy,
           pnDispKeyValid := True, pnDispFoldRev := pnFoldRev p\<rparr>)"

definition UpdateDisplay :: "Pane \<Rightarrow> Policy \<Rightarrow> Pane" where
  "UpdateDisplay p policy =
     (if pnDispKeyValid p \<and> pnDispPolicy p = policy \<and> pnDispVersion p = Version (flSess (pnFile p)) \<and>
         pnDispGen p = flDecisionGen (pnFile p) \<and> pnDispFoldRev p = pnFoldRev p
      then p else SetDisplay p policy)"

definition invalidateDisplay :: "Pane \<Rightarrow> Pane" where
  "invalidateDisplay p = ClearFolds (p\<lparr>pnDisp := None, pnDispKeyValid := False\<rparr>)"

definition DisplayLines :: "Pane \<Rightarrow> int" where
  "DisplayLines p = (if pnDisp p \<noteq> None then dm_Lines (pnDisp p) else fl_Lines (pnFile p))"

definition pn_RowText :: "Pane \<Rightarrow> int \<Rightarrow> byte list" where
  "pn_RowText p i =
     (if pnDisp p = None then (if i < 0 \<or> fl_Lines (pnFile p) \<le> i then [] else fl_Line (pnFile p) i)
      else RowText (pnDisp p) i)"

text \<open>A row: its session line, the bytes of it that are shown, and whether it is a fold.\<close>

definition pn_line :: "Pane \<Rightarrow> int \<Rightarrow> int \<times> int \<times> int \<times> bool" where
  "pn_line p i =
     (if pnDisp p = None
      then (if i < 0 \<or> fl_Lines (pnFile p) \<le> i then (i, 0, 0, False)
            else (i, 0, int (length (fl_Line (pnFile p) i)), False))
      else if i < 0 \<or> dm_Lines (pnDisp p) \<le> i then (i, 0, 0, False)
      else let d = dm_At (pnDisp p) i in
        if dlLine d < 0 then (-1, 0, 0, dlFold d \<noteq> 0)
        else if fl_Lines (pnFile p) \<le> dlLine d then (dlLine d, 0, 0, False)
        else let lineLen = fl_LineEnd (pnFile p) (dlLine d) - fl_LineStart (pnFile p) (dlLine d);
                 hi = (if lineLen < dlHi d then lineLen else dlHi d);
                 lo = (if dlLo d < 0 then 0 else dlLo d);
                 lo = (if hi < lo then hi else lo)
             in (dlLine d, lo, hi, False))"

definition pn_Fold :: "Pane \<Rightarrow> int \<Rightarrow> (nat \<times> int) option" where
  "pn_Fold p i = (if pnDisp p = None then None else dm_Fold (pnDisp p) i)"

definition pn_DispOfDocLine :: "Pane \<Rightarrow> int \<Rightarrow> int" where
  "pn_DispOfDocLine p line =
     (if line < 0 \<or> fl_Lines (pnFile p) \<le> line then -1
      else if pnDisp p = None then line else DispOfDocLine (pnDisp p) line)"

definition dispLineOf :: "Pane \<Rightarrow> int \<Rightarrow> int" where
  "dispLineOf p off =
     (if pnDisp p = None then fl_LineOf (pnFile p) off
      else let line = fst (DispOfDoc (pnDisp p) off) in
        if 0 \<le> line \<and> line < dm_Lines (pnDisp p) then line
        else let line = DispOfDocLine (pnDisp p) (fl_LineOf (pnFile p) off) in
          if 0 \<le> line \<and> line < dm_Lines (pnDisp p) then line else 0)"

definition clamp :: "int \<Rightarrow> int \<Rightarrow> int \<Rightarrow> int" where
  "clamp v lo hi = (if v < lo then lo else if hi < v then hi else v)"

definition DispPos :: "Pane \<Rightarrow> int \<Rightarrow> int \<times> int" where
  "DispPos p off =
     (if pnDisp p = None then fl_LineCol (pnFile p) off
      else let line = dispLineOf p off; (sl, lo, _, _) = pn_line p line in
        if sl < 0 then (line, 0)
        else let full = fl_Line (pnFile p) sl;
                 within = clamp (off - fl_LineStart (pnFile p) sl) 0 (int (length full));
                 hints = fl_HintCols (pnFile p) sl
             in (line, ColOfHints (flCols (pnFile p)) full within hints - ColOfHints (flCols (pnFile p)) full lo hints))"

definition pn_DocAt :: "Pane \<Rightarrow> int \<Rightarrow> int \<Rightarrow> int" where
  "pn_DocAt p line col =
     (if pnDisp p = None then fl_OffsetAt (pnFile p) line col
      else if line < 0 then 0
      else if dm_Lines (pnDisp p) \<le> line then fl_Len (pnFile p)
      else let (sl, lo, hi, _) = pn_line p line in
        if sl < 0 then DocAt (pnDisp p) line col
        else let text = sub_range lo (hi - lo) (fl_Line (pnFile p) sl)
             in fl_LineStart (pnFile p) sl + lo + OffsetOf (flCols (pnFile p)) text col)"

definition snapOut :: "Pane \<Rightarrow> int \<Rightarrow> int \<Rightarrow> int" where
  "snapOut p off dir =
     (if pnDisp p = None then off
      else let line = dispLineOf p off; (sl, _, _, fold) = pn_line p line in
        if 0 \<le> sl then off
        else let start = pn_DocAt p line 0 in
          if \<not> fold then start
          else case pn_Fold p line of
            None \<Rightarrow> start
          | Some (_, hidden) \<Rightarrow>
              if hidden \<le> 0 then start
              else let stop = start + hidden in
                if off \<le> start then start
                else if stop \<le> off then stop
                else if dir < 0 then start
                else if 0 < dir then stop
                else if off - start \<le> stop - off then start
                else stop)"

section \<open>Wrapped rows\<close>

definition textWidth :: "Pane \<Rightarrow> int" where
  "textWidth p = (let w = vpCols (pnView p) in if w < 1 then 1 else w)"

definition line_slice :: "Pane \<Rightarrow> int \<Rightarrow> int \<Rightarrow> int \<Rightarrow> byte list" where
  "line_slice p sl lo hi = sub_range lo (hi - lo) (fl_Line (pnFile p) sl)"

definition row_breaks :: "Pane \<Rightarrow> byte list \<Rightarrow> int list" where
  "row_breaks p text = AppendWrap (flCols (pnFile p)) [] text (textWidth p) BreakHybrid"

definition lineBreaks :: "Pane \<Rightarrow> int \<Rightarrow> int list \<times> byte list" where
  "lineBreaks p line =
     (let (sl, lo, hi, fold) = pn_line p line in
      if sl < 0 then (if fold \<or> pnDisp p = None then ([], []) else ([], RowText (pnDisp p) line))
      else let text = line_slice p sl lo hi in if \<not> pnWrap p then ([], text) else (row_breaks p text, text))"

definition RowsInLine :: "Pane \<Rightarrow> int \<Rightarrow> int" where
  "RowsInLine p line =
     (let (sl, lo, hi, _) = pn_line p line in
      if sl < 0 \<or> \<not> pnWrap p then 1
      else WrapRows (flCols (pnFile p)) (line_slice p sl lo hi) (textWidth p) BreakHybrid)"

definition cursorRowColDoc :: "Pane \<Rightarrow> int \<Rightarrow> int \<times> int \<times> int" where
  "cursorRowColDoc p off =
     (let line = fl_LineOf (pnFile p) off; text = fl_Line (pnFile p) line; within = off - fl_LineStart (pnFile p) line in
      if \<not> pnWrap p then (line, 0, ColOf (flCols (pnFile p)) text within)
      else let (row, col) = RowOfBreaks (flCols (pnFile p)) (row_breaks p text) text within;
               hs = fl_HintCols (pnFile p) line
           in (line, row, if hs \<noteq> [] \<and> row = 0 then ColOfHints (flCols (pnFile p)) text within hs else col))"

definition cursorRowCol :: "Pane \<Rightarrow> int \<Rightarrow> int \<times> int \<times> int" where
  "cursorRowCol p off =
     (if pnDisp p = None then cursorRowColDoc p off
      else let line = dispLineOf p off; (sl, lo, hi, _) = pn_line p line in
        if sl < 0 then (line, 0, 0)
        else let full = fl_Line (pnFile p) sl;
                 within = clamp (off - fl_LineStart (pnFile p) sl) 0 (int (length full));
                 text = sub_range lo (hi - lo) full; rel = clamp (within - lo) 0 (int (length text));
                 hs = fl_HintCols (pnFile p) sl
             in if \<not> pnWrap p
                then (line, 0, ColOfHints (flCols (pnFile p)) full within hs - ColOfHints (flCols (pnFile p)) full lo hs)
                else let (row, col) = RowOfBreaks (flCols (pnFile p)) (row_breaks p text) text rel
                     in (line, row, if hs \<noteq> [] \<and> row = 0 \<and> lo = 0 then ColOfHints (flCols (pnFile p)) full within hs else col))"

definition stepRow :: "Pane \<Rightarrow> int \<Rightarrow> int \<times> int \<Rightarrow> int \<times> int" where
  "stepRow p dir = (\<lambda>(line, row).
     if 0 < dir
     then (if row + 1 < RowsInLine p line then (line, row + 1)
           else if line + 1 < DisplayLines p then (line + 1, 0) else (line, row))
     else if 0 < row then (line, row - 1)
     else if 0 < line then (line - 1, RowsInLine p (line - 1) - 1)
     else (line, row))"

definition beforeRow :: "int \<times> int \<Rightarrow> int \<times> int \<Rightarrow> bool" where
  "beforeRow a b \<longleftrightarrow> fst a < fst b \<or> (fst a = fst b \<and> snd a < snd b)"

text \<open>Steps, stopping where a step no longer moves.\<close>

fun step_rows :: "Pane \<Rightarrow> int \<Rightarrow> nat \<Rightarrow> int \<times> int \<Rightarrow> int \<times> int" where
  "step_rows p dir 0 at = at"
| "step_rows p dir (Suc n) at = (let next = stepRow p dir at in if next = at then at else step_rows p dir n next)"

definition clampWrapTop :: "Pane \<Rightarrow> Pane" where
  "clampWrapTop p =
     (let v = pnView p;
          v = (if vpTop v < 0 then v\<lparr>vpTop := 0, vpTopRow := 0\<rparr> else v);
          mx = DisplayLines p - 1;
          v = (if mx < vpTop v then v\<lparr>vpTop := (if mx < 0 then 0 else mx), vpTopRow := 0\<rparr> else v);
          n = RowsInLine p (vpTop v);
          v = (if n \<le> vpTopRow v then v\<lparr>vpTopRow := n - 1\<rparr> else v);
          v = (if vpTopRow v < 0 then v\<lparr>vpTopRow := 0\<rparr> else v)
      in p\<lparr>pnView := v\<rparr>)"

definition primary :: "Pane \<Rightarrow> Cursor" where "primary p = fst (Primary (pnCursors p))"
definition touch_primary :: "Pane \<Rightarrow> Pane" where "touch_primary p = p\<lparr>pnCursors := snd (Primary (pnCursors p))\<rparr>"

text \<open>The walk over the rows of a pane: whether the position is among them, or the document ends there.\<close>

fun row_visible :: "Pane \<Rightarrow> int \<times> int \<Rightarrow> nat \<Rightarrow> int \<times> int \<Rightarrow> bool" where
  "row_visible p at 0 t \<longleftrightarrow> False"
| "row_visible p at (Suc n) t \<longleftrightarrow> (if t = at then True else let next = stepRow p 1 t in if next = t then True else row_visible p at n next)"

definition set_top :: "Pane \<Rightarrow> int \<times> int \<Rightarrow> Pane" where
  "set_top p t = (let p = clampWrapTop (p\<lparr>pnView := (pnView p)\<lparr>vpTop := fst t, vpTopRow := snd t\<rparr>\<rparr>)
                  in p\<lparr>pnView := (pnView p)\<lparr>vpLeft := 0\<rparr>\<rparr>)"

definition followCursorWrapped :: "Pane \<Rightarrow> Pane" where
  "followCursorWrapped p =
     (let (line, row, _) = cursorRowCol p (cuHead (primary p)); p = touch_primary p; v = pnView p;
          off = vpScrollOff v; off = (if 0 < vpRows v \<and> vpRows v \<le> off * 2 then (vpRows v - 1) sdiv 2 else off)
      in if beforeRow (line, row) (vpTop v, vpTopRow v) then set_top p (step_rows p (-1) (nat off) (line, row))
         else let limit = (if vpRows v - off < 1 then 1 else vpRows v - off)
              in if row_visible p (line, row) (nat limit) (vpTop v, vpTopRow v) then p\<lparr>pnView := v\<lparr>vpLeft := 0\<rparr>\<rparr>
                 else set_top p (step_rows p (-1) (nat (vpRows v - 1 - off)) (line, row)))"

definition pn_scrollRows :: "Pane \<Rightarrow> int \<Rightarrow> Pane" where
  "pn_scrollRows p delta =
     (let t = step_rows p (if delta < 0 then -1 else 1) (nat \<bar>delta\<bar>) (vpTop (pnView p), vpTopRow (pnView p))
      in clampWrapTop (p\<lparr>pnView := (pnView p)\<lparr>vpTop := fst t, vpTopRow := snd t\<rparr>\<rparr>))"

section \<open>Following the cursor\<close>

definition pn_Resize :: "Pane \<Rightarrow> int \<Rightarrow> int \<Rightarrow> Pane" where
  "pn_Resize p cols rows =
     (let p = p\<lparr>pnView := Resize (pnView p) cols rows (DisplayLines p)\<rparr> in if pnWrap p then clampWrapTop p else p)"

definition FollowCursor :: "Pane \<Rightarrow> Pane" where
  "FollowCursor p =
     (if pnWrap p then followCursorWrapped p
      else let (line, col) = DispPos p (cuHead (primary p)); p = touch_primary p
           in p\<lparr>pnView := ScrollTo (pnView p) line col (DisplayLines p)\<rparr>)"

section \<open>Where the cursors were\<close>

definition cursorHistoryLimit :: nat where "cursorHistoryLimit = 50"

definition pushCursorHistory :: "Pane \<Rightarrow> Pane" where
  "pushCursorHistory p =
     (let s = cs_State (pnCursors p); h = pnHistory p
      in if h \<noteq> [] \<and> last h = s then p
         else let h = h @ [s]
              in p\<lparr>pnHistory := (if cursorHistoryLimit < length h then drop (length h - cursorHistoryLimit) h else h)\<rparr>)"

definition popCursorHistory :: "Pane \<Rightarrow> bool \<times> Pane" where
  "popCursorHistory p =
     (if pnHistory p = [] then (False, p)
      else let (l, i) = last (pnHistory p)
           in (True, FollowCursor (p\<lparr>pnHistory := butlast (pnHistory p), pnCursors := cs_Restore (pnCursors p) l i\<rparr>)))"

end
