(* ===== verification/DisplayLaw.thy ===== *)
theory DisplayLaw
  imports DisplayMap
begin

text \<open>
  What the display projection lays out. Every byte of the composition but its newlines is drawn by one row, in order
  (\<open>rows_draw\<close>); the rows follow the session without overlapping, each on the bytes it shows, and every hidden run has
  its row (\<open>rows_follow\<close>).
\<close>

section \<open>Binary search\<close>

lemma search_loop_spec:
  "i \<le> j \<Longrightarrow> i \<le> search_loop f i j \<and> search_loop f i j \<le> j \<and> (search_loop f i j < j \<longrightarrow> f (search_loop f i j)) \<and>
     (i < search_loop f i j \<longrightarrow> \<not> f (search_loop f i j - 1))"
proof (induction f i j rule: search_loop.induct)
  case (1 f i j)
  define h where "h = (i + j) div 2"
  show ?case
  proof (cases "i < j")
    case True
    then have h: "i \<le> h" "h < j" by (auto simp: h_def)
    show ?thesis
    proof (cases "f h")
      case True
      then have "search_loop f i j = search_loop f i h" using \<open>i < j\<close> by (subst search_loop.simps) (simp add: h_def Let_def)
      then show ?thesis using 1(2)[OF \<open>i < j\<close> h_def] True h by (cases "search_loop f i h = h") auto
    next
      case False
      then have "search_loop f i j = search_loop f (h + 1) j" using \<open>i < j\<close> by (subst search_loop.simps) (simp add: h_def Let_def)
      then show ?thesis using 1(1)[OF \<open>i < j\<close> h_def False] False h by (cases "search_loop f (h + 1) j = h + 1") auto
    qed
  next
    case False
    then show ?thesis using 1(3) by (subst (1 2 3 4 5 6) search_loop.simps) simp
  qed
qed

text \<open>Over a monotone predicate the search finds where it starts to hold.\<close>

lemma sort_Search_spec:
  assumes "0 \<le> n" "\<And>a b. 0 \<le> a \<Longrightarrow> a \<le> b \<Longrightarrow> b < n \<Longrightarrow> f a \<Longrightarrow> f b"
  shows "0 \<le> sort_Search n f" "sort_Search n f \<le> n" "0 \<le> k \<Longrightarrow> k < n \<Longrightarrow> f k \<longleftrightarrow> sort_Search n f \<le> k"
proof -
  note s = search_loop_spec[OF assms(1), of f, folded sort_Search_def]
  show "0 \<le> sort_Search n f" "sort_Search n f \<le> n" using s by auto
  assume k: "0 \<le> k" "k < n"
  show "f k \<longleftrightarrow> sort_Search n f \<le> k"
  proof
    assume "f k"
    show "sort_Search n f \<le> k"
    proof (rule ccontr)
      assume "\<not> sort_Search n f \<le> k"
      then have "0 < sort_Search n f" "k \<le> sort_Search n f - 1" using k by auto
      then show False using s assms(2)[of k "sort_Search n f - 1"] k \<open>f k\<close> by auto
    qed
  next
    assume "sort_Search n f \<le> k"
    then show "f k" using s assms(2)[of "sort_Search n f" k] k by auto
  qed
qed

lemma sort_Search_at:
  assumes "0 \<le> n" "\<And>a b. 0 \<le> a \<Longrightarrow> a \<le> b \<Longrightarrow> b < n \<Longrightarrow> f a \<Longrightarrow> f b" "0 \<le> k" "k < n" "f k" "0 < k \<Longrightarrow> \<not> f (k - 1)"
  shows "sort_Search n f = k"
proof -
  have at: "f i \<longleftrightarrow> sort_Search n f \<le> i" if "0 \<le> i" "i < n" for i
    by (rule sort_Search_spec(3)[OF assms(1)]) (use assms(2) that in blast)+
  have "0 \<le> sort_Search n f" by (rule sort_Search_spec(1)[OF assms(1)]) (use assms(2) in blast)
  then show ?thesis using at[of k] at[of "k - 1"] assms(3-6) by (cases "0 < k") force+
qed

section \<open>Aligned segments\<close>

text \<open>Segments one after the other, from where the previous ended in both texts to the end of both.\<close>

fun seg_run :: "int \<Rightarrow> int \<Rightarrow> Seg list \<Rightarrow> int \<Rightarrow> int \<Rightarrow> bool" where
  "seg_run d x [] n m \<longleftrightarrow> d = n \<and> x = m"
| "seg_run d x (s # ss) n m \<longleftrightarrow>
     sgDoc s = d \<and> sgDisp s = x \<and> 0 \<le> sgLen s \<and> 0 \<le> sgDLen s \<and>
     (if sgFold s then 0 < sgLen s \<and> sgDLen s = 0 \<and> sgGroup s \<noteq> 0 else sgLen s = sgDLen s \<or> sgLen s = 0) \<and>
     seg_run (d + sgLen s) (x + sgDLen s) ss n m"

fun disp_run :: "int \<Rightarrow> Seg list \<Rightarrow> int \<Rightarrow> bool" where
  "disp_run x [] m \<longleftrightarrow> x = m"
| "disp_run x (s # ss) m \<longleftrightarrow> sgDisp s = x \<and> 0 \<le> sgDLen s \<and> (sgFold s \<longrightarrow> sgDLen s = 0) \<and> disp_run (x + sgDLen s) ss m"

lemma seg_run_disp: "seg_run d x ss n m \<Longrightarrow> disp_run x ss m"
  by (induction ss arbitrary: d x) (auto split: if_splits)

lemma disp_run_bounds: "disp_run x ss m \<Longrightarrow> x \<le> m \<and> (\<forall>s \<in> set ss. x \<le> sgDisp s \<and> sgDisp s + sgDLen s \<le> m)"
  by (induction ss arbitrary: x) force+

lemma disp_run_order: "disp_run x ss m \<Longrightarrow> sorted_wrt (\<lambda>s t. sgDisp s + sgDLen s \<le> sgDisp t) ss"
proof (induction ss arbitrary: x)
  case (Cons s ss)
  then show ?case using disp_run_bounds[of "x + sgDLen s" ss m] by auto
qed simp

lemma disp_run_fold: "disp_run x ss m \<Longrightarrow> s \<in> set ss \<Longrightarrow> sgFold s \<Longrightarrow> sgDLen s = 0"
  by (induction ss arbitrary: x) auto

lemma seg_run_bounds: "seg_run d x ss n m \<Longrightarrow> d \<le> n \<and> (\<forall>s \<in> set ss. d \<le> sgDoc s \<and> sgDoc s + sgLen s \<le> n)"
  by (induction ss arbitrary: d x) (force split: if_splits)+

lemma seg_run_order: "seg_run d x ss n m \<Longrightarrow> sorted_wrt (\<lambda>s t. sgDoc s + sgLen s \<le> sgDoc t) ss"
proof (induction ss arbitrary: d x)
  case (Cons s ss)
  then show ?case using seg_run_bounds[of "d + sgLen s" "x + sgDLen s" ss n m] by auto
qed simp

lemma seg_run_sum: "seg_run d x ss n m \<Longrightarrow> (\<Sum>s\<leftarrow>ss. sgLen s) = n - d"
  by (induction ss arbitrary: d x) (auto split: if_splits)

section \<open>Pieces\<close>

fun pieces_run :: "int \<Rightarrow> DispPiece list \<Rightarrow> int \<Rightarrow> bool" where
  "pieces_run x [] m \<longleftrightarrow> x = m"
| "pieces_run x (p # ps) m \<longleftrightarrow> dpDisp p = x \<and> 0 < dpDLen p \<and> pieces_run (x + dpDLen p) ps m"

lemma pieces_of_segs:
  "disp_run x segs m \<Longrightarrow> pieces_run x (map seg_piece (filter (\<lambda>s. \<not> sgFold s \<and> 0 < sgDLen s) segs)) m"
proof (induction segs arbitrary: x)
  case (Cons s segs)
  then show ?case by (cases "sgFold s \<or> sgDLen s \<le> 0") (auto simp: seg_piece_def)
qed simp

lemma pieces_run_bounds: "pieces_run x ps m \<Longrightarrow> x \<le> m \<and> (\<forall>p \<in> set ps. x \<le> dpDisp p \<and> 0 < dpDLen p \<and> dpDisp p + dpDLen p \<le> m)"
  by (induction ps arbitrary: x) force+

lemma pieces_run_order: "pieces_run x ps m \<Longrightarrow> sorted_wrt (\<lambda>p q. dpDisp p + dpDLen p \<le> dpDisp q) ps"
proof (induction ps arbitrary: x)
  case (Cons p ps)
  then show ?case using pieces_run_bounds[of "x + dpDLen p" ps m] by auto
qed simp

lemma pieces_run_cover: "pieces_run x ps m \<Longrightarrow> x \<le> off \<Longrightarrow> off < m \<Longrightarrow> \<exists>p \<in> set ps. dpDisp p \<le> off \<and> off < dpDisp p + dpDLen p"
proof (induction ps arbitrary: x)
  case (Cons p ps)
  then show ?case by (cases "off < x + dpDLen p") auto
qed simp

lemma sorted_key_order:
  assumes "sorted_wrt (\<lambda>p q. k p + l p \<le> (k q :: int)) xs" "\<And>p. p \<in> set xs \<Longrightarrow> 0 \<le> l p"
  shows "sort_key k xs = xs"
proof -
  have "sorted_wrt (\<lambda>p q. k p \<le> k q) xs" using assms by (induction xs) force+
  then show ?thesis by (intro sort_key_id_if_sorted) (simp add: sorted_map)
qed

lemma splitSegs_run:
  assumes "disp_run 0 segs m"
  shows "splitSegs segs = (map seg_piece (filter (\<lambda>s. \<not> sgFold s \<and> 0 < sgDLen s) segs), map seg_fold (filter sgFold segs))"
proof -
  have "sort_key dpDisp (map seg_piece (filter (\<lambda>s. \<not> sgFold s \<and> 0 < sgDLen s) segs))
    = map seg_piece (filter (\<lambda>s. \<not> sgFold s \<and> 0 < sgDLen s) segs)"
    using pieces_run_order[OF pieces_of_segs[OF assms]] pieces_run_bounds[OF pieces_of_segs[OF assms]]
    by (intro sorted_key_order[where l = dpDLen]) force+
  moreover have "sorted_wrt (\<lambda>s t. sgDisp s + sgDLen s \<le> sgDisp t) (filter sgFold segs)"
    using disp_run_order[OF assms] by (rule sorted_wrt_filter)
  then have "sorted_wrt (\<lambda>p q. fnDisp p + 0 \<le> fnDisp q) (map seg_fold (filter sgFold segs))"
    using disp_run_fold[OF assms] by (auto simp: sorted_wrt_map seg_fold_def elim!: sorted_wrt_mono_rel[rotated])
  then have "sort_key fnDisp (map seg_fold (filter sgFold segs)) = map seg_fold (filter sgFold segs)"
    by (intro sorted_key_order[where l = "\<lambda>_. 0"]) auto
  ultimately show ?thesis by (simp add: splitSegs_def)
qed

section \<open>The composer\<close>

definition co_len :: "composer \<Rightarrow> int" where "co_len c = int (length (coComp c))"

definition composing :: "composer \<Rightarrow> bool" where "composing c \<longleftrightarrow> pieces_run 0 (coPieces c) (co_len c)"

definition covers_at :: "DispPiece \<Rightarrow> int \<Rightarrow> bool" where
  "covers_at pc x \<longleftrightarrow> dpDisp pc \<le> x \<and> x < dpDisp pc + dpDLen pc"

lemma piece_unique:
  assumes "composing c" "p \<in> set (coPieces c)" "q \<in> set (coPieces c)" "covers_at p x" "covers_at q x"
  shows "p = q"
proof -
  have "p = q" if "sorted_wrt (\<lambda>p q. dpDisp p + dpDLen p \<le> dpDisp q) ps" "p \<in> set ps" "q \<in> set ps" for ps
    using that assms(4,5) by (induction ps) (fastforce simp: covers_at_def)+
  then show ?thesis using pieces_run_order[OF assms(1)[unfolded composing_def]] assms(2,3) by blast
qed

lemma segAt_covers:
  assumes "composing c" "0 \<le> off" "off < co_len c"
  obtains pc where "segAt c off = Some pc" "pc \<in> set (coPieces c)" "covers_at pc off"
proof -
  let ?ps = "coPieces c"
  obtain p where p: "p \<in> set ?ps" "covers_at p off"
    using pieces_run_cover[OF assms(1)[unfolded composing_def] assms(2,3)] by (auto simp: covers_at_def)
  then obtain i where i: "i < length ?ps" "?ps ! i = p" by (auto simp: in_set_conv_nth)
  have o: "sorted_wrt (\<lambda>p q. dpDisp p + dpDLen p \<le> dpDisp q) ?ps"
    by (rule pieces_run_order[OF assms(1)[unfolded composing_def]])
  have pos: "0 < dpDLen q" if "q \<in> set ?ps" for q
    using pieces_run_bounds[OF assms(1)[unfolded composing_def]] that by auto
  have ord: "dpDisp (?ps ! a) + dpDLen (?ps ! a) \<le> dpDisp (?ps ! b)" if "a < b" "b < length ?ps" for a b
    using o that by (simp add: sorted_wrt_iff_nth_less)
  let ?f = "\<lambda>k. off < dpDisp (?ps ! nat k) + dpDLen (?ps ! nat k)"
  have "sort_Search (int (length ?ps)) ?f = int i"
  proof (rule sort_Search_at)
    fix a b :: int assume ab: "0 \<le> a" "a \<le> b" "b < int (length ?ps)" "?f a"
    show "?f b"
    proof (cases "a = b")
      case False
      then have "dpDisp (?ps ! nat a) + dpDLen (?ps ! nat a) \<le> dpDisp (?ps ! nat b)" using ab by (intro ord) auto
      moreover have "0 < dpDLen (?ps ! nat b)" using ab by (intro pos) auto
      ultimately show ?thesis using ab(4) by linarith
    qed (use ab in simp)
  next
    assume "0 < int i"
    then have "dpDisp (?ps ! (i - 1)) + dpDLen (?ps ! (i - 1)) \<le> dpDisp (?ps ! i)" using i by (intro ord) auto
    moreover have "nat (int i - 1) = i - 1" by simp
    ultimately show "\<not> ?f (int i - 1)" using p(2) i(2) by (simp add: covers_at_def)
  qed (use i p in \<open>auto simp: covers_at_def\<close>)
  then have "segAt c off = Some p" using i p(2) by (simp add: segAt_def Let_def covers_at_def)
  then show thesis using that p by blast
qed

definition kept_at :: "composer \<Rightarrow> int \<Rightarrow> int \<Rightarrow> bool" where
  "kept_at c x d \<longleftrightarrow> (\<exists>pc \<in> set (coPieces c). covers_at pc x \<and> 0 < dpLength pc \<and> d = dpDoc pc + (x - dpDisp pc))"

definition kept_run :: "composer \<Rightarrow> int \<Rightarrow> int \<Rightarrow> int \<Rightarrow> bool" where
  "kept_run c a e d \<longleftrightarrow> (\<forall>x. a \<le> x \<and> x < e \<longrightarrow> kept_at c x (d + (x - a)))"

lemma kept_run_piece:
  assumes "pc \<in> set (coPieces c)" "dpDisp pc \<le> a" "e \<le> dpDisp pc + dpDLen pc" "0 < dpLength pc" "d = dpDoc pc + (a - dpDisp pc)"
  shows "kept_run c a e d"
  unfolding kept_run_def kept_at_def
  by (intro allI impI bexI[of _ pc]) (use assms in \<open>auto simp: covers_at_def\<close>)

lemma kept_run_join: "kept_run c a m d \<Longrightarrow> kept_run c m e (d + (m - a)) \<Longrightarrow> kept_run c a e d"
  unfolding kept_run_def by (metis add.assoc diff_add_cancel add_diff_eq le_less_linear add_diff_cancel_left' diff_add_eq)

lemma absorb_spec:
  assumes "composing c" "0 \<le> a" "b \<le> co_len c" "kept_run c a merged d" "docB = d + (merged - a)" "a < merged" "merged \<le> b"
  shows "merged \<le> fst (absorb c b merged docB) \<and> fst (absorb c b merged docB) \<le> b \<and> kept_run c a (fst (absorb c b merged docB)) d \<and>
    snd (absorb c b merged docB) = d + (fst (absorb c b merged docB) - a)"
  using assms
proof (induction c b merged docB rule: absorb.induct)
  case (1 c b merged docB)
  show ?case
  proof (cases "merged < b \<and> \<not> foldAt c merged")
    case False
    then show ?thesis using 1(3-) by (subst (1 2 3 4 5) absorb.simps) auto
  next
    case True
    then obtain np where np: "segAt c merged = Some np" "np \<in> set (coPieces c)" "covers_at np merged"
      using segAt_covers[OF 1(2), of merged] 1(3-) by auto
    let ?e = "min b (dpDisp np + dpDLen np)"
    show ?thesis
    proof (cases "dpLength np \<le> 0 \<or> dpDisp np \<noteq> merged \<or> dpDoc np \<noteq> docB \<or> ?e \<le> merged")
      case stop: True
      then have "absorb c b merged docB = (merged, docB)" using True np(1) by (subst absorb.simps) (auto simp: Let_def)
      then show ?thesis using 1(3-) by simp
    next
      case go: False
      then have eq: "absorb c b merged docB = absorb c b ?e (dpDoc np + (?e - dpDisp np))"
        using True np(1) by (subst absorb.simps) (simp add: Let_def)
      have "kept_run c merged ?e docB" using go np by (intro kept_run_piece[of np]) auto
      then have "kept_run c a ?e d" using kept_run_join[of c a merged d ?e] "1.prems"(4,5) by simp
      moreover have "dpDoc np + (?e - dpDisp np) = d + (?e - a)" using go "1.prems"(5) by auto
      moreover have "merged < ?e" using go by (simp only: de_Morgan_disj not_le)
      ultimately have "?e \<le> fst (absorb c b ?e (dpDoc np + (?e - dpDisp np))) \<and> fst (absorb c b ?e (dpDoc np + (?e - dpDisp np))) \<le> b \<and>
          kept_run c a (fst (absorb c b ?e (dpDoc np + (?e - dpDisp np)))) d \<and>
          snd (absorb c b ?e (dpDoc np + (?e - dpDisp np))) = d + (fst (absorb c b ?e (dpDoc np + (?e - dpDisp np))) - a)"
        using True go "1.prems" by (intro "1.IH"[OF _ np(1) _ refl]) auto
      then show ?thesis unfolding eq using \<open>merged < ?e\<close> by (elim conjE) (intro conjI; (assumption | linarith))
    qed
  qed
qed

section \<open>Rows\<close>

lemma emit_fields [simp]:
  "dmRows (emit l x y v w p) = dmRows p @ [disp_row l x y v w]" "dmText (emit l x y v w p) = dmText p"
  "dmStarts (emit l x y v w p) = dmStarts p" "dmLen (emit l x y v w p) = dmLen p"
  by (simp_all add: emit_def Let_def)

text \<open>What holds at an offset of the composition and is kept by each row a content range is laid out in holds at its end.\<close>

lemma emitContent_steps:
  assumes "composing c" "0 \<le> a" "a \<le> b" "b \<le> co_len c" "Q a p"
    and "\<And>a e p pc. \<lbrakk>Q a p; 0 \<le> a; a < e; e \<le> b; pc \<in> set (coPieces c); covers_at pc a; e \<le> dpDisp pc + dpDLen pc; dpLength pc \<le> 0\<rbrakk>
      \<Longrightarrow> Q e (emit (line_row (-1) (a - dpDisp pc) (e - dpDisp pc) 0) (dpDoc pc) (dpDoc pc) a e p)"
    and "\<And>a e p d. \<lbrakk>Q a p; 0 \<le> a; a < e; e \<le> b; kept_run c a e d\<rbrakk>
      \<Longrightarrow> Q e (emit (line_row (projLineOf (coStarts c) d) (d - projLineStart (coStarts c) (projLineOf (coStarts c) d))
            (d + (e - a) - projLineStart (coStarts c) (projLineOf (coStarts c) d)) 0) d (d + (e - a)) a e p)"
  shows "Q b (emitContent c a b p)"
  using assms
proof (induction c a b p rule: emitContent.induct)
  case (1 c a b p)
  show ?case
  proof (cases "a < b")
    case False
    then show ?thesis using 1 by (subst emitContent.simps) simp
  next
    case True
    then obtain pc where pc: "segAt c a = Some pc" "pc \<in> set (coPieces c)" "covers_at pc a"
      using segAt_covers[OF 1(3), of a] 1(4-) by auto
    define e where "e = min b (dpDisp pc + dpDLen pc)"
    have e: "a < e" "e \<le> b" "e \<le> dpDisp pc + dpDLen pc" using True pc(3) by (auto simp: covers_at_def e_def)
    show ?thesis
    proof (cases "dpLength pc \<le> 0")
      case restore: True
      have eq: "emitContent c a b p = emitContent c e b (emit (line_row (-1) (a - dpDisp pc) (e - dpDisp pc) 0) (dpDoc pc) (dpDoc pc) a e p)"
        using True pc(1) e restore by (subst emitContent.simps) (simp add: Let_def flip: e_def)
      have "Q e (emit (line_row (-1) (a - dpDisp pc) (e - dpDisp pc) 0) (dpDoc pc) (dpDoc pc) a e p)"
        using 1(7) e 1(4) pc restore by (intro 1(8)) auto
      then show ?thesis unfolding eq using e True pc(1) restore 1(4,6)
        by (intro 1(1)[OF True pc(1) e_def]) (auto intro: 1(3) 1(8) 1(9))
    next
      case kept: False
      define d where "d = dpDoc pc + (a - dpDisp pc)"
      define m where "m = absorb c b e (dpDoc pc + (e - dpDisp pc))"
      define sl where "sl = projLineOf (coStarts c) d"
      define ls where "ls = projLineStart (coStarts c) sl"
      have eq: "emitContent c a b p = emitContent c (fst m) b (emit (line_row sl (d - ls) (snd m - ls) 0) d (snd m) a (fst m) p)"
        using True pc(1) e kept
        by (subst emitContent.simps) (simp add: Let_def flip: e_def m_def d_def sl_def ls_def)
      have "kept_run c a e d" using kept pc e(3) by (intro kept_run_piece[of pc]) (auto simp: covers_at_def d_def)
      then have m: "e \<le> fst m" "fst m \<le> b" "kept_run c a (fst m) d" "snd m = d + (fst m - a)"
        using absorb_spec[OF 1(3,4,6), of e d "dpDoc pc + (e - dpDisp pc)"] e by (auto simp: m_def d_def)
      have "Q (fst m) (emit (line_row sl (d - ls) (d + (fst m - a) - ls) 0) d (d + (fst m - a)) a (fst m) p)"
        unfolding sl_def ls_def using 1(7,4) e m by (intro 1(9)) auto
      then have "Q b (emitContent c (fst m) b (emit (line_row sl (d - ls) (snd m - ls) 0) d (snd m) a (fst m) p))"
        unfolding m(4) using e m True pc(1) kept 1(4,6)
        by (intro 1(2)[OF True pc(1) e_def _ _ d_def m_def sl_def ls_def, unfolded m(4)]) (auto intro: 1(3) 1(8) 1(9))
      then show ?thesis unfolding eq .
    qed
  qed
qed

section \<open>What is drawn\<close>

definition rows_cells :: "DispRow list \<Rightarrow> int list" where
  "rows_cells rs = concat (map (\<lambda>r. [rwCompLo r..rwCompHi r - 1]) rs)"

lemma rows_cells_simps [simp]:
  "rows_cells [] = []" "rows_cells (rs @ qs) = rows_cells rs @ rows_cells qs"
  "rows_cells [disp_row l x y a b] = [a..b - 1]"
  by (simp_all add: rows_cells_def disp_row_def)

lemma upto_join: "a \<le> b \<Longrightarrow> b \<le> c \<Longrightarrow> [a..b - 1] @ [b..c - 1] = [a..c - 1]" for a b c :: int
  by (cases "a = b"; cases "b = c") (auto simp: upto_split1[of a "b - 1" "c - 1"] upto_aux_rec upto_split1)

lemma emitContent_cells:
  assumes "composing c" "0 \<le> a" "a \<le> b" "b \<le> co_len c"
  shows "rows_cells (dmRows (emitContent c a b p)) = rows_cells (dmRows p) @ [a..b - 1]"
proof -
  define Q :: "int \<Rightarrow> DisplayMap \<Rightarrow> bool" where "Q e q \<longleftrightarrow> a \<le> e \<and> rows_cells (dmRows q) = rows_cells (dmRows p) @ [a..e - 1]" for e q
  have "Q b (emitContent c a b p)"
    by (rule emitContent_steps[OF assms]) (auto simp: Q_def upto_join)
  then show ?thesis by (simp add: Q_def)
qed

lemma sub_range_split: "0 \<le> a \<Longrightarrow> a \<le> b \<Longrightarrow> b \<le> e \<Longrightarrow> sub_range a (e - a) xs = sub_range a (b - a) xs @ sub_range b (e - b) xs"
proof -
  assume h: "0 \<le> a" "a \<le> b" "b \<le> e"
  then have n: "nat (e - a) = nat (b - a) + nat (e - b)" "nat b = nat (b - a) + nat a" by auto
  then show ?thesis by (simp add: sub_range_def take_add flip: n(2))
qed

section \<open>Line by line\<close>

text \<open>The steps the rows are laid out in: content up to the next fold or line end, a fold, a line without anything, and the
  newline. \<open>Q a fs p\<close> speaks of the rows before offset \<open>a\<close> of the composition with the folds \<open>fs\<close> still to come.\<close>

definition laying :: "composer \<Rightarrow> (int \<Rightarrow> FoldRun list \<Rightarrow> DisplayMap \<Rightarrow> bool) \<Rightarrow> bool" where
  "laying c Q \<longleftrightarrow>
     (\<forall>a e fs p pc. Q a fs p \<longrightarrow> 0 \<le> a \<longrightarrow> a < e \<longrightarrow> e \<le> co_len c \<longrightarrow> (\<forall>f \<in> set fs. e \<le> fnDisp f) \<longrightarrow>
        10 \<notin> set (sub_range a (e - a) (coComp c)) \<longrightarrow>
        pc \<in> set (coPieces c) \<longrightarrow> covers_at pc a \<longrightarrow> e \<le> dpDisp pc + dpDLen pc \<longrightarrow> dpLength pc \<le> 0 \<longrightarrow>
        Q e fs (emit (line_row (-1) (a - dpDisp pc) (e - dpDisp pc) 0) (dpDoc pc) (dpDoc pc) a e p)) \<and>
     (\<forall>a e fs p d. Q a fs p \<longrightarrow> 0 \<le> a \<longrightarrow> a < e \<longrightarrow> e \<le> co_len c \<longrightarrow> (\<forall>f \<in> set fs. e \<le> fnDisp f) \<longrightarrow>
        10 \<notin> set (sub_range a (e - a) (coComp c)) \<longrightarrow> kept_run c a e d \<longrightarrow>
        Q e fs (emit (line_row (projLineOf (coStarts c) d) (d - projLineStart (coStarts c) (projLineOf (coStarts c) d))
            (d + (e - a) - projLineStart (coStarts c) (projLineOf (coStarts c) d)) 0) d (d + (e - a)) a e p)) \<and>
     (\<forall>a f fs p. Q a (f # fs) p \<longrightarrow> fnDisp f = a \<longrightarrow> f \<in> set (coFolds c) \<longrightarrow>
        Q a fs (emit (line_row (-1) 0 0 (fnGroup f)) (fnDoc f) (fnDoc f + fnLength f) (fnDisp f) (fnDisp f) p)) \<and>
     (\<forall>a fs p. Q a fs p \<longrightarrow> 0 \<le> a \<longrightarrow> a \<le> co_len c \<longrightarrow> (\<forall>f \<in> set fs. a < fnDisp f) \<longrightarrow> (\<forall>f \<in> set (coFolds c). fnDisp f \<noteq> a) \<longrightarrow>
        Q a fs (emitEmpty c a p)) \<and>
     (\<forall>a fs p. Q a fs p \<longrightarrow> 0 \<le> a \<longrightarrow> a < co_len c \<longrightarrow> coComp c ! nat a = 10 \<longrightarrow> (\<forall>f \<in> set fs. a < fnDisp f) \<longrightarrow> Q (a + 1) fs p)"

lemma laying_content:
  assumes "laying c Q" "composing c" "Q a fs p" "0 \<le> a" "a \<le> b" "b \<le> co_len c" "\<forall>f \<in> set fs. b \<le> fnDisp f"
    and "10 \<notin> set (sub_range a (b - a) (coComp c))"
  shows "Q b fs (emitContent c a b p)"
proof -
  have sub: "10 \<notin> set (sub_range x (e - x) (coComp c))" if "a \<le> x" "x \<le> e" "e \<le> b" for x e
  proof -
    have "set (sub_range x (e - x) (coComp c)) \<subseteq> set (sub_range a (b - a) (coComp c))"
    proof
      fix v assume "v \<in> set (sub_range x (e - x) (coComp c))"
      then obtain k where k: "k < nat (e - x)" "nat x + k < length (coComp c)" "v = coComp c ! (nat x + k)"
        by (auto simp: sub_range_def in_set_conv_nth)
      then have "sub_range a (b - a) (coComp c) ! (nat x + k - nat a) = v" "nat x + k - nat a < length (sub_range a (b - a) (coComp c))"
        using that assms(4) by (auto simp: sub_range_def)
      then show "v \<in> set (sub_range a (b - a) (coComp c))" by (auto simp: in_set_conv_nth)
    qed
    then show ?thesis using assms(8) by blast
  qed
  define R :: "int \<Rightarrow> DisplayMap \<Rightarrow> bool" where "R e q \<longleftrightarrow> a \<le> e \<and> Q e fs q" for e q
  have "R b (emitContent c a b p)"
  proof (rule emitContent_steps[OF assms(2,4,5,6), of R])
    show "R a p" using assms(3) by (simp add: R_def)
  next
    fix x e q pc
    assume h: "R x q" "0 \<le> x" "x < e" "e \<le> b" "pc \<in> set (coPieces c)" "covers_at pc x" "e \<le> dpDisp pc + dpDLen pc" "dpLength pc \<le> 0"
    then have "Q e fs (emit (line_row (-1) (x - dpDisp pc) (e - dpDisp pc) 0) (dpDoc pc) (dpDoc pc) x e q)"
      using assms(1) sub[of x e] assms(6,7) unfolding laying_def by (elim conjE) (fastforce simp: R_def)
    then show "R e (emit (line_row (-1) (x - dpDisp pc) (e - dpDisp pc) 0) (dpDoc pc) (dpDoc pc) x e q)"
      using h by (simp add: R_def)
  next
    fix x e q d
    assume h: "R x q" "0 \<le> x" "x < e" "e \<le> b" "kept_run c x e d"
    then have "Q e fs (emit (line_row (projLineOf (coStarts c) d) (d - projLineStart (coStarts c) (projLineOf (coStarts c) d))
        (d + (e - x) - projLineStart (coStarts c) (projLineOf (coStarts c) d)) 0) d (d + (e - x)) x e q)"
      using assms(1) sub[of x e] assms(6,7) unfolding laying_def by (elim conjE) (fastforce simp: R_def)
    then show "R e (emit (line_row (projLineOf (coStarts c) d) (d - projLineStart (coStarts c) (projLineOf (coStarts c) d))
        (d + (e - x) - projLineStart (coStarts c) (projLineOf (coStarts c) d)) 0) d (d + (e - x)) x e q)"
      using h by (simp add: R_def)
  qed
  then show ?thesis by (simp add: R_def)
qed

lemma laying_fold: "laying c Q \<Longrightarrow> Q (fnDisp f) (f # fs) p \<Longrightarrow> f \<in> set (coFolds c) \<Longrightarrow>
   Q (fnDisp f) fs (emit (line_row (-1) 0 0 (fnGroup f)) (fnDoc f) (fnDoc f + fnLength f) (fnDisp f) (fnDisp f) p)"
  unfolding laying_def by blast

lemma laying_empty: "laying c Q \<Longrightarrow> Q a fs p \<Longrightarrow> 0 \<le> a \<Longrightarrow> a \<le> co_len c \<Longrightarrow> \<forall>f \<in> set fs. a < fnDisp f \<Longrightarrow>
   \<forall>f \<in> set (coFolds c). fnDisp f \<noteq> a \<Longrightarrow> Q a fs (emitEmpty c a p)"
  unfolding laying_def by blast

lemma laying_newline: "laying c Q \<Longrightarrow> Q a fs p \<Longrightarrow> 0 \<le> a \<Longrightarrow> a < co_len c \<Longrightarrow> coComp c ! nat a = 10 \<Longrightarrow>
   \<forall>f \<in> set fs. a < fnDisp f \<Longrightarrow> Q (a + 1) fs p"
  unfolding laying_def by blast

lemma laying_folds:
  assumes "laying c Q" "composing c" "Q pos fs p" "0 \<le> pos" "pos \<le> ce" "ce \<le> co_len c"
    and "sorted (map fnDisp fs)" "\<forall>f \<in> set fs. pos \<le> fnDisp f" "set fs \<subseteq> set (coFolds c)"
    and "10 \<notin> set (sub_range pos (ce - pos) (coComp c))"
    and "emit_folds c ce fs pos em p = (p', pos', em', fs')"
  shows "Q pos' fs' p' \<and> pos \<le> pos' \<and> pos' \<le> ce \<and> fs' = dropWhile (\<lambda>f. fnDisp f \<le> ce) fs \<and>
    (\<not> em' \<longrightarrow> pos' = pos \<and> p' = p \<and> \<not> em \<and> fs' = fs)"
  using assms(3-)
proof (induction fs arbitrary: pos em p)
  case (Cons f fs)
  show ?case
  proof (cases "fnDisp f \<le> ce")
    case False
    then have eqs: "p' = p" "pos' = pos" "em' = em" "fs' = f # fs" using Cons.prems(9) unfolding emit_folds.simps if_not_P[OF False] by simp_all
    show ?thesis unfolding eqs using Cons.prems(1,3) False by simp
  next
    case True
    define p1 where "p1 = (if pos < fnDisp f then emitContent c pos (fnDisp f) p else p)"
    define p2 where "p2 = emit (line_row (-1) 0 0 (fnGroup f)) (fnDoc f) (fnDoc f + fnLength f) (fnDisp f) (fnDisp f) p1"
    have pos: "pos \<le> fnDisp f" using Cons.prems by simp
    have parts: "sub_range pos (ce - pos) (coComp c) = sub_range pos (fnDisp f - pos) (coComp c) @ sub_range (fnDisp f) (ce - fnDisp f) (coComp c)"
      using pos True Cons.prems(2) by (intro sub_range_split) auto
    have "Q (fnDisp f) (f # fs) p1"
    proof (cases "pos < fnDisp f")
      case True
      then show ?thesis using Cons.prems \<open>fnDisp f \<le> ce\<close> parts unfolding p1_def
        by (simp only: if_True, intro laying_content[OF assms(1,2)]) auto
    next
      case False
      then show ?thesis using pos Cons.prems(1) by (simp add: p1_def)
    qed
    then have "Q (fnDisp f) fs p2" unfolding p2_def using Cons.prems by (intro laying_fold[OF assms(1)]) auto
    moreover have "emit_folds c ce fs (fnDisp f) True p2 = (p', pos', em', fs')"
      using Cons.prems True by (simp add: Let_def flip: p1_def p2_def)
    ultimately show ?thesis
      using Cons.IH[of "fnDisp f" p2 True] Cons.prems True parts pos by auto
  qed
qed simp

lemma laying_line:
  assumes "laying c Q" "composing c" "Q cs fs p" "0 \<le> cs" "cs \<le> ce" "ce \<le> co_len c"
    and "sorted (map fnDisp fs)" "set fs = {f \<in> set (coFolds c). cs \<le> fnDisp f}"
    and "10 \<notin> set (sub_range cs (ce - cs) (coComp c))"
    and "emit_line c cs ce fs p = (p', fs')"
  shows "Q ce fs' p'" "sorted (map fnDisp fs')" "set fs' = {f \<in> set (coFolds c). ce < fnDisp f}"
proof -
  have "\<forall>f \<in> set fs. \<not> fnDisp f < cs" using assms(8) by auto
  then have d: "dropWhile (\<lambda>f. fnDisp f < cs) fs = fs" by (cases fs) simp_all
  obtain p1 pos em fs1 where e: "emit_folds c ce fs cs False p = (p1, pos, em, fs1)" by (metis prod_cases4)
  have f: "Q pos fs1 p1" "cs \<le> pos" "pos \<le> ce" "fs1 = dropWhile (\<lambda>f. fnDisp f \<le> ce) fs"
    "\<not> em \<longrightarrow> pos = cs \<and> p1 = p \<and> fs1 = fs"
    using laying_folds[OF assms(1-7) _ _ assms(9) e] assms(8) by auto
  have fs': "fs' = fs1" using assms(10) e d by (auto simp: emit_line_def Let_def split: if_splits)
  have rest: "set fs1 = {f \<in> set (coFolds c). ce < fnDisp f}"
  proof -
    have "set (dropWhile (\<lambda>f. fnDisp f \<le> ce) fs) = {f \<in> set fs. ce < fnDisp f}"
      using assms(7) by (induction fs) force+
    then show ?thesis using assms(5,8) f(4) by auto
  qed
  then show "set fs' = {f \<in> set (coFolds c). ce < fnDisp f}" using fs' by simp
  show "sorted (map fnDisp fs')"
    unfolding fs' f(4) using assms(7) by (simp add: sorted_map)
  have nl: "10 \<notin> set (sub_range pos (ce - pos) (coComp c))"
    using assms(9) sub_range_split[of cs pos ce "coComp c"] assms(4) f(2,3) by auto
  define p2 where "p2 = (if pos < ce then emitContent c pos ce p1 else p1)"
  have q2: "Q ce fs1 p2"
  proof (cases "pos < ce")
    case True
    then show ?thesis unfolding p2_def
      using f nl rest assms(4,6) by (simp only: if_True, intro laying_content[OF assms(1,2)]) auto
  next
    case False
    then show ?thesis using f by (simp add: p2_def)
  qed
  have p': "p' = (if em \<or> pos < ce then p2 else emitEmpty c cs p2)"
    using assms(10) e d by (auto simp: emit_line_def Let_def p2_def)
  show "Q ce fs' p'"
  proof (cases "em \<or> pos < ce")
    case True
    then show ?thesis using q2 p' fs' by simp
  next
    case False
    then have "cs = ce" "fs1 = fs" using f by auto
    then have "Q ce fs1 (emitEmpty c cs p2)"
      using q2 assms(4,6,8) rest by (auto intro!: laying_empty[OF assms(1)])
    then show ?thesis using False p' fs' by simp
  qed
qed

text \<open>The starts of the lines behind an offset, from the first newline on.\<close>

lemma newline_starts_next:
  "newline_starts i xs = (if 10 \<in> set xs
     then let k = length (takeWhile (\<lambda>b. b \<noteq> 10) xs) in (i + int k + 1) # newline_starts (i + int k + 1) (drop (k + 1) xs) else [])"
  by (induction xs arbitrary: i) (simp_all add: Let_def ac_simps)

lemma laying_lines:
  assumes "laying c Q" "composing c"
  shows "Q cs fs p \<Longrightarrow> 0 \<le> cs \<Longrightarrow> cs \<le> co_len c \<Longrightarrow> sorted (map fnDisp fs) \<Longrightarrow> set fs = {f \<in> set (coFolds c). cs \<le> fnDisp f} \<Longrightarrow>
    \<forall>f \<in> set (coFolds c). fnDisp f \<le> co_len c \<Longrightarrow>
    Q (co_len c) [] (emit_lines c (cs # newline_starts cs (drop (nat cs) (coComp c))) fs p)"
proof (induction "length (coComp c) - nat cs" arbitrary: cs fs p rule: less_induct)
  case less
  let ?xs = "drop (nat cs) (coComp c)"
  show ?case
  proof (cases "10 \<in> set ?xs")
    case False
    obtain p1 fs1 where e: "emit_line c cs (co_len c) fs p = (p1, fs1)" by fastforce
    have "10 \<notin> set (sub_range cs (co_len c - cs) (coComp c))" using False less.prems by (auto simp: sub_range_def dest: in_set_takeD)
    note l = laying_line[OF assms less.prems(1,2,3) order_refl less.prems(4,5) this e]
    have "fs1 = []" using l(3) less.prems(6) by (cases fs1) force+
    moreover have "newline_starts cs ?xs = []" using False by (subst newline_starts_next) simp
    ultimately show ?thesis using l(1) e by (simp flip: co_len_def)
  next
    case True
    define k where "k = length (takeWhile (\<lambda>b. b \<noteq> 10) ?xs)"
    have k: "k < length ?xs" "?xs ! k = 10"
    proof -
      show "k < length ?xs" using True unfolding k_def by (metis (mono_tags, lifting) length_takeWhile_le le_neq_implies_less set_takeWhileD takeWhile_eq_take take_all_iff order_refl)
      then show "?xs ! k = 10" using nth_length_takeWhile[of "\<lambda>b. b \<noteq> 10" ?xs] by (simp add: k_def)
    qed
    have st: "newline_starts cs ?xs = (cs + int k + 1) # newline_starts (cs + int k + 1) (drop (nat (cs + int k + 1)) (coComp c))"
      using True less.prems(2) by (subst newline_starts_next) (simp add: Let_def nat_add_distrib ac_simps flip: k_def)
    obtain p1 fs1 where e: "emit_line c cs (cs + int k) fs p = (p1, fs1)" by fastforce
    have ce: "cs + int k < co_len c" "coComp c ! nat (cs + int k) = 10"
      using k less.prems(2,3) by (auto simp: co_len_def nat_add_distrib)
    have "sub_range cs (cs + int k - cs) (coComp c) = takeWhile (\<lambda>b. b \<noteq> 10) ?xs"
      by (simp add: sub_range_def k_def takeWhile_eq_take[symmetric])
    then have "10 \<notin> set (sub_range cs (cs + int k - cs) (coComp c))" by (auto dest: set_takeWhileD)
    note l = laying_line[OF assms less.prems(1,2) _ _ less.prems(4,5) this e]
    have "Q (cs + int k + 1) fs1 p1" using l ce less.prems(2) by (intro laying_newline[OF assms(1)]) auto
    then have "Q (co_len c) [] (emit_lines c ((cs + int k + 1) # newline_starts (cs + int k + 1) (drop (nat (cs + int k + 1)) (coComp c))) fs1 p1)"
      using l ce less.prems(2,6) k by (intro less.hyps) (auto simp: co_len_def)
    then show ?thesis unfolding st using e by simp
  qed
qed

lemma laying_rows:
  assumes "laying c Q" "composing c" "sorted (map fnDisp (coFolds c))" "\<forall>f \<in> set (coFolds c). 0 \<le> fnDisp f \<and> fnDisp f \<le> co_len c"
    and "Q 0 (coFolds c) (p\<lparr>dmFirst := replicate (length (coStarts c)) (-1)\<rparr>)"
  shows "Q (co_len c) [] (emitRows c p)"
proof -
  have "set (coFolds c) = {f \<in> set (coFolds c). 0 \<le> fnDisp f}" using assms(4) by auto
  then show ?thesis
    using laying_lines[OF assms(1,2,5) order_refl _ assms(3)] assms(4)
    by (simp add: emitRows_def NewIndex_def co_len_def del: emit_lines.simps)
qed

section \<open>What is drawn\<close>

definition drawn_cells :: "byte list \<Rightarrow> int \<Rightarrow> int list" where
  "drawn_cells t e = filter (\<lambda>x. t ! nat x \<noteq> 10) [0..e - 1]"

lemma emitEmpty_row:
  obtains l x where "emitEmpty c a p = emit l x x a a p"
proof (cases "if segAt c a = None \<and> 0 < a then segAt c (a - 1) else segAt c a")
  case None
  show thesis by (rule that) (simp only: emitEmpty_def None option.case)
next
  case (Some pc)
  show thesis by (cases "0 < dpLength pc"; rule that) (simp only: emitEmpty_def Some option.case Let_def if_True if_False)+
qed

lemma drawn_step:
  assumes "0 \<le> a" "a \<le> e" "e \<le> int (length t)" "10 \<notin> set (sub_range a (e - a) t)"
  shows "drawn_cells t e = drawn_cells t a @ [a..e - 1]"
proof -
  have "t ! nat x \<noteq> 10" if "a \<le> x" "x < e" for x
  proof -
    have "sub_range a (e - a) t ! nat (x - a) = t ! nat x" "nat (x - a) < length (sub_range a (e - a) t)"
      using that assms by (auto simp: sub_range_def nat_diff_distrib)
    then show ?thesis using assms(4) by (metis nth_mem)
  qed
  then show ?thesis using assms by (simp add: drawn_cells_def upto_join[symmetric, of 0 a e] filter_id_conv)
qed

lemma rows_draw:
  assumes "composing c" "sorted (map fnDisp (coFolds c))" "\<forall>f \<in> set (coFolds c). 0 \<le> fnDisp f \<and> fnDisp f \<le> co_len c" "dmRows p = []"
  shows "rows_cells (dmRows (emitRows c p)) = drawn_cells (coComp c) (co_len c)"
proof -
  define Q :: "int \<Rightarrow> FoldRun list \<Rightarrow> DisplayMap \<Rightarrow> bool" where "Q a fs q \<longleftrightarrow> rows_cells (dmRows q) = drawn_cells (coComp c) a" for a fs q
  have "laying c Q"
    unfolding laying_def Q_def
  proof (intro conjI allI impI)
    fix a e fs and p :: DisplayMap and pc
    assume "rows_cells (dmRows p) = drawn_cells (coComp c) a" "0 \<le> a" "a < e" "e \<le> co_len c" "10 \<notin> set (sub_range a (e - a) (coComp c))"
    then show "rows_cells (dmRows (emit (line_row (-1) (a - dpDisp pc) (e - dpDisp pc) 0) (dpDoc pc) (dpDoc pc) a e p)) = drawn_cells (coComp c) e"
      using drawn_step[of a e "coComp c"] by (simp add: co_len_def)
  next
    fix a e fs and p :: DisplayMap and d
    assume "rows_cells (dmRows p) = drawn_cells (coComp c) a" "0 \<le> a" "a < e" "e \<le> co_len c" "10 \<notin> set (sub_range a (e - a) (coComp c))"
    then show "rows_cells (dmRows (emit (line_row (projLineOf (coStarts c) d) (d - projLineStart (coStarts c) (projLineOf (coStarts c) d))
        (d + (e - a) - projLineStart (coStarts c) (projLineOf (coStarts c) d)) 0) d (d + (e - a)) a e p)) = drawn_cells (coComp c) e"
      using drawn_step[of a e "coComp c"] by (simp add: co_len_def)
  next
    fix a fs and p :: DisplayMap
    assume "rows_cells (dmRows p) = drawn_cells (coComp c) a"
    moreover obtain l x where "emitEmpty c a p = emit l x x a a p" by (rule emitEmpty_row)
    ultimately show "rows_cells (dmRows (emitEmpty c a p)) = drawn_cells (coComp c) a" by simp
  next
    fix a fs and p :: DisplayMap
    assume "rows_cells (dmRows p) = drawn_cells (coComp c) a" "0 \<le> a" "coComp c ! nat a = 10"
    then show "rows_cells (dmRows p) = drawn_cells (coComp c) (a + 1)"
      using upto_join[of 0 a "a + 1", symmetric] by (simp add: drawn_cells_def)
  qed simp
  then show ?thesis using laying_rows[OF _ assms(1-3), of Q p] assms(4) by (simp add: Q_def drawn_cells_def)
qed

end
