(* ===== verification/DisplayRows.thy ===== *)
theory DisplayRows
  imports DisplayLaw
begin

text \<open>
  The rows of a display follow the session: their ranges of it do not overlap and come in order, a row of text shows the
  bytes of the session it names, and every hidden run has its row.
\<close>

section \<open>Aligned composers\<close>

definition piece_fold_order :: "DispPiece \<Rightarrow> FoldRun \<Rightarrow> bool" where
  "piece_fold_order pc f \<longleftrightarrow>
     (dpDisp pc + dpDLen pc \<le> fnDisp f \<and> dpDoc pc + dpLength pc \<le> fnDoc f) \<or>
     (fnDisp f \<le> dpDisp pc \<and> fnDoc f + fnLength f \<le> dpDoc pc)"

definition aligned :: "composer \<Rightarrow> int \<Rightarrow> bool" where
  "aligned c n \<longleftrightarrow> composing c \<and>
     sorted_wrt (\<lambda>p q. dpDoc p + dpLength p \<le> dpDoc q) (coPieces c) \<and>
     (\<forall>pc \<in> set (coPieces c). (dpLength pc = dpDLen pc \<or> dpLength pc = 0) \<and> dpDoc pc + dpLength pc \<le> n) \<and>
     sorted_wrt (\<lambda>f g. fnDoc f + fnLength f \<le> fnDoc g) (coFolds c) \<and>
     (\<forall>f \<in> set (coFolds c). 0 < fnLength f \<and> fnGroup f \<noteq> 0 \<and> fnDoc f + fnLength f \<le> n \<and>
        0 \<le> fnDisp f \<and> fnDisp f \<le> co_len c) \<and> sorted (map fnDisp (coFolds c)) \<and>
     (\<forall>pc \<in> set (coPieces c). \<forall>f \<in> set (coFolds c). piece_fold_order pc f) \<and>
     ((\<forall>f \<in> set (coFolds c). fnDisp f \<noteq> co_len c) \<longrightarrow>
        (if coPieces c = [] then 0 else dpDoc (last (coPieces c)) + dpLength (last (coPieces c))) = n) \<and>
     coStarts c \<noteq> [] \<and> hd (coStarts c) = 0"

lemma alignedD:
  assumes "aligned c n"
  shows "composing c" "pc \<in> set (coPieces c) \<Longrightarrow> dpLength pc = dpDLen pc \<or> dpLength pc = 0"
    "pc \<in> set (coPieces c) \<Longrightarrow> dpDoc pc + dpLength pc \<le> n" "f \<in> set (coFolds c) \<Longrightarrow> 0 < fnLength f"
    "f \<in> set (coFolds c) \<Longrightarrow> fnGroup f \<noteq> 0" "f \<in> set (coFolds c) \<Longrightarrow> fnDoc f + fnLength f \<le> n"
    "pc \<in> set (coPieces c) \<Longrightarrow> f \<in> set (coFolds c) \<Longrightarrow> piece_fold_order pc f"
  using assms by (simp_all add: aligned_def)

lemma dlen_pos: "composing c \<Longrightarrow> pc \<in> set (coPieces c) \<Longrightarrow> 0 < dpDLen pc \<and> dpDisp pc + dpDLen pc \<le> co_len c \<and> 0 \<le> dpDisp pc"
  using pieces_run_bounds[of 0 "coPieces c" "co_len c"] by (auto simp: composing_def)

lemma sorted_wrt_pair: "sorted_wrt R xs \<Longrightarrow> x \<in> set xs \<Longrightarrow> y \<in> set xs \<Longrightarrow> x = y \<or> R x y \<or> R y x"
  by (induction xs) auto

text \<open>Of two pieces, the one that ends earlier in the composition ends before the other starts in the session.\<close>

lemma pieces_order:
  assumes "aligned c n" "p \<in> set (coPieces c)" "q \<in> set (coPieces c)" "p \<noteq> q" "dpDisp p < dpDisp q + dpDLen q"
  shows "dpDisp p + dpDLen p \<le> dpDisp q \<and> dpDoc p + dpLength p \<le> dpDoc q"
proof -
  have "sorted_wrt (\<lambda>p q. dpDisp p + dpDLen p \<le> dpDisp q) (coPieces c)"
    using assms(1) pieces_run_order by (auto simp: aligned_def composing_def)
  moreover have "sorted_wrt (\<lambda>p q. dpDoc p + dpLength p \<le> dpDoc q) (coPieces c)" using assms(1) by (simp add: aligned_def)
  ultimately have "sorted_wrt (\<lambda>p q. dpDisp p + dpDLen p \<le> dpDisp q \<and> dpDoc p + dpLength p \<le> dpDoc q) (coPieces c)"
    by (simp add: sorted_wrt_iff_nth_less)
  from sorted_wrt_pair[OF this assms(2,3)] show ?thesis using assms(4,5) by auto
qed

section \<open>The room ahead\<close>

text \<open>\<open>ahead c n a d\<close>: a row that ends at offset \<open>d\<close> of the session does not reach past anything laid out from offset \<open>a\<close> of
  the composition on.\<close>

definition ahead :: "composer \<Rightarrow> int \<Rightarrow> int \<Rightarrow> int \<Rightarrow> bool" where
  "ahead c n a d \<longleftrightarrow> d \<le> n \<and>
     (\<forall>pc \<in> set (coPieces c). a < dpDisp pc + dpDLen pc \<longrightarrow>
        d \<le> dpDoc pc + (if 0 < dpLength pc then max 0 (a - dpDisp pc) else 0))"

lemma ahead_mono: "ahead c n a d \<Longrightarrow> a \<le> b \<Longrightarrow> ahead c n b d"
  unfolding ahead_def by (auto split: if_splits)

lemma ahead_kept: "ahead c n a d \<Longrightarrow> kept_at c a x \<Longrightarrow> d \<le> x"
  by (auto simp: ahead_def kept_at_def covers_at_def)

lemma kept_ahead:
  assumes "aligned c n" "kept_at c (e - 1) (x - 1)"
  shows "ahead c n e x"
proof -
  obtain pc where pc: "pc \<in> set (coPieces c)" "covers_at pc (e - 1)" "0 < dpLength pc" "x - 1 = dpDoc pc + (e - 1 - dpDisp pc)"
    using assms(2) by (auto simp: kept_at_def)
  have len: "dpLength pc = dpDLen pc" using alignedD(2)[OF assms(1) pc(1)] pc(3) by simp
  have "x \<le> dpDoc q + (if 0 < dpLength q then max 0 (e - dpDisp q) else 0)" if q: "q \<in> set (coPieces c)" "e < dpDisp q + dpDLen q" for q
  proof (cases "q = pc")
    case True
    then show ?thesis using pc(3,4) by simp
  next
    case False
    have "dpDoc pc + dpLength pc \<le> dpDoc q"
      using pieces_order[OF assms(1) pc(1) q(1)] False q(2) pc(2) by (auto simp: covers_at_def)
    then show ?thesis using pc(2,4) len by (auto simp: covers_at_def)
  qed
  moreover have "x \<le> n" using alignedD(3)[OF assms(1) pc(1)] pc(2,4) len by (simp add: covers_at_def)
  ultimately show ?thesis by (simp add: ahead_def)
qed

lemma restored_ahead:
  assumes "aligned c n" "pc \<in> set (coPieces c)" "dpLength pc \<le> 0" "dpDisp pc < e"
  shows "ahead c n e (dpDoc pc)"
proof -
  have z: "dpLength pc = 0" using alignedD(2)[OF assms(1,2)] dlen_pos[OF alignedD(1)[OF assms(1)] assms(2)] assms(3) by auto
  have "dpDoc pc \<le> dpDoc q" if q: "q \<in> set (coPieces c)" "e < dpDisp q + dpDLen q" for q
    using pieces_order[OF assms(1,2) q(1)] q(2) assms(4) z by (cases "q = pc") auto
  then show ?thesis using alignedD(3)[OF assms(1,2)] z by (force simp: ahead_def)
qed

lemma fold_ahead:
  assumes "aligned c n" "f \<in> set (coFolds c)"
  shows "ahead c n (fnDisp f) (fnDoc f + fnLength f)"
proof -
  have "fnDoc f + fnLength f \<le> dpDoc q \<and> fnDisp f \<le> dpDisp q" if "q \<in> set (coPieces c)" "fnDisp f < dpDisp q + dpDLen q" for q
    using alignedD(7)[OF assms(1) that(1) assms(2)] that(2) by (auto simp: piece_fold_order_def)
  then show ?thesis using alignedD(6)[OF assms] by (force simp: ahead_def)
qed

text \<open>A fold past a piece is past it in the session too.\<close>

lemma fold_after:
  assumes "aligned c n" "pc \<in> set (coPieces c)" "f \<in> set (coFolds c)" "dpDisp pc < fnDisp f"
  shows "dpDisp pc + dpDLen pc \<le> fnDisp f" "dpDoc pc + dpLength pc \<le> fnDoc f"
  using alignedD(7)[OF assms(1-3)] assms(4) by (auto simp: piece_fold_order_def)

section \<open>Laid rows\<close>

definition row_ok :: "composer \<Rightarrow> DispRow \<Rightarrow> bool" where
  "row_ok c r \<longleftrightarrow>
     (if dlFold (rwLine r) \<noteq> 0 then dlLine (rwLine r) < 0 \<and> rwDocLo r < rwDocHi r \<and> rwCompLo r = rwCompHi r
      else if dlLine (rwLine r) < 0
      then rwDocLo r = rwDocHi r \<and> (\<forall>x. rwCompLo r \<le> x \<and> x < rwCompHi r \<longrightarrow> (\<exists>pc \<in> set (coPieces c). covers_at pc x \<and> dpLength pc = 0))
      else rwCompLo r \<le> rwCompHi r \<and> rwDocHi r - rwDocLo r = rwCompHi r - rwCompLo r \<and>
           dlHi (rwLine r) - dlLo (rwLine r) = rwCompHi r - rwCompLo r \<and> kept_run c (rwCompLo r) (rwCompHi r) (rwDocLo r) \<and>
           rwDocLo r = projLineStart (coStarts c) (dlLine (rwLine r)) + dlLo (rwLine r))"

definition fold_row :: "FoldRun \<Rightarrow> DispRow" where
  "fold_row f = disp_row (line_row (-1) 0 0 (fnGroup f)) (fnDoc f) (fnDoc f + fnLength f) (fnDisp f) (fnDisp f)"

definition rows_laid :: "composer \<Rightarrow> int \<Rightarrow> int \<Rightarrow> FoldRun list \<Rightarrow> DispRow list \<Rightarrow> bool" where
  "rows_laid c n a fs rs \<longleftrightarrow>
     sorted_wrt (\<lambda>r s. rwDocHi r \<le> rwDocLo s) rs \<and>
     (\<forall>r \<in> set rs. row_ok c r \<and> rwDocLo r \<le> rwDocHi r \<and> ahead c n a (rwDocHi r) \<and> (\<forall>f \<in> set fs. rwDocHi r \<le> fnDoc f)) \<and>
     sorted_wrt (\<lambda>f g. fnDoc f + fnLength f \<le> fnDoc g) fs \<and> set fs \<subseteq> set (coFolds c) \<and>
     (\<forall>f \<in> set (coFolds c). f \<in> set fs \<or> fold_row f \<in> set rs)"

lemma rows_laid_snoc:
  assumes "rows_laid c n a fs rs" "a \<le> e" "row_ok c r" "rwDocLo r \<le> rwDocHi r" "\<And>q. q \<in> set rs \<Longrightarrow> rwDocHi q \<le> rwDocLo r"
    "ahead c n e (rwDocHi r)" "\<And>f. f \<in> set fs \<Longrightarrow> rwDocHi r \<le> fnDoc f"
  shows "rows_laid c n e fs (rs @ [r])"
  using assms ahead_mono[OF _ assms(2)] unfolding rows_laid_def by (auto simp: sorted_wrt_append)

lemma projLineOf_nonneg:
  assumes "starts \<noteq> []" "hd starts = 0"
  shows "0 \<le> projLineOf starts off"
proof (cases "off \<le> 0")
  case False
  let ?f = "\<lambda>k. off + 1 \<le> starts ! nat k"
  have "0 < int (length starts)" "\<not> ?f 0" using assms False by (auto simp: hd_conv_nth)
  then have "0 < sort_Search (int (length starts)) ?f"
    using search_loop_spec[of 0 "int (length starts)" ?f] unfolding sort_Search_def by (smt (verit))
  then show ?thesis using False assms(1) by (auto simp: projLineOf_def Let_def)
qed (simp add: projLineOf_def)

lemma aligned_line: "aligned c n \<Longrightarrow> 0 \<le> projLineOf (coStarts c) d"
  by (rule projLineOf_nonneg) (simp_all add: aligned_def)

lemma kept_run_at: "kept_run c a e d \<Longrightarrow> a \<le> x \<Longrightarrow> x < e \<Longrightarrow> kept_at c x (d + (x - a))"
  by (simp add: kept_run_def)

lemma row_fields [simp]:
  "rwLine (disp_row l x y a b) = l" "rwDocLo (disp_row l x y a b) = x" "rwDocHi (disp_row l x y a b) = y"
  "rwCompLo (disp_row l x y a b) = a" "rwCompHi (disp_row l x y a b) = b"
  "dlLine (line_row s u v g) = s" "dlLo (line_row s u v g) = u" "dlHi (line_row s u v g) = v" "dlFold (line_row s u v g) = g"
  by (simp_all add: disp_row_def line_row_def)

section \<open>The steps of laying out\<close>

lemma kept_row_laid:
  assumes "aligned c n" "rows_laid c n a fs rs" "0 \<le> a" "a < e" "\<forall>f \<in> set fs. e \<le> fnDisp f" "kept_run c a e d"
  shows "rows_laid c n e fs (rs @ [disp_row (line_row (projLineOf (coStarts c) d) (d - projLineStart (coStarts c) (projLineOf (coStarts c) d))
      (d + (e - a) - projLineStart (coStarts c) (projLineOf (coStarts c) d)) 0) d (d + (e - a)) a e])" (is "rows_laid c n e fs (rs @ [?r])")
proof (rule rows_laid_snoc[OF assms(2)])
  have last: "kept_at c (e - 1) (d + (e - a) - 1)" using kept_run_at[OF assms(6), of "e - 1"] assms(4) by (simp add: algebra_simps)
  show "ahead c n e (rwDocHi ?r)" using kept_ahead[OF assms(1) last] by simp
  show "row_ok c ?r" using aligned_line[OF assms(1), of d] assms(4,6) by (simp add: row_ok_def)
  have first: "kept_at c a d" using kept_run_at[OF assms(6), of a] assms(4) by simp
  show "rwDocHi q \<le> rwDocLo ?r" if "q \<in> set rs" for q
    using ahead_kept[OF _ first] assms(2) that by (auto simp: rows_laid_def)
  obtain pc where pc: "pc \<in> set (coPieces c)" "covers_at pc (e - 1)" "0 < dpLength pc" "d + (e - a) - 1 = dpDoc pc + (e - 1 - dpDisp pc)"
    using last by (auto simp: kept_at_def)
  show "rwDocHi ?r \<le> fnDoc f" if f: "f \<in> set fs" for f
  proof -
    have "f \<in> set (coFolds c)" using assms(2) f by (auto simp: rows_laid_def)
    moreover have "dpDisp pc < fnDisp f" using pc(2) assms(5) f by (auto simp: covers_at_def)
    ultimately have "dpDoc pc + dpLength pc \<le> fnDoc f" by (rule fold_after(2)[OF assms(1) pc(1)])
    then show ?thesis using pc alignedD(2)[OF assms(1) pc(1)] by (auto simp: covers_at_def)
  qed
qed (use assms(4) in auto)

lemma restored_row_laid:
  assumes "aligned c n" "rows_laid c n a fs rs" "0 \<le> a" "a < e" "\<forall>f \<in> set fs. e \<le> fnDisp f"
    "pc \<in> set (coPieces c)" "covers_at pc a" "e \<le> dpDisp pc + dpDLen pc" "dpLength pc \<le> 0"
  shows "rows_laid c n e fs (rs @ [disp_row (line_row (-1) lo hi 0) (dpDoc pc) (dpDoc pc) a e])"
proof -
  have z: "dpLength pc = 0" using alignedD(2)[OF assms(1,6)] dlen_pos[OF alignedD(1)[OF assms(1)] assms(6)] assms(9) by auto
  have lt: "dpDisp pc < e" using assms(4,7) by (simp add: covers_at_def)
  show ?thesis
  proof (rule rows_laid_snoc[OF assms(2)])
    show "row_ok c (disp_row (line_row (-1) lo hi 0) (dpDoc pc) (dpDoc pc) a e)"
      using assms(6,7,8) z by (auto simp: row_ok_def covers_at_def intro!: bexI[of _ pc])
    fix q assume "q \<in> set rs"
    then have "ahead c n a (rwDocHi q)" using assms(2) by (auto simp: rows_laid_def)
    then show "rwDocHi q \<le> rwDocLo (disp_row (line_row (-1) lo hi 0) (dpDoc pc) (dpDoc pc) a e)"
      using assms(6,7) z by (auto simp: ahead_def covers_at_def)
  next
    fix f assume f: "f \<in> set fs"
    then have "f \<in> set (coFolds c)" using assms(2) by (auto simp: rows_laid_def)
    then show "rwDocHi (disp_row (line_row (-1) lo hi 0) (dpDoc pc) (dpDoc pc) a e) \<le> fnDoc f"
      using fold_after(2)[OF assms(1,6)] assms(5) f lt z by force
  qed (use assms(4) restored_ahead[OF assms(1,6,9) lt] in auto)
qed

lemma fold_row_laid:
  assumes "aligned c n" "rows_laid c n (fnDisp f) (f # fs) rs"
  shows "rows_laid c n (fnDisp f) fs (rs @ [fold_row f])"
proof -
  have f: "f \<in> set (coFolds c)" using assms(2) by (simp add: rows_laid_def)
  have "row_ok c (fold_row f)" using alignedD(4,5)[OF assms(1) f] by (simp add: row_ok_def fold_row_def)
  then show ?thesis
    using assms(2) fold_ahead[OF assms(1) f] alignedD(4)[OF assms(1) f]
    unfolding rows_laid_def by (auto simp: sorted_wrt_append fold_row_def)
qed

text \<open>The piece a line without bytes belongs to.\<close>

lemma segAt_end:
  assumes "composing c" "coPieces c \<noteq> []"
  shows "segAt c (co_len c) = Some (last (coPieces c))"
proof -
  have "\<not> co_len c < dpDisp pc + dpDLen pc" if "pc \<in> set (coPieces c)" for pc using dlen_pos[OF assms(1) that] by simp
  then have none: "\<not> (\<lambda>k. co_len c < dpDisp (coPieces c ! nat k) + dpDLen (coPieces c ! nat k)) k"
    if "0 \<le> k" "k < int (length (coPieces c))" for k using that by simp
  have "sort_Search (int (length (coPieces c))) (\<lambda>k. co_len c < dpDisp (coPieces c ! nat k) + dpDLen (coPieces c ! nat k)) = int (length (coPieces c))"
    using search_loop_spec[of 0 "int (length (coPieces c))" "\<lambda>k. co_len c < dpDisp (coPieces c ! nat k) + dpDLen (coPieces c ! nat k)"] none
    unfolding sort_Search_def by force
  then show ?thesis using assms(2) by (simp add: segAt_def Let_def co_len_def)
qed

lemma segAt_none: "coPieces c = [] \<Longrightarrow> segAt c off = None"
  by (simp add: segAt_def Let_def sort_Search_def) (subst search_loop.simps, simp)

lemma empty_row_laid:
  assumes "aligned c n" "rows_laid c n a fs (dmRows p)" "0 \<le> a" "a \<le> co_len c" "\<forall>f \<in> set fs. a < fnDisp f"
    "\<forall>f \<in> set (coFolds c). fnDisp f \<noteq> a"
  shows "rows_laid c n a fs (dmRows (emitEmpty c a p))"
proof -
  have comp: "composing c" by (rule alignedD(1)[OF assms(1)])
  have step: "rows_laid c n a fs (dmRows p @ [disp_row l d d a a])"
    if "row_ok c (disp_row l d d a a)" "\<And>q. q \<in> set (dmRows p) \<Longrightarrow> rwDocHi q \<le> d" "ahead c n a d" "\<And>f. f \<in> set fs \<Longrightarrow> d \<le> fnDoc f" for l d
    by (rule rows_laid_snoc[OF assms(2)]) (use that in auto)
  have prev: "ahead c n a (rwDocHi q)" if "q \<in> set (dmRows p)" for q using assms(2) that by (auto simp: rows_laid_def)
  have sub: "set fs \<subseteq> set (coFolds c)" using assms(2) by (simp add: rows_laid_def)
  have line: "row_ok c (disp_row (line_row (projLineOf (coStarts c) d) (d - projLineStart (coStarts c) (projLineOf (coStarts c) d))
      (d - projLineStart (coStarts c) (projLineOf (coStarts c) d)) 0) d d a a)" for d
    using aligned_line[OF assms(1), of d] by (auto simp: row_ok_def kept_run_def)
  show ?thesis
  proof (cases "a < co_len c")
    case True
    then obtain pc where pc: "segAt c a = Some pc" "pc \<in> set (coPieces c)" "covers_at pc a" using segAt_covers[OF comp assms(3)] by blast
    have after: "dpDoc pc + dpLength pc \<le> fnDoc f" if "f \<in> set fs" for f
      using fold_after(2)[OF assms(1) pc(2), of f] sub assms(5) that pc(3) by (force simp: covers_at_def)
    have cov: "dpDisp pc \<le> a" "a < dpDisp pc + dpDLen pc" using pc(3) by (auto simp: covers_at_def)
    show ?thesis
    proof (cases "0 < dpLength pc")
      case True
      then have len: "dpLength pc = dpDLen pc" using alignedD(2)[OF assms(1) pc(2)] by simp
      let ?d = "dpDoc pc + (a - dpDisp pc)"
      have d: "max (min ?d (dpDoc pc + dpLength pc)) (dpDoc pc) = ?d" using cov len by simp
      have at: "kept_at c a ?d" using pc(2,3) True by (auto simp: kept_at_def)
      have ah: "ahead c n a ?d"
      proof -
        have "?d \<le> dpDoc q + (if 0 < dpLength q then max 0 (a - dpDisp q) else 0)" if q: "q \<in> set (coPieces c)" "a < dpDisp q + dpDLen q" for q
        proof (cases "q = pc")
          case False
          then have "dpDoc pc + dpLength pc \<le> dpDoc q" using pieces_order[OF assms(1) pc(2) q(1)] q(2) cov by auto
          then show ?thesis using cov len by (auto simp: max_def)
        qed (simp add: True)
        then show ?thesis using alignedD(3)[OF assms(1) pc(2)] cov len by (simp add: ahead_def)
      qed
      have "rows_laid c n a fs (dmRows p @ [disp_row (line_row (projLineOf (coStarts c) ?d) (?d - projLineStart (coStarts c) (projLineOf (coStarts c) ?d))
          (?d - projLineStart (coStarts c) (projLineOf (coStarts c) ?d)) 0) ?d ?d a a])"
        using ahead_kept[OF prev at] after cov len by (intro step line ah) force+
      then show ?thesis using pc(1) True d by (simp add: emitEmpty_def Let_def)
    next
      case False
      then have z: "dpLength pc = 0" using alignedD(2)[OF assms(1) pc(2)] dlen_pos[OF comp pc(2)] by auto
      have "ahead c n a (dpDoc pc)"
      proof -
        have "dpDoc pc \<le> dpDoc q" if q: "q \<in> set (coPieces c)" "a < dpDisp q + dpDLen q" for q
          using pieces_order[OF assms(1) pc(2) q(1)] q(2) cov z by (cases "q = pc") auto
        then show ?thesis using alignedD(3)[OF assms(1) pc(2)] z by (force simp: ahead_def)
      qed
      moreover have "rwDocHi q \<le> dpDoc pc" if "q \<in> set (dmRows p)" for q
        using prev[OF that] pc(2) cov z by (auto simp: ahead_def)
      ultimately have "rows_laid c n a fs (dmRows p @ [disp_row (line_row (-1) 0 0 0) (dpDoc pc) (dpDoc pc) a a])"
        using after z by (intro step) (auto simp: row_ok_def)
      then show ?thesis using pc(1) False by (simp add: emitEmpty_def)
    qed
  next
    case False
    then have a: "a = co_len c" using assms(4) by simp
    have no: "fs = []" using assms(1,5) sub a by (cases fs) (auto simp: aligned_def)
    have point: "row_ok c (disp_row (line_row (-1) 0 0 0) n n a a)" by (auto simp: row_ok_def)
    define m where "m = (if coPieces c = [] then 0 else dpDoc (last (coPieces c)) + dpLength (last (coPieces c)))"
    have m: "m = n" using assms(1,6) a by (simp add: aligned_def m_def)
    have ah: "ahead c n a n" using dlen_pos[OF comp] a unfolding ahead_def by fastforce
    have st: "rows_laid c n a fs (dmRows p @ [disp_row l n n a a])" if "row_ok c (disp_row l n n a a)" for l
      using prev no that by (intro step ah) (auto simp: ahead_def)
    show ?thesis
    proof (cases "coPieces c = []")
      case True
      then have "a = 0" using comp a by (simp add: composing_def)
      then have "dmRows (emitEmpty c a p) = dmRows p @ [disp_row (line_row (-1) 0 0 0) n n a a]"
        using True m segAt_none[OF True] by (simp add: emitEmpty_def m_def)
      then show ?thesis using st[OF point] by simp
    next
      case False
      let ?pc = "last (coPieces c)"
      have pc: "?pc \<in> set (coPieces c)" "segAt c a = Some ?pc" using False segAt_end[OF comp False] a by auto
      have tl: "dpDisp ?pc + dpDLen ?pc = co_len c"
      proof -
        have "pieces_run x ps t \<Longrightarrow> ps \<noteq> [] \<Longrightarrow> dpDisp (last ps) + dpDLen (last ps) = t" for x ps t
          by (induction ps arbitrary: x) auto
        then show ?thesis using comp False by (auto simp: composing_def)
      qed
      show ?thesis
      proof (cases "0 < dpLength ?pc")
        case True
        then have "max (min (dpDoc ?pc + (a - dpDisp ?pc)) (dpDoc ?pc + dpLength ?pc)) (dpDoc ?pc) = n"
          using alignedD(2)[OF assms(1) pc(1)] tl a m False by (auto simp: m_def)
        then show ?thesis using st[OF line] True pc(2) by (simp add: emitEmpty_def Let_def)
      next
        case f: False
        then have "dpDoc ?pc = n" using alignedD(2)[OF assms(1) pc(1)] dlen_pos[OF comp pc(1)] m False by (auto simp: m_def)
        then show ?thesis using st[OF point] f pc(2) by (simp add: emitEmpty_def)
      qed
    qed
  qed
qed

lemma rows_follow:
  assumes "aligned c n" "dmRows p = []"
  shows "rows_laid c n (co_len c) [] (dmRows (emitRows c p))"
proof -
  define Q :: "int \<Rightarrow> FoldRun list \<Rightarrow> DisplayMap \<Rightarrow> bool" where "Q a fs q \<longleftrightarrow> rows_laid c n a fs (dmRows q)" for a fs q
  have "laying c Q"
    unfolding laying_def
  proof (intro conjI allI impI)
    fix a fs and p :: DisplayMap and f
    assume "Q a (f # fs) p" "fnDisp f = a"
    then show "Q a fs (emit (line_row (-1) 0 0 (fnGroup f)) (fnDoc f) (fnDoc f + fnLength f) (fnDisp f) (fnDisp f) p)"
      using fold_row_laid[OF assms(1)] by (auto simp: Q_def fold_row_def)
  next
    fix a fs and p :: DisplayMap
    assume "Q a fs p" "a < co_len c" "\<forall>f \<in> set fs. a < fnDisp f"
    then show "Q (a + 1) fs p" using ahead_mono[of c n a _ "a + 1"] by (auto simp: Q_def rows_laid_def)
  next
    fix a fs and p :: DisplayMap
    assume "Q a fs p" "0 \<le> a" "a \<le> co_len c" "\<forall>f \<in> set fs. a < fnDisp f" "\<forall>f \<in> set (coFolds c). fnDisp f \<noteq> a"
    then show "Q a fs (emitEmpty c a p)" using empty_row_laid[OF assms(1)] by (simp add: Q_def)
  next
    fix a e fs and p :: DisplayMap and d
    assume "Q a fs p" "0 \<le> a" "a < e" "\<forall>f \<in> set fs. e \<le> fnDisp f" "kept_run c a e d"
    then show "Q e fs (emit (line_row (projLineOf (coStarts c) d) (d - projLineStart (coStarts c) (projLineOf (coStarts c) d))
        (d + (e - a) - projLineStart (coStarts c) (projLineOf (coStarts c) d)) 0) d (d + (e - a)) a e p)"
      using kept_row_laid[OF assms(1)] by (simp add: Q_def)
  next
    fix a e fs and p :: DisplayMap and pc
    assume "Q a fs p" "0 \<le> a" "a < e" "\<forall>f \<in> set fs. e \<le> fnDisp f" "pc \<in> set (coPieces c)" "covers_at pc a"
      "e \<le> dpDisp pc + dpDLen pc" "dpLength pc \<le> 0"
    then show "Q e fs (emit (line_row (-1) (a - dpDisp pc) (e - dpDisp pc) 0) (dpDoc pc) (dpDoc pc) a e p)"
      using restored_row_laid[OF assms(1)] by (simp add: Q_def)
  qed
  then show ?thesis
    using laying_rows[of c Q p] assms by (auto simp: Q_def aligned_def rows_laid_def)
qed

end
