(* ===== verification/DisplayProps.thy ===== *)
theory DisplayProps
  imports DisplayRows
begin

text \<open>
  The properties of a built display map: what it draws, where an offset of the session is shown, and that no cell of the
  screen leads into text a fold hides.
\<close>

section \<open>The composer a map is built with\<close>

definition segs_composer :: "byte list \<Rightarrow> Seg list \<Rightarrow> composer" where
  "segs_composer t segs = \<lparr>coComp = t, coStarts = snd (projectionStarts t segs), coPieces = fst (splitSegs segs),
     coFolds = snd (splitSegs segs)\<rparr>"

definition blank_map :: "byte list \<Rightarrow> Seg list \<Rightarrow> DisplayMap" where
  "blank_map t segs = \<lparr>dmText = t, dmStarts = snd (projectionStarts t segs), dmLen = fst (projectionStarts t segs), dmRows = [],
     dmFirst = [], dmSessRows = [], dmFoldRows = []\<rparr>"

lemma reindex_keeps: "dmRows (reindex_loop i rs p) = dmRows p \<and> dmText (reindex_loop i rs p) = dmText p \<and>
    dmStarts (reindex_loop i rs p) = dmStarts p \<and> dmLen (reindex_loop i rs p) = dmLen p"
  by (induction i rs p rule: reindex_loop.induct) (simp_all add: Let_def)

lemma reindex_rows:
  "dmFoldRows (reindex_loop i rs p) = dmFoldRows p @ filter (\<lambda>k. dlFold (rwLine (rs ! nat (k - i))) \<noteq> 0) [i..i + int (length rs) - 1] \<and>
   dmSessRows (reindex_loop i rs p) = dmSessRows p @
     filter (\<lambda>k. dlFold (rwLine (rs ! nat (k - i))) = 0 \<and> 0 \<le> dlLine (rwLine (rs ! nat (k - i)))) [i..i + int (length rs) - 1]"
proof (induction i rs p rule: reindex_loop.induct)
  case (2 i r rs p)
  have u: "[i..i + int (length (r # rs)) - 1] = i # [i + 1..i + 1 + int (length rs) - 1]"
    by (subst upto_rec1) (simp_all add: ac_simps)
  have f: "filter (\<lambda>k. P ((r # rs) ! nat (k - i))) [i + 1..i + 1 + int (length rs) - 1] =
      filter (\<lambda>k. P (rs ! nat (k - (i + 1)))) [i + 1..i + 1 + int (length rs) - 1]" for P
  proof (rule filter_cong[OF refl])
    fix k assume "k \<in> set [i + 1..i + 1 + int (length rs) - 1]"
    then have "nat (k - i) = Suc (nat (k - (i + 1)))" by auto
    then show "P ((r # rs) ! nat (k - i)) = P (rs ! nat (k - (i + 1)))" by simp
  qed
  show ?case
    unfolding u reindex_loop.simps
    using 2 f[of "\<lambda>r. dlFold (rwLine r) \<noteq> 0"] f[of "\<lambda>r. dlFold (rwLine r) = 0 \<and> 0 \<le> dlLine (rwLine r)"]
    by (simp add: Let_def)
qed simp

text \<open>The state the layout runs through keeps its text, its session and its lines.\<close>

lemma emitContent_keeps: "dmText (emitContent c a b p) = dmText p \<and> dmStarts (emitContent c a b p) = dmStarts p \<and> dmLen (emitContent c a b p) = dmLen p"
proof (induction c a b p rule: emitContent.induct)
  case (1 c a b p)
  then show ?case by (subst (1 2 3) emitContent.simps) (simp add: Let_def split: option.splits)
qed

lemma emitEmpty_keeps: "dmText (emitEmpty c a p) = dmText p \<and> dmStarts (emitEmpty c a p) = dmStarts p \<and> dmLen (emitEmpty c a p) = dmLen p"
proof -
  obtain l x where "emitEmpty c a p = emit l x x a a p" by (rule emitEmpty_row)
  then show ?thesis by simp
qed

lemma emit_folds_keeps:
  "emit_folds c ce fs pos em p = (p', r) \<Longrightarrow> dmText p' = dmText p \<and> dmStarts p' = dmStarts p \<and> dmLen p' = dmLen p"
  by (induction c ce fs pos em p rule: emit_folds.induct) (auto simp: Let_def emitContent_keeps split: if_splits)

lemma emit_lines_keeps:
  "dmText (emit_lines c st fs p) = dmText p \<and> dmStarts (emit_lines c st fs p) = dmStarts p \<and> dmLen (emit_lines c st fs p) = dmLen p"
proof (induction c st fs p rule: emit_lines.induct)
  case (2 c cs rest fs p)
  define ce where "ce = (case rest of [] \<Rightarrow> int (length (coComp c)) | next # _ \<Rightarrow> next - 1)"
  obtain p1 fs1 where e: "emit_line c cs ce fs p = (p1, fs1)" by fastforce
  then have "dmText p1 = dmText p \<and> dmStarts p1 = dmStarts p \<and> dmLen p1 = dmLen p"
    by (auto simp: emit_line_def Let_def emitContent_keeps emitEmpty_keeps split: prod.splits if_splits dest!: emit_folds_keeps)
  then show ?case using 2[OF ce_def e[symmetric]] e by (simp flip: ce_def)
qed simp

section \<open>Built maps\<close>

lemma Build_fields:
  assumes "Build t segs = Some p"
  shows "segs \<noteq> []" "dmRows p = dmRows (emitRows (segs_composer t segs) (blank_map t segs))" "dmText p = t"
    "dmStarts p = snd (projectionStarts t segs)" "dmLen p = (\<Sum>s\<leftarrow>segs. sgLen s)"
    "dmFoldRows p = filter (\<lambda>k. dlFold (rwLine (dmRows p ! nat k)) \<noteq> 0) [0..int (length (dmRows p)) - 1]"
    "dmSessRows p = filter (\<lambda>k. dlFold (rwLine (dmRows p ! nat k)) = 0 \<and> 0 \<le> dlLine (rwLine (dmRows p ! nat k))) [0..int (length (dmRows p)) - 1]"
proof -
  define q where "q = emitRows (segs_composer t segs) (blank_map t segs)"
  show ne: "segs \<noteq> []" using assms by (auto simp: Build_def BuildFolds_def)
  have p: "p = reindex q"
    using assms ne by (simp add: Build_def BuildFolds_def buildProjection_def q_def segs_composer_def blank_map_def split_beta Let_def)
  have q: "dmText q = t" "dmStarts q = snd (projectionStarts t segs)" "dmLen q = (\<Sum>s\<leftarrow>segs. sgLen s)"
    by (simp_all add: q_def emitRows_def emit_lines_keeps blank_map_def projectionStarts_def Let_def)
  note r = reindex_keeps[of 0 "dmRows q" "q\<lparr>dmFirst := replicate (length (dmStarts q)) (-1), dmFoldRows := [], dmSessRows := []\<rparr>"]
  show rows: "dmRows p = dmRows (emitRows (segs_composer t segs) (blank_map t segs))" using r by (simp add: p reindex_def q_def)
  show "dmText p = t" "dmStarts p = snd (projectionStarts t segs)" "dmLen p = (\<Sum>s\<leftarrow>segs. sgLen s)" using r q by (simp_all add: p reindex_def)
  have "dmRows p = dmRows q" using rows by (simp add: q_def)
  then show "dmFoldRows p = filter (\<lambda>k. dlFold (rwLine (dmRows p ! nat k)) \<noteq> 0) [0..int (length (dmRows p)) - 1]"
    "dmSessRows p = filter (\<lambda>k. dlFold (rwLine (dmRows p ! nat k)) = 0 \<and> 0 \<le> dlLine (rwLine (dmRows p ! nat k))) [0..int (length (dmRows p)) - 1]"
    using reindex_rows[of 0 "dmRows q" "q\<lparr>dmFirst := replicate (length (dmStarts q)) (-1), dmFoldRows := [], dmSessRows := []\<rparr>"]
    by (simp_all add: p reindex_def)
qed

lemma segs_composing: "disp_run 0 segs (int (length t)) \<Longrightarrow> composing (segs_composer t segs)"
  using pieces_of_segs[of 0 segs] by (simp add: composing_def co_len_def segs_composer_def splitSegs_run)

lemma segs_folds:
  assumes "disp_run 0 segs (int (length t))"
  shows "coFolds (segs_composer t segs) = map seg_fold (filter sgFold segs)"
    "sorted (map fnDisp (coFolds (segs_composer t segs)))"
    "\<forall>f \<in> set (coFolds (segs_composer t segs)). 0 \<le> fnDisp f \<and> fnDisp f \<le> co_len (segs_composer t segs)"
proof -
  show e: "coFolds (segs_composer t segs) = map seg_fold (filter sgFold segs)" using splitSegs_run[OF assms] by (simp add: segs_composer_def)
  have "sorted (map fnDisp (snd (splitSegs segs)))" by (simp add: splitSegs_def)
  then show "sorted (map fnDisp (coFolds (segs_composer t segs)))" by (simp add: segs_composer_def)
  show "\<forall>f \<in> set (coFolds (segs_composer t segs)). 0 \<le> fnDisp f \<and> fnDisp f \<le> co_len (segs_composer t segs)"
    unfolding e using disp_run_bounds[OF assms] disp_run_fold[OF assms] by (force simp: seg_fold_def co_len_def segs_composer_def)
qed

lemma cells_text:
  "set (rows_cells rs) \<subseteq> {0..<int (length t)} \<Longrightarrow> concat (map (row_text t) rs) = map (\<lambda>x. t ! nat x) (rows_cells rs)"
proof (induction rs)
  case (Cons r rs)
  have "row_text t r = map (\<lambda>x. t ! nat x) [rwCompLo r..rwCompHi r - 1]"
  proof (cases "rwCompLo r < rwCompHi r")
    case True
    then have "rwCompLo r \<in> set (rows_cells (r # rs))" "rwCompHi r - 1 \<in> set (rows_cells (r # rs))" by (auto simp: rows_cells_def)
    then have "0 \<le> rwCompLo r" "rwCompHi r \<le> int (length t)" using Cons.prems by force+
    then show ?thesis by (intro nth_equalityI) (auto simp: row_text_def sub_range_def nat_add_distrib)
  next
    case False
    then show ?thesis by (simp add: row_text_def sub_range_def)
  qed
  then show ?case using Cons by (simp add: rows_cells_def)
qed (simp add: rows_cells_def)

lemma drawn_text: "map (\<lambda>x. t ! nat x) (drawn_cells t (int (length t))) = filter (\<lambda>b. b \<noteq> 10) t"
proof -
  have "map (\<lambda>x. t ! nat x) [0..int (length t) - 1] = t" by (rule nth_equalityI) auto
  then show ?thesis by (metis (mono_tags, lifting) drawn_cells_def filter_cong filter_map comp_apply)
qed

text \<open>Every byte of the composition but its newlines is drawn, once and in order.\<close>

lemma built_cells:
  assumes "Build t segs = Some p" "disp_run 0 segs (int (length t))"
  shows "rows_cells (dmRows p) = drawn_cells t (int (length t))"
  using rows_draw[OF segs_composing[OF assms(2)] segs_folds(2,3)[OF assms(2)], of "blank_map t segs"] Build_fields(2)[OF assms(1)]
  by (simp add: blank_map_def segs_composer_def co_len_def)

lemma built_draws:
  assumes "Build t segs = Some p" "disp_run 0 segs (int (length t))"
  shows "concat (map (row_text t) (dmRows p)) = filter (\<lambda>b. b \<noteq> 10) t"
proof -
  have "set (rows_cells (dmRows p)) \<subseteq> {0..<int (length t)}" by (auto simp: built_cells[OF assms] drawn_cells_def)
  from cells_text[OF this] show ?thesis by (simp add: built_cells[OF assms] drawn_text)
qed

section \<open>Aligned segments build aligned maps\<close>

lemma seg_run_apart:
  assumes "seg_run d x segs n m" "s \<in> set segs" "f \<in> set segs" "\<not> sgFold s" "0 < sgDLen s" "sgFold f"
  shows "piece_fold_order (seg_piece s) (seg_fold f)"
proof -
  have "sorted_wrt (\<lambda>s t. sgDisp s + sgDLen s \<le> sgDisp t \<and> sgDoc s + sgLen s \<le> sgDoc t) segs"
    using disp_run_order[OF seg_run_disp[OF assms(1)]] seg_run_order[OF assms(1)] by (simp add: sorted_wrt_iff_nth_less)
  from sorted_wrt_pair[OF this assms(2,3)] show ?thesis
    using assms(4-6) disp_run_fold[OF seg_run_disp[OF assms(1)] assms(3,6)] by (auto simp: piece_fold_order_def seg_piece_def seg_fold_def)
qed

lemma seg_run_kinds:
  "seg_run d x segs n m \<Longrightarrow> s \<in> set segs \<Longrightarrow>
    (if sgFold s then 0 < sgLen s \<and> sgDLen s = 0 \<and> sgGroup s \<noteq> 0 else sgLen s = sgDLen s \<or> sgLen s = 0)"
  by (induction segs arbitrary: d x) auto

text \<open>Without a fold at the end of the composition the last piece ends where the session does.\<close>

lemma seg_run_last:
  "seg_run d x segs n m \<Longrightarrow> \<forall>s \<in> set segs. sgFold s \<longrightarrow> sgDisp s \<noteq> m \<Longrightarrow>
    (let ps = filter (\<lambda>s. \<not> sgFold s \<and> 0 < sgDLen s) segs in if ps = [] then d = n else sgDoc (last ps) + sgLen (last ps) = n)"
proof (induction segs arbitrary: d x)
  case (Cons s segs)
  let ?P = "\<lambda>s. \<not> sgFold s \<and> 0 < sgDLen s"
  have IH: "let ps = filter ?P segs in if ps = [] then d + sgLen s = n else sgDoc (last ps) + sgLen (last ps) = n"
    using Cons.prems by (intro Cons.IH) auto
  show ?case
  proof (cases "filter ?P segs = []")
    case True
    have stop: "disp_run y ss m \<Longrightarrow> filter ?P ss = [] \<Longrightarrow> y = m" for y ss
      by (induction ss arbitrary: y) (fastforce split: if_splits)+
    have "x + sgDLen s = m" using stop[OF seg_run_disp[of "d + sgLen s" "x + sgDLen s" segs n m] True] Cons.prems(1) by simp
    then have "sgFold s \<longrightarrow> False" using Cons.prems by auto
    then show ?thesis using True IH Cons.prems(1) by (auto simp: Let_def)
  next
    case False
    then show ?thesis using IH by (auto simp: Let_def)
  qed
qed simp

lemma segs_aligned:
  assumes "seg_run 0 0 segs n (int (length t))"
  shows "aligned (segs_composer t segs) n"
proof -
  note disp = seg_run_disp[OF assms]
  have split: "splitSegs segs = (map seg_piece (filter (\<lambda>s. \<not> sgFold s \<and> 0 < sgDLen s) segs), map seg_fold (filter sgFold segs))"
    by (rule splitSegs_run[OF disp])
  have ord: "sorted_wrt (\<lambda>s t. sgDoc s + sgLen s \<le> sgDoc t) (filter P segs)" for P
    using seg_run_order[OF assms] by (rule sorted_wrt_filter)
  have ends: "\<forall>s \<in> set segs. sgDoc s + sgLen s \<le> n" using seg_run_bounds[OF assms] by auto
  have last: "(\<forall>f \<in> set (filter sgFold segs). sgDisp f \<noteq> int (length t)) \<Longrightarrow>
     (if filter (\<lambda>s. \<not> sgFold s \<and> 0 < sgDLen s) segs = [] then 0
      else sgDoc (last (filter (\<lambda>s. \<not> sgFold s \<and> 0 < sgDLen s) segs)) + sgLen (last (filter (\<lambda>s. \<not> sgFold s \<and> 0 < sgDLen s) segs))) = n"
    using seg_run_last[OF assms] by (auto simp: Let_def split: if_splits)
  have "coStarts (segs_composer t segs) \<noteq> [] \<and> hd (coStarts (segs_composer t segs)) = 0"
    by (simp add: segs_composer_def projectionStarts_def Let_def)
  moreover have "sorted_wrt (\<lambda>p q. dpDoc p + dpLength p \<le> dpDoc q) (coPieces (segs_composer t segs))"
    "sorted_wrt (\<lambda>f g. fnDoc f + fnLength f \<le> fnDoc g) (coFolds (segs_composer t segs))"
    using ord by (simp_all add: segs_composer_def split sorted_wrt_map seg_piece_def seg_fold_def)
  moreover have "\<forall>pc \<in> set (coPieces (segs_composer t segs)). (dpLength pc = dpDLen pc \<or> dpLength pc = 0) \<and> dpDoc pc + dpLength pc \<le> n"
    using ends seg_run_kinds[OF assms] by (auto simp: segs_composer_def split seg_piece_def)
  moreover have "\<forall>f \<in> set (coFolds (segs_composer t segs)). 0 < fnLength f \<and> fnGroup f \<noteq> 0 \<and> fnDoc f + fnLength f \<le> n"
    using ends seg_run_kinds[OF assms] by (fastforce simp: segs_composer_def split seg_fold_def)
  moreover have "\<forall>pc \<in> set (coPieces (segs_composer t segs)). \<forall>f \<in> set (coFolds (segs_composer t segs)). piece_fold_order pc f"
    using seg_run_apart[OF assms] by (auto simp: segs_composer_def split)
  moreover have "(\<forall>f \<in> set (coFolds (segs_composer t segs)). fnDisp f \<noteq> co_len (segs_composer t segs)) \<longrightarrow>
      (if coPieces (segs_composer t segs) = [] then 0
       else dpDoc (last (coPieces (segs_composer t segs))) + dpLength (last (coPieces (segs_composer t segs)))) = n"
    using last by (auto simp: segs_composer_def split seg_piece_def seg_fold_def co_len_def last_map)
  ultimately show ?thesis
    using segs_composing[OF disp] segs_folds(2,3)[OF disp] unfolding aligned_def by blast
qed

section \<open>Searching the rows\<close>

lemma built_rows:
  assumes "Build t segs = Some p" "seg_run 0 0 segs n (int (length t))"
  shows "rows_laid (segs_composer t segs) n (int (length t)) [] (dmRows p)" "dmLen p = n"
  using rows_follow[OF segs_aligned[OF assms(2)], of "blank_map t segs"] Build_fields(2,5)[OF assms(1)] seg_run_sum[OF assms(2)]
  by (simp_all add: blank_map_def segs_composer_def co_len_def)

definition rows_ordered :: "DispRow list \<Rightarrow> bool" where
  "rows_ordered rs \<longleftrightarrow> sorted_wrt (\<lambda>r s. rwDocHi r \<le> rwDocLo s) rs \<and> (\<forall>r \<in> set rs. rwDocLo r \<le> rwDocHi r)"

lemma laid_ordered: "rows_laid c n a fs rs \<Longrightarrow> rows_ordered rs"
  by (simp add: rows_laid_def rows_ordered_def)

lemma ordered_before: "rows_ordered rs \<Longrightarrow> i < j \<Longrightarrow> j < length rs \<Longrightarrow> rwDocHi (rs ! i) \<le> rwDocLo (rs ! j)"
  by (simp add: rows_ordered_def sorted_wrt_iff_nth_less)

lemma ordered_mono: "rows_ordered rs \<Longrightarrow> i \<le> j \<Longrightarrow> j < length rs \<Longrightarrow> rwDocLo (rs ! i) \<le> rwDocLo (rs ! j)"
proof (cases "i = j")
  case False
  assume h: "rows_ordered rs" "i \<le> j" "j < length rs"
  then have "rwDocLo (rs ! i) \<le> rwDocHi (rs ! i)" by (auto simp: rows_ordered_def)
  then show ?thesis using ordered_before[of rs i j] h False by simp
qed simp

text \<open>The indices of the rows of one kind, in order.\<close>

definition row_index :: "DisplayMap \<Rightarrow> (DispRow \<Rightarrow> bool) \<Rightarrow> int list" where
  "row_index p P = filter (\<lambda>k. P (dmRows p ! nat k)) [0..int (length (dmRows p)) - 1]"

lemma row_index_in: "k \<in> set (row_index p P) \<longleftrightarrow> 0 \<le> k \<and> k < int (length (dmRows p)) \<and> P (dmRows p ! nat k)"
  by (auto simp: row_index_def)

lemma row_index_less: "i < j \<Longrightarrow> j < length (row_index p P) \<Longrightarrow> row_index p P ! i < row_index p P ! j"
proof -
  have "sorted_wrt (<) (row_index p P)" unfolding row_index_def by (rule sorted_wrt_filter) simp
  then show "i < j \<Longrightarrow> j < length (row_index p P) \<Longrightarrow> row_index p P ! i < row_index p P ! j" by (simp add: sorted_wrt_iff_nth_less)
qed

lemma row_at_spec:
  assumes "rows_ordered (dmRows p)"
  shows "0 \<le> row_at p (row_index p P) off" "row_at p (row_index p P) off \<le> int (length (row_index p P))"
    "0 \<le> k \<Longrightarrow> k < int (length (row_index p P)) \<Longrightarrow> off < rwDocLo (dmRows p ! nat (row_index p P ! nat k)) \<longleftrightarrow> row_at p (row_index p P) off \<le> k"
proof -
  let ?idx = "row_index p P"
  have m: "off < rwDocLo (dmRows p ! nat (?idx ! nat b))"
    if "0 \<le> a" "a \<le> b" "b < int (length ?idx)" "off < rwDocLo (dmRows p ! nat (?idx ! nat a))" for a b
  proof -
    have "?idx ! nat a \<in> set ?idx" "?idx ! nat b \<in> set ?idx" using that by (auto intro!: nth_mem)
    moreover have "?idx ! nat a \<le> ?idx ! nat b" using row_index_less[of "nat a" "nat b" p P] that by (cases "a = b") (auto simp: nat_less_iff)
    ultimately have "rwDocLo (dmRows p ! nat (?idx ! nat a)) \<le> rwDocLo (dmRows p ! nat (?idx ! nat b))"
      by (intro ordered_mono[OF assms]) (auto simp: row_index_in)
    then show ?thesis using that(4) by simp
  qed
  show "0 \<le> row_at p ?idx off" "row_at p ?idx off \<le> int (length ?idx)"
    "0 \<le> k \<Longrightarrow> k < int (length ?idx) \<Longrightarrow> off < rwDocLo (dmRows p ! nat (?idx ! nat k)) \<longleftrightarrow> row_at p ?idx off \<le> k"
    unfolding row_at_def
    by (rule sort_Search_spec(1) sort_Search_spec(2) sort_Search_spec(3), simp, erule (3) m, (assumption+)?)+
qed

lemma findRange_in:
  assumes "rows_ordered (dmRows p)" "r < length (dmRows p)" "P (dmRows p ! r)" "rwDocLo (dmRows p ! r) \<le> off" "off < rwDocHi (dmRows p ! r)"
  shows "findRange p (row_index p P) off = Some (int r)"
proof -
  let ?idx = "row_index p P"
  have "int r \<in> set ?idx" using assms(2,3) by (simp add: row_index_in)
  then obtain j where j: "j < length ?idx" "?idx ! j = int r" by (auto simp: in_set_conv_nth)
  note at = row_at_spec[OF assms(1), where P = P and off = off]
  have "\<not> row_at p ?idx off \<le> int j" using at(3)[of "int j"] j assms(4) by simp
  moreover have "row_at p ?idx off \<le> int j + 1"
  proof (cases "Suc j < length ?idx")
    case True
    have "?idx ! Suc j \<in> set ?idx" using True by simp
    then have "rwDocHi (dmRows p ! r) \<le> rwDocLo (dmRows p ! nat (?idx ! Suc j))"
      using row_index_less[of j "Suc j" p P] True j(2) by (intro ordered_before[OF assms(1)]) (auto simp: row_index_in)
    then show ?thesis using at(3)[of "int (Suc j)"] True assms(5) by (simp add: nat_add_distrib add.commute)
  next
    case False
    then show ?thesis using at(2) j(1) by simp
  qed
  ultimately have "row_at p ?idx off = int j + 1" by simp
  then show ?thesis using j assms(5) by (simp add: findRange_def Let_def)
qed

lemma findRange_Some:
  assumes "rows_ordered (dmRows p)" "findRange p (row_index p P) off = Some r"
  shows "0 \<le> r" "r < int (length (dmRows p))" "P (dmRows p ! nat r)" "rwDocLo (dmRows p ! nat r) \<le> off" "off < rwDocHi (dmRows p ! nat r)"
proof -
  let ?idx = "row_index p P" and ?i = "row_at p (row_index p P) off"
  note at = row_at_spec[OF assms(1), where P = P and off = off]
  have i: "0 < ?i" "off < rwDocHi (dmRows p ! nat r)" "r = ?idx ! nat (?i - 1)"
    using assms(2) by (auto simp: findRange_def Let_def split: if_splits)
  then have "r \<in> set ?idx" using at(2) by (auto intro!: nth_mem)
  then show "0 \<le> r" "r < int (length (dmRows p))" "P (dmRows p ! nat r)" by (auto simp: row_index_in)
  show "off < rwDocHi (dmRows p ! nat r)" by (rule i(2))
  show "rwDocLo (dmRows p ! nat r) \<le> off" using at(3)[of "?i - 1"] at(2) i by force
qed

lemma built_index:
  assumes "Build t segs = Some p"
  shows "dmFoldRows p = row_index p (\<lambda>r. dlFold (rwLine r) \<noteq> 0)"
    "dmSessRows p = row_index p (\<lambda>r. dlFold (rwLine r) = 0 \<and> 0 \<le> dlLine (rwLine r))"
  using Build_fields(6,7)[OF assms] by (simp_all add: row_index_def)

section \<open>Where an offset is shown\<close>

lemma DispOfDoc_row:
  "0 \<le> off \<Longrightarrow> off \<le> dmLen p \<Longrightarrow> dmRows p \<noteq> [] \<Longrightarrow> findRange p (dmFoldRows p) off = None \<Longrightarrow> findRange p (dmSessRows p) off = Some r \<Longrightarrow>
     DispOfDoc (Some p) off = (r, dlLo (rwLine (dmRows p ! nat r)) + (off - rwDocLo (dmRows p ! nat r)))"
  by (simp add: DispOfDoc_def Let_def)

lemma fold_shown:
  assumes "Build t segs = Some p" "seg_run 0 0 segs n (int (length t))" "s \<in> set segs" "sgFold s" "0 \<le> k" "k < sgLen s"
  obtains r where "r < length (dmRows p)" "dmRows p ! r = fold_row (seg_fold s)" "DispOfDoc (Some p) (sgDoc s + k) = (int r, 0)"
proof -
  let ?c = "segs_composer t segs"
  note rows = built_rows[OF assms(1,2)]
  have "seg_fold s \<in> set (coFolds ?c)" using segs_folds(1)[OF seg_run_disp[OF assms(2)]] assms(3,4) by simp
  then have "fold_row (seg_fold s) \<in> set (dmRows p)" using rows(1) by (auto simp: rows_laid_def)
  then obtain r where r: "r < length (dmRows p)" "dmRows p ! r = fold_row (seg_fold s)" by (auto simp: in_set_conv_nth)
  have "sgGroup s \<noteq> 0" using seg_run_kinds[OF assms(2,3)] assms(4) by simp
  then have "findRange p (dmFoldRows p) (sgDoc s + k) = Some (int r)"
    unfolding built_index[OF assms(1)] using r assms(5,6)
    by (intro findRange_in[OF laid_ordered[OF rows(1)]]) (auto simp: fold_row_def seg_fold_def)
  moreover have "0 \<le> sgDoc s" "sgDoc s + k \<le> n" using seg_run_bounds[OF assms(2)] assms(3,6) by force+
  ultimately have "DispOfDoc (Some p) (sgDoc s + k) = (int r, 0)" using r(1) assms(5) rows(2) by (cases "dmRows p = []") (auto simp: DispOfDoc_def Let_def)
  then show thesis using that r by blast
qed

lemma text_shown:
  assumes "Build t segs = Some p" "seg_run 0 0 segs n (int (length t))" "s \<in> set segs" "\<not> sgFold s" "0 \<le> k" "k < sgLen s"
    "t ! nat (sgDisp s + k) \<noteq> 10"
  obtains r where "r < length (dmRows p)" "0 \<le> dlLine (rwLine (dmRows p ! r))" "dlFold (rwLine (dmRows p ! r)) = 0"
    "rwCompLo (dmRows p ! r) \<le> sgDisp s + k" "sgDisp s + k < rwCompHi (dmRows p ! r)"
    "sgDoc s + k = rwDocLo (dmRows p ! r) + (sgDisp s + k - rwCompLo (dmRows p ! r))" "row_ok (segs_composer t segs) (dmRows p ! r)"
    "DispOfDoc (Some p) (sgDoc s + k) = (int r, dlLo (rwLine (dmRows p ! r)) + (sgDisp s + k - rwCompLo (dmRows p ! r)))"
proof -
  let ?c = "segs_composer t segs" and ?x = "sgDisp s + k" and ?off = "sgDoc s + k"
  note rows = built_rows[OF assms(1,2)] and disp = seg_run_disp[OF assms(2)]
  note al = segs_aligned[OF assms(2)]
  have ord: "rows_ordered (dmRows p)" by (rule laid_ordered[OF rows(1)])
  have len: "sgDLen s = sgLen s" using seg_run_kinds[OF assms(2,3)] assms(4-6) by auto
  have x: "0 \<le> ?x" "?x < int (length t)" using disp_run_bounds[OF disp] assms(3,5,6) len by force+
  have pc: "seg_piece s \<in> set (coPieces ?c)" "covers_at (seg_piece s) ?x"
    using assms(3-6) len by (auto simp: segs_composer_def splitSegs_run[OF disp] covers_at_def seg_piece_def)
  have "?x \<in> set (rows_cells (dmRows p))" unfolding built_cells[OF assms(1) disp] using x assms(7) by (simp add: drawn_cells_def)
  then obtain r where r: "r < length (dmRows p)" "rwCompLo (dmRows p ! r) \<le> ?x" "?x < rwCompHi (dmRows p ! r)"
    by (auto simp: rows_cells_def in_set_conv_nth)
  let ?r = "dmRows p ! r"
  have ok: "row_ok ?c ?r" using rows(1) r(1) by (auto simp: rows_laid_def)
  have one: "q = seg_piece s" if "q \<in> set (coPieces ?c)" "covers_at q ?x" for q
    by (rule piece_unique[OF alignedD(1)[OF al] that(1) pc(1) that(2) pc(2)])
  have kind: "dlFold (rwLine ?r) = 0" "0 \<le> dlLine (rwLine ?r)"
    using ok r one assms(5,6) by (force simp: row_ok_def seg_piece_def split: if_splits)+
  have "kept_at ?c ?x (rwDocLo ?r + (?x - rwCompLo ?r))" using ok kind r by (auto simp: row_ok_def intro: kept_run_at)
  then have off: "?off = rwDocLo ?r + (?x - rwCompLo ?r)" using one by (force simp: kept_at_def seg_piece_def)
  have inr: "rwDocLo ?r \<le> ?off" "?off < rwDocHi ?r" using ok kind off r by (auto simp: row_ok_def)
  have none: "findRange p (dmFoldRows p) ?off = None"
  proof (rule ccontr)
    assume "findRange p (dmFoldRows p) ?off \<noteq> None"
    then obtain q where "findRange p (dmFoldRows p) ?off = Some q" by blast
    note q = findRange_Some[OF ord this[unfolded built_index(1)[OF assms(1)]]]
    have "nat q \<noteq> r" using q(3) kind(1) by auto
    then show False
      using ordered_before[OF ord, of "nat q" r] ordered_before[OF ord, of r "nat q"] q(1,2,4,5) r(1) inr
      by (cases "nat q < r") (auto simp: nat_less_iff)
  qed
  have "findRange p (dmSessRows p) ?off = Some (int r)"
    unfolding built_index(2)[OF assms(1)] using r(1) kind inr by (intro findRange_in[OF ord]) auto
  moreover have "0 \<le> ?off" "?off \<le> n" using seg_run_bounds[OF assms(2)] assms(3,5,6) by force+
  ultimately have d: "DispOfDoc (Some p) ?off = (int r, dlLo (rwLine ?r) + (?off - rwDocLo ?r))"
    using DispOfDoc_row[of ?off p "int r"] none r(1) rows(2) by (cases "dmRows p = []") simp_all
  moreover have "?off - rwDocLo ?r = ?x - rwCompLo ?r" using off by linarith
  ultimately have "DispOfDoc (Some p) ?off = (int r, dlLo (rwLine ?r) + (?x - rwCompLo ?r))" by metis
  then show thesis using that r kind off ok by blast
qed



text \<open>A composition with all three kinds of run: \<open>ab\<close> kept, a hidden run of three bytes, a restored \<open>x\<close>, \<open>c\<close> and a newline.\<close>

definition demo_segs :: "Seg list" where
  "demo_segs = [\<lparr>sgDoc = 0, sgDisp = 0, sgLen = 2, sgDLen = 2, sgFold = False, sgGroup = 1, sgHiddenLines = 0\<rparr>,
     \<lparr>sgDoc = 2, sgDisp = 2, sgLen = 3, sgDLen = 0, sgFold = True, sgGroup = 7, sgHiddenLines = 0\<rparr>,
     \<lparr>sgDoc = 5, sgDisp = 2, sgLen = 0, sgDLen = 1, sgFold = False, sgGroup = 4, sgHiddenLines = 0\<rparr>,
     \<lparr>sgDoc = 5, sgDisp = 3, sgLen = 2, sgDLen = 2, sgFold = False, sgGroup = 1, sgHiddenLines = 0\<rparr>]"

lemma demo_built: "seg_run 0 0 demo_segs 7 (int (length [97, 98, 120, 99, 10 :: byte]))"
  "Build [97, 98, 120, 99, 10] demo_segs \<noteq> None"
  "map_option dmRows (Build [97, 98, 120, 99, 10] demo_segs) = Some
     [disp_row (line_row 0 0 2 0) 0 2 0 2, disp_row (line_row (-1) 0 0 7) 2 5 2 2, disp_row (line_row (-1) 0 1 0) 5 5 2 3,
      disp_row (line_row 0 5 6 0) 5 6 3 4, disp_row (line_row 1 0 0 0) 7 7 5 5]"
  by code_simp+



end
