(* ===== verification/ProjectLaw.thy ===== *)
theory ProjectLaw
  imports Compositions
begin

text \<open>
  The composition a session projects to is a well-formed document over the session's store, and its alignment segments are
  missing only where the session and the composition are both empty.
\<close>

section \<open>Runs of newlines\<close>

lemma nl_runs_in: "(k, i, n) \<in> set (nl_runs a t) \<Longrightarrow> a \<le> i \<and> 0 < n \<and> i + n \<le> a + int (length t)"
proof (induction a t rule: nl_runs.induct)
  case (2 a b bs)
  let ?m = "Suc (length (takeWhile (\<lambda>c. (c = 10) = (b = 10)) bs))"
  have m: "?m \<le> Suc (length bs)" using length_takeWhile_le[of "\<lambda>c. (c = 10) = (b = 10)" bs] by simp
  show ?case
  proof (cases "(k, i, n) = (b = 10, a, int ?m)")
    case True
    then show ?thesis using m by simp
  next
    case False
    then have "(k, i, n) \<in> set (nl_runs (a + int ?m) (drop (?m - 1) bs))" using "2.prems" by (auto simp: Let_def)
    then have "a + int ?m \<le> i \<and> 0 < n \<and> i + n \<le> a + int ?m + int (length (drop (?m - 1) bs))" using "2.IH"[OF refl refl] by simp
    then show ?thesis using m by auto
  qed
qed simp

lemma nl_runs_some: "t \<noteq> [] \<Longrightarrow> nl_runs a t \<noteq> []"
  by (cases t) (simp_all add: Let_def)

section \<open>Un-applied pieces\<close>

definition good_pieces :: "store \<Rightarrow> PieceRec list \<Rightarrow> bool" where
  "good_pieces st ps \<longleftrightarrow> (\<forall>p \<in> set ps. 0 < Length p \<and> rec_in_store st p)"

lemma good_naive: "naive_inv n \<longleftrightarrow> good_pieces (nStore n) (nPieces n)"
  by (auto simp: naive_inv_def good_pieces_def pos_ok_def)

lemma good_simps [simp]: "good_pieces st []" "good_pieces st (p # ps) \<longleftrightarrow> 0 < Length p \<and> rec_in_store st p \<and> good_pieces st ps"
  "good_pieces st (xs @ ys) \<longleftrightarrow> good_pieces st xs \<and> good_pieces st ys"
  by (auto simp: good_pieces_def)

text \<open>A piece of the session is borne by the pieces kept or by what they hide.\<close>

definition bears :: "projOrigin list \<Rightarrow> hiddenRun list \<Rightarrow> bool" where
  "bears prov hidden \<longleftrightarrow> hidden \<noteq> [] \<or> (\<exists>pr \<in> set prov. 0 \<le> poDoc pr)"

lemma bears_simps [simp]: "bears prov (h # hs)" "bears prov (xs @ [h])" "bears [] [] \<longleftrightarrow> False" "bears [] hs \<longleftrightarrow> hs \<noteq> []"
  "bears (ps @ qs) hs \<longleftrightarrow> bears ps hs \<or> bears qs hs" "bears (pr # ps) hs \<longleftrightarrow> 0 \<le> poDoc pr \<or> bears ps hs"
  by (auto simp: bears_def)

lemma unapply_whole_good:
  "good_pieces st (map fst ps) \<Longrightarrow> good_pieces st (uaPieces u) \<Longrightarrow> good_pieces st (uaPieces (unapply_whole s st owns ps off u))"
  by (induction ps arbitrary: off u) (auto simp: keep_piece_def)

lemma unapply_whole_bears:
  "good_pieces st (map fst ps) \<Longrightarrow> bears (map snd ps @ uaProv u) (uaDropped u) \<Longrightarrow>
   bears (uaProv (unapply_whole s st owns ps off u)) (uaDropped (unapply_whole s st owns ps off u))"
proof (induction ps arbitrary: off u)
  case (Cons x ps)
  obtain p pr where x: "x = (p, pr)" by fastforce
  show ?case
  proof (cases "owns p")
    case True
    let ?u = "u\<lparr>uaAt := (if uaAt u < 0 then off else uaAt u), uaRemoved := True,
       uaDropped := (if 0 \<le> poDoc pr \<and> 0 < Length p
         then uaDropped u @ [\<lparr>hrDoc = poDoc pr, hrLength = Length p, hrGroup = poGroup pr, hrState = poState pr,
                hrLines = countNewlines (rec_text st p)\<rparr>] else uaDropped u)\<rparr>"
    have "bears (map snd ps @ uaProv u) (uaDropped ?u)" using Cons.prems by (auto simp: x bears_def)
    then show ?thesis using Cons.IH[of ?u off] Cons.prems True by (simp add: x)
  next
    case False
    then show ?thesis using Cons.IH[of "keep_piece p pr u" "off + Length p"] Cons.prems by (auto simp: x keep_piece_def bears_def)
  qed
qed simp

lemma sub_rec_in_store: "rec_in_store st p \<Longrightarrow> 0 \<le> i \<Longrightarrow> 0 \<le> n \<Longrightarrow> i + n \<le> Length p \<Longrightarrow> rec_in_store st (piece (Buf p) (Start p + i) n)"
  by (auto simp: rec_in_store_def)

lemma keep_run_good:
  assumes "rec_in_store st p" "\<forall>(k, i, n) \<in> set rs. 0 \<le> i \<and> 0 < n \<and> i + n \<le> Length p" "good_pieces st (uaPieces (snd acc))"
  shows "good_pieces st (uaPieces (snd (foldl (keep_run p pr) acc rs)))"
  using assms(2,3)
proof (induction rs arbitrary: acc)
  case (Cons r rs)
  have "good_pieces st (uaPieces (snd (keep_run p pr acc r)))"
    using Cons.prems sub_rec_in_store[OF assms(1)] by (auto simp: keep_run_def keep_piece_def split: prod.splits)
  then show ?case using Cons by simp
qed simp

lemma keep_run_bears:
  "bears (uaProv (snd acc)) (uaDropped (snd acc)) \<or> (0 \<le> poDoc pr \<and> rs \<noteq> [] \<and> (\<forall>(k, i, n) \<in> set rs. 0 \<le> i)) \<Longrightarrow>
   bears (uaProv (snd (foldl (keep_run p pr) acc rs))) (uaDropped (snd (foldl (keep_run p pr) acc rs)))"
proof (induction rs arbitrary: acc)
  case (Cons r rs)
  have "bears (uaProv (snd (keep_run p pr acc r))) (uaDropped (snd (keep_run p pr acc r)))"
    using Cons.prems by (auto simp: keep_run_def keep_piece_def bears_def split: prod.splits)
  then show ?case using Cons.IH by simp
qed auto

lemma text_runs:
  assumes "rec_in_store st p"
  shows "\<forall>(k, i, n) \<in> set (nl_runs 0 (rec_text st p)). 0 \<le> i \<and> 0 < n \<and> i + n \<le> Length p"
  using nl_runs_in[of _ _ _ 0 "rec_text st p"] rec_text_bytes[OF assms] assms by (fastforce simp: rec_in_store_def)

lemma unapply_keep_good:
  "good_pieces st (map fst ps) \<Longrightarrow> good_pieces st (uaPieces u) \<Longrightarrow>
   good_pieces st (uaPieces (unapply_keep_newlines s st owns ps off u))"
proof (induction ps arbitrary: off u)
  case (Cons x ps)
  obtain p pr where x: "x = (p, pr)" by fastforce
  let ?u = "u\<lparr>uaAt := (if uaAt u < 0 then off else uaAt u), uaRemoved := True\<rparr>"
  obtain off' u' where F: "foldl (keep_run p pr) (off, ?u) (nl_runs 0 (rec_text st p)) = (off', u')" by fastforce
  have "rec_in_store st p" using Cons.prems by (simp add: x)
  from keep_run_good[OF this text_runs[OF this], of "(off, ?u)" pr] have "good_pieces st (uaPieces u')" using Cons.prems F by simp
  then show ?case using Cons F by (simp add: x keep_piece_def Let_def)
qed simp

lemma unapply_keep_bears:
  "good_pieces st (map fst ps) \<Longrightarrow> bears (map snd ps @ uaProv u) (uaDropped u) \<Longrightarrow>
   bears (uaProv (unapply_keep_newlines s st owns ps off u)) (uaDropped (unapply_keep_newlines s st owns ps off u))"
proof (induction ps arbitrary: off u)
  case (Cons x ps)
  obtain p pr where x: "x = (p, pr)" by fastforce
  have p: "rec_in_store st p" "0 < Length p" using Cons.prems by (simp_all add: x)
  show ?case
  proof (cases "owns p")
    case True
    let ?u = "u\<lparr>uaAt := (if uaAt u < 0 then off else uaAt u), uaRemoved := True\<rparr>"
    obtain off' u' where F: "foldl (keep_run p pr) (off, ?u) (nl_runs 0 (rec_text st p)) = (off', u')" by fastforce
    have "int (length (rec_text st p)) = Length p" using rec_text_bytes[OF p(1)] p by (simp add: rec_in_store_def)
    then have "rec_text st p \<noteq> []" using p(2) by auto
    then have "nl_runs 0 (rec_text st p) \<noteq> []" by (rule nl_runs_some)
    then have "bears (uaProv u) (uaDropped u) \<or> 0 \<le> poDoc pr \<Longrightarrow> bears (uaProv u') (uaDropped u')"
      using keep_run_bears[of "(off, ?u)" pr "nl_runs 0 (rec_text st p)" p] text_runs[OF p(1)] F by fastforce
    then have "bears (map snd ps @ uaProv u') (uaDropped u')" using Cons.prems by (auto simp: x bears_def)
    then show ?thesis using Cons.IH[of u' off'] Cons.prems True F by (simp add: x Let_def)
  next
    case False
    then show ?thesis using Cons.IH[of "keep_piece p pr u" "off + Length p"] Cons.prems by (auto simp: x keep_piece_def bears_def)
  qed
qed simp

lemma unapply_good:
  assumes "good_pieces (nStore cmp) (nPieces cmp)" "length prov = length (nPieces cmp)"
  shows "good_pieces (nStore cmp) (uaPieces (unapplyRemoveIns s cmp prov ins gid))"
  using assms unapply_whole_good[of _ "zip (nPieces cmp) prov"] unapply_keep_good[of _ "zip (nPieces cmp) prov"]
  by (simp add: unapplyRemoveIns_def Let_def)

lemma unapply_bears:
  assumes "good_pieces (nStore cmp) (nPieces cmp)" "length prov = length (nPieces cmp)" "bears prov hidden"
  shows "bears (uaProv (unapplyRemoveIns s cmp prov ins gid)) (hidden @ uaDropped (unapplyRemoveIns s cmp prov ins gid))"
proof (cases "hidden = []")
  case True
  let ?u0 = "\<lparr>uaAt = - 1, uaRemoved = False, uaPieces = [], uaProv = [], uaDropped = []\<rparr>"
  have z: "good_pieces (nStore cmp) (map fst (zip (nPieces cmp) prov))" "map snd (zip (nPieces cmp) prov) = prov" using assms(1,2) by simp_all
  show ?thesis
    using True assms(3) unapply_whole_bears[OF z(1), of ?u0] unapply_keep_bears[OF z(1), of ?u0] z(2)
    by (simp add: unapplyRemoveIns_def Let_def)
qed (simp add: bears_def)

section \<open>The walk over the journal\<close>

lemma take_nth_drop_set: "set (take i xs) \<union> (if i < length xs then insert (xs ! i) (set (drop (i + 1) xs)) else {}) = set xs"
proof (cases "i < length xs")
  case True
  then have "set xs = set (take i xs @ xs ! i # drop (i + 1) xs)" by (simp add: id_take_nth_drop[symmetric])
  then show ?thesis using True by simp
qed simp

lemma insertRecsProv_bears:
  assumes "insertRecsProv cmp prov pos recs meta = (c, pv)"
  shows "set prov \<subseteq> set pv"
proof (cases "recs = []")
  case False
  obtain i off where l: "locate (nPieces cmp) pos = (i, off)" by fastforce
  then have "pv = take i prov @ (if 0 < off then split_prov (prov ! i) off else []) @ map (\<lambda>_. meta) recs @
      (if i < length prov then (if off \<le> 0 then [prov ! i] else []) @ drop (i + 1) prov else [])"
    using assms False by (simp add: insertRecsProv_def)
  then have "set (take i prov) \<union> (if i < length prov then insert (prov ! i) (set (drop (i + 1) prov)) else {}) \<subseteq> set pv"
    by (auto simp: split_prov_def)
  then show ?thesis by (simp only: take_nth_drop_set)
qed (use assms in \<open>simp add: insertRecsProv_def\<close>)

definition comp_good :: "store \<Rightarrow> naive \<times> projOrigin list \<times> hiddenRun list \<Rightarrow> bool" where
  "comp_good st acc \<longleftrightarrow> (case acc of (cmp, prov, hidden) \<Rightarrow>
     nStore cmp = st \<and> good_pieces st (nPieces cmp) \<and> length prov = length (nPieces cmp))"

definition comp_bears :: "naive \<times> projOrigin list \<times> hiddenRun list \<Rightarrow> bool" where
  "comp_bears acc \<longleftrightarrow> (case acc of (cmp, prov, hidden) \<Rightarrow> bears prov hidden)"

lemma project_step_law:
  assumes "comp_good st acc" "good_pieces st (opDel q)"
  shows "comp_good st (project_step s p df iv pr acc q)" "comp_bears acc \<Longrightarrow> comp_bears (project_step s p df iv pr acc q)"
proof -
  obtain cmp prov hidden where a: "acc = (cmp, prov, hidden)" by (metis prod_cases3)
  have g: "nStore cmp = st" "good_pieces (nStore cmp) (nPieces cmp)" "length prov = length (nPieces cmp)"
    using assms(1) by (simp_all add: a comp_good_def)
  define u where "u = unapplyRemoveIns s cmp prov (opIns q) (opGroup q)"
  have ug: "good_pieces st (uaPieces u)" using unapply_good[OF g(2,3)] g(1) by (simp add: u_def)
  have ub: "bears prov hidden \<Longrightarrow> bears (uaProv u) (hidden @ uaDropped u)" using unapply_bears[OF g(2,3)] by (simp add: u_def)
  have ul: "length (uaProv u) = length (uaPieces u)" unfolding u_def using unapply_length[OF g(3)] by simp
  let ?c = "cmp\<lparr>nPieces := uaPieces u\<rparr>"
  have ci: "naive_inv ?c" using ug g(1) by (simp add: good_naive)
  have R: "comp_good st (c, pv, hidden @ uaDropped u)" "bears prov hidden \<Longrightarrow> bears pv (hidden @ uaDropped u)"
    if "insertRecsProv ?c (uaProv u) at (opDel q) meta = (c, pv)" for at meta c pv
  proof -
    have c: "c = (if opDel q = [] then ?c else naive_insertRecs ?c at (opDel q))"
      using that by (auto simp: insertRecsProv_def split: if_splits prod.splits)
    have "\<forall>r \<in> set (opDel q). 0 < Length r \<and> rec_in_store (nStore ?c) r" using assms(2) g(1) by (simp add: good_pieces_def)
    note I = naive_insertRecs_law[OF ci this, of at]
    show "comp_good st (c, pv, hidden @ uaDropped u)"
      using I(1,3) ci c insertRecsProv_length[OF _ that] ul g(1) by (auto simp: comp_good_def good_naive)
    show "bears prov hidden \<Longrightarrow> bears pv (hidden @ uaDropped u)" using ub insertRecsProv_bears[OF that] by (auto simp: bears_def)
  qed
  show "comp_good st (project_step s p df iv pr acc q)"
    using assms(1) R(1) ug ul g(1)
    by (auto simp: project_step_def a u_def[symmetric] Let_def comp_good_def[of _ "(_, _, _)"] simp del: naive_Len_def split: prod.split)
  show "comp_bears acc \<Longrightarrow> comp_bears (project_step s p df iv pr acc q)"
    using R(2) ub by (auto simp: project_step_def a u_def[symmetric] Let_def comp_bears_def simp del: naive_Len_def split: prod.split)
qed

lemma project_walk_law:
  "comp_good st acc \<Longrightarrow> \<forall>q \<in> set qs. good_pieces st (opDel q) \<Longrightarrow>
   comp_good st (foldl (project_step s p df iv pr) acc qs) \<and> (comp_bears acc \<longrightarrow> comp_bears (foldl (project_step s p df iv pr) acc qs))"
  by (induction qs arbitrary: acc) (simp_all add: project_step_law)

lemma view_prov_nonneg:
  "\<forall>p \<in> set ps. 0 < Length p \<Longrightarrow> 0 \<le> snd acc \<Longrightarrow> \<forall>pr \<in> set (fst acc). 0 \<le> poDoc pr \<Longrightarrow>
   \<forall>pr \<in> set (fst (foldl (view_prov_step s ix) acc ps)). 0 \<le> poDoc pr"
proof (induction ps arbitrary: acc)
  case (Cons p ps)
  obtain prov doc where a: "acc = (prov, doc)" by fastforce
  obtain g st where own: "owner_state s ix p = (g, st)" by fastforce
  have "view_prov_step s ix acc p = (prov @ [\<lparr>poDoc = doc, poGroup = g, poState = st\<rparr>], doc + Length p)" by (simp add: view_prov_step_def a own)
  then show ?case using Cons.IH[of "(prov @ [\<lparr>poDoc = doc, poGroup = g, poState = st\<rparr>], doc + Length p)"] Cons.prems by (simp add: a)
qed simp

text \<open>Nothing comes of the loop over the pieces only when it is given nothing.\<close>

lemma flush_some: "segs \<noteq> [] \<or> hs \<noteq> [] \<Longrightarrow> flush_hidden till d segs doc hs = (segs', doc', hs') \<Longrightarrow> segs' \<noteq> [] \<or> hs' \<noteq> []"
  by (induction hs arbitrary: segs doc) (auto split: if_splits)

lemma segment_loop_some: "segs \<noteq> [] \<or> hs \<noteq> [] \<or> ps \<noteq> [] \<Longrightarrow> segment_loop ps hs d doc segs \<noteq> []"
  by (induction ps hs d doc segs rule: segment_loop.induct) (auto split: prod.splits)

lemma merge_hidden_some: "hs \<noteq> [] \<Longrightarrow> merge_hidden hs \<noteq> []"
proof -
  have s: "merge_hidden_step ms h \<noteq> []" for ms h by (simp add: merge_hidden_step_def)
  have "ms \<noteq> [] \<or> xs \<noteq> [] \<Longrightarrow> foldl merge_hidden_step ms xs \<noteq> []" for ms xs
    by (induction xs arbitrary: ms) (simp_all add: s)
  moreover have "hs \<noteq> [] \<Longrightarrow> sort_key hrDoc hs \<noteq> []" by (metis length_0_conv length_sort)
  ultimately show "hs \<noteq> [] \<Longrightarrow> merge_hidden hs \<noteq> []" by (auto simp: merge_hidden_def)
qed

text \<open>Segments show no negative number of bytes.\<close>

definition dlens_ok :: "ProjSeg list \<Rightarrow> bool" where
  "dlens_ok segs \<longleftrightarrow> (\<forall>g \<in> set segs. 0 \<le> pgDLen g)"

lemma dlens_simps [simp]: "dlens_ok []" "dlens_ok (xs @ ys) \<longleftrightarrow> dlens_ok xs \<and> dlens_ok ys" "dlens_ok [g] \<longleftrightarrow> 0 \<le> pgDLen g"
  by (auto simp: dlens_ok_def)

lemma flush_dlen: "dlens_ok segs \<Longrightarrow> flush_hidden till d segs doc hs = (segs', doc', hs') \<Longrightarrow> dlens_ok segs'"
proof (induction hs arbitrary: segs doc)
  case (Cons h hs)
  then show ?case using Cons.IH[of "segs @ [hide_seg h d]" "hrDoc h + hrLength h"] by (auto simp: hide_seg_ok split: if_splits)
qed simp

lemma segment_loop_dlen:
  "dlens_ok segs \<Longrightarrow> \<forall>p \<in> set ps. 0 \<le> Length (fst p) \<Longrightarrow> dlens_ok (segment_loop ps hs d doc segs)"
proof (induction ps arbitrary: hs d doc segs)
  case (Cons x ps)
  obtain p pr where x: "x = (p, pr)" by fastforce
  obtain segs1 doc1 hs1 where F: "flush_hidden (poDoc pr) d segs doc hs = (segs1, doc1, hs1)" by (metis prod_cases3)
  have s: "dlens_ok segs1" by (rule flush_dlen[OF Cons.prems(1) F])
  have "extends_seg segs1 pr \<Longrightarrow> dlens_ok (butlast segs1) \<and> 0 \<le> pgDLen (last segs1)"
    using s by (cases segs1 rule: rev_cases) (auto simp: extends_seg_def)
  then show ?case using Cons.prems F s Cons.IH by (simp add: x)
next
  case Nil
  then show ?case using hide_seg_ok(2) by (auto simp: dlens_ok_def)
qed

lemma no_decisions_comp: "\<not> HasDecisions s \<Longrightarrow> dpComp (project s p pr) = view_of s"
  by (simp add: project_def projectNoDecisions_def)

lemma project_law:
  assumes "tl_inv s"
  shows "naive_inv (dpComp (project s p pr))"
    "HasDecisions s \<Longrightarrow> dpSegments (project s p pr) = [] \<Longrightarrow> pe_text (sBuf s) = [] \<and> nPieces (dpComp (project s p pr)) = []"
    "HasDecisions s \<Longrightarrow> dlens_ok (dpSegments (project s p pr))"
proof -
  note V = view_inv[OF assms]
  let ?ix = "newOriginIndex (allOrigins s)"
  let ?prov = "fst (foldl (view_prov_step s ?ix) ([], 0) (nPieces (view_of s)))"
  let ?iv = "if p \<noteq> Annotated then invalidGroups s else []"
  let ?a = "(view_of s, ?prov, [])"
  obtain cmp prov1 hidden where F: "foldl (project_step s p (deferredDeletions s p) ?iv pr) ?a (rev (sJournal s)) = (cmp, prov1, hidden)"
    by (metis prod_cases3)
  have pos: "\<forall>r \<in> set (nPieces (view_of s)). 0 < Length r" using V(1) by (simp add: good_naive good_pieces_def)
  have g: "comp_good (pe_Store (sBuf s)) ?a" using V(1,3) by (simp add: comp_good_def good_naive view_prov_length)
  have fits: "pe_fits (sBuf s) r \<Longrightarrow> 0 < Length r" for r
    by (cases "sBuf s") (auto simp: naive_fits_def doc_fits_def piece_fits_def)
  have d: "\<forall>q \<in> set (rev (sJournal s)). good_pieces (pe_Store (sBuf s)) (opDel q)"
    using tl_invD(6)[OF assms] fits by (auto simp: op_recs_ok_def pe_splice_ok_def good_pieces_def)
  note W = project_walk_law[OF g d, of s p "deferredDeletions s p" ?iv pr]
  have l: "length prov1 = length (nPieces cmp)" and c: "naive_inv cmp" using W by (simp_all add: F comp_good_def good_naive)
  have D: "HasDecisions s \<Longrightarrow> dpComp (project s p pr) = cmp" "HasDecisions s \<Longrightarrow> dpSegments (project s p pr) = buildSegments (nPieces cmp) prov1 hidden"
    by (simp_all only: project_def Let_def F if_True if_False not_True_eq_False prod.case DerivedProject.simps simp_thms)
  show "naive_inv (dpComp (project s p pr))" using c D(1) V(1) by (cases "HasDecisions s") (simp_all add: no_decisions_comp)
  show "HasDecisions s \<Longrightarrow> dlens_ok (dpSegments (project s p pr))"
  proof -
    have "\<forall>x \<in> set (zip (nPieces cmp) prov1). 0 \<le> Length (fst x)"
      using c by (auto simp: good_naive good_pieces_def less_imp_le dest!: set_zip_leftD)
    then show "HasDecisions s \<Longrightarrow> dlens_ok (dpSegments (project s p pr))"
      using segment_loop_dlen[of "[]"] by (simp add: D(2) buildSegments_def)
  qed
  assume h: "HasDecisions s" "dpSegments (project s p pr) = []"
  then have e: "merge_hidden hidden = []" "zip (nPieces cmp) prov1 = []"
    using D(2) segment_loop_some[of "[]" "merge_hidden hidden" "zip (nPieces cmp) prov1" 0 0] by (auto simp: buildSegments_def)
  then have n: "hidden = []" "prov1 = []" "nPieces cmp = []" using merge_hidden_some[of hidden] l by auto
  have "\<not> comp_bears ?a" using W n by (auto simp: F comp_bears_def)
  then have "?prov = []" using view_prov_nonneg[OF pos, of "([], 0)" s ?ix] by (cases ?prov) (auto simp: comp_bears_def bears_def)
  then have "nPieces (view_of s) = []" using view_prov_length[of s ?ix "([], 0)" "nPieces (view_of s)"] by simp
  then have "pe_text (sBuf s) = []" using V(2) by (simp add: pe_text_def)
  then show "pe_text (sBuf s) = [] \<and> nPieces (dpComp (project s p pr)) = []" using n(3) D(1)[OF h(1)] by simp
qed

lemma Text_length: "naive_inv (dpComp d) \<Longrightarrow> int (length (Text d)) = naive_Len (dpComp d)"
  using naive_ed.slice_all[of "dpComp d"] naive_ed.length_content[of "dpComp d"] by (simp add: Text_def)

lemma Text_empty: "naive_inv (dpComp d) \<Longrightarrow> nPieces (dpComp d) = [] \<Longrightarrow> Text d = []"
  using Text_length[of d] by (simp add: naive_Len_def naive_Len_loop_eq)

end
