(* ===== verification/FileSave.thy ===== *)
theory FileSave
  imports EditorFile
begin

text \<open>
  Decisions made through an open document, whether it is dirty, and its save (\<open>internal/editor/file.go\<close>). The digest
  of a document read in chunks is the digest of its text.
\<close>

section \<open>Decisions\<close>

definition noteDecision :: "File \<Rightarrow> File" where
  "noteDecision f = f\<lparr>flLayered := True, flDecisionGen := flDecisionGen f + 1, flCleanKnow := False\<rparr>"

definition noteDecisions :: "File \<Rightarrow> File" where
  "noteDecisions f = (if list_ex (\<lambda>g. gState g \<noteq> Accepted) (Groups (flSess f)) then f\<lparr>flLayered := True\<rparr> else f)"

definition fl_RejectGroup :: "File \<Rightarrow> nat \<Rightarrow> bool \<times> File" where
  "fl_RejectGroup f g =
     (let (ok, s) = RejectGroup (flSess f) g; f1 = f\<lparr>flSess := s\<rparr>
      in (ok, fl_sync (if ok then noteDecision f1 else f1)))"

definition fl_ClearGroup :: "File \<Rightarrow> nat \<Rightarrow> bool \<times> Block \<times> File" where
  "fl_ClearGroup f g =
     (let (ok, block, s) = ClearGroup (flSess f) g; f1 = f\<lparr>flSess := s\<rparr>
      in if \<not> ok then (False, block, f1) else (True, block, fl_sync (noteDecision f1)))"

definition fl_ClearRejectedBlock :: "File \<Rightarrow> nat \<Rightarrow> bool \<times> Block \<times> File" where
  "fl_ClearRejectedBlock f g =
     (let (ok, block, s) = ClearRejectedBlock (flSess f) g; f1 = f\<lparr>flSess := s\<rparr>
      in if \<not> ok then (False, block, f1) else (True, block, fl_sync (noteDecision f1)))"

definition fl_ClearRejected :: "File \<Rightarrow> nat \<Rightarrow> bool \<times> File" where
  "fl_ClearRejected f g = (case fl_ClearRejectedBlock f g of (ok, _, f1) \<Rightarrow> (ok, f1))"

definition fl_RevertAuthor :: "File \<Rightarrow> author \<Rightarrow> bool \<times> Block \<times> File" where
  "fl_RevertAuthor f a =
     (let v = Version (flSess f); (ok, block, s) = RevertAuthor (flSess f) a; f1 = f\<lparr>flSess := s\<rparr>
      in if \<not> ok \<and> bkGroup block = 0 \<and> Version s = v then (False, block, f1)
         else (ok, block, fl_sync (noteDecision f1)))"

definition fl_ProposeGroup :: "File \<Rightarrow> nat \<Rightarrow> File" where
  "fl_ProposeGroup f g = fl_sync (noteDecision (f\<lparr>flSess := MarkGroup (flSess f) g Proposed\<rparr>))"

definition fl_AcceptGroup :: "File \<Rightarrow> nat \<Rightarrow> File" where
  "fl_AcceptGroup f g = fl_sync (noteDecision (f\<lparr>flSess := AcceptGroup (flSess f) g\<rparr>))"

definition fl_AcceptPending :: "File \<Rightarrow> nat \<times> File" where
  "fl_AcceptPending f =
     (let (n, s) = AcceptPending (flSess f); f1 = f\<lparr>flSess := s\<rparr>
      in (n, fl_sync (if 0 < n then noteDecision f1 else f1)))"

section \<open>Dirty\<close>

definition MaxCleanCheck :: int where "MaxCleanCheck = 8388608"

definition markSavedBytes :: "(byte list \<Rightarrow> digest) \<Rightarrow> byte list \<Rightarrow> byte list \<Rightarrow> File \<Rightarrow> File" where
  "markSavedBytes sha content data f =
     f\<lparr>flSaved := Version (flSess f), flSavedLen := int (length content), flSavedSum := sha content,
       flSavedDisk := sha data, flSavedGen := flDecisionGen f, flCleanKnow := False\<rparr>"

definition markSaved :: "(byte list \<Rightarrow> digest) \<Rightarrow> byte list \<Rightarrow> File \<Rightarrow> File" where
  "markSaved sha content f = markSavedBytes sha content content f"

definition fl_checksum :: "(byte list \<Rightarrow> digest) \<Rightarrow> File \<Rightarrow> digest" where
  "fl_checksum sha f = sha (fl_Text f)"

definition acceptedDirty :: "(byte list \<Rightarrow> digest) \<Rightarrow> File \<Rightarrow> bool" where
  "acceptedDirty sha f =
     (let acc = Project (flSess f) AcceptedOnly; n = naive_Len (dpComp acc)
      in if n \<noteq> flSavedLen f \<or> MaxCleanCheck < n then True else sha (Text acc) \<noteq> flSavedSum f)"

definition fl_Dirty :: "(byte list \<Rightarrow> digest) \<Rightarrow> File \<Rightarrow> bool \<times> File" where
  "fl_Dirty sha f =
     (let v = Version (flSess f) in
      if flSnapshot f then (False, f)
      else if \<not> flLayered f then
        (if v = flSaved f then (False, f)
         else if flCleanKnow f \<and> flCleanVer f = v then (flCleanDirt f, f)
         else let n = fl_Len f;
                  dirty = (if n = flSavedLen f \<and> n \<le> MaxCleanCheck then fl_checksum sha f \<noteq> flSavedSum f else True)
              in (dirty, f\<lparr>flCleanVer := v, flCleanKnow := True, flCleanDirt := dirty\<rparr>))
      else if v = flSaved f \<and> flDecisionGen f = flSavedGen f then (False, f)
      else if flCleanKnow f \<and> flCleanVer f = v \<and> flCleanGen f = flDecisionGen f then (flCleanDirt f, f)
      else let dirty = acceptedDirty sha f
           in (dirty, f\<lparr>flCleanVer := v, flCleanGen := flDecisionGen f, flCleanKnow := True, flCleanDirt := dirty\<rparr>))"

definition fl_ViewDirty :: "(byte list \<Rightarrow> digest) \<Rightarrow> File \<Rightarrow> bool" where
  "fl_ViewDirty sha f =
     (if Version (flSess f) = flSaved f \<and> flDecisionGen f = flSavedGen f \<and> \<not> HasDecisions (flSess f) then False
      else let n = fl_Len f in
        if n \<noteq> flSavedLen f \<or> MaxCleanCheck < n then True else fl_checksum sha f \<noteq> flSavedSum f)"

section \<open>Opening in memory\<close>

definition no_piece :: PieceRec where "no_piece = \<lparr>Buf = 0, Start = 0, Length = 0\<rparr>"

definition blank_file :: "string \<Rightarrow> Columns \<Rightarrow> int \<Rightarrow> session \<Rightarrow> byte list \<Rightarrow> File" where
  "blank_file path cols tab s content =
     (let style = IndentFor path content \<lparr>inTabs = False, inWidth = tab\<rparr> in
     \<lparr>flPath = path, flCols = cols, flHints = None, flLenses = None, flSess = s, flIdx = NewIndex content, flApplied = 0,
      flNewline = no_piece, flSaved = 0, flSavedLen = 0, flSavedSum = replicate 32 0, flSavedDisk = replicate 32 0, flSavedGen = 0,
      flDecisionGen = 0, flLayered = False, flCleanVer = 0, flCleanGen = 0, flCleanKnow = False, flCleanDirt = False,
      flSnapshot = False, flReadOnly = False, flEnc = text_encoding UTF8 False, flIndent = fst style, flIndentFrom = snd style,
      flExplicitWidth = 0\<rparr>)"

definition NewFile :: "(byte list \<Rightarrow> digest) \<Rightarrow> (nat \<Rightarrow> bool) \<Rightarrow> string \<Rightarrow> byte list \<Rightarrow> int \<Rightarrow> File" where
  "NewFile sha combining path content tab =
     markSaved sha content
       (blank_file path (NewColumns combining tab) tab (NewSession (DocBuf (NewDoc content 0))) content)"

record RestoredWrite =
  rwContent :: "byte list"
  rwVersion :: nat
  rwDisk :: digest
  rwOK :: bool

definition NewRestoredFile ::
  "(byte list \<Rightarrow> digest) \<Rightarrow> (nat \<Rightarrow> bool) \<Rightarrow> string \<Rightarrow> session \<Rightarrow> int \<Rightarrow> RestoredWrite \<Rightarrow> File" where
  "NewRestoredFile sha combining path s tab wrote =
     (let content = pe_Slice (sBuf s) 0 (pe_Len (sBuf s));
          f = (blank_file path (NewColumns combining tab) tab s content)\<lparr>flApplied := Version s\<rparr>;
          st = pe_Store (sBuf s); base = store_Slice st Original 0 (store_Len st Original);
          f = (if rwOK wrote
               then f\<lparr>flSaved := rwVersion wrote, flSavedLen := int (length (rwContent wrote)),
                      flSavedSum := sha (rwContent wrote), flSavedDisk := rwDisk wrote\<rparr>
               else f\<lparr>flSaved := 0, flSavedLen := int (length base), flSavedSum := sha base\<rparr>);
          f = noteDecisions f
      in if flLayered f then f\<lparr>flDecisionGen := 1\<rparr> else f)"

section \<open>The save\<close>

datatype save_error = ErrReadOnly | ErrSnapshotReadOnly | ErrDiskChanged | ErrInvalid | UnsavedProposedError "group_info list" |
  SaveCheckError | EncodeError text_error | WriteError

text \<open>The bytes handed to the disk come with the outcome. \<open>check path text\<close> is a refusal of the composition guard.\<close>

definition fl_SaveOver :: "(byte list \<Rightarrow> digest) \<Rightarrow> (string \<Rightarrow> byte list \<Rightarrow> bool) \<Rightarrow> (byte list \<Rightarrow> bool) \<Rightarrow> File \<Rightarrow>
    save_error option \<times> byte list option \<times> File" where
  "fl_SaveOver sha check writes f =
     (if flReadOnly f then (Some ErrReadOnly, None, f)
      else if flPath f = [] then (Some ErrInvalid, None, f)
      else let pending = Pending (flSess f);
               s1 = foldl (\<lambda>s g. AcceptGroup s (gID g)) (flSess f) pending;
               back = f\<lparr>flSess := foldl (\<lambda>s g. MarkGroup s (gID g) Proposed) s1 pending\<rparr>;
               dropped = UnsavedProposed s1
           in if dropped \<noteq> [] then (Some (UnsavedProposedError dropped), None, back)
              else let content = Text (Project s1 AcceptedOnly) in
                if check (flPath f) content then (Some SaveCheckError, None, back)
                else case encode content (flEnc f) of
                  Inl e \<Rightarrow> (Some (EncodeError e), None, back)
                | Inr data \<Rightarrow>
                    let f1 = f\<lparr>flSess := s1\<rparr>; f2 = (if pending \<noteq> [] then noteDecision f1 else f1)
                    in if \<not> writes data then (Some WriteError, Some data, f2)
                       else let retired = InvalidWithoutMembers s1;
                                f3 = f2\<lparr>flSess := foldl (\<lambda>s g. MarkGroup s (gID g) Rejected) s1 retired\<rparr>;
                                f4 = (if retired \<noteq> [] then noteDecision f3 else f3)
                            in (None, Some data, markSavedBytes sha content data f4))"

definition fl_Save :: "(byte list \<Rightarrow> digest) \<Rightarrow> (string \<Rightarrow> byte list \<Rightarrow> bool) \<Rightarrow> (byte list \<Rightarrow> bool) \<Rightarrow> bool \<Rightarrow> File \<Rightarrow>
    save_error option \<times> byte list option \<times> File" where
  "fl_Save sha check writes changed f =
     (if flReadOnly f then (Some ErrReadOnly, None, f)
      else if flSnapshot f then (Some ErrSnapshotReadOnly, None, f)
      else if changed then (Some ErrDiskChanged, None, f)
      else fl_SaveOver sha check writes f)"

text \<open>
  The line index of an open document: each op carries it to the index of the next text, so a read, which catches it up
  first, describes the text the session holds, whatever happened to the session since and by whichever way.
\<close>

section \<open>One op\<close>

lemma piece_newlines_text:
  "\<forall>r \<in> set rs. rec_in_store st r \<Longrightarrow> piece_newlines st at rs = newline_starts at (recs_text st rs)"
proof (induction rs arbitrary: at)
  case (Cons r rs)
  have "int (length (rec_text st r)) = Length r"
    using rec_text_bytes[of st r] Cons.prems by (simp add: rec_in_store_def)
  then show ?case using Cons by (simp add: newline_starts_append flip: rec_text_def)
qed simp

lemma applyToIndex_step:
  assumes "op_recs_ok b q" "step_in (int (length tx)) q"
  shows "applyToIndex (pe_Store b) q (NewIndex tx) = NewIndex (text_step (pe_Store b) q tx)"
proof -
  let ?st = "pe_Store b" and ?t = "recs_text (pe_Store b) (opIns q)" and ?cut = "cut_range (opPos q) (DelLen q) tx"
  note L = op_lens[OF assms(1)]
  have p: "0 \<le> opPos q" "opPos q + DelLen q \<le> int (length tx)" using assms(2) by (auto simp: step_in_def)
  have d: "ix_Delete (NewIndex tx) (opPos q) (DelLen q) = NewIndex ?cut" using delete_spec[OF p(1) L(1) p(2)] by simp
  have "opPos q \<le> int (length ?cut)" using length_cut_range[OF p(1) L(1) p(2)] p L(1) by linarith
  note I = insert_spec[OF p(1) this, of ?t]
  have "piece_newlines ?st (opPos q) (opIns q) = newline_starts (opPos q) ?t"
    using assms(1) by (intro piece_newlines_text) (simp add: op_recs_ok_def pe_splice_ok_def)
  moreover have "InsLen q = 0 \<Longrightarrow> ?t = []" using L(3) by simp
  ultimately show ?thesis using d I L(2,3) by (auto simp: applyToIndex_def Let_def text_step_def)
qed

section \<open>Catching up\<close>

definition index_at :: "session \<Rightarrow> nat \<Rightarrow> int list" where
  "index_at s v = NewIndex (text_at s v)"

lemma fold_index:
  assumes "flow_inv s"
  shows "v \<le> length (sJournal s) \<Longrightarrow>
    fold (applyToIndex (pe_Store (sBuf s))) (drop v (sJournal s)) (index_at s v) = index_at s (length (sJournal s))"
proof (induction "length (sJournal s) - v" arbitrary: v)
  case (Suc n)
  then have v: "v < length (sJournal s)" by simp
  let ?q = "sJournal s ! v"
  have "op_recs_ok (sBuf s) ?q" using assms v by (simp add: flow_inv_def)
  moreover have "step_in (int (length (text_at s v))) ?q" using step_in_at[OF assms v] length_text_at[OF assms] by simp
  ultimately have "applyToIndex (pe_Store (sBuf s)) ?q (index_at s v) = index_at s (Suc v)"
    using applyToIndex_step text_at_Suc[of v s] v by (simp add: index_at_def Version_def)
  then show ?case using Suc v by (simp flip: Cons_nth_drop_Suc)
qed simp

text \<open>The document is as its index has it at the version it was caught up to.\<close>

definition file_inv :: "File \<Rightarrow> bool" where
  "file_inv f \<longleftrightarrow> tl_inv (flSess f) \<and> flApplied f \<le> Version (flSess f) \<and> Version (flSess f) < 2 ^ 63 \<and>
     flIdx f = index_at (flSess f) (flApplied f)"

lemma text_now: "tl_inv s \<Longrightarrow> text_at s (length (sJournal s)) = pe_text (sBuf s)"
  using tl_invD(7)[of s] by (simp add: text_at_def)

lemma ops_from_drop: "v \<le> Version s \<Longrightarrow> Version s < 2 ^ 63 \<Longrightarrow> ops_from s v = drop v (sJournal s)"
  using int_of_version_small[of v] by (auto simp: ops_from_def OpsSince_def Version_def)

lemma sync_index: "file_inv f \<Longrightarrow> flIdx (fl_sync f) = NewIndex (pe_text (sBuf (flSess f)))"
  using fold_index[OF tl_invD(1), of "flSess f" "flApplied f"] text_now[of "flSess f"] ops_from_drop[of "flApplied f" "flSess f"]
  by (simp add: file_inv_def fl_sync_def index_at_def Version_def)

lemma sync_inv: "file_inv f \<Longrightarrow> file_inv (fl_sync f)"
  using sync_index[of f] text_now[of "flSess f"] by (simp add: file_inv_def index_at_def fl_sync_def Version_def)

lemma sync_fields [simp]: "flSess (fl_sync f) = flSess f" "flSaved (fl_sync f) = flSaved f" "flLayered (fl_sync f) = flLayered f"
  by (simp_all add: fl_sync_def)

section \<open>Anything may happen to the session\<close>

lemma text_at_extends:
  assumes "tl_inv s" "extends s s'" "v \<le> length (sJournal s)"
  shows "text_at s' v = text_at s v"
proof -
  obtain qs where e: "sJournal s' = sJournal s @ qs" "store_le (pe_Store (sBuf s)) (pe_Store (sBuf s'))" "sOrigLen s' = sOrigLen s"
    using assms(2) by (auto simp: extends_def)
  have f: "texts (pe_Store (sBuf s)) \<noteq> []" "sOrigLen s \<le> int (length (texts (pe_Store (sBuf s)) ! 0))"
    using assms(1) by (auto simp: tl_inv_def flow_inv_def)
  from store_leD[OF e(2), of 0] f(1) obtain t where "texts (pe_Store (sBuf s')) ! 0 = texts (pe_Store (sBuf s)) ! 0 @ t" by auto
  then have b: "base_text s' = base_text s" using e(3) f(2) by (simp add: base_text_def)
  have "\<forall>q \<in> set (take v (sJournal s)). \<forall>r \<in> set (opDel q) \<union> set (opIns q). rec_in_store (pe_Store (sBuf s)) r"
    using tl_invD(6)[OF assms(1)] by (auto simp: op_recs_ok_def pe_splice_ok_def dest!: in_set_takeD)
  from replay_store_mono[OF e(2) this, of "base_text s"] show ?thesis using assms(3) by (simp add: text_at_def e(1) b)
qed

lemma session_moves:
  assumes "file_inv f" "extends (flSess f) s" "tl_inv s" "Version s < 2 ^ 63"
  shows "file_inv (f\<lparr>flSess := s\<rparr>)"
proof -
  have "Version (flSess f) \<le> Version s" using assms(2) by (auto simp: extends_def Version_def)
  then show ?thesis using assms text_at_extends[of "flSess f" s "flApplied f"]
    by (auto simp: file_inv_def index_at_def Version_def)
qed

lemma steps_extend: "session_step\<^sup>*\<^sup>* s s' \<Longrightarrow> tl_inv s \<Longrightarrow> tl_inv s' \<and> extends s s'"
  by (induction rule: rtranclp_induct) (auto intro: session_step_tl session_step_extends extends_trans)

lemma fl_slice_all: "pe_inv b \<Longrightarrow> pe_Slice b 0 (pe_Len b) = pe_text b"
  using pe_slice_law[of b 0 "pe_Len b" 0 "pe_Len b"] pe_length_content[of b] sub_range_all[of "pe_content b"]
  by (simp add: clampRange_def pe_text_def)

lemma fl_Text_text: "tl_inv (flSess f) \<Longrightarrow> fl_Text f = pe_text (sBuf (flSess f)) \<and> fl_Len f = int (length (fl_Text f))"
  using fl_slice_all tl_invD(5) pe_text_length by (simp add: fl_Text_def fl_Len_def)

end
