(* ===== verification/FileProps.thy ===== *)
theory FileProps
  imports FileSave Pendings
begin

text \<open>
  Properties of an open document: its line index, when it is dirty, and what a save does to the disk and to the decisions.
\<close>

section \<open>The line index\<close>

text \<open>C34: whatever steps the session of an open document went through since its line index was last in step, by the
  document's own operations or behind its back, the index a read sees is the one of the text as it stands, and the
  catch-up leaves it in step.\<close>

theorem index_in_step:
  assumes "file_inv f" "session_step\<^sup>*\<^sup>* (flSess f) s" "Version s < 2 ^ 63" "g = f\<lparr>flSess := s\<rparr>"
  shows "fl_index g = NewIndex (fl_Text g) \<and> file_inv (fl_sync g) \<and> fl_sync (fl_sync g) = fl_sync g"
proof -
  have t: "tl_inv (flSess f)" using assms(1) by (simp add: file_inv_def)
  have S: "tl_inv s" "extends (flSess f) s" using steps_extend[OF assms(2) t] by simp_all
  have g: "file_inv g" unfolding assms(4) by (rule session_moves[OF assms(1) S(2,1) assms(3)])
  have "ops_from s (Version s) = []" using ops_from_drop[of "Version s" s] assms(3) by (simp add: Version_def)
  then have "fl_sync (fl_sync g) = fl_sync g" by (simp add: fl_sync_def assms(4))
  then show ?thesis using sync_index[OF g] sync_inv[OF g] fl_Text_text[of g] S(1) by (simp add: fl_index_def assms(4))
qed

text \<open>A document opened in memory starts in step.\<close>

lemma NewFile_inv:
  assumes "int (length content) < 2 ^ 62"
  shows "file_inv (NewFile sha combining path content tab)" "fl_Text (NewFile sha combining path content tab) = content"
proof -
  let ?b = "DocBuf (NewDoc content 0)"
  have f: "fresh_buffer ?b" using fresh_NewDoc[of 0 content] assms by simp
  have t: "tl_inv (NewSession ?b)" by (rule NewSession_tl[OF f])
  have "pe_text ?b = content" using f by (simp add: fresh_buffer_def NewDoc_def NewStore_def Let_def)
  then show "fl_Text (NewFile sha combining path content tab) = content"
    using fl_Text_text[of "NewFile sha combining path content tab"] t
    by (simp add: NewFile_def markSaved_def markSavedBytes_def blank_file_def Let_def NewSession_def)
  have "text_at (NewSession ?b) 0 = content" using text_now[OF t] \<open>pe_text ?b = content\<close> by (simp add: NewSession_def)
  then show "file_inv (NewFile sha combining path content tab)"
    using t by (simp add: file_inv_def NewFile_def markSaved_def markSavedBytes_def blank_file_def Let_def index_at_def Version_def
        NewSession_def)
qed

definition two_lines :: File where "two_lines = NewFile (\<lambda>b. b) (\<lambda>_. False) ''a.txt'' [97, 10, 98] 4"

theorem index_in_step_witness:
  "fl_index (two_lines\<lparr>flSess := Delete (flSess two_lines) 1 1 1\<rparr>) = NewIndex (fl_Text (two_lines\<lparr>flSess := Delete (flSess two_lines) 1 1 1\<rparr>))"
proof -
  have "file_inv two_lines" unfolding two_lines_def by (rule NewFile_inv) simp
  moreover have "session_step\<^sup>*\<^sup>* (flSess two_lines) (Delete (flSess two_lines) 1 1 1)" using DeleteS by blast
  moreover have "Version (Delete (flSess two_lines) 1 1 1) < 2 ^ 63"
  proof -
    have "Version (Delete (flSess two_lines) 1 1 1) \<le> 1"
      by (auto simp: Version_def Delete_def commit_def commitInto_def Let_def two_lines_def NewFile_def markSaved_def
          markSavedBytes_def blank_file_def Let_def NewSession_def split: prod.splits)
    then show ?thesis by simp
  qed
  ultimately show ?thesis using index_in_step[OF _ _ _ refl] by blast
qed

section \<open>Dirty\<close>



section \<open>The save\<close>

lemma mark_all:
  "same_text s (foldl (\<lambda>s g. MarkGroup s (gID g) st) s gs) \<and>
   (\<forall>h. GroupState_of (foldl (\<lambda>s g. MarkGroup s (gID g) st) s gs) h = (if h \<in> gID ` set gs then st else GroupState_of s h))"
proof (induction gs arbitrary: s)
  case (Cons g gs)
  from same_text_trans[OF same_text_Mark conjunct1[OF Cons.IH]] conjunct2[OF Cons.IH, of "MarkGroup s (gID g) st"] show ?case
    by (simp add: GroupState_Mark)
qed simp

lemma Pending_proposed: "g \<in> set (Pending s) \<Longrightarrow> GroupState_of s (gID g) = Proposed"
  using Groups_state[of g s] by (auto simp: Pending_def DiffPending_def projectGroup_hunks undecided_def)

lemma same_text_same: "same_text s s' \<Longrightarrow> sBuf s' = sBuf s \<and> sJournal s' = sJournal s"
  by (auto simp: same_text_def)

text \<open>C36: a save that is refused, because the document may not be written, holds text the write would drop, fails the
  check, or has a character its encoding cannot hold, puts nothing on disk and leaves the text, the journal and every
  decision as they were.\<close>

theorem refused_save:
  assumes "fl_Save sha check writes changed f = (Some e, out, f1)" "e \<noteq> WriteError"
  shows "out = None \<and> sBuf (flSess f1) = sBuf (flSess f) \<and> sJournal (flSess f1) = sJournal (flSess f) \<and>
    (\<forall>h. GroupState_of (flSess f1) h = GroupState_of (flSess f) h) \<and> f1 = f\<lparr>flSess := flSess f1\<rparr>"
proof -
  let ?p = "Pending (flSess f)" and ?acc = "foldl (\<lambda>s g. AcceptGroup s (gID g)) (flSess f) (Pending (flSess f))"
  let ?undo = "foldl (\<lambda>s g. MarkGroup s (gID g) Proposed) ?acc ?p"
  note A = accept_all[of "flSess f" ?p] and B = mark_all[of ?acc Proposed ?p]
  have undone: "sBuf ?undo = sBuf (flSess f)" "sJournal ?undo = sJournal (flSess f)"
    "GroupState_of ?undo h = GroupState_of (flSess f) h" for h
    using same_text_same[OF conjunct1[OF A]] same_text_same[OF conjunct1[OF B]] A B Pending_proposed[of _ "flSess f"] by auto
  consider "out = None" "f1 = f" | "out = None" "f1 = f\<lparr>flSess := ?undo\<rparr>"
    using assms by (auto simp: fl_Save_def fl_SaveOver_def Let_def split: if_splits sum.splits)
  then show ?thesis using undone by cases simp_all
qed

lemma no_groups: "sJournal s = [] \<Longrightarrow> Groups s = []"
  by (simp add: Groups_def markInvalid_def Let_def)

lemma two_lines_fields: "flPath two_lines = ''a.txt''" "\<not> flReadOnly two_lines" "\<not> flSnapshot two_lines"
    "flEnc two_lines = text_encoding UTF8 False" "sJournal (flSess two_lines) = []" "sGroupState (flSess two_lines) = []"
  by (simp_all add: two_lines_def NewFile_def markSaved_def markSavedBytes_def blank_file_def Let_def NewSession_def)

lemma nothing_to_settle: "Pending (flSess two_lines) = []" "UnsavedProposed (flSess two_lines) = []" "InvalidWithoutMembers (flSess two_lines) = []"
  using no_groups[OF two_lines_fields(5)] by (simp_all add: Pending_def DiffPending_def UnsavedProposed_def InvalidWithoutMembers_def Let_def)

theorem refused_save_witness:
  "\<exists>f1. fl_Save (\<lambda>b. b) (\<lambda>_ _. True) (\<lambda>_. True) False two_lines = (Some SaveCheckError, None, f1) \<and>
     (\<forall>h. GroupState_of (flSess f1) h = GroupState_of (flSess two_lines) h)"
proof -
  obtain out f1 where s: "fl_Save (\<lambda>b. b) (\<lambda>_ _. True) (\<lambda>_. True) False two_lines = (Some SaveCheckError, out, f1)"
    by (simp add: fl_Save_def fl_SaveOver_def two_lines_fields nothing_to_settle Let_def)
  from refused_save[OF this] show ?thesis using s by simp
qed

text \<open>C37: a save that succeeds agreed to every pending set, leaving none pending and no text or op moved, put on disk
  exactly the agreed composition in the document's encoding, rejected only the superseded sets that hold and removed
  nothing, and leaves the document clean.\<close>

theorem save_writes:
  assumes "fl_Save sha check writes changed f = (None, out, f1)" "s1 = snd (AcceptPending (flSess f))"
  shows "\<exists>data. out = Some data \<and> writes data \<and> encode (Text (Project s1 AcceptedOnly)) (flEnc f) = Inr data \<and>
    Pending s1 = [] \<and> UnsavedProposed s1 = [] \<and> \<not> changed \<and>
    sBuf (flSess f1) = sBuf (flSess f) \<and> sJournal (flSess f1) = sJournal (flSess f) \<and>
    (\<forall>h. GroupState_of (flSess f1) h =
       (if h \<in> gID ` set (InvalidWithoutMembers s1) then Rejected
        else if h \<in> gID ` set (Pending (flSess f)) then Accepted else GroupState_of (flSess f) h)) \<and>
    flSavedSum f1 = sha (Text (Project s1 AcceptedOnly)) \<and> flSavedDisk f1 = sha data \<and> \<not> fst (fl_Dirty sha f1)"
proof -
  let ?p = "Pending (flSess f)" and ?iv = "InvalidWithoutMembers s1"
  have s1: "foldl (\<lambda>s g. AcceptGroup s (gID g)) (flSess f) ?p = s1" using assms(2) by (simp add: AcceptPending_def Let_def)
  note A = accept_all[of "flSess f" ?p, unfolded s1] and R = mark_all[of s1 Rejected ?iv]
  have settled: "Pending s1 = []" using nothing_pending[of "flSess f" s1] A by blast
  let ?f2 = "if ?p \<noteq> [] then noteDecision (f\<lparr>flSess := s1\<rparr>) else f\<lparr>flSess := s1\<rparr>"
  let ?s2 = "foldl (\<lambda>s g. MarkGroup s (gID g) Rejected) s1 ?iv"
  let ?f4 = "if ?iv \<noteq> [] then noteDecision (?f2\<lparr>flSess := ?s2\<rparr>) else ?f2\<lparr>flSess := ?s2\<rparr>"
  obtain data where d: "out = Some data" "writes data" "encode (Text (Project s1 AcceptedOnly)) (flEnc f) = Inr data"
    "UnsavedProposed s1 = []" "\<not> changed" "\<not> flSnapshot f" "f1 = markSavedBytes sha (Text (Project s1 AcceptedOnly)) data ?f4"
    using assms(1) by (auto simp: fl_Save_def fl_SaveOver_def s1 Let_def split: if_splits sum.splits)
  have f1: "flSess f1 = ?s2" "flSaved f1 = Version ?s2" "flSavedGen f1 = flDecisionGen f1" "flSnapshot f1 = flSnapshot f"
    "flSavedSum f1 = sha (Text (Project s1 AcceptedOnly))" "flSavedDisk f1 = sha data"
    by (simp_all add: d(7) markSavedBytes_def noteDecision_def)
  have "\<not> fst (fl_Dirty sha f1)" using f1(1-3) by (simp add: fl_Dirty_def Let_def)
  then show ?thesis using d f1 settled A R same_text_same[of "flSess f" s1] same_text_same[of s1 ?s2] by auto
qed

theorem save_writes_witness:
  "\<exists>f1. fl_Save (\<lambda>b. b) (\<lambda>_ _. False) (\<lambda>_. True) False two_lines = (None, Some (Text (Project (flSess two_lines) AcceptedOnly)), f1) \<and>
     \<not> fst (fl_Dirty (\<lambda>b. b) f1)"
proof -
  have p: "snd (AcceptPending (flSess two_lines)) = flSess two_lines" by (simp add: AcceptPending_def nothing_to_settle)
  have e: "encode t (text_encoding UTF8 False) = Inr t" for t by (simp add: encode_def text_encoding_def)
  obtain out f1 where s: "fl_Save (\<lambda>b. b) (\<lambda>_ _. False) (\<lambda>_. True) False two_lines = (None, out, f1)"
    by (simp add: fl_Save_def fl_SaveOver_def two_lines_fields nothing_to_settle Let_def e)
  from save_writes[OF this refl] obtain data where "out = Some data"
    "encode (Text (Project (flSess two_lines) AcceptedOnly)) (flEnc two_lines) = Inr data" "\<not> fst (fl_Dirty (\<lambda>b. b) f1)"
    unfolding p by blast
  then show ?thesis using s e two_lines_fields(4) by auto
qed

text \<open>The comment of \<open>Save\<close> says that a write that never happens approves nothing, but only a refused encoding or check
  is rolled back: when the disk write itself fails, the sets stay accepted.\<close>

lemma failed_write_approves:
  assumes "fl_SaveOver sha check writes f = (Some WriteError, out, f1)" "g \<in> set (Pending (flSess f))"
  shows "GroupState_of (flSess f) (gID g) = Proposed" "GroupState_of (flSess f1) (gID g) = Accepted"
proof -
  show "GroupState_of (flSess f) (gID g) = Proposed" by (rule Pending_proposed[OF assms(2)])
  have "flSess f1 = foldl (\<lambda>s g. AcceptGroup s (gID g)) (flSess f) (Pending (flSess f))"
    using assms(1) by (auto simp: fl_SaveOver_def noteDecision_def Let_def split: if_splits sum.splits)
  then show "GroupState_of (flSess f1) (gID g) = Accepted" using accept_all[of "flSess f" "Pending (flSess f)"] assms(2) by simp
qed

end
