(* ===== verification/PaneProps.thy ===== *)
theory PaneProps
  imports PaneView DisplayProps ProjectLaw FileProps
begin

text \<open>
  What a pane shows of its document: the rows of a display are the composition the session projects to under the pane's
  policy, whether the display comes of the projection or, without decisions, of the line index of the document itself.
\<close>

section \<open>The lines of a text\<close>

definition line_text :: "byte list \<Rightarrow> int \<Rightarrow> byte list" where
  "line_text doc i = (let ix = NewIndex doc; start = ix_LineStart ix i
     in sub_range start (ix_LineEnd ix i (int (length doc)) - start) doc)"

lemma sub_range_snoc:
  "0 \<le> p \<Longrightarrow> p + n \<le> int (length xs) \<Longrightarrow> sub_range p n (xs @ [b]) = sub_range p n xs"
  by (cases "0 \<le> n") (simp_all add: sub_range_def nat_le_iff, linarith?)

lemma index_gap:
  assumes "0 \<le> i" "i + 1 < int (length (NewIndex xs))"
  shows "ix_LineEnd (NewIndex xs) i m = NewIndex xs ! nat (i + 1) - 1" "0 \<le> ix_LineStart (NewIndex xs) i"
    "ix_LineEnd (NewIndex xs) i m \<le> int (length xs)"
  using assms NewIndex_bounds[of "NewIndex xs ! nat i" xs] NewIndex_bounds[of "NewIndex xs ! nat (i + 1)" xs]
  by (force simp: ix_LineEnd_def ix_LineStart_def)+

lemma line_text_concat: "concat (map (line_text doc) [0..ix_Lines (NewIndex doc) - 1]) = filter (\<lambda>b. b \<noteq> 10) doc"
proof (induction doc rule: rev_induct)
  case Nil
  show ?case by (simp add: NewIndex_def ix_Lines_def line_text_def ix_LineStart_def ix_LineEnd_def)
next
  case (snoc b xs)
  let ?n = "int (length (NewIndex xs))" and ?s = "ix_LineStart (NewIndex xs) (int (length (NewIndex xs)) - 1)"
  have n: "0 < ?n" by (simp add: NewIndex_def)
  have i: "nat (?n - 1) < length (NewIndex xs)" using n by linarith
  have s: "0 \<le> ?s" "?s \<le> int (length xs)"
    using n NewIndex_bounds[OF nth_mem[OF i]] by (simp_all add: ix_LineStart_def)
  have up: "[0..?n - 1] = [0..?n - 2] @ [?n - 1]" using n upto_rec2[of 0 "?n - 1"] by simp
  have x: "NewIndex (xs @ [b]) = NewIndex xs @ (if b = 10 then [int (length xs) + 1] else [])" by (simp add: NewIndex_parts)
  have same: "line_text (xs @ [b]) i = line_text xs i" if "0 \<le> i" "i + 1 < ?n" for i
  proof -
    have "ix_LineStart (NewIndex (xs @ [b])) i = ix_LineStart (NewIndex xs) i" "ix_LineEnd (NewIndex (xs @ [b])) i m = ix_LineEnd (NewIndex xs) i m'" for m m'
      using that by (auto simp: x ix_LineStart_def ix_LineEnd_def nth_append nat_less_iff)
    then show ?thesis using index_gap[OF that] by (simp add: line_text_def Let_def sub_range_snoc)
  qed
  have front: "concat (map (line_text (xs @ [b])) [0..?n - 2]) = concat (map (line_text xs) [0..?n - 2])"
    by (rule arg_cong[where f = concat], rule map_cong[OF refl], rule same) auto
  have old: "line_text xs (?n - 1) = drop (nat ?s) xs" using s n by (simp add: line_text_def Let_def ix_LineEnd_def sub_range_def)
  have IH: "concat (map (line_text xs) [0..?n - 2]) @ drop (nat ?s) xs = filter (\<lambda>b. b \<noteq> 10) xs" using snoc.IH old by (simp add: up ix_Lines_def)
  have last: "line_text (xs @ [b]) (?n - 1) = drop (nat ?s) xs @ (if b = 10 then [] else [b])"
    using s n by (auto simp: line_text_def Let_def x ix_LineEnd_def ix_LineStart_def sub_range_def nth_append nat_less_iff)
  show ?case
  proof (cases "b = 10")
    case True
    have "NewIndex (xs @ [10]) = NewIndex xs @ [int (length xs) + 1]" using x True by simp
    then have "line_text (xs @ [b]) ?n = []" using True by (simp add: line_text_def Let_def ix_LineEnd_def ix_LineStart_def)
    moreover have "[0..?n] = [0..?n - 2] @ [?n - 1, ?n]" using n up upto_rec2[of 0 ?n] by simp
    moreover have "ix_Lines (NewIndex (xs @ [b])) - 1 = ?n" using x True by (simp add: ix_Lines_def)
    ultimately show ?thesis using True front last IH by (simp del: upto.simps)
  next
    case False
    then have "ix_Lines (NewIndex (xs @ [b])) - 1 = ?n - 1" using x by (simp add: ix_Lines_def)
    then show ?thesis using False front last IH up by (simp del: upto.simps flip: append_assoc)
  qed
qed

section \<open>What a pane draws\<close>

lemma segs_disp_run:
  "segs_tile segs \<Longrightarrow> dlens_ok segs \<Longrightarrow> disp_run 0 (map view_seg segs) (segs_len segs)"
proof -
  have snoc: "disp_run x (ss @ [s]) m \<longleftrightarrow> (\<exists>k. disp_run x ss k \<and> sgDisp s = k \<and> 0 \<le> sgDLen s \<and> (sgFold s \<longrightarrow> sgDLen s = 0) \<and> k + sgDLen s = m)" for x ss s m
    by (induction ss arbitrary: x) auto
  show "segs_tile segs \<Longrightarrow> dlens_ok segs \<Longrightarrow> disp_run 0 (map view_seg segs) (segs_len segs)"
    by (induction segs rule: rev_induct) (auto simp: snoc segs_tile_snoc view_seg_def seg_kind_ok_def)
qed

lemma project_disp_run:
  assumes "tl_inv s" "HasDecisions s"
  shows "disp_run 0 (map view_seg (dpSegments (Project s p))) (int (length (Text (Project s p))))"
proof -
  have ni: "naive_inv (dpComp (Project s p))" using project_law(1)[OF assms(1), of p None] by (simp add: Project_def)
  have "dlens_ok (dpSegments (Project s p))"
    using project_law(3)[OF assms, of p None] by (simp add: Project_def)
  then show ?thesis
    using project_segments[OF assms(2), of p None] segs_disp_run[of "dpSegments (Project s p)"] Text_length[OF ni]
    by (simp add: Project_def naive_Len_def naive_Len_loop_eq)
qed

lemma sub_range_map: "sub_range p n (map f xs) = map f (sub_range p n xs)"
  by (simp add: sub_range_def take_map drop_map)

lemma fl_Slice_text:
  assumes "tl_inv (flSess f)" "0 \<le> p" "0 \<le> n" "p + n \<le> int (length (fl_Text f))"
  shows "fl_Slice f p n = sub_range p n (fl_Text f)"
proof -
  note iv = tl_invD(5)[OF assms(1)] and T = fl_Text_text[OF assms(1)]
  have "clampRange p n (pe_Len (sBuf (flSess f))) = (p, n)" using T assms(2-4) by (intro clampRange_id) (simp_all add: fl_Len_def)
  then show ?thesis using pe_slice_law[OF iv] T by (simp add: fl_Slice_def pe_text_def sub_range_map)
qed

lemma NewIndex_strict: "sorted_wrt (<) (NewIndex doc)"
proof -
  have "sorted_wrt (<) (newline_starts i doc)" for i
    by (induction doc arbitrary: i) (auto dest: newline_starts_bounds)
  then show ?thesis using newline_starts_bounds[of _ 0 doc] by (simp add: NewIndex_def)
qed

lemma line_text_range:
  assumes "0 \<le> i" "i < ix_Lines (NewIndex doc)"
  shows "0 \<le> ix_LineStart (NewIndex doc) i" "ix_LineEnd (NewIndex doc) i (int (length doc)) \<le> int (length doc)"
    "ix_LineStart (NewIndex doc) i \<le> ix_LineEnd (NewIndex doc) i (int (length doc))"
proof -
  let ?ix = "NewIndex doc"
  have i: "nat i < length ?ix" using assms by (simp add: ix_Lines_def)
  note b = NewIndex_bounds[OF nth_mem[OF i]]
  show "0 \<le> ix_LineStart ?ix i" using b assms by (simp add: ix_LineStart_def ix_Lines_def)
  show "ix_LineEnd ?ix i (int (length doc)) \<le> int (length doc)"
    using index_gap(3)[of i doc] assms by (cases "i + 1 < int (length ?ix)") (auto simp: ix_LineEnd_def)
  have "nat i < nat (i + 1) \<and> nat (i + 1) < length ?ix \<Longrightarrow> ?ix ! nat i < ?ix ! nat (i + 1)"
    using NewIndex_strict[of doc] by (simp add: sorted_wrt_iff_nth_less)
  then show "ix_LineStart ?ix i \<le> ix_LineEnd ?ix i (int (length doc))"
    using b assms by (cases "i + 1 < int (length ?ix)") (auto simp: ix_LineStart_def ix_LineEnd_def ix_Lines_def)
qed

lemma fl_Line_text:
  assumes "file_inv f" "0 \<le> i" "i < fl_Lines f"
  shows "fl_Line f i = line_text (fl_Text f) i"
proof -
  have t: "tl_inv (flSess f)" using assms(1) by (simp add: file_inv_def)
  note T = fl_Text_text[OF t]
  have ix: "fl_index f = NewIndex (fl_Text f)" using sync_index[OF assms(1)] T by (simp add: fl_index_def)
  note R = line_text_range[of i "fl_Text f"]
  show ?thesis using assms(2,3) R fl_Slice_text[OF t, of "ix_LineStart (NewIndex (fl_Text f)) i"] T
    by (simp add: fl_Line_def line_text_def Let_def fl_LineStart_def fl_LineEnd_def fl_Lines_def ix)
qed

lemma Build_None: "BuildFolds t segs [] = None \<longleftrightarrow> segs = []" "None = BuildFolds t segs [] \<longleftrightarrow> segs = []"
  by (auto simp: BuildFolds_def buildProjection_def split_beta Let_def)


text \<open>The deletion of the first byte, undecided: the view of accepted text still draws it.\<close>

definition cut_proposed :: session where
  "cut_proposed = MarkGroup (Delete (flSess two_lines) 1 0 1) 1 Proposed"

lemma cut_proposed_inv: "file_inv (two_lines\<lparr>flSess := cut_proposed\<rparr>)"
proof -
  have "session_step\<^sup>*\<^sup>* (flSess two_lines) cut_proposed" unfolding cut_proposed_def
    using DeleteS MarkS by (meson converse_rtranclp_into_rtranclp rtranclp.rtrancl_refl)
  moreover have f: "file_inv two_lines" unfolding two_lines_def by (rule NewFile_inv) simp
  ultimately have s: "tl_inv cut_proposed" "extends (flSess two_lines) cut_proposed" using steps_extend by (auto simp: file_inv_def)
  have "Version cut_proposed \<le> 1"
    by (auto simp: cut_proposed_def MarkGroup_def Version_def Delete_def commit_def commitInto_def Let_def two_lines_def NewFile_def
        markSaved_def markSavedBytes_def blank_file_def NewSession_def split: prod.splits)
  then show ?thesis by (intro session_moves[OF f s(2,1)]) simp
qed


end
