(* ===== verification/InputField.thy ===== *)
theory InputField
  imports Keymap Columns
begin

text \<open>
  A one-line text field (\<open>internal/widget/input.go\<close>), which the find bar and every prompt type into: its text, the caret
  and the other end of the selection as byte offsets, and the offset it is scrolled to. Drawing is left out. Go's classes of
  characters without a width are the argument \<open>combining\<close>.
\<close>

section \<open>The code\<close>

record Input =
  inpText :: "byte list"
  inpCursor :: nat
  inpAnchor :: nat
  inpScroll :: nat

definition Selection :: "Input \<Rightarrow> nat \<times> nat" where
  "Selection i = (if inpAnchor i < inpCursor i then (inpAnchor i, inpCursor i) else (inpCursor i, inpAnchor i))"

definition inp_HasSelection :: "Input \<Rightarrow> bool" where "inp_HasSelection i \<longleftrightarrow> inpAnchor i \<noteq> inpCursor i"

definition SetText :: "byte list \<Rightarrow> Input \<Rightarrow> Input" where
  "SetText t i = i\<lparr>inpText := t, inpCursor := length t, inpAnchor := length t\<rparr>"

definition inp_SelectAll :: "Input \<Rightarrow> Input" where
  "inp_SelectAll i = i\<lparr>inpAnchor := 0, inpCursor := length (inpText i)\<rparr>"

definition moveTo :: "nat \<Rightarrow> bool \<Rightarrow> Input \<Rightarrow> Input" where
  "moveTo pos ext i = (let i = i\<lparr>inpCursor := pos\<rparr> in if ext then i else i\<lparr>inpAnchor := pos\<rparr>)"

definition deleteSelection :: "Input \<Rightarrow> bool \<times> Input" where
  "deleteSelection i =
     (if \<not> inp_HasSelection i then (False, i)
      else let (lo, hi) = Selection i
           in (True, i\<lparr>inpText := take lo (inpText i) @ drop hi (inpText i), inpCursor := lo, inpAnchor := lo\<rparr>))"

definition inp_Copy :: "Input \<Rightarrow> byte list" where
  "inp_Copy i = (let (lo, hi) = Selection i in drop lo (take hi (inpText i)))"

definition inp_Cut :: "Input \<Rightarrow> byte list \<times> Input" where
  "inp_Cut i = (inp_Copy i, snd (deleteSelection i))"

definition inp_wordByte :: "byte \<Rightarrow> bool" where
  "inp_wordByte b \<longleftrightarrow> b = 95 \<or> (48 \<le> b \<and> b \<le> 57) \<or> (97 \<le> b \<and> b \<le> 122) \<or> (65 \<le> b \<and> b \<le> 90) \<or> 0x80 \<le> b"

definition prevWord :: "byte list \<Rightarrow> nat \<Rightarrow> nat" where
  "prevWord s i =
     (let back = dropWhile (\<lambda>b. \<not> inp_wordByte b) (rev (take i s)) in length (dropWhile inp_wordByte back))"

definition nextWord :: "byte list \<Rightarrow> nat \<Rightarrow> nat" where
  "nextWord s i =
     (let on = dropWhile (\<lambda>b. \<not> inp_wordByte b) (drop i s) in max i (length s - length (dropWhile inp_wordByte on)))"

definition lead :: "byte \<Rightarrow> bool" where "lead b \<longleftrightarrow> and b 0xC0 \<noteq> 0x80"

fun inp_prev :: "byte list \<Rightarrow> nat \<Rightarrow> nat" where
  "inp_prev s 0 = 0"
| "inp_prev s (Suc i) = (if lead (s ! i) then i else inp_prev s i)"

function inp_next :: "byte list \<Rightarrow> nat \<Rightarrow> nat" where
  "inp_next s i =
     (if i < length s then (if length s \<le> Suc i \<or> lead (s ! Suc i) then Suc i else inp_next s (Suc i)) else length s)"
  by pat_completeness auto
termination by (relation "measure (\<lambda>(s, i). length s - i)") auto

declare inp_next.simps [simp del]

definition collapseOr :: "(byte list \<Rightarrow> nat \<Rightarrow> nat) \<Rightarrow> bool \<Rightarrow> Input \<Rightarrow> nat" where
  "collapseOr step left i =
     (if inp_HasSelection i then (if left then fst (Selection i) else snd (Selection i)) else step (inpText i) (inpCursor i))"

text \<open>Literal text comes with no action.\<close>

definition inp_type :: "byte list \<Rightarrow> Input \<Rightarrow> Input" where
  "inp_type t i =
     (let i = snd (deleteSelection i); c = inpCursor i
      in i\<lparr>inpText := take c (inpText i) @ t @ drop c (inpText i), inpCursor := c + length t, inpAnchor := c + length t\<rparr>)"

definition inp_backspace :: "Input \<Rightarrow> Input" where
  "inp_backspace i =
     (if inp_HasSelection i then snd (deleteSelection i)
      else if 0 < inpCursor i
      then let p = inp_prev (inpText i) (inpCursor i)
           in i\<lparr>inpText := take p (inpText i) @ drop (inpCursor i) (inpText i), inpCursor := p, inpAnchor := p\<rparr>
      else i)"

definition inp_delete :: "Input \<Rightarrow> Input" where
  "inp_delete i =
     (if inp_HasSelection i then snd (deleteSelection i)
      else if inpCursor i < length (inpText i)
      then i\<lparr>inpText := take (inpCursor i) (inpText i) @ drop (inp_next (inpText i) (inpCursor i)) (inpText i)\<rparr>
      else i)"

definition inp_Handle :: "Action \<Rightarrow> byte list \<Rightarrow> Input \<Rightarrow> bool \<times> Input" where
  "inp_Handle a t i =
     (let s = inpText i; c = inpCursor i in
      if a = ''char_left'' then (True, moveTo (collapseOr inp_prev True i) False i)
      else if a = ''char_right'' then (True, moveTo (collapseOr inp_next False i) False i)
      else if a = ''sel_char_left'' then (True, moveTo (inp_prev s c) True i)
      else if a = ''sel_char_right'' then (True, moveTo (inp_next s c) True i)
      else if a = ''word_left'' then (True, moveTo (prevWord s c) False i)
      else if a = ''word_right'' then (True, moveTo (nextWord s c) False i)
      else if a = ''sel_word_left'' then (True, moveTo (prevWord s c) True i)
      else if a = ''sel_word_right'' then (True, moveTo (nextWord s c) True i)
      else if a \<in> {''line_start'', ''doc_start''} then (True, moveTo 0 False i)
      else if a \<in> {''line_end'', ''doc_end''} then (True, moveTo (length s) False i)
      else if a \<in> {''sel_line_start'', ''sel_doc_start''} then (True, moveTo 0 True i)
      else if a \<in> {''sel_line_end'', ''sel_doc_end''} then (True, moveTo (length s) True i)
      else if a = ''backspace'' then (True, inp_backspace i)
      else if a = ''delete'' then (True, inp_delete i)
      else if a = ''select_all'' then (True, inp_SelectAll i)
      else if a = no_action then (if t = [] \<or> t = [10] then (False, i) else (True, inp_type t i))
      else (False, i))"

definition inp_runeCols :: "(nat \<Rightarrow> bool) \<Rightarrow> byte list \<Rightarrow> int" where
  "inp_runeCols combining s = (\<Sum>r \<leftarrow> runes s. RuneWidth combining r)"

lemma inp_next_grows: "i < length s \<Longrightarrow> i < inp_next s i \<and> inp_next s i \<le> length s"
proof (induction s i rule: inp_next.induct)
  case (1 s i)
  then show ?case by (subst (1 2) inp_next.simps) force
qed

function offset_from :: "(nat \<Rightarrow> bool) \<Rightarrow> byte list \<Rightarrow> int \<Rightarrow> nat \<Rightarrow> int \<Rightarrow> nat" where
  "offset_from combining s col i at =
     (if i < length s
      then let n = inp_next s i; at = at + inp_runeCols combining (drop i (take n s))
           in if col < at then i else offset_from combining s col n at
      else length s)"
  by pat_completeness auto
termination
  using inp_next_grows by (relation "measure (\<lambda>(combining, s, col, i, at). length s - i)") (auto simp: diff_less_mono2)

declare offset_from.simps [simp del]

definition inp_offsetAt :: "(nat \<Rightarrow> bool) \<Rightarrow> Input \<Rightarrow> int \<Rightarrow> nat" where
  "inp_offsetAt combining i col = (if col < 0 then inpScroll i else offset_from combining (inpText i) col (inpScroll i) 0)"

definition PlaceCaret :: "(nat \<Rightarrow> bool) \<Rightarrow> int \<Rightarrow> Input \<Rightarrow> Input" where
  "PlaceCaret combining col i = moveTo (inp_offsetAt combining i col) False i"

definition inp_ClickAt :: "(nat \<Rightarrow> bool) \<Rightarrow> int \<Rightarrow> int \<Rightarrow> int \<Rightarrow> Input \<Rightarrow> bool \<times> Input" where
  "inp_ClickAt combining dx dy w i =
     (if w < 3 \<or> dx < 0 \<or> w \<le> dx \<or> dy < 0 \<or> 3 \<le> dy then (False, i) else (True, PlaceCaret combining (dx - 1) i))"

text \<open>A caret behind the end of its text would panic here; it is kept within it.\<close>

function clip_loop :: "(nat \<Rightarrow> bool) \<Rightarrow> byte list \<Rightarrow> nat \<Rightarrow> int \<Rightarrow> nat \<Rightarrow> nat" where
  "clip_loop combining s cursor width scroll =
     (if width \<le> inp_runeCols combining (drop scroll (take cursor s)) \<and> scroll < min cursor (length s)
      then clip_loop combining s cursor width (inp_next s scroll)
      else scroll)"
  by pat_completeness auto
termination
  using inp_next_grows by (relation "measure (\<lambda>(combining, s, cursor, width, scroll). length s - scroll)") (auto simp: diff_less_mono2)

declare clip_loop.simps [simp del]

definition clip :: "(nat \<Rightarrow> bool) \<Rightarrow> int \<Rightarrow> Input \<Rightarrow> Input" where
  "clip combining width i =
     (let scroll = (if inpCursor i < inpScroll i then inpCursor i else inpScroll i);
          scroll = clip_loop combining (inpText i) (inpCursor i) width scroll
      in i\<lparr>inpScroll := (if length (inpText i) < scroll then length (inpText i) else scroll)\<rparr>)"

end
