(* ===== verification/InputProps.thy ===== *)
theory InputProps
  imports InputField
begin

text \<open>
  Where the characters of a well-formed text begin, by its lead bytes, and that a text field only ever stands between
  characters: its text stays well-formed and its caret and selection on boundaries, whatever is typed and pressed.
\<close>

section \<open>Lead bytes\<close>

lemma lead_byte: "lead b \<longleftrightarrow> \<not> (128 \<le> unat b \<and> unat b < 192)"
proof -
  have all: "\<forall>n \<in> set [0..<256]. lead (word_of_nat n) = (\<not> (128 \<le> n \<and> n < 192))" by code_simp
  have "unat b \<in> set [0..<256]" using unat_lt_256[of b] by simp
  from all[rule_format, OF this] show ?thesis by simp
qed

lemma lead_byte_of: "n < 256 \<Longrightarrow> lead (byte_of n) \<longleftrightarrow> \<not> (128 \<le> n \<and> n < 192)"
  by (simp add: lead_byte)

lemma EncodeRune_lead:
  assumes "scalar r"
  shows "\<exists>b bs. EncodeRune r = b # bs \<and> lead b \<and> (\<forall>x \<in> set bs. \<not> lead x)"
proof -
  have c: "\<not> lead (byte_of (128 + k mod 64))" for k by (subst lead_byte_of) (simp_all add: less_trans[of _ 64])
  have "192 + r div 64 < 256 \<or> \<not> r < 2048" "224 + r div 4096 < 256 \<or> \<not> r < 65536" "240 + r div 262144 < 256"
    using assms by (auto simp: scalar_def less_mult_imp_div_less)
  then show ?thesis using assms c by (auto simp: EncodeRune_def Let_def lead_byte_of)
qed

section \<open>Boundaries\<close>

definition bound :: "byte list \<Rightarrow> nat \<Rightarrow> bool" where
  "bound s k \<longleftrightarrow> k \<le> length s \<and> (k < length s \<longrightarrow> lead (s ! k))"

lemma Valid_append: "Valid a \<Longrightarrow> Valid (a @ b) = Valid b"
proof -
  assume "Valid a"
  then obtain rs where rs: "a = utf8_string rs" "\<forall>r \<in> set rs. scalar r" using utf8_runes[of a] by metis
  show ?thesis unfolding rs(1) using rs(2) by (induction rs) (simp_all add: utf8_string_def Valid_encode)
qed

text \<open>In a well-formed text the boundaries are where it can be cut into two well-formed texts.\<close>

lemma bound_cut:
  assumes "Valid s"
  shows "bound s k \<Longrightarrow> Valid (take k s) \<and> Valid (drop k s)" "k \<le> length s \<Longrightarrow> Valid (take k s) \<Longrightarrow> bound s k"
proof -
  obtain rs where rs: "s = utf8_string rs" "\<forall>r \<in> set rs. scalar r" using utf8_runes[OF assms] by metis
  have "bound (utf8_string rs) k \<Longrightarrow> Valid (take k (utf8_string rs))" using rs(2)
  proof (induction rs arbitrary: k)
    case (Cons r rs)
    let ?e = "EncodeRune r"
    obtain b bs where e: "?e = b # bs" "lead b" "\<forall>x \<in> set bs. \<not> lead x" using EncodeRune_lead[of r] Cons.prems(2) by auto
    have u: "utf8_string (r # rs) = ?e @ utf8_string rs" by (simp add: utf8_string_def)
    show ?case
    proof (cases "k < length ?e")
      case True
      then have "?e ! k = (?e @ utf8_string rs) ! k" by (simp add: nth_append)
      then have "lead (?e ! k)" using Cons.prems(1) True by (simp add: u bound_def)
      then have "k = 0" using e True by (cases k) auto
      then show ?thesis by simp
    next
      case False
      then have "bound (utf8_string rs) (k - length ?e)" using Cons.prems(1) by (auto simp: u bound_def nth_append)
      then show ?thesis using Cons False by (simp add: u Valid_encode)
    qed
  qed (simp add: utf8_string_def)
  then show v: "bound s k \<Longrightarrow> Valid (take k s) \<and> Valid (drop k s)"
    using Valid_append[of "take k s" "drop k s"] assms rs(1) by auto
  assume k: "k \<le> length s" "Valid (take k s)"
  then have "Valid (drop k s)" using Valid_append[of "take k s" "drop k s"] assms by simp
  then obtain qs where q: "drop k s = utf8_string qs" "\<forall>r \<in> set qs. scalar r" using utf8_runes[of "drop k s"] by metis
  have "lead (s ! k)" if l: "k < length s"
  proof -
    obtain r ps where "qs = r # ps" using q(1) l by (cases qs) (auto simp: utf8_string_def)
    moreover have "s ! k = hd (drop k s)" using l by (simp add: hd_drop_conv_nth)
    ultimately show ?thesis using q EncodeRune_lead[of r] by (auto simp: utf8_string_def)
  qed
  then show "bound s k" using k(1) by (simp add: bound_def)
qed

lemma bound_0: "Valid s \<Longrightarrow> bound s 0"
  using bound_cut(2)[of s 0] by simp

lemma bound_end [simp]: "bound s (length s)"
  by (simp add: bound_def)

text \<open>Behind an ASCII byte, and in front of one, is a boundary.\<close>

lemma bound_before_ascii: "k < length s \<Longrightarrow> unat (s ! k) < 128 \<Longrightarrow> bound s k"
  by (simp add: bound_def lead_byte)

lemma bound_after_ascii:
  assumes "Valid s" "k < length s" "unat (s ! k) < 128"
  shows "bound s (Suc k)"
proof -
  have "Valid (take k s)" using bound_cut(1)[OF assms(1) bound_before_ascii[OF assms(2,3)]] by simp
  moreover have "Valid [s ! k]"
    using Valid_encode[of "unat (s ! k)" "[]"] EncodeRune_byte[of "unat (s ! k)"] assms(3) by (simp add: scalar_def)
  ultimately have "Valid (take (Suc k) s)" using Valid_append assms(2) by (simp add: take_Suc_conv_app_nth)
  then show ?thesis using bound_cut(2)[OF assms(1)] assms(2) by simp
qed

section \<open>Steps of the caret\<close>

lemma prev_bound: "Valid s \<Longrightarrow> i \<le> length s \<Longrightarrow> bound s (inp_prev s i) \<and> inp_prev s i \<le> i"
proof (induction s i rule: inp_prev.induct)
  case (2 s i)
  then show ?case by (auto simp: bound_def)
qed (simp add: bound_0)

lemma next_bound: "bound s (inp_next s i)"
proof (induction s i rule: inp_next.induct)
  case (1 s i)
  then show ?case by (subst inp_next.simps) (auto simp: bound_def)
qed

lemma wordByte_ascii: "\<not> inp_wordByte b \<Longrightarrow> unat b < 128"
  by (auto simp: inp_wordByte_def word_le_nat_alt)

lemma dropWhile_twice: "\<exists>zs. xs = zs @ dropWhile P (dropWhile Q xs)"
  by (rule exI[of _ "takeWhile Q xs @ takeWhile P (dropWhile Q xs)"]) simp

lemma prevWord_bound:
  assumes "Valid s" "i \<le> length s"
  shows "bound s (prevWord s i)"
proof -
  define w where "w = dropWhile inp_wordByte (dropWhile (\<lambda>b. \<not> inp_wordByte b) (rev (take i s)))"
  obtain zs where z: "rev (take i s) = zs @ w" unfolding w_def using dropWhile_twice by blast
  have p: "take i s = rev w @ rev zs" using arg_cong[OF z, of rev] by simp
  show ?thesis
  proof (cases w)
    case Nil
    then have "prevWord s i = 0" unfolding prevWord_def Let_def w_def[symmetric] by simp
    then show ?thesis using bound_0[OF assms(1)] by simp
  next
    case (Cons b bs)
    then have "\<not> inp_wordByte b" unfolding w_def by (metis hd_dropWhile list.distinct(1) list.sel(1))
    moreover have k: "length bs < length s" "s ! length bs = b"
    proof -
      have "length bs < length (take i s)" using p Cons by simp
      then show "length bs < length s" by simp
      have "s ! length bs = take i s ! length bs" using \<open>length bs < length (take i s)\<close> by simp
      then show "s ! length bs = b" using p Cons by (simp add: nth_append)
    qed
    ultimately have "bound s (Suc (length bs))" using bound_after_ascii[OF assms(1)] wordByte_ascii by metis
    then show ?thesis unfolding prevWord_def Let_def w_def[symmetric] Cons by simp
  qed
qed

lemma nextWord_bound:
  assumes "bound s i"
  shows "bound s (nextWord s i)"
proof -
  define w where "w = dropWhile inp_wordByte (dropWhile (\<lambda>b. \<not> inp_wordByte b) (drop i s))"
  obtain zs where z: "drop i s = zs @ w" unfolding w_def using dropWhile_twice by blast
  have p: "s = (take i s @ zs) @ w" unfolding append_assoc z[symmetric] by simp
  have l: "length s - length w = length (take i s @ zs)" using arg_cong[OF p, of length] by simp
  have "i \<le> length s" using assms by (simp add: bound_def)
  then have j: "max i (length s - length w) = length (take i s @ zs)" unfolding l by simp
  show ?thesis
  proof (cases w)
    case Nil
    then have "length (take i s @ zs) = length s" using p by (metis append_Nil2)
    then show ?thesis unfolding nextWord_def Let_def w_def[symmetric] j by simp
  next
    case (Cons b bs)
    then have "\<not> inp_wordByte b" unfolding w_def by (metis hd_dropWhile list.distinct(1) list.sel(1))
    moreover have "s ! length (take i s @ zs) = b" "length (take i s @ zs) < length s"
      using p Cons by (metis nth_append_length, metis length_append length_Cons less_add_Suc1 add_Suc_right)
    ultimately show ?thesis unfolding nextWord_def Let_def w_def[symmetric] j using bound_before_ascii wordByte_ascii by metis
  qed
qed

section \<open>The field\<close>

definition input_ok :: "Input \<Rightarrow> bool" where
  "input_ok i \<longleftrightarrow> Valid (inpText i) \<and> bound (inpText i) (inpCursor i) \<and> bound (inpText i) (inpAnchor i)"

text \<open>Replacing what lies between two boundaries by well-formed text.\<close>

lemma replace_between:
  assumes "Valid s" "bound s lo" "bound s hi" "Valid t"
  shows "Valid (take lo s @ t @ drop hi s)" "bound (take lo s @ t @ drop hi s) (lo + length t)"
proof -
  let ?s = "take lo s @ t @ drop hi s"
  have lo: "Valid (take lo s)" "lo \<le> length s" using bound_cut(1)[OF assms(1,2)] assms(2) by (simp_all add: bound_def)
  show v: "Valid ?s" using Valid_append lo(1) assms(4) bound_cut(1)[OF assms(1,3)] by simp
  have "take (lo + length t) ?s = take lo s @ t" using lo(2) by (simp add: min_absorb2)
  moreover have "Valid (take lo s @ t)" using Valid_append[OF lo(1)] assms(4) by simp
  ultimately have c: "Valid (take (lo + length t) ?s)" by (rule ssubst)
  show "bound ?s (lo + length t)" by (rule bound_cut(2)[OF v _ c]) (use lo(2) in simp)
qed

lemma move_ok: "input_ok i \<Longrightarrow> bound (inpText i) k \<Longrightarrow> input_ok (moveTo k ext i)"
  by (simp add: moveTo_def input_ok_def Let_def)

lemma Selection_bounds: "input_ok i \<Longrightarrow> bound (inpText i) (fst (Selection i)) \<and> bound (inpText i) (snd (Selection i))"
  by (simp add: Selection_def input_ok_def)

lemma deleteSelection_ok: "input_ok i \<Longrightarrow> input_ok (snd (deleteSelection i))"
proof -
  assume f: "input_ok i"
  obtain lo hi where s: "Selection i = (lo, hi)" by fastforce
  then have b: "bound (inpText i) lo" "bound (inpText i) hi" "Valid (inpText i)"
    using Selection_bounds[OF f] f by (simp_all add: input_ok_def)
  show ?thesis using f replace_between[OF b(3,1,2) Valid_Nil] by (auto simp: deleteSelection_def s input_ok_def)
qed

lemma deleteSelection_caret: "inpAnchor (snd (deleteSelection i)) = inpCursor (snd (deleteSelection i))"
  by (auto simp: deleteSelection_def inp_HasSelection_def split: prod.splits)

lemma type_ok:
  assumes "input_ok i" "Valid t"
  shows "input_ok (inp_type t i)"
proof -
  let ?i = "snd (deleteSelection i)"
  have "Valid (inpText ?i)" "bound (inpText ?i) (inpCursor ?i)" using deleteSelection_ok[OF assms(1)] by (simp_all add: input_ok_def)
  from replace_between[OF this(1,2,2) assms(2)] show ?thesis by (simp add: inp_type_def input_ok_def Let_def)
qed

lemma backspace_ok:
  assumes "input_ok i"
  shows "input_ok (inp_backspace i)"
proof -
  let ?p = "inp_prev (inpText i) (inpCursor i)"
  have i: "Valid (inpText i)" "bound (inpText i) (inpCursor i)" "inpCursor i \<le> length (inpText i)"
    using assms by (simp_all add: input_ok_def bound_def)
  have "bound (inpText i) ?p" using prev_bound[OF i(1,3)] by simp
  from replace_between[OF i(1) this i(2) Valid_Nil] show ?thesis
    using assms deleteSelection_ok[OF assms] by (auto simp: inp_backspace_def input_ok_def Let_def)
qed

lemma delete_ok:
  assumes "input_ok i"
  shows "input_ok (inp_delete i)"
proof -
  have i: "Valid (inpText i)" "bound (inpText i) (inpCursor i)" using assms by (simp_all add: input_ok_def)
  from replace_between[OF i next_bound Valid_Nil, of "inpCursor i"] show ?thesis
    using assms deleteSelection_ok[OF assms] by (auto simp: inp_delete_def input_ok_def inp_HasSelection_def)
qed

lemma copy_valid:
  assumes "input_ok i"
  shows "Valid (inp_Copy i)"
proof -
  obtain lo hi where s: "Selection i = (lo, hi)" by fastforce
  then have b: "bound (inpText i) lo" "bound (inpText i) hi" "Valid (inpText i)" "lo \<le> hi"
    using Selection_bounds[OF assms] assms by (auto simp: input_ok_def Selection_def split: if_splits)
  have "take hi (inpText i) = take lo (inpText i) @ drop lo (take hi (inpText i))"
    using b(4) append_take_drop_id[of lo "take hi (inpText i)"] by (simp add: min_absorb1)
  then have "Valid (take lo (inpText i) @ drop lo (take hi (inpText i)))" using bound_cut(1)[OF b(3,2)] by simp
  then have "Valid (drop lo (take hi (inpText i)))" using bound_cut(1)[OF b(3,1)] Valid_append by blast
  then show ?thesis by (simp add: inp_Copy_def s)
qed

lemma prev_over: "lead (s ! k) \<Longrightarrow> \<forall>j. k < j \<and> j \<le> k + n \<longrightarrow> \<not> lead (s ! j) \<Longrightarrow> inp_prev s (Suc (k + n)) = k"
  by (induction n) auto

lemma backspace_typed:
  assumes "input_ok i" "scalar r" "\<not> inp_HasSelection i"
  shows "inp_backspace (inp_type (EncodeRune r) i) = i"
proof -
  let ?c = "inpCursor i" and ?e = "EncodeRune r"
  let ?s = "take ?c (inpText i) @ ?e @ drop ?c (inpText i)"
  obtain b bs where e: "?e = b # bs" "lead b" "\<forall>x \<in> set bs. \<not> lead x" using EncodeRune_lead[OF assms(2)] by blast
  have c: "?c \<le> length (inpText i)" using assms(1) by (simp add: input_ok_def bound_def)
  have "?s ! ?c = b" using c e(1) by (simp add: nth_append)
  moreover have "?s ! j \<in> set bs" if b: "?c < j" "j \<le> ?c + length bs" for j
  proof -
    obtain d where j: "j = Suc (?c + d)" using less_imp_Suc_add[OF b(1)] by blast
    then have d: "j = ?c + Suc d" "d < length bs" using b(2) by simp_all
    then have "?s ! j = bs ! d" using c e(1) by (simp add: nth_append)
    then show ?thesis using d(2) by simp
  qed
  ultimately have "inp_prev ?s (Suc (?c + length bs)) = ?c" using prev_over e(2,3) by metis
  then have p: "inp_prev ?s (?c + length ?e) = ?c" using e(1) by simp
  have t: "inp_type ?e i = i\<lparr>inpText := ?s, inpCursor := ?c + length ?e, inpAnchor := ?c + length ?e\<rparr>"
    using assms(3) by (simp add: inp_type_def deleteSelection_def Let_def)
  have "take ?c ?s @ drop (?c + length ?e) ?s = inpText i" using c by (simp add: min_absorb2)
  moreover have "inpAnchor i = ?c" using assms(3) by (simp add: inp_HasSelection_def)
  ultimately show ?thesis unfolding t using p e(1) by (simp add: inp_backspace_def inp_HasSelection_def Let_def)
qed

text \<open>C30: whatever is pressed or typed, a field that holds well-formed text with its caret and selection between characters
  holds well-formed text with them between characters again; what it hands out as cut is well-formed; a key it does not
  consume leaves it alone; and a character typed at a bare caret is exactly what a backspace then takes back.\<close>

theorem field_stands_between_characters:
  assumes "input_ok i" "Valid t"
  shows "input_ok (snd (inp_Handle a t i)) \<and> (fst (inp_Handle a t i) \<or> snd (inp_Handle a t i) = i) \<and>
    input_ok (snd (inp_Cut i)) \<and> Valid (fst (inp_Cut i)) \<and> input_ok (SetText t i) \<and>
    (scalar r \<and> \<not> inp_HasSelection i \<longrightarrow>
       inp_backspace (inp_type (EncodeRune r) i) = i)"
proof (intro conjI impI)
  have i: "Valid (inpText i)" "inpCursor i \<le> length (inpText i)" "bound (inpText i) (inpCursor i)" "bound (inpText i) (inpAnchor i)"
    using assms(1) by (simp_all add: input_ok_def bound_def)
  have e: "bound (inpText i) 0" "bound (inpText i) (length (inpText i))" using bound_0[OF i(1)] by simp_all
  note m = move_ok[OF assms(1)]
  have step: "bound (inpText i) (collapseOr inp_prev True i)" "bound (inpText i) (collapseOr inp_next False i)"
    using Selection_bounds[OF assms(1)] prev_bound[OF i(1,2)] next_bound by (simp_all add: collapseOr_def)
  have all: "input_ok (inp_SelectAll i)" using i(1) e by (simp add: inp_SelectAll_def input_ok_def)
  show "input_ok (snd (inp_Handle a t i))"
    unfolding inp_Handle_def Let_def
    using m[OF step(1)] m[OF step(2)] m[OF conjunct1[OF prev_bound[OF i(1,2)]]] m[OF next_bound] m[OF prevWord_bound[OF i(1,2)]]
      m[OF nextWord_bound[OF i(3)]] m[OF e(1)] m[OF e(2)] backspace_ok[OF assms(1)] delete_ok[OF assms(1)]
      type_ok[OF assms] all assms(1)
    by (simp split: if_split)
  show "fst (inp_Handle a t i) \<or> snd (inp_Handle a t i) = i" by (simp add: inp_Handle_def Let_def)
  show "input_ok (snd (inp_Cut i))" using deleteSelection_ok[OF assms(1)] by (simp add: inp_Cut_def)
  show "input_ok (SetText t i)" using assms(2) by (simp add: SetText_def input_ok_def)
  show "Valid (fst (inp_Cut i))" using copy_valid[OF assms(1)] by (simp add: inp_Cut_def)
  show "inp_backspace (inp_type (EncodeRune r) i) = i" if "scalar r \<and> \<not> inp_HasSelection i"
    using backspace_typed[OF assms(1)] that by simp
qed

theorem field_stands_between_characters_witness:
  "input_ok (snd (inp_Handle ''backspace'' [] \<lparr>inpText = [97, 0xC3, 0xA9], inpCursor = 3, inpAnchor = 3, inpScroll = 0\<rparr>))"
proof -
  let ?i = "\<lparr>inpText = [97, 0xC3, 0xA9], inpCursor = 3, inpAnchor = 3, inpScroll = 0\<rparr>"
  have "Valid [97, 0xC3, 0xA9]"
    using Valid_utf8[of "[97, 233]"] by (simp add: utf8_string_def EncodeRune_def scalar_def byte_of_def)
  then have "input_ok ?i" by (simp add: input_ok_def bound_def)
  from field_stands_between_characters[OF this Valid_Nil] show ?thesis by blast
qed

end
