(* ===== verification/PaneMove.thy ===== *)
theory PaneMove
  imports PaneView
begin

text \<open>
  Moving the cursors of a pane (\<open>internal/editor/motion.go\<close>, \<open>moveVerticalWrapped\<close> of \<open>wrap.go\<close>, the rune boundaries of
  \<open>pane.go\<close>). Whether a rune is a letter or a digit is decided by Go's \<open>unicode\<close> tables and is the argument \<open>letter\<close> of the
  word motions. \<open>AddCursorVertical\<close> ranges over a slice its own additions re-sort in place while it has room and leave
  behind when it has none; how much room the runtime gave it is the argument \<open>spare\<close>.
\<close>

section \<open>Cursor slices\<close>

text \<open>Normalizing sorts and compacts the slice in place: the cells behind the new end keep what the sort left there.\<close>

definition pn_normalize :: "Pane \<Rightarrow> Pane" where
  "pn_normalize p =
     (let cs = pnCursors p; n = Normalize cs
      in if cs_Count cs < 2 then p
         else p\<lparr>pnCursors := n,
           pnStale := drop (length (csList n)) (sort_key (\<lambda>c. (cuHead c, cuAnchor c)) (csList cs)) @ pnStale p\<rparr>)"

definition pn_map :: "(Cursor \<Rightarrow> Cursor) \<Rightarrow> Pane \<Rightarrow> Pane" where
  "pn_map f p = p\<lparr>pnCursors := (pnCursors p)\<lparr>csList := map f (csList (pnCursors p))\<rparr>\<rparr>"

definition pn_Apply :: "Pane \<Rightarrow> (Cursor \<Rightarrow> Cursor) \<Rightarrow> Pane" where
  "pn_Apply p f = pn_normalize (pn_map f p)"

definition pn_Set :: "Pane \<Rightarrow> int \<Rightarrow> int \<Rightarrow> Pane" where
  "pn_Set p head anchor = p\<lparr>pnCursors := cs_Set (pnCursors p) head anchor, pnStale := []\<rparr>"

definition pn_Replace :: "Pane \<Rightarrow> Cursor list \<Rightarrow> Pane" where
  "pn_Replace p l =
     (if l = [] then p else pn_normalize (p\<lparr>pnCursors := (pnCursors p)\<lparr>csList := l, csPrimary := 0\<rparr>, pnStale := []\<rparr>))"

definition pn_Shift :: "Pane \<Rightarrow> int \<Rightarrow> int \<Rightarrow> int \<Rightarrow> Pane" where
  "pn_Shift p pos removed added =
     pn_Apply p (\<lambda>c. c\<lparr>cuHead := shiftOffset (cuHead c) pos removed added, cuAnchor := shiftOffset (cuAnchor c) pos removed added\<rparr>)"

definition pn_collapse :: "Pane \<Rightarrow> Pane" where
  "pn_collapse p = p\<lparr>pnCursors := CollapseSelections (pnCursors p)\<rparr>"

text \<open>A cell of a slice of the cursors taken before they changed.\<close>

definition captured :: "Pane \<Rightarrow> nat \<Rightarrow> Cursor" where
  "captured p i = (csList (pnCursors p) @ pnStale p) ! i"

section \<open>Rune boundaries\<close>

definition starts_rune :: "File \<Rightarrow> int \<Rightarrow> bool" where
  "starts_rune f off = (case fl_Slice f off 1 of [] \<Rightarrow> False | b # _ \<Rightarrow> and b 0xC0 \<noteq> 0x80)"

fun prev_from :: "File \<Rightarrow> nat \<Rightarrow> int" where
  "prev_from f 0 = 0"
| "prev_from f (Suc n) = (if starts_rune f (int n) then int n else prev_from f n)"

definition prevBoundary :: "Pane \<Rightarrow> int \<Rightarrow> int" where
  "prevBoundary p off = prev_from (pnFile p) (nat off)"

function next_from :: "File \<Rightarrow> int \<Rightarrow> int" where
  "next_from f off =
     (if off < fl_Len f
      then (if fl_Len f \<le> off + 1 \<or> starts_rune f (off + 1) then off + 1 else next_from f (off + 1))
      else fl_Len f)"
  by pat_completeness auto
termination by (relation "measure (\<lambda>(f, off). nat (fl_Len f - off))") auto

declare next_from.simps [simp del]

definition nextBoundary :: "Pane \<Rightarrow> int \<Rightarrow> int" where
  "nextBoundary p off = next_from (pnFile p) off"

section \<open>Motions\<close>

definition move_head :: "Pane \<Rightarrow> bool \<Rightarrow> Cursor \<Rightarrow> int \<Rightarrow> Cursor" where
  "move_head p ext c off =
     (let h = snapOut p (clamp off 0 (fl_Len (pnFile p))) 0; c = c\<lparr>cuHead := h\<rparr>; c = (if ext then c else c\<lparr>cuAnchor := h\<rparr>)
      in c\<lparr>cuGoal := snd (DispPos p h)\<rparr>)"

definition MoveTo :: "Pane \<Rightarrow> (Cursor \<Rightarrow> File \<Rightarrow> int) \<Rightarrow> bool \<Rightarrow> Pane" where
  "MoveTo p fn ext = pn_Apply p (\<lambda>c. move_head p ext c (fn c (pnFile p)))"

definition land_at :: "bool \<Rightarrow> Cursor \<Rightarrow> int \<Rightarrow> int \<Rightarrow> Cursor" where
  "land_at ext c off col = (let c = c\<lparr>cuHead := off\<rparr>; c = (if ext then c else c\<lparr>cuAnchor := off\<rparr>) in c\<lparr>cuGoal := col\<rparr>)"

definition down_rows :: "Pane \<Rightarrow> int \<Rightarrow> bool \<Rightarrow> Cursor \<Rightarrow> Cursor" where
  "down_rows p delta ext c =
     (let (line, row, col) = cursorRowCol p (cuHead c); col = (if col < cuGoal c then cuGoal c else col);
          (line, row) = step_rows p (if delta < 0 then -1 else 1) (nat \<bar>delta\<bar>) (line, row); (sl, lo, hi, _) = pn_line p line
      in if sl < 0 then (let at = pn_DocAt p line 0; at = (if at < 0 then 0 else at) in land_at ext c at col)
         else let text = line_slice p sl lo hi; breaks = row_breaks p text; hs = fl_HintCols (pnFile p) sl;
                  within = (if hs \<noteq> [] \<and> row = 0 \<and> lo = 0 then OffsetOfHints (flCols (pnFile p)) text col hs
                            else OffsetAtRow (flCols (pnFile p)) breaks text row col)
              in land_at ext c (fl_LineStart (pnFile p) sl + lo + within) col)"

definition moveVerticalWrapped :: "Pane \<Rightarrow> int \<Rightarrow> bool \<Rightarrow> Pane" where
  "moveVerticalWrapped p delta ext = pn_Apply p (down_rows p delta ext)"

definition down_lines :: "Pane \<Rightarrow> int \<Rightarrow> bool \<Rightarrow> Cursor \<Rightarrow> Cursor" where
  "down_lines p delta ext c =
     (let (line, col) = DispPos p (cuHead c); col = (if col < cuGoal c then cuGoal c else col);
          mx = DisplayLines p - 1; mx = (if mx < 0 then 0 else mx)
      in land_at ext c (pn_DocAt p (clamp (line + delta) 0 mx) col) col)"

definition MoveVertical :: "Pane \<Rightarrow> int \<Rightarrow> bool \<Rightarrow> Pane" where
  "MoveVertical p delta ext =
     (if pnWrap p then moveVerticalWrapped p delta ext else pn_Apply p (down_lines p delta ext))"

definition CharLeft :: "Pane \<Rightarrow> bool \<Rightarrow> Pane" where
  "CharLeft p ext =
     MoveTo p (\<lambda>c f. if \<not> ext \<and> HasSelection c then fst (cu_Range c) else snapOut p (prevBoundary p (cuHead c)) (-1)) ext"

definition CharRight :: "Pane \<Rightarrow> bool \<Rightarrow> Pane" where
  "CharRight p ext =
     MoveTo p (\<lambda>c f. if \<not> ext \<and> HasSelection c then snd (cu_Range c) else snapOut p (nextBoundary p (cuHead c)) 1) ext"

definition trimLeadingSpace :: "byte list \<Rightarrow> byte list" where
  "trimLeadingSpace s = dropWhile is_blank s"

definition pn_LineStart :: "Pane \<Rightarrow> bool \<Rightarrow> Pane" where
  "pn_LineStart p ext =
     MoveTo p (\<lambda>c f. let line = fl_LineOf f (cuHead c); start = fl_LineStart f line; text = fl_Line f line;
                         indent = start + int (length text) - int (length (trimLeadingSpace text))
                     in if cuHead c = indent then start else indent) ext"

definition pn_LineEnd :: "Pane \<Rightarrow> bool \<Rightarrow> Pane" where
  "pn_LineEnd p ext = MoveTo p (\<lambda>c f. fl_LineEnd f (fl_LineOf f (cuHead c))) ext"

definition DocStart :: "Pane \<Rightarrow> bool \<Rightarrow> Pane" where "DocStart p ext = MoveTo p (\<lambda>c f. 0) ext"
definition DocEnd :: "Pane \<Rightarrow> bool \<Rightarrow> Pane" where "DocEnd p ext = MoveTo p (\<lambda>c f. fl_Len f) ext"

section \<open>Words\<close>

definition isWord :: "(nat \<Rightarrow> bool) \<Rightarrow> nat \<Rightarrow> bool" where
  "isWord letter r \<longleftrightarrow> r = 95 \<or> letter r"

text \<open>The rune at an offset with the offset behind it, and the rune before one with where it starts.\<close>

definition rune_next :: "Pane \<Rightarrow> int \<Rightarrow> nat \<times> int" where
  "rune_next p i =
     (let n = fl_Len (pnFile p)
      in if i < 0 \<or> n \<le> i then (0, i)
         else let (r, size) = DecodeRune (fl_Slice (pnFile p) i (min 4 (n - i))) in (r, i + int size))"

definition rune_prev :: "Pane \<Rightarrow> int \<Rightarrow> nat \<times> int" where
  "rune_prev p i =
     (if i \<le> 0 then (0, 0)
      else let start = prevBoundary p i in (fst (DecodeRune (fl_Slice (pnFile p) start (i - start))), start))"

text \<open>One of the four loops: on while the rune's being a word rune is \<open>want\<close>. Every rune read takes the scan on, so the
  document's length bounds it.\<close>

fun scan_on :: "(nat \<Rightarrow> bool) \<Rightarrow> Pane \<Rightarrow> bool \<Rightarrow> nat \<Rightarrow> int \<Rightarrow> int" where
  "scan_on letter p want 0 look = look"
| "scan_on letter p want (Suc k) look =
     (if look < fl_Len (pnFile p)
      then let (r, after) = rune_next p look in if isWord letter r \<noteq> want then look else scan_on letter p want k after
      else look)"

fun scan_back :: "(nat \<Rightarrow> bool) \<Rightarrow> Pane \<Rightarrow> bool \<Rightarrow> nat \<Rightarrow> int \<Rightarrow> int" where
  "scan_back letter p want 0 look = look"
| "scan_back letter p want (Suc k) look =
     (if 0 < look
      then let (r, start) = rune_prev p look in if isWord letter r \<noteq> want then look else scan_back letter p want k start
      else look)"

definition scanWord :: "(nat \<Rightarrow> bool) \<Rightarrow> Pane \<Rightarrow> int \<Rightarrow> int \<Rightarrow> int" where
  "scanWord letter p off dir =
     (let n = fl_Len (pnFile p)
      in if 0 < dir
         then let k = nat (n - off); look = scan_on letter p False k off in clamp (scan_on letter p True k look) 0 n
         else let k = nat off; look = scan_back letter p False k off in clamp (scan_back letter p True k look) 0 n)"

definition WordLeft :: "(nat \<Rightarrow> bool) \<Rightarrow> Pane \<Rightarrow> bool \<Rightarrow> Pane" where
  "WordLeft letter p ext = MoveTo p (\<lambda>c f. scanWord letter p (cuHead c) (-1)) ext"

definition WordRight :: "(nat \<Rightarrow> bool) \<Rightarrow> Pane \<Rightarrow> bool \<Rightarrow> Pane" where
  "WordRight letter p ext = MoveTo p (\<lambda>c f. scanWord letter p (cuHead c) 1) ext"

section \<open>Pages\<close>

definition page_rows :: "Pane \<Rightarrow> int" where
  "page_rows p = (let rows = vpRows (pnView p) in if rows < 2 then 2 else rows)"

definition ScrollPage :: "Pane \<Rightarrow> int \<Rightarrow> Pane" where
  "ScrollPage p dir = p\<lparr>pnView := ScrollBy (pnView p) ((page_rows p - 1) * dir) (DisplayLines p)\<rparr>"

definition ScrollRows :: "Pane \<Rightarrow> int \<Rightarrow> Pane" where
  "ScrollRows p rows = p\<lparr>pnView := ScrollBy (pnView p) rows (DisplayLines p)\<rparr>"

definition MovePage :: "Pane \<Rightarrow> int \<Rightarrow> bool \<Rightarrow> Pane" where
  "MovePage p dir ext =
     (let step = (page_rows p - 1) * dir
      in MoveVertical (p\<lparr>pnView := ScrollBy (pnView p) step (DisplayLines p)\<rparr>) step ext)"

section \<open>Selecting\<close>

definition SelectAll :: "Pane \<Rightarrow> Pane" where "SelectAll p = pn_Set p (fl_Len (pnFile p)) 0"

definition whole_lines :: "File \<Rightarrow> Cursor \<Rightarrow> Cursor" where
  "whole_lines f c =
     (let (lo, hi) = cu_Range c; start = fl_LineStart f (fl_LineOf f lo); nxt = fl_LineOf f hi + 1;
          stop = (if nxt < fl_Lines f then fl_LineStart f nxt else fl_Len f)
      in \<lparr>cuHead = stop, cuAnchor = start, cuGoal = snd (fl_LineCol f stop)\<rparr>)"

definition SelectLine :: "Pane \<Rightarrow> Pane" where "SelectLine p = pn_Apply p (whole_lines (pnFile p))"

text \<open>The lines a selection spans, without one it only meets at column zero.\<close>

definition span_lines :: "File \<Rightarrow> int \<Rightarrow> int \<Rightarrow> int list" where
  "span_lines f lo hi =
     (let first = fl_LineOf f lo; last = fl_LineOf f hi; last = (if first < last \<and> hi = fl_LineStart f last then last - 1 else last)
      in [first..last])"

definition split_cursor :: "File \<Rightarrow> Cursor \<Rightarrow> Cursor list" where
  "split_cursor f c =
     (if \<not> HasSelection c then [c]
      else let (lo, hi) = cu_Range c
           in map (\<lambda>line. let start = max (fl_LineStart f line) lo; stop = min (fl_LineEnd f line) hi
                in \<lparr>cuHead = stop, cuAnchor = start, cuGoal = snd (fl_LineCol f stop)\<rparr>) (span_lines f lo hi))"

definition SplitIntoLines :: "Pane \<Rightarrow> Pane" where
  "SplitIntoLines p = pn_Replace p (concat (map (split_cursor (pnFile p)) (csList (pnCursors p))))"

section \<open>A cursor above or below each\<close>

definition pn_Add :: "Pane \<Rightarrow> int \<Rightarrow> int \<Rightarrow> Pane" where
  "pn_Add p head anchor =
     pn_normalize (p\<lparr>pnCursors := (pnCursors p)\<lparr>csList := csList (pnCursors p) @ [cursor_at head anchor]\<rparr>, pnStale := tl (pnStale p)\<rparr>)"

text \<open>The slice ranged over, once an addition has moved the cursors to another array.\<close>

fun add_vertical :: "int \<Rightarrow> nat \<Rightarrow> nat list \<Rightarrow> Cursor list option \<Rightarrow> Pane \<Rightarrow> Pane" where
  "add_vertical delta cap [] left p = p"
| "add_vertical delta cap (i # is) left p =
     (let c = (case left of Some l \<Rightarrow> l ! i | None \<Rightarrow> captured p i); (line, col) = DispPos p (cuHead c); target = line + delta
      in if target < 0 \<or> DisplayLines p \<le> target then add_vertical delta cap is left p
         else let off = pn_DocAt p target col;
                  left = (if left = None \<and> cap \<le> length (csList (pnCursors p)) then Some (csList (pnCursors p) @ pnStale p) else left)
              in add_vertical delta cap is left (pn_Add p off off))"

definition AddCursorVertical :: "nat \<Rightarrow> Pane \<Rightarrow> int \<Rightarrow> Pane" where
  "AddCursorVertical spare p delta =
     (let n = length (csList (pnCursors p)) in add_vertical delta (n + spare) [0..<n] None (p\<lparr>pnStale := []\<rparr>))"

end
