(* ===== verification/PaneEdit.thy ===== *)
theory PaneEdit
  imports PaneMove
begin

text \<open>
  Editing at the cursors of a pane (\<open>internal/editor/pane.go\<close>): one replacement at every cursor, from the highest offset
  down, refused as a whole where a lease is met; pasting, deleting, opening lines, indenting. A loop over the cursors that
  edits as it goes reads the slice it took before through \<open>captured\<close>.
\<close>

section \<open>One edit\<close>

record cursorEdit =
  cePos :: int
  ceRemove :: int
  ceInsert :: "byte list"

definition noteLease :: "Pane \<Rightarrow> nat \<Rightarrow> Pane" where
  "noteLease p g = p\<lparr>pnLeaseHit := g, pnLeaseBlocked := True\<rparr>"

definition TakeLeaseRefusal :: "Pane \<Rightarrow> nat option \<times> Pane" where
  "TakeLeaseRefusal p =
     (if \<not> pnLeaseBlocked p then (None, p)
      else (Some (pnLeaseHit p), p\<lparr>pnLeaseHit := 0, pnLeaseBlocked := False\<rparr>))"

definition bumpCursorsAt :: "Pane \<Rightarrow> int \<Rightarrow> int \<Rightarrow> Pane" where
  "bumpCursorsAt p pos n =
     pn_map (\<lambda>c. c\<lparr>cuHead := (if cuHead c = pos then pos + n else cuHead c),
                    cuAnchor := (if cuAnchor c = pos then pos + n else cuAnchor c)\<rparr>) p"

text \<open>The two halves of an edit, whose results the code ignores: the cursors follow whether or not the text moved.\<close>

definition cut_out :: "Pane \<Rightarrow> int \<Rightarrow> int \<Rightarrow> Pane" where
  "cut_out p pos n = pn_Shift (p\<lparr>pnFile := snd (fl_Delete (pnFile p) (pnAuthor p) pos n)\<rparr>) pos n 0"

definition put_in :: "Pane \<Rightarrow> int \<Rightarrow> byte list \<Rightarrow> Pane" where
  "put_in p pos t =
     bumpCursorsAt (pn_Shift (p\<lparr>pnFile := snd (fl_Insert (pnFile p) (pnAuthor p) pos t)\<rparr>) pos 0 (int (length t)))
       pos (int (length t))"

definition put_pieces :: "Pane \<Rightarrow> int \<Rightarrow> PieceRec list \<Rightarrow> int \<Rightarrow> Pane" where
  "put_pieces p pos recs n =
     bumpCursorsAt (pn_Shift (p\<lparr>pnFile := snd (fl_InsertPieces (pnFile p) (pnAuthor p) pos recs)\<rparr>) pos 0 n) pos n"

definition applyEdit :: "Pane \<Rightarrow> int \<Rightarrow> int \<Rightarrow> byte list \<Rightarrow> Pane" where
  "applyEdit p pos remove ins =
     (case fl_EditLeased (pnFile p) pos remove of
        Some g \<Rightarrow> noteLease p g
      | None \<Rightarrow> let p = (if 0 < remove then cut_out p pos remove else p) in if ins \<noteq> [] then put_in p pos ins else p)"

fun leaseBlocks :: "Pane \<Rightarrow> cursorEdit list \<Rightarrow> Pane option" where
  "leaseBlocks p [] = None"
| "leaseBlocks p (e # es) =
     (case fl_EditLeased (pnFile p) (cePos e) (ceRemove e) of Some g \<Rightarrow> Some (noteLease p g) | None \<Rightarrow> leaseBlocks p es)"

definition apply_edits :: "Pane \<Rightarrow> cursorEdit list \<Rightarrow> Pane" where
  "apply_edits p es = foldl (\<lambda>p e. applyEdit p (cePos e) (ceRemove e) (ceInsert e)) p es"

definition cursor_edits :: "(Cursor \<Rightarrow> int \<times> int \<times> byte list) \<Rightarrow> Cursor list \<Rightarrow> cursorEdit list" where
  "cursor_edits fn cs =
     filter (\<lambda>e. \<not> (ceRemove e = 0 \<and> ceInsert e = []))
       (map (\<lambda>c. case fn c of (pos, remove, ins) \<Rightarrow> \<lparr>cePos = pos, ceRemove = remove, ceInsert = ins\<rparr>) (rev cs))"

definition editEachCursor :: "Pane \<Rightarrow> (Cursor \<Rightarrow> int \<times> int \<times> byte list) \<Rightarrow> Pane" where
  "editEachCursor p fn =
     (let es = cursor_edits fn (csList (pnCursors p))
      in case leaseBlocks p es of
           Some q \<Rightarrow> q
         | None \<Rightarrow> pn_normalize (pn_collapse (apply_edits p es)))"

text \<open>\<open>Begin\<close> and a deferred \<open>End\<close> around the rest of a function.\<close>

definition in_change :: "(Pane \<Rightarrow> Pane) \<Rightarrow> Pane \<Rightarrow> Pane" where
  "in_change body p = (let q = body (p\<lparr>pnFile := fl_Begin (pnFile p)\<rparr>) in q\<lparr>pnFile := fl_End (pnFile q)\<rparr>)"

section \<open>Typing and replacing\<close>

definition replace_selection :: "byte list \<Rightarrow> Cursor \<Rightarrow> int \<times> int \<times> byte list" where
  "replace_selection t c = (let (lo, hi) = cu_Range c in (lo, hi - lo, t))"

definition InsertText :: "Pane \<Rightarrow> byte list \<Rightarrow> Pane" where
  "InsertText p t = editEachCursor p (replace_selection t)"

definition ReplaceRange :: "Pane \<Rightarrow> int \<Rightarrow> int \<Rightarrow> byte list \<Rightarrow> Pane" where
  "ReplaceRange p start stop t =
     (let n = fl_Len (pnFile p); start = (if start < 0 then 0 else start); start = (if n < start then n else start);
          stop = (if stop < start then start else stop); stop = (if n < stop then n else stop)
      in editEachCursor (pn_Set p start start) (\<lambda>_. (start, stop - start, t)))"

section \<open>Pasting\<close>

definition Paste :: "Pane \<Rightarrow> byte list \<Rightarrow> Pane" where
  "Paste p t =
     (if t = [] then p
      else let (lo, hi) = cu_Range (primary p); p = touch_primary p
           in case fl_EditLeased (pnFile p) lo (hi - lo) of
                Some g \<Rightarrow> noteLease p g
              | None \<Rightarrow>
                  in_change (\<lambda>p. let p = pn_Set p lo lo;
                                   p = (if lo < hi then p\<lparr>pnFile := snd (fl_Delete (pnFile p) (pnAuthor p) lo (hi - lo))\<rparr> else p);
                                   p = p\<lparr>pnFile := snd (fl_Insert (pnFile p) (pnAuthor p) lo t)\<rparr>; at = lo + int (length t)
                               in FollowCursor (pn_Set p at at)) p)"

text \<open>The cursors from the highest down, each over its selection.\<close>

fun each_captured :: "(nat \<Rightarrow> Pane \<Rightarrow> int \<Rightarrow> Pane) \<Rightarrow> nat \<Rightarrow> Pane \<Rightarrow> Pane" where
  "each_captured put 0 p = p"
| "each_captured put (Suc i) p =
     (let (lo, hi) = cu_Range (captured p i); p = (if lo < hi then cut_out p lo (hi - lo) else p)
      in each_captured put i (put i p lo))"

definition settle :: "Pane \<Rightarrow> Pane" where
  "settle p = FollowCursor (pn_normalize (pn_collapse p))"

definition selection_edits :: "Cursor list \<Rightarrow> byte list list \<Rightarrow> cursorEdit list" where
  "selection_edits cs ts =
     map2 (\<lambda>c t. let (lo, hi) = cu_Range c in \<lparr>cePos = lo, ceRemove = hi - lo, ceInsert = t\<rparr>) cs ts"

fun join_lines :: "byte list list \<Rightarrow> byte list" where
  "join_lines [] = []"
| "join_lines [l] = l"
| "join_lines (l # ls) = l @ 10 # join_lines ls"

definition PasteDistributed :: "Pane \<Rightarrow> byte list list \<Rightarrow> Pane" where
  "PasteDistributed p lines =
     (let cs = csList (pnCursors p)
      in if length lines \<noteq> length cs then Paste p (join_lines lines)
         else case leaseBlocks p (selection_edits cs lines) of
           Some q \<Rightarrow> q
         | None \<Rightarrow> in_change (\<lambda>p. settle (each_captured (\<lambda>i p lo. put_in p lo (lines ! i)) (length cs) p)) p)"

definition PasteAtEachCursor :: "Pane \<Rightarrow> byte list \<Rightarrow> Pane" where
  "PasteAtEachCursor p t =
     (let cs = csList (pnCursors p)
      in if t = [] \<or> cs = [] then p
         else case leaseBlocks p (selection_edits cs (replicate (length cs) t)) of
           Some q \<Rightarrow> q
         | None \<Rightarrow>
             in_change (\<lambda>p.
               let k = length cs - 1; (lo, hi) = cu_Range (captured p k); p = (if lo < hi then cut_out p lo (hi - lo) else p);
                   f = snd (fl_Insert (pnFile p) (pnAuthor p) lo t); recs = fl_Snapshot f lo (int (length t)); n = int (length t);
                   p = bumpCursorsAt (pn_Shift (p\<lparr>pnFile := f\<rparr>) lo 0 n) lo n
               in settle (each_captured (\<lambda>i p lo. put_pieces p lo recs n) k p)) p)"

section \<open>Deleting\<close>

definition backward_range :: "Pane \<Rightarrow> Cursor \<Rightarrow> int \<times> int \<times> byte list" where
  "backward_range p c =
     (if HasSelection c then replace_selection [] c
      else if cuHead c = 0 then (cuHead c, 0, [])
      else let prev = prevBoundary p (cuHead c) in (prev, cuHead c - prev, []))"

definition DeleteForward :: "Pane \<Rightarrow> Pane" where
  "DeleteForward p =
     editEachCursor p (\<lambda>c. if HasSelection c then replace_selection [] c
       else if fl_Len (pnFile p) \<le> cuHead c then (cuHead c, 0, [])
       else (cuHead c, nextBoundary p (cuHead c) - cuHead c, []))"

definition DeleteLine :: "Pane \<Rightarrow> Pane" where
  "DeleteLine p =
     (let f = pnFile p
      in editEachCursor p (\<lambda>c. let line = fl_LineOf f (cuHead c); start = fl_LineStart f line; stop = fl_LineEnd f line
           in if stop < fl_Len f then (start, stop + 1 - start, [])
              else if 0 < start then (start - 1, stop - (start - 1), [])
              else (start, stop - start, [])))"

definition DeleteToLineEnd :: "Pane \<Rightarrow> Pane" where
  "DeleteToLineEnd p =
     (let f = pnFile p
      in editEachCursor p (\<lambda>c. let (lo, hi) = cu_Range c
           in if lo \<noteq> hi then (lo, hi - lo, [])
              else let stop = fl_LineEnd f (fl_LineOf f (cuHead c));
                       stop = (if stop = cuHead c \<and> stop < fl_Len f then stop + 1 else stop)
                   in (cuHead c, stop - cuHead c, [])))"

section \<open>Lines\<close>

definition OpenLineBelow :: "Pane \<Rightarrow> Pane" where
  "OpenLineBelow p =
     (let f = pnFile p
      in MoveTo (editEachCursor p (\<lambda>c. (fl_LineEnd f (fl_LineOf f (cuHead c)), 0, [10]))) (\<lambda>c _. cuHead c) False)"

definition OpenLineAbove :: "Pane \<Rightarrow> Pane" where
  "OpenLineAbove p =
     (let f = pnFile p in editEachCursor p (\<lambda>c. (fl_LineStart f (fl_LineOf f (cuHead c)), 0, [10])))"

definition sortInts :: "int list \<Rightarrow> int list" where "sortInts a = sort a"

definition touchedLines :: "Pane \<Rightarrow> int list" where
  "touchedLines p =
     sortInts (remdups (concat (map (\<lambda>c. let (lo, hi) = cu_Range c in span_lines (pnFile p) lo hi) (csList (pnCursors p)))))"

definition leadingSpaces :: "byte list \<Rightarrow> int \<Rightarrow> int" where
  "leadingSpaces line tab =
     (if HasPrefix line [9] then 1 else int (length (takeWhile (\<lambda>b. b = 32) (take (nat tab) line))))"

definition indent_edit :: "Pane \<Rightarrow> bool \<Rightarrow> int \<Rightarrow> cursorEdit list" where
  "indent_edit p add line =
     (let f = pnFile p; start = fl_LineStart f line
      in if add then [\<lparr>cePos = start, ceRemove = 0, ceInsert = Unit (flIndent f)\<rparr>]
         else let n = leadingSpaces (fl_Line f line) (coTab (flCols f))
              in if 0 < n then [\<lparr>cePos = start, ceRemove = n, ceInsert = []\<rparr>] else [])"

definition reindent :: "Pane \<Rightarrow> bool \<Rightarrow> Pane" where
  "reindent p add =
     (let es = concat (map (indent_edit p add) (rev (touchedLines p)))
      in case leaseBlocks p es of Some q \<Rightarrow> q | None \<Rightarrow> pn_normalize (apply_edits p es))"

definition pn_Indent :: "Pane \<Rightarrow> Pane" where "pn_Indent p = reindent p True"
definition Outdent :: "Pane \<Rightarrow> Pane" where "Outdent p = reindent p False"

end
