(* ===== verification/PaneLaw.thy ===== *)
theory PaneLaw
  imports PaneEdit FileSave
begin

text \<open>
  What one replacement at every cursor does to the text and to the cursors, for selections that are apart: the edits run
  from the highest offset down, so that none disturbs the offsets of the ones still to come, and the cursors above ride on
  the shift. Where a lease is met nothing moves.
\<close>

section \<open>The document under an edit\<close>

text \<open>A document without decisions, so that no range is leased.\<close>

definition free_file :: "File \<Rightarrow> bool" where
  "free_file f \<longleftrightarrow> tl_inv (flSess f) \<and> \<not> HasDecisions (flSess f)"

lemma free_not_leased: "free_file f \<Longrightarrow> fl_Leased f pos n = None"
  by (simp add: free_file_def fl_Leased_def Leased_def)

lemma free_len: "free_file f \<Longrightarrow> fl_Len f = int (length (fl_Text f))"
  using fl_Text_text[of f] by (simp add: free_file_def)

lemma HasDecisions_commit: "HasDecisions (commit s q) = HasDecisions s"
  by (simp add: commit_def commitInto_def Let_def HasDecisions_def)

lemma cut_file:
  assumes "free_file f" "0 \<le> lo" "0 < n" "lo + n \<le> fl_Len f"
  shows "free_file (snd (fl_Delete f a lo n))" "fl_Text (snd (fl_Delete f a lo n)) = cut_range lo n (fl_Text f)"
    "room (flSess (snd (fl_Delete f a lo n))) b t = room (flSess f) b t"
proof -
  let ?s = "flSess f" and ?f = "snd (fl_Delete f a lo n)"
  have t: "tl_inv ?s" using assms(1) by (simp add: free_file_def)
  have c: "clampRange lo n (pe_Len (sBuf ?s)) = (lo, n)" using assms by (intro clampRange_id) (simp_all add: fl_Len_def)
  note D = Delete_tl[OF t c, of a]
  have s: "flSess ?f = Delete ?s a lo n" using assms by (simp add: fl_Delete_def free_not_leased)
  show f: "free_file ?f"
    using D(1) s assms(1,3) c by (simp add: free_file_def Delete_def HasDecisions_commit)
  show "fl_Text ?f = cut_range lo n (fl_Text f)"
    using D(2) s fl_Text_text[of f] fl_Text_text[of ?f] t f by (simp add: free_file_def)
  have "0 \<le> pe_Len (sBuf ?s)" using tl_len[OF t] by simp
  note B = clampRange_bounds[OF this c]
  have "pe_splice_ok (sBuf ?s) []" by (simp add: pe_splice_ok_def)
  note C = commit_tl[OF t edit_commit_in(1)[OF t B this], of a]
  show "room (flSess ?f) b t = room ?s b t" using C(3,4) s c assms(3) by (simp add: room_def Delete_def)
qed

text \<open>Room for two texts is room for the first, and for the second once the first is in.\<close>

lemma room_first:
  assumes "room s a (t @ u)"
  shows "room s a t"
proof -
  let ?p = "piece a (store_Len (pe_Store (sBuf s)) a)"
  have "pe_fits (sBuf s) (?p (int (length t)))" if "t \<noteq> []"
    by (rule pe.fits_sub[of _ "?p (int (length (t @ u)))"]) (use assms that in \<open>auto simp: room_def sub_piece_def\<close>)
  then show ?thesis using assms by (auto simp: room_def)
qed

lemma store_Append_Len: "0 \<le> a \<Longrightarrow> store_Len (snd (store_Append st a t)) a = store_Len st a + int (length t)"
  by (auto simp: store_Append_def Let_def store_grow_def store_Len_def nth_append)

lemma room_second:
  assumes "tl_inv s" "room s a (t @ u)" "t \<noteq> []"
  shows "room (Insert s a pos t) a u"
proof -
  let ?st = "pe_Store (sBuf s)"
  have r: "room s a t" by (rule room_first[OF assms(2)])
  have a: "0 \<le> a" "a < 256" using assms(2) by (auto simp: room_def)
  obtain start s1 where ap: "session_append s a t = (start, s1)" by fastforce
  note A = append_tl[OF assms(1) r ap assms(3)]
  have len: "0 \<le> pe_Len (sBuf s)" using tl_len[OF assms(1)] by simp
  let ?p = "fst (clampRange pos 0 (pe_Len (sBuf s)))"
  let ?q = "edit_op a ?p [] [piece a start (int (length t))]"
  have "commit_in s1 ?q" using edit_commit_in(3)[OF A(1) _ order_refl _ A(4)] clamped_point[OF len] A(3) by simp
  note C = commit_tl[OF A(1) this]
  have I: "Insert s a pos t = commit s1 ?q" using ap assms(3) by (simp add: Insert_def)
  obtain st where st: "store_Append ?st a t = (start, st)" "s1 = s\<lparr>sBuf := pe_set_store st (sBuf s)\<rparr>"
    using ap by (auto simp: session_append_def split: prod.splits)
  have "pe_Store (sBuf s1) = st"
    using store_le_Append[OF a(1), of ?st t] pe.append_law[of "sBuf s" st] tl_invD(5)[OF assms(1)] st by simp
  then have l: "store_Len (pe_Store (sBuf (Insert s a pos t))) a = store_Len ?st a + int (length t)"
    using store_Append_Len[OF a(1), of ?st t] st(1) C(4) I by simp
  have fit: "pe_fits (sBuf (Insert s a pos t)) = pe_fits (sBuf s)" using C(3) A(8) I by simp
  have "pe_fits (sBuf s) (piece a (store_Len ?st a + int (length t)) (int (length u)))" if "u \<noteq> []"
    by (rule pe.fits_sub[of _ "piece a (store_Len ?st a) (int (length (t @ u)))"])
       (use assms that in \<open>auto simp: room_def sub_piece_def\<close>)
  then show ?thesis using a l fit by (simp add: room_def)
qed

lemma put_file:
  assumes "free_file f" "0 \<le> lo" "lo \<le> fl_Len f" "t \<noteq> []" "room (flSess f) a (t @ u)"
  shows "free_file (snd (fl_Insert f a lo t))" "fl_Text (snd (fl_Insert f a lo t)) = put_at lo t (fl_Text f)"
    "room (flSess (snd (fl_Insert f a lo t))) a u"
proof -
  let ?s = "flSess f" and ?f = "snd (fl_Insert f a lo t)"
  have t: "tl_inv ?s" using assms(1) by (simp add: free_file_def)
  note I = Insert_tl[OF t room_first[OF assms(5)], of lo]
  have s: "flSess ?f = Insert ?s a lo t" using assms by (simp add: fl_Insert_def free_not_leased)
  have h: "HasDecisions (Insert ?s a lo t) = HasDecisions ?s"
    by (auto simp: Insert_def HasDecisions_commit session_append_def split: prod.splits) (simp_all add: HasDecisions_def)
  show f: "free_file ?f" using I(1) s h assms(1) by (simp add: free_file_def)
  show "fl_Text ?f = put_at lo t (fl_Text f)"
    using I(2) s fl_Text_text[of f] fl_Text_text[of ?f] t f assms(3) by (simp add: free_file_def fl_Len_def)
  show "room (flSess ?f) a u" using room_second[OF t assms(5,4)] s by simp
qed

section \<open>The cursors under an edit\<close>

lemma sort_heads_apart: "apart cs \<Longrightarrow> sort_key (\<lambda>c. (cuHead c, cuAnchor c)) cs = cs"
proof (induction cs)
  case (Cons c cs)
  have "cuHead c < cuHead d" if "d \<in> set cs" for d
    using Cons.prems that head_in(2)[of c] head_in(1)[of d] by (fastforce simp: apart_def)
  then have "\<forall>d \<in> set cs. (cuHead c, cuAnchor c) \<le> (cuHead d, cuAnchor d)" by simp
  then show ?case using Cons by (cases cs) (simp_all add: apart_def)
qed simp

lemma primary_scan_apart:
  "apart cs \<Longrightarrow> k < length cs \<Longrightarrow> primary_scan (cuHead (cs ! k)) i cs = i + int k"
proof (induction cs arbitrary: k i)
  case (Cons c cs)
  show ?case
  proof (cases k)
    case 0
    then show ?thesis using head_in[of c] by simp
  next
    case (Suc j)
    then have "cs ! j \<in> set cs" using Cons.prems by simp
    then have "cu_hi c < cu_lo (cs ! j)" using Cons.prems(1) by (simp add: apart_def)
    then have "cu_hi c < cuHead (cs ! j)" using head_in(1)[of "cs ! j"] by linarith
    then show ?thesis using Cons Suc by (simp add: apart_def)
  qed
qed simp

text \<open>Normalizing cursors that are apart changes nothing.\<close>

lemma pn_normalize_same:
  assumes "apart (csList (pnCursors p))" "0 \<le> csPrimary (pnCursors p)" "csPrimary (pnCursors p) < cs_Count (pnCursors p)"
  shows "pn_normalize p = p"
proof (cases "cs_Count (pnCursors p) < 2")
  case False
  let ?cs = "pnCursors p"
  obtain l ls where l: "csList ?cs = l # ls" using False by (cases "csList ?cs") (simp_all add: cs_Count_def)
  have k: "nat (csPrimary ?cs) < length (csList ?cs)" using assms(2,3) by (simp add: cs_Count_def)
  have m: "merge_pass l ls = l # ls" using merge_pass_same[of l ls] assms(1) l by simp
  have P: "Primary ?cs = (csList ?cs ! nat (csPrimary ?cs), ?cs)" using assms(2,3) by (simp add: Primary_def Let_def)
  have s: "merge_pass (hd (csList ?cs)) (tl (csList ?cs)) = csList ?cs" using m l by simp
  have i: "primary_scan (cuHead (csList ?cs ! nat (csPrimary ?cs))) 0 (csList ?cs) = csPrimary ?cs"
    using primary_scan_apart[OF assms(1) k, of 0] assms(2) by simp
  have "Normalize ?cs = ?cs"
    unfolding Normalize_def Let_def P prod.case sort_heads_apart[OF assms(1)] s i using False by simp
  then show ?thesis using sort_heads_apart[OF assms(1)] by (simp add: pn_normalize_def Let_def)
qed (simp add: pn_normalize_def)

text \<open>A set of cursors that normalizing leaves alone, whose list may be replaced by any of the same length that is apart.\<close>

definition settled :: "Pane \<Rightarrow> bool" where
  "settled p \<longleftrightarrow> 0 \<le> csPrimary (pnCursors p) \<and> csPrimary (pnCursors p) < cs_Count (pnCursors p)"

definition with_cursors :: "Pane \<Rightarrow> Cursor list \<Rightarrow> Pane" where
  "with_cursors p cs = p\<lparr>pnCursors := (pnCursors p)\<lparr>csList := cs\<rparr>\<rparr>"

lemma with_cursors_fields [simp]:
  "csList (pnCursors (with_cursors p cs)) = cs" "pnFile (with_cursors p cs) = pnFile p" "pnAuthor (with_cursors p cs) = pnAuthor p"
  "with_cursors (with_cursors p cs) ds = with_cursors p ds"
  by (simp_all add: with_cursors_def)

lemma settled_with: "settled p \<Longrightarrow> length cs = length (csList (pnCursors p)) \<Longrightarrow> settled (with_cursors p cs)"
  by (simp add: settled_def with_cursors_def cs_Count_def)

lemma settled_file [simp]: "settled (p\<lparr>pnFile := f\<rparr>) = settled p"
  by (simp add: settled_def)

definition shift_cursor :: "int \<Rightarrow> int \<Rightarrow> int \<Rightarrow> Cursor \<Rightarrow> Cursor" where
  "shift_cursor pos removed added c =
     c\<lparr>cuHead := shiftOffset (cuHead c) pos removed added, cuAnchor := shiftOffset (cuAnchor c) pos removed added\<rparr>"

definition bump_cursor :: "int \<Rightarrow> int \<Rightarrow> Cursor \<Rightarrow> Cursor" where
  "bump_cursor pos n c =
     c\<lparr>cuHead := (if cuHead c = pos then pos + n else cuHead c), cuAnchor := (if cuAnchor c = pos then pos + n else cuAnchor c)\<rparr>"

lemma pn_Shift_with:
  assumes "settled p" "apart (map (shift_cursor pos removed added) (csList (pnCursors p)))"
  shows "pn_Shift p pos removed added = with_cursors p (map (shift_cursor pos removed added) (csList (pnCursors p)))"
proof -
  let ?q = "with_cursors p (map (shift_cursor pos removed added) (csList (pnCursors p)))"
  have "pn_Shift p pos removed added = pn_normalize ?q"
    by (simp add: pn_Shift_def pn_Apply_def pn_map_def with_cursors_def shift_cursor_def[abs_def])
  also have "\<dots> = ?q" using settled_with[OF assms(1)] assms(2) by (intro pn_normalize_same) (simp_all add: settled_def)
  finally show ?thesis .
qed

lemma bump_with: "bumpCursorsAt p pos n = with_cursors p (map (bump_cursor pos n) (csList (pnCursors p)))"
  by (simp add: bumpCursorsAt_def pn_map_def with_cursors_def bump_cursor_def)

section \<open>One edit\<close>

definition caret_at :: "int \<Rightarrow> Cursor \<Rightarrow> Cursor" where
  "caret_at x c = c\<lparr>cuHead := x, cuAnchor := x\<rparr>"

definition moved :: "int \<Rightarrow> Cursor \<Rightarrow> Cursor" where
  "moved k c = c\<lparr>cuHead := cuHead c + k, cuAnchor := cuAnchor c + k\<rparr>"

lemma caret_moved [simp]:
  "cu_lo (caret_at x c) = x" "cu_hi (caret_at x c) = x" "caret_at y (caret_at x c) = caret_at y c"
  "cu_lo (moved k c) = cu_lo c + k" "cu_hi (moved k c) = cu_hi c + k" "moved j (moved k c) = moved (k + j) c" "moved 0 c = c"
  "moved k (caret_at x c) = caret_at (x + k) c"
  by (simp_all add: caret_at_def moved_def cu_lo_def cu_hi_def add.assoc)

lemma shift_cursor_simps:
  "cu_hi c \<le> pos \<Longrightarrow> shift_cursor pos r a c = c"
  "pos \<le> cu_lo c \<Longrightarrow> cu_hi c \<le> pos + r \<Longrightarrow> shift_cursor pos r 0 c = caret_at pos c"
  "0 \<le> r \<Longrightarrow> pos + r < cu_lo c \<Longrightarrow> shift_cursor pos r a c = moved (a - r) c"
  using head_in[of c] by (auto simp: shift_cursor_def shiftOffset_def caret_at_def moved_def cu_lo_def cu_hi_def)

lemma bump_cursor_simps:
  "cu_hi c < pos \<Longrightarrow> bump_cursor pos n c = c" "pos < cu_lo c \<Longrightarrow> bump_cursor pos n c = c"
  "bump_cursor pos n (caret_at pos c) = caret_at (pos + n) c"
  by (auto simp: bump_cursor_def caret_at_def cu_lo_def cu_hi_def)

lemma caret_id: "cu_lo c = x \<Longrightarrow> cu_hi c = x \<Longrightarrow> caret_at x c = c"
  by (auto simp: caret_at_def cu_lo_def cu_hi_def max_def min_def split: if_splits)

lemma apart_around:
  "apart (cs @ c # ds) \<longleftrightarrow> apart cs \<and> apart ds \<and> (\<forall>b \<in> set cs. cu_hi b < cu_lo c) \<and> (\<forall>d \<in> set ds. cu_hi c < cu_lo d) \<and>
     (\<forall>b \<in> set cs. \<forall>d \<in> set ds. cu_hi b < cu_lo d)"
  by (auto simp: apart_def sorted_wrt_append)

lemma apart_moved: "apart (map (moved k) ds) = apart ds"
  by (simp add: apart_def sorted_wrt_map)

text \<open>The cursors around the place of an edit: those before it, the one in the edited range, those after it.\<close>

definition around :: "Cursor list \<Rightarrow> int \<Rightarrow> int \<Rightarrow> Cursor list \<Rightarrow> bool" where
  "around cs pos stop ds \<longleftrightarrow> apart cs \<and> apart ds \<and> (\<forall>b \<in> set cs. cu_hi b < pos) \<and> (\<forall>d \<in> set ds. stop < cu_lo d)"

lemma around_apart: "around cs pos stop ds \<Longrightarrow> pos \<le> cu_lo c \<Longrightarrow> cu_hi c \<le> stop \<Longrightarrow> apart (cs @ c # ds)"
  using cu_lo_hi[of c] by (fastforce simp: around_def apart_around)

lemma cut_out_at:
  assumes "settled p" "csList (pnCursors p) = cs @ c # ds" "around cs pos (pos + n) ds" "pos \<le> cu_lo c" "cu_hi c \<le> pos + n" "0 \<le> n"
  shows "cut_out p pos n =
    with_cursors (p\<lparr>pnFile := snd (fl_Delete (pnFile p) (pnAuthor p) pos n)\<rparr>) (cs @ caret_at pos c # map (moved (- n)) ds)"
proof -
  let ?q = "p\<lparr>pnFile := snd (fl_Delete (pnFile p) (pnAuthor p) pos n)\<rparr>" and ?l = "cs @ caret_at pos c # map (moved (- n)) ds"
  have "map (shift_cursor pos n 0) cs = cs"
    using assms(3) by (intro map_idI shift_cursor_simps(1)) (fastforce simp: around_def)
  moreover have "map (shift_cursor pos n 0) ds = map (moved (- n)) ds"
    using assms(3,6) shift_cursor_simps(3)[of n pos] by (intro map_cong) (auto simp: around_def)
  ultimately have m: "map (shift_cursor pos n 0) (csList (pnCursors ?q)) = ?l"
    using assms(2) shift_cursor_simps(2)[OF assms(4,5)] by simp
  have "apart ?l" using assms(3) by (intro around_apart[of _ pos pos]) (fastforce simp: around_def apart_moved)+
  then show ?thesis using pn_Shift_with[of ?q pos n 0] assms(1) m by (simp add: cut_out_def)
qed

lemma put_in_at:
  assumes "settled p" "csList (pnCursors p) = cs @ caret_at pos c # ds" "around cs pos pos ds"
  shows "put_in p pos t =
    with_cursors (p\<lparr>pnFile := snd (fl_Insert (pnFile p) (pnAuthor p) pos t)\<rparr>)
      (cs @ caret_at (pos + int (length t)) c # map (moved (int (length t))) ds)"
proof -
  let ?q = "p\<lparr>pnFile := snd (fl_Insert (pnFile p) (pnAuthor p) pos t)\<rparr>" and ?n = "int (length t)"
  let ?l = "cs @ caret_at pos c # map (moved ?n) ds"
  have "map (shift_cursor pos 0 ?n) cs = cs"
    using assms(3) by (intro map_idI shift_cursor_simps(1)) (fastforce simp: around_def)
  moreover have "map (shift_cursor pos 0 ?n) ds = map (moved ?n) ds"
    using assms(3) shift_cursor_simps(3)[of 0 pos] by (intro map_cong) (auto simp: around_def)
  moreover have "shift_cursor pos 0 ?n (caret_at pos c) = caret_at pos c" by (rule shift_cursor_simps(1)) simp
  ultimately have m: "map (shift_cursor pos 0 ?n) (csList (pnCursors ?q)) = ?l" using assms(2) by simp
  have a: "around cs pos pos (map (moved ?n) ds)" using assms(3) by (fastforce simp: around_def apart_moved)
  have "apart ?l" by (rule around_apart[OF a]) simp_all
  then have s: "pn_Shift ?q pos 0 ?n = with_cursors ?q ?l" using pn_Shift_with[of ?q pos 0 ?n] assms(1) m by simp
  have "map (bump_cursor pos ?n) cs = cs" "map (bump_cursor pos ?n) (map (moved ?n) ds) = map (moved ?n) ds"
    using a bump_cursor_simps(1,2) by (auto intro!: map_idI simp: around_def)
  then show ?thesis by (simp add: put_in_def s bump_with bump_cursor_simps del: map_map)
qed

text \<open>One edit, its cursor inside the range it replaces.\<close>

lemma applyEdit_at:
  assumes "free_file (pnFile p)" "settled p" "csList (pnCursors p) = cs @ c # ds" "around cs pos (pos + n) ds"
    "pos \<le> cu_lo c" "cu_hi c \<le> pos + n" "0 \<le> pos" "0 \<le> n" "pos + n \<le> fl_Len (pnFile p)"
    "room (flSess (pnFile p)) (pnAuthor p) (t @ u)"
  shows "\<exists>f. applyEdit p pos n t =
      with_cursors (p\<lparr>pnFile := f\<rparr>) (cs @ caret_at (pos + int (length t)) c # map (moved (int (length t) - n)) ds) \<and>
    free_file f \<and> fl_Text f = put_at pos t (cut_range pos n (fl_Text (pnFile p))) \<and> room (flSess f) (pnAuthor p) u"
proof -
  let ?a = "pnAuthor p" and ?p = "if 0 < n then cut_out p pos n else p"
  let ?l = "cs @ caret_at pos c # map (moved (- n)) ds"
  have "\<exists>f. ?p = with_cursors (p\<lparr>pnFile := f\<rparr>) ?l \<and> free_file f \<and> fl_Text f = cut_range pos n (fl_Text (pnFile p)) \<and>
      room (flSess f) ?a (t @ u)"
  proof (cases "0 < n")
    case True
    note F = cut_file[OF assms(1,7) True assms(9), of ?a]
    show ?thesis using cut_out_at[OF assms(2-6,8)] F assms(10) True by (intro exI[of _ "snd (fl_Delete (pnFile p) ?a pos n)"]) simp
  next
    case False
    then have n: "n = 0" using assms(8) by simp
    then have "cu_lo c = pos" "cu_hi c = pos" using assms(5,6) cu_lo_hi[of c] by simp_all
    then have "?l = csList (pnCursors p)" using n assms(3) by (simp add: caret_id map_idI)
    then show ?thesis using n assms(1,10) by (intro exI[of _ "pnFile p"]) (simp add: with_cursors_def cut_range_def)
  qed
  then obtain f where f: "?p = with_cursors (p\<lparr>pnFile := f\<rparr>) ?l" "free_file f"
    "fl_Text f = cut_range pos n (fl_Text (pnFile p))" "room (flSess f) ?a (t @ u)" by blast
  have e: "applyEdit p pos n t = (if t \<noteq> [] then put_in ?p pos t else ?p)"
    using free_not_leased[OF assms(1)] by (simp add: applyEdit_def fl_EditLeased_def)
  show ?thesis
  proof (cases "t = []")
    case True
    then show ?thesis using e f by (intro exI[of _ f]) (simp add: put_at_def)
  next
    case False
    have s: "settled ?p" unfolding f(1) using assms(2,3) by (intro settled_with) simp_all
    have "around cs pos pos (map (moved (- n)) ds)" using assms(4) by (fastforce simp: around_def apart_moved)
    note P = put_in_at[of ?p cs pos c, OF s _ this, unfolded f(1)]
    have "pos \<le> fl_Len f" using f(3) free_len[OF f(2)] free_len[OF assms(1)] assms(7-9) by (simp add: cut_range_def)
    note F = put_file[OF f(2) assms(7) this False f(4)]
    show ?thesis using e P[of t] F f(1,3) False
      by (intro exI[of _ "snd (fl_Insert f ?a pos t)"]) (simp add: with_cursors_def o_def)
  qed
qed

section \<open>Every edit\<close>

text \<open>An edit at every cursor: the place, the bytes removed and the text put there; the ranges are apart and inside the text,
  each around its own cursor.\<close>

type_synonym placed = "(Cursor \<times> int \<times> int \<times> byte list) list"

definition placed_ok :: "int \<Rightarrow> placed \<Rightarrow> bool" where
  "placed_ok len es \<longleftrightarrow> sorted_wrt (\<lambda>(_, p, n, _) (_, q, _, _). p + n < q) es \<and>
     (\<forall>(c, p, n, _) \<in> set es. 0 \<le> p \<and> 0 \<le> n \<and> p \<le> cu_lo c \<and> cu_hi c \<le> p + n \<and> p + n \<le> len)"

text \<open>The text with every range replaced at once, and the carets behind what was put there.\<close>

fun replaced :: "int \<Rightarrow> placed \<Rightarrow> byte list \<Rightarrow> byte list" where
  "replaced at [] tx = drop (nat at) tx"
| "replaced at ((_, p, n, t) # es) tx = sub_range at (p - at) tx @ t @ replaced (p + n) es tx"

fun carets :: "int \<Rightarrow> placed \<Rightarrow> Cursor list" where
  "carets d [] = []"
| "carets d ((c, p, n, t) # es) = caret_at (p + d + int (length t)) c # carets (d + int (length t) - n) es"

fun gained :: "placed \<Rightarrow> int" where
  "gained [] = 0"
| "gained ((_, _, n, t) # es) = int (length t) - n + gained es"

lemma gained_append [simp]: "gained (es @ fs) = gained es + gained fs"
  by (induction es rule: gained.induct) simp_all

lemma carets_append: "carets d (es @ fs) = carets d es @ carets (d + gained es) fs"
  by (induction d es rule: carets.induct) (simp_all add: algebra_simps)

lemma put_cut_take:
  assumes "0 \<le> p" "0 \<le> n" "p + n \<le> int (length tx)"
  shows "put_at p t (cut_range p n tx) = take (nat p) tx @ t @ drop (nat (p + n)) tx"
proof -
  have "nat p \<le> length tx" "nat (p + n) = nat p + nat n" using assms by (simp_all add: nat_add_distrib)
  then show ?thesis by (simp add: put_at_def cut_range_def)
qed

lemma sub_range_take: "0 \<le> at \<Longrightarrow> at \<le> p \<Longrightarrow> sub_range at (p - at) xs = drop (nat at) (take (nat p) xs)"
  by (simp add: sub_range_def take_drop nat_diff_distrib)

lemma replaced_last:
  "0 \<le> at \<Longrightarrow> at \<le> p \<Longrightarrow> \<forall>(_, q, m, _) \<in> set es. 0 \<le> m \<and> q + m \<le> p \<Longrightarrow> sorted_wrt (\<lambda>(_, p, n, _) (_, q, _, _). p + n \<le> q) es \<Longrightarrow>
   (case es of [] \<Rightarrow> True | (_, q, _, _) # _ \<Rightarrow> at \<le> q) \<Longrightarrow> 0 \<le> n \<Longrightarrow> p + n \<le> int (length tx) \<Longrightarrow>
   replaced at (es @ [(c, p, n, t)]) tx = replaced at es (take (nat p) tx @ t @ drop (nat (p + n)) tx)"
proof (induction at es tx rule: replaced.induct)
  case (1 at tx)
  then have "nat at \<le> length (take (nat p) tx)" by simp
  then show ?case using sub_range_take[OF 1(1,2), of tx] by simp
next
  case (2 at d q m u es tx)
  let ?tx = "take (nat p) tx @ t @ drop (nat (p + n)) tx"
  have q: "at \<le> q" "0 \<le> m" "q + m \<le> p" using 2 by auto
  have "replaced (q + m) (es @ [(c, p, n, t)]) tx = replaced (q + m) es ?tx"
  proof (rule "2.IH")
    show "case es of [] \<Rightarrow> True | (_, r, _, _) # _ \<Rightarrow> q + m \<le> r" using "2.prems"(4) by (cases es) auto
  qed (use "2.prems" q in auto)
  moreover have "sub_range at (q - at) ?tx = sub_range at (q - at) tx"
  proof -
    have "nat q \<le> length (take (nat p) tx)" "nat q \<le> nat p" using "2.prems"(2,6,7) q by auto
    then have "take (nat q) ?tx = take (nat q) tx" by (simp add: min_def)
    then show ?thesis unfolding sub_range_take[OF "2.prems"(1) q(1)] by (rule arg_cong)
  qed
  ultimately show ?case by simp
qed

lemma placed_apart:
  assumes "placed_ok len es"
  shows "apart (map fst es)"
proof -
  have "sorted_wrt (\<lambda>e f. cu_hi (fst e) < cu_lo (fst f)) es"
  proof (rule sorted_wrt_mono_rel[of es "\<lambda>(_, p, n, _) (_, q, _, _). p + n < q"])
    fix e f assume m: "e \<in> set es" "f \<in> set es" and l: "(case e of (_, p, n, _) \<Rightarrow> \<lambda>(_, q, _, _). p + n < q) f"
    obtain c p n t d q k u where e: "e = (c, p, n, t)" "f = (d, q, k, u)" by (cases e, cases f) blast
    have "cu_hi c \<le> p + n" "q \<le> cu_lo d" using m assms unfolding e placed_ok_def by fastforce+
    then show "cu_hi (fst e) < cu_lo (fst f)" using l unfolding e by simp
  qed (use assms in \<open>simp add: placed_ok_def\<close>)
  then show ?thesis by (simp add: apart_def sorted_wrt_map)
qed

definition run_edits :: "Pane \<Rightarrow> placed \<Rightarrow> Pane" where
  "run_edits p es = foldl (\<lambda>p (_, q, n, t). applyEdit p q n t) p (filter (\<lambda>(_, _, n, t). \<not> (n = 0 \<and> t = [])) (rev es))"

definition all_put :: "placed \<Rightarrow> byte list" where
  "all_put es = concat (map (\<lambda>(_, _, _, t). t) (rev es))"

lemma run_edits_at:
  "placed_ok (fl_Len (pnFile p)) es \<Longrightarrow> free_file (pnFile p) \<Longrightarrow> settled p \<Longrightarrow> csList (pnCursors p) = map fst es @ ds \<Longrightarrow>
   apart ds \<Longrightarrow> (\<forall>(_, q, n, _) \<in> set es. \<forall>d \<in> set ds. q + n < cu_lo d) \<Longrightarrow>
   room (flSess (pnFile p)) (pnAuthor p) (all_put es) \<Longrightarrow>
   \<exists>f. run_edits p es = with_cursors (p\<lparr>pnFile := f\<rparr>) (carets 0 es @ map (moved (gained es)) ds) \<and>
     free_file f \<and> fl_Text f = replaced 0 es (fl_Text (pnFile p))"
proof (induction es arbitrary: p ds rule: rev_induct)
  case Nil
  then show ?case by (intro exI[of _ "pnFile p"]) (simp add: run_edits_def with_cursors_def map_idI)
next
  case (snoc e es)
  obtain c q n t where e: "e = (c, q, n, t)" by (cases e) blast
  have ok: "placed_ok (fl_Len (pnFile p)) es" "0 \<le> q" "0 \<le> n" "q \<le> cu_lo c" "cu_hi c \<le> q + n" "q + n \<le> fl_Len (pnFile p)"
    "\<forall>(_, p, n, _) \<in> set es. p + n < q"
    using snoc.prems(1) by (auto simp: placed_ok_def e sorted_wrt_append)
  have lo: "\<forall>b \<in> set (map fst es). cu_hi b < q" using ok(1,7) by (fastforce simp: placed_ok_def)
  have "apart (map fst es)"
    by (rule placed_apart[OF ok(1)])
  then have ar: "around (map fst es) q (q + n) ds" using lo snoc.prems(5,6) by (simp add: around_def e)
  have r: "room (flSess (pnFile p)) (pnAuthor p) (t @ all_put es)" using snoc.prems(7) by (simp add: all_put_def e)
  from applyEdit_at[OF snoc.prems(2,3) _ ar ok(4,5,2,3,6) r] snoc.prems(4) obtain f where f:
    "applyEdit p q n t = with_cursors (p\<lparr>pnFile := f\<rparr>) (map fst es @ caret_at (q + int (length t)) c # map (moved (int (length t) - n)) ds)"
    "free_file f" "fl_Text f = put_at q t (cut_range q n (fl_Text (pnFile p)))" "room (flSess f) (pnAuthor p) (all_put es)"
    by (auto simp: e)
  let ?p = "applyEdit p q n t" and ?ds = "caret_at (q + int (length t)) c # map (moved (int (length t) - n)) ds"
  have len: "fl_Len (pnFile p) = int (length (fl_Text (pnFile p)))" by (rule free_len[OF snoc.prems(2)])
  have "q \<le> fl_Len f" using f(3) free_len[OF f(2)] ok(2,3,6) len by (simp add: put_at_def cut_range_def)
  then have "placed_ok (fl_Len f) es" using ok(1,7) by (fastforce simp: placed_ok_def)
  moreover have "settled ?p" unfolding f(1) using snoc.prems(3,4) by (intro settled_with) (simp_all add: e)
  moreover have "apart ?ds" using snoc.prems(5,6) ok(3) by (fastforce simp: apart_def sorted_wrt_map e)
  moreover have "\<forall>(_, q, n, _) \<in> set es. \<forall>d \<in> set ?ds. q + n < cu_lo d" using ok(7,3) snoc.prems(6) by (fastforce simp: e)
  ultimately obtain g where g: "run_edits ?p es = with_cursors (?p\<lparr>pnFile := g\<rparr>) (carets 0 es @ map (moved (gained es)) ?ds)"
    "free_file g" "fl_Text g = replaced 0 es (fl_Text f)"
    using snoc.IH[of ?p ?ds] f by (auto simp: with_cursors_def)
  have "applyEdit p q 0 [] = p" using free_not_leased[OF snoc.prems(2)] by (simp add: applyEdit_def fl_EditLeased_def)
  then have "run_edits p (es @ [e]) = run_edits ?p es" by (auto simp: run_edits_def e)
  moreover have "carets 0 es @ map (moved (gained es)) ?ds = carets 0 (es @ [e]) @ map (moved (gained (es @ [e]))) ds"
    by (simp add: carets_append e algebra_simps o_def)
  moreover have "replaced 0 (es @ [e]) (fl_Text (pnFile p)) = replaced 0 es (fl_Text f)"
  proof -
    have "case es of [] \<Rightarrow> True | (_, r, _, _) # _ \<Rightarrow> 0 \<le> r" using ok(1) by (cases es) (auto simp: placed_ok_def)
    moreover have "\<forall>(_, r, m, _) \<in> set es. 0 \<le> m \<and> r + m \<le> q" using ok(1,7) by (fastforce simp: placed_ok_def)
    moreover have "sorted_wrt (\<lambda>(_, p, n, _) (_, q, _, _). p + n \<le> q) es"
      using ok(1) unfolding placed_ok_def by (elim conjE sorted_wrt_mono_rel[rotated]) auto
    ultimately show ?thesis
      unfolding e f(3) put_cut_take[OF ok(2,3) ok(6)[unfolded len]] using ok(2,3,6) len by (intro replaced_last) auto
  qed
  ultimately show ?case using g f(1) by (intro exI[of _ g]) (simp add: with_cursors_def)
qed

end
