(* ===== verification/PaneType.thy ===== *)
theory PaneType
  imports PaneEdit
begin

text \<open>
  Typing a character (\<open>internal/editor/autopair.go\<close>), the indentation of the line it opens or closes (\<open>indent.go\<close>) and the
  bracket a bracket belongs to (\<open>brackets.go\<close>). Which bytes of a line are code, as the highlighter has it so far, is the
  argument \<open>code\<close> (\<open>code line i\<close>), which is everywhere true while the highlighter is not ready.
\<close>

section \<open>Pairs\<close>

definition pairs :: "byte \<Rightarrow> byte option" where
  "pairs b = (if b = 40 then Some 41 else if b = 91 then Some 93 else if b = 123 then Some 125 else None)"

definition closers :: "byte \<Rightarrow> byte option" where
  "closers b = (if b = 41 then Some 40 else if b = 93 then Some 91 else if b = 125 then Some 123 else None)"

definition quotes :: "byte \<Rightarrow> bool" where "quotes b \<longleftrightarrow> b = 34 \<or> b = 39 \<or> b = 96"

definition isOpener :: "byte \<Rightarrow> bool" where "isOpener b \<longleftrightarrow> pairs b \<noteq> None"
definition isCloser :: "byte \<Rightarrow> bool" where "isCloser b \<longleftrightarrow> closers b \<noteq> None"

definition isWordByte :: "byte \<Rightarrow> bool" where
  "isWordByte b \<longleftrightarrow> b = 95 \<or> (48 \<le> b \<and> b \<le> 57) \<or> (97 \<le> b \<and> b \<le> 122) \<or> (65 \<le> b \<and> b \<le> 90) \<or> 0x80 \<le> b"

definition byteAt :: "File \<Rightarrow> int \<Rightarrow> byte" where
  "byteAt f off =
     (if off < 0 \<or> fl_Len f \<le> off then 0 else case fl_Slice f off 1 of [] \<Rightarrow> 0 | b # _ \<Rightarrow> b)"

definition byteBefore :: "File \<Rightarrow> int \<Rightarrow> byte" where
  "byteBefore f off = (if off \<le> 0 then 0 else byteAt f (off - 1))"

section \<open>The partner of a bracket\<close>

definition bracketScanLines :: nat where "bracketScanLines = 500"
definition bracketScanBytes :: int where "bracketScanBytes = 256 * 1024"

text \<open>The brackets of one line against the stack of those still open: found, crossed, or the stack left.\<close>

datatype scan_end = FoundAt int | Crossed | StillOpen "byte list"

fun scan_line :: "(int \<Rightarrow> bool) \<Rightarrow> (byte \<Rightarrow> byte option) \<Rightarrow> (byte \<Rightarrow> byte option) \<Rightarrow> byte list \<Rightarrow> int list \<Rightarrow> byte list \<Rightarrow> scan_end" where
  "scan_line code opens shuts text [] stack = StillOpen stack"
| "scan_line code opens shuts text (i # is) stack =
     (let c = text ! nat i in
      if (opens c = None \<and> shuts c = None) \<or> \<not> code i then scan_line code opens shuts text is stack
      else if opens c \<noteq> None then scan_line code opens shuts text is (c # stack)
      else if opens (hd stack) \<noteq> Some c then Crossed
      else if tl stack = [] then FoundAt i
      else scan_line code opens shuts text is (tl stack))"

fun scan_lines :: "(int \<Rightarrow> int \<Rightarrow> bool) \<Rightarrow> File \<Rightarrow> int \<Rightarrow> bool \<Rightarrow> nat \<Rightarrow> int \<Rightarrow> int \<Rightarrow> byte list \<Rightarrow> int option" where
  "scan_lines code f at up 0 line budget stack = None"
| "scan_lines code f at up (Suc k) line budget stack =
     (if line < 0 \<or> fl_Lines f \<le> line \<or> budget \<le> 0 then None
      else let text = fl_Line f line; start = fl_LineStart f line; n = int (length text);
               (lo, hi) = (if line \<noteq> fl_LineOf f at then (0, n) else if up then (at + 1 - start, n) else (0, at - start));
               lo = (if lo < 0 then 0 else lo); hi = (if n < hi then n else hi);
               (lo, hi) = (if hi - lo \<le> budget then (lo, hi) else if up then (lo, lo + budget) else (hi - budget, hi));
               is = (if up then [lo..hi - 1] else rev [lo..hi - 1]);
               (opens, shuts) = (if up then (pairs, closers) else (closers, pairs))
           in case scan_line (code line) opens shuts text is stack of
                FoundAt i \<Rightarrow> Some (start + i)
              | Crossed \<Rightarrow> None
              | StillOpen stack \<Rightarrow> scan_lines code f at up k (if up then line + 1 else line - 1) (budget - (hi - lo)) stack)"

definition scanFrom :: "(int \<Rightarrow> int \<Rightarrow> bool) \<Rightarrow> File \<Rightarrow> int \<Rightarrow> byte \<Rightarrow> int option" where
  "scanFrom code f at ch = scan_lines code f at (pairs ch \<noteq> None) bracketScanLines (fl_LineOf f at) bracketScanBytes [ch]"

definition classAt :: "(int \<Rightarrow> int \<Rightarrow> bool) \<Rightarrow> File \<Rightarrow> int \<Rightarrow> bool" where
  "classAt code f off = (let line = fl_LineOf f off in code line (off - fl_LineStart f line))"

fun match_at :: "(int \<Rightarrow> int \<Rightarrow> bool) \<Rightarrow> File \<Rightarrow> int list \<Rightarrow> (int \<times> int) option" where
  "match_at code f [] = None"
| "match_at code f (at # ats) =
     (let ch = byteAt f at in
      if at < 0 \<or> fl_Len f \<le> at \<or> (\<not> isOpener ch \<and> \<not> isCloser ch) \<or> \<not> classAt code f at then match_at code f ats
      else map_option (\<lambda>m. (at, m)) (scanFrom code f at ch))"

definition MatchBracket :: "(int \<Rightarrow> int \<Rightarrow> bool) \<Rightarrow> Pane \<Rightarrow> (int \<times> int) option" where
  "MatchBracket code p =
     (let c = primary p
      in if 1 < length (csList (pnCursors p)) \<or> HasSelection c then None
         else match_at code (pnFile p) [cuHead c, cuHead c - 1])"

definition bracketMarks :: "(int \<Rightarrow> int \<Rightarrow> bool) \<Rightarrow> Pane \<Rightarrow> int set" where
  "bracketMarks code p = (case MatchBracket code p of None \<Rightarrow> {} | Some (here, partner) \<Rightarrow> {here, partner})"

section \<open>Indentation\<close>

definition lineIndent :: "File \<Rightarrow> int \<Rightarrow> byte list" where
  "lineIndent f off = takeWhile is_blank (fl_Line f (fl_LineOf f off))"

definition depth_step :: "(int \<Rightarrow> bool) \<Rightarrow> byte list \<Rightarrow> int \<Rightarrow> int \<Rightarrow> int" where
  "depth_step code text depth i =
     (let c = text ! nat i in
      if (\<not> isOpener c \<and> \<not> isCloser c) \<or> \<not> code i then depth
      else if isOpener c then depth + 1 else if 0 < depth then depth - 1 else depth)"

definition openDepth :: "(int \<Rightarrow> int \<Rightarrow> bool) \<Rightarrow> File \<Rightarrow> int \<Rightarrow> int" where
  "openDepth code f off =
     (let line = fl_LineOf f off; text = fl_Line f line; stop = off - fl_LineStart f line;
          stop = (if int (length text) < stop then int (length text) else stop)
      in foldl (depth_step (code line) text) 0 [0..stop - 1])"

definition reindentCloser :: "(int \<Rightarrow> int \<Rightarrow> bool) \<Rightarrow> Pane \<Rightarrow> Pane" where
  "reindentCloser code p =
     (if length (csList (pnCursors p)) \<noteq> 1 then p
      else let head = cuHead (primary p); at = head - 1; f = pnFile p; p = touch_primary p in
        if at < 0 \<or> \<not> isCloser (byteAt f at) then p
        else let line = fl_LineOf f at; start = fl_LineStart f line; before = take (nat (at - start)) (fl_Line f line)
             in if \<not> blank_line before then p
                else case scanFrom code f at (byteAt f at) of
                  None \<Rightarrow> p
                | Some partner \<Rightarrow>
                    let want = lineIndent f partner in
                    if want = before then p
                    else let p = in_change (\<lambda>p. applyEdit p start (int (length before)) want) p;
                             moved = start + int (length want) + (head - start - int (length before))
                         in FollowCursor (pn_Set p moved moved))"

text \<open>The cursors at an offset, moved to another.\<close>

definition recall_at :: "Pane \<Rightarrow> int \<Rightarrow> int \<Rightarrow> Pane" where
  "recall_at p at to = pn_map (\<lambda>c. if cuHead c = at then c\<lparr>cuHead := to, cuAnchor := to\<rparr> else c) p"

fun newline_loop :: "(int \<Rightarrow> int \<Rightarrow> bool) \<Rightarrow> byte list \<Rightarrow> nat \<Rightarrow> Pane \<Rightarrow> Pane" where
  "newline_loop code unit 0 p = p"
| "newline_loop code unit (Suc i) p =
     (let (lo, hi) = cu_Range (captured p i); f = pnFile p; indent = lineIndent f lo
      in if lo = hi \<and> isOpener (byteBefore f lo) \<and> isCloser (byteAt f lo)
         then let t = [10] @ indent @ unit @ [10] @ indent; want = lo + 1 + int (length indent) + int (length unit)
              in newline_loop code unit i (recall_at (applyEdit p lo 0 t) (lo + int (length t)) want)
         else let indent = (if lo = hi \<and> 0 < openDepth code f lo then indent @ unit else indent)
              in newline_loop code unit i (applyEdit p lo (hi - lo) ([10] @ indent)))"

definition insertNewline :: "(int \<Rightarrow> int \<Rightarrow> bool) \<Rightarrow> Pane \<Rightarrow> Pane" where
  "insertNewline code p =
     in_change (\<lambda>p. settle (newline_loop code (Unit (flIndent (pnFile p))) (length (csList (pnCursors p))) p)) p"

section \<open>Pairs as they are typed\<close>

definition typeOver :: "Pane \<Rightarrow> byte \<Rightarrow> Pane option" where
  "typeOver p b =
     (if \<exists>c \<in> set (csList (pnCursors p)). HasSelection c \<or> byteAt (pnFile p) (cuHead c) \<noteq> b then None
      else Some (FollowCursor (pn_map (\<lambda>c. c\<lparr>cuHead := cuHead c + 1, cuAnchor := cuHead c + 1\<rparr>) p)))"

definition shouldClosePair :: "Pane \<Rightarrow> bool" where
  "shouldClosePair p \<longleftrightarrow>
     (\<forall>c \<in> set (csList (pnCursors p)). HasSelection c \<or> \<not> isWordByte (byteAt (pnFile p) (cuHead c)))"

definition shouldCloseQuote :: "Pane \<Rightarrow> byte \<Rightarrow> bool" where
  "shouldCloseQuote p b \<longleftrightarrow>
     (\<forall>c \<in> set (csList (pnCursors p)). HasSelection c \<or>
        \<not> isWordByte (byteAt (pnFile p) (cuHead c)) \<and> \<not> isWordByte (byteBefore (pnFile p) (cuHead c)) \<and>
        byteBefore (pnFile p) (cuHead c) \<noteq> b)"

fun surround_loop :: "byte \<Rightarrow> byte \<Rightarrow> nat \<Rightarrow> Pane \<Rightarrow> Pane" where
  "surround_loop op cl 0 p = p"
| "surround_loop op cl (Suc i) p =
     (let (lo, hi) = cu_Range (captured p i)
      in surround_loop op cl i
           (if lo < hi then applyEdit (applyEdit p hi 0 [cl]) lo 0 [op]
            else recall_at (applyEdit p lo 0 [op, cl]) (lo + 2) (lo + 1)))"

definition surround :: "Pane \<Rightarrow> byte \<Rightarrow> byte \<Rightarrow> Pane" where
  "surround p op cl =
     in_change (\<lambda>p. FollowCursor (pn_normalize (surround_loop op cl (length (csList (pnCursors p))) p))) p"

definition InsertRune :: "(int \<Rightarrow> int \<Rightarrow> bool) \<Rightarrow> Pane \<Rightarrow> byte list \<Rightarrow> Pane" where
  "InsertRune code p t =
     (case t of
        [b] \<Rightarrow>
          if b = 10 then insertNewline code p
          else case (if isCloser b \<and> pnAutoPairs p then typeOver p b else None) of Some q \<Rightarrow> q
          | None \<Rightarrow>
          case (if quotes b \<and> pnAutoPairs p then typeOver p b else None) of Some q \<Rightarrow> q
          | None \<Rightarrow>
          if pnAutoPairs p \<and> isOpener b \<and> shouldClosePair p then surround p b (the (pairs b))
          else if pnAutoPairs p \<and> quotes b \<and> shouldCloseQuote p b then surround p b b
          else let p = InsertText p t in if isCloser b then reindentCloser code p else p
      | _ \<Rightarrow> InsertText p t)"

definition HandleText :: "(int \<Rightarrow> int \<Rightarrow> bool) \<Rightarrow> Pane \<Rightarrow> byte list \<Rightarrow> Pane" where
  "HandleText code p t = (if t = [] then p else FollowCursor (in_change (\<lambda>p. InsertRune code p t) p))"

section \<open>Backspace\<close>

fun pair_loop :: "nat \<Rightarrow> Pane \<Rightarrow> Pane" where
  "pair_loop 0 p = p"
| "pair_loop (Suc i) p = pair_loop i (applyEdit p (cuHead (captured p i) - 1) 2 [])"

definition in_pair :: "File \<Rightarrow> Cursor \<Rightarrow> bool" where
  "in_pair f c \<longleftrightarrow>
     (let before = byteBefore f (cuHead c); after = byteAt f (cuHead c)
      in \<not> HasSelection c \<and> (pairs before = Some after \<or> (quotes before \<and> before = after)))"

definition deletePair :: "Pane \<Rightarrow> Pane option" where
  "deletePair p =
     (if pnAutoPairs p \<and> list_all (in_pair (pnFile p)) (csList (pnCursors p))
      then Some (in_change (\<lambda>p. FollowCursor (pn_normalize (pair_loop (length (csList (pnCursors p))) p))) p)
      else None)"

definition DeleteBackward :: "Pane \<Rightarrow> Pane" where
  "DeleteBackward p = (case deletePair p of Some q \<Rightarrow> q | None \<Rightarrow> editEachCursor p (backward_range p))"

end
