(* ===== verification/PaneLines.thy ===== *)
theory PaneLines
  imports PaneEdit
begin

text \<open>
  Editing by lines (\<open>internal/editor/edit.go\<close>): moving and copying lines, the occurrences of a word, commenting. The classes
  of Go's \<open>unicode\<close> package are the argument \<open>letter\<close>.
\<close>

section \<open>Moving lines\<close>

definition swapLines :: "int \<Rightarrow> int \<Rightarrow> Pane \<Rightarrow> Pane" where
  "swapLines a b p =
     (let f = pnFile p
      in if a < 0 \<or> fl_Lines f \<le> b \<or> b \<le> a then p
         else let start = fl_LineStart f a
              in applyEdit p start (fl_LineEnd f b - start) (fl_Line f b @ [10] @ fl_Line f a))"

definition boundaryBlocksDown :: "Pane \<Rightarrow> int list \<Rightarrow> bool" where
  "boundaryBlocksDown p lines =
     (let below = last lines + 1; f = pnFile p
      in \<exists>c \<in> set (csList (pnCursors p)). let (lo, hi) = cu_Range c in fl_LineOf f lo < below \<and> hi = fl_LineStart f below)"

text \<open>The swaps of a move in the order made: each pair of neighbouring lines.\<close>

definition move_swaps :: "int \<Rightarrow> int list \<Rightarrow> (int \<times> int) list" where
  "move_swaps delta lines = (if 0 < delta then map (\<lambda>l. (l, l + 1)) (rev lines) else map (\<lambda>l. (l - 1, l)) lines)"

definition at_swap :: "int \<Rightarrow> int list \<Rightarrow> int \<times> int \<Rightarrow> int list" where
  "at_swap lo at = (\<lambda>(a, b). at[nat (a - lo) := at ! nat (b - lo), nat (b - lo) := at ! nat (a - lo)])"

definition moved_lines :: "int \<Rightarrow> int \<Rightarrow> (int \<times> int) list \<Rightarrow> int list" where
  "moved_lines lo hi swaps =
     (let at = foldl (at_swap lo) [lo..hi] swaps
      in foldl (\<lambda>m (k, old). m[nat (old - lo) := lo + int k]) (replicate (length at) 0) (enumerate 0 at))"

definition followLine :: "File \<Rightarrow> int list \<Rightarrow> int \<Rightarrow> int \<Rightarrow> int \<Rightarrow> int list \<Rightarrow> int \<times> int \<Rightarrow> int" where
  "followLine f moved lo hi delta lines = (\<lambda>(line, col).
     if delta < 0 \<and> line = last lines + 1 \<and> col = 0 then fl_LineStart f (last lines + delta + 1)
     else if line < lo \<or> hi < line then fl_OffsetAt f line col
     else fl_OffsetAt f (moved ! nat (line - lo)) col)"

definition MoveLines :: "Pane \<Rightarrow> int \<Rightarrow> Pane" where
  "MoveLines p delta =
     (let lines = touchedLines p; f = pnFile p in
      if lines = [] then p
      else if delta < 0 \<and> hd lines = 0 then p
      else if 0 < delta \<and> (fl_Lines f - 1 \<le> last lines \<or> boundaryBlocksDown p lines) then p
      else let marks = map (\<lambda>c. (fl_LineCol f (cuHead c), fl_LineCol f (cuAnchor c))) (csList (pnCursors p));
               swaps = move_swaps delta lines; p = fold (\<lambda>(a, b). swapLines a b) swaps p; f = pnFile p;
               lo = (if delta < 0 then hd lines - 1 else hd lines); hi = (if delta < 0 then last lines else last lines + 1);
               moved = moved_lines lo hi swaps;
               restored = map (\<lambda>(h, a). \<lparr>cuHead = followLine f moved lo hi delta lines h,
                 cuAnchor = followLine f moved lo hi delta lines a, cuGoal = snd h\<rparr>) marks
           in FollowCursor (pn_Replace p restored))"

definition CopyLines :: "Pane \<Rightarrow> int \<Rightarrow> Pane" where
  "CopyLines p delta =
     pn_normalize (foldl (\<lambda>p l. let f = pnFile p; t = fl_Line f l
       in if 0 < delta then applyEdit p (fl_LineEnd f l) 0 ([10] @ t) else applyEdit p (fl_LineStart f l) 0 (t @ [10]))
       p (rev (touchedLines p)))"

section \<open>Occurrences\<close>

definition word_byte :: "(nat \<Rightarrow> bool) \<Rightarrow> byte \<Rightarrow> bool" where
  "word_byte letter b \<longleftrightarrow> isWord letter (unat b)"

definition wordAt :: "(nat \<Rightarrow> bool) \<Rightarrow> Pane \<Rightarrow> int \<Rightarrow> byte list \<times> int \<times> int" where
  "wordAt letter p off =
     (let f = pnFile p; line = fl_LineOf f off; start = fl_LineStart f line; text = fl_Line f line;
          i = off - start; i = (if int (length text) < i then int (length text) else i); k = nat i;
          lo = i - int (length (takeWhile (word_byte letter) (rev (take k text))));
          hi = i + int (length (takeWhile (word_byte letter) (drop k text)))
      in (sub_range lo (hi - lo) text, start + lo, start + hi))"

text \<open>The term, whether it was selected now, and the pane after; \<open>None\<close> where there is none.\<close>

definition searchTerm :: "(nat \<Rightarrow> bool) \<Rightarrow> Pane \<Rightarrow> (byte list \<times> bool \<times> Pane) option" where
  "searchTerm letter p =
     (let c = primary p; p = touch_primary p
      in if HasSelection c then (let (lo, hi) = cu_Range c in Some (fl_Slice (pnFile p) lo (hi - lo), False, p))
         else case wordAt letter p (cuHead c) of (word, lo, hi) \<Rightarrow> if word = [] then None else Some (word, True, pn_Set p hi lo))"

definition indexFrom :: "byte list \<Rightarrow> byte list \<Rightarrow> nat \<Rightarrow> nat option" where
  "indexFrom t term from =
     (if length t \<le> from \<or> term = [] then None else map_option (\<lambda>i. from + i) (Index (drop from t) term))"

text \<open>The matches a loop over \<open>indexFrom\<close> visits: from an offset on, each from one past the last.\<close>

function occurrences :: "byte list \<Rightarrow> byte list \<Rightarrow> nat \<Rightarrow> nat list" where
  "occurrences t term from = (case indexFrom t term from of None \<Rightarrow> [] | Some i \<Rightarrow> i # occurrences t term (i + 1))"
  by pat_completeness auto
termination by (relation "measure (\<lambda>(t, term, from). length t - from)") (auto simp: indexFrom_def split: if_splits)

declare occurrences.simps [simp del]

definition AddNextOccurrence :: "(nat \<Rightarrow> bool) \<Rightarrow> Pane \<Rightarrow> Pane" where
  "AddNextOccurrence letter p =
     (case searchTerm letter p of
        None \<Rightarrow> touch_primary p
      | Some (term, selecting, p) \<Rightarrow>
          if selecting then p
          else let t = fl_Text (pnFile p); taken = map (\<lambda>c. fst (cu_Range c)) (csList (pnCursors p));
                   last = foldl max 0 taken
               in case find (\<lambda>i. int i \<notin> set taken) (occurrences t term (nat (last + 1)) @ occurrences t term 0) of
                    None \<Rightarrow> p
                  | Some i \<Rightarrow> FollowCursor (pn_Add p (int i + int (length term)) (int i)))"

definition SelectAllOccurrences :: "(nat \<Rightarrow> bool) \<Rightarrow> Pane \<Rightarrow> Pane" where
  "SelectAllOccurrences letter p =
     (case searchTerm letter p of
        None \<Rightarrow> touch_primary p
      | Some (term, _, p) \<Rightarrow>
          let n = int (length term) in
          case occurrences (fl_Text (pnFile p)) term 0 of
            [] \<Rightarrow> p
          | i # is \<Rightarrow> foldl (\<lambda>p i. pn_Add p (int i + n) (int i)) (pn_Set p (int i + n) (int i)) is)"

section \<open>Comments\<close>

definition ascii_bytes :: "string \<Rightarrow> byte list" where "ascii_bytes s = map (\<lambda>c. word_of_nat (of_char c)) s"

definition commentToken :: "string \<Rightarrow> string" where
  "commentToken path =
     (let ext = lower_path (path_ext path) in
      if ext \<in> {''.go'', ''.c'', ''.h'', ''.cpp'', ''.hpp'', ''.cc'', ''.java'', ''.js'', ''.jsx'', ''.ts'', ''.tsx'', ''.rs'',
         ''.swift'', ''.kt'', ''.scala'', ''.zig'', ''.dart'', ''.php'', ''.cs''} then ''//''
      else if ext \<in> {''.py'', ''.rb'', ''.sh'', ''.bash'', ''.zsh'', ''.fish'', ''.yaml'', ''.yml'', ''.toml'', ''.conf'',
         ''.cfg'', ''.ini'', ''.pl'', ''.r'', ''.jl'', ''.nix'', ''.tf'', ''.dockerfile''} then ''#''
      else if ext \<in> {''.lua'', ''.sql'', ''.hs'', ''.elm''} then ''--''
      else if ext = ''.vim'' then [char_of (34 :: nat)]
      else if ext \<in> {''.lisp'', ''.clj'', ''.el'', ''.scm''} then '';''
      else if path_base path = ''Makefile'' \<or> path_base path = ''Dockerfile'' then ''#''
      else [])"

text \<open>What one line says of the block: whether all are commented, and the least indentation.\<close>

definition comment_scan :: "byte list \<Rightarrow> bool \<times> int \<Rightarrow> byte list \<Rightarrow> bool \<times> int" where
  "comment_scan token acc text =
     (let (commented, indent) = acc; trimmed = trimLeadingSpace text; n = int (length text) - int (length trimmed)
      in if trimmed = [] then acc
         else (commented \<and> HasPrefix trimmed token, if indent < 0 \<or> n < indent then n else indent))"

definition comment_line :: "byte list \<Rightarrow> bool \<Rightarrow> int \<Rightarrow> Pane \<Rightarrow> int \<Rightarrow> Pane" where
  "comment_line token commented indent p l =
     (let text = fl_Line (pnFile p) l; start = fl_LineStart (pnFile p) l; trimmed = trimLeadingSpace text
      in if trimmed = [] then p
         else if commented
         then let n = int (length token); n = (if HasPrefix (drop (length token) trimmed) [32] then n + 1 else n)
              in applyEdit p (start + int (length text) - int (length trimmed)) n []
         else applyEdit p (start + indent) 0 (token @ [32]))"

definition ToggleComment :: "Pane \<Rightarrow> Pane" where
  "ToggleComment p =
     (let token = ascii_bytes (commentToken (flPath (pnFile p))); lines = touchedLines p
      in if token = [] \<or> lines = [] then p
         else let (commented, indent) = foldl (comment_scan token) (True, -1) (map (fl_Line (pnFile p)) lines);
                  indent = (if indent < 0 then 0 else indent)
              in pn_normalize (foldl (comment_line token commented indent) p (rev lines)))"

text \<open>
  The clipboard (\<open>internal/editor/clip.go\<close>): a copy carries its text and the pieces it came from, which paste back into the
  same document without storing anything. A clip names the document its pieces address by the address of the file and its
  generation; \<open>me\<close> is that pair for the pane's file.
\<close>

record Clip =
  cpText :: "byte list"
  cpSpans :: "PieceRec list list"
  cpSource :: "nat \<times> nat"

definition Empty :: "Clip \<Rightarrow> bool" where "Empty c \<longleftrightarrow> cpText c = [] \<and> cpSpans c = []"
definition Internal :: "Clip \<Rightarrow> bool" where "Internal c \<longleftrightarrow> cpSpans c \<noteq> []"
definition internalTo :: "Clip \<Rightarrow> nat \<times> nat \<Rightarrow> bool" where "internalTo c me \<longleftrightarrow> cpSpans c \<noteq> [] \<and> cpSource c = me"

section \<open>Copying\<close>

text \<open>What one cursor copies: the range of the text, and the end of the range of the pieces.\<close>

definition copy_range :: "File \<Rightarrow> bool \<Rightarrow> Cursor \<Rightarrow> int \<times> int \<times> int" where
  "copy_range f lineCopy c =
     (let (lo, hi) = cu_Range c
      in if hi \<noteq> lo then (lo, hi, hi)
         else let line = fl_LineOf f (cuHead c); lo = fl_LineStart f line; hi = fl_LineEnd f line
              in (lo, hi, if lineCopy \<and> hi < fl_Len f then hi + 1 else hi))"

definition Copy :: "nat \<times> nat \<Rightarrow> Pane \<Rightarrow> Clip" where
  "Copy me p =
     (let f = pnFile p; lineCopy = (cs_Count (pnCursors p) = 1 \<and> \<not> HasSelection (primary p));
          rs = map (copy_range f lineCopy) (csList (pnCursors p)); t = join_lines (map (\<lambda>(lo, hi, _). fl_Slice f lo (hi - lo)) rs)
      in \<lparr>cpText = (if lineCopy then t @ [10] else t), cpSpans = map (\<lambda>(lo, _, snap). fl_Snapshot f lo (snap - lo)) rs,
          cpSource = me\<rparr>)"

definition Cut :: "nat \<times> nat \<Rightarrow> Pane \<Rightarrow> Clip \<times> Pane" where
  "Cut me p =
     (let c = Copy me p
      in if Empty c then (c, p)
         else (c, in_change (\<lambda>p.
           if HasSelection (primary p) then editEachCursor p (replace_selection [])
           else let line = fl_LineOf (pnFile p) (cuHead (primary p)); p = DeleteLine p;
                    at = fl_LineStart (pnFile p) (clamp line 0 (fl_Lines (pnFile p) - 1))
                in pn_Set p at at) p))"

section \<open>Pasting\<close>

definition new_newline :: "Pane \<Rightarrow> PieceRec \<times> Pane" where
  "new_newline p = (let (nl, f) = NewlinePiece (pnFile p) (pnAuthor p) in (nl, p\<lparr>pnFile := f\<rparr>))"

fun flatten_rest :: "Pane \<Rightarrow> PieceRec list \<Rightarrow> PieceRec list list \<Rightarrow> PieceRec list \<times> Pane" where
  "flatten_rest p out [] = (out, p)"
| "flatten_rest p out (s # ss) = (let (nl, p) = new_newline p in flatten_rest p (out @ [nl] @ s) ss)"

definition flatten :: "Pane \<Rightarrow> PieceRec list list \<Rightarrow> PieceRec list \<times> Pane" where
  "flatten p spans = (case spans of [] \<Rightarrow> ([], p) | s # ss \<Rightarrow> flatten_rest p s ss)"

definition spliceAtPrimary :: "Pane \<Rightarrow> PieceRec list \<Rightarrow> Pane" where
  "spliceAtPrimary p recs =
     (let (lo, hi) = cu_Range (primary p); p = touch_primary p
      in case fl_EditLeased (pnFile p) lo (hi - lo) of
           Some g \<Rightarrow> noteLease p g
         | None \<Rightarrow>
             let p = (if lo < hi then p\<lparr>pnFile := snd (fl_Delete (pnFile p) (pnAuthor p) lo (hi - lo))\<rparr> else p);
                 p = p\<lparr>pnFile := snd (fl_InsertPieces (pnFile p) (pnAuthor p) lo recs)\<rparr>; at = lo + recsLen recs
             in FollowCursor (pn_Set p at at))"

definition distribute :: "Pane \<Rightarrow> PieceRec list list \<Rightarrow> Pane" where
  "distribute p spans =
     (let cs = csList (pnCursors p)
      in case leaseBlocks p (selection_edits cs (replicate (length cs) [])) of
           Some q \<Rightarrow> q
         | None \<Rightarrow> settle (each_captured (\<lambda>i p lo. put_pieces p lo (spans ! i) (recsLen (spans ! i))) (length cs) p))"

text \<open>A run that ends in the newline of its line, parted from it.\<close>

definition peel_newline :: "PieceRec list \<Rightarrow> PieceRec list \<times> PieceRec" where
  "peel_newline recs =
     (let l = last recs; rest = butlast recs @ (if Length l = 1 then [] else [l\<lparr>Length := Length l - 1\<rparr>])
      in (rest, piece (Buf l) (Start l + Length l - 1) 1))"

definition line_pieces :: "Clip \<Rightarrow> byte list \<Rightarrow> bool \<Rightarrow> bool \<Rightarrow> Pane \<Rightarrow> PieceRec list \<times> Pane" where
  "line_pieces c content blank ended p =
     (let (recs, p) = flatten p (cpSpans c); haveNL = (recsLen recs = int (length content) + 1);
          rest = (if haveNL then fst (peel_newline recs) else recs);
          (nl, q) = (if haveNL then (snd (peel_newline recs), p) else new_newline p)
      in if blank \<and> ended then (rest, p) else if blank then (rest @ [nl], q) else ([nl] @ rest, q))"

definition pasteLinewise :: "Clip \<Rightarrow> bool \<Rightarrow> Pane \<Rightarrow> Pane" where
  "pasteLinewise c internal p =
     (let cur = primary p; p = touch_primary p; f = pnFile p; ln = fl_LineOf f (cuHead cur); lineStart = fl_LineStart f ln;
          lineEnd = fl_LineEnd f ln; content = (if cpText c \<noteq> [] \<and> last (cpText c) = 10 then butlast (cpText c) else cpText c);
          indent = int (length content) - int (length (trimLeadingSpace content));
          blank = (lineEnd = lineStart \<and> cuHead cur = lineStart); ended = lineEnd < fl_Len f;
          at = (if blank then lineStart else lineEnd); pasted = (if blank then lineStart else lineEnd + 1)
      in case fl_EditLeased f at 0 of
           Some g \<Rightarrow> noteLease p g
         | None \<Rightarrow>
             let p = (if internal
                      then let (recs, p) = line_pieces c content blank ended p
                           in p\<lparr>pnFile := snd (fl_InsertPieces (pnFile p) (pnAuthor p) at recs)\<rparr>
                      else let t = (if blank \<and> ended then content else if blank then content @ [10] else [10] @ content)
                           in p\<lparr>pnFile := snd (fl_Insert f (pnAuthor p) at t)\<rparr>)
             in FollowCursor (pn_Set p (pasted + indent) (pasted + indent)))"

definition PasteClip :: "nat \<times> nat \<Rightarrow> Clip \<Rightarrow> Pane \<Rightarrow> Pane" where
  "PasteClip me c p =
     (if Empty c then p
      else in_change (\<lambda>p.
        let n = length (csList (pnCursors p)); internal = internalTo c me; lines = split_on 10 (cpText c) in
        if internal \<and> length (cpSpans c) = n \<and> 1 < n then distribute p (cpSpans c)
        else if n = 1 \<and> \<not> HasSelection (primary p) \<and> cpText c \<noteq> [] \<and> last (cpText c) = 10 \<and> (\<not> internal \<or> length (cpSpans c) = 1)
        then pasteLinewise c internal p
        else if internal \<and> n = 1 then (let (recs, p) = flatten p (cpSpans c) in spliceAtPrimary p recs)
        else if length lines = n \<and> 1 < n then PasteDistributed p lines
        else if 1 < n then PasteAtEachCursor p (cpText c)
        else Paste p (cpText c)) p)"

end
