(* ===== verification/PaneFind.thy ===== *)
theory PaneFind
  imports PaneLines InputField
begin

text \<open>
  The find bar of a pane (\<open>internal/editor/find.go\<close>): what it searches for, where the matches are, stepping through them and
  replacing them. \<open>strings.ToLower\<close>, which folds case by Go's \<open>unicode\<close> tables, is the argument \<open>lower\<close>. Drawing is left out.
\<close>

record FindBar =
  fbOpen :: bool
  fbInput :: Input
  fbReplace :: Input
  fbMatches :: "nat list"
  fbAt :: nat
  fbTerm :: "byte list"
  fbOnReplace :: bool
  fbReplaceShown :: bool

definition hasUpper :: "byte list \<Rightarrow> bool" where
  "hasUpper s \<longleftrightarrow> (\<exists>r \<in> set (runes s). 65 \<le> r \<and> r \<le> 90)"

section \<open>Matches\<close>

definition jump :: "FindBar \<Rightarrow> Pane \<Rightarrow> Pane" where
  "jump f p =
     (if fbMatches f = [] then p
      else let off = int (fbMatches f ! fbAt f) in FollowCursor (pn_Set p (off + int (length (fbTerm f))) off))"

text \<open>The loop of \<open>run\<close>: the matches, each searched for from one past the last.\<close>

definition all_matches :: "byte list \<Rightarrow> byte list \<Rightarrow> nat list" where
  "all_matches hay needle =
     (case Index hay needle of None \<Rightarrow> [] | Some i \<Rightarrow> i # occurrences hay needle (i + 1))"

definition run :: "(byte list \<Rightarrow> byte list) \<Rightarrow> FindBar \<Rightarrow> Pane \<Rightarrow> FindBar \<times> Pane" where
  "run lower f p =
     (let f = f\<lparr>fbTerm := inpText (fbInput f), fbMatches := [], fbAt := 0\<rparr>; term = fbTerm f
      in if term = [] then (f, p)
         else let t = fl_Text (pnFile p); (hay, needle) = (if hasUpper term then (t, term) else (lower t, lower term));
                  ms = all_matches hay needle; from = cuHead (primary p); p = touch_primary p;
                  at = length (takeWhile (\<lambda>m. int m < from) ms); f = f\<lparr>fbMatches := ms, fbAt := (if at < length ms then at else 0)\<rparr>
              in (f, jump f p))"

definition fb_step :: "int \<Rightarrow> FindBar \<Rightarrow> Pane \<Rightarrow> FindBar \<times> Pane" where
  "fb_step d f p =
     (if fbMatches f = [] then (f, p)
      else let n = int (length (fbMatches f)); f = f\<lparr>fbAt := nat ((int (fbAt f) + d + n) mod n)\<rparr> in (f, jump f p))"

definition fb_Step :: "(byte list \<Rightarrow> byte list) \<Rightarrow> int \<Rightarrow> FindBar \<Rightarrow> Pane \<Rightarrow> FindBar \<times> Pane" where
  "fb_Step lower dir f p =
     (if inpText (fbInput f) = [] then (f, p)
      else if fbMatches f = [] \<or> fbTerm f \<noteq> inpText (fbInput f)
      then let (f, p) = run lower f p in if 0 < dir then (f, p) else fb_step dir f p
      else fb_step dir f p)"

definition Highlight :: "FindBar \<Rightarrow> int \<Rightarrow> bool \<times> bool" where
  "Highlight f off =
     (if \<not> fbOpen f \<or> fbTerm f = [] then (False, False)
      else case find (\<lambda>(i, m). int m \<le> off \<and> off < int m + int (length (fbTerm f))) (enumerate 0 (fbMatches f)) of
             None \<Rightarrow> (False, False) | Some (i, _) \<Rightarrow> (True, i = fbAt f))"

section \<open>Replacing\<close>

definition replaceCurrent :: "(byte list \<Rightarrow> byte list) \<Rightarrow> FindBar \<Rightarrow> Pane \<Rightarrow> FindBar \<times> Pane" where
  "replaceCurrent lower f p =
     (if fbMatches f = [] then (f, p)
      else let off = int (fbMatches f ! fbAt f);
               p = in_change (\<lambda>p. applyEdit p off (int (length (fbTerm f))) (inpText (fbReplace f))) p; (f, p) = run lower f p
           in (f, FollowCursor p))"

definition replace_edits :: "FindBar \<Rightarrow> cursorEdit list" where
  "replace_edits f =
     map (\<lambda>m. \<lparr>cePos = int m, ceRemove = int (length (fbTerm f)), ceInsert = inpText (fbReplace f)\<rparr>) (fbMatches f)"

definition replaceAll :: "(byte list \<Rightarrow> byte list) \<Rightarrow> FindBar \<Rightarrow> Pane \<Rightarrow> FindBar \<times> Pane" where
  "replaceAll lower f p =
     (if fbMatches f = [] then (f, p)
      else case leaseBlocks p (replace_edits f) of
             Some q \<Rightarrow> (f, q)
           | None \<Rightarrow> run lower f (in_change (\<lambda>p. apply_edits p (rev (replace_edits f))) p))"

section \<open>The bar\<close>

definition Show :: "(byte list \<Rightarrow> byte list) \<Rightarrow> FindBar \<Rightarrow> Pane \<Rightarrow> FindBar \<times> Pane" where
  "Show lower f p =
     (let c = primary p; p = touch_primary p; (lo, hi) = cu_Range c;
          seed = (if HasSelection c then fl_Slice (pnFile p) lo (hi - lo) else [])
      in run lower (f\<lparr>fbOpen := True, fbInput := SetText seed (fbInput f), fbReplace := SetText [] (fbReplace f),
                      fbOnReplace := False, fbReplaceShown := False\<rparr>) p)"

definition Hide :: "FindBar \<Rightarrow> FindBar" where
  "Hide f = f\<lparr>fbOpen := False, fbMatches := [], fbOnReplace := False, fbReplaceShown := False\<rparr>"

definition fb_Rows :: "FindBar \<Rightarrow> nat" where
  "fb_Rows f = (if \<not> fbOpen f then 0 else if fbReplaceShown f then 2 else 1)"

definition ActiveInput :: "FindBar \<Rightarrow> Input option" where
  "ActiveInput f = (if \<not> fbOpen f then None else if fbOnReplace f then Some (fbReplace f) else Some (fbInput f))"

definition WouldEdit :: "FindBar \<Rightarrow> Action \<Rightarrow> bool" where
  "WouldEdit f a = (if a = ''line_below'' then True else if a = ''confirm'' then fbOnReplace f else False)"

definition fb_Handle :: "(byte list \<Rightarrow> byte list) \<Rightarrow> Action \<Rightarrow> byte list \<Rightarrow> FindBar \<Rightarrow> Pane \<Rightarrow> FindBar \<times> Pane" where
  "fb_Handle lower a t f p =
     (if a = ''cancel'' then (Hide f, p)
      else if a = ''find_next'' then fb_step 1 f p
      else if a = ''find_prev'' then fb_step (-1) f p
      else if a = ''confirm'' then (if fbOnReplace f then replaceCurrent lower f p else fb_step 1 f p)
      else if a = ''line_below'' then (if fbReplaceShown f then replaceAll lower f p else (f, p))
      else if a \<in> {''find_in_file'', ''line_down''} then fb_step 1 f p
      else if a = ''line_up'' then fb_step (-1) f p
      else if a = ''indent'' then (if fbOnReplace f then (f\<lparr>fbOnReplace := False\<rparr>, p)
                                   else (f\<lparr>fbReplaceShown := True, fbOnReplace := True\<rparr>, p))
      else if a = ''outdent'' then (f\<lparr>fbOnReplace := False\<rparr>, p)
      else if fbOnReplace f then (f\<lparr>fbReplace := snd (inp_Handle a t (fbReplace f))\<rparr>, p)
      else let (used, i) = inp_Handle a t (fbInput f); f = f\<lparr>fbInput := i\<rparr> in if used then run lower f p else (f, p))"

definition findPrefix :: string where "findPrefix = '' find: ''"
definition replacePrefix :: string where "replacePrefix = '' replace: ''"

definition fb_ClickAt :: "(nat \<Rightarrow> bool) \<Rightarrow> int \<Rightarrow> int \<Rightarrow> FindBar \<Rightarrow> bool \<times> FindBar" where
  "fb_ClickAt combining dx dy f =
     (if \<not> fbOpen f then (False, f)
      else if dy = 0
      then (True, f\<lparr>fbOnReplace := False, fbInput := PlaceCaret combining (dx - int (length findPrefix)) (fbInput f)\<rparr>)
      else if dy = 1 \<and> fbReplaceShown f
      then (True, f\<lparr>fbOnReplace := True, fbReplace := PlaceCaret combining (dx - int (length replacePrefix)) (fbReplace f)\<rparr>)
      else (False, f))"

end
