(* ===== verification/PaneAction.thy ===== *)
theory PaneAction
  imports PaneType PaneLines PaneFind
begin

text \<open>
  What a key or the pointer does to a pane: the pointer's cell as an offset (\<open>internal/editor/mouse.go\<close>), and the table of
  actions with the steps around them (\<open>actions.go\<close>). The find bar belongs to the pane and is kept beside
  it. \<open>env\<close> bundles what the pane asks of code outside: Go's classes of letters, its case folding, the highlighter, and the room a slice was given.
\<close>

section \<open>The pointer\<close>

definition offsetInRow :: "Pane \<Rightarrow> int \<Rightarrow> int \<Rightarrow> int \<Rightarrow> int" where
  "offsetInRow p line inner x =
     (let f = pnFile p; (sl, dlo, _, _) = pn_line p line in
      if sl < 0 then pn_DocAt p line x
      else let (breaks, text) = lineBreaks p line; n = int (length text);
               start = (if 0 < inner \<and> inner - 1 < int (length breaks) then breaks ! nat (inner - 1) else 0);
               stop = (if inner < int (length breaks) then breaks ! nat inner else n);
               start = (if n < start then n else start); stop = (if n < stop then n else stop);
               segment = sub_range start (stop - start) text; hs = fl_HintCols f sl
           in if hs \<noteq> [] \<and> start = 0 \<and> dlo = 0 then fl_LineStart f sl + OffsetOfHints (flCols f) segment x hs
              else fl_LineStart f sl + dlo + start + OffsetOf (flCols f) segment x)"

fun wrapped_walk :: "Pane \<Rightarrow> int \<Rightarrow> int \<Rightarrow> nat \<Rightarrow> int \<Rightarrow> int \<Rightarrow> int" where
  "wrapped_walk p x y 0 line row = fl_Len (pnFile p)"
| "wrapped_walk p x y (Suc k) line row =
     (let n = RowsInLine p line
      in if y < row + n then offsetInRow p line (max (y - row) 0) x else wrapped_walk p x y k (line + 1) (row + n))"

definition offsetAtWrapped :: "Pane \<Rightarrow> int \<Rightarrow> int \<Rightarrow> int" where
  "offsetAtWrapped p x y =
     (let v = pnView p in wrapped_walk p (max x 0) (max y 0) (nat (DisplayLines p - vpTop v)) (vpTop v) (- vpTopRow v))"

definition pn_OffsetAt :: "Pane \<Rightarrow> int \<Rightarrow> int \<Rightarrow> int" where
  "pn_OffsetAt p x y =
     (if pnWrap p then offsetAtWrapped p x y
      else let y = (if y < 0 then 0 else y); line = vpTop (pnView p) + y; last = DisplayLines p - 1;
               line = (if last < line then last else line)
           in if line < 0 then 0
              else let col = x + vpLeft (pnView p) in pn_DocAt p line (if col < 0 then 0 else col))"

definition pn_ClickAt :: "Pane \<Rightarrow> int \<Rightarrow> int \<Rightarrow> bool \<Rightarrow> Pane" where
  "pn_ClickAt p x y ext =
     (let off = pn_OffsetAt p x y in FollowCursor (pn_Set p off (if ext then cuAnchor (primary p) else off)))"

definition AddCursorAt :: "Pane \<Rightarrow> int \<Rightarrow> int \<Rightarrow> Pane" where
  "AddCursorAt p x y =
     (let off = pn_OffsetAt p x y in FollowCursor (pn_Replace p (csList (pnCursors p) @ [cursor_at off off])))"

definition ExtendTo :: "Pane \<Rightarrow> int \<Rightarrow> int \<Rightarrow> Pane" where
  "ExtendTo p x y = pn_Set p (pn_OffsetAt p x y) (cuAnchor (primary p))"

definition DragTo :: "Pane \<Rightarrow> int \<Rightarrow> int \<Rightarrow> Pane" where
  "DragTo p x y = FollowCursor (ExtendTo p x y)"

definition wordAround :: "File \<Rightarrow> int \<Rightarrow> int \<times> int" where
  "wordAround f off =
     (let line = fl_LineOf f off; start = fl_LineStart f line; text = fl_Line f line; i = off - start; n = int (length text)
      in if i < 0 \<or> n < i then (off, off)
         else let past = (i = n \<or> \<not> isWordByte (text ! nat i)); back = (0 < i \<and> isWordByte (text ! nat (i - 1)))
              in if past \<and> \<not> back then (off, off)
                 else let k = nat (if past then i - 1 else i);
                          a = int k - int (length (takeWhile isWordByte (rev (take k text))));
                          b = int k + int (length (takeWhile isWordByte (drop k text)))
                      in (start + a, start + b))"

definition SelectWordAt :: "Pane \<Rightarrow> int \<Rightarrow> int \<Rightarrow> Pane" where
  "SelectWordAt p x y = (let (lo, hi) = wordAround (pnFile p) (pn_OffsetAt p x y) in FollowCursor (pn_Set p hi lo))"

definition SelectLineAt :: "Pane \<Rightarrow> int \<Rightarrow> int \<Rightarrow> Pane" where
  "SelectLineAt p x y =
     (let f = pnFile p; line = fl_LineOf f (pn_OffsetAt p x y); start = fl_LineStart f line;
          stop = (if line + 1 < fl_Lines f then fl_LineStart f (line + 1) else fl_Len f)
      in FollowCursor (pn_Set p stop start))"

section \<open>Undo and redo\<close>

definition history :: "Op list \<Rightarrow> bool \<Rightarrow> Pane \<Rightarrow> Pane" where
  "history ops ok p =
     (if \<not> ok \<or> ops = [] then p
      else let puts = filter (\<lambda>q. 0 < InsLen q) ops; sites = (if puts = [] then ops else puts);
               at = (\<lambda>q. clamp (opPos q + InsLen q) 0 (fl_Len (pnFile p)))
           in FollowCursor (pn_Replace p (map (\<lambda>q. cursor_at (at q) (at q)) sites)))"

definition undo_action :: "Pane \<Rightarrow> Pane" where
  "undo_action p = (let (ops, ok, f) = fl_Undo (pnFile p) (pnAuthor p) in history ops ok (p\<lparr>pnFile := f\<rparr>))"

definition redo_action :: "Pane \<Rightarrow> Pane" where
  "redo_action p = (let (ops, ok, f) = fl_Redo (pnFile p) (pnAuthor p) in history ops ok (p\<lparr>pnFile := f\<rparr>))"

section \<open>The table\<close>

record env =
  envLetter :: "nat \<Rightarrow> bool"
  envLower :: "byte list \<Rightarrow> byte list"
  envCode :: "int \<Rightarrow> int \<Rightarrow> bool"
  envSpare :: nat

definition motionPairs :: "env \<Rightarrow> (Action \<times> Action \<times> (Pane \<Rightarrow> bool \<Rightarrow> Pane)) list" where
  "motionPairs e =
     [(''char_left'', ''sel_char_left'', CharLeft), (''char_right'', ''sel_char_right'', CharRight),
      (''line_up'', ''sel_line_up'', \<lambda>p. MoveVertical p (-1)), (''line_down'', ''sel_line_down'', \<lambda>p. MoveVertical p 1),
      (''line_start'', ''sel_line_start'', pn_LineStart), (''line_end'', ''sel_line_end'', pn_LineEnd),
      (''doc_start'', ''sel_doc_start'', DocStart), (''doc_end'', ''sel_doc_end'', DocEnd),
      (''word_left'', ''sel_word_left'', WordLeft (envLetter e)), (''word_right'', ''sel_word_right'', WordRight (envLetter e))]"

text \<open>The other actions: what each does, whether it moves a cursor, whether the view follows.\<close>

definition on_pane :: "(Pane \<Rightarrow> Pane) \<Rightarrow> FindBar \<times> Pane \<Rightarrow> FindBar \<times> Pane" where
  "on_pane g = (\<lambda>(f, p). (f, g p))"

definition paneActions :: "env \<Rightarrow> (Action \<times> (FindBar \<times> Pane \<Rightarrow> FindBar \<times> Pane) \<times> bool \<times> bool) list" where
  "paneActions e =
     [(''page_up'', on_pane (\<lambda>p. ScrollPage p (-1)), False, False), (''page_down'', on_pane (\<lambda>p. ScrollPage p 1), False, False),
      (''sel_page_up'', on_pane (\<lambda>p. MovePage p (-1) True), True, True),
      (''sel_page_down'', on_pane (\<lambda>p. MovePage p 1 True), True, True),
      (''backspace'', on_pane DeleteBackward, False, True), (''delete'', on_pane DeleteForward, False, True),
      (''delete_line'', on_pane DeleteLine, False, True), (''delete_to_line_end'', on_pane DeleteToLineEnd, False, True),
      (''line_below'', on_pane OpenLineBelow, False, True), (''line_above'', on_pane OpenLineAbove, False, True),
      (''indent'', on_pane pn_Indent, False, True), (''outdent'', on_pane Outdent, False, True),
      (''select_all'', on_pane SelectAll, False, True),
      (''find_next'', \<lambda>(f, p). fb_Step (envLower e) 1 f p, False, True),
      (''find_prev'', \<lambda>(f, p). fb_Step (envLower e) (-1) f p, False, True),
      (''select_line'', on_pane SelectLine, False, True),
      (''move_line_up'', on_pane (\<lambda>p. MoveLines p (-1)), False, True),
      (''move_line_down'', on_pane (\<lambda>p. MoveLines p 1), False, True),
      (''copy_line_up'', on_pane (\<lambda>p. CopyLines p (-1)), False, True),
      (''copy_line_down'', on_pane (\<lambda>p. CopyLines p 1), False, True),
      (''toggle_comment'', on_pane ToggleComment, False, True),
      (''undo'', on_pane undo_action, False, True), (''redo'', on_pane redo_action, False, True),
      (''cursor_undo'', on_pane (\<lambda>p. snd (popCursorHistory p)), False, True),
      (''cursor_above'', on_pane (\<lambda>p. AddCursorVertical (envSpare e) p (-1)), False, True), (''cursor_below'', on_pane (\<lambda>p. AddCursorVertical (envSpare e) p 1), False, True),
      (''add_next_occurrence'', on_pane (AddNextOccurrence (envLetter e)), False, True),
      (''all_occurrences'', on_pane (SelectAllOccurrences (envLetter e)), False, True),
      (''split_into_lines'', on_pane SplitIntoLines, False, True),
      (''cancel'', on_pane (\<lambda>p. p\<lparr>pnCursors := cs_Clear (pnCursors p)\<rparr>), False, True)]"

definition motionPairFor :: "env \<Rightarrow> Action \<Rightarrow> (Action \<times> Action \<times> (Pane \<Rightarrow> bool \<Rightarrow> Pane)) option" where
  "motionPairFor e a = find (\<lambda>(plain, sel, _). a = plain \<or> a = sel) (motionPairs e)"

definition isMotion :: "env \<Rightarrow> Action \<Rightarrow> bool" where
  "isMotion e a =
     (if motionPairFor e a \<noteq> None then True
      else case find (\<lambda>r. fst r = a) (paneActions e) of None \<Rightarrow> False | Some (_, _, motion, _) \<Rightarrow> motion)"

definition lookupAction :: "env \<Rightarrow> Action \<Rightarrow> ((FindBar \<times> Pane \<Rightarrow> FindBar \<times> Pane) \<times> bool) option" where
  "lookupAction e a =
     (case motionPairFor e a of
        Some (_, sel, fn) \<Rightarrow> Some (on_pane (\<lambda>p. fn p (a = sel)), True)
      | None \<Rightarrow> map_option (\<lambda>(_, fn, _, follow). (fn, follow)) (find (\<lambda>r. fst r = a) (paneActions e)))"

definition pn_Handle :: "env \<Rightarrow> Action \<Rightarrow> FindBar \<times> Pane \<Rightarrow> bool \<times> FindBar \<times> Pane" where
  "pn_Handle e a = (\<lambda>(f, p).
     let p = p\<lparr>pnFile := fl_Begin (pnFile p)\<rparr>; p = (if isMotion e a then pushCursorHistory p else p);
         (done, f, p) = (case lookupAction e a of
            None \<Rightarrow> (False, f, p)
          | Some (fn, follow) \<Rightarrow> let (f, p) = fn (f, p) in (True, f, if follow then FollowCursor p else p))
     in (done, f, p\<lparr>pnFile := fl_End (pnFile p)\<rparr>))"

end
