(* ===== verification/PaneEditProps.thy ===== *)
theory PaneEditProps
  imports PaneLaw PaneAction PaneProps SessionProps
begin

text \<open>
  Properties of editing in a pane: what typing at several cursors does to the text and leaves the cursors at, and that a
  gesture whose range meets a lease changes nothing.
\<close>

section \<open>The bounds of the word scans\<close>

text \<open>Every rune read takes a scan on, so that the bound it is given is never what ends it.\<close>

lemma prev_from_less: "prev_from f n \<le> int n \<and> (0 < n \<longrightarrow> prev_from f n < int n) \<and> 0 \<le> prev_from f n"
  by (induction n) auto

lemma rune_prev_less: "0 < i \<Longrightarrow> 0 \<le> snd (rune_prev p i) \<and> snd (rune_prev p i) < i"
  using prev_from_less[of "pnFile p" "nat i"] by (simp add: rune_prev_def prevBoundary_def Let_def)

lemma scan_back_enough: "nat look \<le> k \<Longrightarrow> scan_back letter p want (k + m) look = scan_back letter p want k look"
proof (induction k arbitrary: look)
  case 0
  then show ?case by (cases m) auto
next
  case (Suc k)
  show ?case
  proof (cases "0 < look")
    case True
    then have "nat (snd (rune_prev p look)) \<le> k" using rune_prev_less[of look p] Suc.prems by linarith
    then show ?thesis using Suc.IH by (simp add: split_beta Let_def)
  qed simp
qed

lemma rune_next_more:
  assumes "tl_inv (flSess (pnFile p))" "0 \<le> i" "i < fl_Len (pnFile p)"
  shows "i < snd (rune_next p i)"
proof -
  have n: "fl_Len (pnFile p) = int (length (fl_Text (pnFile p)))" using fl_Text_text[OF assms(1)] by simp
  have "fl_Slice (pnFile p) i (min 4 (fl_Len (pnFile p) - i)) \<noteq> []"
    using assms(2,3) by (simp add: n fl_Slice_text[OF assms(1)] sub_range_def) linarith
  then show ?thesis using DecodeRune_size assms by (fastforce simp: rune_next_def Let_def split: prod.splits)
qed

lemma scan_on_enough:
  assumes "tl_inv (flSess (pnFile p))" "0 \<le> look" "nat (fl_Len (pnFile p) - look) \<le> k"
  shows "scan_on letter p want (k + m) look = scan_on letter p want k look"
  using assms(2,3)
proof (induction k arbitrary: look)
  case 0
  then show ?case by (cases m) auto
next
  case (Suc k)
  show ?case
  proof (cases "look < fl_Len (pnFile p)")
    case True
    then have "nat (fl_Len (pnFile p) - snd (rune_next p look)) \<le> k" "0 \<le> snd (rune_next p look)"
      using rune_next_more[OF assms(1), of look] Suc.prems by linarith+
    then show ?thesis using Suc.IH by (simp add: split_beta Let_def)
  qed simp
qed

section \<open>Replacing at every cursor\<close>

definition placed_edits :: "(Cursor \<Rightarrow> int \<times> int \<times> byte list) \<Rightarrow> Cursor list \<Rightarrow> placed" where
  "placed_edits fn cs = map (\<lambda>c. (c, fn c)) cs"

lemma apply_edits_run: "apply_edits p (cursor_edits fn cs) = run_edits p (placed_edits fn cs)"
proof -
  have "apply_edits p (cursor_edits fn cs) =
      foldl (\<lambda>p (_, q, n, t). applyEdit p q n t) p (filter (\<lambda>(_, _, n, t). \<not> (n = 0 \<and> t = [])) (map (\<lambda>c. (c, fn c)) (rev cs)))"
  proof (induction "rev cs" arbitrary: cs p)
    case (Cons c ds)
    then have "cs = rev ds @ [c]" by (metis rev_rev_ident rev.simps(2))
    then show ?case using Cons(1)[of "rev ds"] by (simp add: apply_edits_def cursor_edits_def split: prod.splits)
  qed (simp add: apply_edits_def cursor_edits_def)
  then show ?thesis by (simp add: run_edits_def placed_edits_def rev_map)
qed

lemma leaseBlocks_free: "free_file (pnFile p) \<Longrightarrow> leaseBlocks p es = None"
  by (induction es) (simp_all add: fl_EditLeased_def free_not_leased)

lemma carets_settled:
  "sorted_wrt (\<lambda>(_, p, n, _) (_, q, _, _). p + n < q) es \<Longrightarrow> \<forall>(_, p, n, _) \<in> set es. 0 \<le> n \<Longrightarrow>
   apart (carets d es) \<and> (\<forall>c \<in> set (carets d es). cuHead c = cuAnchor c \<and>
     (case es of [] \<Rightarrow> True | (_, p, _, _) # _ \<Rightarrow> p + d \<le> cu_lo c)) \<and> length (carets d es) = length es"
proof (induction d es rule: carets.induct)
  case (2 d c p n t es)
  then have IH: "apart (carets (d + int (length t) - n) es)"
    "\<forall>x \<in> set (carets (d + int (length t) - n) es). cuHead x = cuAnchor x"
    "length (carets (d + int (length t) - n) es) = length es" by auto
  have "p + d + int (length t) < cu_lo x" if x: "x \<in> set (carets (d + int (length t) - n) es)" for x
  proof -
    obtain c' q k u fs where es: "es = (c', q, k, u) # fs" using x by (cases es) auto
    have "q + (d + int (length t) - n) \<le> cu_lo x" using 2 x by (auto simp: es)
    moreover have "p + n < q" using "2.prems"(1) by (simp add: es)
    ultimately show ?thesis by simp
  qed
  then show ?case using IH "2.prems"(2) by (fastforce simp: apart_def caret_at_def cu_lo_def cu_hi_def)
qed (simp add: apart_def)

lemma placed_carets:
  assumes "placed_ok len es"
  shows "apart (carets d es)" "\<forall>c \<in> set (carets d es). cuHead c = cuAnchor c" "length (carets d es) = length es"
proof -
  have "sorted_wrt (\<lambda>(_, p, n, _) (_, q, _, _). p + n < q) es" "\<forall>(_, p, n, _) \<in> set es. 0 \<le> n"
    using assms by (auto simp: placed_ok_def)
  from carets_settled[OF this, of d] show "apart (carets d es)" "\<forall>c \<in> set (carets d es). cuHead c = cuAnchor c"
    "length (carets d es) = length es" by blast+
qed

text \<open>The replacement at every cursor, when the ranges are apart and each is around its own cursor.\<close>

lemma editEachCursor_replaces:
  assumes "free_file (pnFile p)" "settled p" "placed_ok (fl_Len (pnFile p)) es" "es = placed_edits fn (csList (pnCursors p))"
    "room (flSess (pnFile p)) (pnAuthor p) (all_put es)"
  shows "\<exists>f. editEachCursor p fn = with_cursors (p\<lparr>pnFile := f\<rparr>) (carets 0 es) \<and> free_file f \<and>
    fl_Text f = replaced 0 es (fl_Text (pnFile p)) \<and> apart (carets 0 es)"
proof -
  have cs: "csList (pnCursors p) = map fst es @ []" using assms(4) by (simp add: placed_edits_def o_def)
  obtain f where f: "run_edits p es = with_cursors (p\<lparr>pnFile := f\<rparr>) (carets 0 es @ [])" "free_file f"
    "fl_Text f = replaced 0 es (fl_Text (pnFile p))"
    using run_edits_at[OF assms(3,1,2) cs _ _ assms(5)] by (auto simp: apart_def)
  let ?q = "with_cursors (p\<lparr>pnFile := f\<rparr>) (carets 0 es)"
  note C = placed_carets[OF assms(3), of 0]
  have "map (\<lambda>c. c\<lparr>cuAnchor := cuHead c\<rparr>) (carets 0 es) = carets 0 es" using C(2) by (intro map_idI) simp
  then have c: "pn_collapse ?q = ?q" by (simp add: pn_collapse_def CollapseSelections_def with_cursors_def)
  have "settled ?q" using assms(2) C(3) cs by (intro settled_with) simp_all
  then have n: "pn_normalize ?q = ?q" using C(1) by (intro pn_normalize_same) (simp_all add: settled_def)
  have "editEachCursor p fn = ?q"
    using f(1) c n by (simp add: editEachCursor_def leaseBlocks_free[OF assms(1)] apply_edits_run assms(4)[symmetric])
  then show ?thesis using f(2,3) C(1) by blast
qed

text \<open>C26: in a document without decisions, typing with several cursors whose selections lie apart replaces every selection
  by the text at once, each measured in the text as it was, and leaves one caret behind each copy, as many as before and in
  the same order, with the same one primary.\<close>

theorem typed_everywhere:
  assumes "tl_inv (flSess (pnFile p))" "\<not> HasDecisions (flSess (pnFile p))"
    "cs = csList (pnCursors p)" "0 \<le> csPrimary (pnCursors p)" "csPrimary (pnCursors p) < int (length cs)"
    "apart cs" "\<forall>c \<in> set cs. 0 \<le> cu_lo c \<and> cu_hi c \<le> fl_Len (pnFile p)"
    "room (flSess (pnFile p)) (pnAuthor p) (concat (replicate (length cs) t))"
    "es = map (\<lambda>c. (c, cu_lo c, cu_hi c - cu_lo c, t)) cs"
  shows "fl_Text (pnFile (InsertText p t)) = replaced 0 es (fl_Text (pnFile p)) \<and>
    csList (pnCursors (InsertText p t)) = carets 0 es \<and> length (carets 0 es) = length cs \<and> apart (carets 0 es) \<and>
    csPrimary (pnCursors (InsertText p t)) = csPrimary (pnCursors p)"
proof -
  have es: "es = placed_edits (replace_selection t) (csList (pnCursors p))"
    using assms(3,9) by (simp add: placed_edits_def replace_selection_def)
  have "sorted_wrt (\<lambda>(_, p, n, _) (_, q, _, _). p + n < q) es" using assms(6) by (simp add: assms(9) sorted_wrt_map apart_def)
  then have ok: "placed_ok (fl_Len (pnFile p)) es" using assms(7) cu_lo_hi by (auto simp: placed_ok_def assms(9))
  have "all_put es = concat (replicate (length cs) t)" by (simp add: all_put_def assms(9) rev_map o_def map_replicate_const)
  then have r: "room (flSess (pnFile p)) (pnAuthor p) (all_put es)" using assms(8) by simp
  have s: "settled p" using assms(3-5) by (simp add: settled_def cs_Count_def)
  have f: "free_file (pnFile p)" using assms(1,2) by (simp add: free_file_def)
  show ?thesis using placed_carets(3)[OF ok, of 0] editEachCursor_replaces[OF f s ok es r] by (auto simp: InsertText_def with_cursors_def assms(9))
qed

definition typing_pane :: Pane where
  "typing_pane = (NewPane (two_lines\<lparr>flSess := NewSession demo_buf\<rparr>))
     \<lparr>pnCursors := \<lparr>csList = [cursor_at 1 1, cursor_at 5 3], csPrimary = 0\<rparr>\<rparr>"

lemma typing_pane_facts:
  "tl_inv (flSess (pnFile typing_pane))" "\<not> HasDecisions (flSess (pnFile typing_pane))"
  "csList (pnCursors typing_pane) = [cursor_at 1 1, cursor_at 5 3]" "fl_Text (pnFile typing_pane) = [97, 98, 99, 100, 101, 102]"
  "fl_Len (pnFile typing_pane) = 6" "room (flSess (pnFile typing_pane)) (pnAuthor typing_pane) t"
  "csPrimary (pnCursors typing_pane) = 0"
proof -
  let ?f = "pnFile typing_pane"
  have s: "flSess ?f = NewSession demo_buf" "pnAuthor typing_pane = User" by (simp_all add: typing_pane_def NewPane_def)
  show "csList (pnCursors typing_pane) = [cursor_at 1 1, cursor_at 5 3]" "csPrimary (pnCursors typing_pane) = 0"
    by (simp_all add: typing_pane_def NewPane_def)
  show t: "tl_inv (flSess ?f)" unfolding s by (rule NewSession_tl[OF demo_fresh])
  show "\<not> HasDecisions (flSess ?f)" by (simp add: s NewSession_def HasDecisions_def)
  have x: "pe_text demo_buf = [97, 98, 99, 100, 101, 102]"
    using demo_fresh by (simp add: fresh_buffer_def demo_buf_def NewNaive_def NewStore_def Let_def)
  then show "fl_Text ?f = [97, 98, 99, 100, 101, 102]" "fl_Len ?f = 6" using fl_Text_text[OF t] s(1) by (simp_all add: NewSession_def)
  show "room (flSess ?f) (pnAuthor typing_pane) t"
    unfolding s by (rule room_naive[of _ "NewNaive [97, 98, 99, 100, 101, 102]"]) (simp_all add: NewSession_def demo_buf_def User_def)
qed

theorem typed_everywhere_witness:
  "fl_Text (pnFile (InsertText typing_pane [88])) = [97, 88, 98, 99, 88, 102] \<and>
   csList (pnCursors (InsertText typing_pane [88])) = [cursor_at 2 2, cursor_at 5 5]"
  using typed_everywhere[of typing_pane "[cursor_at 1 1, cursor_at 5 3]" "[88]", OF typing_pane_facts(1,2) _ _ _ _ _ typing_pane_facts(6) refl]
    typing_pane_facts
  by (simp add: apart_def cursor_at_def cu_lo_def cu_hi_def sub_range_def caret_at_def)

section \<open>Leases\<close>

lemma leaseBlocks_some:
  "e \<in> set es \<Longrightarrow> fl_EditLeased (pnFile p) (cePos e) (ceRemove e) \<noteq> None \<Longrightarrow>
   \<exists>g d. d \<in> set es \<and> fl_EditLeased (pnFile p) (cePos d) (ceRemove d) = Some g \<and> leaseBlocks p es = Some (noteLease p g)"
  by (induction es) (auto split: option.splits)

text \<open>C27: when any of the ranges a keystroke would edit meets a lease, nothing moves: the document, the cursors and
  everything else stay as they were and only the refusal is noted, naming the set that leases one of those ranges;
  taking the note leaves the pane as it was.\<close>

theorem leased_edit_moves_nothing:
  assumes "c \<in> set (csList (pnCursors p))" "fn c = (pos, n, t)" "n \<noteq> 0 \<or> t \<noteq> []" "Leased (flSess (pnFile p)) pos n \<noteq> None"
  shows "\<exists>g d q k u. d \<in> set (csList (pnCursors p)) \<and> fn d = (q, k, u) \<and> Leased (flSess (pnFile p)) q k = Some g \<and>
    editEachCursor p fn = p\<lparr>pnLeaseHit := g, pnLeaseBlocked := True\<rparr> \<and>
    TakeLeaseRefusal (editEachCursor p fn) = (Some g, p\<lparr>pnLeaseHit := 0, pnLeaseBlocked := False\<rparr>)"
proof -
  let ?es = "cursor_edits fn (csList (pnCursors p))"
  have "\<lparr>cePos = pos, ceRemove = n, ceInsert = t\<rparr> \<in> set ?es" using assms(1-3) by (force simp: cursor_edits_def)
  from leaseBlocks_some[OF this, of p] assms(4) obtain g e where e: "e \<in> set ?es"
    "fl_EditLeased (pnFile p) (cePos e) (ceRemove e) = Some g" "leaseBlocks p ?es = Some (noteLease p g)"
    by (auto simp: fl_EditLeased_def fl_Leased_def)
  obtain d where d: "d \<in> set (csList (pnCursors p))" "fn d = (cePos e, ceRemove e, ceInsert e)"
    using e(1) by (auto simp: cursor_edits_def split: prod.splits)
  have L: "Leased (flSess (pnFile p)) (cePos e) (ceRemove e) = Some g" using e(2) by (simp add: fl_EditLeased_def fl_Leased_def)
  then show ?thesis using d L e(3)
    by (intro exI[of _ g] exI[of _ d] exI[of _ "cePos e"] exI[of _ "ceRemove e"] exI[of _ "ceInsert e"])
       (simp add: editEachCursor_def noteLease_def TakeLeaseRefusal_def)
qed

text \<open>Typing over the first byte of a proposed set, with a second cursor further on.\<close>

definition leased_pane :: Pane where
  "leased_pane = (NewPane (two_lines\<lparr>flSess := MarkGroup demo2 1 Proposed\<rparr>))
     \<lparr>pnCursors := \<lparr>csList = [cursor_at 1 0, cursor_at 4 4], csPrimary = 0\<rparr>\<rparr>"

theorem leased_edit_moves_nothing_witness:
  "\<exists>g. InsertText leased_pane [88] = leased_pane\<lparr>pnLeaseHit := g, pnLeaseBlocked := True\<rparr>"
proof -
  have "Leased (MarkGroup demo2 1 Proposed) 0 1 = Some 1" by code_simp
  then have "Leased (flSess (pnFile leased_pane)) 0 1 \<noteq> None" by (simp add: leased_pane_def NewPane_def)
  moreover have "cursor_at 1 0 \<in> set (csList (pnCursors leased_pane))" by (simp add: leased_pane_def)
  moreover have "replace_selection [88] (cursor_at 1 0) = (0, 1, [88])"
    by (simp add: replace_selection_def cursor_at_def cu_lo_def cu_hi_def)
  ultimately show ?thesis using leased_edit_moves_nothing[of "cursor_at 1 0" leased_pane "replace_selection [88]" 0 1 "[88]"]
    by (fastforce simp: InsertText_def)
qed

end
