(* ===== verification/FindProps.thy ===== *)
theory FindProps
  imports PaneEditProps
begin

text \<open>
  Properties of the find bar: a search finds every place the term stands and no other, and goes to the next one; replacing
  all matches is the replacement of the term in the text when no two of them overlap.
\<close>

section \<open>The matches\<close>

text \<open>The places a term stands in a text, from an offset on.\<close>

definition places :: "byte list \<Rightarrow> byte list \<Rightarrow> nat \<Rightarrow> nat list" where
  "places t w s = filter (\<lambda>i. HasPrefix (drop i t) w) [s..<length t]"

lemma HasPrefix_length: "HasPrefix data p \<Longrightarrow> length p \<le> length data"
  by (metis HasPrefix_split le_add1 length_append)

lemma places_in: "i \<in> set (places t w s) \<Longrightarrow> s \<le> i \<and> i < length t \<and> i + length w \<le> length t"
  using HasPrefix_length[of "drop i t" w] by (auto simp: places_def)

lemma places_skip:
  assumes "s \<le> k" "k \<le> length t" "\<And>j. s \<le> j \<Longrightarrow> j < k \<Longrightarrow> \<not> HasPrefix (drop j t) w"
  shows "places t w s = places t w k"
proof -
  have "[s..<length t] = [s..<k] @ [k..<length t]" using assms(1,2) upt_add_eq_append[of s k "length t - k"] by simp
  then show ?thesis using assms(3) by (auto simp: places_def filter_empty_conv)
qed

lemma places_here: "HasPrefix (drop i t) w \<Longrightarrow> i < length t \<Longrightarrow> places t w i = i # places t w (Suc i)"
  by (simp add: places_def upt_conv_Cons)

lemma occurrences_places: "w \<noteq> [] \<Longrightarrow> occurrences t w s = places t w s"
proof (induction t w s rule: occurrences.induct)
  case (1 t w s)
  show ?case
  proof (cases "indexFrom t w s")
    case None
    have "\<not> HasPrefix (drop i t) w" if i: "s \<le> i" "i < length t" for i
    proof -
      have "Index (drop s t) w = None" using None i "1.prems" by (auto simp: indexFrom_def split: if_splits)
      from Index_None[OF this, of "i - s"] i have "\<not> HasPrefix (drop i t) w \<or> length (drop i t) < length w" by auto
      then show ?thesis using HasPrefix_length by fastforce
    qed
    then have "places t w s = []" by (auto simp: places_def filter_empty_conv)
    then show ?thesis using None by (simp add: occurrences.simps[of t w s])
  next
    case (Some i)
    then obtain k where k: "Index (drop s t) w = Some k" "i = s + k" "s < length t"
      by (auto simp: indexFrom_def split: if_splits)
    have h: "HasPrefix (drop i t) w" "i \<le> length t" using Index_Some[OF k(1)] k by (auto simp: add.commute)
    then have l: "i < length t" using HasPrefix_length[OF h(1)] "1.prems" by (cases w) auto
    have "\<not> HasPrefix (drop j t) w" if "s \<le> j" "j < i" for j
      using Index_first[OF k(1), of "j - s"] that k(2) by simp
    then have "places t w s = i # places t w (Suc i)" using places_skip[of s i t] places_here[OF h(1) l] k(2) h(2) by simp
    then show ?thesis using Some "1.IH"[OF Some "1.prems"] by (simp add: occurrences.simps[of t w s])
  qed
qed

lemma all_matches_places: "w \<noteq> [] \<Longrightarrow> all_matches t w = places t w 0"
proof -
  assume w: "w \<noteq> []"
  have "all_matches t w = occurrences t w 0"
    by (cases t) (simp_all add: w all_matches_def occurrences.simps[of _ w 0] indexFrom_def option.map_ident split: option.split)
  then show ?thesis using occurrences_places[OF w] by simp
qed

section \<open>Where a search goes\<close>

lemma set_top_fields [simp]: "pnFile (set_top p t) = pnFile p" "pnCursors (set_top p t) = pnCursors p"
  by (simp_all add: set_top_def clampWrapTop_def Let_def split: prod.split)

lemma followWrapped_fields:
  "touch_primary p = p \<Longrightarrow> pnFile (followCursorWrapped p) = pnFile p \<and> pnCursors (followCursorWrapped p) = pnCursors p"
  by (simp add: followCursorWrapped_def Let_def split: prod.split)

lemma Follow_one:
  assumes "csList (pnCursors p) = [c]" "csPrimary (pnCursors p) = 0"
  shows "csList (pnCursors (FollowCursor p)) = [c] \<and> pnFile (FollowCursor p) = pnFile p"
proof -
  have "touch_primary p = p" using assms by (simp add: touch_primary_def Primary_def cs_Count_def Let_def)
  then show ?thesis using followWrapped_fields[of p] assms(1) by (simp add: FollowCursor_def split: prod.split)
qed

lemma jump_pane:
  "pnFile (jump f p) = pnFile p \<and> (fbMatches f \<noteq> [] \<longrightarrow>
     csList (pnCursors (jump f p)) = [cursor_at (int (fbMatches f ! fbAt f) + int (length (fbTerm f))) (int (fbMatches f ! fbAt f))])"
proof -
  let ?o = "int (fbMatches f ! fbAt f)"
  let ?q = "pn_Set p (?o + int (length (fbTerm f))) ?o"
  have "csList (pnCursors ?q) = [cursor_at (?o + int (length (fbTerm f))) ?o]" "csPrimary (pnCursors ?q) = 0" "pnFile ?q = pnFile p"
    by (simp_all add: pn_Set_def cs_Set_def)
  then show ?thesis using Follow_one[of ?q] by (simp add: jump_def Let_def)
qed

lemma first_at:
  "sorted ms \<Longrightarrow> k = length (takeWhile (\<lambda>m. int m < x) ms) \<Longrightarrow>
   (k < length ms \<longrightarrow> x \<le> int (ms ! k)) \<and> (\<forall>j < k. int (ms ! j) < x) \<and> k \<le> length ms"
  using nth_length_takeWhile[of "\<lambda>m. int m < x" ms] takeWhile_nth[of _ "\<lambda>m. int m < x" ms] set_takeWhileD nth_mem
  by (metis length_takeWhile_le linorder_not_less)

lemma sorted_places: "sorted (places t w s)"
  by (simp add: places_def sorted_filter[of id, simplified])

text \<open>C28: a search finds exactly the offsets at which the term stands, overlapping ones too, in the text or, for a term
  without capitals, in the folded text; it leaves the document alone; and it selects the first match at or behind the caret,
  or the first of all when there is none.\<close>

theorem find_matches_exactly:
  assumes "inpText (fbInput f) = w" "w \<noteq> []" "t = fl_Text (pnFile p)"
    "(hay, needle) = (if hasUpper w then (t, w) else (lower t, lower w))" "needle \<noteq> []" "run lower f p = (g, q)"
  shows "fbMatches g = filter (\<lambda>i. HasPrefix (drop i hay) needle) [0..<length hay] \<and> pnFile q = pnFile p \<and>
    (fbMatches g \<noteq> [] \<longrightarrow> fbAt g < length (fbMatches g) \<and>
       csList (pnCursors q) = [cursor_at (int (fbMatches g ! fbAt g) + int (length w)) (int (fbMatches g ! fbAt g))] \<and>
       (if \<exists>m \<in> set (fbMatches g). cuHead (primary p) \<le> int m
        then cuHead (primary p) \<le> int (fbMatches g ! fbAt g) \<and> (\<forall>j < fbAt g. int (fbMatches g ! j) < cuHead (primary p))
        else fbAt g = 0))"
proof -
  define ms at where "ms = all_matches hay needle" and "at = length (takeWhile (\<lambda>m. int m < cuHead (primary p)) ms)"
  let ?g = "f\<lparr>fbTerm := w, fbMatches := ms, fbAt := (if at < length ms then at else 0)\<rparr>"
  have r: "g = ?g" "q = jump ?g (touch_primary p)"
    using assms by (auto simp: run_def Let_def ms_def at_def split: prod.splits if_splits)
  have ms: "ms = places hay needle 0" unfolding ms_def by (rule all_matches_places[OF assms(5)])
  have p: "pnFile (touch_primary p) = pnFile p" by (simp add: touch_primary_def)
  note A = first_at[of ms at "cuHead (primary p)", OF _ at_def] and J = jump_pane[of ?g "touch_primary p"]
  have A: "at < length ms \<longrightarrow> cuHead (primary p) \<le> int (ms ! at)" "\<forall>j < at. int (ms ! j) < cuHead (primary p)" "at \<le> length ms"
    using A sorted_places by (auto simp: ms)
  have none: "\<not> (\<exists>m \<in> set ms. cuHead (primary p) \<le> int m)" if "\<not> at < length ms"
    using A(2,3) that by (fastforce simp: in_set_conv_nth)
  have some: "\<exists>m \<in> set ms. cuHead (primary p) \<le> int m" if "at < length ms" using A(1) that nth_mem by blast
  have l: "fbAt g < length ms" if "ms \<noteq> []" using that r(1) by simp
  have c: "csList (pnCursors q) = [cursor_at (int (ms ! fbAt g) + int (length w)) (int (ms ! fbAt g))]" if "ms \<noteq> []"
    using J that r by simp
  have g: "fbMatches g = ms" "fbAt g = (if at < length ms then at else 0)" using r(1) by simp_all
  have "if \<exists>m \<in> set ms. cuHead (primary p) \<le> int m
      then cuHead (primary p) \<le> int (ms ! fbAt g) \<and> (\<forall>j < fbAt g. int (ms ! j) < cuHead (primary p)) else fbAt g = 0"
    using A none some g(2) by (cases "at < length ms") simp_all
  moreover have "pnFile q = pnFile p" using J p r(2) by simp
  moreover have "filter (\<lambda>i. HasPrefix (drop i hay) needle) [0..<length hay] = ms" by (simp add: ms places_def)
  ultimately show ?thesis using l c unfolding g(1) by blast
qed

definition find_bar :: "byte list \<Rightarrow> byte list \<Rightarrow> FindBar" where
  "find_bar w new =
     \<lparr>fbOpen = True, fbInput = SetText w \<lparr>inpText = [], inpCursor = 0, inpAnchor = 0, inpScroll = 0\<rparr>,
       fbReplace = SetText new \<lparr>inpText = [], inpCursor = 0, inpAnchor = 0, inpScroll = 0\<rparr>, fbMatches = [], fbAt = 0, fbTerm = w,
       fbOnReplace = False, fbReplaceShown = True\<rparr>"

theorem find_matches_exactly_witness:
  "\<exists>g q. run (\<lambda>s. s) (find_bar [98] []) typing_pane = (g, q) \<and> pnFile q = pnFile typing_pane \<and>
     fbMatches g = filter (\<lambda>i. HasPrefix (drop i (fl_Text (pnFile typing_pane))) [98]) [0..<length (fl_Text (pnFile typing_pane))]"
proof -
  obtain g q where r: "run (\<lambda>s. s) (find_bar [98] []) typing_pane = (g, q)" by fastforce
  have i: "inpText (fbInput (find_bar [98] [])) = [98]" by (simp add: find_bar_def SetText_def)
  have n: "(fl_Text (pnFile typing_pane), [98]) =
      (if hasUpper [98] then (fl_Text (pnFile typing_pane), [98]) else (fl_Text (pnFile typing_pane), [98]))" by simp
  from find_matches_exactly[OF i _ refl n _ r] r show ?thesis by blast
qed

section \<open>Replacing all matches\<close>

lemma pn_fields [simp]:
  "pnFile (pn_normalize p) = pnFile p" "pnAuthor (pn_normalize p) = pnAuthor p"
  "pnFile (pn_Shift p a b c) = pnFile p" "pnAuthor (pn_Shift p a b c) = pnAuthor p"
  "pnFile (bumpCursorsAt p a b) = pnFile p" "pnAuthor (bumpCursorsAt p a b) = pnAuthor p"
  by (simp_all add: pn_normalize_def pn_Shift_def pn_Apply_def pn_map_def bumpCursorsAt_def Let_def)

lemma applyEdit_file:
  assumes "free_file (pnFile p)" "0 \<le> pos" "0 \<le> n" "pos + n \<le> fl_Len (pnFile p)" "room (flSess (pnFile p)) (pnAuthor p) (t @ u)"
  shows "free_file (pnFile (applyEdit p pos n t))" "pnAuthor (applyEdit p pos n t) = pnAuthor p"
    "fl_Text (pnFile (applyEdit p pos n t)) = put_at pos t (cut_range pos n (fl_Text (pnFile p)))"
    "room (flSess (pnFile (applyEdit p pos n t))) (pnAuthor p) u"
proof -
  let ?a = "pnAuthor p" and ?q = "if 0 < n then cut_out p pos n else p"
  have q: "free_file (pnFile ?q) \<and> pnAuthor ?q = ?a \<and> fl_Text (pnFile ?q) = cut_range pos n (fl_Text (pnFile p)) \<and>
      room (flSess (pnFile ?q)) ?a (t @ u)"
    using assms cut_file[OF assms(1,2) _ assms(4), of ?a] by (cases "0 < n") (simp_all add: cut_out_def cut_range_def)
  have e: "applyEdit p pos n t = (if t \<noteq> [] then put_in ?q pos t else ?q)"
    using free_not_leased[OF assms(1)] by (simp add: applyEdit_def fl_EditLeased_def)
  have l: "pos \<le> fl_Len (pnFile ?q)"
    using q free_len[of "pnFile ?q"] free_len[OF assms(1)] assms(2-4) by (simp add: cut_range_def)
  have "free_file (pnFile (applyEdit p pos n t)) \<and> pnAuthor (applyEdit p pos n t) = ?a \<and>
      fl_Text (pnFile (applyEdit p pos n t)) = put_at pos t (cut_range pos n (fl_Text (pnFile p))) \<and>
      room (flSess (pnFile (applyEdit p pos n t))) ?a u"
  proof (cases "t = []")
    case True
    then show ?thesis using q e by (simp add: put_at_def)
  next
    case False
    then show ?thesis using q e put_file[of "pnFile ?q" pos t ?a u, OF _ assms(2) l] by (simp add: put_in_def)
  qed
  then show "free_file (pnFile (applyEdit p pos n t))" "pnAuthor (applyEdit p pos n t) = ?a"
    "fl_Text (pnFile (applyEdit p pos n t)) = put_at pos t (cut_range pos n (fl_Text (pnFile p)))"
    "room (flSess (pnFile (applyEdit p pos n t))) ?a u" by blast+
qed

text \<open>The same text at a list of places, from the last one down.\<close>

definition stamps :: "int \<Rightarrow> byte list \<Rightarrow> nat list \<Rightarrow> placed" where
  "stamps n t ms = map (\<lambda>m. (cursor_at 0 0, int m, n, t)) ms"

lemma stamped:
  "free_file (pnFile p) \<Longrightarrow> 0 \<le> n \<Longrightarrow> sorted_wrt (\<lambda>a b. int a + n \<le> int b) ms \<Longrightarrow>
   \<forall>m \<in> set ms. int m + n \<le> fl_Len (pnFile p) \<Longrightarrow> room (flSess (pnFile p)) (pnAuthor p) (concat (replicate (length ms) t)) \<Longrightarrow>
   fl_Text (pnFile (foldl (\<lambda>p m. applyEdit p (int m) n t) p (rev ms))) = replaced 0 (stamps n t ms) (fl_Text (pnFile p))"
proof (induction ms arbitrary: p rule: rev_induct)
  case (snoc m ms)
  let ?p = "applyEdit p (int m) n t" and ?tx = "fl_Text (pnFile p)"
  have o: "sorted_wrt (\<lambda>a b. int a + n \<le> int b) ms" "\<forall>k \<in> set ms. int k + n \<le> int m" "int m + n \<le> fl_Len (pnFile p)"
    using snoc.prems(3,4) by (auto simp: sorted_wrt_append)
  have "replicate (length (ms @ [m])) t = t # replicate (length ms) t" by simp
  then have "room (flSess (pnFile p)) (pnAuthor p) (t @ concat (replicate (length ms) t))" using snoc.prems(5) by simp
  note E = applyEdit_file[OF snoc.prems(1) _ snoc.prems(2) o(3) this]
  have len: "fl_Len (pnFile p) = int (length ?tx)" by (rule free_len[OF snoc.prems(1)])
  have pt: "put_at (int m) t (cut_range (int m) n ?tx) = take m ?tx @ t @ drop (nat (int m + n)) ?tx"
    using put_cut_take[of "int m" n ?tx t] snoc.prems(2) o(3) len by simp
  have "int m \<le> fl_Len (pnFile ?p)" using free_len[OF E(1)] E(3) pt o(3) snoc.prems(2) len by simp
  then have "\<forall>k \<in> set ms. int k + n \<le> fl_Len (pnFile ?p)" using o(2) by fastforce
  then have "fl_Text (pnFile (foldl (\<lambda>p m. applyEdit p (int m) n t) ?p (rev ms))) = replaced 0 (stamps n t ms) (fl_Text (pnFile ?p))"
    using E(1,2,4) o(1) snoc.prems(2) by (intro snoc.IH) simp_all
  moreover have "replaced 0 (stamps n t (ms @ [m])) ?tx = replaced 0 (stamps n t ms) (take m ?tx @ t @ drop (nat (int m + n)) ?tx)"
  proof -
    have "sorted_wrt (\<lambda>(_, p, n, _) (_, q, _, _). p + n \<le> q) (stamps n t ms)" using o(1) by (simp add: stamps_def sorted_wrt_map)
    moreover have "case stamps n t ms of [] \<Rightarrow> True | (_, q, _, _) # _ \<Rightarrow> 0 \<le> q" by (cases ms) (simp_all add: stamps_def)
    ultimately have "replaced 0 (stamps n t ms @ [(cursor_at 0 0, int m, n, t)]) ?tx =
        replaced 0 (stamps n t ms) (take (nat (int m)) ?tx @ t @ drop (nat (int m + n)) ?tx)"
      using snoc.prems(2) o(2,3) len by (intro replaced_last) (auto simp: stamps_def)
    then show ?thesis by (simp add: stamps_def)
  qed
  ultimately show ?case using E(3) pt by simp
qed (simp add: stamps_def)

definition overlapping :: "byte list \<Rightarrow> byte list \<Rightarrow> bool" where
  "overlapping t w \<longleftrightarrow> (\<exists>i \<in> set (places t w 0). \<exists>j \<in> set (places t w 0). i < j \<and> j < i + length w)"

lemma replaced_next:
  assumes "at < length t" "case es of [] \<Rightarrow> True | (_, p, _, _) # _ \<Rightarrow> int (Suc at) \<le> p"
  shows "replaced (int at) es t = t ! at # replaced (int (Suc at)) es t"
proof (cases es)
  case Nil
  then show ?thesis using assms(1) by (simp add: Cons_nth_drop_Suc nat_add_distrib)
next
  case (Cons e fs)
  obtain c p n u where e: "e = (c, p, n, u)" by (cases e) blast
  have "nat (p - int at) = Suc (nat (p - int (Suc at)))" using assms(2) by (simp add: Cons e)
  then have "sub_range (int at) (p - int at) t = t ! at # sub_range (int (Suc at)) (p - int (Suc at)) t"
    using assms(1) Cons_nth_drop_Suc[OF assms(1)] unfolding sub_range_def by (metis nat_int take_Suc_Cons)
  then show ?thesis by (simp add: Cons e)
qed

lemma places_first: "case stamps n u (places t w s) of [] \<Rightarrow> True | (_, p, _, _) # _ \<Rightarrow> int s \<le> p"
proof (cases "places t w s")
  case (Cons m ms)
  then have "m \<in> set (places t w s)" by simp
  then show ?thesis using places_in Cons by (fastforce simp: stamps_def)
qed (simp add: stamps_def)

lemma stamped_replace_all:
  assumes "w \<noteq> []" "\<not> overlapping t w"
  shows "at \<le> length t \<Longrightarrow> replaced (int at) (stamps (int (length w)) new (places t w at)) t = replace_all w new (drop at t)"
proof (induction "length t - at" arbitrary: at rule: less_induct)
  case less
  show ?case
  proof (cases "at < length t")
    case False
    then show ?thesis using less.prems by (simp add: places_def stamps_def)
  next
    case True
    have d: "drop at t = t ! at # drop (Suc at) t" using Cons_nth_drop_Suc[OF True] by simp
    show ?thesis
    proof (cases "HasPrefix (drop at t) w")
      case h: True
      have l: "at + length w \<le> length t" "0 < length w" using HasPrefix_length[OF h] assms(1) True by simp_all
      have "\<not> HasPrefix (drop j t) w" if j: "Suc at \<le> j" "j < at + length w" for j
      proof
        assume "HasPrefix (drop j t) w"
        then have "at \<in> set (places t w 0)" "j \<in> set (places t w 0)" using h True j l(1) by (simp_all add: places_def)
        then show False using assms(2) j by (auto simp: overlapping_def)
      qed
      then have "places t w (Suc at) = places t w (at + length w)" by (rule places_skip[rotated 2]) (use l in linarith)+
      then have "places t w at = at # places t w (at + length w)" using places_here[OF h True] by simp
      moreover have "replace_all w new (drop at t) = new @ replace_all w new (drop (at + length w) t)"
        using d h assms(1) by (metis (no_types, lifting) add.commute drop_drop replace_all.simps(2))
      moreover have "replaced (int (at + length w)) (stamps (int (length w)) new (places t w (at + length w))) t =
          replace_all w new (drop (at + length w) t)"
      proof (rule less.hyps)
        show "length t - (at + length w) < length t - at" using l True by linarith
      qed (rule l(1))
      ultimately show ?thesis by (simp add: stamps_def sub_range_def)
    next
      case h: False
      then have "\<not> HasPrefix (drop j t) w" if "at \<le> j" "j < Suc at" for j using that le_antisym by (metis less_Suc_eq_le)
      then have p: "places t w at = places t w (Suc at)" by (rule places_skip[rotated 2]) (use True in linarith)+
      have "replaced (int (Suc at)) (stamps (int (length w)) new (places t w (Suc at))) t = replace_all w new (drop (Suc at) t)"
        using True by (intro less.hyps) simp_all
      moreover have "replace_all w new (drop at t) = t ! at # replace_all w new (drop (Suc at) t)" using d h by simp
      ultimately show ?thesis unfolding p replaced_next[OF True places_first] by simp
    qed
  qed
qed



text \<open>Where matches overlap it is not: replacing \<open>aa\<close> in \<open>aaa\<close> by \<open>x\<close> replaces the second match first and then the two
  bytes now at the first, the new text among them, and leaves \<open>x\<close> where \<open>strings.ReplaceAll\<close> gives \<open>xa\<close>.\<close>

lemma overlapping_replaced:
  "replaced 0 (stamps 2 [120] [1]) [97, 97, 97] = [97, 120] \<and> replaced 0 (stamps 2 [120] [0]) [97, 120] = [120] \<and>
   replace_all [97, 97] [120] [97, 97, 97] = [120, 97 :: byte]"
  by (simp add: stamps_def sub_range_def HasPrefix_def)

end
