(* ===== verification/FileReload.thy ===== *)
theory FileReload
  imports FindProps EditorProps
begin

text \<open>
  Documents and the disk (\<open>Open\<close> of \<open>file.go\<close>, \<open>reload.go\<close>, \<open>readonly.go\<close>, \<open>snapshot.go\<close>) and the marks of what is
  proposed in a pane (\<open>proposals.go\<close>). What \<open>os.Stat\<close> and \<open>os.ReadFile\<close> answer is an argument: whether the path is a
  directory and its size, if it could be asked, and its bytes. The timestamp kept of the disk is left out.
\<close>

section \<open>Reading\<close>

datatype read_result = Bytes "byte list" | NotExist | ReadError

datatype disk_error = OpenInvalid | ErrIsDir | ErrTooLarge | ErrRead | ErrDecode text_error

definition MaxFileSize :: int where "MaxFileSize = 256 * 2 ^ 20"

definition stat_refuses :: "(bool \<times> int) option \<Rightarrow> disk_error option" where
  "stat_refuses st =
     (case st of None \<Rightarrow> None
      | Some (dir, n) \<Rightarrow> if dir then Some ErrIsDir else if MaxFileSize < n then Some ErrTooLarge else None)"

definition fl_Open ::
  "(byte list \<Rightarrow> digest) \<Rightarrow> (nat \<Rightarrow> bool) \<Rightarrow> (bool \<times> int) option \<Rightarrow> read_result \<Rightarrow> string \<Rightarrow> int \<Rightarrow> (disk_error, File) sum" where
  "fl_Open sha combining st got path tab =
     (case stat_refuses st of
        Some e \<Rightarrow> Inl e
      | None \<Rightarrow>
          if got = ReadError then Inl ErrRead
          else let data = (case got of Bytes d \<Rightarrow> d | _ \<Rightarrow> [])
               in case decode data of
                    Inl e \<Rightarrow> Inl (ErrDecode e)
                  | Inr (t, ec) \<Rightarrow> Inr ((NewFile sha combining path t tab)\<lparr>flEnc := ec, flSavedDisk := sha data\<rparr>))"

definition NewReadOnlyFile :: "(byte list \<Rightarrow> digest) \<Rightarrow> (nat \<Rightarrow> bool) \<Rightarrow> string \<Rightarrow> byte list \<Rightarrow> int \<Rightarrow> File" where
  "NewReadOnlyFile sha combining path content tab = (NewFile sha combining path content tab)\<lparr>flReadOnly := True\<rparr>"

definition IsReadOnly :: "File \<Rightarrow> bool" where "IsReadOnly f = flReadOnly f"

section \<open>Reloading\<close>

text \<open>A refusal comes before the first change, so the file is returned only with success.\<close>

definition fl_Reload :: "(byte list \<Rightarrow> digest) \<Rightarrow> (bool \<times> int) option \<Rightarrow> read_result \<Rightarrow> File \<Rightarrow> (disk_error, File) sum" where
  "fl_Reload sha st got f =
     (if flPath f = [] then Inl OpenInvalid
      else case stat_refuses st of
        Some e \<Rightarrow> Inl e
      | None \<Rightarrow>
          case got of
            Bytes data \<Rightarrow>
              (case decode data of
                 Inl e \<Rightarrow> Inl (ErrDecode e)
               | Inr (t, ec) \<Rightarrow>
                   let (style, src) = IndentFor (flPath f) t (flIndent f);
                       style = (if 0 < flExplicitWidth f then style\<lparr>inWidth := flExplicitWidth f\<rparr> else style);
                       s = NewSession (DocBuf (NewDoc t 0))
                   in Inr (markSavedBytes sha t data
                        (f\<lparr>flEnc := ec, flIndent := style, flIndentFrom := src, flSess := s, flIdx := NewIndex t,
                           flApplied := Version s, flNewline := no_piece\<rparr>)))
          | _ \<Rightarrow> Inl ErrRead)"

definition pn_Reload :: "(byte list \<Rightarrow> digest) \<Rightarrow> (bool \<times> int) option \<Rightarrow> read_result \<Rightarrow> Pane \<Rightarrow> disk_error option \<times> Pane" where
  "pn_Reload sha st got p =
     (let (line, col) = fl_LineCol (pnFile p) (cuHead (primary p)); p = touch_primary p
      in case fl_Reload sha st got (pnFile p) of
           Inl e \<Rightarrow> (Some e, p)
         | Inr f \<Rightarrow>
             let p = invalidateDisplay (p\<lparr>pnFile := f\<rparr>);
                 line = (if fl_Lines f - 1 < line then fl_Lines f - 1 else line); line = (if line < 0 then 0 else line);
                 off = fl_OffsetAt f line col; p = p\<lparr>pnCursors := cs_Clear (pnCursors p)\<rparr>
             in (None, FollowCursor (pn_Set p off off)))"

section \<open>Snapshots\<close>

definition OpenSnapshotSession ::
  "(byte list \<Rightarrow> digest) \<Rightarrow> (nat \<Rightarrow> bool) \<Rightarrow> string \<Rightarrow> session \<Rightarrow> TextEncoding \<Rightarrow> int \<Rightarrow> File" where
  "OpenSnapshotSession sha combining path s ec tab =
     (let t = pe_Slice (sBuf s) 0 (pe_Len (sBuf s)); (style, src) = IndentFor path t \<lparr>inTabs = False, inWidth = tab\<rparr>
      in noteDecisions
           ((NewFile sha combining path [] tab)\<lparr>flSess := s, flIdx := NewIndex t, flIndent := style, flIndentFrom := src,
              flApplied := Version s, flEnc := ec, flSnapshot := True\<rparr>))"

definition OpenSnapshot ::
  "(byte list \<Rightarrow> digest) \<Rightarrow> (nat \<Rightarrow> bool) \<Rightarrow> string \<Rightarrow> snapshot \<Rightarrow> TextEncoding \<Rightarrow> int \<Rightarrow> (snapshot_error, File) sum" where
  "OpenSnapshot sha combining path sn ec tab =
     (case Restore sn of Inl e \<Rightarrow> Inl e | Inr s \<Rightarrow> Inr (OpenSnapshotSession sha combining path s ec tab))"

section \<open>Marks of what is proposed\<close>

record PendingMark =
  pmGroup :: nat
  pmAuthor :: author
  pmStart :: int
  pmEnd :: int
  pmLine :: int
  pmRemoved :: bool
  pmOps :: nat
  pmBytes :: int

definition PendingMarks :: "Pane \<Rightarrow> PendingMark list" where
  "PendingMarks p =
     concat (map (\<lambda>g. map (\<lambda>h. \<lparr>pmGroup = gID (gdGroup g), pmAuthor = gAuthor (gdGroup g), pmStart = dhStart h, pmEnd = dhEnd h,
         pmLine = fl_LineOf (pnFile p) (dhStart h), pmRemoved = dhNew h = [], pmOps = gOps (gdGroup g), pmBytes = gBytes (gdGroup g)\<rparr>)
       (gdHunks g)) (DiffPending (flSess (pnFile p))))"

definition mark_DispLine :: "PendingMark \<Rightarrow> Pane \<Rightarrow> int" where
  "mark_DispLine m p = pn_DispOfDocLine p (pmLine m)"

definition CoversLine :: "PendingMark \<Rightarrow> File \<Rightarrow> int \<Rightarrow> bool" where
  "CoversLine m f line =
     (let first = pmLine m; lst = (if pmStart m < pmEnd m then fl_LineOf f (pmEnd m - 1) else first) in first \<le> line \<and> line \<le> lst)"

section \<open>What a reload leaves\<close>

text \<open>C31: a reload either is refused and leaves the document as it was, or leaves it with the text its bytes decode to, in
  their encoding, with a line index in step, the digest of those bytes as the last saved, no history to undo, not dirty, and
  one cursor.\<close>

theorem reload_takes_disk:
  assumes "pn_Reload sha st got p = (e, q)"
  shows "case e of Some _ \<Rightarrow> pnFile q = pnFile p
    | None \<Rightarrow> \<exists>data t ec. got = Bytes data \<and> decode data = Inr (t, ec) \<and> flEnc (pnFile q) = ec \<and> flSavedDisk (pnFile q) = sha data \<and>
        (int (length t) < 2 ^ 62 \<longrightarrow> fl_Text (pnFile q) = t \<and> file_inv (pnFile q)) \<and>
        sJournal (flSess (pnFile q)) = [] \<and> \<not> fst (fl_Dirty sha (pnFile q)) \<and> cs_Count (pnCursors q) = 1"
proof -
  let ?f = "pnFile p" and ?at = "fl_LineCol (pnFile p) (cuHead (primary p))"
  have tp: "pnFile (touch_primary p) = ?f" by (simp add: touch_primary_def)
  show ?thesis
  proof (cases "fl_Reload sha st got ?f")
    case (Inl x)
    then show ?thesis using assms tp by (auto simp: pn_Reload_def Let_def split: prod.splits)
  next
    case (Inr f)
    obtain data t ec where d: "got = Bytes data" "decode data = Inr (t, ec)"
      using Inr by (auto simp: fl_Reload_def split: if_splits option.splits read_result.splits sum.splits)
    let ?s = "NewSession (DocBuf (NewDoc t 0))"
    have f: "flSess f = ?s" "flEnc f = ec" "flIdx f = NewIndex t" "flApplied f = Version ?s" "flSavedDisk f = sha data"
      "flSaved f = Version ?s" "flSavedGen f = flDecisionGen f" "flCleanKnow f = False"
      using Inr d by (auto simp: fl_Reload_def markSavedBytes_def Let_def split: if_splits option.splits prod.splits)
    obtain off r where q: "e = None" "q = FollowCursor (pn_Set r off off)" "pnFile r = f"
      using assms Inr tp by (auto simp: pn_Reload_def Let_def invalidateDisplay_def ClearFolds_def split: prod.splits)
    have Q: "pnFile q = f" "cs_Count (pnCursors q) = 1"
      using Follow_one[of "pn_Set r off off"] q by (simp_all add: pn_Set_def cs_Set_def cs_Count_def)
    have j: "sJournal ?s = []" "Version ?s = 0" by (simp_all add: NewSession_def Version_def)
    have "fl_Text f = t \<and> file_inv f" if "int (length t) < 2 ^ 62"
    proof -
      note N = NewFile_inv[OF that, of sha "\<lambda>_. False" "[]" 4]
      have n: "flSess (NewFile sha (\<lambda>_. False) [] t 4) = ?s" "flIdx (NewFile sha (\<lambda>_. False) [] t 4) = NewIndex t"
        "flApplied (NewFile sha (\<lambda>_. False) [] t 4) = 0"
        by (simp_all add: NewFile_def markSaved_def markSavedBytes_def blank_file_def Let_def)
      show ?thesis using N f j(2) n by (simp add: file_inv_def fl_Text_def)
    qed
    moreover have "\<not> fst (fl_Dirty sha f)" using f by (simp add: fl_Dirty_def Let_def)
    ultimately show ?thesis using Q q(1) d f j(1) by (auto intro!: exI[of _ data] exI[of _ t] exI[of _ ec])
  qed
qed

theorem reload_takes_disk_witness:
  "\<exists>q. pn_Reload (\<lambda>b. b) None (Bytes latin1_file) (NewPane two_lines) = (None, q) \<and>
     fl_Text (pnFile q) = [0x63, 0xC3, 0xA9, 10] \<and> file_inv (pnFile q)"
proof -
  obtain e q where r: "pn_Reload (\<lambda>b. b) None (Bytes latin1_file) (NewPane two_lines) = (e, q)" by fastforce
  have "flPath two_lines \<noteq> []" by (simp add: two_lines_fields)
  then have "e = None"
    using r latin1_file_decode
    by (auto simp: pn_Reload_def fl_Reload_def stat_refuses_def touch_primary_def NewPane_def Let_def split: prod.splits)
  with reload_takes_disk[OF r] obtain data t ec where "Bytes latin1_file = Bytes data" "decode data = Inr (t, ec)"
    "int (length t) < 2 ^ 62 \<longrightarrow> fl_Text (pnFile q) = t \<and> file_inv (pnFile q)" by auto
  then show ?thesis using latin1_file_decode r \<open>e = None\<close> by fastforce
qed

end
